(* ===== verification/Prelude.thy ===== *)
theory Prelude
  imports Main "HOL-Library.Word"
begin

text \<open>
  Shared vocabulary of the development.
  \<^item> C run-time faults and the result type \<open>'a res\<close> of code that may fault, its sequencing
    \<open>bindR\<close>, bounds-checked array accesses and the C \<open>for\<close> loop over an index;
  \<^item> conversions of C integer types (\<open>int\<close> of 32 bits, \<open>long\<close> of 64 bits);
  \<^item> counting lemmas for periodic events, and list-update lemmas the components share.
\<close>

section \<open>Collections of lemmas\<close>

named_theorems res_simps \<open>evaluation of faulting computations\<close>
named_theorems slot_simps \<open>per-slot effect of the scheduler operations\<close>
named_theorems wf_intros \<open>preservation of well-formedness\<close>

section \<open>Faulting computations\<close>

text \<open>
  Undefined behaviour a C statement of the program can run into: an array access outside the
  array, a call through a null function pointer, the use of a thread descriptor that no call has
  written, and an integer division by zero.
\<close>

datatype fault = Out_Of_Bounds | Null_Call | Bad_Handle | Div_By_Zero

type_synonym 'a res = "fault + 'a"

definition bindR :: "'e + 'a \<Rightarrow> ('a \<Rightarrow> 'e + 'b) \<Rightarrow> 'e + 'b" where
  "bindR m k = (case m of Inl e \<Rightarrow> Inl e | Inr x \<Rightarrow> k x)"

definition arr_get :: "'a list \<Rightarrow> nat \<Rightarrow> 'a res" where
  "arr_get xs i = (if i < length xs then Inr (xs ! i) else Inl Out_Of_Bounds)"

definition arr_set :: "'a list \<Rightarrow> nat \<Rightarrow> 'a \<Rightarrow> 'a list res" where
  "arr_set xs i v = (if i < length xs then Inr (xs[i := v]) else Inl Out_Of_Bounds)"

text \<open>The loop \<^verbatim>\<open>for (i = lo; i < hi; i++) s = body(i, s);\<close>\<close>

function for_up :: "nat \<Rightarrow> nat \<Rightarrow> (nat \<Rightarrow> 's \<Rightarrow> 'e + 's) \<Rightarrow> 's \<Rightarrow> 'e + 's" where
  "for_up i hi body s =
     (if i < hi then (case body i s of Inl e \<Rightarrow> Inl e | Inr s' \<Rightarrow> for_up (Suc i) hi body s')
      else Inr s)"
  by pat_completeness auto
termination
  by (relation "measure (\<lambda>(i, hi, body, s). hi - i)") auto

declare for_up.simps [simp del]

lemma bindR_Inl [simp, res_simps]: "bindR (Inl e) k = Inl e"
  by (simp add: bindR_def)

lemma bindR_Inr [simp, res_simps]: "bindR (Inr x) k = k x"
  by (simp add: bindR_def)

lemma bindR_assoc: "bindR (bindR m f) g = bindR m (\<lambda>x. bindR (f x) g)"
  by (cases m) simp_all

lemma bindR_eq_InrE:
  assumes "bindR m k = Inr y"
  obtains x where "m = Inr x" and "k x = Inr y"
  using assms by (cases m) auto

lemma arr_get_in [simp, res_simps]: "i < length xs \<Longrightarrow> arr_get xs i = Inr (xs ! i)"
  by (simp add: arr_get_def)

lemma arr_get_out [simp, res_simps]: "length xs \<le> i \<Longrightarrow> arr_get xs i = Inl Out_Of_Bounds"
  by (simp add: arr_get_def)

lemma arr_set_in [simp, res_simps]: "i < length xs \<Longrightarrow> arr_set xs i v = Inr (xs[i := v])"
  by (simp add: arr_set_def)

lemma arr_set_out [simp, res_simps]: "length xs \<le> i \<Longrightarrow> arr_set xs i v = Inl Out_Of_Bounds"
  by (simp add: arr_set_def)

lemma for_up_done [simp]: "hi \<le> i \<Longrightarrow> for_up i hi body s = Inr s"
  by (simp add: for_up.simps)

lemma for_up_step: "i < hi \<Longrightarrow> for_up i hi body s = bindR (body i s) (for_up (Suc i) hi body)"
  by (subst for_up.simps) (simp add: bindR_def)

text \<open>
  Total correctness of a counting loop: an indexed invariant that every iteration
  re-establishes (the iteration does not fault) holds at the end.
\<close>

lemma for_up_rule:
  assumes "P lo s" and "lo \<le> hi"
    and step: "\<And>i s. lo \<le> i \<Longrightarrow> i < hi \<Longrightarrow> P i s \<Longrightarrow> \<exists>s'. body i s = Inr s' \<and> P (Suc i) s'"
  shows "\<exists>s'. for_up lo hi body s = Inr s' \<and> P hi s'"
proof -
  have "\<lbrakk>P i s; lo \<le> i; i \<le> hi\<rbrakk> \<Longrightarrow> \<exists>s'. for_up i hi body s = Inr s' \<and> P hi s'" for i s
  proof (induction "hi - i" arbitrary: i s)
    case 0
    then show ?case by simp
  next
    case (Suc d)
    then have "i < hi" by simp
    with step Suc.prems obtain s' where "body i s = Inr s'" "P (Suc i) s'" by blast
    with Suc \<open>i < hi\<close> show ?case by (simp add: for_up_step)
  qed
  with assms(1,2) show ?thesis by simp
qed

lemma for_up_split:
  "lo \<le> mid \<Longrightarrow> mid \<le> hi \<Longrightarrow>
   for_up lo hi body s = bindR (for_up lo mid body s) (for_up mid hi body)"
proof (induction "mid - lo" arbitrary: lo s)
  case (Suc d)
  then have "lo < mid" "lo < hi" by simp_all
  then show ?case
    using Suc.hyps(1) [of "Suc lo"] Suc.hyps(2) Suc.prems
    by (cases "body lo s") (simp_all add: for_up_step)
qed simp

section \<open>Sequences of operations\<close>

fun run_ops :: "('o \<Rightarrow> 's \<Rightarrow> 'e + 's) \<Rightarrow> 'o list \<Rightarrow> 's \<Rightarrow> 'e + 's" where
  "run_ops step [] s = Inr s"
| "run_ops step (x # xs) s = bindR (step x s) (run_ops step xs)"

lemma run_ops_append:
  "run_ops step (xs @ ys) s = bindR (run_ops step xs s) (run_ops step ys)"
proof (induction xs arbitrary: s)
  case (Cons x xs)
  then show ?case by (cases "step x s") simp_all
qed simp

lemma run_ops_times:
  "run_ops step (replicate (m + n) x) s = bindR (run_ops step (replicate m x) s) (run_ops step (replicate n x))"
  by (simp add: replicate_add run_ops_append)

lemma run_ops_once: "run_ops step (replicate (Suc n) x) s = bindR (run_ops step (replicate n x) s) (step x)"
  using run_ops_times [of step n 1 x s] by (cases "run_ops step (replicate n x) s") (auto simp: bindR_def split: sum.splits)

text \<open>
  The contract of a component whose operations, called within their precondition, neither
  fault nor break the component's invariant. Its client lemma is about every sequence of
  operations.
\<close>

locale safe_machine =
  fixes inv :: "'s \<Rightarrow> bool"
    and ok :: "'o \<Rightarrow> bool"
    and step :: "'o \<Rightarrow> 's \<Rightarrow> 'e + 's"
  assumes step_safe: "inv s \<Longrightarrow> ok x \<Longrightarrow> \<exists>s'. step x s = Inr s' \<and> inv s'"
begin

lemma run_safe: "inv s \<Longrightarrow> list_all ok xs \<Longrightarrow> \<exists>s'. run_ops step xs s = Inr s' \<and> inv s'"
proof (induction xs arbitrary: s)
  case Nil
  then show ?case by simp
next
  case (Cons x xs)
  then obtain s1 where "step x s = Inr s1" "inv s1" using step_safe by fastforce
  with Cons show ?case by simp
qed

end

text \<open>
  The contract of a component that implements an abstract machine: an operation that the abstract
  machine allows does not fault, keeps the invariant and has the abstract effect. Its client lemma
  is about every sequence of operations, each allowed when its turn comes.
\<close>

fun permitted :: "('o \<Rightarrow> 'a \<Rightarrow> bool) \<Rightarrow> ('o \<Rightarrow> 'a \<Rightarrow> 'a) \<Rightarrow> 'o list \<Rightarrow> 'a \<Rightarrow> bool" where
  "permitted ok spec [] a = True"
| "permitted ok spec (x # xs) a = (ok x a \<and> permitted ok spec xs (spec x a))"

locale refining_machine =
  fixes inv :: "'s \<Rightarrow> bool"
    and step :: "'o \<Rightarrow> 's \<Rightarrow> 'e + 's"
    and abs :: "'s \<Rightarrow> 'a"
    and ok :: "'o \<Rightarrow> 'a \<Rightarrow> bool"
    and spec :: "'o \<Rightarrow> 'a \<Rightarrow> 'a"
  assumes step_refines: "inv s \<Longrightarrow> ok x (abs s) \<Longrightarrow>
    \<exists>s'. step x s = Inr s' \<and> inv s' \<and> abs s' = spec x (abs s)"
begin

lemma run_refines:
  "inv s \<Longrightarrow> permitted ok spec xs (abs s) \<Longrightarrow>
   \<exists>s'. run_ops step xs s = Inr s' \<and> inv s' \<and> abs s' = fold spec xs (abs s)"
proof (induction xs arbitrary: s)
  case (Cons x xs)
  then obtain t where "step x s = Inr t" "inv t" "abs t = spec x (abs s)"
    using step_refines [of s x] by auto
  with Cons.IH [of t] Cons.prems show ?case by auto
qed simp

end

text \<open>
  The contract of a machine that comes to rest: as long as it is not at rest some operation is possible, and every possible
  operation lowers a weight. Its client lemmas are about every sequence of possible operations.
\<close>

fun moves :: "('o \<Rightarrow> 's \<Rightarrow> bool) \<Rightarrow> ('o \<Rightarrow> 's \<Rightarrow> 'e + 's) \<Rightarrow> 'o list \<Rightarrow> 's \<Rightarrow> bool" where
  "moves can step [] s = True"
| "moves can step (x # xs) s = (can x s \<and> (case step x s of Inl e \<Rightarrow> False | Inr s' \<Rightarrow> moves can step xs s'))"

locale resting_machine =
  fixes inv :: "'s \<Rightarrow> bool"
    and can :: "'o \<Rightarrow> 's \<Rightarrow> bool"
    and step :: "'o \<Rightarrow> 's \<Rightarrow> 'e + 's"
    and rest :: "'s \<Rightarrow> bool"
    and weight :: "'s \<Rightarrow> nat"
  assumes step_lowers: "inv s \<Longrightarrow> can x s \<Longrightarrow> \<exists>s'. step x s = Inr s' \<and> inv s' \<and> weight s' < weight s"
    and not_stuck: "inv s \<Longrightarrow> \<not> rest s \<Longrightarrow> \<exists>x. can x s"
begin

lemma moves_bounded: "inv s \<Longrightarrow> moves can step xs s \<Longrightarrow> length xs \<le> weight s"
proof (induction xs arbitrary: s)
  case (Cons x xs)
  then obtain s' where s': "step x s = Inr s'" "inv s'" "weight s' < weight s" using step_lowers [of s x] by auto
  then show ?case using Cons.IH [of s'] Cons.prems by simp
qed simp

lemma moves_to_rest: "inv s \<Longrightarrow> \<exists>xs s'. moves can step xs s \<and> run_ops step xs s = Inr s' \<and> inv s' \<and> rest s'"
proof (induction "weight s" arbitrary: s rule: less_induct)
  case less
  show ?case
  proof (cases "rest s")
    case True
    then show ?thesis using less.prems by (intro exI [of _ "[]"]) simp
  next
    case False
    then obtain x s1 where x: "can x s" "step x s = Inr s1" "inv s1" "weight s1 < weight s"
      using not_stuck [OF less.prems] step_lowers [OF less.prems] by blast
    from less.hyps [OF x(4,3)] obtain xs s' where "moves can step xs s1" "run_ops step xs s1 = Inr s'" "inv s'" "rest s'" by blast
    then show ?thesis using x by (intro exI [of _ "x # xs"] exI [of _ s']) simp
  qed
qed

end

lemma permitted_state_free: "permitted (\<lambda>x a. ok x) spec xs a \<longleftrightarrow> list_all ok xs"
  by (induction xs arbitrary: a) simp_all

section \<open>Arrays updated slot by slot\<close>

text \<open>
  The contents of an array while a loop has replaced its first \<open>i\<close> elements by their images.
\<close>

definition swept :: "('a \<Rightarrow> 'a) \<Rightarrow> nat \<Rightarrow> 'a list \<Rightarrow> 'a list" where
  "swept g i xs = map g (take i xs) @ drop i xs"

lemma swept_0 [simp]: "swept g 0 xs = xs"
  by (simp add: swept_def)

lemma swept_all [simp]: "length xs \<le> n \<Longrightarrow> swept g n xs = map g xs"
  by (simp add: swept_def)

lemma length_swept [simp]: "length (swept g i xs) = length xs"
  by (simp add: swept_def)

lemma swept_nth [simp]: "i < length xs \<Longrightarrow> swept g i xs ! i = xs ! i"
  by (simp add: swept_def nth_append)

lemma swept_update: "i < length xs \<Longrightarrow> (swept g i xs)[i := g (xs ! i)] = swept g (Suc i) xs"
proof -
  assume i: "i < length xs"
  then have "drop i xs = xs ! i # drop (Suc i) xs" by (simp add: Cons_nth_drop_Suc)
  with i show ?thesis by (simp add: swept_def take_Suc_conv_app_nth list_update_append)
qed

lemma swept_const:
  "i < length xs \<Longrightarrow> (swept (\<lambda>_. c) i xs)[i := c] = swept (\<lambda>_. c) (Suc i) xs"
  using swept_update [of i xs "\<lambda>_. c"] by simp

lemma swept_id: "i < length xs \<Longrightarrow> g (xs ! i) = xs ! i \<Longrightarrow> swept g (Suc i) xs = swept g i xs"
  using swept_update [of i xs g] list_update_id [of "swept g i xs" i] by simp

lemma list_all_nth: "list_all P xs \<Longrightarrow> i < length xs \<Longrightarrow> P (xs ! i)"
  by (simp add: list_all_length)

lemma list_all_update: "list_all P xs \<Longrightarrow> P x \<Longrightarrow> list_all P (xs[i := x])"
  by (auto simp: list_all_iff dest!: subsetD [OF set_update_subset_insert])

text \<open>Removal of one element, and sums over a list in which one element changes or goes.\<close>

definition drop_nth :: "nat \<Rightarrow> 'a list \<Rightarrow> 'a list" where
  "drop_nth i xs = take i xs @ drop (Suc i) xs"

lemma drop_nth_singleton [simp]: "drop_nth 0 [x] = []"
  by (simp add: drop_nth_def)

lemma sum_list_update:
  fixes f :: "'a \<Rightarrow> 'b::comm_monoid_add"
  shows "i < length xs \<Longrightarrow>
    sum_list (map f (xs[i := x])) + f (xs ! i) = sum_list (map f xs) + f x"
proof (induction xs arbitrary: i)
  case (Cons a xs)
  then show ?case by (cases i) (simp_all add: ac_simps)
qed simp

lemma sum_list_replicate_zero [simp]: "sum_list (replicate n (0 :: 'b::comm_monoid_add)) = 0"
  by (induction n) simp_all

lemma sum_list_drop_nth:
  fixes f :: "'a \<Rightarrow> 'b::comm_monoid_add"
  shows "i < length xs \<Longrightarrow> sum_list (map f (drop_nth i xs)) + f (xs ! i) = sum_list (map f xs)"
proof -
  assume "i < length xs"
  then have "xs = take i xs @ xs ! i # drop (Suc i) xs" by (rule id_take_nth_drop)
  then have "sum_list (map f xs) = sum_list (map f (take i xs)) + (f (xs ! i) + sum_list (map f (drop (Suc i) xs)))"
    by (metis (no_types) list.simps(9) map_append sum_list.Cons sum_list_append)
  then show ?thesis by (simp add: drop_nth_def ac_simps)
qed

section \<open>C integer conversions\<close>

text \<open>
  A value stored into a C \<open>int\<close> (32 bits) or \<open>long\<close> (64 bits) is reduced to the range of
  the type, as the two's complement targets of the program do.
\<close>

definition to_int32 :: "int \<Rightarrow> int" where
  "to_int32 x = (x + 2 ^ 31) mod 2 ^ 32 - 2 ^ 31"

definition to_int64 :: "int \<Rightarrow> int" where
  "to_int64 x = (x + 2 ^ 63) mod 2 ^ 64 - 2 ^ 63"

text \<open>C's \<open>/\<close> and \<open>%\<close> truncate towards zero.\<close>

definition c_div :: "int \<Rightarrow> int \<Rightarrow> int" where
  "c_div a b = sgn a * sgn b * (\<bar>a\<bar> div \<bar>b\<bar>)"

definition c_mod :: "int \<Rightarrow> int \<Rightarrow> int" where
  "c_mod a b = a - c_div a b * b"

lemma to_int32_id [simp]: "- (2 ^ 31) \<le> x \<Longrightarrow> x < 2 ^ 31 \<Longrightarrow> to_int32 x = x"
  by (simp add: to_int32_def)

lemma to_int32_range: "- (2 ^ 31) \<le> to_int32 x \<and> to_int32 x < 2 ^ 31"
  by (simp add: to_int32_def)

lemma to_int64_id [simp]: "- (2 ^ 63) \<le> x \<Longrightarrow> x < 2 ^ 63 \<Longrightarrow> to_int64 x = x"
  by (simp add: to_int64_def)

lemma c_div_nonneg [simp]: "0 \<le> a \<Longrightarrow> 0 < b \<Longrightarrow> c_div a b = a div b"
  by (cases "a = 0") (simp_all add: c_div_def)

lemma c_mod_nonneg [simp]: "0 \<le> a \<Longrightarrow> 0 < b \<Longrightarrow> c_mod a b = a mod b"
  by (simp add: c_mod_def minus_div_mult_eq_mod)

section \<open>Counting periodic events\<close>

text \<open>
  Among the cycles 1 to \<open>n\<close> there are \<open>n div T\<close> multiples of \<open>T\<close>; with \<open>T = 0\<close> (an event
  that never happens) this is 0 on both sides.
\<close>

lemma count_multiples: "length (filter (\<lambda>c. c mod T = 0) [Suc 0..<Suc n]) = n div T"
  by (induction n) (simp_all add: div_Suc)

text \<open>Among the cycles 0 to \<open>n - 1\<close> their number is rounded up.\<close>

lemma count_multiples_from_0:
  assumes "0 < T"
  shows "length (filter (\<lambda>c. c mod T = 0) [0..<n]) = (n + T - 1) div T"
proof (cases n)
  case (Suc m)
  have "[0..<Suc m] = 0 # [Suc 0..<Suc m]" by (simp add: upt_rec)
  moreover have "(m + T) div T = Suc (m div T)" using assms by (simp add: div_add_self2)
  ultimately show ?thesis using assms Suc by (simp add: count_multiples del: upt_Suc)
qed (use assms in simp)

lemma count_list_concat: "count_list (concat xss) x = sum_list (map (\<lambda>xs. count_list xs x) xss)"
  by (induction xss) simp_all

lemma sum_list_indicator: "sum_list (map (\<lambda>x. if P x then 1 else 0) xs) = length (filter P xs)"
  by (induction xs) simp_all

text \<open>The distance to a bound, as a measure for a word-sized loop counter.\<close>

lemma unat_counter_decreases:
  assumes "c + 1 < (P :: 'w::len word)"
  shows "unat (P - 1 - (c + 1)) < unat (P - 1 - c)"
proof -
  define d where "d = P - 1 - c"
  have "d \<noteq> 0" using assms by (auto simp: d_def diff_eq_eq algebra_simps)
  then have "unat (d - 1) < unat d" by (simp add: unat_minus_one unat_gt_0)
  moreover have "P - 1 - (c + 1) = d - 1" by (simp add: d_def algebra_simps)
  ultimately show ?thesis by (simp add: d_def)
qed

lemma unat_counter_decreases':
  assumes "c + 1 < (P :: 'w::len word)"
  shows "unat (P - c - 2) < unat (P - 1 - c)"
  using unat_counter_decreases [OF assms] by (simp add: algebra_simps)

end
