(* ===== verification/Raw_Scheduler.thy ===== *)
theory Raw_Scheduler
  imports Prelude
begin

text \<open>
  The time-triggered co-operative scheduler of
  \<^verbatim>\<open>c89_c99_scheduler/source/time_triggered_arch/scheduler_raw/sch51.c\<close> and
  \<^verbatim>\<open>main.h\<close>: a table of \<open>SCH_MAX_TASKS\<close> tasks, the timer interrupt \<open>SCH_Update\<close>, the
  dispatcher \<open>SCH_Dispatch_Tasks\<close>, \<open>SCH_Add_Task\<close>, \<open>SCH_Delete_Task\<close> and
  \<open>SCH_Init_T2\<close>.

  A function pointer is \<open>'f option\<close> (\<open>None\<close> is the null pointer), \<open>tByte\<close> is an 8-bit
  word, and \<open>tWord\<close> (C's \<open>unsigned int\<close>) is a word of any width \<open>'w\<close>: 16 bits on the 8051
  the code is written for, 32 bits on the host the tests build for. What a task does when it
  is called is not part of the scheduler: it is the argument \<open>call\<close>, which acts on the
  scheduler's state and on the rest of the world.
\<close>

section \<open>Types and constants of main.h\<close>

type_synonym tByte = "8 word"

definition RETURN_NORMAL :: tByte where
  "RETURN_NORMAL = 0"

definition RETURN_ERROR :: tByte where
  "RETURN_ERROR = 1"

definition ERROR_SCH_TOO_MANY_TASKS :: tByte where
  "ERROR_SCH_TOO_MANY_TASKS = 1"

definition ERROR_SCH_CANNOT_DELETE_TASK :: tByte where
  "ERROR_SCH_CANNOT_DELETE_TASK = 2"

definition SCH_MAX_TASKS :: nat where
  "SCH_MAX_TASKS = 4"

section \<open>State\<close>

record ('f, 'v) sTask =
  pTask :: "'f option"
  Delay :: 'v
  Period :: 'v
  RunMe :: tByte

record ('f, 'v) sched =
  SCH_tasks_G :: "('f, 'v) sTask list"
  Error_code_G :: tByte

definition empty_slot :: "('f, 'w::len word) sTask" where
  "empty_slot = \<lparr>pTask = None, Delay = 0, Period = 0, RunMe = 0\<rparr>"

section \<open>Operations\<close>

definition SCH_Go_To_Sleep :: "('f, 'w::len word) sched \<Rightarrow> ('f, 'w word) sched" where
  "SCH_Go_To_Sleep s = s"

definition SCH_Start :: "('f, 'w::len word) sched \<Rightarrow> ('f, 'w word) sched" where
  "SCH_Start s = s"

text \<open>
  The four stores of \<open>SCH_Delete_Task\<close> into the slot, in program order. They are kept apart
  because the interrupt handler can run between any two of them. The function clears the slot in
  both branches; only the return code and the global error code tell them apart.
\<close>

definition SCH_Delete_Task_stores :: "nat \<Rightarrow> (('f, 'w::len word) sched \<Rightarrow> ('f, 'w word) sched) list" where
  "SCH_Delete_Task_stores TASK_INDEX =
     map (\<lambda>upd s. s\<lparr>SCH_tasks_G := (SCH_tasks_G s)[TASK_INDEX := upd (SCH_tasks_G s ! TASK_INDEX)]\<rparr>)
       [\<lambda>t. t\<lparr>pTask := None\<rparr>,
        \<lambda>t. t\<lparr>Delay := 0\<rparr>,
        \<lambda>t. t\<lparr>Period := 0\<rparr>,
        \<lambda>t. t\<lparr>RunMe := 0\<rparr>]"

definition SCH_Delete_Task :: "tByte \<Rightarrow> ('f, 'w::len word) sched \<Rightarrow> (tByte \<times> ('f, 'w word) sched) res" where
  "SCH_Delete_Task TASK_INDEX s =
     bindR (arr_get (SCH_tasks_G s) (unat TASK_INDEX)) (\<lambda>t.
       let (Return_code, s1) =
             (if pTask t = None
              then (RETURN_ERROR, s\<lparr>Error_code_G := ERROR_SCH_CANNOT_DELETE_TASK\<rparr>)
              else (RETURN_NORMAL, s))
       in Inr (Return_code, fold (\<lambda>f. f) (SCH_Delete_Task_stores (unat TASK_INDEX)) s1))"

text \<open>The body of the interrupt handler's loop, for the slot \<open>Index\<close>.\<close>

definition SCH_Update_slot :: "nat \<Rightarrow> ('f, 'w::len word) sched \<Rightarrow> ('f, 'w word) sched res" where
  "SCH_Update_slot Index s =
     bindR (arr_get (SCH_tasks_G s) Index) (\<lambda>t.
       if pTask t \<noteq> None then
         (if Delay t = 0 then
            (let t1 = t\<lparr>RunMe := RunMe t + 1\<rparr>;
                 t2 = (if Period t1 \<noteq> 0 then t1\<lparr>Delay := Period t1\<rparr> else t1)
             in bindR (arr_set (SCH_tasks_G s) Index t2) (\<lambda>ts. Inr (s\<lparr>SCH_tasks_G := ts\<rparr>)))
          else
            bindR (arr_set (SCH_tasks_G s) Index (t\<lparr>Delay := Delay t - 1\<rparr>))
              (\<lambda>ts. Inr (s\<lparr>SCH_tasks_G := ts\<rparr>)))
       else Inr s)"

definition SCH_Update :: "('f, 'w::len word) sched \<Rightarrow> ('f, 'w word) sched res" where
  "SCH_Update s = for_up 0 SCH_MAX_TASKS SCH_Update_slot s"

text \<open>
  The search loop of \<open>SCH_Add_Task\<close> reads \<open>SCH_tasks_G[Index].pTask\<close> before it compares
  \<open>Index\<close> with \<open>SCH_MAX_TASKS\<close>, so on a full table it reads one element past the end. What
  that read does is the argument \<open>past\<close>: \<open>Inl Out_Of_Bounds\<close> for an implementation that
  traps, \<open>Inr p\<close> for a memory that holds \<open>p\<close> there.
\<close>

function SCH_find_gap :: "'f option res \<Rightarrow> ('f, 'w::len word) sTask list \<Rightarrow> nat \<Rightarrow> nat res" where
  "SCH_find_gap past ts Index =
     (case (if Index < length ts then Inr (pTask (ts ! Index)) else past) of
        Inl e \<Rightarrow> Inl e
      | Inr p \<Rightarrow> if p \<noteq> None \<and> Index < SCH_MAX_TASKS then SCH_find_gap past ts (Suc Index)
                else Inr Index)"
  by pat_completeness auto
termination
  by (relation "measure (\<lambda>(past, ts, Index). SCH_MAX_TASKS - Index)") auto

declare SCH_find_gap.simps [simp del]

text \<open>
  The four stores of \<open>SCH_Add_Task\<close> into the slot it found, in program order.
\<close>

definition SCH_Add_Task_stores ::
  "nat \<Rightarrow> 'f option \<Rightarrow> 'w::len word \<Rightarrow> 'w word \<Rightarrow> (('f, 'w word) sched \<Rightarrow> ('f, 'w word) sched) list" where
  "SCH_Add_Task_stores Index pFunction DELAY PERIOD =
     map (\<lambda>upd s. s\<lparr>SCH_tasks_G := (SCH_tasks_G s)[Index := upd (SCH_tasks_G s ! Index)]\<rparr>)
       [\<lambda>t. t\<lparr>pTask := pFunction\<rparr>,
        \<lambda>t. t\<lparr>Delay := DELAY\<rparr>,
        \<lambda>t. t\<lparr>Period := PERIOD\<rparr>,
        \<lambda>t. t\<lparr>RunMe := 0\<rparr>]"

definition SCH_Add_Task ::
  "'f option res \<Rightarrow> 'f option \<Rightarrow> 'w::len word \<Rightarrow> 'w word \<Rightarrow> ('f, 'w word) sched
   \<Rightarrow> (tByte \<times> ('f, 'w word) sched) res" where
  "SCH_Add_Task past pFunction DELAY PERIOD s =
     bindR (SCH_find_gap past (SCH_tasks_G s) 0) (\<lambda>Index.
       if Index = SCH_MAX_TASKS
       then Inr (of_nat SCH_MAX_TASKS, s\<lparr>Error_code_G := ERROR_SCH_TOO_MANY_TASKS\<rparr>)
       else Inr (of_nat Index, fold (\<lambda>f. f) (SCH_Add_Task_stores Index pFunction DELAY PERIOD) s))"

text \<open>
  The body of the dispatcher's loop. After the task returns, the slot is read again: the task
  may have changed the table through \<open>SCH_Add_Task\<close> and \<open>SCH_Delete_Task\<close>.
\<close>

definition SCH_Dispatch_slot ::
  "('f \<Rightarrow> ('f, 'w::len word) sched \<times> 'e \<Rightarrow> (('f, 'w word) sched \<times> 'e) res)
   \<Rightarrow> nat \<Rightarrow> ('f, 'w word) sched \<times> 'e \<Rightarrow> (('f, 'w word) sched \<times> 'e) res" where
  "SCH_Dispatch_slot call Index w =
     bindR (arr_get (SCH_tasks_G (fst w)) Index) (\<lambda>t.
       if RunMe t > 0 then
         (case pTask t of
            None \<Rightarrow> Inl Null_Call
          | Some f \<Rightarrow>
              bindR (call f w) (\<lambda>(s1, e1).
              bindR (arr_get (SCH_tasks_G s1) Index) (\<lambda>t1.
              bindR (arr_set (SCH_tasks_G s1) Index (t1\<lparr>RunMe := RunMe t1 - 1\<rparr>)) (\<lambda>ts.
                let s2 = s1\<lparr>SCH_tasks_G := ts\<rparr>
                in if Period t1 = 0
                   then bindR (SCH_Delete_Task (of_nat Index) s2) (\<lambda>(rc, s3). Inr (s3, e1))
                   else Inr (s2, e1)))))
       else Inr w)"

definition SCH_Dispatch_Tasks ::
  "('f \<Rightarrow> ('f, 'w::len word) sched \<times> 'e \<Rightarrow> (('f, 'w word) sched \<times> 'e) res)
   \<Rightarrow> ('f, 'w word) sched \<times> 'e \<Rightarrow> (('f, 'w word) sched \<times> 'e) res" where
  "SCH_Dispatch_Tasks call w =
     bindR (for_up 0 SCH_MAX_TASKS (SCH_Dispatch_slot call) w)
       (\<lambda>(s, e). Inr (SCH_Go_To_Sleep s, e))"

definition SCH_Init_T2 :: "('f, 'w::len word) sched \<Rightarrow> ('f, 'w word) sched res" where
  "SCH_Init_T2 s =
     bindR (for_up 0 SCH_MAX_TASKS
              (\<lambda>i s. bindR (SCH_Delete_Task (of_nat i) s) (\<lambda>(rc, s'). Inr s')) s)
       (\<lambda>s'. Inr (s'\<lparr>Error_code_G := 0\<rparr>))"

text \<open>
  The loop of the test program: after \<open>SCH_Init_T2\<close> and \<open>SCH_Start\<close> the main loop calls
  \<open>SCH_Dispatch_Tasks\<close> for ever, and the timer calls \<open>SCH_Update\<close>. \<open>SCH_run n\<close> is that
  system for \<open>n\<close> ticks when the dispatcher keeps up with the timer.
\<close>

fun SCH_run ::
  "('f \<Rightarrow> ('f, 'w::len word) sched \<times> 'e \<Rightarrow> (('f, 'w word) sched \<times> 'e) res)
   \<Rightarrow> nat \<Rightarrow> ('f, 'w word) sched \<times> 'e \<Rightarrow> (('f, 'w word) sched \<times> 'e) res" where
  "SCH_run call 0 w = Inr w"
| "SCH_run call (Suc n) w =
     bindR (SCH_Update (fst w)) (\<lambda>s.
     bindR (SCH_Dispatch_Tasks call (s, snd w)) (SCH_run call n))"

section \<open>Reference definitions\<close>

text \<open>A slot is well formed when an empty slot carries no stale timing data.\<close>

definition slot_wf :: "('f, 'w::len word) sTask \<Rightarrow> bool" where
  "slot_wf t \<longleftrightarrow> (pTask t = None \<longrightarrow> t = empty_slot)"

definition sched_wf :: "('f, 'w::len word) sched \<Rightarrow> bool" where
  "sched_wf s \<longleftrightarrow> length (SCH_tasks_G s) = SCH_MAX_TASKS \<and> list_all slot_wf (SCH_tasks_G s)"

text \<open>What one tick does to one slot, and what one dispatch does to it when the task itself
  leaves the table alone.\<close>

definition tick_slot :: "('f, 'w::len word) sTask \<Rightarrow> ('f, 'w word) sTask" where
  "tick_slot t =
     (if pTask t = None then t
      else if Delay t = 0 then t\<lparr>Delay := Period t, RunMe := RunMe t + 1\<rparr>
      else t\<lparr>Delay := Delay t - 1\<rparr>)"

definition dispatch_slot :: "('f, 'w::len word) sTask \<Rightarrow> ('f, 'w word) sTask" where
  "dispatch_slot t =
     (if RunMe t = 0 then t
      else if Period t = 0 then empty_slot
      else t\<lparr>RunMe := RunMe t - 1\<rparr>)"

definition due_tasks :: "('f, 'w::len word) sTask list \<Rightarrow> 'f list" where
  "due_tasks ts = map (the \<circ> pTask) (filter (\<lambda>t. 0 < RunMe t) ts)"

text \<open>Tasks that act on the world only, never on the scheduler's table.\<close>

definition quiet ::
  "('f \<Rightarrow> 'e \<Rightarrow> 'e) \<Rightarrow> 'f \<Rightarrow> ('f, 'w::len word) sched \<times> 'e \<Rightarrow> (('f, 'w word) sched \<times> 'e) res" where
  "quiet act f w = Inr (fst w, act f (snd w))"

section \<open>Effect of the operations\<close>

lemma empty_slot_sel [simp]:
  "pTask empty_slot = None" "Delay empty_slot = 0" "Period empty_slot = 0" "RunMe empty_slot = 0"
  by (simp_all add: empty_slot_def)

lemma cleared_slot [simp]:
  "(t :: ('f, 'w::len word) sTask)\<lparr>pTask := None, Delay := 0, Period := 0, RunMe := 0\<rparr> = empty_slot"
  by (simp add: empty_slot_def)

lemma slot_wf_empty [simp, wf_intros]: "slot_wf empty_slot"
  by (simp add: slot_wf_def)

lemma slot_wf_Some [wf_intros]: "pTask t \<noteq> None \<Longrightarrow> slot_wf t"
  by (auto simp: slot_wf_def)

lemma slot_wf_runnable: "slot_wf t \<Longrightarrow> RunMe t \<noteq> 0 \<Longrightarrow> pTask t \<noteq> None"
  by (auto simp: slot_wf_def)

lemma slot_wf_tick [wf_intros]: "slot_wf t \<Longrightarrow> slot_wf (tick_slot t)"
  by (auto simp: slot_wf_def tick_slot_def)

lemma slot_wf_dispatch [wf_intros]: "slot_wf t \<Longrightarrow> slot_wf (dispatch_slot t)"
  by (auto simp: slot_wf_def dispatch_slot_def)

lemma sched_wfD:
  assumes "sched_wf s"
  shows "length (SCH_tasks_G s) = SCH_MAX_TASKS" and "list_all slot_wf (SCH_tasks_G s)"
  using assms by (simp_all add: sched_wf_def)

lemma sched_wf_nth: "sched_wf s \<Longrightarrow> i < SCH_MAX_TASKS \<Longrightarrow> slot_wf (SCH_tasks_G s ! i)"
  by (simp add: sched_wf_def list_all_nth)

lemma sched_wf_update [wf_intros]:
  "sched_wf s \<Longrightarrow> slot_wf t \<Longrightarrow> sched_wf (s\<lparr>SCH_tasks_G := (SCH_tasks_G s)[i := t]\<rparr>)"
  by (simp add: sched_wf_def list_all_update)

lemma sched_wf_error [simp]: "sched_wf (s\<lparr>Error_code_G := c\<rparr>) = sched_wf s"
  by (simp add: sched_wf_def)

lemma sched_wf_map [wf_intros]:
  "sched_wf s \<Longrightarrow> (\<And>t. slot_wf t \<Longrightarrow> slot_wf (g t)) \<Longrightarrow>
   sched_wf (s\<lparr>SCH_tasks_G := map g (SCH_tasks_G s)\<rparr>)"
  by (auto simp: sched_wf_def list_all_iff)

lemma SCH_Delete_Task_stores_fold:
  assumes "i < length (SCH_tasks_G s)"
  shows "fold (\<lambda>f. f) (SCH_Delete_Task_stores i) s = s\<lparr>SCH_tasks_G := (SCH_tasks_G s)[i := empty_slot]\<rparr>"
  using assms by (simp add: SCH_Delete_Task_stores_def)

lemma SCH_Delete_Task_spec [res_simps]:
  assumes "unat i < length (SCH_tasks_G s)"
  shows "SCH_Delete_Task i s =
    (let s' = s\<lparr>SCH_tasks_G := (SCH_tasks_G s)[unat i := empty_slot]\<rparr>
     in if pTask (SCH_tasks_G s ! unat i) = None
        then Inr (RETURN_ERROR, s'\<lparr>Error_code_G := ERROR_SCH_CANNOT_DELETE_TASK\<rparr>)
        else Inr (RETURN_NORMAL, s'))"
  using assms by (auto simp: SCH_Delete_Task_def SCH_Delete_Task_stores_fold Let_def)

lemma unat_index [simp]: "i < SCH_MAX_TASKS \<Longrightarrow> unat (of_nat i :: tByte) = i"
  by (simp add: SCH_MAX_TASKS_def unat_of_nat)

lemma tick_slot_due:
  assumes "pTask t \<noteq> None" and "Delay t = 0"
  shows "(if Period t \<noteq> 0 then t\<lparr>RunMe := RunMe t + 1, Delay := Period t\<rparr>
          else t\<lparr>RunMe := RunMe t + 1\<rparr>) = tick_slot t"
  using assms by (cases t) (simp add: tick_slot_def)

lemma SCH_Update_slot_spec [res_simps]:
  assumes "i < length (SCH_tasks_G s)"
  shows "SCH_Update_slot i s =
    Inr (s\<lparr>SCH_tasks_G := (SCH_tasks_G s)[i := tick_slot (SCH_tasks_G s ! i)]\<rparr>)"
proof (cases "pTask (SCH_tasks_G s ! i) \<noteq> None \<and> Delay (SCH_tasks_G s ! i) = 0")
  case True
  with assms tick_slot_due [of "SCH_tasks_G s ! i"] show ?thesis
    by (simp add: SCH_Update_slot_def Let_def split: if_splits)
next
  case False
  with assms show ?thesis by (auto simp: SCH_Update_slot_def tick_slot_def)
qed

lemma SCH_Update_spec [res_simps]:
  assumes "length (SCH_tasks_G s) = SCH_MAX_TASKS"
  shows "SCH_Update s = Inr (s\<lparr>SCH_tasks_G := map tick_slot (SCH_tasks_G s)\<rparr>)"
proof -
  let ?P = "\<lambda>i s'. s' = s\<lparr>SCH_tasks_G := swept tick_slot i (SCH_tasks_G s)\<rparr>"
  have "\<exists>s'. for_up 0 SCH_MAX_TASKS SCH_Update_slot s = Inr s' \<and> ?P SCH_MAX_TASKS s'"
    using assms by (intro for_up_rule) (auto simp: SCH_Update_slot_spec swept_update)
  with assms show ?thesis by (simp add: SCH_Update_def)
qed

lemma sched_wf_SCH_Update:
  "sched_wf s \<Longrightarrow> \<exists>s'. SCH_Update s = Inr s' \<and> sched_wf s'"
  by (auto simp: SCH_Update_spec sched_wfD intro!: wf_intros)

lemma SCH_Init_T2_spec [res_simps]:
  assumes "length (SCH_tasks_G s) = SCH_MAX_TASKS"
  shows "SCH_Init_T2 s =
    Inr \<lparr>SCH_tasks_G = replicate SCH_MAX_TASKS empty_slot, Error_code_G = 0\<rparr>"
proof -
  let ?body = "\<lambda>i s. bindR (SCH_Delete_Task (of_nat i) s) (\<lambda>(rc, s'). Inr s')"
  let ?P = "\<lambda>i s'. SCH_tasks_G s' = swept (\<lambda>_. empty_slot) i (SCH_tasks_G s)"
  have "\<exists>s'. for_up 0 SCH_MAX_TASKS ?body s = Inr s' \<and> ?P SCH_MAX_TASKS s'"
    using assms
    by (intro for_up_rule) (auto simp: SCH_Delete_Task_spec Let_def swept_const)
  then obtain s' where "for_up 0 SCH_MAX_TASKS ?body s = Inr s'" "?P SCH_MAX_TASKS s'"
    by blast
  with assms show ?thesis by (cases s') (simp add: SCH_Init_T2_def map_replicate_const)
qed

subsection \<open>The search for a free slot\<close>

definition first_gap :: "('f, 'w::len word) sTask list \<Rightarrow> nat" where
  "first_gap ts = length (takeWhile (\<lambda>t. pTask t \<noteq> None) ts)"

lemma first_gap_le: "first_gap ts \<le> length ts"
  by (simp add: first_gap_def length_takeWhile_le)

lemma first_gap_empty: "first_gap ts < length ts \<Longrightarrow> pTask (ts ! first_gap ts) = None"
  using nth_length_takeWhile [of "\<lambda>t. pTask t \<noteq> None" ts] by (simp add: first_gap_def)

lemma first_gap_least: "j < first_gap ts \<Longrightarrow> pTask (ts ! j) \<noteq> None"
  by (metis (mono_tags, lifting) first_gap_def nth_mem set_takeWhileD takeWhile_nth)

lemma first_gap_full_iff: "first_gap ts = length ts \<longleftrightarrow> (\<forall>t\<in>set ts. pTask t \<noteq> None)"
  by (induction ts) (auto simp: first_gap_def)

lemma first_gap_Suc: "pTask t \<noteq> None \<Longrightarrow> first_gap (t # ts) = Suc (first_gap ts)"
  by (simp add: first_gap_def)

lemma SCH_find_gap_from:
  assumes "length ts = SCH_MAX_TASKS" and "i \<le> SCH_MAX_TASKS"
  shows "SCH_find_gap past ts i =
    (if i + first_gap (drop i ts) < SCH_MAX_TASKS then Inr (i + first_gap (drop i ts))
     else bindR past (\<lambda>p. Inr SCH_MAX_TASKS))"
  using assms
proof (induction past ts i rule: SCH_find_gap.induct)
  case (1 past ts i)
  show ?case
  proof (cases "i < length ts")
    case False
    with "1.prems" show ?thesis
      by (subst SCH_find_gap.simps) (cases past, auto)
  next
    case True
    then have drop: "drop i ts = ts ! i # drop (Suc i) ts" by (simp add: Cons_nth_drop_Suc)
    show ?thesis
    proof (cases "pTask (ts ! i)")
      case None
      with True "1.prems" drop show ?thesis
        by (simp add: SCH_find_gap.simps [of past ts i] first_gap_def)
    next
      case (Some f)
      with True "1.prems" drop "1.IH" [of "Some f"] show ?thesis
        by (simp add: SCH_find_gap.simps [of past ts i] first_gap_Suc)
    qed
  qed
qed

lemma SCH_find_gap_spec [res_simps]:
  assumes "length ts = SCH_MAX_TASKS"
  shows "SCH_find_gap past ts 0 =
    (if first_gap ts < SCH_MAX_TASKS then Inr (first_gap ts)
     else bindR past (\<lambda>p. Inr SCH_MAX_TASKS))"
  using assms SCH_find_gap_from [of ts 0 past] by simp

lemma SCH_Add_Task_stores_fold:
  assumes "i < length (SCH_tasks_G s)"
  shows "fold (\<lambda>f. f) (SCH_Add_Task_stores i pf D P) s =
    s\<lparr>SCH_tasks_G := (SCH_tasks_G s)[i := \<lparr>pTask = pf, Delay = D, Period = P, RunMe = 0\<rparr>]\<rparr>"
  using assms by (cases "SCH_tasks_G s ! i") (simp add: SCH_Add_Task_stores_def)

lemma SCH_Add_Task_free [res_simps]:
  assumes "length (SCH_tasks_G s) = SCH_MAX_TASKS" and "first_gap (SCH_tasks_G s) < SCH_MAX_TASKS"
  shows "SCH_Add_Task past pf D P s =
    Inr (of_nat (first_gap (SCH_tasks_G s)),
         s\<lparr>SCH_tasks_G := (SCH_tasks_G s)[first_gap (SCH_tasks_G s) :=
             \<lparr>pTask = pf, Delay = D, Period = P, RunMe = 0\<rparr>]\<rparr>)"
  using assms by (simp add: SCH_Add_Task_def SCH_find_gap_spec SCH_Add_Task_stores_fold)

lemma SCH_Add_Task_full [res_simps]:
  assumes "length (SCH_tasks_G s) = SCH_MAX_TASKS" and "first_gap (SCH_tasks_G s) = SCH_MAX_TASKS"
  shows "SCH_Add_Task past pf D P s =
    bindR past (\<lambda>p. Inr (of_nat SCH_MAX_TASKS, s\<lparr>Error_code_G := ERROR_SCH_TOO_MANY_TASKS\<rparr>))"
  using assms by (cases past) (simp_all add: SCH_Add_Task_def SCH_find_gap_spec)

subsection \<open>The dispatcher\<close>

lemma due_tasks_Nil [simp]: "due_tasks [] = []"
  by (simp add: due_tasks_def)

lemma due_tasks_take_Suc:
  "i < length ts \<Longrightarrow> due_tasks (take (Suc i) ts) =
    due_tasks (take i ts) @ (if RunMe (ts ! i) = 0 then [] else [the (pTask (ts ! i))])"
  by (simp add: due_tasks_def take_Suc_conv_app_nth word_gt_0)

lemma SCH_Dispatch_slot_quiet [res_simps]:
  assumes wf: "slot_wf (SCH_tasks_G s ! i)" and i: "i < SCH_MAX_TASKS" "i < length (SCH_tasks_G s)"
  shows "SCH_Dispatch_slot (quiet act) i (s, e) =
    Inr (s\<lparr>SCH_tasks_G := (SCH_tasks_G s)[i := dispatch_slot (SCH_tasks_G s ! i)]\<rparr>,
         if RunMe (SCH_tasks_G s ! i) = 0 then e else act (the (pTask (SCH_tasks_G s ! i))) e)"
proof (cases "RunMe (SCH_tasks_G s ! i) = 0")
  case True
  with i show ?thesis by (simp add: SCH_Dispatch_slot_def dispatch_slot_def)
next
  case False
  with wf obtain f where "pTask (SCH_tasks_G s ! i) = Some f"
    using slot_wf_runnable by blast
  with False i show ?thesis
    by (simp add: SCH_Dispatch_slot_def dispatch_slot_def quiet_def word_gt_0
        SCH_Delete_Task_spec Let_def)
qed

lemma SCH_Dispatch_Tasks_quiet [res_simps]:
  assumes "sched_wf s"
  shows "SCH_Dispatch_Tasks (quiet act) (s, e) =
    Inr (s\<lparr>SCH_tasks_G := map dispatch_slot (SCH_tasks_G s)\<rparr>,
         fold act (due_tasks (SCH_tasks_G s)) e)"
proof -
  let ?ts = "SCH_tasks_G s"
  let ?P = "\<lambda>i w. w = (s\<lparr>SCH_tasks_G := swept dispatch_slot i ?ts\<rparr>,
                        fold act (due_tasks (take i ?ts)) e)"
  have len: "length ?ts = SCH_MAX_TASKS" using assms by (rule sched_wfD)
  have "\<exists>w. for_up 0 SCH_MAX_TASKS (SCH_Dispatch_slot (quiet act)) (s, e) = Inr w
          \<and> ?P SCH_MAX_TASKS w"
    using assms len
    by (intro for_up_rule)
      (auto simp: SCH_Dispatch_slot_quiet sched_wf_nth swept_update due_tasks_take_Suc)
  with len show ?thesis by (auto simp: SCH_Dispatch_Tasks_def SCH_Go_To_Sleep_def)
qed

section \<open>Task programs over the scheduler's interface\<close>

text \<open>
  The calls a task can make. The interface asks for a task function that is not null and for
  an index inside the table.
\<close>

datatype ('f, 'v) api = Api_Add 'f 'v 'v | Api_Delete tByte

fun api_ok :: "('f, 'v) api \<Rightarrow> bool" where
  "api_ok (Api_Add f D P) = True"
| "api_ok (Api_Delete i) = (unat i < SCH_MAX_TASKS)"

fun api_step :: "'f option res \<Rightarrow> ('f, 'w::len word) api \<Rightarrow> ('f, 'w word) sched \<Rightarrow> ('f, 'w word) sched res" where
  "api_step past (Api_Add f D P) s =
     bindR (SCH_Add_Task past (Some f) D P s) (\<lambda>(i, s'). Inr s')"
| "api_step past (Api_Delete i) s = bindR (SCH_Delete_Task i s) (\<lambda>(rc, s'). Inr s')"

definition api_call ::
  "'f option res \<Rightarrow> ('f \<Rightarrow> ('f, 'w::len word) api list) \<Rightarrow> 'f \<Rightarrow> ('f, 'w word) sched \<times> 'e
   \<Rightarrow> (('f, 'w word) sched \<times> 'e) res" where
  "api_call past prog f w =
     bindR (run_ops (api_step past) (prog f) (fst w)) (\<lambda>s. Inr (s, snd w))"

text \<open>
  A table without a free slot. Adding a task to it is the one call of the interface that can fault: its search reads past
  the end, and what becomes of it is what becomes of that read.
\<close>

definition table_full :: "('f, 'w::len word) sched \<Rightarrow> bool" where
  "table_full s \<longleftrightarrow> (\<forall>t \<in> set (SCH_tasks_G s). pTask t \<noteq> None)"

fun rejected :: "('f, 'v) api \<Rightarrow> ('f, 'w::len word) sched \<Rightarrow> bool" where
  "rejected (Api_Add f D P) s = table_full s"
| "rejected (Api_Delete i) s = False"

lemma table_full_gap: "sched_wf s \<Longrightarrow> table_full s \<longleftrightarrow> first_gap (SCH_tasks_G s) = SCH_MAX_TASKS"
  using first_gap_full_iff [of "SCH_tasks_G s"] sched_wfD(1) [of s] by (auto simp: table_full_def)

lemma api_step_cases:
  fixes s :: "('f, 'w::len word) sched" and x :: "('f, 'w word) api"
  assumes "sched_wf s" and "api_ok x"
  obtains s' where "sched_wf s'" and "api_step (Inr None) x s = Inr s'"
    and "\<And>past. api_step past x s = (if rejected x s then bindR past (\<lambda>p. Inr s') else Inr s')"
proof (cases x)
  case (Api_Add f D P)
  have "first_gap (SCH_tasks_G s) \<le> SCH_MAX_TASKS"
    using first_gap_le [of "SCH_tasks_G s"] sched_wfD [OF assms(1)] by simp
  then consider "first_gap (SCH_tasks_G s) < SCH_MAX_TASKS" | "first_gap (SCH_tasks_G s) = SCH_MAX_TASKS"
    by linarith
  then show thesis
  proof cases
    case 1
    let ?s = "s\<lparr>SCH_tasks_G := (SCH_tasks_G s)[first_gap (SCH_tasks_G s) := \<lparr>pTask = Some f, Delay = D, Period = P, RunMe = 0\<rparr>]\<rparr>"
    have "api_step past x s = Inr ?s" for past
      using 1 assms(1) by (simp add: Api_Add SCH_Add_Task_free sched_wfD)
    moreover have "\<not> rejected x s" using 1 table_full_gap [OF assms(1)] by (simp add: Api_Add)
    moreover have "sched_wf ?s" using 1 assms(1) by (simp add: sched_wf_update slot_wf_def)
    ultimately show thesis using that [of ?s] by simp
  next
    case 2
    let ?s = "s\<lparr>Error_code_G := ERROR_SCH_TOO_MANY_TASKS\<rparr>"
    have "api_step past x s = bindR past (\<lambda>p. Inr ?s)" for past
      using 2 assms(1) by (cases past) (simp_all add: Api_Add SCH_Add_Task_full sched_wfD)
    moreover have "rejected x s" using 2 table_full_gap [OF assms(1)] by (simp add: Api_Add)
    moreover have "sched_wf ?s" using assms(1) by (simp add: sched_wf_def)
    ultimately show thesis using that [of ?s] by simp
  qed
next
  case (Api_Delete i)
  have i: "unat i < SCH_MAX_TASKS" using assms(2) by (simp add: Api_Delete)
  obtain s' where "sched_wf s'" "\<And>past. api_step past x s = Inr s'"
  proof -
    have "\<exists>s'. sched_wf s' \<and> (\<forall>past. api_step past x s = Inr s')"
      using assms(1) i by (auto simp: Api_Delete SCH_Delete_Task_spec sched_wfD Let_def intro!: wf_intros)
    with that show thesis by blast
  qed
  then show thesis using that [of s'] by (simp add: Api_Delete)
qed

text \<open>Where the memory behind the table can be read, the interface never faults.\<close>

lemma api_step_safe:
  assumes "sched_wf s" and "api_ok x"
  shows "\<exists>s'. api_step (Inr p) x s = Inr s' \<and> sched_wf s'"
proof -
  obtain s' where "sched_wf s'" "api_step (Inr p) x s = (if rejected x s then bindR (Inr p) (\<lambda>p. Inr s') else Inr s')"
    by (rule api_step_cases [OF assms]) blast
  then show ?thesis by (simp split: if_splits)
qed

interpretation sch_api: safe_machine sched_wf api_ok "api_step (Inr p)" for p
  by unfold_locales (rule api_step_safe)

lemma api_step_faults:
  assumes "sched_wf s" and "api_ok x" and "api_step past x s = Inl e"
  shows "past = Inl e" and "table_full s"
proof -
  obtain s' where "api_step past x s = (if rejected x s then bindR past (\<lambda>p. Inr s') else Inr s')"
    by (rule api_step_cases [OF assms(1,2)]) blast
  then show "past = Inl e" "table_full s"
    using assms(3) by (cases past; cases x; simp split: if_splits)+
qed

lemma api_step_wf:
  assumes "sched_wf s" and "api_ok x" and "api_step past x s = Inr s'"
  shows "sched_wf s'"
proof -
  obtain s1 where "sched_wf s1" "api_step past x s = (if rejected x s then bindR past (\<lambda>p. Inr s1) else Inr s1)"
    by (rule api_step_cases [OF assms(1,2)]) blast
  then show ?thesis using assms(3) by (cases past) (auto split: if_splits)
qed

lemma api_run_wf:
  "run_ops (api_step past) xs s = Inr s' \<Longrightarrow> list_all api_ok xs \<Longrightarrow> sched_wf s \<Longrightarrow> sched_wf s'"
  by (induction xs arbitrary: s) (auto elim!: bindR_eq_InrE intro: api_step_wf)

text \<open>
  The calls that are rejected in a run of the interface, counted in the world beside the scheduler. The counting run reads
  the memory behind the table; \<open>tracks\<close> relates it to a run in which that read does what \<open>past\<close> says.
\<close>

fun rejections :: "('f, 'w::len word) api list \<Rightarrow> ('f, 'w word) sched \<Rightarrow> nat" where
  "rejections [] s = 0"
| "rejections (x # xs) s =
     (if rejected x s then 1 else 0) + (case api_step (Inr None) x s of Inl e \<Rightarrow> 0 | Inr s' \<Rightarrow> rejections xs s')"

definition counting_call ::
  "('f \<Rightarrow> ('f, 'w::len word) api list) \<Rightarrow> 'f \<Rightarrow> ('f, 'w word) sched \<times> nat \<Rightarrow> (('f, 'w word) sched \<times> nat) res" where
  "counting_call prog f w =
     bindR (run_ops (api_step (Inr None)) (prog f) (fst w)) (\<lambda>s. Inr (s, snd w + rejections (prog f) (fst w)))"

definition tracks ::
  "'f option res \<Rightarrow> (('f, 'w::len word) sched \<times> nat \<Rightarrow> (('f, 'w word) sched \<times> nat) res)
   \<Rightarrow> (('f, 'w word) sched \<times> 'e \<Rightarrow> (('f, 'w word) sched \<times> 'e) res) \<Rightarrow> bool" where
  "tracks past F G \<longleftrightarrow> (\<forall>s k. sched_wf s \<longrightarrow> (\<exists>s' k'. F (s, k) = Inr (s', k') \<and> sched_wf s' \<and> k \<le> k' \<and>
     (\<forall>e. G (s, e) = (if k' = k then Inr (s', e) else bindR past (\<lambda>p. Inr (s', e))))))"

lemma tracksD:
  assumes "tracks past F G" and "sched_wf s"
  obtains s' k' where "F (s, k) = Inr (s', k')" and "sched_wf s'" and "k \<le> k'"
    and "\<And>e. G (s, e) = (if k' = k then Inr (s', e) else bindR past (\<lambda>p. Inr (s', e)))"
  using assms unfolding tracks_def by blast

lemma tracks_refl: "tracks past Inr Inr"
  by (simp add: tracks_def)

lemma tracks_bind:
  assumes "tracks past F1 G1" and "tracks past F2 G2"
  shows "tracks past (\<lambda>w. bindR (F1 w) F2) (\<lambda>w. bindR (G1 w) G2)"
  unfolding tracks_def
proof (intro allI impI)
  fix s :: "('a, 'b word) sched" and k :: nat
  assume "sched_wf s"
  then obtain s1 k1 where 1: "F1 (s, k) = Inr (s1, k1)" "sched_wf s1" "k \<le> k1"
    "\<And>e. G1 (s, e) = (if k1 = k then Inr (s1, e) else bindR past (\<lambda>p. Inr (s1, e)))"
    by (blast elim: tracksD [OF assms(1)])
  then obtain s2 k2 where 2: "F2 (s1, k1) = Inr (s2, k2)" "sched_wf s2" "k1 \<le> k2"
    "\<And>e. G2 (s1, e) = (if k2 = k1 then Inr (s2, e) else bindR past (\<lambda>p. Inr (s2, e)))"
    by (blast elim: tracksD [OF assms(2)])
  have "bindR (G1 (s, e)) G2 = (if k2 = k then Inr (s2, e) else bindR past (\<lambda>p. Inr (s2, e)))" for e
    using 1 2 by (cases past) auto
  then show "\<exists>s' k'. bindR (F1 (s, k)) F2 = Inr (s', k') \<and> sched_wf s' \<and> k \<le> k' \<and>
      (\<forall>e. bindR (G1 (s, e)) G2 = (if k' = k then Inr (s', e) else bindR past (\<lambda>p. Inr (s', e))))"
    using 1 2 by auto
qed

text \<open>What does not call a task and keeps the table well formed.\<close>

lemma tracks_pure:
  assumes "\<And>s. sched_wf s \<Longrightarrow> sched_wf (g s)"
    and "\<And>s k. sched_wf s \<Longrightarrow> F (s, k) = Inr (g s, k)" and "\<And>s e. sched_wf s \<Longrightarrow> G (s, e) = Inr (g s, e)"
  shows "tracks past F G"
  using assms by (auto simp: tracks_def)

lemma tracks_for_up:
  assumes "\<And>i. i < hi \<Longrightarrow> tracks past (F i) (G i)"
  shows "tracks past (for_up lo hi F) (for_up lo hi G)"
proof (induction "hi - lo" arbitrary: lo)
  case 0
  then have "for_up lo hi F = Inr" "for_up lo hi G = Inr" by (simp_all add: fun_eq_iff)
  then show ?case by (simp add: tracks_refl)
next
  case (Suc d)
  then have lo: "lo < hi" by simp
  then have "for_up lo hi F = (\<lambda>w. bindR (F lo w) (for_up (Suc lo) hi F))"
    "for_up lo hi G = (\<lambda>w. bindR (G lo w) (for_up (Suc lo) hi G))"
    by (simp_all add: fun_eq_iff for_up_step)
  then show ?case using tracks_bind [OF assms [OF lo] Suc.hyps(1)] Suc.hyps(2) by simp
qed

lemma tracks_api_run:
  fixes s :: "('f, 'w::len word) sched"
  assumes "sched_wf s" and "list_all api_ok xs"
  shows "\<exists>s'. run_ops (api_step (Inr None)) xs s = Inr s' \<and> sched_wf s' \<and>
    run_ops (api_step past) xs s = (if rejections xs s = 0 then Inr s' else bindR past (\<lambda>p. Inr s'))"
  using assms
proof (induction xs arbitrary: s)
  case (Cons x xs)
  then have x: "api_ok x" by simp
  obtain s1 where s1: "sched_wf s1" "api_step (Inr None) x s = Inr s1"
    "api_step past x s = (if rejected x s then bindR past (\<lambda>p. Inr s1) else Inr s1)"
    by (rule api_step_cases [OF Cons.prems(1) x]) blast
  from Cons.IH [OF s1(1)] Cons.prems(2) obtain s' where s': "run_ops (api_step (Inr None)) xs s1 = Inr s'" "sched_wf s'"
    "run_ops (api_step past) xs s1 = (if rejections xs s1 = 0 then Inr s' else bindR past (\<lambda>p. Inr s'))" by auto
  then show ?case using s1 by (cases past) auto
qed simp

lemma tracks_api_call:
  fixes prog :: "'f \<Rightarrow> ('f, 'w::len word) api list"
  assumes "\<And>f. list_all api_ok (prog f)"
  shows "tracks past (counting_call prog f) (api_call past prog f)"
  unfolding tracks_def
proof (intro allI impI)
  fix s :: "('f, 'w word) sched" and k :: nat
  assume "sched_wf s"
  from tracks_api_run [OF this assms [of f], of past] obtain s' where "run_ops (api_step (Inr None)) (prog f) s = Inr s'" "sched_wf s'"
    "run_ops (api_step past) (prog f) s = (if rejections (prog f) s = 0 then Inr s' else bindR past (\<lambda>p. Inr s'))" by blast
  then show "\<exists>s' k'. counting_call prog f (s, k) = Inr (s', k') \<and> sched_wf s' \<and> k \<le> k' \<and>
      (\<forall>e. api_call past prog f (s, e) = (if k' = k then Inr (s', e) else bindR past (\<lambda>p. Inr (s', e))))"
    by (cases past) (auto simp: counting_call_def api_call_def)
qed

text \<open>The dispatcher around the call of a task.\<close>

definition after_task :: "nat \<Rightarrow> ('f, 'w::len word) sched \<Rightarrow> ('f, 'w word) sched" where
  "after_task i s = s\<lparr>SCH_tasks_G := (SCH_tasks_G s)[i :=
     (if Period (SCH_tasks_G s ! i) = 0 then empty_slot else (SCH_tasks_G s ! i)\<lparr>RunMe := RunMe (SCH_tasks_G s ! i) - 1\<rparr>)],
     Error_code_G := (if Period (SCH_tasks_G s ! i) = 0 \<and> pTask (SCH_tasks_G s ! i) = None
       then ERROR_SCH_CANNOT_DELETE_TASK else Error_code_G s)\<rparr>"

lemma after_task_wf:
  assumes "sched_wf s" and "i < SCH_MAX_TASKS"
  shows "sched_wf (after_task i s)"
proof -
  let ?t = "SCH_tasks_G s ! i"
  have "slot_wf (?t\<lparr>RunMe := r\<rparr>)" if "Period ?t \<noteq> 0" for r
    using sched_wf_nth [OF assms] that by (auto simp: slot_wf_def empty_slot_def)
  then have "slot_wf (if Period ?t = 0 then empty_slot else ?t\<lparr>RunMe := RunMe ?t - 1\<rparr>)" by (simp add: slot_wf_def)
  from sched_wf_update [OF assms(1) this, of i] show ?thesis by (simp add: after_task_def sched_wf_def)
qed

lemma SCH_Dispatch_slot_call:
  assumes "sched_wf s" and "i < SCH_MAX_TASKS" and "RunMe (SCH_tasks_G s ! i) \<noteq> 0"
    and "pTask (SCH_tasks_G s ! i) = Some f" and "\<And>s' e'. call f (s, e) = Inr (s', e') \<Longrightarrow> sched_wf s'"
  shows "SCH_Dispatch_slot call i (s, e) = bindR (call f (s, e)) (\<lambda>(s', e'). Inr (after_task i s', e'))"
proof (cases "call f (s, e)")
  case (Inr w)
  then have wf: "sched_wf (fst w)" using assms(5) by (cases w) simp
  then show ?thesis using assms(1-4) Inr
    by (cases w) (simp add: SCH_Dispatch_slot_def sched_wfD word_gt_0 SCH_Delete_Task_spec Let_def after_task_def)
qed (use assms in \<open>simp add: SCH_Dispatch_slot_def sched_wfD word_gt_0\<close>)

lemma tracks_slot:
  assumes "\<And>f. tracks past (F f) (G f)" and i: "i < SCH_MAX_TASKS"
  shows "tracks past (SCH_Dispatch_slot F i) (SCH_Dispatch_slot G i)"
  unfolding tracks_def
proof (intro allI impI)
  fix s :: "('a, 'b word) sched" and k :: nat
  assume wf: "sched_wf s"
  show "\<exists>s' k'. SCH_Dispatch_slot F i (s, k) = Inr (s', k') \<and> sched_wf s' \<and> k \<le> k' \<and>
      (\<forall>e. SCH_Dispatch_slot G i (s, e) = (if k' = k then Inr (s', e) else bindR past (\<lambda>p. Inr (s', e))))"
  proof (cases "RunMe (SCH_tasks_G s ! i) = 0")
    case True
    then show ?thesis using wf i by (auto simp: SCH_Dispatch_slot_def sched_wfD)
  next
    case False
    with wf i obtain f where f: "pTask (SCH_tasks_G s ! i) = Some f" using slot_wf_runnable sched_wf_nth by blast
    obtain s1 k1 where c: "F f (s, k) = Inr (s1, k1)" "sched_wf s1" "k \<le> k1"
      "\<And>e. G f (s, e) = (if k1 = k then Inr (s1, e) else bindR past (\<lambda>p. Inr (s1, e)))"
      by (rule tracksD [OF assms(1) [of f] wf, of k]) blast
    have "SCH_Dispatch_slot F i (s, k) = Inr (after_task i s1, k1)"
      using SCH_Dispatch_slot_call [OF wf i False f, of F k] c(1,2) by simp
    moreover have "SCH_Dispatch_slot G i (s, e) = bindR (G f (s, e)) (\<lambda>(s', e'). Inr (after_task i s', e'))" for e
      by (rule SCH_Dispatch_slot_call [OF wf i False f]) (use c(2,4) in \<open>cases past; auto split: if_splits\<close>)
    then have "SCH_Dispatch_slot G i (s, e) = (if k1 = k then Inr (after_task i s1, e) else bindR past (\<lambda>p. Inr (after_task i s1, e)))" for e
      unfolding c(4) by (cases past) simp_all
    ultimately show ?thesis using after_task_wf [OF c(2) i] c(3) by auto
  qed
qed

lemma tracks_dispatch:
  assumes "\<And>f. tracks past (F f) (G f)"
  shows "tracks past (SCH_Dispatch_Tasks F) (SCH_Dispatch_Tasks G)"
proof -
  have "tracks past (for_up 0 SCH_MAX_TASKS (SCH_Dispatch_slot F)) (for_up 0 SCH_MAX_TASKS (SCH_Dispatch_slot G))"
    by (rule tracks_for_up) (rule tracks_slot [OF assms])
  moreover have "SCH_Dispatch_Tasks F = (\<lambda>w. bindR (for_up 0 SCH_MAX_TASKS (SCH_Dispatch_slot F) w) Inr)"
    "SCH_Dispatch_Tasks G = (\<lambda>w. bindR (for_up 0 SCH_MAX_TASKS (SCH_Dispatch_slot G) w) Inr)"
    by (simp_all add: fun_eq_iff SCH_Dispatch_Tasks_def SCH_Go_To_Sleep_def case_prod_unfold)
  ultimately show ?thesis using tracks_bind [OF _ tracks_refl] by metis
qed

end
