(* ===== verification/Raw_Scheduler_Timing.thy ===== *)
theory Raw_Scheduler_Timing
  imports Raw_Scheduler
begin

text \<open>
  When the scheduler of \<^verbatim>\<open>sch51.c\<close> runs its tasks. The abstract specification of a slot is
  the set of ticks at which its task is due (\<open>due_at\<close>), computed from the slot's \<open>Delay\<close> and
  \<open>Period\<close> alone; the refinement result is that the interrupt handler and the dispatcher
  together run exactly the due tasks, tick by tick and in slot order. The second group of
  lemmas is about a dispatcher that does not keep up: releases accumulate in the 8-bit
  \<open>RunMe\<close> counter.
\<close>

section \<open>The schedule of a slot\<close>

text \<open>
  Tick numbers count from 1 (the first call of \<open>SCH_Update\<close>). A periodic task
  (\<open>Period \<noteq> 0\<close>) is due at tick \<open>Delay + 1\<close> and from then on every \<open>Period + 1\<close> ticks: the
  handler reloads \<open>Delay\<close> with \<open>Period\<close> on one tick and needs \<open>Period\<close> further ticks to
  count it down before the tick that releases the task again. A one-shot task is due once.
\<close>

definition due_at :: "nat \<Rightarrow> ('f, 'w::len word) sTask \<Rightarrow> bool" where
  "due_at k t \<longleftrightarrow>
     pTask t \<noteq> None \<and> unat (Delay t) < k \<and>
     (if Period t = 0 then k = Suc (unat (Delay t))
      else (k - unat (Delay t) - 1) mod Suc (unat (Period t)) = 0)"

definition schedule_at :: "nat \<Rightarrow> ('f, 'w::len word) sTask list \<Rightarrow> 'f list" where
  "schedule_at k ts = map (the \<circ> pTask) (filter (due_at k) ts)"

definition cycle_slot :: "('f, 'w::len word) sTask \<Rightarrow> ('f, 'w word) sTask" where
  "cycle_slot t = dispatch_slot (tick_slot t)"

text \<open>A slot is idle when it is well formed and has no release pending.\<close>

definition slot_idle :: "('f, 'w::len word) sTask \<Rightarrow> bool" where
  "slot_idle t \<longleftrightarrow> slot_wf t \<and> RunMe t = 0"

definition sched_idle :: "('f, 'w::len word) sched \<Rightarrow> bool" where
  "sched_idle s \<longleftrightarrow> length (SCH_tasks_G s) = SCH_MAX_TASKS \<and> list_all slot_idle (SCH_tasks_G s)"

text \<open>The log of a run: every task that is called appends its own name.\<close>

definition log_task :: "'f \<Rightarrow> 'f list \<Rightarrow> 'f list" where
  "log_task f l = l @ [f]"

lemma fold_log_task [simp]: "fold log_task fs l = l @ fs"
  by (induction fs arbitrary: l) (simp_all add: log_task_def)

lemma unat_pred: "(x :: 'w::len word) \<noteq> 0 \<Longrightarrow> unat (x - 1) = unat x - 1"
  by (simp add: unat_minus_one)

lemma slot_idle_cycle: "slot_idle t \<Longrightarrow> slot_idle (cycle_slot t)"
  by (auto simp: slot_idle_def cycle_slot_def tick_slot_def dispatch_slot_def slot_wf_def)

lemma tick_releases_due:
  assumes "slot_idle t"
  shows "0 < RunMe (tick_slot t) \<longleftrightarrow> due_at (Suc 0) t"
  using assms by (auto simp: slot_idle_def tick_slot_def due_at_def unat_eq_zero word_gt_0)

lemma tick_keeps_task: "pTask (tick_slot t) = pTask t"
  by (simp add: tick_slot_def)

lemma period_shift:
  assumes "1 \<le> (k::nat)"
  shows "(p < k \<and> (k - p - 1) mod Suc p = 0) \<longleftrightarrow> k mod Suc p = 0"
proof (cases "p < k")
  case True
  then have "k mod Suc p = (k - Suc p) mod Suc p" by (simp add: le_mod_geq)
  with True show ?thesis by simp
next
  case False
  with assms show ?thesis by simp
qed

text \<open>One cycle moves the schedule of the slot by one tick.\<close>

lemma due_at_shift:
  assumes "slot_idle t" and k: "1 \<le> k"
  shows "due_at k (cycle_slot t) \<longleftrightarrow> due_at (Suc k) t"
proof (cases "pTask t = None \<or> Delay t \<noteq> 0")
  case True
  with assms show ?thesis
    by (auto simp: slot_idle_def cycle_slot_def tick_slot_def dispatch_slot_def due_at_def
        unat_pred unat_gt_0)
next
  case False
  show ?thesis
  proof (cases "Period t = 0")
    case True
    with False assms show ?thesis
      by (auto simp: slot_idle_def cycle_slot_def tick_slot_def dispatch_slot_def due_at_def)
  next
    case p: False
    with False assms have "cycle_slot t = t\<lparr>Delay := Period t\<rparr>"
      by (cases t) (auto simp: slot_idle_def cycle_slot_def tick_slot_def dispatch_slot_def)
    with p False period_shift [OF k, of "unat (Period t)"] show ?thesis
      by (auto simp: due_at_def)
  qed
qed

lemma schedule_at_shift:
  assumes "list_all slot_idle ts" and "1 \<le> k"
  shows "schedule_at k (map cycle_slot ts) = schedule_at (Suc k) ts"
  using assms
proof (induction ts)
  case (Cons t ts)
  have "pTask (cycle_slot t) = pTask t" if "due_at (Suc k) t"
    using that Cons.prems
    by (auto simp: cycle_slot_def tick_slot_def dispatch_slot_def slot_idle_def due_at_def)
  with Cons show ?case by (simp add: schedule_at_def due_at_shift)
qed (simp add: schedule_at_def)

lemma due_tasks_tick:
  assumes "list_all slot_idle ts"
  shows "due_tasks (map tick_slot ts) = schedule_at 1 ts"
  using assms
  by (induction ts)
    (auto simp: due_tasks_def schedule_at_def tick_releases_due tick_keeps_task)

lemma sched_idle_wf: "sched_idle s \<Longrightarrow> sched_wf s"
  by (auto simp: sched_idle_def sched_wf_def slot_idle_def list_all_iff)

lemma sched_idle_cycle:
  "sched_idle s \<Longrightarrow> sched_idle (s\<lparr>SCH_tasks_G := map cycle_slot (SCH_tasks_G s)\<rparr>)"
  by (auto simp: sched_idle_def list_all_iff slot_idle_cycle)

lemma SCH_run_Suc:
  assumes "sched_idle s"
  shows "SCH_run (quiet act) (Suc n) (s, e) =
    SCH_run (quiet act) n (s\<lparr>SCH_tasks_G := map cycle_slot (SCH_tasks_G s)\<rparr>,
                           fold act (schedule_at 1 (SCH_tasks_G s)) e)"
proof -
  let ?s = "s\<lparr>SCH_tasks_G := map tick_slot (SCH_tasks_G s)\<rparr>"
  have "sched_wf ?s"
    using sched_idle_wf [OF assms] slot_wf_tick by (rule sched_wf_map)
  then show ?thesis
    using assms
    by (simp add: SCH_Update_spec SCH_Dispatch_Tasks_quiet sched_idle_def due_tasks_tick
        cycle_slot_def [abs_def] comp_def)
qed

lemma SCH_run_schedule_aux:
  assumes "sched_idle s"
  shows "\<exists>s'. SCH_run (quiet log_task) n (s, l) =
      Inr (s', l @ concat (map (\<lambda>k. schedule_at (Suc k) (SCH_tasks_G s)) [0..<n]))
    \<and> sched_idle s'"
  using assms
proof (induction n arbitrary: s l)
  case (Suc n)
  let ?s = "s\<lparr>SCH_tasks_G := map cycle_slot (SCH_tasks_G s)\<rparr>"
  have "schedule_at (Suc k) (map cycle_slot (SCH_tasks_G s)) =
        schedule_at (Suc (Suc k)) (SCH_tasks_G s)" for k
    using Suc.prems by (simp add: schedule_at_shift sched_idle_def)
  moreover have "[0..<Suc n] = 0 # map Suc [0..<n]"
    by (simp add: map_Suc_upt upt_conv_Cons del: upt_Suc)
  ultimately show ?case
    using Suc.IH [OF sched_idle_cycle [OF Suc.prems], of "l @ schedule_at 1 (SCH_tasks_G s)"]
      Suc.prems
    by (simp add: SCH_run_Suc comp_def del: SCH_run.simps upt_Suc)
qed simp

section \<open>Ticks without a dispatch\<close>

fun SCH_ticks :: "nat \<Rightarrow> ('f, 'w::len word) sched \<Rightarrow> ('f, 'w word) sched res" where
  "SCH_ticks 0 s = Inr s"
| "SCH_ticks (Suc n) s = bindR (SCH_Update s) (SCH_ticks n)"

text \<open>The number of releases in \<open>n\<close> ticks of a slot with delay \<open>d\<close> and period \<open>p\<close>.\<close>

definition releases :: "nat \<Rightarrow> nat \<Rightarrow> nat \<Rightarrow> nat" where
  "releases n d p = (if n \<le> d then 0 else Suc ((n - d - 1) div Suc p))"

lemma releases_0 [simp]: "releases 0 d p = 0"
  by (simp add: releases_def)

lemma releases_wait: "0 < d \<Longrightarrow> releases (Suc n) d p = releases n (d - 1) p"
  by (cases d) (simp_all add: releases_def)

lemma releases_due: "releases (Suc n) 0 p = Suc (releases n p p)"
proof (cases "n \<le> p")
  case False
  then have "n div Suc p = Suc ((n - Suc p) div Suc p)" by (simp add: le_div_geq)
  with False show ?thesis by (simp add: releases_def)
qed (simp add: releases_def)

lemma tick_slot_Suc:
  assumes "pTask t \<noteq> None"
  shows "RunMe ((tick_slot ^^ n) t) = RunMe t + of_nat (releases n (unat (Delay t)) (unat (Period t)))"
  using assms
proof (induction n arbitrary: t)
  case (Suc n)
  have "pTask (tick_slot t) \<noteq> None" using Suc.prems by (simp add: tick_keeps_task)
  then have IH: "RunMe ((tick_slot ^^ Suc n) t) = RunMe (tick_slot t) +
      of_nat (releases n (unat (Delay (tick_slot t))) (unat (Period (tick_slot t))))"
    using Suc.IH by (simp add: funpow_swap1)
  show ?case
  proof (cases "Delay t = 0")
    case True
    with IH Suc.prems show ?thesis
      by (simp add: tick_slot_def [of t] releases_due add.assoc del: funpow.simps)
  next
    case False
    with IH Suc.prems show ?thesis
      by (simp add: tick_slot_def [of t] releases_wait unat_pred unat_gt_0 del: funpow.simps)
  qed
qed simp

lemma SCH_ticks_spec [res_simps]:
  assumes "length (SCH_tasks_G s) = SCH_MAX_TASKS"
  shows "SCH_ticks n s = Inr (s\<lparr>SCH_tasks_G := map (tick_slot ^^ n) (SCH_tasks_G s)\<rparr>)"
  using assms
  by (induction n arbitrary: s) (simp_all add: SCH_Update_spec comp_def funpow_swap1)

section \<open>Properties\<close>

text \<open>
  C1. A system whose tasks do not touch the table, started with no release pending, runs in
  every tick exactly the tasks that are due in that tick, in slot order, and never faults. The
  log of \<open>n\<close> ticks is the concatenation of the schedules of ticks 1 to \<open>n\<close>.
\<close>

theorem SCH_run_schedule:
  assumes "sched_idle s"
  shows "\<exists>s'. SCH_run (quiet log_task) n (s, []) =
      Inr (s', concat (map (\<lambda>k. schedule_at (Suc k) (SCH_tasks_G s)) [0..<n]))
    \<and> sched_idle s'"
  using SCH_run_schedule_aux [OF assms, of n "[]"] by simp

text \<open>A table with a periodic and a one-shot task, used by the witnesses.\<close>

definition demo_sched :: "(nat, 16 word) sched" where
  "demo_sched = \<lparr>SCH_tasks_G =
     [\<lparr>pTask = Some 7, Delay = 1, Period = 2, RunMe = 0\<rparr>,
      \<lparr>pTask = Some 9, Delay = 3, Period = 0, RunMe = 0\<rparr>, empty_slot, empty_slot],
     Error_code_G = 0\<rparr>"

lemma demo_sched_idle: "sched_idle demo_sched"
  by (simp add: demo_sched_def sched_idle_def SCH_MAX_TASKS_def slot_idle_def slot_wf_def)

lemma demo_schedule:
  "concat (map (\<lambda>k. schedule_at (Suc k) (SCH_tasks_G demo_sched)) [0..<8]) = [7, 9, 7, 7]"
  by (simp add: demo_sched_def schedule_at_def due_at_def upt_rec)

theorem SCH_run_schedule_witness:
  "\<exists>s'. SCH_run (quiet log_task) 8 (demo_sched, []) = Inr (s', [7, 9, 7, 7]) \<and> sched_idle s'"
  using SCH_run_schedule [OF demo_sched_idle, of 8] by (simp only: demo_schedule)

text \<open>
  The interval between two releases of a periodic task is \<open>Period + 1\<close> ticks: a task that
  is due on the next tick is released by that tick, is not released by any of the \<open>Period\<close>
  ticks after it, and is released again by tick \<open>Period + 2\<close>.
\<close>

theorem SCH_Update_interval:
  assumes "sched_wf s" and "i < SCH_MAX_TASKS"
    and "pTask (SCH_tasks_G s ! i) \<noteq> None" and "Delay (SCH_tasks_G s ! i) = 0"
  shows "(\<forall>n. 1 \<le> n \<and> n \<le> unat (Period (SCH_tasks_G s ! i)) + 1 \<longrightarrow>
      (\<exists>s'. SCH_ticks n s = Inr s' \<and> RunMe (SCH_tasks_G s' ! i) = RunMe (SCH_tasks_G s ! i) + 1))
    \<and> (\<exists>s'. SCH_ticks (unat (Period (SCH_tasks_G s ! i)) + 2) s = Inr s'
      \<and> RunMe (SCH_tasks_G s' ! i) = RunMe (SCH_tasks_G s ! i) + 2)"
proof -
  let ?p = "unat (Period (SCH_tasks_G s ! i))"
  have "releases n 0 ?p = 1" if "1 \<le> n" "n \<le> ?p + 1" for n
    using that by (simp add: releases_def)
  moreover have "releases (?p + 2) 0 ?p = 2"
    by (simp add: releases_def)
  ultimately show ?thesis
    using assms
    by (simp add: SCH_ticks_spec sched_wfD tick_slot_Suc del: SCH_ticks.simps funpow.simps add_2_eq_Suc')
qed

definition demo_due :: "(nat, 16 word) sched" where
  "demo_due = demo_sched\<lparr>SCH_tasks_G := (SCH_tasks_G demo_sched)[0 :=
     \<lparr>pTask = Some 7, Delay = 0, Period = 1000, RunMe = 0\<rparr>]\<rparr>"

theorem SCH_Update_interval_witness:
  "(\<exists>s'. SCH_ticks 1000 demo_due = Inr s' \<and> RunMe (SCH_tasks_G s' ! 0) = 1)
   \<and> (\<exists>s'. SCH_ticks 1001 demo_due = Inr s' \<and> RunMe (SCH_tasks_G s' ! 0) = 1)
   \<and> (\<exists>s'. SCH_ticks 1002 demo_due = Inr s' \<and> RunMe (SCH_tasks_G s' ! 0) = 2)"
proof -
  have "sched_wf demo_due"
    by (simp add: demo_due_def demo_sched_def sched_wf_def SCH_MAX_TASKS_def slot_wf_def)
  moreover have "SCH_tasks_G demo_due ! 0 = \<lparr>pTask = Some 7, Delay = 0, Period = 1000, RunMe = 0\<rparr>"
    by (simp add: demo_due_def demo_sched_def)
  ultimately show ?thesis
    using SCH_Update_interval [of demo_due 0] by (simp add: SCH_MAX_TASKS_def)
qed

text \<open>
  C34. While the dispatcher does not run, every release of a task is counted in \<open>RunMe\<close>
  modulo 256: after \<open>n\<close> ticks the counter has grown by the number of releases, reduced to
  8 bits, so 256 pending releases are lost.
\<close>

theorem SCH_Update_backlog:
  assumes "sched_wf s" and "i < SCH_MAX_TASKS" and "pTask (SCH_tasks_G s ! i) \<noteq> None"
  shows "\<exists>s'. SCH_ticks n s = Inr s' \<and>
    unat (RunMe (SCH_tasks_G s' ! i)) =
      (unat (RunMe (SCH_tasks_G s ! i))
        + releases n (unat (Delay (SCH_tasks_G s ! i))) (unat (Period (SCH_tasks_G s ! i)))) mod 256"
proof -
  have "unat (RunMe (SCH_tasks_G s ! i) + of_nat m) =
        (unat (RunMe (SCH_tasks_G s ! i)) + m) mod 256" for m
    by (simp add: unat_word_ariths unat_of_nat mod_add_right_eq)
  with assms show ?thesis by (simp add: SCH_ticks_spec sched_wfD tick_slot_Suc)
qed

theorem SCH_Update_backlog_witness:
  "\<exists>s'. SCH_ticks 767 demo_sched = Inr s' \<and> unat (RunMe (SCH_tasks_G s' ! 0)) = 0"
  using SCH_Update_backlog [OF sched_idle_wf [OF demo_sched_idle], of 0 767]
  by (simp add: SCH_MAX_TASKS_def demo_sched_def releases_def)

end
