(* ===== verification/Raw_Scheduler_Props.thy ===== *)
theory Raw_Scheduler_Props
  imports Raw_Scheduler_Timing
begin

text \<open>
  Correctness of the table operations of \<^verbatim>\<open>sch51.c\<close>: absence of faults for a whole run,
  initialisation, adding and deleting tasks on every branch, and what happens when a task
  replaces itself while the dispatcher is calling it.
\<close>

section \<open>Auxiliary lemmas\<close>

lemma first_gap_eqI:
  assumes "i < length ts" and "pTask (ts ! i) = None" and "\<And>j. j < i \<Longrightarrow> pTask (ts ! j) \<noteq> None"
  shows "first_gap ts = i"
proof (rule linorder_cases [of "first_gap ts" i])
  assume "first_gap ts < i"
  with assms show ?thesis using first_gap_empty [of ts] by force
next
  assume "i < first_gap ts"
  with assms(2) show ?thesis using first_gap_least [of i ts] by simp
qed


section \<open>Properties\<close>





text \<open>
  \<open>SCH_Init_T2\<close> brings a table of any contents into the initial state: every slot empty,
  no error recorded (the error codes its calls of \<open>SCH_Delete_Task\<close> produce are reset).
\<close>

theorem SCH_Init_T2_ready:
  assumes "length (SCH_tasks_G s) = SCH_MAX_TASKS"
  shows "\<exists>s'. SCH_Init_T2 s = Inr s' \<and> sched_wf s' \<and> Error_code_G s' = 0
    \<and> SCH_tasks_G s' = replicate SCH_MAX_TASKS empty_slot"
  using assms by (simp add: SCH_Init_T2_spec sched_wf_def list_all_iff)

theorem SCH_Init_T2_ready_witness:
  "\<exists>s'. SCH_Init_T2 demo_sched = Inr s' \<and> sched_wf s' \<and> Error_code_G s' = 0
    \<and> SCH_tasks_G s' = replicate SCH_MAX_TASKS empty_slot"
  by (rule SCH_Init_T2_ready) (simp add: demo_sched_def SCH_MAX_TASKS_def)

text \<open>
  On a table with a free slot, \<open>SCH_Add_Task\<close> writes the task into the first free slot
  with its delay, its period and no release pending, returns the index of that slot, changes
  no other slot, records no error and keeps the table well formed.
\<close>

theorem SCH_Add_Task_first_free:
  assumes "sched_wf s" and "\<exists>t \<in> set (SCH_tasks_G s). pTask t = None"
  shows "\<exists>i s'. SCH_Add_Task past (Some f) D P s = Inr (of_nat i, s')
    \<and> i < SCH_MAX_TASKS
    \<and> pTask (SCH_tasks_G s ! i) = None \<and> (\<forall>j<i. pTask (SCH_tasks_G s ! j) \<noteq> None)
    \<and> SCH_tasks_G s' ! i = \<lparr>pTask = Some f, Delay = D, Period = P, RunMe = 0\<rparr>
    \<and> (\<forall>j. j \<noteq> i \<longrightarrow> SCH_tasks_G s' ! j = SCH_tasks_G s ! j)
    \<and> Error_code_G s' = Error_code_G s \<and> sched_wf s'"
proof -
  let ?g = "first_gap (SCH_tasks_G s)"
  have "?g \<noteq> length (SCH_tasks_G s)" using assms(2) first_gap_full_iff by blast
  then have g: "?g < SCH_MAX_TASKS" using first_gap_le [of "SCH_tasks_G s"] sched_wfD [OF assms(1)] by simp
  then have "pTask (SCH_tasks_G s ! ?g) = None" using first_gap_empty sched_wfD [OF assms(1)] by metis
  with g assms(1) show ?thesis
    by (intro exI [of _ ?g])
      (auto simp: SCH_Add_Task_free sched_wfD first_gap_least slot_wf_def intro!: wf_intros)
qed

theorem SCH_Add_Task_first_free_witness:
  "\<exists>i s'. SCH_Add_Task (Inl Out_Of_Bounds) (Some 5) 10 20 demo_sched = Inr (of_nat i, s')
    \<and> i < SCH_MAX_TASKS
    \<and> pTask (SCH_tasks_G demo_sched ! i) = None
    \<and> SCH_tasks_G s' ! i = \<lparr>pTask = Some 5, Delay = 10, Period = 20, RunMe = 0\<rparr>
    \<and> Error_code_G s' = Error_code_G demo_sched \<and> sched_wf s'"
proof -
  have "\<exists>t\<in>set (SCH_tasks_G demo_sched). pTask t = None" by (simp add: demo_sched_def)
  from SCH_Add_Task_first_free [OF sched_idle_wf [OF demo_sched_idle] this]
  show ?thesis by blast
qed

text \<open>
  On a full table the search of \<open>SCH_Add_Task\<close> always reads one element past the end of
  \<open>SCH_tasks_G\<close>: where that read traps, the call traps; where it returns anything at all, the
  call returns \<open>SCH_MAX_TASKS\<close>, records \<open>ERROR_SCH_TOO_MANY_TASKS\<close> and leaves the table as
  it was.
\<close>

theorem SCH_Add_Task_table_full:
  assumes "length (SCH_tasks_G s) = SCH_MAX_TASKS" and "\<forall>t \<in> set (SCH_tasks_G s). pTask t \<noteq> None"
  shows "SCH_Add_Task (Inl Out_Of_Bounds) pf D P s = Inl Out_Of_Bounds
    \<and> (\<forall>p. SCH_Add_Task (Inr p) pf D P s =
         Inr (of_nat SCH_MAX_TASKS, s\<lparr>Error_code_G := ERROR_SCH_TOO_MANY_TASKS\<rparr>))"
  using assms first_gap_full_iff [of "SCH_tasks_G s"] by (simp add: SCH_Add_Task_full)

definition demo_full :: "(nat, 16 word) sched" where
  "demo_full = \<lparr>SCH_tasks_G = replicate 4 \<lparr>pTask = Some 1, Delay = 5, Period = 5, RunMe = 0\<rparr>,
     Error_code_G = 0\<rparr>"

theorem SCH_Add_Task_table_full_witness:
  "SCH_Add_Task (Inl Out_Of_Bounds) (Some 2) 0 0 demo_full = Inl Out_Of_Bounds
   \<and> (\<forall>p. SCH_Add_Task (Inr p) (Some 2) 0 0 demo_full =
        Inr (of_nat SCH_MAX_TASKS, demo_full\<lparr>Error_code_G := ERROR_SCH_TOO_MANY_TASKS\<rparr>))"
  by (rule SCH_Add_Task_table_full) (simp_all add: demo_full_def SCH_MAX_TASKS_def)

text \<open>
  C39. Deleting the task that \<open>SCH_Add_Task\<close> has just added, by the index it returned, gives
  \<open>RETURN_NORMAL\<close> and restores the scheduler's state exactly.
\<close>

theorem SCH_Add_Delete_roundtrip:
  assumes "sched_wf s" and "SCH_Add_Task past (Some f) D P s = Inr (i, s')"
    and "i \<noteq> of_nat SCH_MAX_TASKS"
  shows "SCH_Delete_Task i s' = Inr (RETURN_NORMAL, s)"
proof -
  let ?ts = "SCH_tasks_G s" and ?g = "first_gap (SCH_tasks_G s)"
  have len: "length ?ts = SCH_MAX_TASKS" using assms(1) by (rule sched_wfD)
  have g: "?g < SCH_MAX_TASKS"
  proof (rule ccontr)
    assume "\<not> ?thesis"
    with len first_gap_le [of ?ts] have "?g = SCH_MAX_TASKS" by simp
    with assms(2,3) len show False by (auto simp: SCH_Add_Task_full elim: bindR_eq_InrE)
  qed
  have "slot_wf (?ts ! ?g)" "pTask (?ts ! ?g) = None"
    using assms(1) g len first_gap_empty [of ?ts] by (simp_all add: sched_wf_nth)
  then have "?ts[?g := empty_slot] = ?ts" by (metis list_update_id slot_wf_def)
  with assms(2) g len show ?thesis
    by (auto simp: SCH_Add_Task_free SCH_Delete_Task_spec Let_def)
qed

theorem SCH_Add_Delete_roundtrip_witness:
  "\<exists>s'. SCH_Add_Task (Inl Out_Of_Bounds) (Some 5) 10 20 demo_sched = Inr (2, s')
    \<and> SCH_Delete_Task 2 s' = Inr (RETURN_NORMAL, demo_sched)"
proof -
  have "first_gap (SCH_tasks_G demo_sched) = 2" by (simp add: demo_sched_def first_gap_def)
  then obtain s' where a: "SCH_Add_Task (Inl Out_Of_Bounds) (Some 5) 10 20 demo_sched = Inr (2, s')"
    using sched_wfD(1) [OF sched_idle_wf [OF demo_sched_idle]]
    by (simp add: SCH_Add_Task_free SCH_MAX_TASKS_def)
  then show ?thesis
    using SCH_Add_Delete_roundtrip [OF sched_idle_wf [OF demo_sched_idle] a]
    by (simp add: SCH_MAX_TASKS_def)
qed

text \<open>
  A task that deletes itself and then adds another periodic task, and so gets its own slot
  back, corrupts the new task's release counter: the dispatcher's decrement after the call
  wraps the cleared counter, and the new task is left with 255 releases pending.
\<close>

theorem SCH_Dispatch_self_replace:
  assumes "length (SCH_tasks_G s) = SCH_MAX_TASKS" and i: "i < SCH_MAX_TASKS"
    and full: "\<And>j. j < i \<Longrightarrow> pTask (SCH_tasks_G s ! j) \<noteq> None"
    and f: "pTask (SCH_tasks_G s ! i) = Some f" and due: "0 < RunMe (SCH_tasks_G s ! i)"
    and prog: "prog f = [Api_Delete (of_nat i), Api_Add g D P]" and "P \<noteq> 0"
  shows "\<exists>s'. SCH_Dispatch_slot (api_call past prog) i (s, e) = Inr (s', e)
    \<and> SCH_tasks_G s' ! i = \<lparr>pTask = Some g, Delay = D, Period = P, RunMe = 255\<rparr>"
proof -
  let ?ts = "(SCH_tasks_G s)[i := empty_slot]"
  have "first_gap ?ts = i"
    using assms(1) i full by (intro first_gap_eqI) simp_all
  then have "SCH_Add_Task past (Some g) D P (s\<lparr>SCH_tasks_G := ?ts\<rparr>) =
      Inr (of_nat i, s\<lparr>SCH_tasks_G := ?ts[i := \<lparr>pTask = Some g, Delay = D, Period = P, RunMe = 0\<rparr>]\<rparr>)"
    using assms(1) i by (simp add: SCH_Add_Task_free)
  with assms show ?thesis
    by (simp add: SCH_Dispatch_slot_def api_call_def SCH_Delete_Task_spec Let_def)
qed

definition demo_replace :: "(nat, 16 word) sched" where
  "demo_replace = demo_sched\<lparr>SCH_tasks_G := (SCH_tasks_G demo_sched)[0 :=
     \<lparr>pTask = Some 7, Delay = 5, Period = 5, RunMe = 1\<rparr>]\<rparr>"

theorem SCH_Dispatch_self_replace_witness:
  "\<exists>s'. SCH_Dispatch_slot (api_call (Inl Out_Of_Bounds) (\<lambda>f. [Api_Delete (of_nat 0), Api_Add 8 100 100]))
          0 (demo_replace, ()) = Inr (s', ())
    \<and> SCH_tasks_G s' ! 0 = \<lparr>pTask = Some 8, Delay = 100, Period = 100, RunMe = 255\<rparr>"
  by (rule SCH_Dispatch_self_replace [where f = 7])
    (simp_all add: demo_replace_def demo_sched_def SCH_MAX_TASKS_def)

end
