(* ===== verification/Raw_Scheduler_Isr.thy ===== *)
theory Raw_Scheduler_Isr
  imports Raw_Scheduler_Props
begin

text \<open>
  The timer interrupt of \<^verbatim>\<open>sch51.c\<close> against the code it interrupts. \<open>SCH_Update\<close> runs as an
  interrupt handler, so it can run between any two stores of \<open>SCH_Add_Task\<close> and between any
  two statements of the dispatcher. The first section says which interruptions of
  \<open>SCH_Add_Task\<close> are harmless; the second is a step relation of the dispatcher, the tasks it
  calls and the interrupt handler, with a safety invariant.
\<close>

section \<open>An interrupt inside SCH_Add_Task\<close>

text \<open>The call interrupted by one tick after the first \<open>k\<close> of its four stores.\<close>

definition SCH_Add_Task_isr ::
  "nat \<Rightarrow> nat \<Rightarrow> 'f option \<Rightarrow> 'w::len word \<Rightarrow> 'w word \<Rightarrow> ('f, 'w word) sched \<Rightarrow> ('f, 'w word) sched res" where
  "SCH_Add_Task_isr k i pf D P s =
     (let sts = SCH_Add_Task_stores i pf D P
      in bindR (SCH_Update (fold (\<lambda>f. f) (take k sts) s)) (\<lambda>s1.
           Inr (fold (\<lambda>f. f) (drop k sts) s1)))"

text \<open>The slot that such a call leaves behind, by the position of the interrupt.\<close>

definition isr_slot :: "nat \<Rightarrow> 'f option \<Rightarrow> 'w::len word \<Rightarrow> 'w word \<Rightarrow> ('f, 'w word) sTask" where
  "isr_slot k pf D P =
     (let added = \<lparr>pTask = pf, Delay = D, Period = P, RunMe = 0\<rparr>
      in if k \<le> 1 \<or> (k = 2 \<and> D = 0) then added
         else if k \<le> 3 \<and> D = 0 then \<lparr>pTask = pf, Delay = P, Period = P, RunMe = 0\<rparr>
         else tick_slot added)"

lemma less_4_cases: "k \<le> 4 \<Longrightarrow> k = 0 \<or> k = 1 \<or> k = 2 \<or> k = 3 \<or> k = (4::nat)"
  by linarith

lemma SCH_Add_Task_isr_spec:
  assumes len: "length (SCH_tasks_G s) = SCH_MAX_TASKS" and i: "i < SCH_MAX_TASKS"
    and free: "SCH_tasks_G s ! i = empty_slot" and k: "k \<le> 4"
  shows "SCH_Add_Task_isr k i (Some f) D P s =
    Inr (s\<lparr>SCH_tasks_G := (map tick_slot (SCH_tasks_G s))[i := isr_slot k (Some f) D P]\<rparr>)"
  using less_4_cases [OF k] len i free
  by (elim disjE)
    (auto simp: SCH_Add_Task_isr_def SCH_Add_Task_stores_def SCH_Update_spec Let_def map_update
      tick_slot_def isr_slot_def empty_slot_def numeral_eq_Suc)

text \<open>
  C18. Adding a task while the timer interrupts is atomic in effect: wherever the tick falls
  among the four stores, the result is that of the tick before the call or of the tick after
  it, unless the tick falls just before the last store and the task has no delay and a
  period. In that case the release of the task by this tick is lost.
\<close>

theorem SCH_Add_Task_isr_atomic:
  assumes "length (SCH_tasks_G s) = SCH_MAX_TASKS" and "i < SCH_MAX_TASKS"
    and "SCH_tasks_G s ! i = empty_slot" and "k \<le> 4"
  shows "(if k = 3 \<and> D = 0 \<and> P \<noteq> 0
     then SCH_Add_Task_isr k i (Some f) D P s =
       Inr (s\<lparr>SCH_tasks_G := (map tick_slot (SCH_tasks_G s))
               [i := \<lparr>pTask = Some f, Delay = P, Period = P, RunMe = 0\<rparr>]\<rparr>)
     else SCH_Add_Task_isr k i (Some f) D P s = SCH_Add_Task_isr 0 i (Some f) D P s
       \<or> SCH_Add_Task_isr k i (Some f) D P s = SCH_Add_Task_isr 4 i (Some f) D P s)"
proof -
  have "isr_slot k (Some f) D P = isr_slot 0 (Some f) D P
      \<or> isr_slot k (Some f) D P = isr_slot 4 (Some f) D P" if "\<not> (k = 3 \<and> D = 0 \<and> P \<noteq> 0)"
    using that less_4_cases [OF assms(4)] by (auto simp: isr_slot_def Let_def)
  moreover have "isr_slot 3 (Some f) 0 P = \<lparr>pTask = Some f, Delay = P, Period = P, RunMe = 0\<rparr>"
    by (simp add: isr_slot_def Let_def)
  ultimately show ?thesis
    using assms SCH_Add_Task_isr_spec [OF assms(1-3)] by fastforce
qed

theorem SCH_Add_Task_isr_atomic_witness:
  "SCH_Add_Task_isr 3 2 (Some 5) 0 9 demo_sched =
     Inr (demo_sched\<lparr>SCH_tasks_G := (map tick_slot (SCH_tasks_G demo_sched))
            [2 := \<lparr>pTask = Some 5, Delay = 9, Period = 9, RunMe = 0\<rparr>]\<rparr>)
   \<and> (SCH_Add_Task_isr 2 2 (Some 5) 3 9 demo_sched = SCH_Add_Task_isr 0 2 (Some 5) 3 9 demo_sched
     \<or> SCH_Add_Task_isr 2 2 (Some 5) 3 9 demo_sched = SCH_Add_Task_isr 4 2 (Some 5) 3 9 demo_sched)"
proof -
  have "length (SCH_tasks_G demo_sched) = SCH_MAX_TASKS" "2 < SCH_MAX_TASKS"
    "SCH_tasks_G demo_sched ! 2 = empty_slot"
    by (simp_all add: demo_sched_def SCH_MAX_TASKS_def)
  from SCH_Add_Task_isr_atomic [OF this, of 3 0 9 5] SCH_Add_Task_isr_atomic [OF this, of 2 3 9 5]
  show ?thesis by simp
qed

section \<open>The dispatcher interrupted by the timer\<close>

text \<open>
  Control points of the main loop: asleep; about to test slot \<open>i\<close>; about to call its task;
  inside the task; inside a call of the interface that the task makes, with the stores still to
  be done; about to load \<open>RunMe\<close> for the decrement; about to store the decremented value; about
  to test \<open>Period\<close>; about to delete the slot; inside that deletion, with the stores still to be
  done; stopped by a fault. The interrupt handler can run at every one of them.
\<close>

datatype 'st dpc =
    D_Sleep
  | D_Test nat
  | D_Call nat
  | D_Task nat
  | D_Api nat "'st list"
  | D_Dec nat
  | D_Store nat tByte
  | D_Period nat
  | D_Delete nat
  | D_Deleting nat "'st list"
  | D_Fault fault

type_synonym ('f, 'w) conf = "('f, 'w word) sched \<times> (('f, 'w word) sched \<Rightarrow> ('f, 'w word) sched) dpc"

text \<open>What \<open>SCH_Delete_Task\<close> does before its stores.\<close>

definition delete_report :: "('f, 'w::len word) sTask \<Rightarrow> ('f, 'w word) sched \<Rightarrow> ('f, 'w word) sched" where
  "delete_report t s =
     (if pTask t = None then s\<lparr>Error_code_G := ERROR_SCH_CANNOT_DELETE_TASK\<rparr> else s)"

inductive isr_step ::
  "'f option res \<Rightarrow> ('f, 'w::len) conf \<Rightarrow> ('f, 'w) conf \<Rightarrow> bool"
  for past where
  tick: "SCH_Update s = Inr s' \<Longrightarrow> isr_step past (s, pc) (s', pc)"
| tick_fault: "SCH_Update s = Inl e \<Longrightarrow> isr_step past (s, pc) (s, D_Fault e)"
| wake: "isr_step past (s, D_Sleep) (s, D_Test 0)"
| loop_end: "\<not> i < SCH_MAX_TASKS \<Longrightarrow> isr_step past (s, D_Test i) (SCH_Go_To_Sleep s, D_Sleep)"
| test_skip: "i < SCH_MAX_TASKS \<Longrightarrow> arr_get (SCH_tasks_G s) i = Inr t \<Longrightarrow> \<not> 0 < RunMe t \<Longrightarrow>
    isr_step past (s, D_Test i) (s, D_Test (Suc i))"
| test_take: "i < SCH_MAX_TASKS \<Longrightarrow> arr_get (SCH_tasks_G s) i = Inr t \<Longrightarrow> 0 < RunMe t \<Longrightarrow>
    isr_step past (s, D_Test i) (s, D_Call i)"
| test_fault: "i < SCH_MAX_TASKS \<Longrightarrow> arr_get (SCH_tasks_G s) i = Inl e \<Longrightarrow>
    isr_step past (s, D_Test i) (s, D_Fault e)"
| call: "arr_get (SCH_tasks_G s) i = Inr t \<Longrightarrow> pTask t = Some f \<Longrightarrow>
    isr_step past (s, D_Call i) (s, D_Task i)"
| call_null: "arr_get (SCH_tasks_G s) i = Inr t \<Longrightarrow> pTask t = None \<Longrightarrow>
    isr_step past (s, D_Call i) (s, D_Fault Null_Call)"
| call_fault: "arr_get (SCH_tasks_G s) i = Inl e \<Longrightarrow> isr_step past (s, D_Call i) (s, D_Fault e)"
| add: "SCH_find_gap past (SCH_tasks_G s) 0 = Inr j \<Longrightarrow> j \<noteq> SCH_MAX_TASKS \<Longrightarrow>
    isr_step past (s, D_Task i) (s, D_Api i (SCH_Add_Task_stores j (Some f) D P))"
| add_full: "SCH_find_gap past (SCH_tasks_G s) 0 = Inr SCH_MAX_TASKS \<Longrightarrow>
    isr_step past (s, D_Task i) (s\<lparr>Error_code_G := ERROR_SCH_TOO_MANY_TASKS\<rparr>, D_Task i)"
| add_fault: "SCH_find_gap past (SCH_tasks_G s) 0 = Inl e \<Longrightarrow>
    isr_step past (s, D_Task i) (s, D_Fault e)"
| del: "unat j < SCH_MAX_TASKS \<Longrightarrow> arr_get (SCH_tasks_G s) (unat (j :: tByte)) = Inr t \<Longrightarrow>
    isr_step past (s, D_Task i) (delete_report t s, D_Api i (SCH_Delete_Task_stores (unat j)))"
| del_fault: "unat j < SCH_MAX_TASKS \<Longrightarrow> arr_get (SCH_tasks_G s) (unat (j :: tByte)) = Inl e \<Longrightarrow>
    isr_step past (s, D_Task i) (s, D_Fault e)"
| api_store: "isr_step past (s, D_Api i (st # sts)) (st s, D_Api i sts)"
| api_return: "isr_step past (s, D_Api i []) (s, D_Task i)"
| return: "isr_step past (s, D_Task i) (s, D_Dec i)"
| dec_load: "arr_get (SCH_tasks_G s) i = Inr t \<Longrightarrow>
    isr_step past (s, D_Dec i) (s, D_Store i (RunMe t))"
| dec_store: "arr_get (SCH_tasks_G s) i = Inr t \<Longrightarrow>
    isr_step past (s, D_Store i v)
      (s\<lparr>SCH_tasks_G := (SCH_tasks_G s)[i := t\<lparr>RunMe := v - 1\<rparr>]\<rparr>, D_Period i)"
| dec_fault: "arr_get (SCH_tasks_G s) i = Inl e \<Longrightarrow> isr_step past (s, D_Dec i) (s, D_Fault e)"
| store_fault: "arr_get (SCH_tasks_G s) i = Inl e \<Longrightarrow> isr_step past (s, D_Store i v) (s, D_Fault e)"
| one_shot: "arr_get (SCH_tasks_G s) i = Inr t \<Longrightarrow> Period t = 0 \<Longrightarrow>
    isr_step past (s, D_Period i) (s, D_Delete i)"
| periodic: "arr_get (SCH_tasks_G s) i = Inr t \<Longrightarrow> Period t \<noteq> 0 \<Longrightarrow>
    isr_step past (s, D_Period i) (s, D_Test (Suc i))"
| period_fault: "arr_get (SCH_tasks_G s) i = Inl e \<Longrightarrow>
    isr_step past (s, D_Period i) (s, D_Fault e)"
| delete: "arr_get (SCH_tasks_G s) i = Inr t \<Longrightarrow>
    isr_step past (s, D_Delete i) (delete_report t s, D_Deleting i (SCH_Delete_Task_stores i))"
| delete_fault: "arr_get (SCH_tasks_G s) i = Inl e \<Longrightarrow>
    isr_step past (s, D_Delete i) (s, D_Fault e)"
| delete_store: "isr_step past (s, D_Deleting i (st # sts)) (st s, D_Deleting i sts)"
| delete_return: "isr_step past (s, D_Deleting i []) (s, D_Test (Suc i))"

text \<open>Without an interrupt, the split calls are the functions of the interface.\<close>

lemma delete_report_stores:
  assumes "SCH_Delete_Task i s = Inr (rc, s')" and "arr_get (SCH_tasks_G s) (unat i) = Inr t"
  shows "s' = fold (\<lambda>f. f) (SCH_Delete_Task_stores (unat i)) (delete_report t s)"
  using assms by (auto simp: SCH_Delete_Task_def delete_report_def split: if_splits)

lemma add_stores:
  assumes "SCH_find_gap past (SCH_tasks_G s) 0 = Inr j" and "j \<noteq> SCH_MAX_TASKS"
  shows "SCH_Add_Task past pf D P s = Inr (of_nat j, fold (\<lambda>f. f) (SCH_Add_Task_stores j pf D P) s)"
  using assms by (simp add: SCH_Add_Task_def)

text \<open>
  Executions of the program: \<open>SCH_Init_T2\<close> on a table of any contents, then any calls of the
  interface by the main program, the last of which may fault, then the main loop. \<open>past\<close> is what the read past the end
  of a full table does, as for \<open>SCH_find_gap\<close>.
\<close>

inductive isr_reachable :: "'f option res \<Rightarrow> ('f, 'w::len) conf \<Rightarrow> bool" for past where
  start: "length (SCH_tasks_G s0) = SCH_MAX_TASKS \<Longrightarrow> SCH_Init_T2 s0 = Inr s1 \<Longrightarrow>
    list_all api_ok xs \<Longrightarrow> run_ops (api_step past) xs s1 = Inr s \<Longrightarrow>
    isr_reachable past (SCH_Start s, D_Sleep)"
| start_fault: "length (SCH_tasks_G s0) = SCH_MAX_TASKS \<Longrightarrow> SCH_Init_T2 s0 = Inr s1 \<Longrightarrow>
    list_all api_ok (xs @ [x]) \<Longrightarrow> run_ops (api_step past) xs s1 = Inr s \<Longrightarrow> api_step past x s = Inl e \<Longrightarrow>
    isr_reachable past (s, D_Fault e)"
| step: "isr_reachable past c \<Longrightarrow> isr_step past c c' \<Longrightarrow> isr_reachable past c'"

section \<open>The invariant\<close>

text \<open>
  Between the decrement and the deletion the current slot may carry a wrapped counter although
  it is empty (its task has deleted itself), and inside a call of the interface one slot is
  partly written; every other slot is well formed.
\<close>

definition slot_weak :: "('f, 'w::len word) sTask \<Rightarrow> bool" where
  "slot_weak t \<longleftrightarrow> (pTask t = None \<longrightarrow> Delay t = 0 \<and> Period t = 0)"

definition hole_wf :: "nat \<Rightarrow> ('f, 'w::len word) sched \<Rightarrow> bool" where
  "hole_wf i s \<longleftrightarrow> i < SCH_MAX_TASKS \<and> sched_wf (s\<lparr>SCH_tasks_G := (SCH_tasks_G s)[i := empty_slot]\<rparr>)"

text \<open>A slot after the first \<open>k\<close> stores of an addition (of a task function) or a deletion.\<close>

definition written :: "nat \<Rightarrow> 'f option \<Rightarrow> ('f, 'w::len word) sTask \<Rightarrow> bool" where
  "written k pf t \<longleftrightarrow>
     (if pf = None
      then (1 \<le> k \<longrightarrow> pTask t = None) \<and> (2 \<le> k \<longrightarrow> Delay t = 0) \<and> (3 \<le> k \<longrightarrow> Period t = 0) \<and>
           (4 \<le> k \<longrightarrow> RunMe t = 0)
      else 1 \<le> k \<longrightarrow> pTask t \<noteq> None)"

definition pending :: "nat \<Rightarrow> (('f, 'w::len word) sched \<Rightarrow> ('f, 'w word) sched) list \<Rightarrow> ('f, 'w word) sched \<Rightarrow> bool" where
  "pending j sts s \<longleftrightarrow> hole_wf j s \<and> (\<exists>k pf D P. k \<le> 4 \<and> (pf = None \<longrightarrow> D = 0 \<and> P = 0) \<and>
     sts = drop k (SCH_Add_Task_stores j pf D P) \<and> written k pf (SCH_tasks_G s ! j))"

fun isr_inv :: "'f option res \<Rightarrow> ('f, 'w::len) conf \<Rightarrow> bool" where
  "isr_inv past (s, D_Sleep) = sched_wf s"
| "isr_inv past (s, D_Test i) = sched_wf s"
| "isr_inv past (s, D_Call i) = (sched_wf s \<and> i < SCH_MAX_TASKS \<and> pTask (SCH_tasks_G s ! i) \<noteq> None)"
| "isr_inv past (s, D_Task i) = (sched_wf s \<and> i < SCH_MAX_TASKS)"
| "isr_inv past (s, D_Api i sts) = (i < SCH_MAX_TASKS \<and> (\<exists>j. pending j sts s))"
| "isr_inv past (s, D_Dec i) = (sched_wf s \<and> i < SCH_MAX_TASKS)"
| "isr_inv past (s, D_Store i v) = (sched_wf s \<and> i < SCH_MAX_TASKS)"
| "isr_inv past (s, D_Period i) = (hole_wf i s \<and> slot_weak (SCH_tasks_G s ! i))"
| "isr_inv past (s, D_Delete i) = hole_wf i s"
| "isr_inv past (s, D_Deleting i sts) = pending i sts s"
| "isr_inv past (s, D_Fault e) = (sched_wf s \<and> past = Inl e \<and> table_full s)"

lemma tick_empty_slot [simp]: "tick_slot empty_slot = empty_slot"
  by (simp add: tick_slot_def)

lemma slot_weak_tick: "slot_weak t \<Longrightarrow> slot_weak (tick_slot t)"
  by (simp add: slot_weak_def tick_slot_def)

lemma slot_weak_wf: "slot_wf t \<Longrightarrow> slot_weak (t\<lparr>RunMe := r\<rparr>)"
  by (auto simp: slot_weak_def slot_wf_def)

lemma written_tick: "written k pf t \<Longrightarrow> written k pf (tick_slot t)"
  by (auto simp: written_def tick_slot_def split: if_splits)

lemma written_all: "written 4 pf t \<Longrightarrow> slot_wf t"
  by (cases t) (auto simp: written_def slot_wf_def empty_slot_def split: if_splits)

lemma hole_wf_length: "hole_wf i s \<Longrightarrow> length (SCH_tasks_G s) = SCH_MAX_TASKS"
  by (simp add: hole_wf_def sched_wf_def)

lemma hole_wf_index: "hole_wf i s \<Longrightarrow> i < SCH_MAX_TASKS"
  by (simp add: hole_wf_def)

lemma hole_wf_sched: "sched_wf s \<Longrightarrow> i < SCH_MAX_TASKS \<Longrightarrow> hole_wf i s"
  by (simp add: hole_wf_def sched_wf_update)

lemma hole_wf_error [simp]: "hole_wf i (delete_report t s) = hole_wf i s"
  by (simp add: hole_wf_def delete_report_def sched_wf_def)

lemma hole_wf_write [simp]:
  "hole_wf i (s\<lparr>SCH_tasks_G := (SCH_tasks_G s)[i := t]\<rparr>) = hole_wf i s"
  by (simp add: hole_wf_def)

lemma hole_wf_tick: "hole_wf i s \<Longrightarrow> hole_wf i (s\<lparr>SCH_tasks_G := map tick_slot (SCH_tasks_G s)\<rparr>)"
proof -
  let ?s = "s\<lparr>SCH_tasks_G := (SCH_tasks_G s)[i := empty_slot]\<rparr>"
  assume hole: "hole_wf i s"
  then have "sched_wf (?s\<lparr>SCH_tasks_G := map tick_slot (SCH_tasks_G ?s)\<rparr>)"
    unfolding hole_wf_def using slot_wf_tick sched_wf_map by blast
  with hole show ?thesis by (simp add: hole_wf_def map_update)
qed

lemma hole_wf_refill: "hole_wf i s \<Longrightarrow> slot_wf (SCH_tasks_G s ! i) \<Longrightarrow> sched_wf s"
  using sched_wf_update [of "s\<lparr>SCH_tasks_G := (SCH_tasks_G s)[i := empty_slot]\<rparr>" "SCH_tasks_G s ! i" i]
  by (simp add: hole_wf_def)

lemma isr_inv_length: "isr_inv past (s, pc) \<Longrightarrow> length (SCH_tasks_G s) = SCH_MAX_TASKS"
  by (cases pc) (auto simp: sched_wf_def pending_def hole_wf_length)

subsection \<open>Stores\<close>

lemma SCH_Delete_Task_stores_add: "SCH_Delete_Task_stores i = SCH_Add_Task_stores i None 0 0"
  by (simp add: SCH_Delete_Task_stores_def SCH_Add_Task_stores_def)

lemma pending_start:
  assumes "sched_wf s" and "j < SCH_MAX_TASKS"
  shows "pending j (SCH_Add_Task_stores j (Some f) D P) s"
    and "pending j (SCH_Delete_Task_stores j) (delete_report t s)"
  using assms unfolding pending_def SCH_Delete_Task_stores_add
  by (fastforce simp: hole_wf_sched written_def intro: exI [of _ 0])+

lemma pending_deleting: "hole_wf j s \<Longrightarrow> pending j (SCH_Delete_Task_stores j) (delete_report t s)"
  unfolding pending_def SCH_Delete_Task_stores_add
  by (fastforce simp: written_def intro: exI [of _ 0])

lemma pending_tick:
  "pending j sts s \<Longrightarrow> pending j sts (s\<lparr>SCH_tasks_G := map tick_slot (SCH_tasks_G s)\<rparr>)"
proof -
  assume p: "pending j sts s"
  then have "SCH_tasks_G (s\<lparr>SCH_tasks_G := map tick_slot (SCH_tasks_G s)\<rparr>) ! j = tick_slot (SCH_tasks_G s ! j)"
    using hole_wf_index hole_wf_length by (fastforce simp: pending_def)
  with p show ?thesis unfolding pending_def using hole_wf_tick written_tick by metis
qed

lemma pending_done:
  fixes s :: "('f, 'w::len word) sched"
  assumes p: "pending j [] s"
  shows "sched_wf s"
proof -
  from p obtain k pf D and P :: "'w word" where k: "k \<le> 4"
    "([] :: (('f, 'w word) sched \<Rightarrow> ('f, 'w word) sched) list) = drop k (SCH_Add_Task_stores j pf D P)"
    "written k pf (SCH_tasks_G s ! j)" "hole_wf j s"
    unfolding pending_def by blast
  then have "length (SCH_Add_Task_stores j pf D P) \<le> k" by simp
  with k(1) have "k = 4" by (simp add: SCH_Add_Task_stores_def)
  with k(3,4) show ?thesis using written_all hole_wf_refill by blast
qed

text \<open>One store of an addition or a deletion.\<close>

lemma written_store:
  assumes "k < 4" and "pf = None \<longrightarrow> D = 0 \<and> P = 0" and "written k pf (SCH_tasks_G s ! j)"
    and "j < length (SCH_tasks_G s)"
  shows "written (Suc k) pf (SCH_tasks_G ((SCH_Add_Task_stores j pf D P ! k) s) ! j)"
proof -
  have "k = 0 \<or> k = 1 \<or> k = 2 \<or> k = 3" using assms(1) by linarith
  with assms show ?thesis
    by (elim disjE) (auto simp: SCH_Add_Task_stores_def written_def numeral_eq_Suc split: if_splits)
qed

lemma hole_wf_store:
  "k < 4 \<Longrightarrow> hole_wf j ((SCH_Add_Task_stores j pf D P ! k) s) = hole_wf j s"
  by (auto simp: SCH_Add_Task_stores_def less_Suc_eq numeral_eq_Suc)

lemma pending_store: "pending j (st # sts) s \<Longrightarrow> pending j sts (st s)"
proof -
  assume p: "pending j (st # sts) s"
  then obtain k pf D P where k: "k \<le> 4" "pf = None \<longrightarrow> D = 0 \<and> P = 0"
    "st # sts = drop k (SCH_Add_Task_stores j pf D P)" "written k pf (SCH_tasks_G s ! j)" "hole_wf j s"
    unfolding pending_def by blast
  have len: "length (SCH_Add_Task_stores j pf D P) = 4" by (simp add: SCH_Add_Task_stores_def)
  then have "k < 4" using k(3) by (metis drop_all leI list.distinct(1))
  then have "st = SCH_Add_Task_stores j pf D P ! k" "sts = drop (Suc k) (SCH_Add_Task_stores j pf D P)"
    using k(3) len by (metis Cons_nth_drop_Suc list.inject)+
  then show ?thesis
    using k \<open>k < 4\<close> written_store [OF \<open>k < 4\<close> k(2,4)] hole_wf_store [of k j pf D P s] hole_wf_length [OF k(5)]
    unfolding pending_def hole_wf_def by (metis Suc_leI)
qed

subsection \<open>Preservation\<close>

lemma isr_inv_tick:
  assumes "isr_inv past (s, pc)"
  shows "isr_inv past (s\<lparr>SCH_tasks_G := map tick_slot (SCH_tasks_G s)\<rparr>, pc)"
  using assms isr_inv_length [OF assms]
  by (cases pc)
    (auto simp: tick_keeps_task table_full_def slot_weak_tick hole_wf_tick hole_wf_index intro: pending_tick
      intro!: wf_intros)

lemma isr_inv_dec:
  assumes "sched_wf s" and "i < SCH_MAX_TASKS"
  shows "isr_inv past (s\<lparr>SCH_tasks_G := (SCH_tasks_G s)[i := (SCH_tasks_G s ! i)\<lparr>RunMe := r\<rparr>]\<rparr>, D_Period i)"
  using assms sched_wf_nth [OF assms] by (simp add: hole_wf_sched sched_wfD slot_weak_wf)

lemma isr_inv_add:
  assumes "sched_wf s" and "SCH_find_gap past (SCH_tasks_G s) 0 = Inr j" and "j \<noteq> SCH_MAX_TASKS"
  shows "j < SCH_MAX_TASKS"
  using assms by (cases past) (auto simp: SCH_find_gap_spec sched_wfD split: if_splits)

lemma isr_inv_step:
  assumes "isr_step past c c'" and "isr_inv past c"
  shows "isr_inv past c'"
  using assms
proof (cases rule: isr_step.cases)
  case (tick s s' pc)
  with assms(2) isr_inv_length [of past s pc] show ?thesis
    by (auto simp: SCH_Update_spec isr_inv_tick)
next
  case (tick_fault s e pc)
  with assms(2) isr_inv_length [of past s pc] show ?thesis by (auto simp: SCH_Update_spec)
next
  case (test_take i s t)
  with assms(2) show ?thesis
    using sched_wf_nth [of s i] slot_wf_runnable [of t] by (auto simp: sched_wfD)
next
  case (add s j i f D P)
  with assms(2) show ?thesis using isr_inv_add [of s past j] pending_start(1) [of s j f D P] by auto
next
  case (add_fault s e i)
  with assms(2) show ?thesis using first_gap_le [of "SCH_tasks_G s"]
    by (cases past) (auto simp: SCH_find_gap_spec sched_wfD table_full_gap split: if_splits)
next
  case (del j s t i)
  with assms(2) show ?thesis using pending_start(2) [of s "unat j" t] by auto
next
  case (dec_store s i t v)
  with assms(2) show ?thesis using isr_inv_dec [of s i past "v - 1"] by (auto simp: sched_wfD)
next
  case (periodic s i t)
  with assms(2) isr_inv_length [of past s "D_Period i"] show ?thesis
    by (auto simp: slot_weak_def slot_wf_def hole_wf_def intro!: hole_wf_refill [of i s])
next
  case (delete s i t)
  with assms(2) show ?thesis by (simp add: pending_deleting)
next
  case (delete_fault s i e)
  with assms(2) isr_inv_length [of past s "D_Delete i"] show ?thesis by (auto simp: hole_wf_def)
next
  case (period_fault s i e)
  with assms(2) isr_inv_length [of past s "D_Period i"] show ?thesis by (auto simp: hole_wf_def)
qed (auto simp: sched_wfD SCH_Go_To_Sleep_def dest: pending_store pending_done)

lemma isr_reachable_inv: "isr_reachable past c \<Longrightarrow> isr_inv past c"
proof (induction rule: isr_reachable.induct)
  case (start s0 s1 xs s)
  then have "sched_wf s1" by (auto simp: SCH_Init_T2_spec sched_wf_def list_all_iff)
  with start show ?case using api_run_wf [of past xs s1 s] by (simp add: SCH_Start_def)
next
  case (start_fault s0 s1 xs x s e)
  then have "sched_wf s1" by (auto simp: SCH_Init_T2_spec sched_wf_def list_all_iff)
  with start_fault have "sched_wf s" using api_run_wf [of past xs s1 s] by simp
  with start_fault show ?case using api_step_faults [of s x past e] by simp
next
  case (step c c')
  then show ?case by (blast intro: isr_inv_step)
qed

section \<open>Properties\<close>


definition demo_init :: "(nat, 16 word) sched" where
  "demo_init = \<lparr>SCH_tasks_G = replicate SCH_MAX_TASKS empty_slot, Error_code_G = 0\<rparr>"

definition demo_slot0 :: "16 word \<Rightarrow> tByte \<Rightarrow> (nat, 16 word) sched" where
  "demo_slot0 D r = demo_init\<lparr>SCH_tasks_G := (SCH_tasks_G demo_init)[0 :=
     \<lparr>pTask = Some 5, Delay = D, Period = 1, RunMe = r\<rparr>]\<rparr>"

lemma demo_tick: "SCH_Update (demo_slot0 0 r) = Inr (demo_slot0 1 (r + 1))"
  "SCH_Update (demo_slot0 1 r) = Inr (demo_slot0 0 r)"
  by (simp_all add: SCH_Update_spec demo_slot0_def demo_init_def map_update tick_slot_def)

lemma demo_reaches_call: "isr_reachable (Inl Out_Of_Bounds) (demo_slot0 1 1, D_Call 0)"
proof -
  have len: "length (SCH_tasks_G demo_init) = SCH_MAX_TASKS" by (simp add: demo_init_def)
  have "first_gap (SCH_tasks_G demo_init) = 0"
    by (simp add: demo_init_def first_gap_def SCH_MAX_TASKS_def)
  with len have add: "run_ops (api_step (Inl Out_Of_Bounds)) [Api_Add 5 0 1] demo_init = Inr (demo_slot0 0 0)"
    by (simp add: SCH_Add_Task_free demo_slot0_def SCH_MAX_TASKS_def)
  have init: "SCH_Init_T2 demo_init = Inr demo_init"
    using len by (simp add: SCH_Init_T2_spec demo_init_def)
  have "isr_reachable (Inl Out_Of_Bounds) (SCH_Start (demo_slot0 0 0), D_Sleep)"
    by (rule isr_reachable.start [OF len init _ add]) simp
  then have "isr_reachable (Inl Out_Of_Bounds) (demo_slot0 1 1, D_Test 0)"
    using isr_step.tick [OF demo_tick(1) [of 0]] isr_step.wake isr_reachable.step
    by (metis SCH_Start_def add_0)
  then show ?thesis
    by (rule isr_reachable.step)
      (rule isr_step.test_take, auto simp: demo_slot0_def demo_init_def SCH_MAX_TASKS_def)
qed


text \<open>
  The decrement of \<open>RunMe\<close> after a task has run is not protected against the interrupt: when the
  task is due at a tick that falls between the load and the store of the decrement, that release
  is lost. The two orders of the same three actions end in states that differ in exactly one
  release of the slot.
\<close>

theorem isr_decrement_race:
  fixes s :: "('f, 'w::len word) sched"
  assumes "isr_reachable past (s, D_Dec i)" and "pTask (SCH_tasks_G s ! i) = Some f"
    and "Delay (SCH_tasks_G s ! i) = 0"
  shows "\<exists>(s1 :: ('f, 'w word) sched) s2. isr_reachable past (s1, D_Period i) \<and> isr_reachable past (s2, D_Period i) \<and>
    RunMe (SCH_tasks_G s1 ! i) = RunMe (SCH_tasks_G s ! i) - 1 \<and>
    RunMe (SCH_tasks_G s2 ! i) = RunMe (SCH_tasks_G s ! i) \<and>
    s2 = s1\<lparr>SCH_tasks_G := (SCH_tasks_G s1)[i :=
      (SCH_tasks_G s1 ! i)\<lparr>RunMe := RunMe (SCH_tasks_G s1 ! i) + 1\<rparr>]\<rparr>"
proof -
  let ?t = "SCH_tasks_G s ! i"
  let ?tick = "\<lambda>s. s\<lparr>SCH_tasks_G := map tick_slot (SCH_tasks_G s)\<rparr>"
  let ?dec = "\<lambda>s. s\<lparr>SCH_tasks_G := (SCH_tasks_G s)[i := (SCH_tasks_G s ! i)\<lparr>RunMe := RunMe ?t - 1\<rparr>]\<rparr>"
  have len: "i < length (SCH_tasks_G s)" "length (SCH_tasks_G s) = SCH_MAX_TASKS"
    using isr_reachable_inv [OF assms(1)] by (simp_all add: sched_wfD)
  have load: "isr_reachable past (s, D_Store i (RunMe ?t))"
    using isr_reachable.step [OF assms(1) isr_step.dec_load] len by simp
  have "isr_reachable past (?tick s, D_Store i (RunMe ?t))"
    using isr_reachable.step [OF load isr_step.tick] len by (simp add: SCH_Update_spec)
  from isr_reachable.step [OF this isr_step.dec_store]
  have s1: "isr_reachable past (?dec (?tick s), D_Period i)" using len by simp
  have "isr_reachable past (?dec s, D_Period i)"
    using isr_reachable.step [OF load isr_step.dec_store] len by simp
  from isr_reachable.step [OF this isr_step.tick]
  have s2: "isr_reachable past (?tick (?dec s), D_Period i)" using len by (simp add: SCH_Update_spec)
  have "RunMe (SCH_tasks_G (?dec (?tick s)) ! i) = RunMe ?t - 1"
    "RunMe (SCH_tasks_G (?tick (?dec s)) ! i) = RunMe ?t"
    using len assms(2,3) by (simp_all add: tick_slot_def)
  moreover have "?tick (?dec s) = (?dec (?tick s))\<lparr>SCH_tasks_G := (SCH_tasks_G (?dec (?tick s)))[i :=
      (SCH_tasks_G (?dec (?tick s)) ! i)\<lparr>RunMe := RunMe (SCH_tasks_G (?dec (?tick s)) ! i) + 1\<rparr>]\<rparr>"
    using len assms(2,3) by (simp add: tick_slot_def map_update)
  ultimately show ?thesis using s1 s2 by blast
qed

theorem isr_decrement_race_witness:
  "\<exists>(s1 :: (nat, 16 word) sched) (s2 :: (nat, 16 word) sched). isr_reachable (Inl Out_Of_Bounds) (s1, D_Period 0) \<and>
    isr_reachable (Inl Out_Of_Bounds) (s2, D_Period 0) \<and>
    RunMe (SCH_tasks_G s1 ! 0) = 0 \<and> RunMe (SCH_tasks_G s2 ! 0) = 1"
proof -
  have sel: "pTask (SCH_tasks_G (demo_slot0 0 1) ! 0) = Some 5" "Delay (SCH_tasks_G (demo_slot0 0 1) ! 0) = 0"
    "RunMe (SCH_tasks_G (demo_slot0 0 1) ! 0) = 1"
    by (simp_all add: demo_slot0_def demo_init_def SCH_MAX_TASKS_def)
  have "isr_reachable (Inl Out_Of_Bounds) (demo_slot0 1 1, D_Task 0)"
    by (rule isr_reachable.step [OF demo_reaches_call])
      (rule isr_step.call, auto simp: demo_slot0_def demo_init_def SCH_MAX_TASKS_def)
  from isr_reachable.step [OF isr_reachable.step [OF this isr_step.tick [OF demo_tick(2)]] isr_step.return]
  have "isr_reachable (Inl Out_Of_Bounds) (demo_slot0 0 1, D_Dec 0)" .
  from isr_decrement_race [OF this sel(1,2)] show ?thesis unfolding sel(3) by (metis diff_self)
qed

end
