(* ===== verification/Posix.thy ===== *)
theory Posix
  imports Complex_Main Prelude
begin

text \<open>
  What the programs under \<^verbatim>\<open>rtos_rte_cp\<close> use of POSIX: time values, error numbers, scheduling
  policies, unnamed semaphores and the arming of a timer. The results of system calls are not
  defined here: they are arguments of the models, and what a theorem needs of them is one of
  its hypotheses.

  C's \<open>double\<close> is modelled by exact rationals. The programs use it for time stamps in log
  lines, for the sign of a remaining time and for one drift correction; no theorem here is
  about rounding.
\<close>

record timespec =
  tv_sec :: int
  tv_nsec :: int

record itimerspec =
  it_interval :: timespec
  it_value :: timespec

definition NANOSEC_PER_SEC :: int where
  "NANOSEC_PER_SEC = 1000000000"

definition NSEC_PER_MSEC :: int where
  "NSEC_PER_MSEC = 1000000"

definition ts_valid :: "timespec \<Rightarrow> bool" where
  "ts_valid t \<longleftrightarrow> 0 \<le> tv_nsec t \<and> tv_nsec t < NANOSEC_PER_SEC"

text \<open>The time a value stands for, in nanoseconds.\<close>

definition ts_ns :: "timespec \<Rightarrow> int" where
  "ts_ns t = tv_sec t * NANOSEC_PER_SEC + tv_nsec t"

text \<open>The time a value stands for, in seconds, as the programs compute it in \<open>double\<close>.\<close>

definition ts_double :: "timespec \<Rightarrow> rat" where
  "ts_double t = of_int (tv_sec t) + of_int (tv_nsec t) / of_int NANOSEC_PER_SEC"

text \<open>C's conversion of a \<open>double\<close> to an integer type drops the fraction.\<close>

definition trunc :: "rat \<Rightarrow> int" where
  "trunc x = (if 0 \<le> x then \<lfloor>x\<rfloor> else \<lceil>x\<rceil>)"

definition EINTR :: int where
  "EINTR = 4"

definition EAGAIN :: int where
  "EAGAIN = 11"

definition EINVAL :: int where
  "EINVAL = 22"

datatype policy = SCHED_OTHER | SCHED_FIFO | SCHED_RR | SCHED_UNKNOWN

text \<open>
  The value of a semaphore. \<open>sem_post\<close> fails with \<open>EOVERFLOW\<close> and leaves the value alone when
  it is at its maximum; the programs ignore its result.
\<close>

definition SEM_VALUE_MAX :: nat where
  "SEM_VALUE_MAX = 2147483647"

definition sem_post :: "nat \<Rightarrow> nat" where
  "sem_post v = (if v < SEM_VALUE_MAX then Suc v else v)"

text \<open>\<open>sem_wait\<close> blocks (here: has no result) while the value is zero.\<close>

definition sem_wait :: "nat \<Rightarrow> nat option" where
  "sem_wait v = (if 0 < v then Some (v - 1) else None)"

lemma sem_post_pos [simp]: "0 < sem_post v"
  by (simp add: sem_post_def SEM_VALUE_MAX_def)

lemma sem_post_below [simp]: "v < SEM_VALUE_MAX \<Longrightarrow> sem_post v = Suc v"
  by (simp add: sem_post_def)

lemma sem_post_le: "sem_post v \<le> Suc v"
  by (simp add: sem_post_def)

lemma sem_wait_Some_iff: "sem_wait v = Some u \<longleftrightarrow> v = Suc u"
  by (cases v) (auto simp: sem_wait_def split: if_splits)

text \<open>
  The contract of a counting semaphore, as its users rely on it: a post makes a wait
  possible, a wait takes back what one post has given, and a wait is possible exactly when the
  value is positive.
\<close>

locale counting_semaphore =
  fixes post :: "'s \<Rightarrow> 's"
    and wait :: "'s \<Rightarrow> 's option"
    and val :: "'s \<Rightarrow> nat"
    and room :: "'s \<Rightarrow> bool"
  assumes post_val: "room s \<Longrightarrow> val (post s) = Suc (val s)"
    and post_pos: "0 < val (post s)"
    and wait_blocks: "wait s = None \<longleftrightarrow> val s = 0"
    and wait_val: "wait s = Some s' \<Longrightarrow> Suc (val s') = val s"
begin

lemma post_then_wait: "\<exists>s'. wait (post s) = Some s'"
  using post_pos [of s] wait_blocks [of "post s"] by auto

lemma post_wait_val: "room s \<Longrightarrow> wait (post s) = Some s' \<Longrightarrow> val s' = val s"
  using post_val wait_val by fastforce

end

interpretation sem: counting_semaphore sem_post sem_wait "\<lambda>v. v" "\<lambda>v. v < SEM_VALUE_MAX"
  by unfold_locales (auto simp: sem_wait_Some_iff, auto simp: sem_wait_def split: if_splits)

lemma ts_ns_double: "ts_double t = of_int (ts_ns t) / of_int NANOSEC_PER_SEC"
  by (simp add: ts_double_def ts_ns_def NANOSEC_PER_SEC_def field_simps)

lemma ts_double_pos: "0 < ts_double t \<longleftrightarrow> 0 < ts_ns t"
  by (simp add: ts_ns_double NANOSEC_PER_SEC_def zero_less_divide_iff)

lemma ts_ns_inj: "ts_valid a \<Longrightarrow> ts_valid b \<Longrightarrow> ts_ns a = ts_ns b \<Longrightarrow> a = b"
proof -
  assume v: "ts_valid a" "ts_valid b" and e: "ts_ns a = ts_ns b"
  have "tv_sec t = ts_ns t div NANOSEC_PER_SEC" "tv_nsec t = ts_ns t mod NANOSEC_PER_SEC"
    if "ts_valid t" for t :: timespec
    using that by (simp_all add: ts_ns_def ts_valid_def NANOSEC_PER_SEC_def)
  with v e show "a = b" by simp
qed

lemma trunc_of_int [simp]: "trunc (of_int n) = n"
  by (simp add: trunc_def)

end
