(* ===== verification/Seq_Programs.thy ===== *)
theory Seq_Programs
  imports Posix
begin

text \<open>
  The sequencer programs of \<^verbatim>\<open>rtos_rte_cp/sequencer_generic\<close>: \<^verbatim>\<open>seqgen.c\<close> (30 Hz, sleeping
  with \<open>nanosleep\<close>), \<^verbatim>\<open>seqgen2.c\<close> (100 Hz, \<open>clock_nanosleep\<close>), \<^verbatim>\<open>seqgen3.c\<close> (a timer signal
  handler) and \<^verbatim>\<open>seqgenex0.c\<close> (absolute delays with drift control). Each has a sequencer,
  which posts the semaphores of the service threads at sub-rates of its own rate, and the
  services, which loop over their semaphore until their abort flag is set.

  A sequencer is modelled by the list of the actions it performs, in program order, given what
  the system calls return; the interleaving of these actions with the services is in the
  theory \<open>Seq_System\<close>. Semaphore \<open>semS\<^sub>k\<close> and flag \<open>abortS\<^sub>k\<close> have the index \<open>k - 1\<close>. The text
  of the services' log lines is kept, their time stamps are not; the log lines of the sequencers
  themselves, which report clock readings, are not actions.
\<close>

section \<open>Actions and services\<close>

type_synonym u64 = "64 word"

text \<open>A sequencer sleeps (with the requested time), posts a semaphore, sets an abort flag, or
  reprograms its timer.\<close>

datatype seq_act = Sleep timespec | Post nat | Abort nat | Settime itimerspec

definition post_if :: "bool \<Rightarrow> nat \<Rightarrow> seq_act list" where
  "post_if b i = (if b then [Post i] else [])"

text \<open>
  The service functions differ in the semaphore they wait for, the flag they test and the
  lines they log at start-up and at every release.
\<close>

record service =
  sv_sem :: nat
  sv_abort :: nat
  sv_start :: "string list"
  sv_release :: string

definition seqgen_Service_1 :: service where
  "seqgen_Service_1 =
     \<lparr>sv_sem = 0, sv_abort = 0, sv_start = [''Frame Sampler thread'', ''Frame Sampler thread''],
      sv_release = ''Frame Sampler release''\<rparr>"

definition seqgen_Service_2 :: service where
  "seqgen_Service_2 =
     \<lparr>sv_sem = 1, sv_abort = 1, sv_start = [''Time-stamp with Image Analysis thread'', ''Time-stamp with Image Analysis thread''],
      sv_release = ''Time-stamp with Image Analysis release''\<rparr>"

definition seqgen_Service_3 :: service where
  "seqgen_Service_3 =
     \<lparr>sv_sem = 2, sv_abort = 2, sv_start = [''Difference Image Proc thread'', ''Difference Image Proc thread''],
      sv_release = ''Difference Image Proc release''\<rparr>"

definition seqgen_Service_4 :: service where
  "seqgen_Service_4 =
     \<lparr>sv_sem = 3, sv_abort = 3, sv_start = [''Time-stamp Image Save to File thread'', ''Time-stamp Image Save to File thread''],
      sv_release = ''Time-stamp Image Save to File release''\<rparr>"

definition seqgen_Service_5 :: service where
  "seqgen_Service_5 =
     \<lparr>sv_sem = 4, sv_abort = 4, sv_start = [''Processed Image Save to File thread'', ''Processed Image Save to File thread''],
      sv_release = ''Processed Image Save to File release''\<rparr>"

definition seqgen_Service_6 :: service where
  "seqgen_Service_6 =
     \<lparr>sv_sem = 5, sv_abort = 5, sv_start = [''Send Time-stamped Image to Remote thread'', ''Send Time-stamped Image to Remote thread''],
      sv_release = ''Send Time-stamped Image to Remote release''\<rparr>"

definition seqgen_Service_7 :: service where
  "seqgen_Service_7 =
     \<lparr>sv_sem = 6, sv_abort = 6, sv_start = [''10 sec Tick Debug thread'', ''10 sec Tick Debug thread''],
      sv_release = ''10 Sec Tick Debug release''\<rparr>"

definition seqgen2_Service_1 :: service where
  "seqgen2_Service_1 =
     \<lparr>sv_sem = 0, sv_abort = 0, sv_start = [''S1 thread''],
      sv_release = ''S1 50 Hz on core for release''\<rparr>"

definition seqgen2_Service_2 :: service where
  "seqgen2_Service_2 =
     \<lparr>sv_sem = 1, sv_abort = 1, sv_start = [''S2 thread''],
      sv_release = ''S2 20 Hz on core for release''\<rparr>"

definition seqgen2_Service_3 :: service where
  "seqgen2_Service_3 =
     \<lparr>sv_sem = 2, sv_abort = 2, sv_start = [''S3 thread''],
      sv_release = ''S3 10 Hz on core forrelease''\<rparr>"

definition seqgen2_Service_4 :: service where
  "seqgen2_Service_4 =
     \<lparr>sv_sem = 3, sv_abort = 3, sv_start = [''S4 thread''],
      sv_release = ''S4 5 Hz on core for release''\<rparr>"

definition seqgen2_Service_5 :: service where
  "seqgen2_Service_5 =
     \<lparr>sv_sem = 4, sv_abort = 4, sv_start = [''S5 thread''],
      sv_release = ''S5 2 Hz on core for release''\<rparr>"

definition seqgen2_Service_6 :: service where
  "seqgen2_Service_6 =
     \<lparr>sv_sem = 5, sv_abort = 5, sv_start = [''S6 thread''],
      sv_release = ''S6 1 Hz on core for release''\<rparr>"

definition seqgen2_Service_7 :: service where
  "seqgen2_Service_7 =
     \<lparr>sv_sem = 6, sv_abort = 6, sv_start = [''S7 thread''],
      sv_release = ''S7 1 Hz on core for release''\<rparr>"

definition seqgen3_Service_1 :: service where
  "seqgen3_Service_1 =
     \<lparr>sv_sem = 0, sv_abort = 0, sv_start = [''S1 thread'', ''S1 thread''],
      sv_release = ''S1 50 Hz on core for release''\<rparr>"

definition seqgen3_Service_2 :: service where
  "seqgen3_Service_2 =
     \<lparr>sv_sem = 1, sv_abort = 1, sv_start = [''S2 thread'', ''S2 thread''],
      sv_release = ''S2 20 Hz on core for release''\<rparr>"

definition seqgen3_Service_3 :: service where
  "seqgen3_Service_3 =
     \<lparr>sv_sem = 2, sv_abort = 2, sv_start = [''S3 thread'', ''S3 thread''],
      sv_release = ''S3 10 Hz on core forrelease''\<rparr>"

definition seqgen3_Service_4 :: service where
  "seqgen3_Service_4 =
     \<lparr>sv_sem = 3, sv_abort = 3, sv_start = [''S4 thread'', ''S4 thread''],
      sv_release = ''S4 5 Hz on core for release''\<rparr>"

definition seqgen3_Service_5 :: service where
  "seqgen3_Service_5 =
     \<lparr>sv_sem = 4, sv_abort = 4, sv_start = [''S5 thread'', ''S5 thread''],
      sv_release = ''S5 2 Hz on core for release''\<rparr>"

definition seqgen3_Service_6 :: service where
  "seqgen3_Service_6 =
     \<lparr>sv_sem = 5, sv_abort = 5, sv_start = [''S6 thread'', ''S6 thread''],
      sv_release = ''S6 1 Hz on core for release''\<rparr>"

definition seqgen3_Service_7 :: service where
  "seqgen3_Service_7 =
     \<lparr>sv_sem = 6, sv_abort = 6, sv_start = [''S7 thread'', ''S7 thread''],
      sv_release = ''S7 1 Hz on core for release''\<rparr>"

definition seqgenex0_Service_1 :: service where
  "seqgenex0_Service_1 =
     \<lparr>sv_sem = 0, sv_abort = 0, sv_start = [], sv_release = ''S1: release''\<rparr>"

definition seqgenex0_Service_2 :: service where
  "seqgenex0_Service_2 =
     \<lparr>sv_sem = 1, sv_abort = 1, sv_start = [], sv_release = ''S2: release''\<rparr>"

definition seqgenex0_Service_3 :: service where
  "seqgenex0_Service_3 =
     \<lparr>sv_sem = 2, sv_abort = 2, sv_start = [], sv_release = ''S3: release''\<rparr>"

definition seqgen_services :: "service list" where
  "seqgen_services =
     [seqgen_Service_1, seqgen_Service_2, seqgen_Service_3, seqgen_Service_4,
      seqgen_Service_5, seqgen_Service_6, seqgen_Service_7]"

definition seqgen2_services :: "service list" where
  "seqgen2_services =
     [seqgen2_Service_1, seqgen2_Service_2, seqgen2_Service_3, seqgen2_Service_4,
      seqgen2_Service_5, seqgen2_Service_6, seqgen2_Service_7]"

definition seqgen3_services :: "service list" where
  "seqgen3_services =
     [seqgen3_Service_1, seqgen3_Service_2, seqgen3_Service_3, seqgen3_Service_4,
      seqgen3_Service_5, seqgen3_Service_6, seqgen3_Service_7]"

definition seqgenex0_services :: "service list" where
  "seqgenex0_services =
     [seqgenex0_Service_1, seqgenex0_Service_2, seqgenex0_Service_3]"

section \<open>The sequencer of seqgen.c\<close>

definition seqgen_delay_time :: timespec where
  "seqgen_delay_time = \<lparr>tv_sec = 0, tv_nsec = 33333333\<rparr>"

definition seqgen_periods :: u64 where
  "seqgen_periods = 900"

definition seqgen_release :: "u64 \<Rightarrow> seq_act list" where
  "seqgen_release seqCnt =
     post_if (seqCnt mod 10 = 0) 0 @ post_if (seqCnt mod 30 = 0) 1 @
     post_if (seqCnt mod 60 = 0) 2 @ post_if (seqCnt mod 30 = 0) 3 @
     post_if (seqCnt mod 60 = 0) 4 @ post_if (seqCnt mod 30 = 0) 5 @
     post_if (seqCnt mod 300 = 0) 6"

text \<open>The tail of the thread, shared by the programs with seven services.\<close>

definition seqgen_shutdown :: "seq_act list" where
  "seqgen_shutdown =
     [Post 0, Post 1, Post 2, Post 3, Post 4, Post 5, Post 6,
      Abort 0, Abort 1, Abort 2, Abort 3, Abort 4, Abort 5, Abort 6]"

text \<open>
  The inner delay loop. \<open>ns k\<close> is what the \<open>k\<close>-th call of \<open>nanosleep\<close> returns and the
  remaining time it stores. The result is the index of the next call and the exit code if the
  process exits. Nothing in the loop resets \<open>residual\<close>, and a successful sleep does not count
  in \<open>delay_cnt\<close>, so the loop need not end: \<open>None\<close> stands for running out of fuel.
\<close>

fun seqgen_delay ::
  "nat \<Rightarrow> (nat \<Rightarrow> int \<times> timespec) \<Rightarrow> nat \<Rightarrow> rat \<Rightarrow> nat \<Rightarrow> (nat \<times> int option) option" where
  "seqgen_delay 0 ns k residual delay_cnt = None"
| "seqgen_delay (Suc fuel) ns k residual delay_cnt =
     (let (rc, remaining_time) = ns k in
      if rc = EINTR then
        (let residual' = ts_double remaining_time; delay_cnt' = delay_cnt + 1 in
         if residual' > 0 \<and> delay_cnt' < 100
         then seqgen_delay fuel ns (Suc k) residual' delay_cnt'
         else Some (Suc k, None))
      else if rc < 0 then Some (Suc k, Some (-1))
      else if residual > 0 \<and> delay_cnt < 100 then seqgen_delay fuel ns (Suc k) residual delay_cnt
      else Some (Suc k, None))"

text \<open>
  The outer loop, from the cycle after \<open>seqCnt\<close>. \<open>abortTest c\<close> is the value of the global flag
  at the end of cycle \<open>c\<close>, \<open>P\<close> is \<open>threadParams->sequencePeriods\<close>. The result is the list of
  actions and the exit code if the process exits.
\<close>

function seqgen_Sequencer ::
  "nat \<Rightarrow> (nat \<Rightarrow> int \<times> timespec) \<Rightarrow> (u64 \<Rightarrow> bool) \<Rightarrow> u64 \<Rightarrow> u64 \<Rightarrow> nat
   \<Rightarrow> (seq_act list \<times> int option) option" where
  "seqgen_Sequencer fuel ns abortTest P seqCnt k =
     (case seqgen_delay fuel ns k 0 0 of
        None \<Rightarrow> None
      | Some (k', Some e) \<Rightarrow> Some (replicate (k' - k) (Sleep seqgen_delay_time), Some e)
      | Some (k', None) \<Rightarrow>
          (let cnt = seqCnt + 1;
               now = replicate (k' - k) (Sleep seqgen_delay_time) @ seqgen_release cnt
           in if \<not> abortTest cnt \<and> cnt < P
              then map_option (\<lambda>(as, x). (now @ as, x))
                     (seqgen_Sequencer fuel ns abortTest P cnt k')
              else Some (now @ seqgen_shutdown, None)))"
  by pat_completeness auto
termination
  by (relation "measure (\<lambda>(fuel, ns, ab, P, c, k). unat (P - 1 - c))")
    (simp_all add: unat_counter_decreases unat_counter_decreases')

declare seqgen_Sequencer.simps [simp del]

section \<open>The sequencer of seqgen2.c\<close>

definition seqgen2_delay_time :: timespec where
  "seqgen2_delay_time = \<lparr>tv_sec = 0, tv_nsec = 10000000\<rparr>"

definition seqgen2_periods :: u64 where
  "seqgen2_periods = 2000"

definition seqgen2_release :: "u64 \<Rightarrow> seq_act list" where
  "seqgen2_release seqCnt =
     post_if (seqCnt mod 2 = 0) 0 @ post_if (seqCnt mod 5 = 0) 1 @
     post_if (seqCnt mod 10 = 0) 2 @ post_if (seqCnt mod 20 = 0) 3 @
     post_if (seqCnt mod 50 = 0) 4 @ post_if (seqCnt mod 100 = 0) 5 @
     post_if (seqCnt mod 100 = 0) 6"

definition seqgen2_shutdown :: "seq_act list" where
  "seqgen2_shutdown =
     [Post 0, Post 1, Post 2, Post 3, Post 4, Post 5, Post 6,
      Abort 0, Abort 1, Abort 2, Abort 3, Abort 4, Abort 5, Abort 6]"

text \<open>Any nonzero result of \<open>clock_nanosleep\<close> (here \<open>ns k\<close> for the \<open>k\<close>-th call) ends the
  process.\<close>

function seqgen2_Sequencer ::
  "(nat \<Rightarrow> int) \<Rightarrow> (u64 \<Rightarrow> bool) \<Rightarrow> u64 \<Rightarrow> u64 \<Rightarrow> nat \<Rightarrow> seq_act list \<times> int option" where
  "seqgen2_Sequencer ns abortTest P seqCnt k =
     (if ns k \<noteq> 0 then ([Sleep seqgen2_delay_time], Some (-1))
      else
        (let cnt = seqCnt + 1; now = Sleep seqgen2_delay_time # seqgen2_release cnt
         in if \<not> abortTest cnt \<and> cnt < P
            then (let (as, x) = seqgen2_Sequencer ns abortTest P cnt (Suc k) in (now @ as, x))
            else (now @ seqgen2_shutdown, None)))"
  by pat_completeness auto
termination
  by (relation "measure (\<lambda>(ns, ab, P, c, k). unat (P - 1 - c))")
    (simp_all add: unat_counter_decreases unat_counter_decreases')

declare seqgen2_Sequencer.simps [simp del]

section \<open>The signal handler of seqgen3.c\<close>

definition seqgen3_periods :: u64 where
  "seqgen3_periods = 2000"

definition itimer_off :: itimerspec where
  "itimer_off = \<lparr>it_interval = \<lparr>tv_sec = 0, tv_nsec = 0\<rparr>, it_value = \<lparr>tv_sec = 0, tv_nsec = 0\<rparr>\<rparr>"

definition seqgen3_itime :: itimerspec where
  "seqgen3_itime = \<lparr>it_interval = \<lparr>tv_sec = 0, tv_nsec = 10000000\<rparr>,
     it_value = \<lparr>tv_sec = 0, tv_nsec = 10000000\<rparr>\<rparr>"

definition seqgen3_release :: "u64 \<Rightarrow> seq_act list" where
  "seqgen3_release seqCnt = post_if (seqCnt mod 20 = 0) 3 @ post_if (seqCnt mod 100 = 0) 6"

definition seqgen3_shutdown :: "seq_act list" where
  "seqgen3_shutdown =
     Settime itimer_off #
     [Post 0, Post 1, Post 2, Post 3, Post 4, Post 5, Post 6,
      Abort 0, Abort 1, Abort 2, Abort 3, Abort 4, Abort 5, Abort 6]"

text \<open>One delivery of the signal: the static counter \<open>seqCnt\<close> and the actions of the
  handler.\<close>

definition seqgen3_Sequencer :: "(u64 \<Rightarrow> bool) \<Rightarrow> u64 \<Rightarrow> u64 \<Rightarrow> u64 \<times> seq_act list" where
  "seqgen3_Sequencer abortTest P seqCnt =
     (let cnt = seqCnt + 1
      in (cnt, seqgen3_release cnt @
               (if abortTest cnt \<or> P \<le> cnt then seqgen3_shutdown else [])))"

text \<open>
  The timer delivers a signal every 10 ms while it is armed. \<open>seqgen3_signals n\<close> is the effect
  of at most \<open>n\<close> deliveries: the handler's own \<open>timer_settime\<close> call stops them.
\<close>

fun seqgen3_signals :: "(u64 \<Rightarrow> bool) \<Rightarrow> u64 \<Rightarrow> nat \<Rightarrow> u64 \<Rightarrow> seq_act list" where
  "seqgen3_signals abortTest P 0 seqCnt = []"
| "seqgen3_signals abortTest P (Suc n) seqCnt =
     (let (cnt, as) = seqgen3_Sequencer abortTest P seqCnt
      in Sleep (it_value seqgen3_itime) # as @
         (if Settime itimer_off \<in> set as then [] else seqgen3_signals abortTest P n cnt))"

section \<open>The sequencer of seqgenex0.c\<close>

definition RTSEQ_DELAY_NSEC :: int where
  "RTSEQ_DELAY_NSEC = 10000000"

definition CLOCK_BIAS_NANOSEC :: int where
  "CLOCK_BIAS_NANOSEC = 100000"

definition DT_SCALING_UNCERTAINTY_NANOSEC :: int where
  "DT_SCALING_UNCERTAINTY_NANOSEC = 500000"

definition RTSEQ_PERIODS :: u64 where
  "RTSEQ_PERIODS = 2400"

text \<open>Despite its name the function returns seconds since \<open>start_time\<close>.\<close>

definition seqgenex0_getTimeMsec :: "rat \<Rightarrow> timespec \<Rightarrow> rat" where
  "seqgenex0_getTimeMsec start_time event_ts = ts_double event_ts - start_time"

definition seqgenex0_delta_t :: rat where
  "seqgenex0_delta_t = of_int RTSEQ_DELAY_NSEC / of_int NANOSEC_PER_SEC"

text \<open>The relative delay after drift control, stored into the \<open>long\<close> field.\<close>

definition seqgenex0_delay_nsec :: "rat \<Rightarrow> rat \<Rightarrow> int" where
  "seqgenex0_delay_nsec current_time last_time =
     (let scale_dt = (current_time - last_time) - seqgenex0_delta_t
      in trunc (of_int RTSEQ_DELAY_NSEC
           - scale_dt * of_int (NANOSEC_PER_SEC + DT_SCALING_UNCERTAINTY_NANOSEC)
           - of_int CLOCK_BIAS_NANOSEC))"

text \<open>The absolute deadline from the current time and the relative delay.\<close>

definition seqgenex0_deadline :: "timespec \<Rightarrow> int \<Rightarrow> timespec" where
  "seqgenex0_deadline current_time_val nsec =
     (let sec = tv_sec current_time_val; ns = tv_nsec current_time_val + nsec
      in if ns > NANOSEC_PER_SEC
         then \<lparr>tv_sec = sec + 1, tv_nsec = ns - NANOSEC_PER_SEC\<rparr>
         else \<lparr>tv_sec = sec, tv_nsec = ns\<rparr>)"

text \<open>The sleep is repeated while \<open>clock_nanosleep\<close> reports \<open>EINTR\<close>; \<open>ns k d\<close> is the result
  of the \<open>k\<close>-th call, with deadline \<open>d\<close>.\<close>

fun seqgenex0_delay ::
  "nat \<Rightarrow> (nat \<Rightarrow> timespec \<Rightarrow> int) \<Rightarrow> nat \<Rightarrow> timespec \<Rightarrow> (nat \<times> int option) option" where
  "seqgenex0_delay 0 ns k deadline = None"
| "seqgenex0_delay (Suc fuel) ns k deadline =
     (let rc = ns k deadline in
      if rc = EINTR then seqgenex0_delay fuel ns (Suc k) deadline
      else if rc < 0 then Some (Suc k, Some (-1))
      else Some (Suc k, None))"

definition seqgenex0_release :: "u64 \<Rightarrow> seq_act list" where
  "seqgenex0_release seqCnt =
     post_if (seqCnt mod 2 = 0) 0 @ post_if (seqCnt mod 10 = 0) 1 @ post_if (seqCnt mod 15 = 0) 2"

definition seqgenex0_shutdown :: "seq_act list" where
  "seqgenex0_shutdown = [Post 0, Post 1, Post 2, Abort 0, Abort 1, Abort 2]"

text \<open>
  The loop from cycle \<open>seqCnt\<close>: \<open>tm c\<close> and \<open>rt c\<close> are the two readings of the real-time clock
  in cycle \<open>c\<close>. Here the counter is incremented after the release.
\<close>

function seqgenex0_loop ::
  "nat \<Rightarrow> (nat \<Rightarrow> timespec \<Rightarrow> int) \<Rightarrow> (u64 \<Rightarrow> timespec) \<Rightarrow> (u64 \<Rightarrow> timespec) \<Rightarrow> rat \<Rightarrow> (u64 \<Rightarrow> bool)
   \<Rightarrow> u64 \<Rightarrow> u64 \<Rightarrow> nat \<Rightarrow> rat \<Rightarrow> (seq_act list \<times> int option) option" where
  "seqgenex0_loop fuel ns tm rt start_time abortTest P seqCnt k last_time =
     (let current_time = seqgenex0_getTimeMsec start_time (tm seqCnt);
          deadline = seqgenex0_deadline (rt seqCnt) (seqgenex0_delay_nsec current_time last_time)
      in case seqgenex0_delay fuel ns k deadline of
           None \<Rightarrow> None
         | Some (k', Some e) \<Rightarrow> Some (replicate (k' - k) (Sleep deadline), Some e)
         | Some (k', None) \<Rightarrow>
             (let now = replicate (k' - k) (Sleep deadline) @ seqgenex0_release seqCnt;
                  cnt = seqCnt + 1
              in if \<not> abortTest cnt \<and> cnt < P
                 then map_option (\<lambda>(as, x). (now @ as, x))
                        (seqgenex0_loop fuel ns tm rt start_time abortTest P cnt k' current_time)
                 else Some (now @ seqgenex0_shutdown, None)))"
  by pat_completeness auto
termination
  by (relation "measure (\<lambda>(fuel, ns, tm, rt, st, ab, P, c, k, l). unat (P - 1 - c))")
    (simp_all add: unat_counter_decreases unat_counter_decreases')

declare seqgenex0_loop.simps [simp del]

text \<open>The thread reads the clock once before the loop.\<close>

definition seqgenex0_Sequencer ::
  "nat \<Rightarrow> (nat \<Rightarrow> timespec \<Rightarrow> int) \<Rightarrow> timespec \<Rightarrow> (u64 \<Rightarrow> timespec) \<Rightarrow> (u64 \<Rightarrow> timespec) \<Rightarrow> rat
   \<Rightarrow> (u64 \<Rightarrow> bool) \<Rightarrow> u64 \<Rightarrow> (seq_act list \<times> int option) option" where
  "seqgenex0_Sequencer fuel ns tm0 tm rt start_time abortTest P =
     seqgenex0_loop fuel ns tm rt start_time abortTest P 0 0
       (seqgenex0_getTimeMsec start_time tm0 - seqgenex0_delta_t)"

end
