(* ===== verification/Seq_Spec.thy ===== *)
theory Seq_Spec
  imports Seq_Programs
begin

text \<open>
  What the sequencers promise: a table of periods, one per service, and the list of actions of
  a run over a number of cycles. The four sequencers are shown to implement it: which
  semaphores are posted in which cycle, in which order, how often, and how a run ends.
\<close>

section \<open>The abstract sequencer\<close>

text \<open>The services due in cycle \<open>c\<close>. The period 0 is that of a service that is never released.\<close>

definition due :: "nat list \<Rightarrow> nat \<Rightarrow> nat list" where
  "due periods c = filter (\<lambda>i. periods ! i \<noteq> 0 \<and> periods ! i dvd c) [0..<length periods]"

definition cycle_spec :: "timespec \<Rightarrow> nat list \<Rightarrow> nat \<Rightarrow> seq_act list" where
  "cycle_spec d periods c = Sleep d # map Post (due periods c)"

text \<open>At the end every service is released once more, then all are told to stop.\<close>

definition shutdown_spec :: "nat list \<Rightarrow> seq_act list" where
  "shutdown_spec periods = map Post [0..<length periods] @ map Abort [0..<length periods]"

text \<open>The cycles \<open>c\<close>, \<open>c + 1\<close>, \dots, \<open>n\<close> and the shutdown.\<close>

definition cycles_spec :: "timespec \<Rightarrow> nat list \<Rightarrow> nat \<Rightarrow> nat \<Rightarrow> seq_act list" where
  "cycles_spec d periods c n = concat (map (cycle_spec d periods) [c..<Suc n])"

definition run_spec :: "timespec \<Rightarrow> nat list \<Rightarrow> nat \<Rightarrow> seq_act list" where
  "run_spec d periods n = cycles_spec d periods 1 n @ shutdown_spec periods"

text \<open>
  The last cycle of a run: the first one after which the abort flag is seen set or the count
  has reached the limit.
\<close>

definition last_cycle :: "(u64 \<Rightarrow> bool) \<Rightarrow> u64 \<Rightarrow> nat \<Rightarrow> bool" where
  "last_cycle ab P n \<longleftrightarrow>
     0 < n \<and> n < 2 ^ 64 \<and> list_all (\<lambda>c. \<not> ab (of_nat c) \<and> of_nat c < P) [1..<n] \<and>
     (ab (of_nat n) \<or> P \<le> of_nat n)"

lemma cycles_spec_Suc: "c \<le> n \<Longrightarrow>
  cycles_spec d periods c n = cycle_spec d periods c @ cycles_spec d periods (Suc c) n"
  by (simp add: cycles_spec_def upt_conv_Cons del: upt_Suc)

lemma cycles_spec_empty [simp]: "n < c \<Longrightarrow> cycles_spec d periods c n = []"
  by (simp add: cycles_spec_def)

lemma last_cycleD:
  assumes "last_cycle ab P n" and "0 < c" and "c < n"
  shows "\<not> ab (of_nat c)" and "of_nat c < P"
  using assms by (simp_all add: last_cycle_def list_all_iff)

lemma last_cycle_end: "last_cycle ab P n \<Longrightarrow> \<not> ab (of_nat n) \<Longrightarrow> \<not> of_nat n < P"
  by (auto simp: last_cycle_def)

text \<open>A run without an abort request has as many cycles as the program asks for.\<close>

lemma last_cycle_full: "0 < n \<Longrightarrow> n < 2 ^ 64 \<Longrightarrow> last_cycle (\<lambda>_. False) (of_nat n) n"
  by (auto simp: last_cycle_def list_all_iff word_less_nat_alt unat_of_nat)

text \<open>Every run has a last cycle.\<close>

lemma last_cycle_exists: "\<exists>n. last_cycle ab P n"
proof -
  let ?Q = "\<lambda>n. 0 < n \<and> (ab (of_nat n) \<or> P \<le> of_nat n)"
  have top: "?Q (max 1 (unat P))"
    by (cases "P = 0") (auto simp: max_def unat_eq_zero not_le)
  define n where "n = (LEAST n. ?Q n)"
  have n: "?Q n" unfolding n_def by (rule LeastI [of ?Q, OF top])
  have "n \<le> max 1 (unat P)" unfolding n_def by (rule Least_le [of ?Q, OF top])
  then have "n < 2 ^ 64" using unsigned_less [where 'a = nat, of P] by (auto simp: max_def split: if_splits)
  moreover have "list_all (\<lambda>c. \<not> ab (of_nat c) \<and> of_nat c < P) [1..<n]"
    using not_less_Least [of _ ?Q] by (fastforce simp: list_all_iff n_def [symmetric] not_le)
  ultimately show ?thesis using n by (auto simp: last_cycle_def)
qed

section \<open>Counting the releases\<close>

lemma count_list_Post_due:
  "count_list (map Post (due periods c)) (Post i) =
     (if i < length periods \<and> periods ! i \<noteq> 0 \<and> periods ! i dvd c then 1 else 0)"
proof -
  have "count_list (map Post xs) (Post i) = count_list xs i" for xs
    by (induction xs) simp_all
  moreover have "count_list (filter Q [0..<n]) i = (if i < n \<and> Q i then 1 else 0)" for Q n
    by (induction n) auto
  ultimately show ?thesis by (simp add: due_def)
qed

lemma count_cycles_spec:
  assumes "i < length periods"
  shows "count_list (cycles_spec d periods 1 n) (Post i) = n div periods ! i"
proof -
  have "count_list (cycle_spec d periods c) (Post i) =
      (if periods ! i \<noteq> 0 \<and> periods ! i dvd c then 1 else 0)" for c
    using assms by (simp add: cycle_spec_def count_list_Post_due)
  then have "count_list (cycles_spec d periods 1 n) (Post i) =
      length (filter (\<lambda>c. periods ! i \<noteq> 0 \<and> periods ! i dvd c) [1..<Suc n])"
    by (simp add: cycles_spec_def count_list_concat comp_def sum_list_indicator del: upt_Suc)
  also have "\<dots> = length (filter (\<lambda>c. c mod periods ! i = 0) [Suc 0..<Suc n])"
    by (intro arg_cong [where f = length] filter_cong) auto
  finally show ?thesis by (simp only: count_multiples)
qed

lemma count_shutdown_Post: "i < length periods \<Longrightarrow> count_list (shutdown_spec periods) (Post i) = 1"
proof -
  have "count_list (map Post [0..<n]) (Post i) = (if i < n then 1 else 0)"
    "count_list (map Abort [0..<n]) (Post i) = 0" for n
    by (induction n) auto
  then show "i < length periods \<Longrightarrow> ?thesis" by (simp add: shutdown_spec_def)
qed

lemma count_run_spec:
  "i < length periods \<Longrightarrow> count_list (run_spec d periods n) (Post i) = n div periods ! i + 1"
  by (simp add: run_spec_def count_cycles_spec [simplified] count_shutdown_Post)

section \<open>The contract between a program and its table of periods\<close>

text \<open>
  The release code of a sequencer implements a table of periods when, at every value of its
  counter, it posts exactly the services due, in order, and its shutdown code is the abstract
  one.
\<close>

locale release_table =
  fixes release :: "u64 \<Rightarrow> seq_act list"
    and shutdown :: "seq_act list"
    and periods :: "nat list"
  assumes release_due: "release c = map Post (due periods (unat c))"
    and shutdown_eq: "shutdown = shutdown_spec periods"
begin

lemma release_of_nat: "c < 2 ^ 64 \<Longrightarrow> release (of_nat c) = map Post (due periods c)"
  by (simp add: release_due unat_of_nat)

lemma release_only_posts: "a \<in> set (release c) \<Longrightarrow> \<exists>i < length periods. a = Post i"
  by (auto simp: release_due due_def)

end

definition seqgen_rates :: "nat list" where
  "seqgen_rates = [10, 30, 60, 30, 60, 30, 300]"

definition seqgen2_rates :: "nat list" where
  "seqgen2_rates = [2, 5, 10, 20, 50, 100, 100]"

definition seqgen3_rates :: "nat list" where
  "seqgen3_rates = [0, 0, 0, 20, 0, 0, 100]"

definition seqgenex0_rates :: "nat list" where
  "seqgenex0_rates = [2, 10, 15]"

lemma word_mod_zero_iff:
  "(c::u64) mod numeral k = 0 \<longleftrightarrow> unat c mod unat (numeral k :: u64) = 0"
  by (simp add: unat_mod_distrib unat_eq_zero [symmetric] del: unat_eq_zero unat_numeral)

lemma map_Post_due: "map Post (due periods c) =
  concat (map (\<lambda>(i, p). post_if (p \<noteq> 0 \<and> p dvd c) i) (enumerate 0 periods))"
proof -
  have "map Post (filter Q xs) = concat (map (\<lambda>i. post_if (Q i) i) xs)" for Q xs
    by (induction xs) (simp_all add: post_if_def)
  moreover have "enumerate 0 periods = map (\<lambda>i. (i, periods ! i)) [0..<length periods]"
    by (rule nth_equalityI) (simp_all add: nth_enumerate_eq)
  ultimately show ?thesis by (simp add: due_def comp_def)
qed

lemma post_if_False [simp]: "post_if False i = []"
  by (simp add: post_if_def)

lemmas table_simps = map_Post_due word_mod_zero_iff dvd_eq_mod_eq_0 shutdown_spec_def upt_rec
  Suc_numeral numeral_2_eq_2 [symmetric]

interpretation seqgen: release_table seqgen_release seqgen_shutdown seqgen_rates
  by unfold_locales
    (simp_all add: seqgen_release_def seqgen_shutdown_def seqgen_rates_def table_simps)

interpretation seqgen2: release_table seqgen2_release seqgen2_shutdown seqgen2_rates
  by unfold_locales
    (simp_all add: seqgen2_release_def seqgen2_shutdown_def seqgen2_rates_def table_simps)

interpretation seqgen3: release_table seqgen3_release "tl seqgen3_shutdown" seqgen3_rates
  by unfold_locales
    (simp_all add: seqgen3_release_def seqgen3_shutdown_def seqgen3_rates_def table_simps)

interpretation seqgenex0: release_table seqgenex0_release seqgenex0_shutdown seqgenex0_rates
  by unfold_locales
    (simp_all add: seqgenex0_release_def seqgenex0_shutdown_def seqgenex0_rates_def table_simps)

end
