(* ===== verification/Seq_Runs.thy ===== *)
theory Seq_Runs
  imports Seq_Spec
begin

text \<open>
  The four sequencers implement the abstract sequencer of \<open>Seq_Spec\<close>: refinement theorems, the
  number of releases of every service, the error paths of the sleeping code and the absolute
  deadlines of \<^verbatim>\<open>seqgenex0.c\<close>.
\<close>

section \<open>Outcome of a run whose sleeps may fail\<close>

text \<open>
  From cycle \<open>c\<close> on, a run of \<open>n\<close> cycles either performs all of them and the shutdown, or
  ends with exit code -1 at the first sleep that is not all right.
\<close>

definition seq_outcome ::
  "timespec \<Rightarrow> nat list \<Rightarrow> (nat \<Rightarrow> bool) \<Rightarrow> nat \<Rightarrow> nat \<Rightarrow> seq_act list \<times> int option" where
  "seq_outcome d periods ok c n =
     (case find (\<lambda>k. \<not> ok k) [c..<n] of
        None \<Rightarrow> (cycles_spec d periods (Suc c) n @ shutdown_spec periods, None)
      | Some k \<Rightarrow> (cycles_spec d periods (Suc c) k @ [Sleep d], Some (-1)))"

lemma find_upt_ge: "find Q [a..<b] = Some k \<Longrightarrow> a \<le> k"
  by (auto simp: find_Some_iff)

lemma seq_outcome_fails: "c < n \<Longrightarrow> \<not> ok c \<Longrightarrow> seq_outcome d periods ok c n = ([Sleep d], Some (-1))"
  by (simp add: seq_outcome_def upt_conv_Cons)

lemma seq_outcome_last: "c < n \<Longrightarrow> ok c \<Longrightarrow> \<not> Suc c < n \<Longrightarrow>
  seq_outcome d periods ok c n = (cycle_spec d periods (Suc c) @ shutdown_spec periods, None)"
  by (simp add: seq_outcome_def upt_conv_Cons cycles_spec_Suc)

lemma seq_outcome_step: "ok c \<Longrightarrow> Suc c < n \<Longrightarrow>
  seq_outcome d periods ok c n =
    apfst ((@) (cycle_spec d periods (Suc c))) (seq_outcome d periods ok (Suc c) n)"
  by (auto simp: seq_outcome_def upt_conv_Cons cycles_spec_Suc split: option.splits
      dest!: find_upt_ge)

lemma seq_outcome_all_ok:
  assumes "\<And>k. k < n \<Longrightarrow> ok k"
  shows "seq_outcome d periods ok 0 n = (run_spec d periods n, None)"
proof -
  have "find (\<lambda>k. \<not> ok k) [0..<n] = None" using assms by (auto simp: find_None_iff)
  then show ?thesis by (simp add: seq_outcome_def run_spec_def)
qed

text \<open>What the loop condition of a sequencer says about the last cycle.\<close>

lemma last_cycle_continue_iff:
  assumes "last_cycle ab P n" and "c < n"
  shows "\<not> ab (of_nat (Suc c)) \<and> of_nat (Suc c) < P \<longleftrightarrow> Suc c < n"
proof
  assume "\<not> ab (of_nat (Suc c)) \<and> of_nat (Suc c) < P"
  then show "Suc c < n" using assms last_cycle_end [OF assms(1)] by (metis Suc_lessI)
next
  assume "Suc c < n"
  then show "\<not> ab (of_nat (Suc c)) \<and> of_nat (Suc c) < P"
    using last_cycleD [OF assms(1) zero_less_Suc] by blast
qed

lemma last_cycle_bound: "last_cycle ab P n \<Longrightarrow> c < n \<Longrightarrow> Suc c < 2 ^ 64"
  by (simp add: last_cycle_def)

section \<open>seqgen2.c\<close>

lemma seqgen2_Sequencer_from:
  assumes "last_cycle ab P n" and "c < n"
  shows "seqgen2_Sequencer ns ab P (of_nat c) c =
    seq_outcome seqgen2_delay_time seqgen2_rates (\<lambda>k. ns k = 0) c n"
  using assms(2)
proof (induction "n - c" arbitrary: c)
  case (Suc m)
  have rel: "seqgen2_release (1 + of_nat c) = map Post (due seqgen2_rates (Suc c))"
    using seqgen2.release_of_nat [OF last_cycle_bound [OF assms(1) \<open>c < n\<close>]] by simp
  have IH: "seqgen2_Sequencer ns ab P (1 + of_nat c) (Suc c) =
      seq_outcome seqgen2_delay_time seqgen2_rates (\<lambda>k. ns k = 0) (Suc c) n" if "Suc c < n"
    using Suc.hyps(1) [of "Suc c"] Suc.hyps(2) that by simp
  note cont = last_cycle_continue_iff [OF assms(1) \<open>c < n\<close>, simplified]
  show ?case
    by (subst seqgen2_Sequencer.simps)
      (auto simp: Let_def add.commute [of _ 1] cont IH rel seqgen2.shutdown_eq
        seq_outcome_fails seq_outcome_last seq_outcome_step cycle_spec_def \<open>c < n\<close>
        simp flip: cont split: prod.splits)
qed simp

text \<open>
  C3. The sequencer of seqgen2.c implements the abstract sequencer: while the sleeps succeed
  it posts in cycle \<open>c\<close> exactly the services whose period divides \<open>c\<close>, and after the last
  cycle (the abort flag or the cycle limit) it releases and then stops every service; the first
  sleep that fails ends the process with exit code -1, without the shutdown.
\<close>
theorem seqgen2_Sequencer_spec:
  assumes "last_cycle ab P n"
  shows "seqgen2_Sequencer ns ab P 0 0 =
    seq_outcome seqgen2_delay_time seqgen2_rates (\<lambda>k. ns k = 0) 0 n"
  using seqgen2_Sequencer_from [OF assms, of 0] assms by (simp add: last_cycle_def)

theorem seqgen2_Sequencer_spec_witness:
  "seqgen2_Sequencer (\<lambda>k. if k = 2 then EINTR else 0) (\<lambda>_. False) (of_nat 4) 0 0 =
     ([Sleep seqgen2_delay_time, Sleep seqgen2_delay_time, Post 0, Sleep seqgen2_delay_time],
      Some (-1))"
  using seqgen2_Sequencer_spec [OF last_cycle_full [of 4], of "\<lambda>k. if k = 2 then EINTR else 0"]
  by (simp add: seq_outcome_def EINTR_def upt_rec cycles_spec_def cycle_spec_def due_def
      seqgen2_rates_def dvd_eq_mod_eq_0)

section \<open>seqgen.c\<close>

text \<open>\<open>nanosleep\<close> returns 0 or -1 (with \<open>errno\<close> set), never an error number.\<close>

definition nanosleep_ok :: "(nat \<Rightarrow> int \<times> timespec) \<Rightarrow> bool" where
  "nanosleep_ok ns \<longleftrightarrow> (\<forall>k. fst (ns k) = 0 \<or> fst (ns k) = -1)"

lemma seqgen_delay_once:
  assumes "nanosleep_ok ns" and "0 < fuel"
  shows "seqgen_delay fuel ns k 0 0 =
    Some (Suc k, if fst (ns k) = 0 then None else Some (-1))"
proof -
  obtain f where "fuel = Suc f" using assms(2) by (cases fuel) auto
  moreover have "fst (ns k) = 0 \<or> fst (ns k) = -1" using assms(1) by (simp add: nanosleep_ok_def)
  ultimately show ?thesis by (auto simp: EINTR_def split: prod.splits)
qed

lemma seqgen_Sequencer_from:
  assumes "nanosleep_ok ns" and "0 < fuel" and "last_cycle ab P n" and "c < n"
  shows "seqgen_Sequencer fuel ns ab P (of_nat c) c =
    Some (seq_outcome seqgen_delay_time seqgen_rates (\<lambda>k. fst (ns k) = 0) c n)"
  using assms(4)
proof (induction "n - c" arbitrary: c)
  case (Suc m)
  have rel: "seqgen_release (1 + of_nat c) = map Post (due seqgen_rates (Suc c))"
    using seqgen.release_of_nat [OF last_cycle_bound [OF assms(3) \<open>c < n\<close>]] by simp
  have IH: "seqgen_Sequencer fuel ns ab P (1 + of_nat c) (Suc c) =
      Some (seq_outcome seqgen_delay_time seqgen_rates (\<lambda>k. fst (ns k) = 0) (Suc c) n)"
    if "Suc c < n"
    using Suc.hyps(1) [of "Suc c"] Suc.hyps(2) that by simp
  note cont = last_cycle_continue_iff [OF assms(3) \<open>c < n\<close>, simplified]
  show ?case
    by (subst seqgen_Sequencer.simps)
      (auto simp: Let_def add.commute [of _ 1] seqgen_delay_once assms(1,2) cont IH rel
        seqgen.shutdown_eq seq_outcome_fails seq_outcome_last seq_outcome_step cycle_spec_def
        \<open>c < n\<close> apfst_def map_prod_def simp flip: cont split: prod.splits)
qed simp

text \<open>
  C19. With a \<open>nanosleep\<close> that returns 0 or -1, the sequencer of seqgen.c calls it once per
  cycle and implements the abstract sequencer; an interrupted sleep (-1) is not resumed, as the
  early wake-up loop intends, but ends the process with exit code -1.
\<close>
theorem seqgen_Sequencer_spec:
  assumes "nanosleep_ok ns" and "0 < fuel" and "last_cycle ab P n"
  shows "seqgen_Sequencer fuel ns ab P 0 0 =
    Some (seq_outcome seqgen_delay_time seqgen_rates (\<lambda>k. fst (ns k) = 0) 0 n)"
  using seqgen_Sequencer_from [OF assms, of 0] assms by (simp add: last_cycle_def)

theorem seqgen_Sequencer_spec_witness:
  "seqgen_Sequencer 1 (\<lambda>k. (if k = 1 then -1 else 0, seqgen_delay_time)) (\<lambda>_. False) (of_nat 3) 0 0
     = Some ([Sleep seqgen_delay_time, Sleep seqgen_delay_time], Some (-1))"
proof -
  have "nanosleep_ok (\<lambda>k. (if k = 1 then -1 else 0, seqgen_delay_time))"
    by (simp add: nanosleep_ok_def)
  from seqgen_Sequencer_spec [OF this zero_less_one last_cycle_full [of 3]] show ?thesis
    by (simp add: seq_outcome_def upt_rec cycles_spec_def cycle_spec_def due_def
        seqgen_rates_def)
qed

text \<open>
  If the first call of the delay loop of seqgen.c reports \<open>EINTR\<close> with time remaining and
  every later call succeeds, the loop never ends: nothing resets the remaining time, and
  successful calls are not counted towards the limit of 100.
\<close>
theorem seqgen_delay_diverges:
  assumes "fst (ns k) = EINTR" and "0 < ts_ns (snd (ns k))" and "\<forall>j. k < j \<longrightarrow> fst (ns j) = 0"
  shows "seqgen_delay fuel ns k 0 0 = None"
proof -
  have loop: "seqgen_delay f ns j r 1 = None" if "0 < r" "k < j" for f j r
    using that assms(3)
    by (induction f arbitrary: j) (auto simp: EINTR_def split: prod.splits)
  have "0 < ts_double (snd (ns k))" using assms(2) by (simp add: ts_double_pos)
  then show ?thesis
    using assms(1) loop [of _ "Suc k"] by (cases fuel) (auto simp: split_def Let_def)
qed

theorem seqgen_delay_diverges_witness:
  "seqgen_delay 1000 (\<lambda>j. (if j = 0 then EINTR else 0, \<lparr>tv_sec = 0, tv_nsec = 5\<rparr>)) 0 0 0 = None"
  by (rule seqgen_delay_diverges) (simp_all add: ts_ns_def)

section \<open>seqgen3.c\<close>

lemma seqgen3_shutdown_eq: "seqgen3_shutdown = Settime itimer_off # shutdown_spec seqgen3_rates"
  by (simp add: seqgen3.shutdown_eq [symmetric] seqgen3_shutdown_def)

lemma seqgen3_signals_from:
  assumes "last_cycle ab P n" and "c < n" and "n \<le> c + m"
  shows "seqgen3_signals ab P m (of_nat c) =
    cycles_spec (it_value seqgen3_itime) seqgen3_rates (Suc c) n @
    Settime itimer_off # shutdown_spec seqgen3_rates"
  using assms(2,3)
proof (induction m arbitrary: c)
  case (Suc m)
  have rel: "seqgen3_release (1 + of_nat c) = map Post (due seqgen3_rates (Suc c))"
    using seqgen3.release_of_nat [OF last_cycle_bound [OF assms(1) \<open>c < n\<close>]] by simp
  have IH: "seqgen3_signals ab P m (1 + of_nat c) =
    cycles_spec (it_value seqgen3_itime) seqgen3_rates (Suc (Suc c)) n @
    Settime itimer_off # shutdown_spec seqgen3_rates" if "Suc c < n"
    using Suc.IH [of "Suc c"] Suc.prems that by simp
  note cont = last_cycle_continue_iff [OF assms(1) \<open>c < n\<close>, simplified]
  have stop: "ab (1 + of_nat c) \<or> P \<le> 1 + of_nat c \<longleftrightarrow> \<not> Suc c < n" using cont by auto
  show ?case
    using Suc.prems
    by (simp add: seqgen3_Sequencer_def Let_def add.commute [of _ 1] stop rel IH
        seqgen3_shutdown_eq cycles_spec_Suc [of "Suc c"] cycle_spec_def image_iff)
qed simp

text \<open>
  The handler of seqgen3.c posts, at every delivery, exactly the services due (only
  services 4 and 7 are ever due), and at the last cycle it disarms its own timer, releases and
  then stops every service, so that no later delivery has an effect.
\<close>
theorem seqgen3_signals_spec:
  assumes "last_cycle ab P n" and "n \<le> m"
  shows "seqgen3_signals ab P m 0 =
    cycles_spec (it_value seqgen3_itime) seqgen3_rates 1 n @
    Settime itimer_off # shutdown_spec seqgen3_rates"
  using seqgen3_signals_from [OF assms(1), of 0 m] assms by (simp add: last_cycle_def)

theorem seqgen3_signals_spec_witness:
  "seqgen3_signals (\<lambda>c. c = 2) 2000 5 0 =
     [Sleep (it_value seqgen3_itime), Sleep (it_value seqgen3_itime), Settime itimer_off,
      Post 0, Post 1, Post 2, Post 3, Post 4, Post 5, Post 6,
      Abort 0, Abort 1, Abort 2, Abort 3, Abort 4, Abort 5, Abort 6]"
proof -
  have "last_cycle (\<lambda>c. c = 2) 2000 2" by (simp add: last_cycle_def upt_rec)
  from seqgen3_signals_spec [OF this, of 5] show ?thesis
    by (simp add: cycles_spec_def cycle_spec_def due_def seqgen3_rates_def upt_rec
        shutdown_spec_def dvd_eq_mod_eq_0)
qed

section \<open>seqgenex0.c\<close>

fun is_sleep :: "seq_act \<Rightarrow> bool" where
  "is_sleep (Sleep t) = True"
| "is_sleep _ = False"

text \<open>\<open>clock_nanosleep\<close> returns 0 or a positive error number; here it is also assumed that it
  is not interrupted \<open>fuel\<close> times in a row.\<close>

definition clock_nanosleep_ok :: "nat \<Rightarrow> (nat \<Rightarrow> timespec \<Rightarrow> int) \<Rightarrow> bool" where
  "clock_nanosleep_ok fuel ns \<longleftrightarrow>
     (\<forall>k d. 0 \<le> ns k d) \<and> (\<forall>k. \<exists>j<fuel. \<forall>d. ns (k + j) d \<noteq> EINTR)"

text \<open>
  One sleep of the sequencer: the calls of \<open>clock_nanosleep\<close> numbered from \<open>k\<close> up to, but not including, \<open>k'\<close>, all with the same
  deadline. Each but the last was interrupted, and the last was not.
\<close>

definition sleeps_until :: "(nat \<Rightarrow> timespec \<Rightarrow> int) \<Rightarrow> timespec \<Rightarrow> nat \<Rightarrow> nat \<Rightarrow> bool" where
  "sleeps_until ns d k k' \<longleftrightarrow> k < k' \<and> (\<forall>j. k \<le> j \<and> Suc j < k' \<longrightarrow> ns j d = EINTR) \<and> ns (k' - 1) d \<noteq> EINTR"

lemma sleeps_until_Suc: "ns k d = EINTR \<Longrightarrow> sleeps_until ns d (Suc k) k' \<Longrightarrow> sleeps_until ns d k k'"
  by (auto simp: sleeps_until_def) (metis Suc_leI le_neq_implies_less)

lemma seqgenex0_delay_returns:
  assumes "\<And>k d. 0 \<le> ns k d" and "\<And>d. ns (k + j) d \<noteq> EINTR" and "j < fuel"
  shows "\<exists>k'. sleeps_until ns d k k' \<and> seqgenex0_delay fuel ns k d = Some (k', None)"
  using assms(2,3)
proof (induction j arbitrary: fuel k)
  case 0
  then show ?case using assms(1) [of k d] by (cases fuel) (auto simp: Let_def sleeps_until_def)
next
  case (Suc j)
  then obtain f where f: "fuel = Suc f" "j < f" by (cases fuel) auto
  show ?case
  proof (cases "ns k d = EINTR")
    case True
    from Suc.IH [of "Suc k" f] Suc.prems f
    obtain k' where "sleeps_until ns d (Suc k) k'" "seqgenex0_delay f ns (Suc k) d = Some (k', None)" by auto
    then show ?thesis using f True by (auto simp: Let_def intro: sleeps_until_Suc)
  next
    case False
    then show ?thesis using f assms(1) [of k d] by (auto simp: Let_def sleeps_until_def)
  qed
qed

text \<open>
  The deadline of cycle \<open>c\<close>, from the clock readings of the cycle and the time of the cycle before, and what the sequencer does
  in that cycle, when its calls of \<open>clock_nanosleep\<close> are those from \<open>K c\<close> up to \<open>K (c + 1)\<close>.
\<close>

definition seqgenex0_cycle_deadline :: "rat \<Rightarrow> (u64 \<Rightarrow> timespec) \<Rightarrow> (u64 \<Rightarrow> timespec) \<Rightarrow> rat \<Rightarrow> nat \<Rightarrow> timespec" where
  "seqgenex0_cycle_deadline st tm rt lt0 c =
     seqgenex0_deadline (rt (of_nat c))
       (seqgenex0_delay_nsec (seqgenex0_getTimeMsec st (tm (of_nat c)))
         (if c = 0 then lt0 else seqgenex0_getTimeMsec st (tm (of_nat (c - 1)))))"

definition seqgenex0_cycle :: "(nat \<Rightarrow> timespec) \<Rightarrow> (nat \<Rightarrow> nat) \<Rightarrow> nat \<Rightarrow> seq_act list" where
  "seqgenex0_cycle D K c = replicate (K (Suc c) - K c) (Sleep (D c)) @ map Post (due seqgenex0_rates c)"

lemma filter_replicate_Sleep [simp]: "filter (\<lambda>a. \<not> is_sleep a) (replicate m (Sleep d)) = []"
  by (induction m) simp_all

lemma filter_map_Post [simp]:
  "filter (\<lambda>a. \<not> is_sleep a) (map Post xs) = map Post xs"
  "filter (\<lambda>a. \<not> is_sleep a) (map Abort xs) = map Abort xs"
  by (induction xs) simp_all

lemma seqgenex0_loop_spec:
  assumes "clock_nanosleep_ok fuel ns" and "last_cycle ab P n" and "c < n"
    and "lt = (if c = 0 then lt0 else seqgenex0_getTimeMsec st (tm (of_nat (c - 1))))"
  shows "\<exists>K. K c = k \<and> (\<forall>i. c \<le> i \<and> i < n \<longrightarrow> sleeps_until ns (seqgenex0_cycle_deadline st tm rt lt0 i) (K i) (K (Suc i))) \<and>
    seqgenex0_loop fuel ns tm rt st ab P (of_nat c) k lt =
      Some (concat (map (seqgenex0_cycle (seqgenex0_cycle_deadline st tm rt lt0) K) [c..<n]) @ shutdown_spec seqgenex0_rates, None)"
  using assms(3,4)
proof (induction "n - c" arbitrary: c k lt)
  case (Suc m)
  let ?D = "seqgenex0_cycle_deadline st tm rt lt0"
  have rel: "seqgenex0_release (of_nat c) = map Post (due seqgenex0_rates c)"
    using seqgenex0.release_of_nat last_cycle_bound [OF assms(2) \<open>c < n\<close>] by simp
  obtain j where "\<And>k d. 0 \<le> ns k d" "\<And>d. ns (k + j) d \<noteq> EINTR" "j < fuel"
    using assms(1) unfolding clock_nanosleep_ok_def by blast
  then obtain k' where k': "sleeps_until ns (?D c) k k'" "seqgenex0_delay fuel ns k (?D c) = Some (k', None)"
    using seqgenex0_delay_returns by blast
  define cur where "cur = seqgenex0_getTimeMsec st (tm (of_nat c))"
  have "[c..<n] = c # [Suc c..<n]" using \<open>c < n\<close> by (rule upt_conv_Cons)
  have d: "seqgenex0_deadline (rt (of_nat c)) (seqgenex0_delay_nsec cur lt) = ?D c"
    by (simp add: Suc.prems(2) seqgenex0_cycle_deadline_def cur_def)
  note loop = seqgenex0_loop.simps [of fuel ns tm rt st ab P "of_nat c" k lt, folded cur_def,
      unfolded Let_def, unfolded d k'(2) rel, simplified]
  note cont = last_cycle_continue_iff [OF assms(2) \<open>c < n\<close>, simplified]
  show ?case
  proof (cases "Suc c < n")
    case True
    obtain K where K: "K (Suc c) = k'" "\<forall>i. Suc c \<le> i \<and> i < n \<longrightarrow> sleeps_until ns (?D i) (K i) (K (Suc i))"
      "seqgenex0_loop fuel ns tm rt st ab P (of_nat (Suc c)) k' cur =
        Some (concat (map (seqgenex0_cycle ?D K) [Suc c..<n]) @ shutdown_spec seqgenex0_rates, None)"
    proof -
      have "m = n - Suc c" using Suc.hyps(2) by simp
      moreover have "cur = (if Suc c = 0 then lt0 else seqgenex0_getTimeMsec st (tm (of_nat (Suc c - 1))))" by (simp add: cur_def)
      ultimately show thesis using Suc.hyps(1) [of "Suc c" cur k'] True that by blast
    qed
    let ?K = "K(c := k)"
    have "concat (map (seqgenex0_cycle ?D ?K) [Suc c..<n]) = concat (map (seqgenex0_cycle ?D K) [Suc c..<n])"
      by (intro arg_cong [of _ _ concat] map_cong) (auto simp: seqgenex0_cycle_def)
    moreover have "seqgenex0_cycle ?D ?K c = replicate (k' - k) (Sleep (?D c)) @ map Post (due seqgenex0_rates c)"
      using K(1) by (simp add: seqgenex0_cycle_def)
    ultimately have "seqgenex0_loop fuel ns tm rt st ab P (of_nat c) k lt =
        Some (concat (map (seqgenex0_cycle ?D ?K) [c..<n]) @ shutdown_spec seqgenex0_rates, None)"
      unfolding \<open>[c..<n] = _\<close> using True cont K(3) by (simp add: loop add.commute [of _ 1] del: fun_upd_apply map_eq_conv)
    moreover have "sleeps_until ns (?D i) (?K i) (?K (Suc i))" if "c \<le> i" "i < n" for i
      using that K(1,2) k'(1) by (cases "i = c") auto
    ultimately show ?thesis by (intro exI [of _ ?K]) simp
  next
    case False
    then have n: "n = Suc c" using \<open>c < n\<close> by simp
    let ?K = "(\<lambda>_. k')(c := k)"
    have "sleeps_until ns (?D i) (?K i) (?K (Suc i))" if "c \<le> i" "i < n" for i
    proof -
      have "i = c" using that n by simp
      then show ?thesis using k'(1) by simp
    qed
    moreover have "seqgenex0_loop fuel ns tm rt st ab P (of_nat c) k lt =
        Some (concat (map (seqgenex0_cycle ?D ?K) [c..<n]) @ shutdown_spec seqgenex0_rates, None)"
      using cont False n by (auto simp: loop add.commute [of _ 1] seqgenex0.shutdown_eq seqgenex0_cycle_def)
    ultimately show ?thesis by (intro exI [of _ ?K]) simp
  qed
qed simp

lemma seqgenex0_run_spec:
  assumes "clock_nanosleep_ok fuel ns" and "last_cycle ab P n"
  shows "\<exists>K. K 0 = 0 \<and>
    (\<forall>c < n. sleeps_until ns (seqgenex0_cycle_deadline st tm rt (seqgenex0_getTimeMsec st tm0 - seqgenex0_delta_t) c) (K c) (K (Suc c))) \<and>
    seqgenex0_Sequencer fuel ns tm0 tm rt st ab P =
      Some (concat (map (seqgenex0_cycle (seqgenex0_cycle_deadline st tm rt (seqgenex0_getTimeMsec st tm0 - seqgenex0_delta_t)) K) [0..<n]) @
        shutdown_spec seqgenex0_rates, None)"
  using seqgenex0_loop_spec [OF assms, of 0 "seqgenex0_getTimeMsec st tm0 - seqgenex0_delta_t"] assms(2)
  by (simp add: seqgenex0_Sequencer_def last_cycle_def)

lemma filter_cycles: "filter (\<lambda>a. \<not> is_sleep a) (concat (map (seqgenex0_cycle D K) cs)) = concat (map (\<lambda>c. map Post (due seqgenex0_rates c)) cs)"
  by (induction cs) (simp_all add: seqgenex0_cycle_def)

text \<open>What is left of the specification when the sleeps are not looked at.\<close>

lemma seqgenex0_run_posts:
  assumes "clock_nanosleep_ok fuel ns" and "last_cycle ab P n"
  shows "\<exists>as. seqgenex0_Sequencer fuel ns tm0 tm rt st ab P = Some (as @ shutdown_spec seqgenex0_rates, None) \<and>
    filter (\<lambda>a. \<not> is_sleep a) as = concat (map (\<lambda>c. map Post (due seqgenex0_rates c)) [0..<n])"
  using seqgenex0_run_spec [OF assms, of st tm rt tm0] filter_cycles by blast

text \<open>
  C17. Whatever the clock readings, the sequencer of seqgenex0.c does exactly this: in each cycle, numbered from 0, it sleeps
  until the deadline of the cycle, calling \<open>clock_nanosleep\<close> again with the same deadline after every call that was interrupted and
  after no other, and then posts exactly the services whose period divides the cycle number; after the last
  cycle the shutdown follows, and nothing else.
\<close>
theorem seqgenex0_Sequencer_spec:
  assumes "clock_nanosleep_ok fuel ns" and "last_cycle ab P n"
  shows "\<exists>K. K 0 = 0 \<and>
    (\<forall>c < n. sleeps_until ns (seqgenex0_cycle_deadline st tm rt (seqgenex0_getTimeMsec st tm0 - seqgenex0_delta_t) c) (K c) (K (Suc c))) \<and>
    seqgenex0_Sequencer fuel ns tm0 tm rt st ab P =
      Some (concat (map (seqgenex0_cycle (seqgenex0_cycle_deadline st tm rt (seqgenex0_getTimeMsec st tm0 - seqgenex0_delta_t)) K) [0..<n]) @
        shutdown_spec seqgenex0_rates, None)"
  using seqgenex0_run_spec [OF assms] .

text \<open>The second call of three cycles is interrupted: the deadline of the second cycle is slept for twice.\<close>

theorem seqgenex0_Sequencer_spec_witness:
  "\<exists>d0 d1 d2. seqgenex0_Sequencer 2 (\<lambda>k d. if k = 1 then EINTR else 0) seqgen_delay_time
      (\<lambda>_. seqgen_delay_time) (\<lambda>_. seqgen_delay_time) 0 (\<lambda>_. False) (of_nat 3) =
    Some ([Sleep d0, Post 0, Post 1, Post 2, Sleep d1, Sleep d1, Sleep d2, Post 0,
      Post 0, Post 1, Post 2, Abort 0, Abort 1, Abort 2], None)"
proof -
  let ?ns = "\<lambda>(k :: nat) d. if k = 1 then EINTR else 0"
  let ?D = "seqgenex0_cycle_deadline 0 (\<lambda>_. seqgen_delay_time) (\<lambda>_. seqgen_delay_time)
    (seqgenex0_getTimeMsec 0 seqgen_delay_time - seqgenex0_delta_t)"
  have "\<exists>j<2. k + j \<noteq> Suc 0" for k
    by (cases "k = 1") (auto intro: exI [of _ 1] exI [of _ 0])
  then have ok: "clock_nanosleep_ok 2 ?ns" by (auto simp: clock_nanosleep_ok_def EINTR_def)
  obtain K where K: "K 0 = 0" "\<forall>c < 3. sleeps_until ?ns (?D c) (K c) (K (Suc c))"
    "seqgenex0_Sequencer 2 ?ns seqgen_delay_time (\<lambda>_. seqgen_delay_time) (\<lambda>_. seqgen_delay_time) 0 (\<lambda>_. False) (of_nat 3) =
      Some (concat (map (seqgenex0_cycle ?D K) [0..<3]) @ shutdown_spec seqgenex0_rates, None)"
    using seqgenex0_Sequencer_spec [OF ok last_cycle_full [of 3], of 0 "\<lambda>_. seqgen_delay_time" "\<lambda>_. seqgen_delay_time" seqgen_delay_time] by auto
  have next_call: "k' = (if k = 1 then 3 else Suc k)" if "sleeps_until ?ns d k k'" for k k' d
  proof -
    have "\<not> Suc k < k'" if "k \<noteq> 1" using \<open>sleeps_until ?ns d k k'\<close> that by (auto simp: sleeps_until_def EINTR_def)
    moreover have "\<not> 3 < k'" if "k = 1"
    proof
      assume "3 < k'"
      then have "Suc 2 < k'" "k \<le> 2" using that by simp_all
      moreover have "\<forall>j. k \<le> j \<and> Suc j < k' \<longrightarrow> ?ns j d = EINTR" using \<open>sleeps_until ?ns d k k'\<close> by (simp add: sleeps_until_def)
      ultimately have "?ns (2 :: nat) d = EINTR" by blast
      then show False by (simp add: EINTR_def)
    qed
    moreover have "k' \<noteq> 2" if "k = 1"
      using \<open>sleeps_until ?ns d k k'\<close> that by (auto simp: sleeps_until_def EINTR_def)
    ultimately show ?thesis using \<open>sleeps_until ?ns d k k'\<close> by (auto simp: sleeps_until_def)
  qed
  have "K (Suc 0) = 1" using next_call [OF K(2) [rule_format, of 0]] K(1) by simp
  moreover from this have "K (Suc (Suc 0)) = 3" using next_call [OF K(2) [rule_format, of "Suc 0"]] by simp
  moreover from this have "K (Suc (Suc (Suc 0))) = 4" using next_call [OF K(2) [rule_format, of "Suc (Suc 0)"]] by simp
  ultimately have K': "K 0 = 0" "K (Suc 0) = 1" "K (Suc (Suc 0)) = 3" "K (Suc (Suc (Suc 0))) = 4" using K(1) by simp_all
  have "concat (map (seqgenex0_cycle ?D K) [0..<3]) @ shutdown_spec seqgenex0_rates =
      [Sleep (?D 0), Post 0, Post 1, Post 2, Sleep (?D 1), Sleep (?D 1), Sleep (?D 2), Post 0,
       Post 0, Post 1, Post 2, Abort 0, Abort 1, Abort 2]"
  proof -
    have due: "due seqgenex0_rates 0 = [0, 1, 2]" "due seqgenex0_rates (Suc 0) = []" "due seqgenex0_rates (Suc (Suc 0)) = [0]"
      by (simp_all add: due_def seqgenex0_rates_def upt_rec dvd_eq_mod_eq_0)
    have shut: "shutdown_spec seqgenex0_rates = [Post 0, Post 1, Post 2, Abort 0, Abort 1, Abort 2]"
      by (simp add: shutdown_spec_def seqgenex0_rates_def upt_rec)
    have "[0..<3] = [0, Suc 0, Suc (Suc 0)]" by (simp add: upt_rec)
    then show ?thesis using K' by (simp add: seqgenex0_cycle_def due shut numeral_eq_Suc)
  qed
  then show ?thesis unfolding K(3) by blast
qed

section \<open>Release counts of complete runs\<close>

lemma count_filter_not_sleep: "count_list (filter (\<lambda>a. \<not> is_sleep a) as) (Post i) = count_list as (Post i)"
  by (induction as) auto

lemma full_seqgen: "last_cycle (\<lambda>_. False) seqgen_periods 900"
  using last_cycle_full [of 900] by (simp add: seqgen_periods_def)

lemma full_seqgen2: "last_cycle (\<lambda>_. False) seqgen2_periods 2000"
  using last_cycle_full [of 2000] by (simp add: seqgen2_periods_def)

lemma full_seqgen3: "last_cycle (\<lambda>_. False) seqgen3_periods 2000"
  using last_cycle_full [of 2000] by (simp add: seqgen3_periods_def)

lemma full_seqgenex0: "last_cycle (\<lambda>_. False) RTSEQ_PERIODS 2400"
  using last_cycle_full [of 2400] by (simp add: RTSEQ_PERIODS_def)

text \<open>
  A complete run of seqgen.c (900 cycles of 33.3 ms, no failed sleep) ends normally and
  releases the services 91, 31, 16, 31, 16, 31 and 4 times.
\<close>
theorem seqgen_release_counts:
  assumes "\<And>k. fst (ns k) = 0" and "0 < fuel"
  shows "\<exists>as. seqgen_Sequencer fuel ns (\<lambda>_. False) seqgen_periods 0 0 = Some (as, None) \<and>
    map (\<lambda>i. count_list as (Post i)) [0..<7] = [91, 31, 16, 31, 16, 31, 4]"
proof -
  have "nanosleep_ok ns" using assms(1) by (simp add: nanosleep_ok_def)
  from seqgen_Sequencer_from [OF this assms(2) full_seqgen, of 0]
  have "seqgen_Sequencer fuel ns (\<lambda>_. False) seqgen_periods 0 0 =
      Some (run_spec seqgen_delay_time seqgen_rates 900, None)"
    by (simp add: seq_outcome_all_ok assms(1))
  then show ?thesis by (simp add: upt_rec count_run_spec seqgen_rates_def)
qed

theorem seqgen_release_counts_witness:
  "\<exists>as. seqgen_Sequencer 1 (\<lambda>_. (0, seqgen_delay_time)) (\<lambda>_. False) seqgen_periods 0 0 = Some (as, None) \<and>
    map (\<lambda>i. count_list as (Post i)) [0..<7] = [91, 31, 16, 31, 16, 31, 4]"
  by (rule seqgen_release_counts) simp_all

text \<open>
  A complete run of seqgen2.c (2000 cycles of 10 ms, that is 20 s) releases the services
  at 50, 20, 10, 5, 2, 1 and 1 Hz, and each once more at the end.
\<close>
theorem seqgen2_release_counts:
  assumes "\<And>k. ns k = 0"
  shows "\<exists>as. seqgen2_Sequencer ns (\<lambda>_. False) seqgen2_periods 0 0 = (as, None) \<and>
    map (\<lambda>i. count_list as (Post i)) [0..<7] =
      map (\<lambda>hz. 20 * hz + 1) [50, 20, 10, 5, 2, 1, 1]"
proof -
  from seqgen2_Sequencer_from [OF full_seqgen2, of 0 ns]
  have "seqgen2_Sequencer ns (\<lambda>_. False) seqgen2_periods 0 0 =
      (run_spec seqgen2_delay_time seqgen2_rates 2000, None)"
    by (simp add: seq_outcome_all_ok assms(1))
  then show ?thesis by (simp add: upt_rec count_run_spec seqgen2_rates_def)
qed

theorem seqgen2_release_counts_witness:
  "\<exists>as. seqgen2_Sequencer (\<lambda>_. 0) (\<lambda>_. False) seqgen2_periods 0 0 = (as, None) \<and>
    map (\<lambda>i. count_list as (Post i)) [0..<7] =
      map (\<lambda>hz. 20 * hz + 1) [50, 20, 10, 5, 2, 1, 1]"
  by (rule seqgen2_release_counts) simp

text \<open>
  A complete run of seqgen3.c releases service 4 at 5 Hz and service 7 at 1 Hz for 20 s,
  and every other service only once, at the end.
\<close>
theorem seqgen3_release_counts:
  assumes "2000 \<le> m"
  shows "map (\<lambda>i. count_list (seqgen3_signals (\<lambda>_. False) seqgen3_periods m 0) (Post i)) [0..<7] =
    [1, 1, 1, 20 * 5 + 1, 1, 1, 20 * 1 + 1]"
proof -
  have "seqgen3_signals (\<lambda>_. False) seqgen3_periods m 0 =
      cycles_spec (it_value seqgen3_itime) seqgen3_rates 1 2000 @
      Settime itimer_off # shutdown_spec seqgen3_rates"
    using seqgen3_signals_from [OF full_seqgen3, of 0 m] assms by simp
  then show ?thesis
    by (simp add: upt_rec count_cycles_spec [simplified] count_shutdown_Post seqgen3_rates_def)
qed

theorem seqgen3_release_counts_witness:
  "map (\<lambda>i. count_list (seqgen3_signals (\<lambda>_. False) seqgen3_periods 2000 0) (Post i)) [0..<7] =
    [1, 1, 1, 20 * 5 + 1, 1, 1, 20 * 1 + 1]"
  by (rule seqgen3_release_counts) simp

lemma count_due_from_0:
  assumes "i < length periods" and "0 < periods ! i"
  shows "count_list (concat (map (\<lambda>c. map Post (due periods c)) [0..<n])) (Post i) =
    (n + periods ! i - 1) div periods ! i"
proof -
  have "count_list (concat (map (\<lambda>c. map Post (due periods c)) [0..<n])) (Post i) =
      length (filter (\<lambda>c. c mod periods ! i = 0) [0..<n])"
    using assms
    by (simp add: count_list_concat comp_def count_list_Post_due sum_list_indicator
        dvd_eq_mod_eq_0)
  then show ?thesis using assms by (simp only: count_multiples_from_0)
qed

text \<open>
  A complete run of seqgenex0.c (2400 cycles of 10 ms, that is 24 s) releases the services
  at 50, 10 and 6.67 Hz (1200, 240 and 160 times), and each once more at the end.
\<close>
theorem seqgenex0_release_counts:
  assumes "clock_nanosleep_ok fuel ns"
  shows "\<exists>as. seqgenex0_Sequencer fuel ns tm0 tm rt st (\<lambda>_. False) RTSEQ_PERIODS = Some (as, None) \<and>
    map (\<lambda>i. count_list as (Post i)) [0..<3] = [1201, 241, 161]"
proof -
  obtain as where as: "seqgenex0_Sequencer fuel ns tm0 tm rt st (\<lambda>_. False) RTSEQ_PERIODS =
      Some (as @ shutdown_spec seqgenex0_rates, None)"
    "filter (\<lambda>a. \<not> is_sleep a) as = concat (map (\<lambda>c. map Post (due seqgenex0_rates c)) [0..<2400])"
    using seqgenex0_run_posts [OF assms full_seqgenex0, of tm0 tm rt st] by blast
  have "count_list (as @ shutdown_spec seqgenex0_rates) (Post i) =
      (2400 + seqgenex0_rates ! i - 1) div seqgenex0_rates ! i + 1"
    if "i < length seqgenex0_rates" "0 < seqgenex0_rates ! i" for i
    using that by (simp add: count_filter_not_sleep [symmetric, of as] as(2) count_due_from_0
        count_shutdown_Post)
  then have "map (\<lambda>i. count_list (as @ shutdown_spec seqgenex0_rates) (Post i)) [0..<3] = [1201, 241, 161]"
    by (simp add: upt_rec seqgenex0_rates_def del: count_list_append)
  with as(1) show ?thesis by (intro exI conjI)
qed

theorem seqgenex0_release_counts_witness:
  "\<exists>as. seqgenex0_Sequencer 1 (\<lambda>_ _. 0) seqgen_delay_time (\<lambda>_. seqgen_delay_time)
      (\<lambda>_. seqgen_delay_time) 0 (\<lambda>_. False) RTSEQ_PERIODS = Some (as, None) \<and>
    map (\<lambda>i. count_list as (Post i)) [0..<3] = [1201, 241, 161]"
  by (rule seqgenex0_release_counts) (simp add: clock_nanosleep_ok_def EINTR_def)

section \<open>The absolute deadlines of seqgenex0.c\<close>

text \<open>
  The deadline computed by seqgenex0.c is exactly the current time plus the delay, and it
  is a valid time value except when the sum of the nanoseconds is negative, at least two
  seconds, or exactly one second: the carry is taken on \<open>>\<close>, not on \<open>\<ge>\<close>.
\<close>
theorem seqgenex0_deadline_exact:
  "ts_ns (seqgenex0_deadline t d) = ts_ns t + d \<and>
   (ts_valid (seqgenex0_deadline t d) \<longleftrightarrow>
      0 \<le> tv_nsec t + d \<and> tv_nsec t + d < 2 * NANOSEC_PER_SEC \<and> tv_nsec t + d \<noteq> NANOSEC_PER_SEC)"
  by (auto simp: seqgenex0_deadline_def ts_ns_def ts_valid_def NANOSEC_PER_SEC_def Let_def)

text \<open>
  When the sum is exactly one second, a \<open>clock_nanosleep\<close> that rejects invalid times with
  \<open>EINVAL\<close>, as documented, makes the delay loop of seqgenex0.c return at once, as if it had
  slept: the error test \<open>rc < 0\<close> never holds.
\<close>
theorem seqgenex0_delay_boundary:
  assumes "\<And>k d. \<not> ts_valid d \<Longrightarrow> ns k d = EINVAL" and "tv_nsec t + d = NANOSEC_PER_SEC"
  shows "seqgenex0_delay (Suc fuel) ns k (seqgenex0_deadline t d) = Some (Suc k, None)"
proof -
  have "\<not> ts_valid (seqgenex0_deadline t d)"
    using assms(2) by (simp add: seqgenex0_deadline_def ts_valid_def Let_def)
  then show ?thesis using assms(1) by (simp add: EINVAL_def EINTR_def)
qed

theorem seqgenex0_delay_boundary_witness:
  "seqgenex0_delay (Suc 0) (\<lambda>k d. if ts_valid d then 0 else EINVAL) 0
     (seqgenex0_deadline \<lparr>tv_sec = 7, tv_nsec = 990100000\<rparr> 9900000) = Some (Suc 0, None)"
  by (rule seqgenex0_delay_boundary) (simp_all add: NANOSEC_PER_SEC_def)

text \<open>
  Drift control: a cycle that took \<open>e\<close> nanoseconds longer than 10 ms, for a multiple
  \<open>e = 2000 m\<close>, is followed by a delay shortened by \<open>e\<close>, by a further half per mille of
  \<open>e\<close> (which is \<open>m\<close> nanoseconds) and by the fixed bias of 0.1 ms.
\<close>
theorem seqgenex0_delay_drift:
  "seqgenex0_delay_nsec
     (t + seqgenex0_delta_t + of_int (2000 * m) / of_int NANOSEC_PER_SEC) t =
   RTSEQ_DELAY_NSEC - 2000 * m - m - CLOCK_BIAS_NANOSEC"
proof -
  have "of_int RTSEQ_DELAY_NSEC - (of_int (2000 * m) / of_int NANOSEC_PER_SEC) *
      of_int (NANOSEC_PER_SEC + DT_SCALING_UNCERTAINTY_NANOSEC) - of_int CLOCK_BIAS_NANOSEC =
      (of_int (RTSEQ_DELAY_NSEC - 2000 * m - m - CLOCK_BIAS_NANOSEC) :: rat)"
    by (simp add: NANOSEC_PER_SEC_def DT_SCALING_UNCERTAINTY_NANOSEC_def)
  then show ?thesis by (simp add: seqgenex0_delay_nsec_def Let_def del: of_int_diff of_int_mult)
qed

end
