(* ===== verification/Seq_System.thy ===== *)
theory Seq_System
  imports Seq_Runs
begin

text \<open>
  The interleaving of a sequencer with its service threads. The state holds the sequencer's
  remaining actions, the semaphores, the abort flags, and the program counter and release
  counter of every service; a step is one action of one thread. Which interleavings are
  possible depends on the scheduling: any (the threads run on several cores), or only those in
  which a service runs while the sequencer sleeps or has ended (all threads share one core and
  the sequencer has the highest priority).
\<close>

section \<open>The threads\<close>

text \<open>Before the start-up log line, at the loop test, at \<open>sem_wait\<close>, after \<open>pthread_exit\<close>.\<close>

datatype svc_pc = S_Start | S_Test | S_Wait | S_Exit

datatype svc_event = Started nat string | Released nat string u64

record sys =
  acts :: "seq_act list"
  sems :: "nat list"
  aborts :: "bool list"
  pcs :: "svc_pc list"
  cnts :: "u64 list"
  slog :: "svc_event list"

datatype thread = Seq | Svc nat

definition sys_init :: "service list \<Rightarrow> seq_act list \<Rightarrow> sys" where
  "sys_init svcs as =
     \<lparr>acts = as, sems = replicate (length svcs) 0, aborts = replicate (length svcs) False,
      pcs = replicate (length svcs) S_Start, cnts = replicate (length svcs) 0, slog = []\<rparr>"

fun seq_step :: "sys \<Rightarrow> sys option" where
  "seq_step s =
     (case acts s of
        [] \<Rightarrow> None
      | Sleep t # as \<Rightarrow> Some (s\<lparr>acts := as\<rparr>)
      | Post i # as \<Rightarrow> Some (s\<lparr>acts := as, sems := (sems s)[i := sem_post (sems s ! i)]\<rparr>)
      | Abort i # as \<Rightarrow> Some (s\<lparr>acts := as, aborts := (aborts s)[i := True]\<rparr>)
      | Settime t # as \<Rightarrow> Some (s\<lparr>acts := as\<rparr>))"

text \<open>One step of thread \<open>i\<close>, which runs the service \<open>sv\<close>; \<open>None\<close> when it is blocked in
  \<open>sem_wait\<close> or has exited.\<close>

fun service_step :: "service \<Rightarrow> nat \<Rightarrow> sys \<Rightarrow> sys option" where
  "service_step sv i s =
     (case pcs s ! i of
        S_Start \<Rightarrow> Some (s\<lparr>pcs := (pcs s)[i := S_Test],
                          slog := slog s @ map (Started i) (sv_start sv)\<rparr>)
      | S_Test \<Rightarrow> Some (s\<lparr>pcs := (pcs s)[i := if aborts s ! sv_abort sv then S_Exit else S_Wait]\<rparr>)
      | S_Wait \<Rightarrow>
          (case sem_wait (sems s ! sv_sem sv) of
             None \<Rightarrow> None
           | Some v \<Rightarrow>
               (let cnt = cnts s ! i + 1
                in Some (s\<lparr>sems := (sems s)[sv_sem sv := v], cnts := (cnts s)[i := cnt],
                           slog := slog s @ [Released i (sv_release sv) cnt],
                           pcs := (pcs s)[i := S_Test]\<rparr>)))
      | S_Exit \<Rightarrow> None)"

fun sys_step :: "service list \<Rightarrow> thread \<Rightarrow> sys \<Rightarrow> sys option" where
  "sys_step svcs Seq s = seq_step s"
| "sys_step svcs (Svc i) s = (if i < length svcs then service_step (svcs ! i) i s else None)"

fun sys_run :: "service list \<Rightarrow> thread list \<Rightarrow> sys \<Rightarrow> sys option" where
  "sys_run svcs [] s = Some s"
| "sys_run svcs (w # ws) s =
     (case sys_step svcs w s of None \<Rightarrow> None | Some s' \<Rightarrow> sys_run svcs ws s')"

section \<open>Scheduling\<close>

text \<open>With one core and the sequencer at the highest priority, a service runs only while the
  sequencer sleeps or after it has ended.\<close>

fun prio_allowed :: "thread \<Rightarrow> sys \<Rightarrow> bool" where
  "prio_allowed Seq s = True"
| "prio_allowed (Svc i) s = (case acts s of [] \<Rightarrow> True | a # as \<Rightarrow> is_sleep a)"

inductive reach :: "(thread \<Rightarrow> sys \<Rightarrow> bool) \<Rightarrow> service list \<Rightarrow> seq_act list \<Rightarrow> sys \<Rightarrow> bool"
  for allowed :: "thread \<Rightarrow> sys \<Rightarrow> bool" and svcs :: "service list" and as :: "seq_act list" where
  reach_init: "reach allowed svcs as (sys_init svcs as)"
| reach_step: "reach allowed svcs as s \<Longrightarrow> allowed w s \<Longrightarrow> sys_step svcs w s = Some s' \<Longrightarrow>
    reach allowed svcs as s'"

definition all_exited :: "sys \<Rightarrow> bool" where
  "all_exited s \<longleftrightarrow> acts s = [] \<and> list_all (\<lambda>p. p = S_Exit) (pcs s)"

section \<open>Step lemmas\<close>

inductive_cases reachE: "reach allowed svcs as s"

lemma seq_step_None_iff: "seq_step s = None \<longleftrightarrow> acts s = []"
  by (auto split: list.splits seq_act.splits)

lemma seq_stepE:
  assumes "seq_step s = Some s'"
  obtains t as where "acts s = Sleep t # as" "s' = s\<lparr>acts := as\<rparr>"
  | i as where "acts s = Post i # as" "s' = s\<lparr>acts := as, sems := (sems s)[i := sem_post (sems s ! i)]\<rparr>"
  | i as where "acts s = Abort i # as" "s' = s\<lparr>acts := as, aborts := (aborts s)[i := True]\<rparr>"
  | t as where "acts s = Settime t # as" "s' = s\<lparr>acts := as\<rparr>"
  using assms by (auto split: list.splits seq_act.splits)

lemma service_stepE:
  assumes "service_step sv i s = Some s'"
  obtains (start) "pcs s ! i = S_Start"
      "s' = s\<lparr>pcs := (pcs s)[i := S_Test], slog := slog s @ map (Started i) (sv_start sv)\<rparr>"
  | (abort) "pcs s ! i = S_Test" "aborts s ! sv_abort sv" "s' = s\<lparr>pcs := (pcs s)[i := S_Exit]\<rparr>"
  | (loop) "pcs s ! i = S_Test" "\<not> aborts s ! sv_abort sv" "s' = s\<lparr>pcs := (pcs s)[i := S_Wait]\<rparr>"
  | (release) v where "pcs s ! i = S_Wait" "sems s ! sv_sem sv = Suc v"
      "s' = s\<lparr>sems := (sems s)[sv_sem sv := v], cnts := (cnts s)[i := cnts s ! i + 1],
              slog := slog s @ [Released i (sv_release sv) (cnts s ! i + 1)],
              pcs := (pcs s)[i := S_Test]\<rparr>"
  using assms
  by (auto simp: Let_def sem_wait_Some_iff split: svc_pc.splits option.splits if_splits)

declare seq_step.simps [simp del] service_step.simps [simp del]

definition sys_shape :: "nat \<Rightarrow> sys \<Rightarrow> bool" where
  "sys_shape n s \<longleftrightarrow> length (sems s) = n \<and> length (aborts s) = n \<and> length (pcs s) = n \<and> length (cnts s) = n"

lemma sys_shape_init [simp]: "sys_shape (length svcs) (sys_init svcs as)"
  by (simp add: sys_shape_def sys_init_def)

lemma sys_shape_step:
  assumes "sys_step svcs w s = Some s'" and "sys_shape n s"
  shows "sys_shape n s'"
  using assms
  by (cases w) (auto simp: sys_shape_def split: if_splits elim!: seq_stepE service_stepE)

lemma reach_shape: "reach allowed svcs as s \<Longrightarrow> sys_shape (length svcs) s"
  by (induction rule: reach.induct) (auto intro: sys_shape_step)

section \<open>Termination\<close>

text \<open>Every step decreases this number: each post can be consumed once, and a service that does
  not consume a post is on its way to \<open>sem_wait\<close> or to its exit.\<close>

fun pc_weight :: "svc_pc \<Rightarrow> nat" where
  "pc_weight S_Start = 3"
| "pc_weight S_Test = 2"
| "pc_weight S_Wait = 1"
| "pc_weight S_Exit = 0"

definition sys_size :: "sys \<Rightarrow> nat" where
  "sys_size s = 3 * length (acts s) + 2 * sum_list (sems s) + sum_list (map pc_weight (pcs s))"

lemma sum_list_update_nat:
  fixes xs :: "nat list"
  assumes "i < length xs"
  shows "sum_list (xs[i := v]) + xs ! i = sum_list xs + v"
  using assms by (induction xs arbitrary: i) (auto split: nat.splits)

lemma sum_pc_update:
  "i < length ps \<Longrightarrow>
   sum_list (map pc_weight (ps[i := p])) + pc_weight (ps ! i) = sum_list (map pc_weight ps) + pc_weight p"
  using sum_list_update_nat [of i "map pc_weight ps" "pc_weight p"] by (simp add: map_update)

lemma sum_sem_post: "2 * sum_list (xs[i := sem_post (xs ! i)]) < 3 + 2 * sum_list xs"
  using sum_list_update_nat [of i xs "sem_post (xs ! i)"] sem_post_le [of "xs ! i"]
  by (cases "i < length xs") (auto simp: list_update_beyond)


section \<open>A service table\<close>

text \<open>The numbers of the releases that service \<open>i\<close> has logged.\<close>

fun release_nos :: "nat \<Rightarrow> svc_event list \<Rightarrow> u64 list" where
  "release_nos i [] = []"
| "release_nos i (Started j m # es) = release_nos i es"
| "release_nos i (Released j m c # es) = (if j = i then c # release_nos i es else release_nos i es)"

lemma release_nos_append [simp]: "release_nos i (xs @ ys) = release_nos i xs @ release_nos i ys"
  by (induction i xs rule: release_nos.induct) simp_all

lemma release_nos_Started [simp]: "release_nos i (map (Started j) ms) = []"
  by (induction ms) simp_all

text \<open>Conservation of releases: what a service has logged and what its semaphore holds are
  together the posts performed.\<close>

definition conserved :: "nat \<Rightarrow> seq_act list \<Rightarrow> sys \<Rightarrow> bool" where
  "conserved n as s \<longleftrightarrow>
     (\<exists>done. as = done @ acts s \<and>
       (\<forall>i<n. \<exists>m. release_nos i (slog s) = map of_nat [1..<Suc m] \<and>
          cnts s ! i = of_nat m \<and> m + sems s ! i = count_list done (Post i)))"

text \<open>
  What a program promises of its services: thread \<open>i\<close> waits for the \<open>i\<close>-th semaphore and tests
  the \<open>i\<close>-th flag. The lemmas about every interleaving are proved from this.
\<close>

locale service_table =
  fixes svcs :: "service list"
  assumes sem_own: "i < length svcs \<Longrightarrow> sv_sem (svcs ! i) = i"
    and abort_own: "i < length svcs \<Longrightarrow> sv_abort (svcs ! i) = i"
begin

lemma step_size:
  assumes "sys_step svcs w s = Some s'" and "sys_shape (length svcs) s"
  shows "sys_size s' < sys_size s"
proof (cases w)
  case Seq
  then have "seq_step s = Some s'" using assms(1) by simp
  then show ?thesis
    by (cases rule: seq_stepE) (auto simp: sys_size_def sum_sem_post)
next
  case (Svc i)
  with assms have i: "i < length svcs" and step: "service_step (svcs ! i) i s = Some s'"
    by (auto split: if_splits)
  then have ip: "i < length (pcs s)" "i < length (sems s)"
    using assms(2) by (simp_all add: sys_shape_def)
  note pc = sum_pc_update [OF ip(1)]
  from step show ?thesis
  proof (cases rule: service_stepE)
    case (release v)
    then show ?thesis
      using pc [of S_Test] sum_list_update_nat [OF ip(2), of v] i by (simp add: sys_size_def sem_own)
  next
    case start
    then show ?thesis using pc [of S_Test] by (simp add: sys_size_def)
  next
    case abort
    then show ?thesis using pc [of S_Exit] by (simp add: sys_size_def)
  next
    case loop
    then show ?thesis using pc [of S_Wait] by (simp add: sys_size_def)
  qed
qed

lemma run_size:
  assumes "sys_run svcs ws s = Some s'" and "sys_shape (length svcs) s"
  shows "length ws + sys_size s' \<le> sys_size s"
  using assms
proof (induction ws arbitrary: s)
  case (Cons w ws)
  then obtain s1 where "sys_step svcs w s = Some s1" "sys_run svcs ws s1 = Some s'"
    by (auto split: option.splits)
  with Cons show ?case using step_size [of w s s1] sys_shape_step [of svcs w s s1] by fastforce
qed simp

text \<open>Every schedule of a program is finite, with this bound on its length.\<close>

lemma run_bounded:
  assumes "sys_run svcs ws (sys_init svcs as) = Some s'"
  shows "length ws \<le> 3 * (length as + length svcs)"
  using run_size [OF assms]
  by (simp add: sys_size_def sys_init_def sum_list_replicate sys_shape_def)

lemma conserved_seq:
  assumes "seq_step s = Some s'" and "conserved (length svcs) as s" and "sys_shape (length svcs) s"
    and "\<And>i. count_list as (Post i) < SEM_VALUE_MAX"
  shows "conserved (length svcs) as s'"
proof -
  obtain dn where dn: "as = dn @ acts s" and
    each: "\<And>i. i < length svcs \<Longrightarrow> \<exists>m. release_nos i (slog s) = map of_nat [1..<Suc m] \<and>
      cnts s ! i = of_nat m \<and> m + sems s ! i = count_list dn (Post i)"
    using assms(2) by (auto simp: conserved_def)
  obtain a where a: "acts s = a # acts s'" using assms(1) by (cases rule: seq_stepE) auto
  have keep: "slog s' = slog s" "cnts s' = cnts s" using assms(1) by (cases rule: seq_stepE; simp)+
  have sem: "sems s' ! i = sems s ! i + count_list [a] (Post i)" if "i < length svcs" for i
  proof -
    have "sems s ! i \<le> count_list dn (Post i)" using each [OF that] by auto
    also have "\<dots> \<le> count_list as (Post i)" by (simp add: dn)
    finally have "sems s ! i < SEM_VALUE_MAX" using assms(4) le_less_trans by blast
    with assms(1) a that assms(3) show ?thesis
      by (cases rule: seq_stepE) (auto simp: sys_shape_def, metis nth_list_update_neq)
  qed
  have "as = (dn @ [a]) @ acts s'" using dn a by simp
  moreover have "\<exists>m. release_nos i (slog s') = map of_nat [1..<Suc m] \<and>
      cnts s' ! i = of_nat m \<and> m + sems s' ! i = count_list (dn @ [a]) (Post i)"
    if "i < length svcs" for i
    using each [OF that] sem [OF that] by (auto simp: keep)
  ultimately show ?thesis unfolding conserved_def by blast
qed

lemma conserved_service:
  assumes "service_step (svcs ! k) k s = Some s'" and "k < length svcs" and "conserved (length svcs) as s"
    and "sys_shape (length svcs) s"
  shows "conserved (length svcs) as s'"
proof -
  have [simp]: "k < length (sems s)" "k < length (cnts s)" "sv_sem (svcs ! k) = k"
    using assms by (simp_all add: sys_shape_def sem_own)
  have acts: "acts s' = acts s" using assms(1) by (cases rule: service_stepE) auto
  have "\<exists>m. release_nos i (slog s') = map of_nat [1..<Suc m] \<and>
      cnts s' ! i = of_nat m \<and> m + sems s' ! i = q"
    if h: "\<exists>m. release_nos i (slog s) = map of_nat [1..<Suc m] \<and>
      cnts s ! i = of_nat m \<and> m + sems s ! i = q" for i q
    using assms(1)
  proof (cases rule: service_stepE)
    case (release v)
    obtain m where m: "release_nos i (slog s) = map of_nat [1..<Suc m]"
      "cnts s ! i = of_nat m" "m + sems s ! i = q" using h by blast
    show ?thesis
    proof (cases "i = k")
      case True
      with m release show ?thesis by (auto intro!: exI [of _ "Suc m"] simp: add.commute)
    next
      case False
      with m release show ?thesis by auto
    qed
  qed (use h in auto)
  with assms(3) show ?thesis unfolding conserved_def acts by blast
qed

lemma reach_conserved:
  assumes "reach allowed svcs as s" and "\<And>i. count_list as (Post i) < SEM_VALUE_MAX"
  shows "conserved (length svcs) as s"
  using assms(1)
proof (induction rule: reach.induct)
  case reach_init
  show ?case by (auto simp: conserved_def sys_init_def intro!: exI [of _ 0])
next
  case (reach_step s w s')
  then show ?case
    using reach_shape [OF reach_step.hyps(1)]
    by (cases w) (auto split: if_splits intro: conserved_seq [OF _ _ _ assms(2)] conserved_service)
qed

end

interpretation seqgen_sys: service_table seqgen_services
  by unfold_locales
    (auto simp: seqgen_services_def less_Suc_eq seqgen_Service_1_def seqgen_Service_2_def
      seqgen_Service_3_def seqgen_Service_4_def seqgen_Service_5_def seqgen_Service_6_def
      seqgen_Service_7_def)

interpretation seqgen2_sys: service_table seqgen2_services
  by unfold_locales
    (auto simp: seqgen2_services_def less_Suc_eq seqgen2_Service_1_def seqgen2_Service_2_def
      seqgen2_Service_3_def seqgen2_Service_4_def seqgen2_Service_5_def seqgen2_Service_6_def
      seqgen2_Service_7_def)

interpretation seqgen3_sys: service_table seqgen3_services
  by unfold_locales
    (auto simp: seqgen3_services_def less_Suc_eq seqgen3_Service_1_def seqgen3_Service_2_def
      seqgen3_Service_3_def seqgen3_Service_4_def seqgen3_Service_5_def seqgen3_Service_6_def
      seqgen3_Service_7_def)

interpretation seqgenex0_sys: service_table seqgenex0_services
  by unfold_locales
    (auto simp: seqgenex0_services_def less_Suc_eq seqgenex0_Service_1_def seqgenex0_Service_2_def
      seqgenex0_Service_3_def)

end
