(* ===== verification/Seq_Shutdown.thy ===== *)
theory Seq_Shutdown
  imports Seq_System
begin

text \<open>
  How a run of sequencer and services ends. When the sequencer shares its core with the
  services at the highest priority, every service exits, so that \<open>main\<close> passes its
  \<open>pthread_join\<close> loop. When the threads run on different cores, a service can consume its last
  release and test its flag again before the flag is set, and then blocks for ever.
\<close>

section \<open>Ending under priority scheduling\<close>

text \<open>Wherever the sequencer sleeps, a post for every service is still ahead.\<close>

fun posts_ahead :: "nat \<Rightarrow> seq_act list \<Rightarrow> bool" where
  "posts_ahead n [] = True"
| "posts_ahead n (a # as) =
     ((is_sleep a \<longrightarrow> list_all (\<lambda>i. Post i \<in> set as) [0..<n]) \<and> posts_ahead n as)"

lemma posts_ahead_append:
  "posts_ahead n ys \<Longrightarrow> list_all (\<lambda>i. Post i \<in> set ys) [0..<n] \<Longrightarrow> posts_ahead n (xs @ ys)"
  by (induction xs) (auto simp: list_all_iff)

lemma posts_ahead_no_sleep: "list_all (\<lambda>a. \<not> is_sleep a) as \<Longrightarrow> posts_ahead n as"
  by (induction as) auto

lemma posts_ahead_shutdown: "posts_ahead (length periods) (xs @ shutdown_spec periods)"
  by (rule posts_ahead_append)
    (auto simp: shutdown_spec_def list_all_iff intro!: posts_ahead_no_sleep)

definition prio_inv :: "nat \<Rightarrow> sys \<Rightarrow> bool" where
  "prio_inv n s \<longleftrightarrow> posts_ahead n (acts s) \<and>
     (\<forall>i<n. (Abort i \<in> set (acts s) \<or> aborts s ! i) \<and>
            (pcs s ! i = S_Wait \<longrightarrow> 0 < sems s ! i \<or> Post i \<in> set (acts s)))"

definition deadlocked :: "service list \<Rightarrow> sys \<Rightarrow> bool" where
  "deadlocked svcs s \<longleftrightarrow>
     list_all (\<lambda>w. sys_step svcs w s = None) (Seq # map Svc [0..<length svcs]) \<and> \<not> all_exited s"

text \<open>No thread that the scheduler may run can make a step.\<close>

definition prio_final :: "service list \<Rightarrow> sys \<Rightarrow> bool" where
  "prio_final svcs s \<longleftrightarrow>
     list_all (\<lambda>w. prio_allowed w s \<longrightarrow> sys_step svcs w s = None) (Seq # map Svc [0..<length svcs])"

lemma prio_inv_seq:
  assumes "seq_step s = Some s'" and "prio_inv n s" and "sys_shape n s"
  shows "prio_inv n s'"
  using assms(1)
proof (cases rule: seq_stepE)
  case (2 i as)
  have "0 < sems s' ! j \<or> Post j \<in> set as" if "j < n" "pcs s' ! j = S_Wait" for j
    using assms(2,3) that 2 by (cases "j = i") (auto simp: prio_inv_def sys_shape_def)
  then show ?thesis using assms(2) 2 by (auto simp: prio_inv_def)
next
  case (3 i as)
  have "Abort j \<in> set as \<or> aborts s' ! j" if "j < n" for j
    using assms(2,3) that 3 by (cases "j = i") (auto simp: prio_inv_def sys_shape_def)
  then show ?thesis using assms(2) 3 by (auto simp: prio_inv_def)
qed (use assms(2) in \<open>auto simp: prio_inv_def\<close>)

context service_table
begin

lemma prio_inv_service:
  assumes "service_step (svcs ! k) k s = Some s'" and "k < length svcs" and "prio_allowed (Svc k) s"
    and "prio_inv (length svcs) s" and "sys_shape (length svcs) s"
  shows "prio_inv (length svcs) s'"
proof -
  have [simp]: "k < length (sems s)" "k < length (pcs s)" "sv_sem (svcs ! k) = k" "sv_abort (svcs ! k) = k"
    using assms(2,5) by (simp_all add: sys_shape_def sem_own abort_own)
  have ahead: "Post k \<in> set (acts s)" if "\<not> aborts s ! k"
  proof (cases "acts s")
    case Nil
    then show ?thesis using that assms(2,4) by (auto simp: prio_inv_def)
  next
    case (Cons a as)
    then show ?thesis using assms(2,3,4) by (auto simp: prio_inv_def list_all_iff)
  qed
  have keep: "acts s' = acts s" "aborts s' = aborts s"
    using assms(1) by (cases rule: service_stepE; simp)+
  have "0 < sems s' ! i \<or> Post i \<in> set (acts s)" if "i < length svcs" "pcs s' ! i = S_Wait" for i
    using assms(1)
  proof (cases rule: service_stepE)
    case loop
    then show ?thesis using that ahead assms(4) by (cases "i = k") (auto simp: prio_inv_def)
  next
    case (release v)
    then show ?thesis using that assms(4) by (cases "i = k") (auto simp: prio_inv_def)
  next
    case start
    then show ?thesis using that assms(4) by (cases "i = k") (auto simp: prio_inv_def)
  next
    case abort
    then show ?thesis using that assms(4) by (cases "i = k") (auto simp: prio_inv_def)
  qed
  then show ?thesis using assms(4) by (auto simp: prio_inv_def keep)
qed

lemma reach_prio_inv:
  assumes "reach prio_allowed svcs as s" and "posts_ahead (length svcs) as"
    and "list_all (\<lambda>i. Abort i \<in> set as) [0..<length svcs]"
  shows "prio_inv (length svcs) s"
  using assms(1)
proof (induction rule: reach.induct)
  case reach_init
  show ?case using assms(2,3) by (auto simp: prio_inv_def sys_init_def list_all_iff)
next
  case (reach_step s w s')
  then show ?case
    using reach_shape [OF reach_step.hyps(1)]
    by (cases w) (auto split: if_splits intro: prio_inv_seq prio_inv_service)
qed

lemma prio_final_exited:
  assumes "reach prio_allowed svcs as s" and "posts_ahead (length svcs) as"
    and "list_all (\<lambda>i. Abort i \<in> set as) [0..<length svcs]" and "prio_final svcs s"
  shows "all_exited s"
proof -
  have inv: "prio_inv (length svcs) s" using reach_prio_inv [OF assms(1-3)] .
  have acts: "acts s = []"
    using assms(4) by (simp add: prio_final_def seq_step_None_iff)
  have "pcs s ! i = S_Exit" if "i < length svcs" for i
  proof -
    have "service_step (svcs ! i) i s = None"
      using assms(4) that acts by (auto simp: prio_final_def list_all_iff)
    moreover have "pcs s ! i = S_Wait \<Longrightarrow> 0 < sems s ! i" using inv that acts by (simp add: prio_inv_def)
    ultimately show ?thesis
      using sem_own [OF that] by (auto simp: service_step.simps sem_wait_def Let_def split: svc_pc.splits if_splits)
  qed
  then show ?thesis
    using acts reach_shape [OF assms(1)] by (simp add: all_exited_def list_all_length sys_shape_def)
qed

text \<open>Every execution can be completed.\<close>

lemma allowed_final_exists:
  "reach A svcs as s \<Longrightarrow>
   \<exists>s'. reach A svcs as s' \<and> list_all (\<lambda>w. A w s' \<longrightarrow> sys_step svcs w s' = None) (Seq # map Svc [0..<length svcs])"
proof (induction "sys_size s" arbitrary: s rule: less_induct)
  case less
  show ?case
  proof (cases "list_all (\<lambda>w. A w s \<longrightarrow> sys_step svcs w s = None) (Seq # map Svc [0..<length svcs])")
    case False
    then have "\<exists>w. A w s \<and> sys_step svcs w s \<noteq> None" unfolding list_all_iff by blast
    then obtain w s' where "A w s" "sys_step svcs w s = Some s'" by blast
    moreover from this have "sys_size s' < sys_size s"
      using step_size reach_shape [OF less.prems] by blast
    ultimately show ?thesis using less.hyps reach_step [OF less.prems] by blast
  qed (use less.prems in blast)
qed

lemma prio_final_exists:
  "reach prio_allowed svcs as s \<Longrightarrow> \<exists>s'. reach prio_allowed svcs as s' \<and> prio_final svcs s'"
  unfolding prio_final_def by (rule allowed_final_exists)

section \<open>The race at the end with free interleaving\<close>

lemma run_append: "sys_run svcs (xs @ ys) s =
  (case sys_run svcs xs s of None \<Rightarrow> None | Some s' \<Rightarrow> sys_run svcs ys s')"
  by (induction xs arbitrary: s) (auto split: option.splits)

lemma run_reach:
  assumes "sys_run svcs ws s = Some s'" and "reach (\<lambda>_ _. True) svcs as s"
  shows "reach (\<lambda>_ _. True) svcs as s'"
  using assms
proof (induction ws arbitrary: s)
  case (Cons w ws)
  then obtain s1 where s1: "sys_step svcs w s = Some s1" "sys_run svcs ws s1 = Some s'"
    by (auto split: option.splits)
  have "reach (\<lambda>_ _. True) svcs as s1"
    using reach_step [of "\<lambda>_ _. True"] Cons.prems(2) s1(1) by blast
  with Cons.IH s1(2) show ?case by blast
qed simp

text \<open>The sequencer alone performs its next actions.\<close>

lemma run_seq_alone:
  assumes "acts s = xs @ ys" and "k < length (sems s)"
    and "sems s ! k + count_list xs (Post k) < SEM_VALUE_MAX" and "Abort k \<notin> set xs"
  shows "\<exists>s'. sys_run svcs (replicate (length xs) Seq) s = Some s' \<and> acts s' = ys \<and> pcs s' = pcs s \<and>
    sems s' ! k = sems s ! k + count_list xs (Post k) \<and> aborts s' ! k = aborts s ! k \<and>
    length (sems s') = length (sems s)"
  using assms
proof (induction xs arbitrary: s)
  case (Cons x xs)
  obtain s1 where s1: "seq_step s = Some s1" "acts s1 = xs @ ys" "pcs s1 = pcs s"
    "sems s1 ! k = sems s ! k + count_list [x] (Post k)" "aborts s1 ! k = aborts s ! k"
    "length (sems s1) = length (sems s)"
  proof (cases x)
    case (Post i)
    then show ?thesis
      using Cons.prems that by (cases "i = k") (auto simp: seq_step.simps)
  next
    case (Abort i)
    then show ?thesis using Cons.prems that by (cases "i = k") (auto simp: seq_step.simps)
  qed (use Cons.prems that in \<open>auto simp: seq_step.simps\<close>)
  moreover have "\<exists>s'. sys_run svcs (replicate (length xs) Seq) s1 = Some s' \<and> acts s' = ys \<and>
    pcs s' = pcs s1 \<and> sems s' ! k = sems s1 ! k + count_list xs (Post k) \<and>
    aborts s' ! k = aborts s1 ! k \<and> length (sems s') = length (sems s1)"
    using Cons.prems s1 by (intro Cons.IH) auto
  ultimately show ?case by auto
qed simp

text \<open>The service alone consumes all its releases and is back at its loop test.\<close>

lemma run_service_drain:
  assumes "k < length svcs" and "k < length (sems s)" and "k < length (pcs s)"
    and "pcs s ! k = S_Test" and "\<not> aborts s ! k" and "sems s ! k = m"
  shows "\<exists>s'. sys_run svcs (replicate (2 * m) (Svc k)) s = Some s' \<and> pcs s' ! k = S_Test \<and>
    sems s' ! k = 0 \<and> acts s' = acts s \<and> aborts s' = aborts s \<and> length (pcs s') = length (pcs s)"
  using assms(2-)
proof (induction m arbitrary: s)
  case (Suc m)
  let ?s1 = "s\<lparr>pcs := (pcs s)[k := S_Wait]\<rparr>"
  have 1: "sys_step svcs (Svc k) s = Some ?s1"
    using Suc.prems assms(1) by (simp add: service_step.simps abort_own)
  obtain s2 where 2: "sys_step svcs (Svc k) ?s1 = Some s2" "pcs s2 ! k = S_Test" "sems s2 ! k = m"
    "acts s2 = acts s" "aborts s2 = aborts s" "length (pcs s2) = length (pcs s)"
    "length (sems s2) = length (sems s)"
    using Suc.prems assms(1) by (simp add: service_step.simps sem_own sem_wait_def Let_def)
  have "\<exists>s'. sys_run svcs (replicate (2 * m) (Svc k)) s2 = Some s' \<and> pcs s' ! k = S_Test \<and>
    sems s' ! k = 0 \<and> acts s' = acts s2 \<and> aborts s' = aborts s2 \<and> length (pcs s') = length (pcs s2)"
    using Suc.prems 2 by (intro Suc.IH) simp_all
  then show ?case using 1 2 by (simp del: sys_step.simps)
qed simp

lemma blocked_stays:
  assumes "sys_step svcs w s = Some s'" and "k < length svcs"
    and "acts s = []" and "pcs s ! k = S_Wait" and "sems s ! k = 0"
  shows "acts s' = []" and "pcs s' ! k = S_Wait" and "sems s' ! k = 0"
proof -
  have "acts s' = [] \<and> pcs s' ! k = S_Wait \<and> sems s' ! k = 0"
  proof (cases w)
    case Seq
    then show ?thesis using assms(1,3) by (simp add: seq_step.simps)
  next
    case (Svc i)
    then have i: "i < length svcs" "service_step (svcs ! i) i s = Some s'"
      using assms(1) by (auto split: if_splits)
    from i(2) have "i \<noteq> k" using assms(4,5) i(1)
      by (auto simp: service_step.simps sem_own sem_wait_def)
    with i(2) show ?thesis
      using assms(3-5) i(1) by (cases rule: service_stepE) (auto simp: sem_own)
  qed
  then show "acts s' = []" "pcs s' ! k = S_Wait" "sems s' ! k = 0" by simp_all
qed

text \<open>From a state in which one service is blocked and the sequencer has ended, the other
  services run to their end or block too.\<close>

lemma blocked_deadlock:
  assumes "k < length svcs" and "acts s = []" and "pcs s ! k = S_Wait" and "sems s ! k = 0"
    and "reach (\<lambda>_ _. True) svcs as s"
  shows "\<exists>s'. reach (\<lambda>_ _. True) svcs as s' \<and> deadlocked svcs s' \<and> pcs s' ! k = S_Wait"
  using assms(2-)
proof (induction "sys_size s" arbitrary: s rule: less_induct)
  case less
  have shape: "sys_shape (length svcs) s" using reach_shape less.prems(4) .
  show ?case
  proof (cases "\<exists>w s'. sys_step svcs w s = Some s'")
    case True
    then obtain w s' where w: "sys_step svcs w s = Some s'" by blast
    have "reach (\<lambda>_ _. True) svcs as s'" using reach_step [OF less.prems(4) _ w] by simp
    then show ?thesis
      using less.hyps [OF step_size [OF w shape]] blocked_stays [OF w assms(1) less.prems(1-3)] by blast
  next
    case False
    have "\<not> all_exited s"
      using less.prems(2) assms(1) shape by (auto simp: all_exited_def list_all_length sys_shape_def)
    with False have "deadlocked svcs s" by (auto simp: deadlocked_def list_all_iff)
    with less.prems show ?thesis by blast
  qed
qed

lemma shutdown_race:
  assumes "k < length svcs" and "as = xs @ ys" and "list_all (\<lambda>a. \<exists>i. a = Abort i) ys"
    and "Abort k \<notin> set xs" and "count_list xs (Post k) < SEM_VALUE_MAX"
  shows "\<exists>s. reach (\<lambda>_ _. True) svcs as s \<and> deadlocked svcs s \<and> pcs s ! k = S_Wait"
proof -
  let ?s0 = "sys_init svcs as"
  have s0: "acts ?s0 = xs @ ys" "k < length (sems ?s0)" "pcs ?s0 ! k = S_Start"
    "sems ?s0 ! k = 0" "\<not> aborts ?s0 ! k" "k < length (pcs ?s0)"
    using assms(1,2) by (simp_all add: sys_init_def)
  obtain s1 where s1: "sys_run svcs (replicate (length xs) Seq) ?s0 = Some s1" "acts s1 = ys"
    "pcs s1 = pcs ?s0" "sems s1 ! k = count_list xs (Post k)" "\<not> aborts s1 ! k"
    "length (sems s1) = length (sems ?s0)"
    using run_seq_alone [of ?s0 xs ys k] s0 assms(4,5) by auto
  obtain s2 where s2: "sys_run svcs [Svc k] s1 = Some s2" "acts s2 = ys" "pcs s2 ! k = S_Test"
    "sems s2 ! k = count_list xs (Post k)" "\<not> aborts s2 ! k" "length (sems s2) = length (sems ?s0)"
    "length (pcs s2) = length (pcs ?s0)"
    using s1 s0 assms(1) by (simp add: service_step.simps)
  obtain s3 where s3: "sys_run svcs (replicate (2 * count_list xs (Post k)) (Svc k)) s2 = Some s3"
    "pcs s3 ! k = S_Test" "sems s3 ! k = 0" "acts s3 = ys" "\<not> aborts s3 ! k" "k < length (pcs s3)"
    using run_service_drain [of k s2] s2 s0 assms(1) by auto
  obtain s4 where s4: "sys_run svcs [Svc k] s3 = Some s4" "pcs s4 ! k = S_Wait" "sems s4 ! k = 0"
    "acts s4 = ys"
    using s3 assms(1) by (simp add: service_step.simps abort_own)
  have ends: "\<exists>s'. sys_run svcs (replicate (length zs) Seq) s = Some s' \<and> acts s' = [] \<and>
      pcs s' = pcs s \<and> sems s' = sems s" if "acts s = zs" "list_all (\<lambda>a. \<exists>i. a = Abort i) zs" for zs s
    using that
  proof (induction zs arbitrary: s)
    case (Cons z zs)
    then obtain i where "z = Abort i" by auto
    with Cons.prems Cons.IH [of "s\<lparr>acts := zs, aborts := (aborts s)[i := True]\<rparr>"] show ?case
      by (auto simp: seq_step.simps)
  qed simp
  obtain s5 where s5: "sys_run svcs (replicate (length ys) Seq) s4 = Some s5" "acts s5 = []"
    "pcs s5 ! k = S_Wait" "sems s5 ! k = 0"
    using ends [OF s4(4) assms(3)] s4 by auto
  have "reach (\<lambda>_ _. True) svcs as s5"
    using run_reach [OF s5(1)] run_reach [OF s4(1)] run_reach [OF s3(1)] run_reach [OF s2(1)]
      run_reach [OF s1(1)] reach_init by blast
  then show ?thesis using blocked_deadlock assms(1) s5(2-4) by blast
qed

end

section \<open>The four programs\<close>

definition seq_programs :: "service list list" where
  "seq_programs = [seqgen_services, seqgen2_services, seqgen3_services, seqgenex0_services]"

lemma seq_programs_table: "svcs \<in> set seq_programs \<Longrightarrow> service_table svcs"
  by (auto simp: seq_programs_def intro: seqgen_sys.service_table_axioms
      seqgen2_sys.service_table_axioms seqgen3_sys.service_table_axioms
      seqgenex0_sys.service_table_axioms)

text \<open>
  C4. In each of the four programs and under every interleaving of sequencer and services, no
  release is lost or invented: service \<open>i\<close> has logged the release numbers 1, 2, \dots, \<open>m\<close> in
  this order, its counter is \<open>m\<close>, and \<open>m\<close> plus the value of its semaphore is the number of
  posts the sequencer has performed for it.
\<close>
theorem seq_releases_conserved:
  assumes "svcs \<in> set seq_programs" and "reach allowed svcs as s"
    and "\<And>i. count_list as (Post i) < SEM_VALUE_MAX"
  shows "conserved (length svcs) as s"
  using service_table.reach_conserved [OF seq_programs_table] assms by blast

theorem seq_releases_conserved_witness:
  "conserved (length seqgenex0_services) [Post 0, Sleep seqgen_delay_time]
     (sys_init seqgenex0_services [Post 0, Sleep seqgen_delay_time])"
  by (rule seq_releases_conserved [OF _ reach_init])
    (simp_all add: seq_programs_def SEM_VALUE_MAX_def)

text \<open>
  C40. Every execution of one of the four programs is finite: whatever the interleaving, the
  threads make at most three steps for every action of the sequencer and three for every
  service.
\<close>
theorem seq_schedules_bounded:
  assumes "svcs \<in> set seq_programs" and "sys_run svcs ws (sys_init svcs as) = Some s"
  shows "length ws \<le> 3 * (length as + length svcs)"
  using service_table.run_bounded [OF seq_programs_table] assms by blast

theorem seq_schedules_bounded_witness:
  "\<exists>s. sys_run seqgenex0_services [Seq, Svc 0, Svc 0, Svc 0, Svc 0]
      (sys_init seqgenex0_services [Post 0]) = Some s \<and>
    length [Seq, Svc 0, Svc 0, Svc 0, Svc 0] \<le> 3 * (length [Post 0] + length seqgenex0_services)"
proof -
  have "\<exists>s. sys_run seqgenex0_services [Seq, Svc 0, Svc 0, Svc 0, Svc 0]
      (sys_init seqgenex0_services [Post 0]) = Some s"
    by (simp add: sys_init_def seqgenex0_services_def seqgenex0_Service_1_def seq_step.simps
        service_step.simps sem_wait_def Let_def)
  then show ?thesis
    using seq_schedules_bounded [of seqgenex0_services "[Seq, Svc 0, Svc 0, Svc 0, Svc 0]" "[Post 0]"]
    by (auto simp: seq_programs_def)
qed

lemma shutdown_spec_Abort: "list_all (\<lambda>i. Abort i \<in> set (xs @ shutdown_spec periods)) [0..<length periods]"
  by (auto simp: shutdown_spec_def list_all_iff)

lemma seqgenex0_exits:
  assumes "clock_nanosleep_ok fuel ns" and "last_cycle ab P n"
    and "seqgenex0_Sequencer fuel ns tm0 tm rt st ab P = Some (as, x)"
    and "reach prio_allowed seqgenex0_services as s" and "prio_final seqgenex0_services s"
  shows "x = None \<and> all_exited s"
proof -
  obtain xs where xs: "as = xs @ shutdown_spec seqgenex0_rates" "x = None"
    using seqgenex0_run_posts [OF assms(1,2), of tm0 tm rt st] assms(3) by auto
  have len: "length seqgenex0_services = length seqgenex0_rates"
    by (simp add: seqgenex0_services_def seqgenex0_rates_def)
  show ?thesis
    using seqgenex0_sys.prio_final_exited [OF assms(4) _ _ assms(5)]
    by (simp add: xs len posts_ahead_shutdown shutdown_spec_Abort [simplified])
qed

text \<open>
  C6. The shutdown of seqgenex0.c works: its threads share one core and the sequencer has the
  highest priority, and whenever no thread that may run can make a step any more, the sequencer
  and all services have exited, so the join loop of \<open>main\<close> completes.
\<close>
theorem seqgenex0_all_exit:
  assumes "clock_nanosleep_ok fuel ns" and "last_cycle ab P n"
    and "seqgenex0_Sequencer fuel ns tm0 tm rt st ab P = Some (as, x)"
    and "reach prio_allowed seqgenex0_services as s" and "prio_final seqgenex0_services s"
  shows "x = None \<and> all_exited s"
  using seqgenex0_exits [OF assms] .

fun prio_run :: "service list \<Rightarrow> thread list \<Rightarrow> sys \<Rightarrow> sys option" where
  "prio_run svcs [] s = Some s"
| "prio_run svcs (w # ws) s =
     (if prio_allowed w s
      then (case sys_step svcs w s of None \<Rightarrow> None | Some s' \<Rightarrow> prio_run svcs ws s')
      else None)"

lemma prio_run_reach:
  "prio_run svcs ws s = Some s' \<Longrightarrow> reach prio_allowed svcs as s \<Longrightarrow> reach prio_allowed svcs as s'"
proof (induction ws arbitrary: s)
  case (Cons w ws)
  then obtain s1 where "prio_allowed w s" "sys_step svcs w s = Some s1" "prio_run svcs ws s1 = Some s'"
    by (auto split: option.splits if_splits)
  with Cons show ?case using reach_step [of prio_allowed svcs as s w s1] by blast
qed simp

theorem seqgenex0_all_exit_witness:
  "\<exists>as s. seqgenex0_Sequencer 1 (\<lambda>_ _. 0) seqgen_delay_time (\<lambda>_. seqgen_delay_time)
      (\<lambda>_. seqgen_delay_time) 0 (\<lambda>_. False) (of_nat 1) = Some (as, None) \<and>
    reach prio_allowed seqgenex0_services as s \<and> all_exited s"
proof -
  let ?S = "seqgenex0_Sequencer 1 (\<lambda>_ _. 0) seqgen_delay_time (\<lambda>_. seqgen_delay_time)
      (\<lambda>_. seqgen_delay_time) 0 (\<lambda>_. False) (of_nat 1)"
  define as where "as d = [Sleep d, Post 0, Post 1, Post 2, Post 0, Post 1, Post 2,
      Abort 0, Abort 1, Abort 2]" for d
  have "\<exists>d. ?S = Some (as d, None)"
    by (simp add: seqgenex0_Sequencer_def seqgenex0_loop.simps Let_def seqgenex0_release_def
        seqgenex0_shutdown_def post_if_def EINTR_def as_def)
  then obtain d where d: "?S = Some (as d, None)" ..
  have "\<exists>s. prio_run seqgenex0_services
      (replicate 10 Seq @ [Svc 0, Svc 0, Svc 1, Svc 1, Svc 2, Svc 2])
      (sys_init seqgenex0_services (as d)) = Some s \<and> prio_final seqgenex0_services s"
    by (simp add: sys_init_def seqgenex0_services_def seqgenex0_Service_1_def numeral_eq_Suc
        seqgenex0_Service_2_def seqgenex0_Service_3_def seq_step.simps service_step.simps
        prio_final_def as_def)
  then obtain s where s: "reach prio_allowed seqgenex0_services (as d) s"
    "prio_final seqgenex0_services s"
    using prio_run_reach reach_init by blast
  have "clock_nanosleep_ok 1 (\<lambda>_ _. 0)" by (simp add: clock_nanosleep_ok_def EINTR_def)
  from seqgenex0_all_exit [OF this last_cycle_full d s] have "all_exited s" by simp
  with d s(1) show ?thesis by blast
qed

text \<open>
  C36. The shutdown of seqgen2.c has a race: the sequencer runs on its own core and posts every
  semaphore before it sets any abort flag. For every service there is an execution in which it
  takes the last post, finds its flag still clear and waits again: all threads are then stuck
  and \<open>main\<close> never returns from joining that service.
\<close>
theorem seqgen2_shutdown_race:
  assumes "k < 7"
  shows "\<exists>s. reach (\<lambda>_ _. True) seqgen2_services
      (fst (seqgen2_Sequencer (\<lambda>_. 0) (\<lambda>_. False) seqgen2_periods 0 0)) s \<and>
    deadlocked seqgen2_services s \<and> pcs s ! k = S_Wait"
proof -
  let ?xs = "cycles_spec seqgen2_delay_time seqgen2_rates 1 2000 @ map Post [0..<length seqgen2_rates]"
  let ?ys = "map Abort [0..<length seqgen2_rates]"
  have run: "fst (seqgen2_Sequencer (\<lambda>_. 0) (\<lambda>_. False) seqgen2_periods 0 0) = ?xs @ ?ys"
    using seqgen2_Sequencer_from [OF full_seqgen2, of 0 "\<lambda>_. 0"]
    by (simp add: seq_outcome_all_ok run_spec_def shutdown_spec_def)
  have "count_list ?xs (Post k) \<le> count_list (run_spec seqgen2_delay_time seqgen2_rates 2000) (Post k)"
    by (simp add: run_spec_def shutdown_spec_def)
  also have "\<dots> = 2000 div seqgen2_rates ! k + 1"
    using assms by (intro count_run_spec) (simp add: seqgen2_rates_def)
  also have "\<dots> < SEM_VALUE_MAX"
    unfolding SEM_VALUE_MAX_def using div_le_dividend [of 2000 "seqgen2_rates ! k"] by linarith
  finally have "count_list ?xs (Post k) < SEM_VALUE_MAX" .
  moreover have "Abort k \<notin> set ?xs" by (auto simp: cycles_spec_def cycle_spec_def)
  moreover have "k < length seqgen2_services" using assms by (simp add: seqgen2_services_def)
  ultimately show ?thesis
    using seqgen2_sys.shutdown_race [OF _ run] by (auto simp: list_all_iff)
qed

theorem seqgen2_shutdown_race_witness:
  "\<exists>s. reach (\<lambda>_ _. True) seqgen2_services
      (fst (seqgen2_Sequencer (\<lambda>_. 0) (\<lambda>_. False) seqgen2_periods 0 0)) s \<and>
    deadlocked seqgen2_services s \<and> pcs s ! 6 = S_Wait"
  by (rule seqgen2_shutdown_race) simp

end
