(* ===== verification/Seq_Main.thy ===== *)
theory Seq_Main
  imports Seq_Programs
begin

text \<open>
  The \<open>main\<close> functions of the four sequencer programs: initialisation of the semaphores, the
  scheduling policy, the attributes of the threads, their creation and the join loop. What the
  operating system answers is the record \<open>os\<close>; the process either runs to the end of \<open>main\<close>,
  ends by \<open>exit\<close>, or joins a thread descriptor that no \<open>pthread_create\<close> has written. Output
  lines are kept with their integer arguments, except for those that print clock readings.
\<close>

section \<open>Helper functions of the programs\<close>

text \<open>\<open>getTimeMsec\<close> (of \<^verbatim>\<open>seqgen.c\<close>, \<^verbatim>\<open>seqgen2.c\<close> and \<^verbatim>\<open>seqgen3.c\<close>) and \<open>realtime\<close>, on the
  clock value read.\<close>

definition seqgen_getTimeMsec :: "timespec \<Rightarrow> rat" where
  "seqgen_getTimeMsec event_ts = of_int (tv_sec event_ts) * 1000 + of_int (tv_nsec event_ts) / 1000000"

definition realtime :: "timespec \<Rightarrow> rat" where
  "realtime tsptr = of_int (tv_sec tsptr) + of_int (tv_nsec tsptr) / 1000000000"

text \<open>The time stamp counter, from the two registers that \<open>rdtsc\<close> fills.\<close>

definition tsc_read :: "32 word \<Rightarrow> 32 word \<Rightarrow> u64" where
  "tsc_read lo hi = or (push_bit 32 (ucast hi)) (ucast lo)"

section \<open>The operating system and the state of \<open>main\<close>\<close>

datatype scope = PTHREAD_SCOPE_SYSTEM | PTHREAD_SCOPE_PROCESS | SCOPE_UNKNOWN

record os =
  nprocs_conf :: int
  nprocs :: int
  sem_init_rc :: "nat \<Rightarrow> int"
  prio_max :: int
  prio_min :: int
  setscheduler_rc :: int
  getscheduler :: policy
  attr_scope :: scope
  create_rc :: "nat \<Rightarrow> int"
  getaffinity_rc :: int
  affinity :: "nat \<Rightarrow> bool"
  getcpu :: int

datatype out = Printf string "int list" | Perror string

datatype entry = Sequencer_entry | Service_entry nat

record thread_attr =
  at_explicit :: bool
  at_policy :: policy
  at_prio :: int
  at_cpus :: "nat list option"

record new_thread =
  nt_entry :: entry
  nt_attr :: thread_attr
  nt_param :: nat

text \<open>\<open>threads\<close> holds, for every descriptor, whether it has been written; \<open>threadIdx\<close> are the
  parameter blocks.\<close>

record mst =
  rt_sched_attr :: "thread_attr list"
  threads :: "bool list"
  threadIdx :: "nat list"
  periods_param :: u64
  created :: "new_thread list"
  timer_armed :: "itimerspec option"
  outp :: "out list"

datatype main_end = Exit int | Bad_Join

type_synonym main_res = "(main_end \<times> mst) + mst"

text \<open>The attribute objects before \<open>pthread_attr_init\<close> have no meaningful contents.\<close>

definition default_attr :: thread_attr where
  "default_attr = \<lparr>at_explicit = False, at_policy = SCHED_OTHER, at_prio = 0, at_cpus = None\<rparr>"

definition mst_init :: "nat \<Rightarrow> mst" where
  "mst_init n = \<lparr>rt_sched_attr = replicate n default_attr, threads = replicate n False,
     threadIdx = replicate n 0, periods_param = 0, created = [], timer_armed = None, outp = []\<rparr>"

definition say :: "out \<Rightarrow> mst \<Rightarrow> mst" where
  "say l s = s\<lparr>outp := outp s @ [l]\<rparr>"

section \<open>Steps the programs share\<close>

text \<open>\<^verbatim>\<open>if (sem_init (&semSk, 0, 0)) { printf (...); exit (-1); }\<close>\<close>

definition sem_init_check :: "os \<Rightarrow> nat \<Rightarrow> mst \<Rightarrow> main_res" where
  "sem_init_check os k s =
     (if sem_init_rc os k \<noteq> 0
      then Inl (Exit (-1), say (Printf ''Failed to initialize S%d semaphore'' [int k + 1]) s)
      else Inr s)"

definition print_scheduler :: "os \<Rightarrow> mst \<Rightarrow> main_res" where
  "print_scheduler os s =
     (case getscheduler os of
        SCHED_FIFO \<Rightarrow> Inr (say (Printf ''Pthread Policy is SCHED_FIFO'' []) s)
      | SCHED_OTHER \<Rightarrow> Inl (Exit (-1), say (Printf ''Pthread Policy is SCHED_OTHER'' []) s)
      | SCHED_RR \<Rightarrow> Inl (Exit (-1), say (Printf ''Pthread Policy is SCHED_RR'' []) s)
      | SCHED_UNKNOWN \<Rightarrow> Inl (Exit (-1), say (Printf ''Pthread Policy is UNKNOWN'' []) s))"

definition print_scope :: "os \<Rightarrow> mst \<Rightarrow> mst" where
  "print_scope os = (case attr_scope os of
       PTHREAD_SCOPE_SYSTEM \<Rightarrow> say (Printf ''PTHREAD SCOPE SYSTEM'' [])
     | PTHREAD_SCOPE_PROCESS \<Rightarrow> say (Printf ''PTHREAD SCOPE PROCESS'' [])
     | SCOPE_UNKNOWN \<Rightarrow> say (Printf ''PTHREAD SCOPE UNKNOWN'' []))"

definition set_fifo :: "os \<Rightarrow> mst \<Rightarrow> mst" where
  "set_fifo os s = (if setscheduler_rc os < 0 then say (Perror ''main_param'') s else s)"

text \<open>
  \<open>pthread_attr_setschedparam\<close>, \<open>pthread_create\<close> for descriptor and parameter block \<open>i\<close>, and
  the report. \<open>pthread_create\<close> returns an error number on failure and then creates nothing.
\<close>

definition create_thread ::
  "os \<Rightarrow> nat \<Rightarrow> int \<Rightarrow> entry \<Rightarrow> string \<Rightarrow> string \<Rightarrow> mst \<Rightarrow> mst" where
  "create_thread os i prio fn fail ok s =
     (let attr = (rt_sched_attr s ! i)\<lparr>at_prio := prio\<rparr>;
          s = s\<lparr>rt_sched_attr := (rt_sched_attr s)[i := attr]\<rparr>;
          rc = create_rc os i;
          s = (if rc = 0
               then s\<lparr>threads := (threads s)[i := True],
                      created := created s @
                        [\<lparr>nt_entry = fn, nt_attr = attr, nt_param = threadIdx s ! i\<rparr>]\<rparr>
               else s)
      in if rc < 0 then say (Perror fail) s else say (Printf ok []) s)"

definition create_service :: "os \<Rightarrow> nat \<Rightarrow> nat \<Rightarrow> int \<Rightarrow> mst \<Rightarrow> mst" where
  "create_service os i k prio = create_thread os i prio (Service_entry k)
     (''pthread_create for service '' @ [char_of (48 + k)])
     (''pthread_create successful for service '' @ [char_of (48 + k)])"

definition create_sequencer :: "os \<Rightarrow> mst \<Rightarrow> mst" where
  "create_sequencer os = create_thread os 0 (prio_max os) Sequencer_entry
     ''pthread_create for sequencer service 0''
     ''pthread_create successful for sequeencer service 0''"

text \<open>Joining a descriptor that was never written is undefined.\<close>

definition join_thread :: "nat \<Rightarrow> mst \<Rightarrow> main_res" where
  "join_thread i s = (if threads s ! i then Inr s else Inl (Bad_Join, s))"

section \<open>main of seqgen.c\<close>

definition seqgen_main_sems :: "os \<Rightarrow> mst \<Rightarrow> main_res" where
  "seqgen_main_sems os s =
     (let s = say (Printf ''Starting Sequencer Demo'' []) s;
          s = say (Printf ''System has %d processors configured and %d available.''
                [nprocs_conf os, nprocs os]) s;
          s = say (Printf ''Using CPUS=%d from total available.'' [1]) s
      in for_up 0 7 (sem_init_check os) s)"

definition seqgen_main_sched :: "os \<Rightarrow> mst \<Rightarrow> main_res" where
  "seqgen_main_sched os s =
     bindR (print_scheduler os (set_fifo os s)) (\<lambda>s.
       Inr (say (Printf ''rt_min_prio=%d'' [prio_min os])
         (say (Printf ''rt_max_prio=%d'' [prio_max os]) (print_scope os s))))"

definition seqgen_main_attr :: "os \<Rightarrow> nat \<Rightarrow> mst \<Rightarrow> main_res" where
  "seqgen_main_attr os i s =
     Inr (s\<lparr>rt_sched_attr := (rt_sched_attr s)[i :=
              \<lparr>at_explicit = True, at_policy = SCHED_FIFO, at_prio = prio_max os - int i,
               at_cpus = None\<rparr>],
            threadIdx := (threadIdx s)[i := i]\<rparr>)"

definition seqgen_main_services :: "os \<Rightarrow> mst \<Rightarrow> mst" where
  "seqgen_main_services os s =
     (let s = say (Printf ''Service threads will run on %d CPU cores'' [1]) s;
          s = create_service os 1 1 (prio_max os - 1) s;
          s = create_service os 2 2 (prio_max os - 2) s;
          s = create_service os 3 3 (prio_max os - 3) s;
          s = create_service os 4 4 (prio_max os - 3) s;
          s = create_service os 5 5 (prio_max os - 3) s;
          s = create_service os 6 6 (prio_max os - 2) s
      in create_service os 7 7 (prio_min os) s)"

definition seqgen_main_sequencer :: "os \<Rightarrow> mst \<Rightarrow> mst" where
  "seqgen_main_sequencer os s =
     create_sequencer os ((say (Printf ''Start sequencer'' []) s)\<lparr>periods_param := seqgen_periods\<rparr>)"

definition seqgen_main :: "os \<Rightarrow> main_res" where
  "seqgen_main os =
     bindR (seqgen_main_sems os (mst_init 8)) (\<lambda>s.
     bindR (seqgen_main_sched os s) (\<lambda>s.
     bindR (for_up 0 8 (seqgen_main_attr os) s) (\<lambda>s.
     bindR (for_up 0 8 join_thread (seqgen_main_sequencer os (seqgen_main_services os s))) (\<lambda>s.
     Inr (say (Printf ''TEST COMPLETE'' []) s)))))"

section \<open>main of seqgen2.c\<close>

definition seqgen2_main_sems :: "os \<Rightarrow> mst \<Rightarrow> main_res" where
  "seqgen2_main_sems os s =
     (let s = say (Printf ''Starting High Rate Sequencer Demo'' []) s;
          s = say (Printf ''System has %d processors configured and %d available.''
                [nprocs_conf os, nprocs os]) s;
          s = say (Printf ''Using CPUS=%d from total available.'' [4]) s
      in for_up 0 7 (sem_init_check os) s)"

definition seqgen2_main_sched :: "os \<Rightarrow> mst \<Rightarrow> main_res" where
  "seqgen2_main_sched os s =
     bindR (print_scheduler os (set_fifo os s)) (\<lambda>s.
       Inr (say (Printf ''rt_min_prio=%d'' [prio_min os])
         (say (Printf ''rt_max_prio=%d'' [prio_max os]) (print_scope os s))))"

definition seqgen2_main_attr :: "os \<Rightarrow> nat \<Rightarrow> mst \<Rightarrow> main_res" where
  "seqgen2_main_attr os i s =
     Inr (s\<lparr>rt_sched_attr := (rt_sched_attr s)[i :=
              \<lparr>at_explicit = True, at_policy = SCHED_FIFO, at_prio = prio_max os - int i,
               at_cpus = Some [if i mod 2 = 0 then 2 else 3]\<rparr>],
            threadIdx := (threadIdx s)[i := i]\<rparr>)"

definition seqgen2_main_services :: "os \<Rightarrow> mst \<Rightarrow> mst" where
  "seqgen2_main_services os s =
     (let s = say (Printf ''Service threads will run on %d CPU cores'' [1]) s;
          s = create_service os 1 1 (prio_max os - 1) s;
          s = create_service os 2 2 (prio_max os - 2) s;
          s = create_service os 3 3 (prio_max os - 3) s;
          s = create_service os 4 4 (prio_max os - 4) s;
          s = create_service os 5 5 (prio_max os - 5) s;
          s = create_service os 6 6 (prio_max os - 6) s
      in create_service os 7 7 (prio_min os) s)"

definition seqgen2_main_sequencer :: "os \<Rightarrow> mst \<Rightarrow> mst" where
  "seqgen2_main_sequencer os s =
     (let s = (say (Printf ''Start sequencer'' []) s)\<lparr>periods_param := seqgen2_periods\<rparr>;
          s = s\<lparr>rt_sched_attr := (rt_sched_attr s)[0 := (rt_sched_attr s ! 0)\<lparr>at_cpus := Some [1]\<rparr>]\<rparr>
      in create_sequencer os s)"

definition seqgen2_main :: "os \<Rightarrow> main_res" where
  "seqgen2_main os =
     bindR (seqgen2_main_sems os (mst_init 8)) (\<lambda>s.
     bindR (seqgen2_main_sched os s) (\<lambda>s.
     bindR (for_up 0 8 (seqgen2_main_attr os) s) (\<lambda>s.
     bindR (for_up 0 8 join_thread (seqgen2_main_sequencer os (seqgen2_main_services os s))) (\<lambda>s.
     Inr (say (Printf ''TEST COMPLETE'' []) s)))))"

section \<open>main of seqgen3.c\<close>

text \<open>Seven descriptors, and the sequencer is the handler of a timer signal, not a thread.\<close>

definition seqgen3_main_sems :: "os \<Rightarrow> mst \<Rightarrow> main_res" where
  "seqgen3_main_sems os s =
     (let s = say (Printf ''Starting High Rate Sequencer Demo'' []) s;
          s = say (Printf ''System has %d processors configured and %d available.''
                [nprocs_conf os, nprocs os]) s;
          s = say (Printf ''Using CPUS=%d from total available.'' [4]) s
      in for_up 0 7 (sem_init_check os) s)"

definition seqgen3_main_sched :: "os \<Rightarrow> mst \<Rightarrow> main_res" where
  "seqgen3_main_sched os s =
     bindR (print_scheduler os (set_fifo os s)) (\<lambda>s.
       Inr (say (Printf ''rt_min_prio=%d'' [prio_min os])
         (say (Printf ''rt_max_prio=%d'' [prio_max os]) (print_scope os s))))"

definition seqgen3_main_attr :: "os \<Rightarrow> nat \<Rightarrow> mst \<Rightarrow> main_res" where
  "seqgen3_main_attr os i s =
     Inr (s\<lparr>rt_sched_attr := (rt_sched_attr s)[i :=
              \<lparr>at_explicit = True, at_policy = SCHED_FIFO, at_prio = prio_max os - int i,
               at_cpus = Some [if i mod 2 = 0 then 2 else 3]\<rparr>],
            threadIdx := (threadIdx s)[i := i]\<rparr>)"

definition seqgen3_main_services :: "os \<Rightarrow> mst \<Rightarrow> mst" where
  "seqgen3_main_services os s =
     (let s = say (Printf ''Service threads will run on %d CPU cores'' [1]) s;
          s = create_service os 0 1 (prio_max os - 1) s;
          s = create_service os 1 2 (prio_max os - 2) s;
          s = create_service os 2 3 (prio_max os - 3) s;
          s = create_service os 3 4 (prio_max os - 4) s;
          s = create_service os 4 5 (prio_max os - 5) s;
          s = create_service os 5 6 (prio_max os - 6) s
      in create_service os 6 7 (prio_min os) s)"

definition seqgen3_main_timer :: "os \<Rightarrow> mst \<Rightarrow> mst" where
  "seqgen3_main_timer os s =
     (say (Printf ''Start sequencer'' []) s)\<lparr>periods_param := seqgen3_periods,
        timer_armed := Some seqgen3_itime\<rparr>"

text \<open>In \<^verbatim>\<open>if(rc=pthread_join(threads[i], NULL) < 0)\<close> the condition is never true.\<close>

definition seqgen3_main_join :: "nat \<Rightarrow> mst \<Rightarrow> main_res" where
  "seqgen3_main_join i s =
     bindR (join_thread i s) (\<lambda>s. Inr (say (Printf ''joined thread %d'' [int i]) s))"

definition seqgen3_main :: "os \<Rightarrow> main_res" where
  "seqgen3_main os =
     bindR (seqgen3_main_sems os (mst_init 7)) (\<lambda>s.
     bindR (seqgen3_main_sched os s) (\<lambda>s.
     bindR (for_up 0 7 (seqgen3_main_attr os) s) (\<lambda>s.
     bindR (for_up 0 7 seqgen3_main_join (seqgen3_main_timer os (seqgen3_main_services os s))) (\<lambda>s.
     Inr (say (Printf ''TEST COMPLETE'' []) s)))))"

section \<open>main of seqgenex0.c\<close>

definition CPU_SETSIZE :: nat where
  "CPU_SETSIZE = 1024"

text \<open>If the affinity mask cannot be read, the set that is counted is the empty one.\<close>

definition get_cpu_core_config :: "os \<Rightarrow> mst \<Rightarrow> mst" where
  "get_cpu_core_config os s =
     (let cpus = filter (affinity os) [0..<CPU_SETSIZE];
          s = (if getaffinity_rc os \<noteq> 0 then say (Perror ''pthread_getaffinity_np'') s
               else fold (\<lambda>idx. say (Printf '' %d'' [int idx])) cpus
                      (say (Printf ''thread running on CPU=%d, CPUs ='' [getcpu os]) s))
      in say (Printf ''Using CPUS=%d from total available.''
           [if getaffinity_rc os \<noteq> 0 then 0 else int (length cpus)]) s)"

definition seqgenex0_main_sems :: "os \<Rightarrow> mst \<Rightarrow> main_res" where
  "seqgenex0_main_sems os s =
     (let s = say (Printf ''Starting High Rate Sequencer Example'' []) s;
          s = get_cpu_core_config os s;
          s = say (Printf ''System has %d processors configured and %d available.''
                [nprocs_conf os, nprocs os]) s
      in for_up 0 3 (sem_init_check os) s)"

definition seqgenex0_print_scheduler :: "os \<Rightarrow> mst \<Rightarrow> main_res" where
  "seqgenex0_print_scheduler os s =
     bindR (print_scheduler os s) (\<lambda>s. Inr (print_scope os s))"

definition seqgenex0_main_sched :: "os \<Rightarrow> mst \<Rightarrow> main_res" where
  "seqgenex0_main_sched os s =
     bindR (seqgenex0_print_scheduler os (set_fifo os s)) (\<lambda>s.
       Inr (say (Printf ''rt_min_prio=%d'' [prio_min os])
         (say (Printf ''rt_max_prio=%d'' [prio_max os]) s)))"

definition seqgenex0_main_attr :: "os \<Rightarrow> nat \<Rightarrow> mst \<Rightarrow> main_res" where
  "seqgenex0_main_attr os i s =
     Inr (s\<lparr>rt_sched_attr := (rt_sched_attr s)[i :=
              \<lparr>at_explicit = True, at_policy = SCHED_FIFO, at_prio = prio_max os - int i,
               at_cpus = Some [3]\<rparr>],
            threadIdx := (threadIdx s)[i := i]\<rparr>)"

definition seqgenex0_main_services :: "os \<Rightarrow> mst \<Rightarrow> mst" where
  "seqgenex0_main_services os s =
     (let s = say (Printf ''Service threads will run on %d CPU cores'' [1]) s;
          s = create_service os 1 1 (prio_max os - 1) s;
          s = create_service os 2 2 (prio_max os - 2) s
      in create_service os 3 3 (prio_max os - 3) s)"

definition seqgenex0_main_sequencer :: "os \<Rightarrow> mst \<Rightarrow> mst" where
  "seqgenex0_main_sequencer os s =
     create_sequencer os ((say (Printf ''Start sequencer'' []) s)\<lparr>periods_param := RTSEQ_PERIODS\<rparr>)"

definition seqgenex0_main :: "os \<Rightarrow> main_res" where
  "seqgenex0_main os =
     bindR (seqgenex0_main_sems os (mst_init 4)) (\<lambda>s.
     bindR (seqgenex0_main_sched os s) (\<lambda>s.
     bindR (for_up 0 4 (seqgenex0_main_attr os) s) (\<lambda>s.
     bindR (for_up 0 4 join_thread (seqgenex0_main_sequencer os (seqgenex0_main_services os s))) (\<lambda>s.
     Inr (say (Printf ''TEST COMPLETE'' []) s)))))"

end
