(* ===== verification/Seq_Main_Props.thy ===== *)
theory Seq_Main_Props
  imports Seq_Main Seq_Spec
begin

text \<open>
  Properties of the \<open>main\<close> functions of \<open>Seq_Main\<close>: the threads they create with their
  scheduling attributes, the early exits, and what happens when a thread cannot be created.
\<close>

section \<open>Effect of the steps\<close>

lemma say_sel [simp]:
  "rt_sched_attr (say l s) = rt_sched_attr s" "threads (say l s) = threads s"
  "threadIdx (say l s) = threadIdx s" "periods_param (say l s) = periods_param s"
  "created (say l s) = created s" "timer_armed (say l s) = timer_armed s"
  "outp (say l s) = outp s @ [l]"
  by (simp_all add: say_def)

lemma print_scope_sel [simp]:
  "rt_sched_attr (print_scope os s) = rt_sched_attr s" "threads (print_scope os s) = threads s"
  "threadIdx (print_scope os s) = threadIdx s" "periods_param (print_scope os s) = periods_param s"
  "created (print_scope os s) = created s" "timer_armed (print_scope os s) = timer_armed s"
  by (simp_all add: print_scope_def split: scope.splits)

lemma set_fifo_sel [simp]:
  "rt_sched_attr (set_fifo os s) = rt_sched_attr s" "threads (set_fifo os s) = threads s"
  "threadIdx (set_fifo os s) = threadIdx s" "periods_param (set_fifo os s) = periods_param s"
  "created (set_fifo os s) = created s" "timer_armed (set_fifo os s) = timer_armed s"
  by (simp_all add: set_fifo_def)

lemma create_thread_sel [simp]:
  "rt_sched_attr (create_thread os i p fn f k s) =
     (rt_sched_attr s)[i := (rt_sched_attr s ! i)\<lparr>at_prio := p\<rparr>]"
  "threadIdx (create_thread os i p fn f k s) = threadIdx s"
  "periods_param (create_thread os i p fn f k s) = periods_param s"
  "timer_armed (create_thread os i p fn f k s) = timer_armed s"
  "threads (create_thread os i p fn f k s) =
     (if create_rc os i = 0 then (threads s)[i := True] else threads s)"
  "created (create_thread os i p fn f k s) =
     created s @ (if create_rc os i = 0
       then [\<lparr>nt_entry = fn, nt_attr = (rt_sched_attr s ! i)\<lparr>at_prio := p\<rparr>, nt_param = threadIdx s ! i\<rparr>]
       else [])"
  "outp (create_thread os i p fn f k s) =
     outp s @ [if create_rc os i < 0 then Perror f else Printf k []]"
  by (simp_all add: create_thread_def Let_def)

text \<open>The semaphore loop either passes or exits; no other part of the state changes.\<close>

lemma sem_init_loop:
  "(\<forall>k. i \<le> k \<and> k < n \<longrightarrow> sem_init_rc os k = 0) \<and> for_up i n (sem_init_check os) s = Inr s \<or>
   (\<exists>k<n. sem_init_rc os k \<noteq> 0) \<and>
   (\<exists>s'. for_up i n (sem_init_check os) s = Inl (Exit (-1), s') \<and> created s' = created s)"
proof (induction "n - i" arbitrary: i)
  case (Suc d)
  then have "i < n" by simp
  show ?case
  proof (cases "sem_init_rc os i = 0")
    case True
    then have "for_up i n (sem_init_check os) s = for_up (Suc i) n (sem_init_check os) s"
      using \<open>i < n\<close> by (simp add: for_up_step sem_init_check_def)
    moreover have "i \<le> k \<longleftrightarrow> k = i \<or> Suc i \<le> k" for k by auto
    ultimately show ?thesis using Suc.hyps(1) [of "Suc i"] Suc.hyps(2) True by auto
  next
    case False
    then show ?thesis using \<open>i < n\<close> by (auto simp: for_up_step sem_init_check_def)
  qed
qed auto

lemma sem_init_ok: "(\<And>k. k < n \<Longrightarrow> sem_init_rc os k = 0) \<Longrightarrow> for_up 0 n (sem_init_check os) s = Inr s"
  using sem_init_loop [of 0 n os s] by auto

lemma sem_init_fails: "k < n \<Longrightarrow> sem_init_rc os k \<noteq> 0 \<Longrightarrow>
  \<exists>s'. for_up 0 n (sem_init_check os) s = Inl (Exit (-1), s') \<and> created s' = created s"
  using sem_init_loop [of 0 n os s] by auto

lemma print_scheduler_fifo:
  "getscheduler os = SCHED_FIFO \<Longrightarrow>
   print_scheduler os s = Inr (say (Printf ''Pthread Policy is SCHED_FIFO'' []) s)"
  by (simp add: print_scheduler_def)

lemma print_scheduler_exit:
  "getscheduler os \<noteq> SCHED_FIFO \<Longrightarrow>
   \<exists>s'. print_scheduler os s = Inl (Exit (-1), s') \<and> created s' = created s"
  by (cases "getscheduler os") (auto simp: print_scheduler_def)

lemma join_loop: "for_up i n join_thread s =
  (if \<forall>k. i \<le> k \<and> k < n \<longrightarrow> threads s ! k then Inr s else Inl (Bad_Join, s))"
proof (induction "n - i" arbitrary: i)
  case (Suc d)
  then have "i < n" by simp
  moreover have "i \<le> k \<longleftrightarrow> k = i \<or> Suc i \<le> k" for k by auto
  ultimately show ?case
    using Suc.hyps(1) [of "Suc i"] Suc.hyps(2) by (auto simp: for_up_step join_thread_def)
qed auto

lemmas main_defs =
  seqgen_main_def seqgen_main_sems_def seqgen_main_sched_def
  seqgen2_main_def seqgen2_main_sems_def seqgen2_main_sched_def
  seqgen3_main_def seqgen3_main_sems_def seqgen3_main_sched_def
  seqgenex0_main_def seqgenex0_main_sems_def seqgenex0_main_sched_def
  seqgenex0_print_scheduler_def

lemma get_cpu_core_config_sel [simp]:
  "created (get_cpu_core_config os s) = created s" "threads (get_cpu_core_config os s) = threads s"
  "rt_sched_attr (get_cpu_core_config os s) = rt_sched_attr s"
  "threadIdx (get_cpu_core_config os s) = threadIdx s"
proof -
  have "created (fold (\<lambda>idx. say (f idx)) xs s) = created s \<and>
      threads (fold (\<lambda>idx. say (f idx)) xs s) = threads s \<and>
      rt_sched_attr (fold (\<lambda>idx. say (f idx)) xs s) = rt_sched_attr s \<and>
      threadIdx (fold (\<lambda>idx. say (f idx)) xs s) = threadIdx s" for f and xs :: "nat list" and s
    by (induction xs arbitrary: s) simp_all
  then show "created (get_cpu_core_config os s) = created s" "threads (get_cpu_core_config os s) = threads s"
    "rt_sched_attr (get_cpu_core_config os s) = rt_sched_attr s"
    "threadIdx (get_cpu_core_config os s) = threadIdx s"
    by (simp_all add: get_cpu_core_config_def Let_def)
qed

section \<open>Early exits\<close>

text \<open>The four programs with the number of their semaphores.\<close>

definition seq_mains :: "os \<Rightarrow> (main_res \<times> nat) list" where
  "seq_mains os = [(seqgen_main os, 7), (seqgen2_main os, 7), (seqgen3_main os, 7), (seqgenex0_main os, 3)]"

definition exits_early :: "main_res \<Rightarrow> bool" where
  "exits_early m \<longleftrightarrow> (\<exists>s. m = Inl (Exit (-1), s) \<and> created s = [])"

lemma exits_early_bind: "exits_early m \<Longrightarrow> exits_early (bindR m f)"
  by (auto simp: exits_early_def)

lemma exits_early_sems:
  "k < n \<Longrightarrow> sem_init_rc os k \<noteq> 0 \<Longrightarrow> created s = [] \<Longrightarrow> exits_early (for_up 0 n (sem_init_check os) s)"
  using sem_init_fails [of k n os s] by (auto simp: exits_early_def)

lemma exits_early_policy:
  "getscheduler os \<noteq> SCHED_FIFO \<Longrightarrow> created s = [] \<Longrightarrow> exits_early (print_scheduler os s)"
  using print_scheduler_exit [of os s] by (auto simp: exits_early_def)

lemma created_init [simp]: "created (mst_init n) = []"
  by (simp add: mst_init_def)

text \<open>
  If a semaphore cannot be initialised, or the process does not run under \<open>SCHED_FIFO\<close>,
  each of the four programs exits with code -1 before it has created a thread.
\<close>
theorem seq_main_exit:
  assumes "(m, n) \<in> set (seq_mains os)"
    and "(\<exists>k<n. sem_init_rc os k \<noteq> 0) \<or> getscheduler os \<noteq> SCHED_FIFO"
  shows "\<exists>s. m = Inl (Exit (-1), s) \<and> created s = []"
proof -
  have "exits_early m"
  proof (cases "\<exists>k<n. sem_init_rc os k \<noteq> 0")
    case True
    then obtain k where k: "k < n" "sem_init_rc os k \<noteq> 0" by blast
    show ?thesis
      using assms(1) k unfolding seq_mains_def main_defs Let_def
      by (auto intro!: exits_early_bind intro: exits_early_sems [where k = k])
  next
    case False
    then have ok: "for_up 0 n (sem_init_check os) s = Inr s" for s by (intro sem_init_ok) auto
    have "getscheduler os \<noteq> SCHED_FIFO" using False assms(2) by blast
    then show ?thesis
      using assms(1) ok unfolding seq_mains_def main_defs Let_def
      by (auto simp: bindR_assoc exits_early_bind exits_early_policy)
  qed
  then show ?thesis by (simp add: exits_early_def)
qed

text \<open>An operating system on which every call succeeds.\<close>

definition os_fine :: os where
  "os_fine = \<lparr>nprocs_conf = 4, nprocs = 4, sem_init_rc = (\<lambda>_. 0), prio_max = 99, prio_min = 1,
     setscheduler_rc = 0, getscheduler = SCHED_FIFO, attr_scope = PTHREAD_SCOPE_SYSTEM,
     create_rc = (\<lambda>_. 0), getaffinity_rc = 0, affinity = (\<lambda>c. c < 4), getcpu = 0\<rparr>"

theorem seq_main_exit_witness:
  "(\<exists>s. seqgen2_main (os_fine\<lparr>getscheduler := SCHED_OTHER\<rparr>) = Inl (Exit (-1), s) \<and> created s = []) \<and>
   (\<exists>s. seqgenex0_main (os_fine\<lparr>sem_init_rc := (\<lambda>k. if k = 2 then -1 else 0)\<rparr>) =
      Inl (Exit (-1), s) \<and> created s = [])"
  using seq_main_exit [of _ 7 "os_fine\<lparr>getscheduler := SCHED_OTHER\<rparr>"]
    seq_main_exit [of _ 3 "os_fine\<lparr>sem_init_rc := (\<lambda>k. if k = 2 then -1 else 0)\<rparr>"]
  by (auto simp: seq_mains_def intro: exI [of _ 2])

section \<open>The created threads\<close>

text \<open>The calls before the creation of the threads succeed.\<close>

definition os_ready :: "os \<Rightarrow> bool" where
  "os_ready os \<longleftrightarrow> (\<forall>k. sem_init_rc os k = 0) \<and> getscheduler os = SCHED_FIFO"

definition fifo_thread :: "entry \<Rightarrow> int \<Rightarrow> nat list option \<Rightarrow> nat \<Rightarrow> new_thread" where
  "fifo_thread fn prio cpus param =
     \<lparr>nt_entry = fn,
      nt_attr = \<lparr>at_explicit = True, at_policy = SCHED_FIFO, at_prio = prio, at_cpus = cpus\<rparr>,
      nt_param = param\<rparr>"

text \<open>The attributes after a loop that sets those of every thread.\<close>

lemma attr_loop:
  assumes "\<And>i s. body i s = Inr (s\<lparr>rt_sched_attr := (rt_sched_attr s)[i := att i],
      threadIdx := (threadIdx s)[i := i]\<rparr> :: mst)"
    and "length (rt_sched_attr s) = n" and "length (threadIdx s) = n"
  shows "for_up 0 n body s = Inr (s\<lparr>rt_sched_attr := map att [0..<n], threadIdx := [0..<n]\<rparr>)"
proof -
  let ?P = "\<lambda>i s'. s' = s\<lparr>rt_sched_attr := map att [0..<i] @ drop i (rt_sched_attr s),
      threadIdx := [0..<i] @ drop i (threadIdx s)\<rparr>"
  have upd: "(map f [0..<i] @ drop i xs)[i := f i] = map f [0..<Suc i] @ drop (Suc i) xs"
    if "i < length xs" for i f and xs :: "'x list"
    using that by (simp add: list_update_append flip: Cons_nth_drop_Suc)
  have "\<exists>s'. for_up 0 n body s = Inr s' \<and> ?P n s'"
  proof (rule for_up_rule [where P = ?P])
    fix i s' assume "i < n" "?P i s'"
    then show "\<exists>s''. body i s' = Inr s'' \<and> ?P (Suc i) s''"
      using upd [of i "rt_sched_attr s" att] upd [of i "threadIdx s" "\<lambda>j. j"] assms(2,3)
      by (simp add: assms(1) del: upt_Suc)
  qed simp_all
  then show ?thesis using assms(2,3) by simp
qed


lemma init_lengths [simp]:
  "length (rt_sched_attr (mst_init n)) = n" "length (threadIdx (mst_init n)) = n"
  "threads (mst_init n) = replicate n False"
  by (simp_all add: mst_init_def)

text \<open>The attribute loops of the four programs.\<close>

lemmas attr_loops =
  attr_loop [OF seqgen_main_attr_def] attr_loop [OF seqgen2_main_attr_def]
  attr_loop [OF seqgen3_main_attr_def] attr_loop [OF seqgenex0_main_attr_def]

lemma join_all: "n = length (threads s) \<Longrightarrow>
  for_up 0 n join_thread s = (if list_all (\<lambda>b. b) (threads s) then Inr s else Inl (Bad_Join, s))"
  by (simp add: join_loop list_all_length)

lemmas before_threads =
  os_ready_def main_defs Let_def sem_init_ok print_scheduler_fifo attr_loops

lemma Suc_Suc_mod: "Suc (Suc m) mod Suc (Suc 0) = m mod Suc (Suc 0)"
  by (simp flip: numeral_2_eq_2)

lemmas thread_steps = Suc_Suc_mod
  create_service_def create_sequencer_def
  seqgen_main_services_def seqgen_main_sequencer_def seqgen2_main_services_def
  seqgen2_main_sequencer_def seqgen3_main_services_def seqgen3_main_timer_def
  seqgenex0_main_services_def seqgenex0_main_sequencer_def

text \<open>
  When every call succeeds, seqgen2.c runs to its end having created, in this order, the
  services 1 to 7 with \<open>SCHED_FIFO\<close> priorities max - 1 to max - 6 and min, on core 3 or 2 by
  the parity of their index, and the sequencer with priority max on core 1, for 2000 periods.
\<close>
theorem seqgen2_main_threads:
  assumes "os_ready os" and "\<And>i. create_rc os i = 0"
  shows "\<exists>s. seqgen2_main os = Inr s \<and> periods_param s = 2000 \<and>
    created s =
      [fifo_thread (Service_entry 1) (prio_max os - 1) (Some [3]) 1,
       fifo_thread (Service_entry 2) (prio_max os - 2) (Some [2]) 2,
       fifo_thread (Service_entry 3) (prio_max os - 3) (Some [3]) 3,
       fifo_thread (Service_entry 4) (prio_max os - 4) (Some [2]) 4,
       fifo_thread (Service_entry 5) (prio_max os - 5) (Some [3]) 5,
       fifo_thread (Service_entry 6) (prio_max os - 6) (Some [2]) 6,
       fifo_thread (Service_entry 7) (prio_min os) (Some [3]) 7,
       fifo_thread Sequencer_entry (prio_max os) (Some [1]) 0]"
  using assms
  by (simp add: before_threads thread_steps join_all fifo_thread_def seqgen2_periods_def
      numeral_eq_Suc)


theorem seqgen2_main_threads_witness:
  "\<exists>s. seqgen2_main os_fine = Inr s \<and> periods_param s = 2000 \<and>
    map (\<lambda>t. at_prio (nt_attr t)) (created s) = [98, 97, 96, 95, 94, 93, 1, 99]"
proof -
  have "os_ready os_fine" "\<And>i. create_rc os_fine i = 0" by (simp_all add: os_ready_def os_fine_def)
  from seqgen2_main_threads [OF this] show ?thesis
    by (auto simp: fifo_thread_def os_fine_def)
qed

text \<open>
  When every call succeeds, seqgen.c runs to its end having created the services 1 to 7
  with \<open>SCHED_FIFO\<close> priorities max - 1, max - 2, max - 3, max - 3, max - 3, max - 2 and min,
  and the sequencer with priority max, none of them bound to a core. Service 4 has the priority
  of the services of half its rate, not that of the services of its own rate.
\<close>
theorem seqgen_main_threads:
  assumes "os_ready os" and "\<And>i. create_rc os i = 0"
  shows "\<exists>s. seqgen_main os = Inr s \<and> periods_param s = 900 \<and>
    created s =
      [fifo_thread (Service_entry 1) (prio_max os - 1) None 1,
       fifo_thread (Service_entry 2) (prio_max os - 2) None 2,
       fifo_thread (Service_entry 3) (prio_max os - 3) None 3,
       fifo_thread (Service_entry 4) (prio_max os - 3) None 4,
       fifo_thread (Service_entry 5) (prio_max os - 3) None 5,
       fifo_thread (Service_entry 6) (prio_max os - 2) None 6,
       fifo_thread (Service_entry 7) (prio_min os) None 7,
       fifo_thread Sequencer_entry (prio_max os) None 0]"
  using assms
  by (simp add: before_threads thread_steps join_all fifo_thread_def seqgen_periods_def
      numeral_eq_Suc)

theorem seqgen_main_threads_witness:
  "\<exists>s. seqgen_main os_fine = Inr s \<and> periods_param s = 900 \<and>
    map (\<lambda>t. at_prio (nt_attr t)) (created s) = [98, 97, 96, 96, 96, 97, 1, 99]"
proof -
  have "os_ready os_fine" "\<And>i. create_rc os_fine i = 0" by (simp_all add: os_ready_def os_fine_def)
  from seqgen_main_threads [OF this] show ?thesis
    by (auto simp: fifo_thread_def os_fine_def)
qed

lemma seqgen3_join_all: "n = length (threads s) \<Longrightarrow> list_all (\<lambda>b. b) (threads s) \<Longrightarrow>
  for_up 0 n seqgen3_main_join s =
    Inr (s\<lparr>outp := outp s @ map (\<lambda>i. Printf ''joined thread %d'' [int i]) [0..<n]\<rparr>)"
proof -
  assume n: "n = length (threads s)" and all: "list_all (\<lambda>b. b) (threads s)"
  let ?P = "\<lambda>i s'. s' = s\<lparr>outp := outp s @ map (\<lambda>i. Printf ''joined thread %d'' [int i]) [0..<i]\<rparr>"
  have "\<exists>s'. for_up 0 n seqgen3_main_join s = Inr s' \<and> ?P n s'"
    using n all
    by (intro for_up_rule)
      (auto simp: seqgen3_main_join_def join_thread_def list_all_length say_def)
  then show ?thesis by blast
qed

text \<open>
  When every call succeeds, seqgen3.c creates its seven services with priorities max - 1
  to max - 6 and min, on core 2 or 3 by the parity of their descriptor, and arms its timer with
  a period of 10 ms; it joins the seven threads in order.
\<close>
theorem seqgen3_main_threads:
  assumes "os_ready os" and "\<And>i. create_rc os i = 0"
  shows "\<exists>s. seqgen3_main os = Inr s \<and> periods_param s = 2000 \<and>
    timer_armed s = Some \<lparr>it_interval = \<lparr>tv_sec = 0, tv_nsec = 10000000\<rparr>,
      it_value = \<lparr>tv_sec = 0, tv_nsec = 10000000\<rparr>\<rparr> \<and>
    created s =
      [fifo_thread (Service_entry 1) (prio_max os - 1) (Some [2]) 0,
       fifo_thread (Service_entry 2) (prio_max os - 2) (Some [3]) 1,
       fifo_thread (Service_entry 3) (prio_max os - 3) (Some [2]) 2,
       fifo_thread (Service_entry 4) (prio_max os - 4) (Some [3]) 3,
       fifo_thread (Service_entry 5) (prio_max os - 5) (Some [2]) 4,
       fifo_thread (Service_entry 6) (prio_max os - 6) (Some [3]) 5,
       fifo_thread (Service_entry 7) (prio_min os) (Some [2]) 6]"
  using assms
  by (simp add: before_threads thread_steps seqgen3_join_all fifo_thread_def seqgen3_periods_def
      seqgen3_itime_def numeral_eq_Suc)

theorem seqgen3_main_threads_witness:
  "\<exists>s. seqgen3_main os_fine = Inr s \<and> periods_param s = 2000 \<and>
    map (\<lambda>t. at_prio (nt_attr t)) (created s) = [98, 97, 96, 95, 94, 93, 1]"
proof -
  have "os_ready os_fine" "\<And>i. create_rc os_fine i = 0" by (simp_all add: os_ready_def os_fine_def)
  from seqgen3_main_threads [OF this] show ?thesis
    by (auto simp: fifo_thread_def os_fine_def)
qed

text \<open>
  When every call succeeds, seqgenex0.c runs to its end having created its three services
  with priorities max - 1, max - 2 and max - 3 and the sequencer with priority max, all on
  core 3: the sequencer has the highest priority of the threads of that core.
\<close>
theorem seqgenex0_main_threads:
  assumes "os_ready os" and "\<And>i. create_rc os i = 0"
  shows "\<exists>s. seqgenex0_main os = Inr s \<and> periods_param s = 2400 \<and>
    created s =
      [fifo_thread (Service_entry 1) (prio_max os - 1) (Some [3]) 1,
       fifo_thread (Service_entry 2) (prio_max os - 2) (Some [3]) 2,
       fifo_thread (Service_entry 3) (prio_max os - 3) (Some [3]) 3,
       fifo_thread Sequencer_entry (prio_max os) (Some [3]) 0]"
  using assms
  by (simp add: before_threads thread_steps join_all fifo_thread_def RTSEQ_PERIODS_def
      numeral_eq_Suc)

theorem seqgenex0_main_threads_witness:
  "\<exists>s. seqgenex0_main os_fine = Inr s \<and> periods_param s = 2400 \<and>
    map (\<lambda>t. at_prio (nt_attr t)) (created s) = [98, 97, 96, 99]"
proof -
  have "os_ready os_fine" "\<And>i. create_rc os_fine i = 0" by (simp_all add: os_ready_def os_fine_def)
  from seqgenex0_main_threads [OF this] show ?thesis
    by (auto simp: fifo_thread_def os_fine_def)
qed

section \<open>Threads that cannot be created\<close>

fun is_perror :: "out \<Rightarrow> bool" where
  "is_perror (Perror m) = True"
| "is_perror (Printf m xs) = False"

lemma threads_create_nth:
  "threads (create_thread os i p fn f k s) ! j \<longleftrightarrow>
     threads s ! j \<or> j = i \<and> i < length (threads s) \<and> create_rc os i = 0"
  by (cases "i < length (threads s)"; cases "j = i") (auto simp: list_update_beyond)

lemma threads_create_length [simp]: "length (threads (create_thread os i p fn f k s)) = length (threads s)"
  by simp

lemma print_scope_outp: "list_all (\<lambda>l. \<not> is_perror l) (outp (print_scope os s)) =
  list_all (\<lambda>l. \<not> is_perror l) (outp s)"
  by (simp add: print_scope_def split: scope.splits)

text \<open>
  \<open>pthread_create\<close> reports a failure by a positive error number, but the programs test
  for a negative one: when a thread of seqgen2.c cannot be created, no error is printed, and
  \<open>main\<close> joins a thread descriptor that was never written.
\<close>
theorem seqgen2_main_unchecked_create:
  assumes "os_ready os" and "0 \<le> setscheduler_rc os" and "\<And>i. 0 \<le> create_rc os i"
    and "j < 8" and "create_rc os j \<noteq> 0"
  shows "\<exists>s. seqgen2_main os = Inl (Bad_Join, s) \<and> list_all (\<lambda>l. \<not> is_perror l) (outp s)"
proof -
  let ?ok = "\<lambda>s. list_all (\<lambda>l. \<not> is_perror l) (outp s)"
  define s0 where "s0 = (say (Printf ''rt_min_prio=%d'' [prio_min os])
      (say (Printf ''rt_max_prio=%d'' [prio_max os])
      (print_scope os (say (Printf ''Pthread Policy is SCHED_FIFO'' []) (set_fifo os
      (say (Printf ''Using CPUS=%d from total available.'' [4])
      (say (Printf ''System has %d processors configured and %d available.''
        [nprocs_conf os, nprocs os])
      (say (Printf ''Starting High Rate Sequencer Demo'' []) (mst_init 8)))))))))
    \<lparr>rt_sched_attr := map (\<lambda>i. \<lparr>at_explicit = True, at_policy = SCHED_FIFO,
        at_prio = prio_max os - int i, at_cpus = Some [if i mod 2 = 0 then 2 else 3]\<rparr>) [0..<8],
      threadIdx := [0..<8]\<rparr>"
  define s1 where "s1 = seqgen2_main_sequencer os (seqgen2_main_services os s0)"
  have main: "seqgen2_main os =
      bindR (for_up 0 8 join_thread s1) (\<lambda>s. Inr (say (Printf ''TEST COMPLETE'' []) s))"
    using assms(1)
    by (simp add: os_ready_def seqgen2_main_def seqgen2_main_sems_def seqgen2_main_sched_def
        Let_def sem_init_ok print_scheduler_fifo attr_loops s0_def s1_def)
  have "?ok s0"
    using assms(2)
    by (simp add: s0_def print_scope_outp set_fifo_def mst_init_def)
  then have ok: "?ok s1"
    using assms(3)
    by (simp add: s1_def seqgen2_main_sequencer_def seqgen2_main_services_def create_service_def
        create_sequencer_def Let_def not_less)
  have "length (threads s0) = 8" "\<not> threads s0 ! j"
    using assms(4) by (simp_all add: s0_def)
  then have "\<not> threads s1 ! j"
    using assms(4,5)
    by (auto simp: s1_def seqgen2_main_sequencer_def seqgen2_main_services_def create_service_def
        create_sequencer_def Let_def threads_create_nth simp del: create_thread_sel(5))
  then have "seqgen2_main os = Inl (Bad_Join, s1)"
    using assms(4) by (auto simp: main join_loop)
  with ok show ?thesis by blast
qed

theorem seqgen2_main_unchecked_create_witness:
  "\<exists>s. seqgen2_main (os_fine\<lparr>create_rc := (\<lambda>i. if i = 3 then EAGAIN else 0)\<rparr>) = Inl (Bad_Join, s) \<and>
    list_all (\<lambda>l. \<not> is_perror l) (outp s)"
  by (rule seqgen2_main_unchecked_create [where j = 3])
    (simp_all add: os_ready_def os_fine_def EAGAIN_def)

end
