(* ===== verification/Seq_Fifo.thy ===== *)
theory Seq_Fifo
  imports Seq_Shutdown Seq_Main_Props
begin

text \<open>
  Scheduling by the attributes that \<open>main\<close> gave its threads, as POSIX defines \<open>SCHED_FIFO\<close>: a thread does not run while a thread
  of higher priority that is bound to the same core is ready. For the threads of \<^verbatim>\<open>seqgenex0.c\<close> this implies the
  scheduling of theory \<open>Seq_System\<close>.
\<close>

fun runs :: "thread \<Rightarrow> entry \<Rightarrow> bool" where
  "runs Seq e = (e = Sequencer_entry)"
| "runs (Svc i) e = (e = Service_entry (Suc i))"

definition attr_of :: "new_thread list \<Rightarrow> thread \<Rightarrow> thread_attr option" where
  "attr_of ts w = map_option nt_attr (find (\<lambda>t. runs w (nt_entry t)) ts)"

definition outranks :: "thread_attr \<Rightarrow> thread_attr \<Rightarrow> bool" where
  "outranks a b \<longleftrightarrow> at_explicit a \<and> at_explicit b \<and> at_policy a = SCHED_FIFO \<and> at_policy b = SCHED_FIFO \<and>
     at_cpus a = at_cpus b \<and> (case at_cpus a of Some [c] \<Rightarrow> True | _ \<Rightarrow> False) \<and> at_prio b < at_prio a"

text \<open>A thread is ready when it can make a step and does not sleep.\<close>

fun ready_to_run :: "service list \<Rightarrow> thread \<Rightarrow> sys \<Rightarrow> bool" where
  "ready_to_run svcs Seq s = (case acts s of [] \<Rightarrow> False | a # as \<Rightarrow> \<not> is_sleep a)"
| "ready_to_run svcs (Svc i) s = (sys_step svcs (Svc i) s \<noteq> None)"

definition fifo_allowed :: "new_thread list \<Rightarrow> service list \<Rightarrow> thread \<Rightarrow> sys \<Rightarrow> bool" where
  "fifo_allowed ts svcs w s \<longleftrightarrow> (case attr_of ts w of
     None \<Rightarrow> False
   | Some a \<Rightarrow> list_all (\<lambda>v. case attr_of ts v of None \<Rightarrow> True | Some b \<Rightarrow> outranks b a \<longrightarrow> \<not> ready_to_run svcs v s)
       (Seq # map Svc [0..<length svcs]))"

definition fifo_final :: "new_thread list \<Rightarrow> service list \<Rightarrow> sys \<Rightarrow> bool" where
  "fifo_final ts svcs s \<longleftrightarrow>
     list_all (\<lambda>w. fifo_allowed ts svcs w s \<longrightarrow> sys_step svcs w s = None) (Seq # map Svc [0..<length svcs])"

lemma reach_mono:
  "reach A svcs as s \<Longrightarrow> (\<And>w s. A w s \<Longrightarrow> B w s) \<Longrightarrow> reach B svcs as s"
  by (induction rule: reach.induct) (auto intro: reach.intros)

text \<open>The threads of \<^verbatim>\<open>seqgenex0.c\<close>.\<close>

definition seqgenex0_threads :: "int \<Rightarrow> new_thread list" where
  "seqgenex0_threads p =
     [fifo_thread (Service_entry 1) (p - 1) (Some [3]) 1,
      fifo_thread (Service_entry 2) (p - 2) (Some [3]) 2,
      fifo_thread (Service_entry 3) (p - 3) (Some [3]) 3,
      fifo_thread Sequencer_entry p (Some [3]) 0]"

lemma seqgenex0_attr:
  "attr_of (seqgenex0_threads p) Seq = Some \<lparr>at_explicit = True, at_policy = SCHED_FIFO, at_prio = p, at_cpus = Some [3]\<rparr>"
  "attr_of (seqgenex0_threads p) (Svc i) =
     (if i < 3 then Some \<lparr>at_explicit = True, at_policy = SCHED_FIFO, at_prio = p - 1 - int i, at_cpus = Some [3]\<rparr> else None)"
  by (auto simp: attr_of_def seqgenex0_threads_def fifo_thread_def)

lemma seqgenex0_services_length [simp]: "length seqgenex0_services = 3"
  by (simp add: seqgenex0_services_def)

lemma seqgenex0_fifo_Seq: "fifo_allowed (seqgenex0_threads p) seqgenex0_services Seq s"
  by (simp add: fifo_allowed_def seqgenex0_attr outranks_def list_all_iff)

lemma seqgenex0_fifo_Svc:
  "fifo_allowed (seqgenex0_threads p) seqgenex0_services (Svc i) s \<longleftrightarrow>
     i < 3 \<and> \<not> ready_to_run seqgenex0_services Seq s \<and> (\<forall>j < i. \<not> ready_to_run seqgenex0_services (Svc j) s)"
  by (auto simp: fifo_allowed_def seqgenex0_attr outranks_def list_all_iff)

lemma seqgenex0_fifo_prio: "fifo_allowed (seqgenex0_threads p) seqgenex0_services w s \<Longrightarrow> prio_allowed w s"
  by (cases w) (auto simp: seqgenex0_fifo_Svc split: list.splits)

lemma seqgenex0_fifo_final:
  assumes "fifo_final (seqgenex0_threads p) seqgenex0_services s"
  shows "prio_final seqgenex0_services s"
proof -
  have seq: "sys_step seqgenex0_services Seq s = None"
    using assms seqgenex0_fifo_Seq by (simp add: fifo_final_def)
  then have nr: "\<not> ready_to_run seqgenex0_services Seq s" by (simp add: seq_step_None_iff)
  have "sys_step seqgenex0_services (Svc i) s = None" if "i < 3" for i
    using that
  proof (induction i rule: less_induct)
    case (less i)
    then have "\<forall>j < i. \<not> ready_to_run seqgenex0_services (Svc j) s" by simp
    then have "fifo_allowed (seqgenex0_threads p) seqgenex0_services (Svc i) s"
      using nr less.prems unfolding seqgenex0_fifo_Svc by blast
    then show ?case using assms less.prems by (simp add: fifo_final_def list_all_iff)
  qed
  then show ?thesis using seq unfolding prio_final_def list_all_iff by auto
qed

text \<open>Every execution can be completed.\<close>

lemma fifo_final_exists: "\<exists>s. reach (fifo_allowed ts seqgenex0_services) seqgenex0_services as s \<and> fifo_final ts seqgenex0_services s"
proof -
  have "reach A seqgenex0_services as s \<Longrightarrow>
    \<exists>s'. reach A seqgenex0_services as s' \<and> list_all (\<lambda>w. A w s' \<longrightarrow> sys_step seqgenex0_services w s' = None) (Seq # map Svc [0..<length seqgenex0_services])"
    for A s
    by (rule seqgenex0_sys.allowed_final_exists)
  from this [OF reach_init] show ?thesis by (simp add: fifo_final_def)
qed

end
