(* ===== verification/Rt_Clock.thy ===== *)
theory Rt_Clock
  imports Posix
begin

text \<open>
  The clock test \<^verbatim>\<open>rtos_rte_cp/RT-Clock/posix_clock.c\<close>: the subtraction \<open>delta_t\<close> of time
  values, the test \<open>delay_test\<close> that measures 100 sleeps of 10 ms, and \<open>main\<close>. The static
  variables are the record \<open>clk\<close>; clock readings and \<open>nanosleep\<close> are arguments.
\<close>

section \<open>Time differences\<close>

definition NSEC_PER_SEC :: int where
  "NSEC_PER_SEC = 1000000000"

definition ERROR :: int where
  "ERROR = -1"

definition OK :: int where
  "OK = 0"

definition d_ftime :: "timespec \<Rightarrow> timespec \<Rightarrow> rat" where
  "d_ftime fstart fstop = ts_double fstop - ts_double fstart"

text \<open>The result code and the new value of the output argument, whose old value is the last
  argument. The differences are stored in variables of type \<open>int\<close>.\<close>

definition delta_t :: "timespec \<Rightarrow> timespec \<Rightarrow> timespec \<Rightarrow> int \<times> timespec" where
  "delta_t stop start dt =
     (let dt_sec = to_int32 (tv_sec stop - tv_sec start);
          dt_nsec = to_int32 (tv_nsec stop - tv_nsec start)
      in if dt_sec = 0 then
           (if dt_nsec \<ge> 0 \<and> dt_nsec < NSEC_PER_SEC
            then (OK, \<lparr>tv_sec = 0, tv_nsec = dt_nsec\<rparr>)
            else if dt_nsec > NSEC_PER_SEC
            then (OK, \<lparr>tv_sec = 1, tv_nsec = dt_nsec - NSEC_PER_SEC\<rparr>)
            else (ERROR, dt))
         else if dt_sec > 0 then
           (if dt_nsec \<ge> 0 \<and> dt_nsec < NSEC_PER_SEC
            then (OK, \<lparr>tv_sec = dt_sec, tv_nsec = dt_nsec\<rparr>)
            else if dt_nsec > NSEC_PER_SEC
            then (OK, \<lparr>tv_sec = tv_sec dt + 1, tv_nsec = dt_nsec - NSEC_PER_SEC\<rparr>)
            else (OK, \<lparr>tv_sec = dt_sec - 1, tv_nsec = NSEC_PER_SEC + dt_nsec\<rparr>))
         else (OK, dt))"

text \<open>The difference of the seconds fits into an \<open>int\<close>.\<close>

definition near :: "timespec \<Rightarrow> timespec \<Rightarrow> bool" where
  "near a b \<longleftrightarrow> \<bar>tv_sec a - tv_sec b\<bar> < 2 ^ 31"

lemma delta_t_later:
  assumes "ts_valid stop" and "ts_valid start" and "near stop start" and "ts_ns start \<le> ts_ns stop"
  shows "fst (delta_t stop start dt) = OK" and "ts_valid (snd (delta_t stop start dt))"
    and "ts_ns (snd (delta_t stop start dt)) = ts_ns stop - ts_ns start"
proof -
  have "to_int32 (tv_sec stop - tv_sec start) = tv_sec stop - tv_sec start"
    "to_int32 (tv_nsec stop - tv_nsec start) = tv_nsec stop - tv_nsec start"
    using assms by (simp_all add: near_def ts_valid_def NANOSEC_PER_SEC_def)
  then show "fst (delta_t stop start dt) = OK" "ts_valid (snd (delta_t stop start dt))"
    "ts_ns (snd (delta_t stop start dt)) = ts_ns stop - ts_ns start"
    using assms
    by (auto simp: delta_t_def Let_def ts_valid_def ts_ns_def NANOSEC_PER_SEC_def NSEC_PER_SEC_def
        OK_def ERROR_def)
qed

section \<open>The delay test\<close>

record clk =
  sleep_time :: timespec
  sleep_requested :: timespec
  remaining_time :: timespec
  sleep_count :: "32 word"
  rtclk_dt :: timespec
  rtclk_start_time :: timespec
  rtclk_stop_time :: timespec
  delay_error :: timespec

definition zero_ts :: timespec where
  "zero_ts = \<lparr>tv_sec = 0, tv_nsec = 0\<rparr>"

definition clk_init :: clk where
  "clk_init = \<lparr>sleep_time = zero_ts, sleep_requested = zero_ts, remaining_time = zero_ts,
     sleep_count = 0, rtclk_dt = zero_ts, rtclk_start_time = zero_ts, rtclk_stop_time = zero_ts,
     delay_error = zero_ts\<rparr>"

definition max_sleep_calls :: "32 word" where
  "max_sleep_calls = 3"

definition TEST_ITERATIONS :: nat where
  "TEST_ITERATIONS = 100"

definition TEST_SLEEP :: timespec where
  "TEST_SLEEP = \<lparr>tv_sec = 0, tv_nsec = NSEC_PER_MSEC * 10\<rparr>"

text \<open>
  The sleep loop: \<open>ns k t\<close> is the result of the \<open>k\<close>-th call of \<open>nanosleep\<close>, for the time \<open>t\<close>,
  and the remaining time it stores when it fails. The result is the index of the next call.
\<close>

function sleep_loop :: "(nat \<Rightarrow> timespec \<Rightarrow> int \<times> timespec) \<Rightarrow> nat \<Rightarrow> clk \<Rightarrow> nat \<times> clk" where
  "sleep_loop ns k s =
     (let (rc, rem) = ns k (sleep_time s)
      in if rc = 0 then (Suc k, s)
         else (let s' = s\<lparr>remaining_time := rem, sleep_time := rem, sleep_count := sleep_count s + 1\<rparr>
               in if (tv_sec rem > 0 \<or> tv_nsec rem > 0) \<and> sleep_count s + 1 < max_sleep_calls
                  then sleep_loop ns (Suc k) s' else (Suc k, s')))"
  by pat_completeness auto
termination
  by (relation "measure (\<lambda>(ns, k, s). unat (max_sleep_calls - 1 - sleep_count s))")
    (simp_all add: unat_counter_decreases unat_counter_decreases')

declare sleep_loop.simps [simp del]

text \<open>What \<open>end_delay_test\<close> prints: the measured time (seconds, milli-, micro- and nanoseconds and
  as a floating-point number) and the error of the delay.\<close>

record report =
  rp_dt :: "int \<times> int \<times> int \<times> int"
  rp_real :: rat
  rp_error :: "int \<times> int"

definition end_delay_test :: "clk \<Rightarrow> report" where
  "end_delay_test s =
     \<lparr>rp_dt = (tv_sec (rtclk_dt s), c_div (tv_nsec (rtclk_dt s)) 1000000,
               c_div (tv_nsec (rtclk_dt s)) 1000, tv_nsec (rtclk_dt s)),
      rp_real = d_ftime (rtclk_start_time s) (rtclk_stop_time s),
      rp_error = (tv_sec (delay_error s), tv_nsec (delay_error s))\<rparr>"

text \<open>One iteration; \<open>t0\<close> and \<open>t1\<close> are the readings of the clock before and after the sleep.\<close>

definition delay_iteration ::
  "(nat \<Rightarrow> timespec \<Rightarrow> int \<times> timespec) \<Rightarrow> timespec \<Rightarrow> timespec \<Rightarrow> nat \<times> clk \<Rightarrow> nat \<times> clk" where
  "delay_iteration ns t0 t1 ks =
     (let (k, s) = ks;
          s = s\<lparr>sleep_time := TEST_SLEEP, sleep_requested := TEST_SLEEP, rtclk_start_time := t0\<rparr>;
          (k, s) = sleep_loop ns k s;
          s = s\<lparr>rtclk_stop_time := t1\<rparr>;
          s = s\<lparr>rtclk_dt := snd (delta_t (rtclk_stop_time s) (rtclk_start_time s) (rtclk_dt s))\<rparr>;
          s = s\<lparr>delay_error := snd (delta_t (rtclk_dt s) (sleep_requested s) (delay_error s))\<rparr>
      in (k, s))"

text \<open>The iterations from \<open>idx\<close> on, and the reports they print.\<close>

fun delay_iterations ::
  "(nat \<Rightarrow> timespec \<Rightarrow> int \<times> timespec) \<Rightarrow> (nat \<Rightarrow> timespec \<times> timespec) \<Rightarrow> nat \<Rightarrow> nat \<Rightarrow> nat \<times> clk
   \<Rightarrow> report list \<times> clk" where
  "delay_iterations ns clock idx 0 ks = ([], snd ks)"
| "delay_iterations ns clock idx (Suc n) ks =
     (let ks' = delay_iteration ns (fst (clock idx)) (snd (clock idx)) ks;
          (rs, s) = delay_iterations ns clock (Suc idx) n ks'
      in (end_delay_test (snd ks') # rs, s))"

text \<open>The thread: \<open>res_rc\<close> is the result of \<open>clock_getres\<close>.\<close>

definition delay_test ::
  "int \<Rightarrow> (nat \<Rightarrow> timespec \<Rightarrow> int \<times> timespec) \<Rightarrow> (nat \<Rightarrow> timespec \<times> timespec) \<Rightarrow> clk
   \<Rightarrow> int + report list \<times> clk" where
  "delay_test res_rc ns clock s =
     (let s = s\<lparr>sleep_count := 0\<rparr>
      in if res_rc = ERROR then Inl (-1)
         else Inr (delay_iterations ns clock 0 TEST_ITERATIONS (0, s)))"

section \<open>main\<close>

record rt_env =
  env_policy_before :: policy
  env_setscheduler_rc :: int
  env_policy_after :: policy
  env_create_rc :: int
  env_destroy_rc :: int

definition policy_line :: "policy \<Rightarrow> string" where
  "policy_line p = (case p of
       SCHED_FIFO \<Rightarrow> ''Pthread Policy is SCHED_FIFO''
     | SCHED_OTHER \<Rightarrow> ''Pthread Policy is SCHED_OTHER''
     | SCHED_RR \<Rightarrow> ''Pthread Policy is SCHED_RR''
     | SCHED_UNKNOWN \<Rightarrow> ''Pthread Policy is UNKNOWN'')"

text \<open>\<open>thread\<close> is the outcome of the thread that runs \<open>delay_test\<close>. The result is the exit code, or
  the lines printed around the reports and the reports.\<close>

definition posix_clock_main ::
  "rt_env \<Rightarrow> int + report list \<times> clk \<Rightarrow> int + string list \<times> report list" where
  "posix_clock_main e thread =
     (let out = [''Before adjustments to scheduling policy:'', policy_line (env_policy_before e)]
      in if env_setscheduler_rc e \<noteq> 0 then Inl (-1)
         else (let out = out @ [''After adjustments to scheduling policy:'', policy_line (env_policy_after e)]
               in if env_create_rc e \<noteq> 0 then Inl (-1)
                  else bindR thread (\<lambda>(rs, s).
                    Inr (out @ (if env_destroy_rc e \<noteq> 0 then [''attr destroy''] else []) @
                         [''TEST COMPLETE''], rs))))"

section \<open>Properties\<close>

text \<open>
  \<open>delta_t\<close> is exact when \<open>stop\<close> is not before \<open>start\<close> (both valid, their seconds within the
  range of \<open>int\<close>): it returns \<open>OK\<close> and a valid time value for the difference, whatever the
  output argument held before.
\<close>
theorem delta_t_exact:
  assumes "ts_valid stop" and "ts_valid start" and "near stop start" and "ts_ns start \<le> ts_ns stop"
  shows "\<exists>d. delta_t stop start dt = (OK, d) \<and> ts_valid d \<and> ts_ns d = ts_ns stop - ts_ns start"
  using delta_t_later [OF assms, of dt] by (intro exI [of _ "snd (delta_t stop start dt)"]) (auto simp: prod_eq_iff)

theorem delta_t_exact_witness:
  "\<exists>d. delta_t \<lparr>tv_sec = 5, tv_nsec = 100\<rparr> \<lparr>tv_sec = 3, tv_nsec = 999999900\<rparr> zero_ts = (OK, d) \<and>
    ts_valid d \<and> ts_ns d = 1000000200"
  using delta_t_exact [of "\<lparr>tv_sec = 5, tv_nsec = 100\<rparr>" "\<lparr>tv_sec = 3, tv_nsec = 999999900\<rparr>" zero_ts]
  by (simp add: ts_valid_def near_def ts_ns_def NANOSEC_PER_SEC_def)

text \<open>
  When \<open>stop\<close> is before \<open>start\<close>, \<open>delta_t\<close> leaves its output argument as it was; it reports
  \<open>ERROR\<close> only if both lie in the same second, and \<open>OK\<close> otherwise.
\<close>
theorem delta_t_earlier:
  assumes "ts_valid stop" and "ts_valid start" and "near stop start" and "ts_ns stop < ts_ns start"
  shows "delta_t stop start dt = (if tv_sec stop = tv_sec start then ERROR else OK, dt)"
proof -
  have "to_int32 (tv_sec stop - tv_sec start) = tv_sec stop - tv_sec start"
    "to_int32 (tv_nsec stop - tv_nsec start) = tv_nsec stop - tv_nsec start"
    using assms by (simp_all add: near_def ts_valid_def NANOSEC_PER_SEC_def)
  then show ?thesis
    using assms
    by (auto simp: delta_t_def Let_def ts_valid_def ts_ns_def NANOSEC_PER_SEC_def NSEC_PER_SEC_def)
qed

theorem delta_t_earlier_witness:
  "delta_t \<lparr>tv_sec = 3, tv_nsec = 0\<rparr> \<lparr>tv_sec = 5, tv_nsec = 0\<rparr> \<lparr>tv_sec = 7, tv_nsec = 7\<rparr> =
     (OK, \<lparr>tv_sec = 7, tv_nsec = 7\<rparr>)"
  using delta_t_earlier [of "\<lparr>tv_sec = 3, tv_nsec = 0\<rparr>" "\<lparr>tv_sec = 5, tv_nsec = 0\<rparr>" "\<lparr>tv_sec = 7, tv_nsec = 7\<rparr>"]
  by (simp add: ts_valid_def near_def ts_ns_def NANOSEC_PER_SEC_def)


text \<open>The times a report shows, in nanoseconds.\<close>

definition rp_dt_ns :: "report \<Rightarrow> int" where
  "rp_dt_ns r = (case rp_dt r of (sec, msec, usec, nsec) \<Rightarrow> sec * NANOSEC_PER_SEC + nsec)"

definition rp_error_ns :: "report \<Rightarrow> int" where
  "rp_error_ns r = (case rp_error r of (sec, nsec) \<Rightarrow> sec * NANOSEC_PER_SEC + nsec)"

text \<open>A sleep of 10 ms between two readings of a clock, as documented: at least that long.\<close>

definition slept :: "timespec \<times> timespec \<Rightarrow> bool" where
  "slept t \<longleftrightarrow> ts_valid (fst t) \<and> ts_valid (snd t) \<and> near (snd t) (fst t) \<and>
     ts_ns (fst t) + 10000000 \<le> ts_ns (snd t)"

lemma TEST_SLEEP_simps [simp]: "ts_valid TEST_SLEEP" "ts_ns TEST_SLEEP = 10000000" "tv_sec TEST_SLEEP = 0"
  by (simp_all add: TEST_SLEEP_def ts_valid_def ts_ns_def NSEC_PER_MSEC_def NANOSEC_PER_SEC_def)

lemma sleep_loop_once: "fst (ns k (sleep_time s)) = 0 \<Longrightarrow> sleep_loop ns k s = (Suc k, s)"
  by (subst sleep_loop.simps) (simp add: split_def)

lemma delay_iteration_report:
  assumes "\<And>k t. fst (ns k t) = 0" and "slept (t0, t1)"
  shows "rp_dt_ns (end_delay_test (snd (delay_iteration ns t0 t1 ks))) = ts_ns t1 - ts_ns t0"
    and "rp_error_ns (end_delay_test (snd (delay_iteration ns t0 t1 ks))) = ts_ns t1 - ts_ns t0 - 10000000"
proof -
  let ?s = "snd (delay_iteration ns t0 t1 ks)"
  have t: "ts_valid t1" "ts_valid t0" "near t1 t0" "ts_ns t0 \<le> ts_ns t1" "ts_ns t0 + 10000000 \<le> ts_ns t1"
    using assms(2) by (simp_all add: slept_def)
  obtain old where "rtclk_dt ?s = snd (delta_t t1 t0 old)"
    by (auto simp: delay_iteration_def Let_def split_def sleep_loop_once assms(1))
  then have dt: "ts_valid (rtclk_dt ?s)" "ts_ns (rtclk_dt ?s) = ts_ns t1 - ts_ns t0"
    using delta_t_later [OF t(1-4), of old] by simp_all
  obtain olde where err: "delay_error ?s = snd (delta_t (rtclk_dt ?s) TEST_SLEEP olde)"
    by (auto simp: delay_iteration_def Let_def split_def sleep_loop_once assms(1))
  have "near (rtclk_dt ?s) TEST_SLEEP"
    using dt t by (auto simp: near_def ts_ns_def ts_valid_def NANOSEC_PER_SEC_def)
  then have "ts_ns (delay_error ?s) = ts_ns t1 - ts_ns t0 - 10000000"
    using delta_t_later(3) [OF dt(1), of TEST_SLEEP olde] dt(2) t(5) by (simp add: err)
  with dt(2) show "rp_dt_ns (end_delay_test ?s) = ts_ns t1 - ts_ns t0"
    "rp_error_ns (end_delay_test ?s) = ts_ns t1 - ts_ns t0 - 10000000"
    by (simp_all add: rp_dt_ns_def rp_error_ns_def end_delay_test_def ts_ns_def)
qed

lemma delay_iterations_reports:
  assumes "\<And>k t. fst (ns k t) = 0" and "\<And>i. slept (clock i)"
  shows "map rp_dt_ns (fst (delay_iterations ns clock idx n ks)) =
      map (\<lambda>i. ts_ns (snd (clock i)) - ts_ns (fst (clock i))) [idx..<idx + n]"
    and "map rp_error_ns (fst (delay_iterations ns clock idx n ks)) =
      map (\<lambda>i. ts_ns (snd (clock i)) - ts_ns (fst (clock i)) - 10000000) [idx..<idx + n]"
proof (induction n arbitrary: idx ks)
  case (Suc n)
  have "slept (fst (clock idx), snd (clock idx))" for idx using assms(2) by simp
  with assms(1) have rep:
    "rp_dt_ns (end_delay_test (snd (delay_iteration ns (fst (clock idx)) (snd (clock idx)) ks))) =
      ts_ns (snd (clock idx)) - ts_ns (fst (clock idx))"
    "rp_error_ns (end_delay_test (snd (delay_iteration ns (fst (clock idx)) (snd (clock idx)) ks))) =
      ts_ns (snd (clock idx)) - ts_ns (fst (clock idx)) - 10000000" for idx ks
    by (auto intro: delay_iteration_report)
  have upt: "[idx..<idx + Suc n] = idx # [Suc idx..<Suc idx + n]" for idx
    by (simp add: upt_conv_Cons del: upt_Suc)
  { case 1 show ?case unfolding upt by (simp add: Let_def split_def rep Suc.IH(1) del: upt_Suc) }
  { case 2 show ?case unfolding upt by (simp add: Let_def split_def rep Suc.IH(2) del: upt_Suc) }
qed simp_all

text \<open>
  With sleeps that are not interrupted, the delay test prints 100 reports: the measured
  time of each is exactly the difference of its two clock readings, and the error is that time
  less the requested 10 ms.
\<close>
theorem delay_test_reports:
  assumes "res_rc \<noteq> ERROR" and "\<And>k t. fst (ns k t) = 0" and "\<And>i. slept (clock i)"
  shows "\<exists>rs s'. delay_test res_rc ns clock s = Inr (rs, s') \<and>
    map rp_dt_ns rs = map (\<lambda>i. ts_ns (snd (clock i)) - ts_ns (fst (clock i))) [0..<100] \<and>
    map rp_error_ns rs = map (\<lambda>i. ts_ns (snd (clock i)) - ts_ns (fst (clock i)) - 10000000) [0..<100]"
proof -
  let ?r = "delay_iterations ns clock 0 100 (0, s\<lparr>sleep_count := 0\<rparr>)"
  have "delay_test res_rc ns clock s = Inr (fst ?r, snd ?r)"
    using assms(1) by (simp add: delay_test_def TEST_ITERATIONS_def Let_def)
  then show ?thesis
    using delay_iterations_reports [of ns clock 0 100, OF assms(2,3)]
    by (intro exI [of _ "fst ?r"] exI [of _ "snd ?r"]) simp
qed

theorem delay_test_reports_witness:
  "\<exists>rs s'. delay_test 0 (\<lambda>k t. (0, zero_ts))
      (\<lambda>i. (\<lparr>tv_sec = int i, tv_nsec = 5\<rparr>, \<lparr>tv_sec = int i, tv_nsec = 10000042\<rparr>)) clk_init = Inr (rs, s') \<and>
    map rp_dt_ns rs = map (\<lambda>i. 10000037) [0..<100] \<and> map rp_error_ns rs = map (\<lambda>i. 37) [0..<100]"
  using delay_test_reports [of 0 "\<lambda>k t. (0, zero_ts)"
      "\<lambda>i. (\<lparr>tv_sec = int i, tv_nsec = 5\<rparr>, \<lparr>tv_sec = int i, tv_nsec = 10000042\<rparr>)" clk_init]
  by (simp add: ERROR_def slept_def ts_valid_def near_def ts_ns_def NANOSEC_PER_SEC_def)

text \<open>
  The limit of three calls is a budget for the whole test, not for one sleep: one loop makes
  at most \<open>3 - sleep_count\<close> calls of \<open>nanosleep\<close> while that is positive, and once the count has
  reached three, exactly one, so that an interrupted sleep is not resumed.
\<close>
theorem sleep_loop_calls:
  assumes "unat (sleep_count s) < 2 ^ 32 - 1"
  shows "k < fst (sleep_loop ns k s) \<and>
    fst (sleep_loop ns k s) \<le> k + max 1 (3 - unat (sleep_count s))"
  using assms
proof (induction ns k s rule: sleep_loop.induct)
  case (1 ns k s)
  obtain rc rem where ns: "ns k (sleep_time s) = (rc, rem)" by fastforce
  have inc: "unat (sleep_count s + 1) = unat (sleep_count s) + 1"
    using "1.prems" by (simp add: unat_word_ariths)
  show ?case
  proof (cases "rc \<noteq> 0 \<and> (tv_sec rem > 0 \<or> tv_nsec rem > 0) \<and> sleep_count s + 1 < max_sleep_calls")
    case False
    then show ?thesis using ns by (subst (1 2) sleep_loop.simps) (auto simp: Let_def)
  next
    case True
    then have "unat (sleep_count s) + 1 < 3"
      using inc by (simp add: word_less_nat_alt max_sleep_calls_def)
    moreover have "sleep_loop ns k s = sleep_loop ns (Suc k)
        (s\<lparr>remaining_time := rem, sleep_time := rem, sleep_count := sleep_count s + 1\<rparr>)"
      using True ns by (subst sleep_loop.simps) (auto simp: Let_def)
    ultimately show ?thesis
      using "1.IH" [OF ns [symmetric] refl _ refl] True ns inc by auto
  qed
qed

theorem sleep_loop_calls_witness:
  "fst (sleep_loop (\<lambda>k t. (-1, TEST_SLEEP)) 7 (clk_init\<lparr>sleep_count := 3\<rparr>)) = 8"
  using sleep_loop_calls [of "clk_init\<lparr>sleep_count := 3\<rparr>" 7 "\<lambda>k t. (-1, TEST_SLEEP)"] by simp

end
