(* ===== verification/Timers.thy ===== *)
theory Timers
  imports Posix
begin

text \<open>
  The timer programs of \<^verbatim>\<open>rtos_rte_cp/timer\<close>: \<^verbatim>\<open>itimer.c\<close> (tick and tock), \<^verbatim>\<open>posix_rt_timer.c\<close>
  (tick counting with accumulated jitter), \<^verbatim>\<open>posix_sw_wd.c\<close> (a software watchdog) and
  \<^verbatim>\<open>posix_timer.c\<close> (a timer with a blocked signal). A handler is a function on the static
  variables of its program; the deliveries of its signal are a list. Arithmetic of type \<open>int\<close>
  wraps around, as on the targets of the programs.
\<close>

section \<open>itimer.c\<close>

text \<open>The handler prints the clock reading, as a tick or a tock.\<close>

datatype beat = Tick timespec | Tock timespec

definition interval_expired :: "timespec \<Rightarrow> int \<Rightarrow> int \<times> beat" where
  "interval_expired rtclock_time count =
     (let count = to_int32 (count + 1)
      in (count, if c_mod count 2 \<noteq> 0 then Tick rtclock_time else Tock rtclock_time))"

definition itimer_itime :: itimerspec where
  "itimer_itime = \<lparr>it_interval = \<lparr>tv_sec = 1, tv_nsec = 0\<rparr>, it_value = \<lparr>tv_sec = 1, tv_nsec = 0\<rparr>\<rparr>"

text \<open>\<open>main\<close> arms the timer and pauses for ever: what it prints at the deliveries, with the clock
  readings \<open>ts\<close>.\<close>

fun itimer_beats :: "int \<Rightarrow> timespec list \<Rightarrow> beat list" where
  "itimer_beats count [] = []"
| "itimer_beats count (t # ts) =
     (let (count', b) = interval_expired t count in b # itimer_beats count' ts)"

definition itimer_main :: "timespec list \<Rightarrow> itimerspec \<times> beat list" where
  "itimer_main ts = (itimer_itime, itimer_beats 0 ts)"

section \<open>posix_rt_timer.c\<close>

record ptimer =
  period_millisecs :: int
  period_nsecs :: "64 word"
  pt_itime :: itimerspec
  tick_count :: "64 word"
  pt_rtclk_time :: timespec
  pt_start_time :: timespec
  rtclk_last_time :: timespec
  accum_jitter_nsec :: "64 word"
  tick_error :: int

definition ptimer_static :: ptimer where
  "ptimer_static =
     \<lparr>period_millisecs = 10, period_nsecs = 10000000,
      pt_itime = \<lparr>it_interval = \<lparr>tv_sec = 0, tv_nsec = 1000000000\<rparr>,
                  it_value = \<lparr>tv_sec = 0, tv_nsec = 1000000000\<rparr>\<rparr>,
      tick_count = 0, pt_rtclk_time = \<lparr>tv_sec = 0, tv_nsec = 0\<rparr>,
      pt_start_time = \<lparr>tv_sec = 0, tv_nsec = 0\<rparr>, rtclk_last_time = \<lparr>tv_sec = 0, tv_nsec = 0\<rparr>,
      accum_jitter_nsec = 0, tick_error = 0\<rparr>"

text \<open>\<open>main\<close> up to the pause loop: \<open>arg\<close> is what \<open>atoi\<close> makes of the argument, \<open>start\<close> the clock
  reading. The result of \<open>timer_settime\<close> is not looked at.\<close>

definition ptimer_main :: "nat \<Rightarrow> int \<Rightarrow> timespec \<Rightarrow> ptimer \<Rightarrow> int + ptimer" where
  "ptimer_main argc arg start s =
     bindR (if argc = 2 then Inr (s\<lparr>period_millisecs := arg\<rparr>)
            else if argc = 1 then Inr s else Inl 1) (\<lambda>s.
       let nsec = to_int32 (period_millisecs s * NSEC_PER_MSEC)
       in Inr (s\<lparr>period_nsecs := word_of_int nsec, tick_count := 0,
                 pt_rtclk_time := \<lparr>tv_sec = 0, tv_nsec = 0\<rparr>, accum_jitter_nsec := 0,
                 pt_itime := \<lparr>it_interval = \<lparr>tv_sec = 0, tv_nsec = nsec\<rparr>,
                              it_value = \<lparr>tv_sec = 0, tv_nsec = nsec\<rparr>\<rparr>,
                 pt_start_time := start, rtclk_last_time := start\<rparr>))"

text \<open>The signed difference of the readings is converted to the unsigned type of \<open>period_nsecs\<close>,
  and the result of the subtraction to \<open>int\<close>.\<close>

definition rt_interval_expired :: "timespec \<Rightarrow> ptimer \<Rightarrow> ptimer" where
  "rt_interval_expired now s =
     (let diff = (tv_sec now - tv_sec (rtclk_last_time s)) * 1000000000 +
                 (tv_nsec now - tv_nsec (rtclk_last_time s));
          err = to_int32 (uint (word_of_int diff - period_nsecs s))
      in s\<lparr>tick_count := tick_count s + 1, pt_rtclk_time := now, tick_error := err,
           accum_jitter_nsec := accum_jitter_nsec s + word_of_int (to_int32 \<bar>err\<bar>),
           rtclk_last_time := now\<rparr>)"

text \<open>What \<open>ptimer_shutdown\<close> prints, after the status of \<open>timer_delete\<close>, before it exits. The
  division and the remainder by the period trap when the period is zero.\<close>

record ptimer_report =
  pr_deleted :: bool
  pr_start :: timespec
  pr_end :: timespec
  pr_delta :: "int \<times> int"
  pr_ticks :: "64 word"
  pr_period :: "int \<times> 64 word"
  pr_tick_based :: "64 word \<times> 64 word"
  pr_jitter :: "64 word"

definition ptimer_shutdown :: "int \<Rightarrow> ptimer \<Rightarrow> ptimer_report res" where
  "ptimer_shutdown delete_rc s =
     (if period_millisecs s = 0 then Inl Div_By_Zero
      else Inr
        \<lparr>pr_deleted = (delete_rc \<noteq> -1), pr_start = pt_start_time s, pr_end = pt_rtclk_time s,
         pr_delta = (tv_sec (pt_rtclk_time s) - tv_sec (pt_start_time s),
                     tv_nsec (pt_rtclk_time s) - tv_nsec (pt_start_time s)),
         pr_ticks = tick_count s, pr_period = (period_millisecs s, period_nsecs s),
         pr_tick_based = (tick_count s div word_of_int (period_millisecs s),
                          (tick_count s mod word_of_int (period_millisecs s)) * period_nsecs s),
         pr_jitter = accum_jitter_nsec s\<rparr>)"

section \<open>posix_sw_wd.c\<close>

definition TARDY_TERMINATOR :: int where
  "TARDY_TERMINATOR = 3"

definition wd_itime :: itimerspec where
  "wd_itime = \<lparr>it_interval = \<lparr>tv_sec = 2, tv_nsec = 500000000\<rparr>,
     it_value = \<lparr>tv_sec = 2, tv_nsec = 500000000\<rparr>\<rparr>"

text \<open>The handler: the new count and the lines it prints.\<close>

definition monitor_interval_expired :: "int \<Rightarrow> int \<times> string list" where
  "monitor_interval_expired expcount =
     (let expcount = to_int32 (expcount + 1)
      in (expcount, ''Monitor interval expired'' #
           (if expcount \<le> TARDY_TERMINATOR
            then [''Respawning monitored thread and resetting watchdog timer'',
                  ''Thread to monitor has been spawned'']
            else [''Thread was late more than 3 times -- will be terminated!''])))"

text \<open>One round of the monitored task, with the value of \<open>rand()\<close>: the seconds it sleeps, and the
  timer setting it re-arms with.\<close>

definition monitored :: "int \<Rightarrow> int \<times> itimerspec" where
  "monitored r = (c_mod r 4, wd_itime)"

datatype wd_end = Exited int | Killed_By_Alarm | Paused

text \<open>
  The loop of \<open>main\<close>, for a number of expirations of the timer. A caught signal runs the handler
  and makes \<open>pause\<close> return; the default action of \<open>SIGALRM\<close> ends the process. With \<open>conn\<close>
  the handler is installed.
\<close>

fun wd_loop :: "bool \<Rightarrow> nat \<Rightarrow> int \<Rightarrow> wd_end \<times> string list" where
  "wd_loop conn 0 expcount =
     (if expcount > TARDY_TERMINATOR then (Exited 0, [''All done'']) else (Paused, []))"
| "wd_loop conn (Suc n) expcount =
     (if expcount > TARDY_TERMINATOR then (Exited 0, [''All done''])
      else if conn
      then (let (expcount', out) = monitor_interval_expired expcount;
                (e, out') = wd_loop conn n expcount'
            in (e, out @ out'))
      else (Killed_By_Alarm, []))"

text \<open>\<open>main\<close> as written: the call that would connect the handler is commented out.\<close>

definition wd_main :: "nat \<Rightarrow> wd_end \<times> string list" where
  "wd_main n =
     (let (e, out) = wd_loop False n 0 in (e, ''Thread to monitor has been spawned'' # out))"

section \<open>posix_timer.c\<close>

definition EXIT_FAILURE :: int where
  "EXIT_FAILURE = 1"

definition EXIT_SUCCESS :: int where
  "EXIT_SUCCESS = 0"

record pt_env =
  sigaction_rc :: int
  sigblock_rc :: int
  timer_create_rc :: int
  timer_settime_rc :: int
  sigunblock_rc :: int

definition freq_itimerspec :: "int \<Rightarrow> itimerspec" where
  "freq_itimerspec freq_nanosecs =
     (let v = \<lparr>tv_sec = c_div freq_nanosecs 1000000000, tv_nsec = c_mod freq_nanosecs 1000000000\<rparr>
      in \<lparr>it_interval = v, it_value = v\<rparr>)"

datatype pt_event =
  Usage | Establish | Block | Create | Settime_ev itimerspec | Sleep_ev int | Unblock | Fail string

text \<open>\<open>main\<close>: the calls it makes and its exit code; \<open>secs\<close> and \<open>freq\<close> are the values of its two
  arguments.\<close>

definition pt_main :: "nat \<Rightarrow> int \<Rightarrow> int \<Rightarrow> pt_env \<Rightarrow> pt_event list \<times> int" where
  "pt_main argc secs freq e =
     (if argc \<noteq> 3 then ([Usage], EXIT_FAILURE)
      else if sigaction_rc e = -1 then ([Establish, Fail ''sigaction''], EXIT_FAILURE)
      else if sigblock_rc e = -1 then ([Establish, Block, Fail ''sigprocmask''], EXIT_FAILURE)
      else if timer_create_rc e = -1
      then ([Establish, Block, Create, Fail ''timer_create''], EXIT_FAILURE)
      else if timer_settime_rc e = -1
      then ([Establish, Block, Create, Settime_ev (freq_itimerspec freq), Fail ''timer_settime''],
            EXIT_FAILURE)
      else if sigunblock_rc e = -1
      then ([Establish, Block, Create, Settime_ev (freq_itimerspec freq), Sleep_ev secs, Unblock,
             Fail ''sigprocmask''], EXIT_FAILURE)
      else ([Establish, Block, Create, Settime_ev (freq_itimerspec freq), Sleep_ev secs, Unblock],
            EXIT_SUCCESS))"

text \<open>The handler prints the overrun count, or ends the process when it cannot be read; then it
  sets the signal to be ignored.\<close>

datatype pt_handler_end = Handled int | Handler_Exit int

definition pt_handler :: "int \<Rightarrow> pt_handler_end" where
  "pt_handler overrun = (if overrun = -1 then Handler_Exit EXIT_FAILURE else Handled overrun)"

fun pt_deliver :: "int list \<Rightarrow> bool \<Rightarrow> pt_handler_end list" where
  "pt_deliver [] ignored = []"
| "pt_deliver (overrun # os) ignored =
     (if ignored then pt_deliver os ignored
      else (case pt_handler overrun of
              Handler_Exit c \<Rightarrow> [Handler_Exit c]
            | Handled n \<Rightarrow> Handled n # pt_deliver os True))"

section \<open>Properties\<close>

lemma interval_expired_beat:
  assumes "0 \<le> c" and "c + 1 < 2 ^ 31"
  shows "interval_expired t c = (c + 1, if even c then Tick t else Tock t)"
proof -
  have "(c + 1) mod 2 \<noteq> 0 \<longleftrightarrow> even c" by presburger
  with assms show ?thesis by (simp add: interval_expired_def Let_def)
qed

lemma itimer_beats_from:
  assumes "0 \<le> c" and "c + int (length ts) < 2 ^ 31"
  shows "itimer_beats c ts =
    map (\<lambda>i. if even (c + int i) then Tick (ts ! i) else Tock (ts ! i)) [0..<length ts]"
  using assms
proof (induction ts arbitrary: c)
  case (Cons t ts)
  have "map f [0..<Suc n] = f 0 # map (\<lambda>i. f (Suc i)) [0..<n]" for f :: "nat \<Rightarrow> beat" and n
    by (simp add: map_upt_Suc del: upt_Suc)
  then show ?case
    using Cons.IH [of "c + 1"] Cons.prems by (simp add: interval_expired_beat del: upt_Suc)
qed simp

text \<open>
  The handler of itimer.c alternates: it prints a tick at the first, third, \dots\ delivery
  and a tock at the others (before the counter wraps).
\<close>
theorem itimer_alternates:
  assumes "length ts < 2 ^ 31"
  shows "snd (itimer_main ts) =
    map (\<lambda>i. if even i then Tick (ts ! i) else Tock (ts ! i)) [0..<length ts]"
  using itimer_beats_from [of 0 ts] assms by (simp add: itimer_main_def)

theorem itimer_alternates_witness:
  "snd (itimer_main [\<lparr>tv_sec = 1, tv_nsec = 7\<rparr>, \<lparr>tv_sec = 2, tv_nsec = 8\<rparr>, \<lparr>tv_sec = 3, tv_nsec = 9\<rparr>]) =
     [Tick \<lparr>tv_sec = 1, tv_nsec = 7\<rparr>, Tock \<lparr>tv_sec = 2, tv_nsec = 8\<rparr>, Tick \<lparr>tv_sec = 3, tv_nsec = 9\<rparr>]"
  using itimer_alternates
    [of "[\<lparr>tv_sec = 1, tv_nsec = 7\<rparr>, \<lparr>tv_sec = 2, tv_nsec = 8\<rparr>, \<lparr>tv_sec = 3, tv_nsec = 9\<rparr>]"]
  by (simp add: upt_rec)

subsection \<open>Ticks and jitter\<close>

fun deltas :: "timespec \<Rightarrow> timespec list \<Rightarrow> int list" where
  "deltas t [] = []"
| "deltas t (u # us) = (ts_ns u - ts_ns t) # deltas u us"

lemma to_int32_mod: "to_int32 (x mod 2 ^ 64) = to_int32 x"
proof -
  have "(x mod 2 ^ 64 + 2 ^ 31) mod 2 ^ 32 = (x mod 2 ^ 64 mod 2 ^ 32 + 2 ^ 31) mod 2 ^ 32"
    by (simp only: mod_add_left_eq)
  also have "x mod 2 ^ 64 mod 2 ^ 32 = x mod 2 ^ 32"
    by (rule mod_mod_cancel) simp
  finally show ?thesis by (simp add: to_int32_def mod_add_left_eq)
qed

lemma rt_interval_expired_exact:
  assumes "period_nsecs s = word_of_int P" and "\<bar>ts_ns now - ts_ns (rtclk_last_time s) - P\<bar> < 2 ^ 31"
  shows "rt_interval_expired now s =
    s\<lparr>tick_count := tick_count s + 1, pt_rtclk_time := now,
      tick_error := ts_ns now - ts_ns (rtclk_last_time s) - P,
      accum_jitter_nsec := accum_jitter_nsec s +
        word_of_int \<bar>ts_ns now - ts_ns (rtclk_last_time s) - P\<bar>,
      rtclk_last_time := now\<rparr>"
proof -
  let ?d = "ts_ns now - ts_ns (rtclk_last_time s)"
  have d: "(tv_sec now - tv_sec (rtclk_last_time s)) * 1000000000 +
      (tv_nsec now - tv_nsec (rtclk_last_time s)) = ?d"
    by (simp add: ts_ns_def NANOSEC_PER_SEC_def algebra_simps)
  have "uint (word_of_int ?d - period_nsecs s) = (?d - P) mod 2 ^ 64"
    by (simp add: assms(1) uint_word_ariths uint_word_of_int mod_simps)
  then have "to_int32 (uint (word_of_int ?d - period_nsecs s)) = ?d - P"
    using assms(2) by (simp add: to_int32_mod [simplified] abs_less_iff)
  moreover have "to_int32 \<bar>?d - P\<bar> = \<bar>?d - P\<bar>" using assms(2) by simp
  ultimately show ?thesis unfolding rt_interval_expired_def Let_def d by (simp only:)
qed

lemma ticks_exact:
  assumes "period_nsecs s = word_of_int P"
    and "list_all (\<lambda>d. \<bar>d - P\<bar> < 2 ^ 31) (deltas (rtclk_last_time s) ts)"
  shows "tick_count (fold rt_interval_expired ts s) = tick_count s + of_nat (length ts)"
    and "accum_jitter_nsec (fold rt_interval_expired ts s) =
      accum_jitter_nsec s + word_of_int (\<Sum>d\<leftarrow>deltas (rtclk_last_time s) ts. \<bar>d - P\<bar>)"
  using assms
proof (induction ts arbitrary: s)
  case (Cons t ts)
  { case 1 then show ?case
      using Cons.IH(1) [of "rt_interval_expired t s"]
      by (simp add: rt_interval_expired_exact add_ac) }
  { case 2 then show ?case
      using Cons.IH(2) [of "rt_interval_expired t s"]
      by (simp add: rt_interval_expired_exact add_ac) }
qed simp_all

text \<open>
  posix_rt_timer.c counts every tick and accumulates exactly the sum of the absolute
  deviations of the intervals from the period (as 64-bit values), for periods under a second and
  deviations that fit into an \<open>int\<close>.
\<close>
theorem ptimer_jitter_exact:
  assumes "ptimer_main 2 ms start s0 = Inr s" and "0 < ms" and "ms < 1000"
    and "list_all (\<lambda>d. \<bar>d - ms * 1000000\<bar> < 2 ^ 31) (deltas start ts)"
  shows "tick_count (fold rt_interval_expired ts s) = of_nat (length ts) \<and>
    accum_jitter_nsec (fold rt_interval_expired ts s) =
      word_of_int (\<Sum>d\<leftarrow>deltas start ts. \<bar>d - ms * 1000000\<bar>)"
proof -
  have "tick_count s = 0" "accum_jitter_nsec s = 0" "rtclk_last_time s = start"
    "period_nsecs s = word_of_int (ms * 1000000)"
    using assms(1-3) by (auto simp: ptimer_main_def Let_def NSEC_PER_MSEC_def)
  then show ?thesis using ticks_exact [of s "ms * 1000000" ts] assms(4) by simp
qed

theorem ptimer_jitter_exact_witness:
  "\<exists>s. ptimer_main 2 10 \<lparr>tv_sec = 0, tv_nsec = 0\<rparr> ptimer_static = Inr s \<and>
    accum_jitter_nsec (fold rt_interval_expired
      [\<lparr>tv_sec = 0, tv_nsec = 10000700\<rparr>, \<lparr>tv_sec = 0, tv_nsec = 20000000\<rparr>] s) = 1400"
proof -
  have "\<exists>s. ptimer_main 2 10 \<lparr>tv_sec = 0, tv_nsec = 0\<rparr> ptimer_static = Inr s"
    by (simp add: ptimer_main_def Let_def)
  then obtain s where s: "ptimer_main 2 10 \<lparr>tv_sec = 0, tv_nsec = 0\<rparr> ptimer_static = Inr s" ..
  show ?thesis
    using ptimer_jitter_exact [OF s, of "[\<lparr>tv_sec = 0, tv_nsec = 10000700\<rparr>, \<lparr>tv_sec = 0, tv_nsec = 20000000\<rparr>]"] s
    by (simp add: ts_ns_def)
qed

text \<open>
  posix_rt_timer.c arms a valid timer exactly for periods under one second: from 1000 ms on
  the nanoseconds field is out of range and the timer is never armed.
\<close>
theorem ptimer_main_period:
  assumes "0 \<le> ms" and "ms \<le> 2147"
  shows "\<exists>s. ptimer_main 2 ms start s0 = Inr s \<and> ts_ns (it_value (pt_itime s)) = ms * 1000000 \<and>
    (ts_valid (it_value (pt_itime s)) \<longleftrightarrow> ms < 1000)"
  using assms
  by (auto simp: ptimer_main_def Let_def NSEC_PER_MSEC_def ts_ns_def ts_valid_def NANOSEC_PER_SEC_def)

theorem ptimer_main_period_witness:
  "\<exists>s. ptimer_main 2 1000 \<lparr>tv_sec = 0, tv_nsec = 0\<rparr> ptimer_static = Inr s \<and>
    \<not> ts_valid (it_value (pt_itime s))"
  using ptimer_main_period [of 1000 "\<lparr>tv_sec = 0, tv_nsec = 0\<rparr>" ptimer_static] by auto


text \<open>A period of zero, which \<open>main\<close> accepts (also as the value of an argument that is not a
  number), makes the shutdown divide by zero.\<close>

lemma ptimer_zero_period:
  "ptimer_main 2 0 start s0 = Inr s \<Longrightarrow>
   ptimer_shutdown rc (fold rt_interval_expired ts s) = Inl Div_By_Zero"
proof -
  assume "ptimer_main 2 0 start s0 = Inr s"
  then have "period_millisecs s = 0" by (auto simp: ptimer_main_def Let_def)
  then have "period_millisecs (fold rt_interval_expired ts s) = 0"
    by (induction ts arbitrary: s) (simp_all add: rt_interval_expired_def Let_def)
  then show ?thesis by (simp add: ptimer_shutdown_def)
qed

lemma square_not_1000: "ms * ms \<noteq> (1000 :: nat)"
proof
  assume eq: "ms * ms = 1000"
  consider "ms \<le> 31" | "32 \<le> ms" by linarith
  then show False
  proof cases
    case 1
    from mult_le_mono [OF this this] eq show False by simp
  next
    case 2
    from mult_le_mono [OF this this] eq show False by simp
  qed
qed

text \<open>
  The "tick-based delta" printed at shutdown is the length of \<open>n\<close> periods only for fewer ticks
  than the period has milliseconds: the seconds are the ticks divided by the period, not the
  elapsed milliseconds divided by 1000.
\<close>
theorem ptimer_tick_based_delta:
  assumes "0 < ms" and "ms < 1000" and "n < 2 ^ 40" and "period_millisecs s = int ms"
    and "period_nsecs s = of_nat (ms * 1000000)" and "tick_count s = of_nat n"
  shows "\<exists>r. ptimer_shutdown rc s = Inr r \<and>
    (unat (fst (pr_tick_based r)) * 1000000000 + unat (snd (pr_tick_based r)) = n * ms * 1000000
     \<longleftrightarrow> n < ms)"
proof -
  have word: "unat (of_nat k :: 64 word) = k" if "k < 2 ^ 64" for k
    using that by (simp add: unat_of_nat)
  have small: "n < 2 ^ 64" "ms < 2 ^ 64" "ms * 1000000 < 2 ^ 64" using assms(2,3) by simp_all
  have "n mod ms * (ms * 1000000) \<le> 1000 * (1000 * 1000000)"
    using assms(1,2) less_imp_le [OF less_trans [OF mod_less_divisor [of ms n]]]
    by (intro mult_mono) simp_all
  then have lt: "n mod ms * (ms * 1000000) < 2 ^ 64" by simp
  obtain r where r: "ptimer_shutdown rc s = Inr r"
    "pr_tick_based r = (of_nat n div of_nat ms, of_nat n mod of_nat ms * of_nat (ms * 1000000))"
    using assms(1,4-6) by (simp add: ptimer_shutdown_def)
  have sec: "unat (fst (pr_tick_based r)) = n div ms"
    using small by (simp add: r(2) unat_div_distrib word)
  have "unat (snd (pr_tick_based r)) =
      unat (of_nat n mod of_nat ms :: 64 word) * unat (of_nat (ms * 1000000) :: 64 word) mod 2 ^ 64"
    by (simp add: r(2) unat_word_ariths(2))
  also have "\<dots> = n mod ms * (ms * 1000000)"
    using small lt by (simp only: unat_mod_distrib word mod_less)
  finally have nsec: "unat (snd (pr_tick_based r)) = n mod ms * (ms * 1000000)" .
  have split: "n * ms * 1000000 = n div ms * (ms * ms * 1000000) + n mod ms * (ms * 1000000)"
    using div_mult_mod_eq [of n ms] by (metis (no_types, lifting) add_mult_distrib mult.assoc)
  have "n div ms * 1000000000 = n div ms * (ms * ms * 1000000) \<longleftrightarrow> n div ms = 0"
    using square_not_1000 [of ms] by auto
  then show ?thesis
    using assms(1) by (simp add: r(1) sec nsec split div_eq_0_iff del: mult.assoc)
qed

theorem ptimer_tick_based_delta_witness:
  "\<exists>r. ptimer_shutdown 0 (ptimer_static\<lparr>tick_count := of_nat 1000\<rparr>) = Inr r \<and>
    unat (fst (pr_tick_based r)) * 1000000000 + unat (snd (pr_tick_based r)) \<noteq> 1000 * 10 * 1000000"
  using ptimer_tick_based_delta [of 10 1000 "ptimer_static\<lparr>tick_count := of_nat 1000\<rparr>" 0]
  by (simp add: ptimer_static_def)

subsection \<open>The watchdog\<close>

lemma monitor_count: "0 \<le> c \<Longrightarrow> c < 4 \<Longrightarrow> fst (monitor_interval_expired c) = c + 1"
  by (simp add: monitor_interval_expired_def Let_def)

text \<open>
  The watchdog of posix_sw_wd.c never gets to its end: its handler is not installed, and the
  first expiration kills the process. With the handler installed it would exit with code 0 after
  exactly four expirations.
\<close>
theorem watchdog_never_done:
  "fst (wd_main (Suc n)) = Killed_By_Alarm \<and> ''All done'' \<notin> set (snd (wd_main n)) \<and>
   fst (wd_loop True (4 + n) 0) = Exited 0 \<and> fst (wd_loop True 3 0) = Paused"
proof -
  have "snd (wd_loop False n 0) = []" by (cases n) (simp_all add: TARDY_TERMINATOR_def)
  moreover have "fst (wd_loop True n 4) = Exited 0" by (cases n) (simp_all add: TARDY_TERMINATOR_def)
  ultimately show ?thesis
    by (simp add: wd_main_def split_def Let_def TARDY_TERMINATOR_def monitor_count numeral_eq_Suc
        del: One_nat_def)
qed

subsection \<open>The frequency argument of posix_timer.c\<close>

text \<open>
  posix_timer.c splits a non-negative frequency into a valid time value for exactly that many
  nanoseconds, for the first expiration and for the interval; a negative one that is not a
  whole number of seconds gives an invalid value.
\<close>
theorem freq_itimerspec_roundtrip:
  "ts_ns (it_value (freq_itimerspec f)) = f \<and> it_interval (freq_itimerspec f) = it_value (freq_itimerspec f) \<and>
   (ts_valid (it_value (freq_itimerspec f)) \<longleftrightarrow> 0 \<le> f \<or> 1000000000 dvd f)"
proof -
  have neg: "0 \<le> c_mod f 1000000000 \<longleftrightarrow> 0 \<le> f \<or> 1000000000 dvd f" "c_mod f 1000000000 < 1000000000"
  proof -
    have *: "f < 0 \<Longrightarrow> c_mod f 1000000000 = - ((- f) mod 1000000000)"
      by (simp add: c_mod_def c_div_def flip: minus_div_mult_eq_mod)
    show "0 \<le> c_mod f 1000000000 \<longleftrightarrow> 0 \<le> f \<or> 1000000000 dvd f"
    proof (cases "0 \<le> f")
      case False
      have "0 \<le> (- f) mod 1000000000" "(- f) mod 1000000000 = 0 \<longleftrightarrow> 1000000000 dvd f"
        by (simp_all add: mod_eq_0_iff_dvd)
      with False * show ?thesis by linarith
    qed simp
    show "c_mod f 1000000000 < 1000000000"
    proof (cases "0 \<le> f")
      case False
      have "0 \<le> (- f) mod 1000000000" by simp
      with False * show ?thesis by linarith
    qed simp
  qed
  then show ?thesis
    by (simp add: freq_itimerspec_def Let_def ts_ns_def ts_valid_def NANOSEC_PER_SEC_def c_mod_def)
qed

text \<open>After the first delivery the signal is ignored: the handler runs at most once.\<close>

lemma pt_deliver_once: "length (pt_deliver os ign) \<le> 1"
proof -
  have "pt_deliver os True = []" for os by (induction os) simp_all
  then show ?thesis by (cases os) (auto split: pt_handler_end.splits)
qed

end
