(* ===== verification/Pthreads.thy ===== *)
theory Pthreads
  imports Posix
begin

text \<open>
  The thread demonstrations \<^verbatim>\<open>simplethread1\<close>, \<^verbatim>\<open>simplethread-affinity\<close> and
  \<^verbatim>\<open>simplethread-affinity-1\<close>: a counter thread that sums the numbers up to its index, and the
  functions that create and join such threads. The global arrays are lists of their declared
  length, and an access outside of them is a fault.
\<close>

definition NUM_THREADS :: nat where
  "NUM_THREADS = 64"

definition MAX_ITERATIONS :: nat where
  "MAX_ITERATIONS = 1000000"

section \<open>The counter threads\<close>

text \<open>\<^verbatim>\<open>for(i=1; i < threadIdx+1; i++) sum=sum+i;\<close> from the given \<open>i\<close> and sum, in the type \<open>int\<close>
  (an index of at least \<open>2\<^sup>3\<^sup>1 - 1\<close> would overflow the bound of the loop).\<close>

function sum_loop :: "int \<Rightarrow> int \<Rightarrow> int \<Rightarrow> int" where
  "sum_loop threadIdx i acc =
     (if i < threadIdx + 1 then sum_loop threadIdx (i + 1) (to_int32 (acc + i)) else acc)"
  by pat_completeness auto
termination
  by (relation "measure (\<lambda>(n, i, s). nat (n + 1 - i))") auto

declare sum_loop.simps [simp del]

text \<open>What a counter thread prints: its index and the sum.\<close>

definition counterThread :: "int \<Rightarrow> int \<times> int" where
  "counterThread threadIdx = (threadIdx, sum_loop threadIdx 1 0)"

text \<open>The counter thread of the affinity programs repeats the sum; \<open>acc\<close> is the sum left by the
  previous iteration.\<close>

fun aff_iterations :: "nat \<Rightarrow> int \<Rightarrow> int \<Rightarrow> int" where
  "aff_iterations 0 threadIdx acc = acc"
| "aff_iterations (Suc n) threadIdx acc = aff_iterations n threadIdx (sum_loop threadIdx 1 0)"

definition aff_counterThread :: "int \<Rightarrow> int \<times> int" where
  "aff_counterThread threadIdx = (threadIdx, aff_iterations MAX_ITERATIONS threadIdx 0)"

section \<open>Creating the threads\<close>

text \<open>The thread descriptors (written or not), the parameter blocks and what the threads print.\<close>

record pool =
  descr :: "bool list"
  params :: "int list"
  printed :: "(int \<times> int) list"

definition pool_init :: pool where
  "pool_init = \<lparr>descr = replicate NUM_THREADS False, params = replicate NUM_THREADS 0, printed = []\<rparr>"

type_synonym pool_res = "(fault \<times> pool) + pool"

definition in_bounds :: "nat \<Rightarrow> pool \<Rightarrow> pool_res" where
  "in_bounds i s = (if i < length (descr s) \<and> i < length (params s) then Inr s else Inl (Out_Of_Bounds, s))"

text \<open>The body of the creating loop of \<^verbatim>\<open>simplethread1\<close>; \<open>rc i\<close> is the result of \<open>pthread_create\<close>,
  which the program ignores.\<close>

definition create_counter :: "(nat \<Rightarrow> int) \<Rightarrow> nat \<Rightarrow> pool \<Rightarrow> pool_res" where
  "create_counter rc i s =
     bindR (in_bounds i s) (\<lambda>s.
       let s = s\<lparr>params := (params s)[i := int i]\<rparr>
       in Inr (if rc i = 0
               then s\<lparr>descr := (descr s)[i := True], printed := printed s @ [counterThread (params s ! i)]\<rparr>
               else s))"

text \<open>Joining a descriptor that was never written.\<close>

definition join_counter :: "nat \<Rightarrow> pool \<Rightarrow> pool_res" where
  "join_counter i s =
     bindR (in_bounds i s) (\<lambda>s. if descr s ! i then Inr s else Inl (Bad_Handle, s))"

text \<open>\<open>main_0\<close>: the first loop runs from 1 to \<open>NUM_THREADS\<close> inclusive, the second from 0.\<close>

definition main_0 :: "(nat \<Rightarrow> int) \<Rightarrow> pool \<Rightarrow> pool_res" where
  "main_0 rc s =
     bindR (for_up 1 (NUM_THREADS + 1) (create_counter rc) s) (for_up 0 NUM_THREADS join_counter)"

section \<open>The affinity programs\<close>

record aff_env =
  aff_initial :: policy
  aff_setscheduler_rc :: int
  aff_adjusted :: policy
  aff_prio_max :: int
  aff_getaffinity_rc :: int
  aff_mask :: "nat \<Rightarrow> bool"
  aff_cpu :: int
  aff_starter_rc :: int
  aff_create_rc :: "nat \<Rightarrow> int"

record fifo_attr =
  fa_explicit :: bool
  fa_policy :: policy
  fa_cpus :: "nat list"
  fa_prio :: int

datatype aff_out = Str string | Num string int | Err string

definition aff_print_scheduler :: "policy \<Rightarrow> aff_out list" where
  "aff_print_scheduler p = [Str (case p of
       SCHED_FIFO \<Rightarrow> ''Pthread policy is SCHED_FIFO''
     | SCHED_OTHER \<Rightarrow> ''Pthread policy is SCHED_OTHER''
     | SCHED_RR \<Rightarrow> ''Pthread policy is SCHED_RR''
     | SCHED_UNKNOWN \<Rightarrow> ''Pthread policy is UNKNOWN'')]"

definition aff_set_scheduler :: "aff_env \<Rightarrow> fifo_attr \<times> aff_out list" where
  "aff_set_scheduler e =
     (\<lparr>fa_explicit = True, fa_policy = SCHED_FIFO, fa_cpus = [3], fa_prio = aff_prio_max e\<rparr>,
      [Str ''INITIAL ''] @ aff_print_scheduler (aff_initial e) @
      (if aff_setscheduler_rc e < 0 then [Err ''sched_setscheduler''] else []) @
      [Str ''ADJUSTED ''] @ aff_print_scheduler (aff_adjusted e))"

text \<open>A counter thread and the attributes it was created with.\<close>

record aff_pool = pool +
  attrs_used :: "fifo_attr list"

definition aff_create :: "(nat \<Rightarrow> int) \<Rightarrow> fifo_attr \<Rightarrow> nat \<Rightarrow> aff_pool \<Rightarrow> (fault \<times> aff_pool) + aff_pool" where
  "aff_create rc attr i s =
     (if i < length (descr s) \<and> i < length (params s)
      then (let s = s\<lparr>params := (params s)[i := int i]\<rparr>
            in Inr (if rc i = 0
                    then s\<lparr>descr := (descr s)[i := True],
                           printed := printed s @ [aff_counterThread (params s ! i)],
                           attrs_used := attrs_used s @ [attr]\<rparr>
                    else s))
      else Inl (Out_Of_Bounds, s))"

definition aff_join :: "nat \<Rightarrow> aff_pool \<Rightarrow> (fault \<times> aff_pool) + aff_pool" where
  "aff_join i s =
     (if i < length (descr s)
      then if descr s ! i then Inr s else Inl (Bad_Handle, s)
      else Inl (Out_Of_Bounds, s))"

definition starterThread :: "(nat \<Rightarrow> int) \<Rightarrow> fifo_attr \<Rightarrow> aff_pool \<Rightarrow> (fault \<times> aff_pool) + aff_pool" where
  "starterThread rc attr s =
     bindR (for_up 0 NUM_THREADS (aff_create rc attr) s) (for_up 0 NUM_THREADS aff_join)"

definition aff_init :: aff_pool where
  "aff_init = \<lparr>descr = replicate NUM_THREADS False, params = replicate NUM_THREADS 0, printed = [],
     attrs_used = []\<rparr>"

definition aff_show_mask :: "aff_env \<Rightarrow> aff_out list" where
  "aff_show_mask e =
     (if aff_getaffinity_rc e \<noteq> 0 then [Err ''pthread_getaffinity_np'']
      else Num ''main thread running on CPU=%d, CPUs ='' (aff_cpu e) #
           map (\<lambda>j. Num '' %d'' (int j)) (filter (aff_mask e) [0..<1024]))"

text \<open>\<open>main_1\<close>: what is printed before the starter thread, and the outcome of that thread; a
  starter thread that could not be created leaves an unwritten descriptor to be joined.\<close>

definition main_1 :: "aff_env \<Rightarrow> aff_out list \<times> ((fault \<times> aff_pool) + aff_pool)" where
  "main_1 e =
     (let (attr, out) = aff_set_scheduler e
      in (out @ aff_show_mask e,
          if aff_starter_rc e = 0 then starterThread (aff_create_rc e) attr aff_init
          else Inl (Bad_Handle, aff_init)))"

text \<open>The functions of \<^verbatim>\<open>simplethread-affinity-1\<close> have the same code up to its layout.\<close>

definition aff1_print_scheduler :: "policy \<Rightarrow> aff_out list" where
  "aff1_print_scheduler = aff_print_scheduler"

definition aff1_set_scheduler :: "aff_env \<Rightarrow> fifo_attr \<times> aff_out list" where
  "aff1_set_scheduler = aff_set_scheduler"

definition aff1_counterThread :: "int \<Rightarrow> int \<times> int" where
  "aff1_counterThread = aff_counterThread"

definition aff1_starterThread :: "(nat \<Rightarrow> int) \<Rightarrow> fifo_attr \<Rightarrow> aff_pool \<Rightarrow> (fault \<times> aff_pool) + aff_pool" where
  "aff1_starterThread = starterThread"

definition aff1_main :: "aff_env \<Rightarrow> aff_out list \<times> ((fault \<times> aff_pool) + aff_pool)" where
  "aff1_main = main_1"

section \<open>Properties\<close>

lemma sum_loop_exact:
  assumes "1 \<le> i" and "i \<le> n + 1" and "n < 65536"
  shows "sum_loop n i (i * (i - 1) div 2) = n * (n + 1) div 2"
  using assms
proof (induction "nat (n + 1 - i)" arbitrary: i)
  case 0
  then have "i = n + 1" by simp
  then show ?case by (subst sum_loop.simps) (simp add: algebra_simps)
next
  case (Suc m)
  then have i: "i < n + 1" by simp
  have step: "i * (i - 1) div 2 + i = (i + 1) * i div 2"
  proof -
    have "(i + 1) * i = i * (i - 1) + i * 2" by (simp add: algebra_simps)
    then show ?thesis by (simp del: mult_2_right)
  qed
  have "(i + 1) * i \<le> 65536 * 65535" using Suc.prems i by (intro mult_mono) simp_all
  moreover have "0 \<le> (i + 1) * i" using Suc.prems by simp
  ultimately have "to_int32 (i * (i - 1) div 2 + i) = (i + 1) * i div 2"
    unfolding step by (intro to_int32_id) simp_all
  moreover have "sum_loop n (i + 1) ((i + 1) * i div 2) = n * (n + 1) div 2"
    using Suc.hyps(1) [of "i + 1"] Suc.hyps(2) Suc.prems i by simp
  ultimately show ?case using i by (subst sum_loop.simps) simp
qed

lemma counterThread_exact: "0 \<le> n \<Longrightarrow> n < 65536 \<Longrightarrow> counterThread n = (n, n * (n + 1) div 2)"
  using sum_loop_exact [of 1 n] by (simp add: counterThread_def)

lemma aff_iterations_Suc: "aff_iterations (Suc k) n s = sum_loop n 1 0"
  by (induction k arbitrary: s) simp_all

lemma aff_counterThread_eq: "aff_counterThread n = counterThread n"
proof -
  obtain k where "MAX_ITERATIONS = Suc k" by (metis MAX_ITERATIONS_def numeral_eq_Suc)
  then show ?thesis by (metis aff_counterThread_def counterThread_def aff_iterations_Suc)
qed


lemma pool_init_sel [simp]:
  "length (descr pool_init) = 64" "length (params pool_init) = 64" "printed pool_init = []"
  by (simp_all add: pool_init_def NUM_THREADS_def)

lemma create_loop:
  assumes "length (descr s) = 64" and "length (params s) = 64" and "lo \<le> hi" and "hi \<le> 64"
  shows "\<exists>s'. for_up lo hi (create_counter rc) s = Inr s' \<and> length (descr s') = 64 \<and>
    length (params s') = 64 \<and>
    printed s' = printed s @ map (\<lambda>i. counterThread (int i)) (filter (\<lambda>i. rc i = 0) [lo..<hi])"
proof -
  let ?P = "\<lambda>i s'. length (descr s') = 64 \<and> length (params s') = 64 \<and>
    printed s' = printed s @ map (\<lambda>i. counterThread (int i)) (filter (\<lambda>i. rc i = 0) [lo..<i])"
  have "\<exists>s'. for_up lo hi (create_counter rc) s = Inr s' \<and> ?P hi s'"
    using assms by (intro for_up_rule [where P = ?P])
      (auto simp: create_counter_def in_bounds_def Let_def)
  then show ?thesis by blast
qed

text \<open>
  The program simplethread1 writes outside its arrays: its loop creates the threads 1 to 63,
  each of which prints the sum of the numbers up to its index, and the iteration for index 64
  accesses \<open>threadParams[64]\<close>, one past the end.
\<close>
theorem simplethread1_out_of_bounds:
  "\<exists>s. main_0 rc pool_init = Inl (Out_Of_Bounds, s) \<and>
    printed s = map (\<lambda>i. (int i, int i * (int i + 1) div 2)) (filter (\<lambda>i. rc i = 0) [1..<64])"
proof -
  obtain s where s: "for_up 1 64 (create_counter rc) pool_init = Inr s" "length (descr s) = 64"
    "printed s = map (\<lambda>i. counterThread (int i)) (filter (\<lambda>i. rc i = 0) [1..<64])"
    using create_loop [of pool_init 1 64 rc] by auto
  have "for_up 1 65 (create_counter rc) pool_init = Inl (Out_Of_Bounds, s)"
    using for_up_split [of 1 64 65 "create_counter rc" pool_init] s
    by (simp add: for_up_step create_counter_def in_bounds_def)
  moreover have "map (\<lambda>i. counterThread (int i)) (filter (\<lambda>i. rc i = 0) [1..<64]) =
      map (\<lambda>i. (int i, int i * (int i + 1) div 2)) (filter (\<lambda>i. rc i = 0) [1..<64])"
    by (intro map_cong refl) (simp add: counterThread_exact)
  ultimately show ?thesis using s(3) by (simp add: main_0_def NUM_THREADS_def)
qed

lemma starter_threads:
  assumes "\<And>i. rc i = 0"
  shows "\<exists>s. starterThread rc attr aff_init = Inr s \<and>
    printed s = map (\<lambda>i. counterThread (int i)) [0..<64] \<and> attrs_used s = replicate 64 attr"
proof -
  let ?P = "\<lambda>i s. length (descr s) = 64 \<and> length (params s) = 64 \<and> list_all (\<lambda>b. b) (take i (descr s)) \<and>
    printed s = map (\<lambda>i. counterThread (int i)) [0..<i] \<and> attrs_used s = replicate i attr"
  have "\<exists>s. for_up 0 64 (aff_create rc attr) aff_init = Inr s \<and> ?P 64 s"
    by (rule for_up_rule [where P = ?P])
      (auto simp: aff_init_def NUM_THREADS_def aff_create_def Let_def assms aff_counterThread_eq
        take_Suc_conv_app_nth simp flip: replicate_append_same)
  then obtain s where s: "for_up 0 64 (aff_create rc attr) aff_init = Inr s" "?P 64 s" by blast
  have "\<exists>s'. for_up 0 64 aff_join s = Inr s' \<and> s' = s"
    using s(2) by (intro for_up_rule [where P = "\<lambda>_ s'. s' = s"])
      (auto simp: aff_join_def list_all_length)
  with s show ?thesis by (simp add: starterThread_def NUM_THREADS_def)
qed

text \<open>
  When every call succeeds, the affinity programs create 64 counter threads, all with the
  \<open>SCHED_FIFO\<close> policy at the maximal priority on core 3; thread \<open>i\<close> prints \<open>i (i + 1) / 2\<close>, the
  million repetitions of the sum notwithstanding, and all threads are joined.
\<close>
theorem affinity_threads:
  assumes "aff_starter_rc e = 0" and "\<And>i. aff_create_rc e i = 0"
  shows "\<exists>out s. main_1 e = (out, Inr s) \<and>
    printed s = map (\<lambda>i. (int i, int i * (int i + 1) div 2)) [0..<64] \<and>
    attrs_used s = replicate 64
      \<lparr>fa_explicit = True, fa_policy = SCHED_FIFO, fa_cpus = [3], fa_prio = aff_prio_max e\<rparr>"
proof -
  let ?attr = "\<lparr>fa_explicit = True, fa_policy = SCHED_FIFO, fa_cpus = [3], fa_prio = aff_prio_max e\<rparr>"
  obtain s where s: "starterThread (aff_create_rc e) ?attr aff_init = Inr s"
    "printed s = map (\<lambda>i. counterThread (int i)) [0..<64]" "attrs_used s = replicate 64 ?attr"
    using starter_threads [of "aff_create_rc e" ?attr] assms(2) by auto
  have "map (\<lambda>i. counterThread (int i)) [0..<64] = map (\<lambda>i. (int i, int i * (int i + 1) div 2)) [0..<64]"
    by (intro map_cong refl) (simp add: counterThread_exact)
  with s show ?thesis
    using assms(1) by (simp add: main_1_def aff_set_scheduler_def Let_def)
qed

theorem affinity_threads_witness:
  "\<exists>out s. main_1 \<lparr>aff_initial = SCHED_OTHER, aff_setscheduler_rc = 0, aff_adjusted = SCHED_FIFO,
      aff_prio_max = 99, aff_getaffinity_rc = 0, aff_mask = (\<lambda>c. c < 4), aff_cpu = 0,
      aff_starter_rc = 0, aff_create_rc = (\<lambda>_. 0)\<rparr> = (out, Inr s) \<and>
    printed s = map (\<lambda>i. (int i, int i * (int i + 1) div 2)) [0..<64] \<and>
    attrs_used s = replicate 64
      \<lparr>fa_explicit = True, fa_policy = SCHED_FIFO, fa_cpus = [3], fa_prio = 99\<rparr>"
  using affinity_threads [of "\<lparr>aff_initial = SCHED_OTHER, aff_setscheduler_rc = 0,
      aff_adjusted = SCHED_FIFO, aff_prio_max = 99, aff_getaffinity_rc = 0, aff_mask = (\<lambda>c. c < 4),
      aff_cpu = 0, aff_starter_rc = 0, aff_create_rc = (\<lambda>_. 0)\<rparr>"] by simp

end
