(* ===== verification/Clock_Times.thy ===== *)
theory Clock_Times
  imports Posix
begin

text \<open>
  \<^verbatim>\<open>rtos_rte_cp/sequencer_generic/clock_times.c\<close>: a program that displays clocks, with their
  values split into days, hours, minutes and seconds, and then around sleeps of 10 ms. The
  results of the calls of \<open>clock_gettime\<close>, \<open>clock_getres\<close> and \<open>nanosleep\<close> are functions of a
  call counter.
\<close>

section \<open>Displaying a clock\<close>

datatype clockid = CLOCK_REALTIME | CLOCK_TAI | CLOCK_MONOTONIC | CLOCK_BOOTTIME | CLOCK_MONOTONIC_RAW

definition SECS_IN_DAY :: int where
  "SECS_IN_DAY = 24 * 60 * 60"

record clock_env =
  ce_gettime :: "nat \<Rightarrow> clockid \<Rightarrow> int \<times> timespec"
  ce_getres :: "nat \<Rightarrow> clockid \<Rightarrow> int \<times> timespec"
  ce_nanosleep :: "nat \<Rightarrow> int"

text \<open>A displayed line: the name, seconds and milliseconds, the days if there are any, hours,
  minutes and seconds, and the resolution if it is shown.\<close>

record clock_line =
  cl_clock :: clockid
  cl_time :: "int \<times> int"
  cl_days :: "int option"
  cl_hms :: "int \<times> int \<times> int"
  cl_res :: "timespec option"

datatype ct_out = Line clock_line | Idx nat | Text string | Ct_Err string

text \<open>The call counter and the output so far.\<close>

type_synonym ct_state = "nat \<times> ct_out list"

definition clock_line_of :: "clockid \<Rightarrow> timespec \<Rightarrow> timespec option \<Rightarrow> clock_line" where
  "clock_line_of c ts res =
     (let days = c_div (tv_sec ts) SECS_IN_DAY
      in \<lparr>cl_clock = c, cl_time = (tv_sec ts, c_div (tv_nsec ts) 1000000),
          cl_days = (if days > 0 then Some days else None),
          cl_hms = (c_div (c_mod (tv_sec ts) SECS_IN_DAY) 3600, c_div (c_mod (tv_sec ts) 3600) 60,
                    c_mod (tv_sec ts) 60),
          cl_res = res\<rparr>)"

text \<open>\<open>displayClock\<close>: the exit code 1 when a clock call fails. The line is complete once the
  resolution has been read, whether it is shown or not.\<close>

definition displayClock :: "clock_env \<Rightarrow> bool \<Rightarrow> clockid \<Rightarrow> ct_state \<Rightarrow> (int \<times> ct_out list) + ct_state" where
  "displayClock e showRes c st =
     (let (k, out) = st; (rc, ts) = ce_gettime e k c; (rc', res) = ce_getres e k c
      in if rc = -1 then Inl (1, out @ [Ct_Err ''clock_gettime''])
         else if rc' = -1 then Inl (1, out @ [Line (clock_line_of c ts None), Ct_Err ''clock_getres''])
         else Inr (Suc k, out @ [Line (clock_line_of c ts (if showRes then Some res else None))]))"

section \<open>main\<close>

definition DELAY_LOOPS :: nat where
  "DELAY_LOOPS = 10"

text \<open>One iteration of a test loop: the clock before and after a sleep.\<close>

definition ct_iteration ::
  "clock_env \<Rightarrow> bool \<Rightarrow> clockid \<Rightarrow> nat \<Rightarrow> ct_state \<Rightarrow> (int \<times> ct_out list) + ct_state" where
  "ct_iteration e showRes c idx st =
     bindR (displayClock e showRes c (fst st, snd st @ [Idx idx])) (\<lambda>st.
       if ce_nanosleep e (fst st) = 0 then displayClock e showRes c st
       else Inl (-1, snd st @ [Ct_Err ''nanosleep'']))"

definition ct_loop :: "clock_env \<Rightarrow> bool \<Rightarrow> clockid \<Rightarrow> ct_state \<Rightarrow> (int \<times> ct_out list) + ct_state" where
  "ct_loop e showRes c = for_up 0 DELAY_LOOPS (ct_iteration e showRes c)"

definition ct_say :: "string \<Rightarrow> ct_state \<Rightarrow> ct_state" where
  "ct_say m st = (fst st, snd st @ [Text m])"

text \<open>The exit code and the output.\<close>

definition clock_times_main :: "clock_env \<Rightarrow> nat \<Rightarrow> int \<times> ct_out list" where
  "clock_times_main e argc =
     (let showRes = argc > 1
      in case
        bindR (displayClock e showRes CLOCK_REALTIME (0, [])) (\<lambda>st.
        bindR (displayClock e showRes CLOCK_TAI st) (\<lambda>st.
        bindR (displayClock e showRes CLOCK_MONOTONIC st) (\<lambda>st.
        bindR (displayClock e showRes CLOCK_BOOTTIME st) (\<lambda>st.
        bindR (ct_loop e showRes CLOCK_REALTIME (ct_say ''Iteration tests'' st)) (\<lambda>st.
        bindR (ct_loop e showRes CLOCK_MONOTONIC (ct_say [] st)) (\<lambda>st.
        ct_loop e showRes CLOCK_MONOTONIC_RAW (ct_say [] st)))))))
        of Inl r \<Rightarrow> r | Inr st \<Rightarrow> (0, snd st))"

section \<open>Properties\<close>

text \<open>
  \<open>displayClock\<close> decomposes a clock value faithfully: days, hours, minutes and seconds add up
  to the seconds, with hours below 24 and minutes and seconds below 60, and days are left out
  exactly when there are none.
\<close>
theorem displayClock_decomposition:
  assumes "0 \<le> tv_sec ts"
  shows "\<exists>d h m s. cl_hms (clock_line_of c ts res) = (h, m, s) \<and>
    cl_days (clock_line_of c ts res) = (if 0 < d then Some d else None) \<and>
    tv_sec ts = ((d * 24 + h) * 60 + m) * 60 + s \<and>
    0 \<le> d \<and> 0 \<le> h \<and> h < 24 \<and> 0 \<le> m \<and> m < 60 \<and> 0 \<le> s \<and> s < 60"
proof -
  let ?n = "tv_sec ts"
  have h: "?n mod 86400 div 3600 = ?n div 3600 mod 24" using zmod_zmult2_eq [of 24 ?n 3600] by simp
  have m: "?n mod 3600 div 60 = ?n div 60 mod 60" using zmod_zmult2_eq [of 60 ?n 60] by simp
  have "?n div 86400 = ?n div 3600 div 24" "?n div 3600 = ?n div 60 div 60"
    using zdiv_zmult2_eq [of 24 ?n 3600] zdiv_zmult2_eq [of 60 ?n 60] by simp_all
  note dd = this
  have alg: "n = ((d * 24 + h) * 60 + m) * 60 + s"
    if "d * 24 + h = a" "a * 60 + m = b" "b * 60 + s = n" for d h m s a b n :: int
    using that by simp
  have total: "?n = ((?n div 86400 * 24 + ?n mod 86400 div 3600) * 60 + ?n mod 3600 div 60) * 60 + ?n mod 60"
  proof (rule alg)
    show "?n div 86400 * 24 + ?n mod 86400 div 3600 = ?n div 3600"
      unfolding h dd(1) by (rule div_mult_mod_eq)
    show "?n div 3600 * 60 + ?n mod 3600 div 60 = ?n div 60"
      unfolding m dd(2) by (rule div_mult_mod_eq)
    show "?n div 60 * 60 + ?n mod 60 = ?n" by (rule div_mult_mod_eq)
  qed
  have line: "cl_hms (clock_line_of c ts res) = (?n mod 86400 div 3600, ?n mod 3600 div 60, ?n mod 60)"
    "cl_days (clock_line_of c ts res) = (if 0 < ?n div 86400 then Some (?n div 86400) else None)"
    using assms by (simp_all add: clock_line_of_def SECS_IN_DAY_def Let_def)
  have bounds: "0 \<le> ?n div 86400" "0 \<le> ?n mod 86400 div 3600" "?n mod 86400 div 3600 < 24"
    "0 \<le> ?n mod 3600 div 60" "?n mod 3600 div 60 < 60" "0 \<le> ?n mod 60" "?n mod 60 < 60"
    using assms by (simp_all add: h m pos_imp_zdiv_nonneg_iff)
  show ?thesis by (intro exI conjI) (rule line total bounds)+
qed

theorem displayClock_decomposition_witness:
  "\<exists>d h m s. cl_hms (clock_line_of CLOCK_REALTIME \<lparr>tv_sec = 100000, tv_nsec = 5\<rparr> None) = (h, m, s) \<and>
    cl_days (clock_line_of CLOCK_REALTIME \<lparr>tv_sec = 100000, tv_nsec = 5\<rparr> None) =
      (if 0 < d then Some d else None) \<and>
    (100000::int) = ((d * 24 + h) * 60 + m) * 60 + s \<and>
    0 \<le> d \<and> 0 \<le> h \<and> h < 24 \<and> 0 \<le> m \<and> m < 60 \<and> 0 \<le> s \<and> s < 60"
  using displayClock_decomposition [of "\<lparr>tv_sec = 100000, tv_nsec = 5\<rparr>" CLOCK_REALTIME None] by simp


text \<open>The clocks of the displayed lines.\<close>

fun shown :: "ct_out list \<Rightarrow> clockid list" where
  "shown [] = []"
| "shown (Line l # os) = cl_clock l # shown os"
| "shown (o1 # os) = shown os"

lemma shown_append [simp]: "shown (xs @ ys) = shown xs @ shown ys"
  by (induction xs rule: shown.induct) simp_all

definition clocks_ok :: "clock_env \<Rightarrow> bool" where
  "clocks_ok e \<longleftrightarrow> (\<forall>k c. fst (ce_gettime e k c) \<noteq> -1 \<and> fst (ce_getres e k c) \<noteq> -1) \<and>
     (\<forall>k. ce_nanosleep e k = 0)"

lemma displayClock_ok:
  assumes "clocks_ok e"
  shows "\<exists>k' out. displayClock e sr c st = Inr (k', out) \<and> shown out = shown (snd st) @ [c]"
  using assms by (cases st) (auto simp: displayClock_def clocks_ok_def split_def Let_def clock_line_of_def)

lemma ct_iteration_ok:
  assumes "clocks_ok e"
  shows "\<exists>k' out. ct_iteration e sr c idx st = Inr (k', out) \<and> shown out = shown (snd st) @ [c, c]"
proof -
  obtain k1 o1 where 1: "displayClock e sr c (fst st, snd st @ [Idx idx]) = Inr (k1, o1)"
    "shown o1 = shown (snd st) @ [c]"
    using displayClock_ok [OF assms, of sr c "(fst st, snd st @ [Idx idx])"] by auto
  obtain k2 o2 where "displayClock e sr c (k1, o1) = Inr (k2, o2)" "shown o2 = shown o1 @ [c]"
    using displayClock_ok [OF assms, of sr c "(k1, o1)"] by auto
  with 1 assms show ?thesis by (simp add: ct_iteration_def clocks_ok_def)
qed

lemma ct_loop_ok:
  assumes "clocks_ok e"
  shows "\<exists>k' out. ct_loop e sr c st = Inr (k', out) \<and> shown out = shown (snd st) @ replicate 20 c"
proof -
  let ?P = "\<lambda>i (st' :: ct_state). shown (snd st') = shown (snd st) @ replicate (2 * i) c"
  have "\<exists>st'. for_up 0 10 (ct_iteration e sr c) st = Inr st' \<and> ?P 10 st'"
  proof (rule for_up_rule [where P = ?P])
    fix i and st' :: ct_state assume P: "?P i st'"
    obtain k out where "ct_iteration e sr c i st' = Inr (k, out)" "shown out = shown (snd st') @ [c, c]"
      using ct_iteration_ok [OF assms, of sr c i st'] by auto
    with P show "\<exists>st''. ct_iteration e sr c i st' = Inr st'' \<and> ?P (Suc i) st''"
      by (auto simp: replicate_app_Cons_same)
  qed simp_all
  then show ?thesis by (auto simp: ct_loop_def DELAY_LOOPS_def)
qed

text \<open>
  When every call succeeds, the program exits with code 0 after displaying the four clocks and
  then, in three loops of ten sleeps, the real-time, monotonic and raw monotonic clocks before
  and after each sleep.
\<close>
theorem clock_times_main_ok:
  assumes "clocks_ok e"
  shows "fst (clock_times_main e argc) = 0 \<and>
    shown (snd (clock_times_main e argc)) =
      [CLOCK_REALTIME, CLOCK_TAI, CLOCK_MONOTONIC, CLOCK_BOOTTIME] @
      replicate 20 CLOCK_REALTIME @ replicate 20 CLOCK_MONOTONIC @ replicate 20 CLOCK_MONOTONIC_RAW"
proof -
  note d = displayClock_ok [OF assms] and l = ct_loop_ok [OF assms]
  define sr where "sr = (argc > 1)"
  obtain k1 o1 where 1: "displayClock e sr CLOCK_REALTIME (0, []) = Inr (k1, o1)" "shown o1 = [CLOCK_REALTIME]"
    using d [of sr CLOCK_REALTIME "(0, [])"] by auto
  obtain k2 o2 where 2: "displayClock e sr CLOCK_TAI (k1, o1) = Inr (k2, o2)" "shown o2 = shown o1 @ [CLOCK_TAI]"
    using d [of sr CLOCK_TAI "(k1, o1)"] by auto
  obtain k3 o3 where 3: "displayClock e sr CLOCK_MONOTONIC (k2, o2) = Inr (k3, o3)"
    "shown o3 = shown o2 @ [CLOCK_MONOTONIC]"
    using d [of sr CLOCK_MONOTONIC "(k2, o2)"] by auto
  obtain k4 o4 where 4: "displayClock e sr CLOCK_BOOTTIME (k3, o3) = Inr (k4, o4)"
    "shown o4 = shown o3 @ [CLOCK_BOOTTIME]"
    using d [of sr CLOCK_BOOTTIME "(k3, o3)"] by auto
  obtain k5 o5 where 5: "ct_loop e sr CLOCK_REALTIME (ct_say ''Iteration tests'' (k4, o4)) = Inr (k5, o5)"
    "shown o5 = shown o4 @ replicate 20 CLOCK_REALTIME"
    using l [of sr CLOCK_REALTIME "ct_say ''Iteration tests'' (k4, o4)"] by (auto simp: ct_say_def)
  obtain k6 o6 where 6: "ct_loop e sr CLOCK_MONOTONIC (ct_say [] (k5, o5)) = Inr (k6, o6)"
    "shown o6 = shown o5 @ replicate 20 CLOCK_MONOTONIC"
    using l [of sr CLOCK_MONOTONIC "ct_say [] (k5, o5)"] by (auto simp: ct_say_def)
  obtain k7 o7 where 7: "ct_loop e sr CLOCK_MONOTONIC_RAW (ct_say [] (k6, o6)) = Inr (k7, o7)"
    "shown o7 = shown o6 @ replicate 20 CLOCK_MONOTONIC_RAW"
    using l [of sr CLOCK_MONOTONIC_RAW "ct_say [] (k6, o6)"] by (auto simp: ct_say_def)
  have "clock_times_main e argc = (0, o7)"
    by (simp add: clock_times_main_def Let_def sr_def [symmetric] 1 2 3 4 5 6 7 del: One_nat_def)
  then show ?thesis by (simp add: 1 2 3 4 5 6 7)
qed

theorem clock_times_main_ok_witness:
  "fst (clock_times_main \<lparr>ce_gettime = (\<lambda>_ _. (0, \<lparr>tv_sec = 1, tv_nsec = 2\<rparr>)),
      ce_getres = (\<lambda>_ _. (0, \<lparr>tv_sec = 0, tv_nsec = 1\<rparr>)), ce_nanosleep = (\<lambda>_. 0)\<rparr> 1) = 0"
  using clock_times_main_ok [of "\<lparr>ce_gettime = (\<lambda>_ _. (0, \<lparr>tv_sec = 1, tv_nsec = 2\<rparr>)),
      ce_getres = (\<lambda>_ _. (0, \<lparr>tv_sec = 0, tv_nsec = 1\<rparr>)), ce_nanosleep = (\<lambda>_. 0)\<rparr>" 1]
  by (simp add: clocks_ok_def)

end
