(* ===== verification/Coop.thy ===== *)
theory Coop
  imports Prelude
begin

text \<open>
  The co-operative scheduler skeleton of \<^verbatim>\<open>c89_c99_scheduler/source/time_triggered_arch\<close>: the
  dispatcher (\<^verbatim>\<open>scheduler/coOperativeScheduler.c\<close>), its one task (\<^verbatim>\<open>tasks/onChain.c\<close>) and the
  virtual machine of device channels (\<^verbatim>\<open>vm/vm.c\<close>, \<^verbatim>\<open>vm/virtualDvrPreampl.c\<close>). Several functions
  have empty bodies; the only observable effect is the reset of the preamplifier, which the
  model records as an event.
\<close>

datatype dev_event = Preampl_Reset

record coop =
  currentChannel :: int
  onCounter :: int
  events :: "dev_event list"

definition coop_init :: coop where
  "coop_init = \<lparr>currentChannel = 0, onCounter = 0, events = []\<rparr>"

definition GkMaxCountChannels :: int where
  "GkMaxCountChannels = 4"

definition preamplReset_void_Virtual :: "coop \<Rightarrow> coop" where
  "preamplReset_void_Virtual s = s\<lparr>events := events s @ [Preampl_Reset]\<rparr>"

section \<open>vm.c\<close>

definition vmInitialize_void :: "coop \<Rightarrow> coop" where
  "vmInitialize_void s = s"

definition vmGetCurrentChannel :: "coop \<Rightarrow> int" where
  "vmGetCurrentChannel s = currentChannel s"

definition vmResetCurrentChannel :: "coop \<Rightarrow> coop" where
  "vmResetCurrentChannel s =
     (if currentChannel s = 0 then s
      else if currentChannel s = 1 then preamplReset_void_Virtual s
      else s)"

definition vmOnChannel_void :: "coop \<Rightarrow> coop" where
  "vmOnChannel_void s = s"

definition vmIncrementChannel :: "coop \<Rightarrow> coop" where
  "vmIncrementChannel s =
     (let c = to_int32 (currentChannel s + 1)
      in s\<lparr>currentChannel := if GkMaxCountChannels = c then 0 else c\<rparr>)"

section \<open>onChain.c and the dispatcher\<close>

definition onSignal :: "coop \<Rightarrow> coop" where
  "onSignal s = s"

definition onSlot :: "coop \<Rightarrow> coop" where
  "onSlot s = preamplReset_void_Virtual s"

definition schDispatch_void :: "coop \<Rightarrow> coop" where
  "schDispatch_void s = onSlot s"

text \<open>The loop is left after its first iteration.\<close>

definition schRunLoop_void :: "coop \<Rightarrow> coop" where
  "schRunLoop_void s = schDispatch_void s"

section \<open>Properties\<close>

lemma vmIncrementChannel_mod:
  assumes "0 \<le> currentChannel s" and "currentChannel s < 4"
  shows "currentChannel (vmIncrementChannel s) = (currentChannel s + 1) mod 4"
    and "events (vmIncrementChannel s) = events s"
proof -
  have "currentChannel s + 1 = 4 \<or> (currentChannel s + 1) mod 4 = currentChannel s + 1"
    using assms by (cases "currentChannel s = 3") simp_all
  then show "currentChannel (vmIncrementChannel s) = (currentChannel s + 1) mod 4"
    "events (vmIncrementChannel s) = events s"
    using assms by (auto simp: vmIncrementChannel_def Let_def GkMaxCountChannels_def)
qed

text \<open>A round of the virtual machine: reset the current channel, then select the next.\<close>

definition vm_round :: "coop \<Rightarrow> coop" where
  "vm_round s = vmIncrementChannel (vmResetCurrentChannel s)"

lemma vm_round_channel:
  assumes "0 \<le> currentChannel s" and "currentChannel s < 4"
  shows "currentChannel (vm_round s) = (currentChannel s + 1) mod 4"
    and "events (vm_round s) = events s @ (if currentChannel s = 1 then [Preampl_Reset] else [])"
  using assms vmIncrementChannel_mod [of s] vmIncrementChannel_mod [of "preamplReset_void_Virtual s"]
  by (auto simp: vm_round_def vmResetCurrentChannel_def preamplReset_void_Virtual_def)

lemma vm_rounds_channel: "currentChannel ((vm_round ^^ n) coop_init) = int n mod 4"
proof (induction n)
  case 0
  then show ?case by (simp add: coop_init_def)
next
  case (Suc n)
  then have "0 \<le> currentChannel ((vm_round ^^ n) coop_init)" "currentChannel ((vm_round ^^ n) coop_init) < 4"
    by simp_all
  with Suc show ?case by (simp add: vm_round_channel mod_simps add.commute)
qed

text \<open>
  The virtual machine visits its four channels in turn and never leaves their range, and
  resetting the current channel in every round resets the preamplifier once every four rounds,
  when its channel 1 is selected.
\<close>
theorem vm_rounds:
  "currentChannel ((vm_round ^^ n) coop_init) = int n mod 4 \<and>
   length (events ((vm_round ^^ n) coop_init)) = (n + 2) div 4"
proof
  show "currentChannel ((vm_round ^^ n) coop_init) = int n mod 4" by (rule vm_rounds_channel)
  show "length (events ((vm_round ^^ n) coop_init)) = (n + 2) div 4"
  proof (induction n)
    case (Suc n)
    have c: "currentChannel ((vm_round ^^ n) coop_init) = int (n mod 4)"
      by (simp add: vm_rounds_channel zmod_int)
    then have "length (events ((vm_round ^^ Suc n) coop_init)) = (n + 2) div 4 + (if n mod 4 = 1 then 1 else 0)"
      using Suc by (simp add: vm_round_channel)
    also have "\<dots> = (Suc n + 2) div 4"
    proof -
      have "(Suc n + 2) div 4 = (n + 2) div 4 + (if (n + 2) mod 4 = 3 then 1 else 0)"
        using div_Suc [of "n + 2" 4] by (simp add: mod_Suc split: if_splits)
      moreover have "(n + 2) mod 4 = 3 \<longleftrightarrow> n mod 4 = 1" by presburger
      ultimately show ?thesis by simp
    qed
    finally show ?case .
  qed (simp add: coop_init_def)
qed

end
