(* ===== verification/Queues.thy ===== *)
theory Queues
  imports Prelude
begin

text \<open>
  The thread-safe queues and the active object of the executors part: \<open>bounded_try_queue\<close>
  (\<^verbatim>\<open>data_structures.h\<close>, also in \<^verbatim>\<open>concurent_queues_pthread.h\<close> as \<open>concurent_try_queue\<close>),
  \<open>message_queue\<close> (\<^verbatim>\<open>executors/safe_queue_cc11.h\<close>) and \<open>Actior\<close> (\<^verbatim>\<open>executors/actors_cc11.h\<close>).
  Every method holds the mutex of its queue throughout, so a concurrent execution is a sequence
  of method calls; waiting on the condition variable of \<open>message_queue\<close> releases the mutex and
  is modelled by steps of its own.
\<close>

section \<open>The contract of a first-in first-out queue\<close>

datatype 'a qop = Push 'a | Pop

text \<open>The values accepted and the values returned by a sequence of calls, and the final state.\<close>

fun q_run :: "('a \<Rightarrow> 's \<Rightarrow> bool \<times> 's) \<Rightarrow> ('s \<Rightarrow> 'a option \<times> 's) \<Rightarrow> 'a qop list \<Rightarrow> 's
    \<Rightarrow> 'a list \<times> 'a list \<times> 's" where
  "q_run push pop [] s = ([], [], s)"
| "q_run push pop (Push x # ops) s =
     (let (ok, s') = push x s; (acc, got, t) = q_run push pop ops s'
      in (if ok then x # acc else acc, got, t))"
| "q_run push pop (Pop # ops) s =
     (let (r, s') = pop s; (acc, got, t) = q_run push pop ops s'
      in (acc, case r of None \<Rightarrow> got | Some y \<Rightarrow> y # got, t))"

locale fifo =
  fixes push :: "'a \<Rightarrow> 's \<Rightarrow> bool \<times> 's"
    and pop :: "'s \<Rightarrow> 'a option \<times> 's"
    and items :: "'s \<Rightarrow> 'a list"
    and room :: "'s \<Rightarrow> bool"
    and inv :: "'s \<Rightarrow> bool"
  assumes push_room: "inv s \<Longrightarrow> room s \<Longrightarrow>
      fst (push x s) \<and> items (snd (push x s)) = items s @ [x] \<and> inv (snd (push x s))"
    and push_full: "inv s \<Longrightarrow> \<not> room s \<Longrightarrow> push x s = (False, s)"
    and pop_item: "inv s \<Longrightarrow> items s = y # ys \<Longrightarrow>
      fst (pop s) = Some y \<and> items (snd (pop s)) = ys \<and> inv (snd (pop s))"
    and pop_empty: "inv s \<Longrightarrow> items s = [] \<Longrightarrow> pop s = (None, s)"
begin

text \<open>Nothing is lost, duplicated or reordered, whatever the sequence of calls.\<close>

lemma run_fifo:
  assumes "inv s" and "q_run push pop ops s = (acc, got, t)"
  shows "items s @ acc = got @ items t" and "inv t"
proof -
  have "inv s \<Longrightarrow> q_run push pop ops s = (acc, got, t) \<Longrightarrow> items s @ acc = got @ items t \<and> inv t" for acc got
  proof (induction ops arbitrary: s acc got)
    case (Cons op ops)
    show ?case
    proof (cases op)
      case (Push x)
      obtain ok s' where p: "push x s = (ok, s')" by fastforce
      obtain acc' got' t' where r: "q_run push pop ops s' = (acc', got', t')" by (metis prod_cases3)
      have "(ok \<and> items s' = items s @ [x] \<or> \<not> ok \<and> s' = s) \<and> inv s'"
        using push_room [of s x] push_full [of s x] Cons.prems(1) p by (cases "room s") auto
      then show ?thesis using Cons.IH [of s' acc' got'] Cons.prems(2) Push p r by auto
    next
      case Pop
      obtain o' s' where p: "pop s = (o', s')" by fastforce
      obtain acc' got' t' where r: "q_run push pop ops s' = (acc', got', t')" by (metis prod_cases3)
      have "(o' = None \<and> s' = s \<or> (\<exists>y. o' = Some y \<and> items s = y # items s')) \<and> inv s'"
        using pop_item [of s] pop_empty [of s] Cons.prems(1) p by (cases "items s") auto
      then show ?thesis using Cons.IH [of s' acc' got'] Cons.prems(2) Pop p r by auto
    qed
  qed simp
  then show "items s @ acc = got @ items t" "inv t" using assms by blast+
qed

end

section \<open>bounded_try_queue\<close>

record 'a btq =
  m_current_size :: int
  m_q :: "'a list"
  m_nblocked_pop :: int
  m_nblocked_push :: int
  m_stopped :: bool
  cm_size :: int
  m_with_blocked :: bool

definition bounded_try_queue :: "int \<Rightarrow> 'a btq" where
  "bounded_try_queue cap =
     \<lparr>m_current_size = 0, m_q = [], m_nblocked_pop = 0, m_nblocked_push = 0, m_stopped = False,
      cm_size = cap, m_with_blocked = False\<rparr>"

definition btq_empty :: "'a btq \<Rightarrow> bool" where
  "btq_empty s = (m_q s = [])"

definition btq_size :: "'a btq \<Rightarrow> int" where
  "btq_size s = m_current_size s"

definition try_push :: "'a \<Rightarrow> 'a btq \<Rightarrow> bool \<times> 'a btq" where
  "try_push x s =
     (if m_current_size s = cm_size s then (False, s)
      else (True, s\<lparr>m_q := m_q s @ [x], m_current_size := to_int32 (m_current_size s + 1)\<rparr>))"

definition try_pop :: "'a btq \<Rightarrow> 'a option \<times> 'a btq" where
  "try_pop s =
     (case m_q s of
        [] \<Rightarrow> (None, s)
      | y # ys \<Rightarrow> (Some y, s\<lparr>m_q := ys, m_current_size := to_int32 (m_current_size s - 1)\<rparr>))"

text \<open>The size counter agrees with the list, and the capacity is kept.\<close>

definition btq_inv :: "int \<Rightarrow> 'a btq \<Rightarrow> bool" where
  "btq_inv cap s \<longleftrightarrow> cm_size s = cap \<and> 0 \<le> cap \<and> cap < 2 ^ 31 \<and>
     m_current_size s = int (length (m_q s)) \<and> int (length (m_q s)) \<le> cap"

lemma btq_inv_new: "0 \<le> cap \<Longrightarrow> cap < 2 ^ 31 \<Longrightarrow> btq_inv cap (bounded_try_queue cap)"
  by (simp add: btq_inv_def bounded_try_queue_def)

interpretation btq: fifo try_push try_pop m_q "\<lambda>s. int (length (m_q s)) < cap" "btq_inv cap" for cap
  by unfold_locales (auto simp: btq_inv_def try_push_def try_pop_def)

text \<open>
  C21. \<open>bounded_try_queue\<close> is a bounded first-in first-out queue: after any sequence of calls of
  any threads, the values returned followed by those still queued are exactly the values
  accepted, in order; the size counter is exact and never exceeds the capacity.
\<close>
theorem bounded_try_queue_fifo:
  assumes "0 \<le> cap" and "cap < 2 ^ 31"
    and "q_run try_push try_pop ops (bounded_try_queue cap) = (acc, got, s)"
  shows "acc = got @ m_q s \<and> btq_size s = int (length (m_q s)) \<and> btq_size s \<le> cap"
  using btq.run_fifo [OF btq_inv_new [OF assms(1,2)] assms(3)]
  by (simp add: bounded_try_queue_def btq_inv_def btq_size_def)

theorem bounded_try_queue_fifo_witness:
  "\<exists>acc got s. q_run try_push try_pop [Push (1::nat), Push 2, Push 3, Pop] (bounded_try_queue 2) = (acc, got, s) \<and>
    acc = [1, 2] \<and> got = [1] \<and> acc = got @ m_q s \<and> btq_size s = int (length (m_q s)) \<and> btq_size s \<le> 2"
proof -
  have "\<exists>s. q_run try_push try_pop [Push (1::nat), Push 2, Push 3, Pop] (bounded_try_queue 2) = ([1, 2], [1], s)"
    by (simp add: bounded_try_queue_def try_push_def try_pop_def)
  then obtain s where
    "q_run try_push try_pop [Push (1::nat), Push 2, Push 3, Pop] (bounded_try_queue 2) = ([1, 2], [1], s)" ..
  then show ?thesis using bounded_try_queue_fifo [of 2 "[Push (1::nat), Push 2, Push 3, Pop]"] by simp
qed

text \<open>A negative capacity is never reached: the queue is then unbounded.\<close>

lemma negative_capacity: "cm_size s < 0 \<Longrightarrow> 0 \<le> m_current_size s \<Longrightarrow> fst (try_push x s)"
  by (simp add: try_push_def)

section \<open>message_queue\<close>

text \<open>
  The queue, the number of consumers that wait for a notification and the number of those in
  \<open>dequeue\<close> that are (or will be, once they have the mutex) at the loop test.
\<close>

record 'a mq =
  mq_q :: "'a list"
  mq_waiting :: nat
  mq_ready :: nat
  mq_got :: "'a list"

definition message_queue :: "'a mq" where
  "message_queue = \<lparr>mq_q = [], mq_waiting = 0, mq_ready = 0, mq_got = []\<rparr>"

datatype 'a mq_op = Enqueue 'a | Call_Dequeue | Dequeue_Test | Spurious

text \<open>\<open>enqueue\<close> and the parts of \<open>dequeue\<close>: the call, the loop test under the mutex (which takes a
  value or waits), and a spurious wake-up. Operations that cannot happen leave the state.\<close>

fun mq_step :: "'a mq_op \<Rightarrow> 'a mq \<Rightarrow> 'a mq" where
  "mq_step (Enqueue t) s =
     (let s = s\<lparr>mq_q := mq_q s @ [t]\<rparr>
      in if 0 < mq_waiting s then s\<lparr>mq_waiting := mq_waiting s - 1, mq_ready := mq_ready s + 1\<rparr> else s)"
| "mq_step Call_Dequeue s = s\<lparr>mq_ready := mq_ready s + 1\<rparr>"
| "mq_step Dequeue_Test s =
     (if mq_ready s = 0 then s
      else case mq_q s of
             [] \<Rightarrow> s\<lparr>mq_ready := mq_ready s - 1, mq_waiting := mq_waiting s + 1\<rparr>
           | y # ys \<Rightarrow> s\<lparr>mq_ready := mq_ready s - 1, mq_q := ys, mq_got := mq_got s @ [y]\<rparr>)"
| "mq_step Spurious s =
     (if 0 < mq_waiting s then s\<lparr>mq_waiting := mq_waiting s - 1, mq_ready := mq_ready s + 1\<rparr> else s)"

definition mq_inv :: "'a mq \<Rightarrow> bool" where
  "mq_inv s \<longleftrightarrow> mq_waiting s = 0 \<or> length (mq_q s) \<le> mq_ready s"

fun enqueued :: "'a mq_op list \<Rightarrow> 'a list" where
  "enqueued [] = []"
| "enqueued (Enqueue t # ops) = t # enqueued ops"
| "enqueued (op # ops) = enqueued ops"

lemma mq_inv_step: "mq_inv s \<Longrightarrow> mq_inv (mq_step op s)"
  by (cases op) (auto simp: mq_inv_def Let_def split: list.splits)

lemma mq_inv_run: "mq_inv s \<Longrightarrow> mq_inv (fold mq_step ops s)"
  by (induction ops arbitrary: s) (simp_all add: mq_inv_step)

lemma mq_order: "mq_got (fold mq_step ops s) @ mq_q (fold mq_step ops s) = mq_got s @ mq_q s @ enqueued ops"
proof (induction ops arbitrary: s)
  case (Cons op ops)
  have "mq_got (mq_step op s) @ mq_q (mq_step op s) = mq_got s @ mq_q s @ enqueued [op]"
    by (cases op) (auto simp: Let_def split: list.splits)
  with Cons show ?case by (cases op) simp_all
qed simp

text \<open>
  \<open>message_queue\<close> loses neither messages nor wake-ups: under every interleaving of producers and
  consumers, with spurious wake-ups, the messages taken followed by those queued are the messages
  enqueued, in order, and whenever a consumer waits, as many consumers are awake as there are
  messages.
\<close>
theorem message_queue_no_lost_wakeup:
  "mq_got (fold mq_step ops message_queue) @ mq_q (fold mq_step ops message_queue) = enqueued ops \<and>
   (mq_waiting (fold mq_step ops message_queue) = 0 \<or>
    length (mq_q (fold mq_step ops message_queue)) \<le> mq_ready (fold mq_step ops message_queue))"
proof -
  have "mq_inv (message_queue :: 'a mq)" by (simp add: mq_inv_def message_queue_def)
  from mq_inv_run [OF this, of ops] mq_order [of ops message_queue] show ?thesis
    by (simp add: mq_inv_def message_queue_def)
qed

section \<open>The active object\<close>

text \<open>A message is work, or the destructor's message that sets \<open>done\<close>.\<close>

datatype 'm amsg = Work 'm | Done

record 'm actor =
  a_mq :: "'m amsg list"
  a_done :: bool
  a_log :: "'m list"

definition actor_init :: "'m actor" where
  "actor_init = \<lparr>a_mq = [], a_done = False, a_log = []\<rparr>"

datatype 'm actor_op = Send "'m amsg" | Run_Once

text \<open>\<open>Send\<close>, and one round of the loop of \<open>Run\<close>; the thread does not move when it has left the
  loop or is blocked in \<open>dequeue\<close>.\<close>

fun actor_step :: "'m actor_op \<Rightarrow> 'm actor \<Rightarrow> 'm actor" where
  "actor_step (Send m) s = s\<lparr>a_mq := a_mq s @ [m]\<rparr>"
| "actor_step Run_Once s =
     (if a_done s then s
      else case a_mq s of
             [] \<Rightarrow> s
           | Work w # ms \<Rightarrow> s\<lparr>a_mq := ms, a_log := a_log s @ [w]\<rparr>
           | Done # ms \<Rightarrow> s\<lparr>a_mq := ms, a_done := True\<rparr>)"

fun sent :: "'m actor_op list \<Rightarrow> 'm amsg list" where
  "sent [] = []"
| "sent (Send m # ops) = m # sent ops"
| "sent (Run_Once # ops) = sent ops"

text \<open>Executed, then the mark of the end, then queued: the messages sent so far.\<close>

definition actor_trace :: "'m actor \<Rightarrow> 'm amsg list" where
  "actor_trace s = map Work (a_log s) @ (if a_done s then [Done] else []) @ a_mq s"

lemma actor_trace_step: "actor_trace (actor_step op s) = actor_trace s @ sent [op]"
  by (cases op) (auto simp: actor_trace_def split: list.splits amsg.splits)

lemma sent_Cons: "sent (op # ops) = sent [op] @ sent ops"
  by (cases op) simp_all

lemma actor_order: "actor_trace (fold actor_step ops s) = actor_trace s @ sent ops"
proof (induction ops arbitrary: s)
  case (Cons op ops)
  then show ?case unfolding sent_Cons [of op ops] by (simp del: actor_step.simps add: actor_trace_step)
qed simp

lemma actor_done_stays: "a_done s \<Longrightarrow> a_done (fold actor_step (replicate k Run_Once) s)"
  by (induction k) simp_all

lemma actor_rounds:
  assumes "a_done s \<or> Done \<in> set (a_mq s)" and "length (a_mq s) \<le> n"
  shows "a_done (fold actor_step (replicate n Run_Once) s)"
  using assms
proof (induction n arbitrary: s)
  case (Suc n)
  show ?case
  proof (cases "a_done (actor_step Run_Once s)")
    case True
    then show ?thesis using actor_done_stays [of "actor_step Run_Once s" n] by (simp del: actor_step.simps)
  next
    case False
    have "length (a_mq (actor_step Run_Once s)) \<le> n" "Done \<in> set (a_mq (actor_step Run_Once s))"
      using False Suc.prems by (auto split: list.splits amsg.splits if_splits)
    then show ?thesis using Suc.IH [of "actor_step Run_Once s"] by (simp del: actor_step.simps)
  qed
qed simp

lemma Work_Done_split: "map Work xs @ Done # q = map Work ys @ [Done] \<Longrightarrow> xs = ys \<and> q = []"
proof (induction xs arbitrary: ys)
  case Nil
  then show ?case by (cases ys) auto
next
  case (Cons x xs)
  then show ?case by (cases ys) auto
qed

lemma sent_append [simp]: "sent (xs @ ys) = sent xs @ sent ys"
  by (induction xs rule: sent.induct) simp_all

lemma sent_rounds [simp]: "sent (replicate n Run_Once) = []"
  by (induction n) simp_all

text \<open>
  Destroying the active object drains it: however sends and the worker thread have interleaved
  before, once the destructor has sent its message the thread ends after finitely many rounds, and
  it has executed exactly the messages sent before that, once each and in order.
\<close>
theorem actor_drains:
  assumes "sent ops = map Work ws @ [Done]"
  shows "\<exists>n. a_done (fold actor_step (ops @ replicate n Run_Once) actor_init) \<and>
    a_log (fold actor_step (ops @ replicate n Run_Once) actor_init) = ws \<and>
    a_mq (fold actor_step (ops @ replicate n Run_Once) actor_init) = []"
proof -
  let ?s = "fold actor_step ops actor_init"
  let ?ops = "ops @ replicate (length (a_mq ?s)) Run_Once"
  let ?t = "fold actor_step ?ops actor_init"
  have "map Work (a_log ?s) @ (if a_done ?s then [Done] else []) @ a_mq ?s = map Work ws @ [Done]"
    using actor_order [of ops actor_init] assms by (simp add: actor_init_def actor_trace_def)
  then have "Done \<in> set (map Work (a_log ?s) @ (if a_done ?s then [Done] else []) @ a_mq ?s)" by simp
  then have "a_done ?s \<or> Done \<in> set (a_mq ?s)" by (auto split: if_splits)
  then have t: "a_done ?t" using actor_rounds [of ?s] by simp
  have "map Work (a_log ?t) @ Done # a_mq ?t = map Work ws @ [Done]"
    using actor_order [of ?ops actor_init] assms t by (simp add: actor_init_def actor_trace_def)
  with t show ?thesis using Work_Done_split [of "a_log ?t" "a_mq ?t" ws] by blast
qed

theorem actor_drains_witness:
  "\<exists>n. a_log (fold actor_step ([Send (Work (1::nat)), Run_Once, Send (Work 2), Send Done] @
      replicate n Run_Once) actor_init) = [1, 2]"
proof -
  have "sent [Send (Work (1::nat)), Run_Once, Send (Work 2), Send Done] = map Work [1, 2] @ [Done]" by simp
  from actor_drains [OF this] show ?thesis by blast
qed

end
