(* ===== verification/Actor_Cc98.thy ===== *)
theory Actor_Cc98
  imports Queues
begin

text \<open>
  The C++98 actor (\<^verbatim>\<open>actors_cc98.h\<close>, class \<open>cc98::Actor\<close>): messages are shared pointers, and the end of
  the dispatch loop is marked by the address of the message \<open>done\<close> that the actor itself owns, where
  the C++11 active object of theory \<open>Queues\<close> sends a function that sets a flag. The two are related
  by a functional refinement.
\<close>

text \<open>
  A message is its address, null allowed; \<open>ac_done\<close> is the address of the sentinel, \<open>ac_exited\<close> says
  that the thread has left \<open>Run\<close>, and \<open>ac_log\<close> lists the messages executed.
\<close>

record ac =
  ac_done :: nat
  ac_mq :: "nat option list"
  ac_exited :: bool
  ac_log :: "nat list"

definition Actor :: "nat \<Rightarrow> ac" where
  "Actor d = \<lparr>ac_done = d, ac_mq = [], ac_exited = False, ac_log = []\<rparr>"

definition Actor_Send :: "nat option \<Rightarrow> ac \<Rightarrow> ac" where
  "Actor_Send m s = s\<lparr>ac_mq := ac_mq s @ [m]\<rparr>"

text \<open>The part of the destructor before the join.\<close>

definition Actor_destroy :: "ac \<Rightarrow> ac" where
  "Actor_destroy s = Actor_Send (Some (ac_done s)) s"

text \<open>
  One round of the loop of \<open>Run\<close>; the thread does not move when it has left the loop or waits in
  \<open>dequeue\<close>. The call of \<open>Execute\<close> through a null pointer faults.
\<close>

definition Actor_Run_round :: "ac \<Rightarrow> ac res" where
  "Actor_Run_round s =
     (if ac_exited s then Inr s
      else case ac_mq s of
             [] \<Rightarrow> Inr s
           | msg # ms \<Rightarrow>
               (let s = s\<lparr>ac_mq := ms\<rparr>
                in if msg = Some (ac_done s) then Inr (s\<lparr>ac_exited := True\<rparr>)
                   else case msg of
                          None \<Rightarrow> Inl Null_Call
                        | Some p \<Rightarrow> Inr (s\<lparr>ac_log := ac_log s @ [p]\<rparr>)))"

datatype ac_op = Ac_Send "nat option" | Ac_Destroy | Ac_Round

fun ac_step :: "ac_op \<Rightarrow> ac \<Rightarrow> ac res" where
  "ac_step (Ac_Send m) s = Inr (Actor_Send m s)"
| "ac_step Ac_Destroy s = Inr (Actor_destroy s)"
| "ac_step Ac_Round s = Actor_Run_round s"

text \<open>The active object it refines: an address other than the sentinel's is work.\<close>

definition abs_msg :: "nat \<Rightarrow> nat option \<Rightarrow> nat amsg" where
  "abs_msg d m = (if m = Some d then Done else Work (the m))"

definition abs_actor :: "ac \<Rightarrow> nat actor" where
  "abs_actor s = \<lparr>a_mq = map (abs_msg (ac_done s)) (ac_mq s), a_done = ac_exited s, a_log = ac_log s\<rparr>"

fun abs_op :: "nat \<Rightarrow> ac_op \<Rightarrow> nat actor_op" where
  "abs_op d (Ac_Send m) = Send (abs_msg d m)"
| "abs_op d Ac_Destroy = Send Done"
| "abs_op d Ac_Round = Run_Once"

fun ac_ok :: "ac_op \<Rightarrow> bool" where
  "ac_ok (Ac_Send m) = (m \<noteq> None)"
| "ac_ok op = True"

definition ac_inv :: "nat \<Rightarrow> ac \<Rightarrow> bool" where
  "ac_inv d s \<longleftrightarrow> ac_done s = d \<and> None \<notin> set (ac_mq s)"

lemma ac_step_abs:
  assumes "ac_inv d s" and "ac_ok op"
  shows "\<exists>s'. ac_step op s = Inr s' \<and> ac_inv d s' \<and> abs_actor s' = actor_step (abs_op d op) (abs_actor s)"
  using assms
  by (cases op) (auto simp: ac_inv_def Actor_Send_def Actor_destroy_def Actor_Run_round_def abs_actor_def
      abs_msg_def Let_def split: list.splits option.splits)

interpretation ac: refining_machine "ac_inv d" ac_step abs_actor "\<lambda>op a. ac_ok op"
    "\<lambda>op. actor_step (abs_op d op)" for d
  by unfold_locales (rule ac_step_abs)

text \<open>
  The C++98 actor refines the active object: as long as no null message is sent, every
  interleaving of senders, the destructor and the thread runs without fault, and its queue, end flag
  and log are those of the active object on the corresponding steps.
\<close>
theorem actor_cc98_refines:
  assumes "list_all ac_ok ops"
  shows "\<exists>s. run_ops ac_step ops (Actor d) = Inr s \<and>
    abs_actor s = fold actor_step (map (abs_op d) ops) actor_init"
proof -
  have "ac_inv d (Actor d)" "abs_actor (Actor d) = actor_init"
    by (simp_all add: ac_inv_def Actor_def abs_actor_def actor_init_def)
  with ac.run_refines [of d "Actor d" ops] assms show ?thesis
    by (auto simp: permitted_state_free fold_map comp_def)
qed

theorem actor_cc98_refines_witness:
  "\<exists>s. run_ops ac_step [Ac_Send (Some 3), Ac_Destroy, Ac_Round, Ac_Round] (Actor 0) = Inr s \<and>
     abs_actor s = fold actor_step [Send (Work 3), Send Done, Run_Once, Run_Once] actor_init"
  using actor_cc98_refines [of "[Ac_Send (Some 3), Ac_Destroy, Ac_Round, Ac_Round]" 0]
  by (simp add: abs_msg_def)

text \<open>A null message ends the thread with a call through a null pointer when its turn comes.\<close>

lemma actor_cc98_null_message:
  "\<not> ac_exited s \<Longrightarrow> ac_mq s = None # ms \<Longrightarrow> ac_step Ac_Round s = Inl Null_Call"
  by (simp add: Actor_Run_round_def Let_def)

end
