(* ===== verification/Blocking_Queue.thy ===== *)
theory Blocking_Queue
  imports Queues
begin

text \<open>
  The blocking half of \<open>bounded_try_queue\<close> (\<^verbatim>\<open>data_structures.h\<close>: \<open>wait_and_pop\<close>, \<open>wait_and_push\<close>, \<open>stop\<close>, all
  private), beside the \<open>try\<close> operations of theory \<open>Queues\<close>. A step is a critical section; a thread in
  \<open>wait_and_pop\<close> that finds nothing waits on \<open>m_pop_cv\<close> until a notification or a spurious wake-up lets
  it test again.
\<close>

text \<open>
  \<open>bq_waiting\<close> and \<open>bq_ready\<close> count the threads that wait on \<open>m_pop_cv\<close> and those woken that have not
  tested again; \<open>bq_got\<close> lists the values popped by \<open>wait_and_pop\<close>, \<open>bq_thrown\<close> counts the exceptions.
\<close>

record 'a bq =
  bq :: "'a btq"
  bq_waiting :: nat
  bq_ready :: nat
  bq_got :: "'a list"
  bq_thrown :: nat

definition bq_new :: "int \<Rightarrow> 'a bq" where
  "bq_new cap = \<lparr>bq = bounded_try_queue cap, bq_waiting = 0, bq_ready = 0, bq_got = [], bq_thrown = 0\<rparr>"

text \<open>The loop test of \<open>wait_and_pop\<close> and what follows it when it fails.\<close>

definition pop_test :: "'a bq \<Rightarrow> 'a bq" where
  "pop_test s =
     (if \<not> m_stopped (bq s) \<and> m_q (bq s) = [] then s\<lparr>bq_waiting := bq_waiting s + 1\<rparr>
      else
        (let q = (bq s)\<lparr>m_nblocked_pop := to_int32 (m_nblocked_pop (bq s) - 1)\<rparr>
         in if m_stopped q
            then s\<lparr>bq := q, bq_thrown := bq_thrown s + 1, bq_ready := bq_ready s + bq_waiting s, bq_waiting := 0\<rparr>
            else s\<lparr>bq := q\<lparr>m_q := tl (m_q q)\<rparr>, bq_got := bq_got s @ [hd (m_q q)]\<rparr>))"

definition wait_and_pop :: "'a bq \<Rightarrow> 'a bq" where
  "wait_and_pop s = pop_test (s\<lparr>bq := (bq s)\<lparr>m_nblocked_pop := to_int32 (m_nblocked_pop (bq s) + 1)\<rparr>\<rparr>)"

definition pop_again :: "'a bq \<Rightarrow> 'a bq" where
  "pop_again s = (if bq_ready s = 0 then s else pop_test (s\<lparr>bq_ready := bq_ready s - 1\<rparr>))"

definition pop_spurious :: "'a bq \<Rightarrow> 'a bq" where
  "pop_spurious s = (if bq_waiting s = 0 then s else s\<lparr>bq_waiting := bq_waiting s - 1, bq_ready := bq_ready s + 1\<rparr>)"

text \<open>\<open>stop(false)\<close>; with \<open>wait\<close> it would go on to wait until no thread is blocked.\<close>

definition bq_stop :: "'a bq \<Rightarrow> 'a bq" where
  "bq_stop s = s\<lparr>bq := (bq s)\<lparr>m_stopped := True\<rparr>, bq_ready := bq_ready s + bq_waiting s, bq_waiting := 0\<rparr>"

text \<open>
  \<open>wait_and_push\<close> evaluates \<open>size()\<close>, which locks the mutex that the function already holds, unless the
  queue is stopped; the statement after the loop, \<^verbatim>\<open>m_q.push(item)\<close>, is never reached.
\<close>

datatype push_error = Self_Deadlock | Terminated

definition wait_and_push :: "'a \<Rightarrow> 'a bq \<Rightarrow> push_error + 'a bq" where
  "wait_and_push x s = (if m_stopped (bq s) then Inl Terminated else Inl Self_Deadlock)"

datatype 'a bq_op = Try_Push 'a | Try_Pop | Wait_And_Pop | Pop_Again | Pop_Spurious | Stop_Queue

fun bq_step :: "'a bq_op \<Rightarrow> 'a bq \<Rightarrow> 'a bq" where
  "bq_step (Try_Push x) s = s\<lparr>bq := snd (try_push x (bq s))\<rparr>"
| "bq_step Try_Pop s = s\<lparr>bq := snd (try_pop (bq s))\<rparr>"
| "bq_step Wait_And_Pop s = wait_and_pop s"
| "bq_step Pop_Again s = pop_again s"
| "bq_step Pop_Spurious s = pop_spurious s"
| "bq_step Stop_Queue s = bq_stop s"

definition bq_run :: "int \<Rightarrow> 'a bq_op list \<Rightarrow> 'a bq" where
  "bq_run cap ops = fold bq_step ops (bq_new cap)"

section \<open>Properties\<close>

text \<open>
  The counter is the length of the list and the number of values popped by \<open>wait_and_pop\<close>, which
  does not decrement it; values below 0 and above the capacity are not reached.
\<close>

definition drift_inv :: "int \<Rightarrow> 'a bq \<Rightarrow> bool" where
  "drift_inv cap s \<longleftrightarrow> cm_size (bq s) = cap \<and> 0 \<le> cap \<and> cap < 2 ^ 31 \<and>
     m_current_size (bq s) = int (length (m_q (bq s))) + int (length (bq_got s)) \<and> m_current_size (bq s) \<le> cap"

lemma pop_test_drift: "drift_inv cap s \<Longrightarrow> drift_inv cap (pop_test s)"
  by (cases "m_q (bq s)") (auto simp: pop_test_def drift_inv_def Let_def)

lemma bq_step_drift:
  assumes "drift_inv cap s"
  shows "drift_inv cap (bq_step op s)"
proof (cases op)
  case (Try_Push x)
  then show ?thesis using assms by (auto simp: drift_inv_def try_push_def)
next
  case Try_Pop
  then show ?thesis using assms by (auto simp: drift_inv_def try_pop_def split: list.splits)
next
  case Wait_And_Pop
  have "drift_inv cap (s\<lparr>bq := (bq s)\<lparr>m_nblocked_pop := n\<rparr>\<rparr>)" for n using assms by (simp add: drift_inv_def)
  then show ?thesis using Wait_And_Pop by (simp add: wait_and_pop_def pop_test_drift)
next
  case Pop_Again
  have "drift_inv cap (s\<lparr>bq_ready := n\<rparr>)" for n using assms by (simp add: drift_inv_def)
  then show ?thesis using Pop_Again assms by (simp add: pop_again_def pop_test_drift)
qed (use assms in \<open>simp_all add: drift_inv_def pop_spurious_def bq_stop_def\<close>)

lemma bq_run_drift: "0 \<le> cap \<Longrightarrow> cap < 2 ^ 31 \<Longrightarrow> drift_inv cap (bq_run cap ops)"
proof -
  assume "0 \<le> cap" "cap < 2 ^ 31"
  then have "drift_inv cap (bq_new cap)" by (simp add: drift_inv_def bq_new_def bounded_try_queue_def)
  moreover have "drift_inv cap s \<Longrightarrow> drift_inv cap (fold bq_step ops s)" for s :: "'a bq"
    by (induction ops arbitrary: s) (simp_all add: bq_step_drift del: bq_step.simps)
  ultimately show "drift_inv cap (bq_run cap ops)" by (simp add: bq_run_def)
qed

text \<open>
  \<open>wait_and_pop\<close> uses the capacity of the queue up: every value it takes leaves the size counter one
  too high for ever, so that after as many of its pops as the queue has places \<open>try_push\<close> refuses
  every value although the queue is empty.
\<close>
theorem wait_and_pop_uses_up:
  assumes "0 \<le> cap" and "cap < 2 ^ 31"
  shows "btq_size (bq (bq_run cap ops)) = int (length (m_q (bq (bq_run cap ops)))) + int (length (bq_got (bq_run cap ops))) \<and>
    (int (length (bq_got (bq_run cap ops))) = cap \<longrightarrow>
       m_q (bq (bq_run cap ops)) = [] \<and> \<not> fst (try_push x (bq (bq_run cap ops))))"
  using bq_run_drift [OF assms, of ops]
  by (auto simp: drift_inv_def btq_size_def try_push_def)

theorem wait_and_pop_uses_up_witness:
  "m_q (bq (bq_run 1 [Try_Push (5::nat), Wait_And_Pop])) = [] \<and>
   \<not> fst (try_push 6 (bq (bq_run 1 [Try_Push (5::nat), Wait_And_Pop])))"
proof -
  have "bq_got (bq_run 1 [Try_Push (5::nat), Wait_And_Pop]) = [5]"
    by (simp add: bq_run_def bq_new_def bounded_try_queue_def try_push_def wait_and_pop_def pop_test_def)
  with wait_and_pop_uses_up [of 1 "[Try_Push (5::nat), Wait_And_Pop]" 6] show ?thesis by simp
qed

text \<open>\<open>try_push\<close> notifies nobody: a thread in \<open>wait_and_pop\<close> keeps waiting while values are queued.\<close>

lemma try_push_no_wakeup:
  "bq_waiting (bq_step (Try_Push x) s) = bq_waiting s" "bq_ready (bq_step (Try_Push x) s) = bq_ready s"
  by simp_all

lemma wait_and_pop_sleeps:
  "0 < cap \<Longrightarrow> bq_waiting (bq_run cap [Wait_And_Pop, Try_Push x]) = 1 \<and>
    m_q (bq (bq_run cap [Wait_And_Pop, Try_Push x])) = [x]"
  by (simp add: bq_run_def bq_new_def bounded_try_queue_def try_push_def wait_and_pop_def pop_test_def)

end
