(* ===== verification/Executors.thy ===== *)
theory Executors
  imports Prelude "HOL-Library.Multiset"
begin

text \<open>
  The executors over Boost and Qt.
  \<^item> \<open>AsioThreadPool\<close> and \<open>SingleWorker\<close> (\<^verbatim>\<open>actors_cc98.h\<close>, \<^verbatim>\<open>thread_pools.cc\<close>): a number of threads in
    \<open>io_service::run\<close>; a step of the model is a call of the interface or a move of one thread;
  \<^item> \<open>executors\<close>, \<open>work_executor\<close> and \<open>asio_executor\<close> (\<^verbatim>\<open>threading.h\<close>, \<^verbatim>\<open>threading.cc\<close>): the registry of
    weak pointers and the objects it leads to;
  \<^item> the registry of raw pointers and \<open>qt_executor\<close> (\<^verbatim>\<open>threading/threading.cc\<close>).

  Boost's \<open>io_service\<close> is not part of the repository: it is the argument \<open>S\<close> of the definitions, a
  record of its operations, and \<open>io_service_spec\<close> says what its documentation promises.
\<close>

section \<open>io_service\<close>

record ('j, 'io) io_ops =
  io_post :: "'j \<Rightarrow> 'io \<Rightarrow> 'io"
  io_stop :: "'io \<Rightarrow> 'io"
  io_next :: "'io \<Rightarrow> ('j \<times> 'io) option"
  io_stopped :: "'io \<Rightarrow> bool"
  io_pending :: "'io \<Rightarrow> 'j multiset"

text \<open>
  \<open>post\<close> adds a handler and does not wake a stopped service; \<open>stop\<close> stops it and keeps its handlers;
  a thread in \<open>run\<close> gets some pending handler unless the service is stopped or has none. The order
  in which handlers are taken is left open.
\<close>

definition io_service_spec :: "('j, 'io) io_ops \<Rightarrow> bool" where
  "io_service_spec S \<longleftrightarrow>
     (\<forall>j io. io_pending S (io_post S j io) = add_mset j (io_pending S io) \<and>
             io_stopped S (io_post S j io) = io_stopped S io) \<and>
     (\<forall>io. io_pending S (io_stop S io) = io_pending S io \<and> io_stopped S (io_stop S io)) \<and>
     (\<forall>io. io_next S io = None \<longleftrightarrow> io_stopped S io \<or> io_pending S io = {#}) \<and>
     (\<forall>io j io'. io_next S io = Some (j, io') \<longrightarrow>
             io_pending S io = add_mset j (io_pending S io') \<and> \<not> io_stopped S io')"

named_theorems io_laws \<open>the documented behaviour of an io_service\<close>

lemma io_spec_laws [io_laws]:
  assumes "io_service_spec S"
  shows "io_pending S (io_post S j io) = add_mset j (io_pending S io)"
    and "io_stopped S (io_post S j io) = io_stopped S io"
    and "io_pending S (io_stop S io) = io_pending S io"
    and "io_stopped S (io_stop S io)"
  using assms by (auto simp: io_service_spec_def)

lemma io_spec_next:
  assumes "io_service_spec S"
  shows "io_stopped S io \<Longrightarrow> io_next S io = None"
    and "io_next S io = Some x \<Longrightarrow> io_pending S io = add_mset (fst x) (io_pending S (snd x))"
    and "io_next S io = Some x \<Longrightarrow> \<not> io_stopped S (snd x)"
  using assms by (cases x; auto simp: io_service_spec_def)+

section \<open>AsioThreadPool\<close>

text \<open>
  A thread of the pool waits in \<open>run\<close> for a handler, executes one, or has returned from \<open>run\<close>. The
  object \<open>m_work\<close> keeps \<open>run\<close> from returning when there is no handler.
\<close>

datatype 'j worker = In_Run | Handler 'j | Returned

record ('j, 'io) asio_pool =
  p_io :: 'io
  p_threads :: "'j worker list"
  p_log :: "'j list"

definition AsioThreadPool :: "'io \<Rightarrow> int \<Rightarrow> ('j, 'io) asio_pool" where
  "AsioThreadPool io countWorkers =
     \<lparr>p_io = io, p_threads = replicate (nat countWorkers) In_Run, p_log = []\<rparr>"

definition AsioThreadPool_default :: "'io \<Rightarrow> ('j, 'io) asio_pool" where
  "AsioThreadPool_default io = AsioThreadPool io 1"

definition AsioThreadPool_three :: "'io \<Rightarrow> ('j, 'io) asio_pool" where
  "AsioThreadPool_three io = AsioThreadPool io 3"

definition SingleWorker :: "'io \<Rightarrow> ('j, 'io) asio_pool" where
  "SingleWorker io = AsioThreadPool io 1"

definition pool_add :: "('j, 'io) io_ops \<Rightarrow> 'j \<Rightarrow> ('j, 'io) asio_pool \<Rightarrow> ('j, 'io) asio_pool" where
  "pool_add S f p = p\<lparr>p_io := io_post S f (p_io p)\<rparr>"

definition pool_destroy :: "('j, 'io) io_ops \<Rightarrow> ('j, 'io) asio_pool \<Rightarrow> ('j, 'io) asio_pool" where
  "pool_destroy S p = p\<lparr>p_io := io_stop S (p_io p)\<rparr>"

text \<open>The condition under which the \<open>join_all\<close> of the destructor returns.\<close>

definition joined :: "('j, 'io) asio_pool \<Rightarrow> bool" where
  "joined p \<longleftrightarrow> list_all (\<lambda>w. w = Returned) (p_threads p)"

definition worker_step :: "('j, 'io) io_ops \<Rightarrow> nat \<Rightarrow> ('j, 'io) asio_pool \<Rightarrow> ('j, 'io) asio_pool" where
  "worker_step S i p =
     (if i < length (p_threads p) then
        (case p_threads p ! i of
           In_Run \<Rightarrow>
             (case io_next S (p_io p) of
                Some (j, io') \<Rightarrow> p\<lparr>p_io := io', p_threads := (p_threads p)[i := Handler j]\<rparr>
              | None \<Rightarrow> if io_stopped S (p_io p) then p\<lparr>p_threads := (p_threads p)[i := Returned]\<rparr> else p)
         | Handler j \<Rightarrow> p\<lparr>p_threads := (p_threads p)[i := In_Run], p_log := p_log p @ [j]\<rparr>
         | Returned \<Rightarrow> p)
      else p)"

datatype 'j pool_op = Add 'j | Worker nat | Destroy

fun pool_step :: "('j, 'io) io_ops \<Rightarrow> 'j pool_op \<Rightarrow> ('j, 'io) asio_pool \<Rightarrow> ('j, 'io) asio_pool" where
  "pool_step S (Add f) p = pool_add S f p"
| "pool_step S (Worker i) p = worker_step S i p"
| "pool_step S Destroy p = pool_destroy S p"

fun added :: "'j pool_op list \<Rightarrow> 'j multiset" where
  "added [] = {#}"
| "added (Add f # ops) = add_mset f (added ops)"
| "added (op # ops) = added ops"

fun handler_of :: "'j worker \<Rightarrow> 'j multiset" where
  "handler_of (Handler j) = {#j#}"
| "handler_of w = {#}"

text \<open>Everything the pool has accepted: executed, in execution, or pending.\<close>

definition pool_jobs :: "('j, 'io) io_ops \<Rightarrow> ('j, 'io) asio_pool \<Rightarrow> 'j multiset" where
  "pool_jobs S p = mset (p_log p) + sum_list (map handler_of (p_threads p)) + io_pending S (p_io p)"

lemma pool_jobs_worker:
  assumes "io_service_spec S"
  shows "pool_jobs S (worker_step S i p) = pool_jobs S p"
proof (cases "i < length (p_threads p)")
  case True
  note u = sum_list_update [OF True, of handler_of]
  show ?thesis
  proof (cases "p_threads p ! i")
    case In_Run
    then show ?thesis using True u io_spec_next(2) [OF assms, of "p_io p"]
      by (auto simp: worker_step_def pool_jobs_def split: option.splits)
  next
    case (Handler j)
    then show ?thesis using True u [of In_Run]
      by (auto simp: worker_step_def pool_jobs_def)
  qed (use True in \<open>simp add: worker_step_def\<close>)
qed (simp add: worker_step_def)

lemma pool_jobs_run:
  assumes "io_service_spec S"
  shows "pool_jobs S (fold (pool_step S) ops p) = pool_jobs S p + added ops"
proof (induction ops arbitrary: p)
  case (Cons op ops)
  have "pool_jobs S (pool_step S op p) = pool_jobs S p + added [op]"
    by (cases op) (simp_all add: pool_jobs_worker [OF assms], simp_all add: pool_jobs_def pool_add_def
      pool_destroy_def io_laws assms)
  with Cons show ?case by (cases op) (simp_all add: ac_simps)
qed simp

text \<open>
  No handler is lost or run twice by the pool: whatever the number of threads, their interleaving
  with the callers and the order in which \<open>io_service\<close> hands out handlers, the handlers executed, in
  execution and pending are together exactly the handlers added.
\<close>
theorem pool_conservation:
  assumes "io_service_spec S" and "io_pending S io = {#}"
  shows "pool_jobs S (fold (pool_step S) ops (AsioThreadPool io n)) = added ops"
  using assms sum_list_replicate_zero [of "nat n", where 'b = "'a multiset"]
  by (simp add: pool_jobs_run) (simp add: pool_jobs_def AsioThreadPool_def)


text \<open>A list service that hands handlers out in the order of their posting, for the witnesses.\<close>

definition list_io :: "('j, 'j list \<times> bool) io_ops" where
  "list_io = \<lparr>io_post = (\<lambda>j (q, s). (q @ [j], s)), io_stop = (\<lambda>(q, s). (q, True)),
     io_next = (\<lambda>(q, s). if s then None else case q of [] \<Rightarrow> None | j # q' \<Rightarrow> Some (j, q', s)),
     io_stopped = snd, io_pending = (\<lambda>(q, s). mset q)\<rparr>"

lemma list_io_spec: "io_service_spec list_io"
  by (auto simp: io_service_spec_def list_io_def split: list.splits)

theorem pool_conservation_witness:
  "io_service_spec (list_io :: (nat, nat list \<times> bool) io_ops) \<and>
   pool_jobs list_io (fold (pool_step list_io) [Add 5, Add (7::nat), Worker 0, Worker 1, Worker 0]
     (AsioThreadPool ([], False) 2)) = {#5, 7#}"
proof -
  have "pool_jobs list_io (fold (pool_step list_io) [Add 5, Add (7::nat), Worker 0, Worker 1, Worker 0]
     (AsioThreadPool ([], False) 2)) = added [Add 5, Add (7::nat), Worker 0, Worker 1, Worker 0]"
    by (rule pool_conservation [OF list_io_spec]) (simp add: list_io_def)
  then show ?thesis by (simp add: list_io_spec)
qed

text \<open>
  The destructor. Once the service is stopped a thread finishes the handler it executes and then
  returns: two moves of each thread let \<open>join_all\<close> return, and the pending handlers stay pending.
\<close>

fun worker_fuel :: "'j worker \<Rightarrow> nat" where
  "worker_fuel (Handler j) = 2"
| "worker_fuel In_Run = 1"
| "worker_fuel Returned = 0"

lemma worker_step_length [simp]: "length (p_threads (worker_step S i p)) = length (p_threads p)"
  by (simp add: worker_step_def split: worker.splits option.splits)

lemma worker_step_stopped:
  assumes "io_service_spec S" and "io_stopped S (p_io p)"
  shows "p_io (worker_step S i p) = p_io p"
    and "k < length (p_threads p) \<Longrightarrow>
      worker_fuel (p_threads (worker_step S i p) ! k) =
        (if k = i then worker_fuel (p_threads p ! k) - 1 else worker_fuel (p_threads p ! k))"
  using io_spec_next(1) [OF assms]
  by (auto simp: worker_step_def nth_list_update assms split: worker.splits option.splits)

lemma workers_stopped:
  assumes "io_service_spec S" and "io_stopped S (p_io p)"
  shows "p_io (fold (worker_step S) is p) = p_io p \<and>
    length (p_threads (fold (worker_step S) is p)) = length (p_threads p) \<and>
    (\<forall>k < length (p_threads p). worker_fuel (p_threads (fold (worker_step S) is p) ! k) =
       worker_fuel (p_threads p ! k) - count_list is k)"
  using assms(2)
proof (induction "is" arbitrary: p)
  case (Cons i js)
  note st = worker_step_stopped [OF assms(1) Cons.prems]
  have "io_stopped S (p_io (worker_step S i p))" using Cons.prems by (simp add: st)
  from Cons.IH [OF this] show ?case by (auto simp: st)
qed simp

lemma worker_fuel_0 [simp]: "worker_fuel w = 0 \<longleftrightarrow> w = Returned"
  by (cases w) simp_all

lemma worker_fuel_le: "worker_fuel w \<le> 2"
  by (cases w) simp_all

lemma joined_fuel: "joined p \<longleftrightarrow> (\<forall>k < length (p_threads p). worker_fuel (p_threads p ! k) = 0)"
  by (simp add: joined_def list_all_length)

lemma stopped_pool_joins:
  assumes "io_service_spec S" and "io_stopped S (p_io p)"
    and "\<And>k. k < length (p_threads p) \<Longrightarrow> 2 \<le> count_list is k"
  shows "joined (fold (worker_step S) is p)" and "p_io (fold (worker_step S) is p) = p_io p"
proof -
  note w = workers_stopped [OF assms(1,2), of "is"]
  have "worker_fuel (p_threads p ! k) - count_list is k = 0" if "k < length (p_threads p)" for k
    using assms(3) [OF that] worker_fuel_le [of "p_threads p ! k"] by simp
  then show "joined (fold (worker_step S) is p)" using w by (simp add: joined_fuel del: worker_fuel_0)
  show "p_io (fold (worker_step S) is p) = p_io p" using w by simp
qed

text \<open>
  Destroying a pool ends it without draining it: from any state of its threads, once the destructor
  has stopped the service every schedule in which each thread moves twice makes \<open>join_all\<close> return, and
  the handlers then still pending are those that were pending when the destructor was called.
\<close>
theorem pool_destroy_joins:
  assumes "io_service_spec S" and "\<And>k. k < length (p_threads p) \<Longrightarrow> 2 \<le> count_list is k"
  shows "joined (fold (worker_step S) is (pool_destroy S p)) \<and>
    io_pending S (p_io (fold (worker_step S) is (pool_destroy S p))) = io_pending S (p_io p)"
proof -
  have "io_stopped S (p_io (pool_destroy S p))" by (simp add: pool_destroy_def io_laws assms(1))
  from stopped_pool_joins [OF assms(1) this, of "is"] assms(2) show ?thesis
    by (simp add: pool_destroy_def io_laws assms(1))
qed

theorem pool_destroy_joins_witness:
  "joined (fold (worker_step list_io) [0, 1, 1, 0]
     (pool_destroy list_io \<lparr>p_io = ([9::nat], False), p_threads = [Handler 5, In_Run], p_log = []\<rparr>)) \<and>
   io_pending list_io (p_io (fold (worker_step list_io) [0, 1, 1, 0]
     (pool_destroy list_io \<lparr>p_io = ([9::nat], False), p_threads = [Handler 5, In_Run], p_log = []\<rparr>))) = {#9#}"
  using pool_destroy_joins [OF list_io_spec,
      of "\<lparr>p_io = ([9::nat], False), p_threads = [Handler 5, In_Run], p_log = []\<rparr>" "[0, 1, 1, 0]"]
  by (auto simp: list_io_def less_2_cases_iff)

section \<open>The executors of threading.h\<close>

text \<open>
  An \<open>asio_executor\<close> is a pool of one thread, whose service its destructor does not stop: that is
  what \<open>terminate\<close> is for.
\<close>

definition asio_executor :: "'io \<Rightarrow> ('j, 'io) asio_pool" where
  "asio_executor io = AsioThreadPool io 1"

definition asio_executor_post :: "('j, 'io) io_ops \<Rightarrow> 'j \<Rightarrow> ('j, 'io) asio_pool \<Rightarrow> ('j, 'io) asio_pool" where
  "asio_executor_post S t p = p\<lparr>p_io := io_post S t (p_io p)\<rparr>"

definition asio_executor_terminate :: "('j, 'io) io_ops \<Rightarrow> ('j, 'io) asio_pool \<Rightarrow> ('j, 'io) asio_pool" where
  "asio_executor_terminate S p = p\<lparr>p_io := io_stop S (p_io p)\<rparr>"

lemma worker_runs_on:
  assumes "io_service_spec S" and "\<not> io_stopped S (p_io p)"
    and "Returned \<notin> set (p_threads p)"
  shows "\<not> io_stopped S (p_io (worker_step S i p)) \<and> Returned \<notin> set (p_threads (worker_step S i p))"
proof (cases "i < length (p_threads p)")
  case True
  then have "p_threads p ! i \<noteq> Returned" using assms(3) nth_mem by metis
  moreover have "Returned \<notin> set ((p_threads p)[i := w])" if "w \<noteq> Returned" for w
    using assms(3) that set_update_subset_insert [of "p_threads p" i w] by auto
  moreover have "\<not> io_stopped S (snd x)" if "io_next S (p_io p) = Some x" for x
    using io_spec_next(3) [OF assms(1) that] .
  ultimately show ?thesis using assms(2,3) True
    by (cases "p_threads p ! i"; cases "io_next S (p_io p)") (simp_all add: worker_step_def split_beta)
qed (simp add: worker_step_def assms)

lemma workers_run_on:
  assumes "io_service_spec S"
  shows "\<not> io_stopped S (p_io p) \<Longrightarrow> Returned \<notin> set (p_threads p) \<Longrightarrow>
    Returned \<notin> set (p_threads (fold (worker_step S) is p))"
  by (induction "is" arbitrary: p) (simp_all add: worker_runs_on [OF assms])

text \<open>
  The destructor of \<open>asio_executor\<close> joins a thread that only \<open>terminate\<close> ends: without a call of
  \<open>terminate\<close> no schedule lets the join return, and after one, two moves of the thread do.
\<close>
theorem asio_executor_destructor:
  assumes "io_service_spec S" and "\<not> io_stopped S io"
  shows "\<not> joined (fold (worker_step S) is (fold (asio_executor_post S) js (asio_executor io))) \<and>
    joined (fold (worker_step S) [0, 0]
      (asio_executor_terminate S (fold (worker_step S) is (fold (asio_executor_post S) js (asio_executor io)))))"
proof -
  let ?p = "fold (asio_executor_post S) js (asio_executor io)"
  have p: "\<not> io_stopped S (p_io ?p) \<and> p_threads ?p = [In_Run]"
    using assms(2) by (induction js rule: rev_induct)
      (simp_all add: asio_executor_post_def asio_executor_def AsioThreadPool_def io_laws assms(1))
  have len: "length (p_threads (fold (worker_step S) is q)) = length (p_threads q)" for q :: "('a, 'b) asio_pool"
    by (induction "is" arbitrary: q) simp_all
  have nr: "Returned \<notin> set (p_threads (fold (worker_step S) is ?p))"
    using workers_run_on [OF assms(1), of ?p "is"] p by simp
  moreover have "length (p_threads (fold (worker_step S) is ?p)) = 1" using p by (simp add: len)
  ultimately have "\<not> joined (fold (worker_step S) is ?p)"
    by (auto simp: joined_def list_all_iff length_Suc_conv)
  moreover have "joined (fold (worker_step S) [0, 0] (asio_executor_terminate S (fold (worker_step S) is ?p)))"
    by (rule stopped_pool_joins) (use p in \<open>simp_all add: asio_executor_terminate_def io_laws assms(1) len\<close>)
  ultimately show ?thesis by blast
qed

theorem asio_executor_destructor_witness:
  "\<not> joined (fold (worker_step list_io) [0, 0, 0] (fold (asio_executor_post list_io) [4::nat] (asio_executor ([], False)))) \<and>
   joined (fold (worker_step list_io) [0, 0] (asio_executor_terminate list_io
     (fold (worker_step list_io) [0, 0, 0] (fold (asio_executor_post list_io) [4::nat] (asio_executor ([], False))))))"
  by (rule asio_executor_destructor [OF list_io_spec]) (simp add: list_io_def)

section \<open>The registry of executors\<close>

text \<open>
  A \<open>weak_ptr\<close> is the address of the object it was made from, if any; \<open>lock\<close> succeeds while the
  object lives. The registry is a \<open>std::map\<close>, kept in the order of its keys. A \<open>work_executor\<close> holds a
  plain pointer to a service, an \<open>asio_executor\<close> owns one.
\<close>

datatype texec = Work_Executor "nat option" | Asio_Executor nat

record 'io world =
  id_to_exec :: "(int \<times> nat option) list"
  objs :: "nat \<Rightarrow> texec option"
  ios :: "nat \<Rightarrow> 'io option"

datatype reg_error = Runtime_Error | Dangling_Io

fun map_put :: "int \<Rightarrow> 'v \<Rightarrow> (int \<times> 'v) list \<Rightarrow> (int \<times> 'v) list" where
  "map_put k v [] = [(k, v)]"
| "map_put k v ((k', v') # m) =
     (if k < k' then (k, v) # (k', v') # m
      else if k = k' then (k, v) # m
      else (k', v') # map_put k v m)"

definition weak_lock :: "nat option \<Rightarrow> 'io world \<Rightarrow> texec option" where
  "weak_lock p w = (case p of None \<Rightarrow> None | Some a \<Rightarrow> objs w a)"

definition with_io :: "nat \<Rightarrow> ('io \<Rightarrow> 'io) \<Rightarrow> 'io world \<Rightarrow> reg_error + 'io world" where
  "with_io a f w = (case ios w a of None \<Rightarrow> Inl Dangling_Io | Some io \<Rightarrow> Inr (w\<lparr>ios := (ios w)(a \<mapsto> f io)\<rparr>))"

fun executor_post :: "('j, 'io) io_ops \<Rightarrow> texec \<Rightarrow> 'j \<Rightarrow> 'io world \<Rightarrow> reg_error + 'io world" where
  "executor_post S (Work_Executor io) t w = (case io of None \<Rightarrow> Inr w | Some a \<Rightarrow> with_io a (io_post S t) w)"
| "executor_post S (Asio_Executor a) t w = with_io a (io_post S t) w"

fun executor_terminate :: "('j, 'io) io_ops \<Rightarrow> texec \<Rightarrow> 'io world \<Rightarrow> reg_error + 'io world" where
  "executor_terminate S (Work_Executor io) w = (case io of None \<Rightarrow> Inr w | Some a \<Rightarrow> with_io a (io_stop S) w)"
| "executor_terminate S (Asio_Executor a) w = with_io a (io_stop S) w"

definition executors_add :: "int \<Rightarrow> nat option \<Rightarrow> 'io world \<Rightarrow> 'io world" where
  "executors_add key e w = w\<lparr>id_to_exec := map_put key e (id_to_exec w)\<rparr>"

definition executors_post_task :: "('j, 'io) io_ops \<Rightarrow> int \<Rightarrow> 'j \<Rightarrow> 'io world \<Rightarrow> reg_error + 'io world" where
  "executors_post_task S key job w =
     (case map_of (id_to_exec w) key of
        None \<Rightarrow> Inl Runtime_Error
      | Some p \<Rightarrow> (case weak_lock p w of
                    Some e \<Rightarrow> executor_post S e job w
                  | None \<Rightarrow> Inl Runtime_Error))"

text \<open>The loop of \<open>terminate_all\<close> over the map.\<close>

fun terminate_each :: "('j, 'io) io_ops \<Rightarrow> (int \<times> nat option) list \<Rightarrow> 'io world \<Rightarrow> reg_error + 'io world" where
  "terminate_each S [] w = Inr w"
| "terminate_each S ((key, p) # m) w =
     bindR (case weak_lock p w of Some e \<Rightarrow> executor_terminate S e w | None \<Rightarrow> Inr w) (terminate_each S m)"

definition executors_terminate_all :: "('j, 'io) io_ops \<Rightarrow> 'io world \<Rightarrow> reg_error + 'io world" where
  "executors_terminate_all S w =
     bindR (terminate_each S (id_to_exec w) w) (\<lambda>w. Inr (w\<lparr>id_to_exec := []\<rparr>))"

fun exec_io :: "texec \<Rightarrow> nat option" where
  "exec_io (Work_Executor io) = io"
| "exec_io (Asio_Executor a) = Some a"

text \<open>No live executor holds the address of a service that is gone.\<close>

definition ios_alive :: "'io world \<Rightarrow> bool" where
  "ios_alive w \<longleftrightarrow> (\<forall>a e i. objs w a = Some e \<and> exec_io e = Some i \<longrightarrow> ios w i \<noteq> None)"

lemma map_of_put: "sorted (map fst m) \<Longrightarrow> distinct (map fst m) \<Longrightarrow>
    map_of (map_put k v m) = (map_of m)(k \<mapsto> v)"
  by (induction k v m rule: map_put.induct) (auto simp: fun_eq_iff map_of_eq_None_iff [symmetric])

lemma set_map_put: "fst ` set (map_put k v m) = insert k (fst ` set m)"
  by (induction k v m rule: map_put.induct) auto

lemma map_put_sorted: "sorted (map fst m) \<and> distinct (map fst m) \<Longrightarrow>
    sorted (map fst (map_put k v m)) \<and> distinct (map fst (map_put k v m))"
  by (induction k v m rule: map_put.induct) (auto simp: set_map_put)

lemma executor_post_io:
  "executor_post S e t w =
    (case exec_io e of None \<Rightarrow> Inr w | Some a \<Rightarrow> with_io a (io_post S t) w)"
  by (cases e) simp_all

lemma executor_terminate_io:
  "executor_terminate S e w =
    (case exec_io e of None \<Rightarrow> Inr w | Some a \<Rightarrow> with_io a (io_stop S) w)"
  by (cases e) simp_all

lemma locked_io_alive:
  assumes "ios_alive w" and "weak_lock p w = Some e" and "exec_io e = Some i"
  obtains io where "ios w i = Some io"
  using assms unfolding ios_alive_def weak_lock_def by (cases p) (simp, force)

text \<open>
  \<open>executors::add\<close> followed by \<open>executors::post_task\<close>: the job arrives at the service of the
  executor registered last under the identifier, and nothing else changes; a call for an identifier
  that was never registered, or whose executor has been destroyed, throws \<open>runtime_error\<close>; another
  identifier keeps its executor.
\<close>
theorem executors_add_post:
  assumes "ios_alive w" and "sorted (map fst (id_to_exec w))" and "distinct (map fst (id_to_exec w))"
  shows "executors_post_task S key job (executors_add key p w) =
     (case weak_lock p w of
        None \<Rightarrow> Inl Runtime_Error
      | Some e \<Rightarrow> (case exec_io e of
            None \<Rightarrow> Inr (executors_add key p w)
          | Some a \<Rightarrow> Inr ((executors_add key p w)\<lparr>ios := (ios w)(a \<mapsto> io_post S job (the (ios w a)))\<rparr>))) \<and>
    (map_of (id_to_exec w) key' = None \<longrightarrow> executors_post_task S key' job w = Inl Runtime_Error) \<and>
    (key' \<noteq> key \<longrightarrow> map_of (id_to_exec (executors_add key p w)) key' = map_of (id_to_exec w) key')"
proof -
  have add: "map_of (id_to_exec (executors_add key p w)) = (map_of (id_to_exec w))(key \<mapsto> p)"
    using assms(2,3) by (simp add: executors_add_def map_of_put)
  have w: "weak_lock p (executors_add key p w) = weak_lock p w" "ios (executors_add key p w) = ios w"
    by (simp_all add: weak_lock_def executors_add_def split: option.splits)
  then show ?thesis
    by (auto simp: executors_post_task_def add w executor_post_io with_io_def split: option.splits
        elim: locked_io_alive [OF assms(1)])
qed

definition world0 :: "(nat list \<times> bool) world" where
  "world0 = \<lparr>id_to_exec = [(1, Some 10), (4, Some 11)],
     objs = [10 \<mapsto> Asio_Executor 0, 12 \<mapsto> Work_Executor (Some 1)], ios = [0 \<mapsto> ([], False), 1 \<mapsto> ([], False)]\<rparr>"

lemma world0_ok: "ios_alive world0" "sorted (map fst (id_to_exec world0))"
  "distinct (map fst (id_to_exec world0))"
  by (auto simp: ios_alive_def world0_def split: if_splits)

theorem executors_add_post_witness:
  "executors_post_task list_io 3 (8::nat) (executors_add 3 (Some 12) world0) =
     Inr ((executors_add 3 (Some 12) world0)\<lparr>ios := [0 \<mapsto> ([], False), 1 \<mapsto> ([8], False)]\<rparr>) \<and>
   executors_post_task list_io 2 (8::nat) world0 = Inl Runtime_Error"
proof -
  have "weak_lock (Some 12) world0 = Some (Work_Executor (Some 1))" "map_of (id_to_exec world0) 2 = None"
    "(ios world0)(1 \<mapsto> io_post list_io 8 (the (ios world0 1))) = [0 \<mapsto> ([], False), 1 \<mapsto> ([8], False)]"
    by (simp_all add: weak_lock_def world0_def list_io_def)
  with executors_add_post [OF world0_ok, where S = list_io and key = 3 and job = 8 and p = "Some 12" and key' = 2]
  show ?thesis by simp
qed

text \<open>
  What \<open>terminate_all\<close> leaves: the services of live registered executors are stopped, the others
  untouched, and no identifier is registered.
\<close>

definition registered_ios :: "(int \<times> nat option) list \<Rightarrow> 'io world \<Rightarrow> nat set" where
  "registered_ios m w = {i. \<exists>key p e. (key, p) \<in> set m \<and> weak_lock p w = Some e \<and> exec_io e = Some i}"

lemma registered_ios_simps:
  "registered_ios [] w = {}"
  "registered_ios ((key, p) # m) w =
     (case weak_lock p w of None \<Rightarrow> {} | Some e \<Rightarrow> set_option (exec_io e)) \<union> registered_ios m w"
  by (auto simp: registered_ios_def split: option.splits)

definition stop_all :: "('j, 'io) io_ops \<Rightarrow> nat set \<Rightarrow> 'io world \<Rightarrow> 'io world" where
  "stop_all S I w = w\<lparr>ios := (\<lambda>i. if i \<in> I then map_option (io_stop S) (ios w i) else ios w i)\<rparr>"

lemma terminate_each_stops:
  assumes "\<And>io. io_stop S (io_stop S io) = io_stop S io"
  shows "ios_alive w \<Longrightarrow> terminate_each S m w = Inr (stop_all S (registered_ios m w) w)"
proof (induction m arbitrary: w)
  case Nil
  then show ?case by (simp add: registered_ios_simps stop_all_def)
next
  case (Cons x m)
  obtain key p where x: "x = (key, p)" by fastforce
  show ?case
  proof (cases "weak_lock p w")
    case None
    with Cons show ?thesis by (simp add: x registered_ios_simps)
  next
    case (Some e)
    show ?thesis
    proof (cases "exec_io e")
      case None
      with Some Cons show ?thesis by (simp add: x registered_ios_simps executor_terminate_io)
    next
      case (Some i)
      let ?w = "stop_all S {i} w"
      obtain io where io: "ios w i = Some io"
        using locked_io_alive [OF Cons.prems \<open>weak_lock p w = Some e\<close> Some] .
      have "executor_terminate S e w = Inr ?w"
        using Some io by (auto simp: executor_terminate_io with_io_def stop_all_def fun_eq_iff)
      moreover have "ios_alive ?w" using Cons.prems by (auto simp: ios_alive_def stop_all_def)
      moreover have "registered_ios m ?w = registered_ios m w"
        by (simp add: registered_ios_def weak_lock_def stop_all_def cong: option.case_cong)
      moreover have "stop_all S I ?w = stop_all S (insert i I) w" for I
        using assms by (auto simp: stop_all_def fun_eq_iff option.map_comp comp_def)
      ultimately show ?thesis
        using Cons.IH [of ?w] \<open>weak_lock p w = Some e\<close> Some by (simp add: x registered_ios_simps)
    qed
  qed
qed

text \<open>
  \<open>executors::terminate_all\<close> stops the service of every live registered executor, leaves every other
  service alone, empties the registry and does not throw; afterwards \<open>post_task\<close> throws for every
  identifier.
\<close>
theorem executors_terminate_all_stops:
  assumes "ios_alive w" and "\<And>io. io_stop S (io_stop S io) = io_stop S io"
  shows "\<exists>w'. executors_terminate_all S w = Inr w' \<and>
    (\<forall>i. ios w' i = (if i \<in> registered_ios (id_to_exec w) w then map_option (io_stop S) (ios w i) else ios w i)) \<and>
    (\<forall>key job. executors_post_task S key job w' = Inl Runtime_Error)"
  using terminate_each_stops [OF assms(2,1), of "id_to_exec w"]
  by (simp add: executors_terminate_all_def stop_all_def executors_post_task_def)

theorem executors_terminate_all_stops_witness:
  "\<exists>w'. executors_terminate_all (list_io :: (nat, _) io_ops) world0 = Inr w' \<and> ios w' 0 = Some ([], True) \<and>
     executors_post_task list_io 1 (8::nat) w' = Inl Runtime_Error"
proof -
  have "0 \<in> registered_ios (id_to_exec world0) world0"
    by (force simp: registered_ios_def world0_def weak_lock_def)
  moreover have "map_option (io_stop list_io) (ios world0 0) = Some ([], True)"
    by (simp add: world0_def list_io_def)
  moreover have "io_stop list_io (io_stop list_io io) = io_stop list_io (io :: nat list \<times> bool)" for io
    by (simp add: list_io_def split_beta)
  ultimately show ?thesis
    using executors_terminate_all_stops [OF world0_ok(1), of "list_io :: (nat, _) io_ops"] by auto
qed

text \<open>A service destroyed before the \<open>work_executor\<close> that points to it is used after its end.\<close>

lemma work_executor_dangling:
  "objs w a = Some (Work_Executor (Some i)) \<Longrightarrow> ios w i = None \<Longrightarrow> map_of (id_to_exec w) key = Some (Some a) \<Longrightarrow>
   executors_post_task S key job w = Inl Dangling_Io"
  by (simp add: executors_post_task_def weak_lock_def with_io_def)

text \<open>
  \<^verbatim>\<open>executors/arch.cc\<close>: the one static worker, reached through a weak pointer; there is one identifier.
\<close>

datatype thread_id = DB

definition Threads_post :: "('j, 'io) io_ops \<Rightarrow> thread_id \<Rightarrow> 'j \<Rightarrow> ('j, 'io) asio_pool option
    \<Rightarrow> reg_error + ('j, 'io) asio_pool option" where
  "Threads_post S i f w = (case w of None \<Rightarrow> Inl Runtime_Error | Some p \<Rightarrow> Inr (Some (pool_add S f p)))"

lemma Threads_post_order:
  "run_ops (Threads_post S DB) fs (Some p) = Inr (Some (fold (pool_add S) fs p))"
  by (induction fs arbitrary: p) (simp_all add: Threads_post_def)

section \<open>The registry over Qt\<close>

text \<open>
  \<^verbatim>\<open>threading/threading.cc\<close>: plain pointers (null allowed), no error for an unknown identifier. \<open>postEvent\<close>
  is Qt's: it is an argument, from receiver and event to the new state of the event queues.
\<close>

datatype 'j qevent = Job_Event int 'j | Other_Event int

definition callable_type :: int where "callable_type = 1001"

definition job_event :: "'j \<Rightarrow> 'j qevent" where
  "job_event job = Job_Event callable_type job"

fun event_type :: "'j qevent \<Rightarrow> int" where
  "event_type (Job_Event ty j) = ty"
| "event_type (Other_Event ty) = ty"

text \<open>An event of the type that is not a \<open>job_event\<close> is cast all the same.\<close>

definition qt_customEvent :: "'j qevent \<Rightarrow> fault + 'j option" where
  "qt_customEvent e =
     (if event_type e = callable_type then
        (case e of Job_Event _ j \<Rightarrow> Inr (Some j) | Other_Event _ \<Rightarrow> Inl Bad_Handle)
      else Inr None)"

definition qt_post :: "(nat \<Rightarrow> 'j qevent \<Rightarrow> 'q \<Rightarrow> 'q) \<Rightarrow> nat \<Rightarrow> 'j \<Rightarrow> 'q \<Rightarrow> 'q" where
  "qt_post postEvent this job = postEvent this (job_event job)"

type_synonym qt_registry = "(int \<times> nat option) list"

definition qt_executors_add :: "int \<Rightarrow> nat option \<Rightarrow> qt_registry \<Rightarrow> qt_registry" where
  "qt_executors_add key e m = map_put key e m"

definition qt_executors_post_task ::
  "(nat \<Rightarrow> 'j qevent \<Rightarrow> 'q \<Rightarrow> 'q) \<Rightarrow> qt_registry \<Rightarrow> int \<Rightarrow> 'j \<Rightarrow> 'q \<Rightarrow> 'q" where
  "qt_executors_post_task postEvent m key job q =
     (case map_of m key of
        None \<Rightarrow> q
      | Some None \<Rightarrow> q
      | Some (Some e) \<Rightarrow> qt_post postEvent e job q)"

text \<open>
  A job posted through the Qt registry reaches the executor registered under the identifier as an
  event from which \<open>customEvent\<close> takes the same job; under an identifier that is not registered, or is
  registered with a null pointer, the job is dropped without an error.
\<close>
theorem qt_post_task_delivers:
  assumes "sorted (map fst m)" and "distinct (map fst m)"
  shows "qt_executors_post_task postEvent (qt_executors_add key p m) key job q =
      (case p of None \<Rightarrow> q | Some e \<Rightarrow> postEvent e (job_event job) q) \<and>
    qt_customEvent (job_event job) = Inr (Some job) \<and>
    (key' \<notin> fst ` set m \<longrightarrow> qt_executors_post_task postEvent m key' job q = q)"
  using assms
  by (auto simp: qt_executors_post_task_def qt_executors_add_def map_of_put qt_post_def qt_customEvent_def
      job_event_def split: option.splits dest: map_of_SomeD intro: rev_image_eqI)

theorem qt_post_task_delivers_witness:
  "qt_executors_post_task (\<lambda>r e q. q @ [(r, e)]) (qt_executors_add 1 (Some 6) [(0, Some 5), (2, None)]) 1 (8::nat) [] =
     [(6, job_event 8)] \<and> qt_executors_post_task (\<lambda>r e q. q @ [(r, e)]) [(0, Some 5), (2, None)] 3 (8::nat) [] = []"
  using qt_post_task_delivers [of "[(0, Some 5), (2, None)]" "\<lambda>r e q. q @ [(r, e)]" 1 "Some 6" "8::nat" "[]" 3]
  by simp

end
