(* ===== verification/Serial_Queue.thy ===== *)
theory Serial_Queue
  imports Prelude
begin

text \<open>
  The serial queue of stlab (\<^verbatim>\<open>deps/clean_stlab_trash/concurrency/serial_queue.hpp\<close>): tasks are queued
  under a mutex, and an invocation of \<open>single\<close> or \<open>all\<close> on some executor takes and calls them; the flag
  \<open>_running\<close> says that an invocation is on its way. A step of the model is a critical section, a call
  of the executor, the start of an invocation by the executor, or the begin or end of the call of a
  task; steps of any number of callers and of executor threads interleave freely.
\<close>

datatype schedule_mode = Single | All

text \<open>
  Where an invocation is: before its first critical section, holding tasks to call, in the call of
  one, before \<open>empty()\<close>, before the call of the executor.
\<close>

datatype 'f wpc = Start | Calls "'f list" | In_Call 'f "'f list" | Check | Resched

text \<open>
  \<open>kicks\<close> counts the callers of \<open>enqueue\<close> that have left the critical section with \<open>running\<close> false and
  have not called the executor yet, \<open>scheduled\<close> the invocations the executor holds.
\<close>

record 'f sq =
  running :: bool
  queue :: "'f list"
  kicks :: nat
  scheduled :: nat
  workers :: "'f wpc list"
  called :: "'f list"

definition serial_instance :: "'f sq" where
  "serial_instance = \<lparr>running = False, queue = [], kicks = 0, scheduled = 0, workers = [], called = []\<rparr>"

definition enqueue :: "'f \<Rightarrow> 'f sq \<Rightarrow> 'f sq" where
  "enqueue f s =
     s\<lparr>queue := queue s @ [f], running := True, kicks := (if running s then kicks s else kicks s + 1)\<rparr>"

definition kick :: "'f sq \<Rightarrow> 'f sq" where
  "kick s = (if kicks s = 0 then s else s\<lparr>kicks := kicks s - 1, scheduled := scheduled s + 1\<rparr>)"

definition begin_invocation :: "'f sq \<Rightarrow> 'f sq" where
  "begin_invocation s =
     (if scheduled s = 0 then s
      else s\<lparr>scheduled := scheduled s - 1, workers := workers s @ [Start]\<rparr>)"

text \<open>The first critical section: \<open>pop_front_unsafe\<close> of \<open>single\<close>, the swap of \<open>all\<close>.\<close>

fun take_tasks :: "schedule_mode \<Rightarrow> nat \<Rightarrow> 'f sq \<Rightarrow> 'f sq res" where
  "take_tasks Single i s =
     (case queue s of
        [] \<Rightarrow> Inl Out_Of_Bounds
      | f # q \<Rightarrow> Inr (s\<lparr>queue := q, workers := (workers s)[i := Calls [f]]\<rparr>))"
| "take_tasks All i s = Inr (s\<lparr>queue := [], workers := (workers s)[i := Calls (queue s)]\<rparr>)"

text \<open>\<open>empty()\<close>: the test, and the reset of \<open>_running\<close>, in one critical section.\<close>

definition sq_empty :: "nat \<Rightarrow> 'f sq \<Rightarrow> 'f sq" where
  "sq_empty i s =
     (if queue s = [] then s\<lparr>running := False, workers := drop_nth i (workers s)\<rparr>
      else s\<lparr>workers := (workers s)[i := Resched]\<rparr>)"

definition work :: "schedule_mode \<Rightarrow> nat \<Rightarrow> 'f sq \<Rightarrow> 'f sq res" where
  "work mode i s =
     (if i < length (workers s) then
        (case workers s ! i of
           Start \<Rightarrow> take_tasks mode i s
         | Calls [] \<Rightarrow> Inr (s\<lparr>workers := (workers s)[i := Check]\<rparr>)
         | Calls (f # fs) \<Rightarrow> Inr (s\<lparr>workers := (workers s)[i := In_Call f fs], called := called s @ [f]\<rparr>)
         | In_Call f fs \<Rightarrow> Inr (s\<lparr>workers := (workers s)[i := Calls fs]\<rparr>)
         | Check \<Rightarrow> Inr (sq_empty i s)
         | Resched \<Rightarrow> Inr (s\<lparr>workers := drop_nth i (workers s), scheduled := scheduled s + 1\<rparr>))
      else Inr s)"

text \<open>A task that throws ends the invocation with the exception; the local queue is destroyed.\<close>

definition throw :: "nat \<Rightarrow> 'f sq \<Rightarrow> 'f sq" where
  "throw i s =
     (if i < length (workers s) then
        (case workers s ! i of In_Call f fs \<Rightarrow> s\<lparr>workers := drop_nth i (workers s)\<rparr> | _ \<Rightarrow> s)
      else s)"

datatype 'f sq_op = Enq 'f | Kick | Begin | Work nat | Throw nat

fun sq_step :: "schedule_mode \<Rightarrow> 'f sq_op \<Rightarrow> 'f sq \<Rightarrow> 'f sq res" where
  "sq_step mode (Enq f) s = Inr (enqueue f s)"
| "sq_step mode Kick s = Inr (kick s)"
| "sq_step mode Begin s = Inr (begin_invocation s)"
| "sq_step mode (Work i) s = work mode i s"
| "sq_step mode (Throw i) s = Inr (throw i s)"

section \<open>Invariant\<close>

fun held :: "'f wpc \<Rightarrow> 'f list" where
  "held (Calls fs) = fs"
| "held (In_Call f fs) = fs"
| "held _ = []"

fun in_call :: "'f wpc \<Rightarrow> bool" where
  "in_call (In_Call f fs) = True"
| "in_call _ = False"

text \<open>An invocation about to take tasks, or to be rescheduled, finds the queue non-empty.\<close>

fun needs_queue :: "'f wpc \<Rightarrow> bool" where
  "needs_queue Start = True"
| "needs_queue Resched = True"
| "needs_queue _ = False"

text \<open>The one invocation that is on its way while \<open>_running\<close> is set.\<close>

definition sq_inv :: "'f sq \<Rightarrow> bool" where
  "sq_inv s \<longleftrightarrow>
     (if running s then
        (kicks s = 1 \<and> scheduled s = 0 \<and> workers s = [] \<and> queue s \<noteq> []) \<or>
        (kicks s = 0 \<and> scheduled s = 1 \<and> workers s = [] \<and> queue s \<noteq> []) \<or>
        (\<exists>w. kicks s = 0 \<and> scheduled s = 0 \<and> workers s = [w] \<and> (needs_queue w \<longrightarrow> queue s \<noteq> []))
      else kicks s = 0 \<and> scheduled s = 0 \<and> workers s = [] \<and> queue s = [])"

definition sq_tasks :: "'f sq \<Rightarrow> 'f list" where
  "sq_tasks s = called s @ concat (map held (workers s)) @ queue s"

fun no_throw :: "'f sq_op \<Rightarrow> bool" where
  "no_throw (Throw i) = False"
| "no_throw _ = True"

fun enqueued_tasks :: "'f sq_op list \<Rightarrow> 'f list" where
  "enqueued_tasks [] = []"
| "enqueued_tasks (Enq f # ops) = f # enqueued_tasks ops"
| "enqueued_tasks (_ # ops) = enqueued_tasks ops"

text \<open>A bound on the steps left: each task costs at most seven, the invocation what remains of it.\<close>

fun wpc_cost :: "'f wpc \<Rightarrow> nat" where
  "wpc_cost Start = 0"
| "wpc_cost (Calls fs) = 4 + 2 * length fs"
| "wpc_cost (In_Call f fs) = 5 + 2 * length fs"
| "wpc_cost Check = 3"
| "wpc_cost Resched = 2"

definition sq_cost :: "'f sq \<Rightarrow> nat" where
  "sq_cost s = 7 * length (queue s) + 2 * kicks s + scheduled s + sum_list (map wpc_cost (workers s))"

lemma sq_inv_cases [consumes 1, case_names idle kicked scheduled worker]:
  assumes "sq_inv s"
  obtains "\<not> running s" "kicks s = 0" "scheduled s = 0" "workers s = []" "queue s = []"
  | "running s" "kicks s = 1" "scheduled s = 0" "workers s = []" "queue s \<noteq> []"
  | "running s" "kicks s = 0" "scheduled s = 1" "workers s = []" "queue s \<noteq> []"
  | w where "running s" "kicks s = 0" "scheduled s = 0" "workers s = [w]" "needs_queue w \<longrightarrow> queue s \<noteq> []"
  using assms by (auto simp: sq_inv_def split: if_splits)

lemma work_ok:
  assumes "sq_inv s"
  shows "\<exists>s'. work mode i s = Inr s' \<and> sq_inv s' \<and> sq_tasks s' = sq_tasks s \<and>
    (i < length (workers s) \<longrightarrow> sq_cost s' < sq_cost s) \<and> (i \<ge> length (workers s) \<longrightarrow> s' = s)"
  using assms
proof (cases rule: sq_inv_cases)
  case (worker w)
  show ?thesis
  proof (cases "i < length (workers s)")
    case True
    then have i: "i = 0" using worker by simp
    show ?thesis
    proof (cases w)
      case Start
      with worker obtain f q where "queue s = f # q" by (auto simp: neq_Nil_conv)
      with Start worker i show ?thesis
        by (cases mode) (auto simp: work_def sq_inv_def sq_tasks_def sq_cost_def)
    next
      case (Calls fs)
      with worker i show ?thesis
        by (cases fs) (auto simp: work_def sq_inv_def sq_tasks_def sq_cost_def)
    qed (use worker i in \<open>auto simp: work_def sq_inv_def sq_tasks_def sq_cost_def sq_empty_def\<close>)
  qed (use assms in \<open>simp add: work_def\<close>)
qed (simp_all add: work_def assms)

lemma kick_ok:
  "sq_inv s \<Longrightarrow> sq_inv (kick s) \<and> sq_tasks (kick s) = sq_tasks s \<and>
   (kicks s \<noteq> 0 \<longrightarrow> sq_cost (kick s) < sq_cost s) \<and> (kicks s = 0 \<longrightarrow> kick s = s)"
  by (auto simp: kick_def sq_inv_def sq_tasks_def sq_cost_def split: if_splits)

lemma begin_ok:
  "sq_inv s \<Longrightarrow> sq_inv (begin_invocation s) \<and> sq_tasks (begin_invocation s) = sq_tasks s \<and>
   (scheduled s \<noteq> 0 \<longrightarrow> sq_cost (begin_invocation s) < sq_cost s) \<and> (scheduled s = 0 \<longrightarrow> begin_invocation s = s)"
  by (auto simp: begin_invocation_def sq_inv_def sq_tasks_def sq_cost_def split: if_splits)

lemma enqueue_ok: "sq_inv s \<Longrightarrow> sq_inv (enqueue f s) \<and> sq_tasks (enqueue f s) = sq_tasks s @ [f]"
  by (auto simp: enqueue_def sq_inv_def sq_tasks_def split: if_splits)

lemma sq_step_ok:
  assumes "sq_inv s" and "no_throw op"
  shows "\<exists>s'. sq_step mode op s = Inr s' \<and> sq_inv s' \<and> sq_tasks s' = sq_tasks s @ enqueued_tasks [op]"
proof (cases op)
  case (Work i)
  with work_ok [OF assms(1), of mode i] show ?thesis by auto
qed (use assms enqueue_ok [OF assms(1)] kick_ok [OF assms(1)] begin_ok [OF assms(1)] in simp_all)

interpretation sq: refining_machine sq_inv "sq_step mode" sq_tasks "\<lambda>op a. no_throw op"
    "\<lambda>op a. a @ enqueued_tasks [op]" for mode
  by unfold_locales (rule sq_step_ok)

lemma enqueued_tasks_Cons: "enqueued_tasks (op # ops) = enqueued_tasks [op] @ enqueued_tasks ops"
  by (cases op) simp_all

lemma enqueued_tasks_append [simp]: "enqueued_tasks (xs @ ys) = enqueued_tasks xs @ enqueued_tasks ys"
  by (induction xs rule: enqueued_tasks.induct) simp_all

lemma fold_enqueued: "fold (\<lambda>op a. a @ enqueued_tasks [op]) ops a = a @ enqueued_tasks ops"
proof (induction ops arbitrary: a)
  case (Cons op ops)
  then show ?case by (subst enqueued_tasks_Cons) simp
qed simp

lemma sq_run:
  assumes "list_all no_throw ops"
  obtains s where "run_ops (sq_step mode) ops serial_instance = Inr s" "sq_inv s" "sq_tasks s = enqueued_tasks ops"
proof -
  have "sq_inv (serial_instance :: 'a sq)" "sq_tasks (serial_instance :: 'a sq) = []"
    by (simp_all add: sq_inv_def serial_instance_def sq_tasks_def)
  with sq.run_refines [of serial_instance ops mode] assms that show thesis
    by (auto simp: permitted_state_free fold_enqueued)
qed

text \<open>
  C13. The serial queue is serial: under every interleaving of callers and executor threads, in either
  mode, \<open>pop_front_unsafe\<close> never meets an empty queue, at most one task is being called at any time, and
  the tasks called, held by the invocation and queued are together the tasks enqueued, in order: each
  is called once, in the order of the calls of \<open>enqueue\<close>.
\<close>
theorem serial_queue_fifo:
  assumes "list_all no_throw ops"
  shows "\<exists>s. run_ops (sq_step mode) ops serial_instance = Inr s \<and>
    called s @ concat (map held (workers s)) @ queue s = enqueued_tasks ops \<and>
    length (filter in_call (workers s)) \<le> 1"
proof -
  from sq_run [OF assms, of mode] obtain s where
    s: "run_ops (sq_step mode) ops serial_instance = Inr s" "sq_inv s" "sq_tasks s = enqueued_tasks ops" .
  from s(2) have "length (filter in_call (workers s)) \<le> 1" by (cases rule: sq_inv_cases) simp_all
  with s show ?thesis by (simp add: sq_tasks_def)
qed

theorem serial_queue_fifo_witness:
  "\<exists>s. run_ops (sq_step Single) [Enq (1::nat), Enq 2, Kick, Begin, Work 0, Work 0, Enq 3] serial_instance = Inr s \<and>
     called s @ concat (map held (workers s)) @ queue s = [1, 2, 3] \<and> length (filter in_call (workers s)) \<le> 1"
  using serial_queue_fifo [of "[Enq (1::nat), Enq 2, Kick, Begin, Work 0, Work 0, Enq 3]" Single] by simp

section \<open>Progress\<close>

text \<open>One round lets each of the parties that can move make a step.\<close>

definition sq_round :: "'f sq_op list" where
  "sq_round = [Kick, Begin, Work 0]"

lemma sq_round_progress:
  assumes "sq_inv s"
  shows "\<exists>s'. run_ops (sq_step mode) sq_round s = Inr s' \<and> sq_inv s' \<and> sq_tasks s' = sq_tasks s \<and>
    (running s \<longrightarrow> sq_cost s' < sq_cost s) \<and> (\<not> running s \<longrightarrow> s' = s)"
proof -
  note k = kick_ok [OF assms]
  note b = begin_ok [OF conjunct1 [OF k]]
  from work_ok [OF conjunct1 [OF b], of mode 0] obtain s' where
    w: "work mode 0 (begin_invocation (kick s)) = Inr s'" "sq_inv s'"
      "sq_tasks s' = sq_tasks (begin_invocation (kick s))"
      "workers (begin_invocation (kick s)) \<noteq> [] \<longrightarrow> sq_cost s' < sq_cost (begin_invocation (kick s))"
      "workers (begin_invocation (kick s)) = [] \<longrightarrow> s' = begin_invocation (kick s)"
    by auto
  from assms show ?thesis
  proof (cases rule: sq_inv_cases)
    case idle
    then show ?thesis using assms w by (simp add: sq_round_def kick_def begin_invocation_def)
  next
    case kicked
    then show ?thesis using k b w by (simp add: sq_round_def kick_def begin_invocation_def)
  next
    case scheduled
    then show ?thesis using k b w by (simp add: sq_round_def kick_def begin_invocation_def)
  next
    case (worker w)
    then show ?thesis using k b w by (simp add: sq_round_def kick_def begin_invocation_def)
  qed
qed

lemma wpc_cost_pos: "\<not> needs_queue w \<Longrightarrow> 0 < wpc_cost w"
  by (cases w) simp_all

lemma sq_rounds_drain:
  assumes "sq_inv s" and "sq_cost s \<le> n"
  shows "\<exists>s'. run_ops (sq_step mode) (concat (replicate n sq_round)) s = Inr s' \<and> sq_inv s' \<and>
    sq_tasks s' = sq_tasks s \<and> \<not> running s'"
  using assms
proof (induction n arbitrary: s)
  case 0
  then show ?case by (cases rule: sq_inv_cases [OF 0(1)]) (auto simp: sq_cost_def dest: wpc_cost_pos)
next
  case (Suc n)
  from sq_round_progress [OF Suc.prems(1), of mode] obtain t where
    t: "run_ops (sq_step mode) sq_round s = Inr t" "sq_inv t" "sq_tasks t = sq_tasks s"
      "running s \<longrightarrow> sq_cost t < sq_cost s" "\<not> running s \<longrightarrow> t = s" by blast
  have "sq_cost t \<le> n"
  proof (cases "running s")
    case False
    with Suc.prems(1) have "sq_cost s = 0" by (auto simp: sq_inv_def sq_cost_def)
    with t(5) False show ?thesis by simp
  qed (use t(4) Suc.prems(2) in simp)
  with Suc.IH [OF t(2)] t(1,3) show ?case by (auto simp: run_ops_append)
qed

text \<open>
  C23. The serial queue drains: whatever has interleaved before, when no more tasks come, finitely
  many rounds in which every party that can move makes a step call every task enqueued, in order, and
  leave the queue idle, so that the next \<open>enqueue\<close> schedules an invocation again.
\<close>
theorem serial_queue_drains:
  assumes "list_all no_throw ops"
  shows "\<exists>n s. run_ops (sq_step mode) (ops @ concat (replicate n sq_round)) serial_instance = Inr s \<and>
    called s = enqueued_tasks ops \<and> queue s = [] \<and> workers s = [] \<and> \<not> running s"
proof -
  from sq_run [OF assms, of mode] obtain s where
    s: "run_ops (sq_step mode) ops serial_instance = Inr s" "sq_inv s" "sq_tasks s = enqueued_tasks ops" .
  from sq_rounds_drain [OF s(2) le_refl, of mode] obtain s' where
    s': "run_ops (sq_step mode) (concat (replicate (sq_cost s) sq_round)) s = Inr s'" "sq_inv s'"
      "sq_tasks s' = sq_tasks s" "\<not> running s'" by blast
  from s'(2) s'(4) have "queue s' = []" "workers s' = []" by (auto simp: sq_inv_def)
  moreover from this s'(3) s(3) have "called s' = enqueued_tasks ops" by (simp add: sq_tasks_def)
  ultimately show ?thesis using s(1) s'(1,4) by (auto simp: run_ops_append)
qed

theorem serial_queue_drains_witness:
  "\<exists>n s. run_ops (sq_step All) ([Enq (1::nat), Kick, Enq 2, Begin] @ concat (replicate n sq_round)) serial_instance = Inr s \<and>
    called s = [1, 2] \<and> queue s = [] \<and> workers s = [] \<and> \<not> running s"
  using serial_queue_drains [of "[Enq (1::nat), Kick, Enq 2, Begin]" All] by simp

text \<open>
  An exception that leaves a task leaves \<open>_running\<close> set with no invocation on its way: no later
  \<open>enqueue\<close> schedules one.
\<close>

definition stalled :: "'f sq \<Rightarrow> bool" where
  "stalled s \<longleftrightarrow> running s \<and> kicks s = 0 \<and> scheduled s = 0 \<and> workers s = []"

lemma stalled_step: "stalled s \<Longrightarrow> \<exists>s'. sq_step mode op s = Inr s' \<and> stalled s' \<and> called s' = called s"
  by (cases op) (auto simp: stalled_def enqueue_def kick_def begin_invocation_def work_def throw_def)

lemma stalled_run: "stalled s \<Longrightarrow> \<exists>s'. run_ops (sq_step mode) ops s = Inr s' \<and> stalled s' \<and> called s' = called s"
proof (induction ops arbitrary: s)
  case (Cons op ops)
  from stalled_step [OF Cons.prems, of mode op] obtain t where
    "sq_step mode op s = Inr t" "stalled t" "called t = called s" by blast
  with Cons.IH [of t] show ?case by auto
qed simp

text \<open>
  A task that throws ends the serial queue for good: whatever follows the exception, however many
  tasks are enqueued, no task is ever called again, and the tasks the invocation held are lost.
\<close>
theorem serial_queue_throw_stalls:
  assumes "list_all no_throw ops" and "run_ops (sq_step mode) ops serial_instance = Inr s"
    and "workers s = [In_Call f fs]"
  shows "\<exists>s'. run_ops (sq_step mode) (ops @ Throw 0 # later) serial_instance = Inr s' \<and>
    called s' = called s \<and> running s' \<and> workers s' = [] \<and> scheduled s' = 0"
proof -
  have "sq_inv s" using sq_run [OF assms(1), of mode] assms(2) by (metis sum.inject(2))
  then have "stalled (throw 0 s)" using assms(3)
    by (cases rule: sq_inv_cases) (auto simp: stalled_def throw_def)
  from stalled_run [OF this, of mode later] assms(2,3) show ?thesis
    by (auto simp: run_ops_append stalled_def throw_def)
qed

theorem serial_queue_throw_stalls_witness:
  "\<exists>s'. run_ops (sq_step Single) ([Enq (1::nat), Kick, Begin, Work 0, Work 0] @ Throw 0 #
      [Enq 2, Kick, Begin, Work 0]) serial_instance = Inr s' \<and>
    called s' = [1] \<and> running s' \<and> workers s' = [] \<and> scheduled s' = 0"
proof -
  let ?s = "\<lparr>running = True, queue = [], kicks = 0, scheduled = 0, workers = [In_Call (1::nat) []], called = [1]\<rparr>"
  have "run_ops (sq_step Single) [Enq (1::nat), Kick, Begin, Work 0, Work 0] serial_instance = Inr ?s"
    by (simp add: serial_instance_def enqueue_def kick_def begin_invocation_def work_def)
  from serial_queue_throw_stalls [OF _ this, of 1 "[]" "[Enq 2, Kick, Begin, Work 0]"] show ?thesis by simp
qed

end
