(* ===== verification/Task_System.thy ===== *)
theory Task_System
  imports Prelude "HOL-Library.Multiset"
begin

text \<open>
  The portable task system of stlab (\<^verbatim>\<open>deps/clean_stlab/stlab/concurrency/default_executor.hpp\<close>): three
  rows of queues, one row per priority with one queue per thread; \<open>execute\<close> spreads tasks over the row
  with an atomic counter, the threads scan all rows for work and wait on their own condition variable
  when they find none. A step of the model is a critical section of a queue, a read of \<open>_done\<close>, the
  entry into a wait, a notification, or the end of the call of a task; the steps of any number of
  callers and of all threads interleave freely. A \<open>try_lock\<close> may fail.
\<close>

section \<open>State\<close>

datatype executor_priority = High | Medium | Low

fun priority_index :: "executor_priority \<Rightarrow> nat" where
  "priority_index High = 0"
| "priority_index Medium = 1"
| "priority_index Low = 2"

text \<open>
  A thread in \<open>run\<close>: about to try the queue at offset \<open>n\<close> of row \<open>p\<close>; in the call of a task; before the
  lock of its mutex; holding it after it has read \<open>_done\<close> as false; in the wait; before the last test of
  \<open>_done\<close>; returned. Only the thread itself ever locks its mutex.
\<close>

datatype 'f tpc = Scan nat nat | Calling 'f | Before_Lock | Locked | Waiting | Last_Test | Ended

text \<open>A call of \<open>execute\<close>: about to try a queue, or before the notification of a thread.\<close>

datatype 'f epc = Trying nat 'f "32 word" nat | Notify nat

record 'f tsys =
  tq :: "'f list list list"
  t_index :: "32 word"
  t_done :: bool
  t_threads :: "'f tpc list"
  t_calls :: "'f epc list"
  t_ran :: "'f list"

definition t_spin :: "nat \<Rightarrow> nat" where
  "t_spin cnt = (if cnt < 64 then 64 else cnt)"

definition div_c :: "nat \<Rightarrow> nat \<Rightarrow> nat res" where
  "div_c a b = (if b = 0 then Inl Div_By_Zero else Inr (a div b))"

definition mod_c :: "nat \<Rightarrow> nat \<Rightarrow> nat res" where
  "mod_c a b = (if b = 0 then Inl Div_By_Zero else Inr (a mod b))"

definition priority_task_system :: "nat \<Rightarrow> 'f tsys" where
  "priority_task_system cnt =
     \<lparr>tq = replicate 3 (replicate cnt []), t_index = 0, t_done = False,
      t_threads = replicate cnt (Scan 0 0), t_calls = [], t_ran = []\<rparr>"

section \<open>Operations\<close>

definition q_get :: "nat \<Rightarrow> nat \<Rightarrow> 'f tsys \<Rightarrow> 'f list res" where
  "q_get p k s = bindR (arr_get (tq s) p) (\<lambda>row. arr_get row k)"

definition q_set :: "nat \<Rightarrow> nat \<Rightarrow> 'f list \<Rightarrow> 'f tsys \<Rightarrow> 'f tsys res" where
  "q_set p k q s =
     bindR (arr_get (tq s) p) (\<lambda>row. bindR (arr_set row k q) (\<lambda>row. bindR (arr_set (tq s) p row)
       (\<lambda>Q. Inr (s\<lparr>tq := Q\<rparr>))))"

text \<open>\<open>try_pop\<close> and \<open>try_push\<close> of a queue; \<open>locked\<close> says whether the \<open>try_lock\<close> succeeds.\<close>

definition nq_try_pop :: "bool \<Rightarrow> nat \<Rightarrow> nat \<Rightarrow> 'f tsys \<Rightarrow> ('f option \<times> 'f tsys) res" where
  "nq_try_pop locked p k s =
     bindR (q_get p k s) (\<lambda>q.
       if \<not> locked then Inr (None, s)
       else case q of
              [] \<Rightarrow> Inr (None, s)
            | x # xs \<Rightarrow> bindR (q_set p k xs s) (\<lambda>s. Inr (Some x, s)))"

definition nq_push :: "nat \<Rightarrow> nat \<Rightarrow> 'f \<Rightarrow> 'f tsys \<Rightarrow> 'f tsys res" where
  "nq_push p k f s = bindR (q_get p k s) (\<lambda>q. q_set p k (q @ [f]) s)"

definition set_thread :: "nat \<Rightarrow> 'f tpc \<Rightarrow> 'f tsys \<Rightarrow> 'f tsys" where
  "set_thread i w s = s\<lparr>t_threads := (t_threads s)[i := w]\<rparr>"

text \<open>\<open>notify_all\<close> on the condition variable of thread \<open>k\<close>.\<close>

definition notify :: "nat \<Rightarrow> 'f tsys \<Rightarrow> 'f tsys" where
  "notify k s =
     (if k < length (t_threads s) \<and> t_threads s ! k = Waiting then set_thread k (Scan 0 0) s else s)"

text \<open>One step of \<open>run(i)\<close>.\<close>

definition run_step :: "nat \<Rightarrow> nat \<Rightarrow> bool \<Rightarrow> 'f tsys \<Rightarrow> 'f tsys res" where
  "run_step cnt i locked s =
     bindR (arr_get (t_threads s) i) (\<lambda>w. case w of
       Scan p n \<Rightarrow>
         if p = 3 then Inr (set_thread i Before_Lock s)
         else bindR (div_c (t_spin cnt) cnt) (\<lambda>rounds.
           if n = rounds then Inr (set_thread i (Scan (Suc p) 0) s)
           else bindR (mod_c (i + n) cnt) (\<lambda>k. bindR (nq_try_pop locked p k s) (\<lambda>(r, s).
             case r of
               Some f \<Rightarrow> Inr (set_thread i (Calling f) s)
             | None \<Rightarrow> Inr (set_thread i (Scan p (Suc n)) s))))
     | Calling f \<Rightarrow> Inr (set_thread i (Scan 0 0) (s\<lparr>t_ran := t_ran s @ [f]\<rparr>))
     | Before_Lock \<Rightarrow> Inr (set_thread i (if t_done s then Last_Test else Locked) s)
     | Locked \<Rightarrow> Inr (set_thread i Waiting s)
     | Waiting \<Rightarrow> Inr s
     | Last_Test \<Rightarrow> Inr (set_thread i (if t_done s then Ended else Scan 0 0) s)
     | Ended \<Rightarrow> Inr s)"

text \<open>The call of \<open>execute<P>\<close> up to the increment of \<open>_index\<close>, and one further step of a call.\<close>

definition execute_call :: "executor_priority \<Rightarrow> 'f \<Rightarrow> 'f tsys \<Rightarrow> 'f tsys" where
  "execute_call P f s =
     s\<lparr>t_calls := t_calls s @ [Trying (priority_index P) f (t_index s) 0], t_index := t_index s + 1\<rparr>"

definition execute_step :: "nat \<Rightarrow> nat \<Rightarrow> bool \<Rightarrow> 'f tsys \<Rightarrow> 'f tsys res" where
  "execute_step cnt j locked s =
     (if j < length (t_calls s) then
        (case t_calls s ! j of
           Trying p f i n \<Rightarrow>
             bindR (div_c (t_spin cnt) cnt) (\<lambda>rounds.
             if n = rounds then
               bindR (mod_c (unat i) cnt) (\<lambda>k. bindR (nq_push p k f s) (\<lambda>s.
                 Inr (s\<lparr>t_calls := (t_calls s)[j := Notify k]\<rparr>)))
             else
               bindR (mod_c (unat (i + of_nat n)) cnt) (\<lambda>k.
                 if locked then bindR (nq_push p k f s) (\<lambda>s. Inr (s\<lparr>t_calls := (t_calls s)[j := Notify k]\<rparr>))
                 else Inr (s\<lparr>t_calls := (t_calls s)[j := Trying p f i (Suc n)]\<rparr>)))
         | Notify k \<Rightarrow> Inr (notify k (s\<lparr>t_calls := drop_nth j (t_calls s)\<rparr>)))
      else Inr s)"

text \<open>
  The steps: a call of \<open>execute\<close>, its progress, a step of a thread, a spurious wake-up, and the
  destructor's store to \<open>_done\<close> and its notifications.
\<close>

datatype 'f ts_op = Execute executor_priority 'f | Call_Step nat bool | Thread_Step nat bool
  | Spurious_Wakeup nat | Set_Done | Dtor_Notify nat

fun ts_step :: "nat \<Rightarrow> 'f ts_op \<Rightarrow> 'f tsys \<Rightarrow> 'f tsys res" where
  "ts_step cnt (Execute P f) s = Inr (execute_call P f s)"
| "ts_step cnt (Call_Step j b) s = execute_step cnt j b s"
| "ts_step cnt (Thread_Step i b) s = (if i < length (t_threads s) then run_step cnt i b s else Inr s)"
| "ts_step cnt (Spurious_Wakeup i) s = Inr (notify i s)"
| "ts_step cnt Set_Done s = Inr (s\<lparr>t_done := True\<rparr>)"
| "ts_step cnt (Dtor_Notify k) s = Inr (notify k s)"

section \<open>Well-formedness and conservation of tasks\<close>

definition rounds :: "nat \<Rightarrow> nat" where
  "rounds cnt = t_spin cnt div cnt"

fun tpc_ok :: "nat \<Rightarrow> 'f tpc \<Rightarrow> bool" where
  "tpc_ok cnt (Scan p n) = (p \<le> 3 \<and> n \<le> rounds cnt)"
| "tpc_ok cnt _ = True"

fun epc_ok :: "nat \<Rightarrow> 'f epc \<Rightarrow> bool" where
  "epc_ok cnt (Trying p f i n) = (p < 3 \<and> n \<le> rounds cnt)"
| "epc_ok cnt (Notify k) = (k < cnt)"

text \<open>The shape of the state: three rows of one queue per thread, indices within them.\<close>

definition ts_wf :: "nat \<Rightarrow> 'f tsys \<Rightarrow> bool" where
  "ts_wf cnt s \<longleftrightarrow> length (tq s) = 3 \<and> list_all (\<lambda>row. length row = cnt) (tq s) \<and>
     length (t_threads s) = cnt \<and> list_all (tpc_ok cnt) (t_threads s) \<and> list_all (epc_ok cnt) (t_calls s)"

fun tpc_task :: "'f tpc \<Rightarrow> 'f multiset" where
  "tpc_task (Calling f) = {#f#}"
| "tpc_task _ = {#}"

fun epc_task :: "'f epc \<Rightarrow> 'f multiset" where
  "epc_task (Trying p f i n) = {#f#}"
| "epc_task (Notify k) = {#}"

definition queued :: "'f list list list \<Rightarrow> 'f multiset" where
  "queued Q = sum_list (map (\<lambda>row. sum_list (map mset row)) Q)"

definition ts_tasks :: "'f tsys \<Rightarrow> 'f multiset" where
  "ts_tasks s = mset (t_ran s) + sum_list (map tpc_task (t_threads s)) + queued (tq s) +
     sum_list (map epc_task (t_calls s))"

fun executed :: "'f ts_op list \<Rightarrow> 'f multiset" where
  "executed [] = {#}"
| "executed (Execute P f # ops) = add_mset f (executed ops)"
| "executed (op # ops) = executed ops"

lemma queued_update:
  assumes "p < length Q" and "k < length (Q ! p)"
  shows "queued (Q[p := (Q ! p)[k := q]]) + mset (Q ! p ! k) = queued Q + mset q"
proof -
  let ?Q = "Q[p := (Q ! p)[k := q]]"
  let ?r = "\<lambda>row. sum_list (map mset row)"
  have "queued ?Q + ?r (Q ! p) = queued Q + ?r ((Q ! p)[k := q])"
    unfolding queued_def by (rule sum_list_update [OF assms(1)])
  then have "(queued ?Q + mset (Q ! p ! k)) + ?r (Q ! p) = queued Q + (?r ((Q ! p)[k := q]) + mset (Q ! p ! k))"
    by (metis add.assoc add.commute)
  also have "\<dots> = (queued Q + mset q) + ?r (Q ! p)"
    by (simp only: sum_list_update [OF assms(2)]) (simp add: ac_simps)
  finally show ?thesis by simp
qed

lemma ts_wf_row: "ts_wf cnt s \<Longrightarrow> p < 3 \<Longrightarrow> length (tq s ! p) = cnt"
  by (simp add: ts_wf_def list_all_length)

definition put_queue :: "nat \<Rightarrow> nat \<Rightarrow> 'f list \<Rightarrow> 'f tsys \<Rightarrow> 'f tsys" where
  "put_queue p k q s = s\<lparr>tq := (tq s)[p := (tq s ! p)[k := q]]\<rparr>"

lemma q_access:
  assumes "ts_wf cnt s" and "p < 3" and "k < cnt"
  shows "q_get p k s = Inr (tq s ! p ! k)" and "q_set p k q s = Inr (put_queue p k q s)"
  using assms ts_wf_row [OF assms(1,2)] by (simp_all add: q_get_def q_set_def put_queue_def ts_wf_def)

lemma ts_wf_put_queue: "ts_wf cnt s \<Longrightarrow> p < 3 \<Longrightarrow> ts_wf cnt (put_queue p k q s)"
  by (auto simp: ts_wf_def put_queue_def list_all_length nth_list_update)

lemma ts_tasks_put_queue:
  assumes "ts_wf cnt s" and "p < 3" and "k < cnt"
  shows "ts_tasks (put_queue p k q s) + mset (tq s ! p ! k) = ts_tasks s + mset q"
  using queued_update [of p "tq s" k q] assms ts_wf_row [OF assms(1,2)]
  by (auto simp: ts_tasks_def put_queue_def ts_wf_def)

lemma ts_wf_set_thread: "ts_wf cnt s \<Longrightarrow> tpc_ok cnt w \<Longrightarrow> ts_wf cnt (set_thread i w s)"
  by (simp add: ts_wf_def set_thread_def list_all_update)

lemma ts_tasks_set_thread:
  "i < length (t_threads s) \<Longrightarrow>
   ts_tasks (set_thread i w s) + tpc_task (t_threads s ! i) = ts_tasks s + tpc_task w"
  using sum_list_update [of i "t_threads s" tpc_task w]
  by (auto simp: ts_tasks_def set_thread_def)

lemma div_mod_c [simp]:
  "0 < cnt \<Longrightarrow> div_c (t_spin cnt) cnt = Inr (rounds cnt)"
  "0 < cnt \<Longrightarrow> mod_c a cnt = Inr (a mod cnt)"
  by (simp_all add: div_c_def mod_c_def rounds_def)

text \<open>A scan step: an empty or busy queue is passed over, otherwise its first task is taken.\<close>

definition scan_queue :: "nat \<Rightarrow> nat \<Rightarrow> bool \<Rightarrow> nat \<Rightarrow> nat \<Rightarrow> 'f tsys \<Rightarrow> 'f tsys" where
  "scan_queue cnt i locked p n s =
     (let k = (i + n) mod cnt
      in if locked \<and> tq s ! p ! k \<noteq> []
         then set_thread i (Calling (hd (tq s ! p ! k))) (put_queue p k (tl (tq s ! p ! k)) s)
         else set_thread i (Scan p (Suc n)) s)"

lemma run_step_scan:
  assumes "ts_wf cnt s" and "i < cnt" and "t_threads s ! i = Scan p n"
  shows "run_step cnt i locked s = Inr
    (if p = 3 then set_thread i Before_Lock s
     else if n = rounds cnt then set_thread i (Scan (Suc p) 0) s
     else scan_queue cnt i locked p n s)"
proof (cases "p = 3 \<or> n = rounds cnt")
  case True
  then show ?thesis using assms by (auto simp: run_step_def ts_wf_def)
next
  case False
  have p: "p < 3" using assms False list_all_nth [of "tpc_ok cnt" "t_threads s" i] by (auto simp: ts_wf_def)
  have k: "(i + n) mod cnt < cnt" using assms(2) by simp
  have i: "i < length (t_threads s)" using assms by (simp add: ts_wf_def)
  show ?thesis using False assms(2,3) i q_access [OF assms(1) p k]
    by (auto simp: run_step_def nq_try_pop_def scan_queue_def Let_def neq_Nil_conv split: list.splits)
qed

lemma nth_thread_ok: "ts_wf cnt s \<Longrightarrow> i < cnt \<Longrightarrow> tpc_ok cnt (t_threads s ! i)"
  by (simp add: ts_wf_def list_all_length)

lemma ts_wf_cnt: "ts_wf cnt s \<Longrightarrow> length (t_threads s) = cnt"
  by (simp add: ts_wf_def)

lemma threads_put_queue [simp]: "t_threads (put_queue p k q s) = t_threads s"
  by (simp add: put_queue_def)

lemma scan_queue_ok:
  assumes "ts_wf cnt s" and "i < cnt" and "t_threads s ! i = Scan p n" and "p < 3" and "n < rounds cnt"
  shows "ts_wf cnt (scan_queue cnt i locked p n s) \<and> ts_tasks (scan_queue cnt i locked p n s) = ts_tasks s"
proof -
  define k where "k = (i + n) mod cnt"
  have k: "k < cnt" using assms(2) by (simp add: k_def)
  note i = assms(2) [folded ts_wf_cnt [OF assms(1)]]
  show ?thesis
  proof (cases "locked \<and> tq s ! p ! k \<noteq> []")
    case True
    then obtain f fs where q: "tq s ! p ! k = f # fs" by (auto simp: neq_Nil_conv)
    have "ts_tasks (set_thread i (Calling f) (put_queue p k fs s)) = ts_tasks s"
      using ts_tasks_put_queue [OF assms(1,4) k, of fs] ts_tasks_set_thread [of i "put_queue p k fs s" "Calling f"]
        i q assms(3) by (auto simp: )
    moreover have "ts_wf cnt (set_thread i (Calling f) (put_queue p k fs s))"
      using assms(1,4) by (simp add: ts_wf_set_thread ts_wf_put_queue)
    ultimately show ?thesis using True q by (simp add: scan_queue_def flip: k_def)
  next
    case False
    then show ?thesis
      using ts_tasks_set_thread [OF i, of "Scan p (Suc n)"] ts_wf_set_thread [OF assms(1), of "Scan p (Suc n)" i] assms(3-5)
      by (auto simp: scan_queue_def Let_def simp flip: k_def)
  qed
qed

lemma run_step_ok:
  assumes "ts_wf cnt s" and "i < cnt"
  shows "\<exists>s'. run_step cnt i locked s = Inr s' \<and> ts_wf cnt s' \<and> ts_tasks s' = ts_tasks s"
proof -
  note i = assms(2) [folded ts_wf_cnt [OF assms(1)]]
  note st = ts_wf_set_thread [OF assms(1), of _ i] and tt = ts_tasks_set_thread [OF i]
  show ?thesis
  proof (cases "t_threads s ! i")
    case (Scan p n)
    with nth_thread_ok [OF assms] have "p \<le> 3" "n \<le> rounds cnt" by simp_all
    then show ?thesis
      using run_step_scan [OF assms Scan, of locked] scan_queue_ok [OF assms Scan, of locked]
        st [of Before_Lock] tt [of Before_Lock] st [of "Scan (Suc p) 0"] tt [of "Scan (Suc p) 0"] Scan
      by auto
  next
    case (Calling f)
    let ?s = "s\<lparr>t_ran := t_ran s @ [f]\<rparr>"
    have "ts_wf cnt ?s" using assms(1) by (simp add: ts_wf_def)
    moreover have "ts_tasks ?s = add_mset f (ts_tasks s)" by (simp add: ts_tasks_def)
    ultimately show ?thesis
      using Calling i ts_wf_set_thread [of cnt ?s "Scan 0 0" i] ts_tasks_set_thread [of i ?s "Scan 0 0"]
      by (simp add: run_step_def)
  qed (use i assms(1) st [of Locked] st [of Last_Test] st [of Waiting] st [of Ended] st [of "Scan 0 0"]
      tt [of Locked] tt [of Last_Test] tt [of Waiting] tt [of Ended] tt [of "Scan 0 0"] in
      \<open>simp_all add: run_step_def\<close>)
qed

lemma notify_ok: "ts_wf cnt s \<Longrightarrow> ts_wf cnt (notify k s) \<and> ts_tasks (notify k s) = ts_tasks s"
  using ts_tasks_set_thread [of k s "Scan 0 0"] by (auto simp: notify_def ts_wf_set_thread)

definition set_call :: "nat \<Rightarrow> 'f epc \<Rightarrow> 'f tsys \<Rightarrow> 'f tsys" where
  "set_call j e s = s\<lparr>t_calls := (t_calls s)[j := e]\<rparr>"

lemma set_call_ok:
  assumes "ts_wf cnt s" and "epc_ok cnt e" and "j < length (t_calls s)"
  shows "ts_wf cnt (set_call j e s)" and "ts_tasks (set_call j e s) + epc_task (t_calls s ! j) = ts_tasks s + epc_task e"
  using assms sum_list_update [of j "t_calls s" epc_task e]
  by (simp_all add: ts_wf_def set_call_def list_all_update ts_tasks_def ac_simps)

lemma push_call_ok:
  assumes "ts_wf cnt s" and "j < length (t_calls s)" and "t_calls s ! j = Trying p f i n" and "p < 3" and "k < cnt"
  shows "\<exists>s'. bindR (nq_push p k f s) (\<lambda>s. Inr (s\<lparr>t_calls := (t_calls s)[j := Notify k]\<rparr>)) = Inr s' \<and>
    ts_wf cnt s' \<and> ts_tasks s' = ts_tasks s"
proof -
  let ?s = "put_queue p k (tq s ! p ! k @ [f]) s"
  have c: "t_calls ?s = t_calls s" by (simp add: put_queue_def)
  note w = ts_wf_put_queue [OF assms(1,4), of k "tq s ! p ! k @ [f]"]
  have "ts_tasks (set_call j (Notify k) ?s) = ts_tasks s"
    using set_call_ok(2) [OF w, of "Notify k" j] ts_tasks_put_queue [OF assms(1,4,5), of "tq s ! p ! k @ [f]"]
      assms(2,3,5) by (simp add: c)
  moreover have "ts_wf cnt (set_call j (Notify k) ?s)" using set_call_ok(1) [OF w] assms(2,5) by (simp add: c)
  ultimately show ?thesis
    using q_access [OF assms(1,4,5)] by (simp add: nq_push_def set_call_def)
qed

lemma execute_step_ok:
  assumes "ts_wf cnt s" and "0 < cnt"
  shows "\<exists>s'. execute_step cnt j locked s = Inr s' \<and> ts_wf cnt s' \<and> ts_tasks s' = ts_tasks s"
proof (cases "j < length (t_calls s)")
  case True
  have ok: "epc_ok cnt (t_calls s ! j)" using assms(1) True by (simp add: ts_wf_def list_all_length)
  show ?thesis
  proof (cases "t_calls s ! j")
    case (Trying p f i n)
    with ok have p: "p < 3" "n \<le> rounds cnt" by simp_all
    show ?thesis
      using push_call_ok [OF assms(1) True Trying p(1)] set_call_ok [OF assms(1) _ True, of "Trying p f i (Suc n)"]
        True Trying p assms(2)
      by (simp add: execute_step_def set_call_def)
  next
    case (Notify k)
    let ?s = "s\<lparr>t_calls := drop_nth j (t_calls s)\<rparr>"
    have "ts_wf cnt ?s" using assms(1) True
      by (auto simp: ts_wf_def list_all_iff drop_nth_def dest: in_set_takeD in_set_dropD)
    moreover have "ts_tasks ?s = ts_tasks s"
      using sum_list_drop_nth [OF True, of epc_task] Notify by (simp add: ts_tasks_def)
    ultimately show ?thesis using notify_ok [of cnt ?s k] True Notify by (simp add: execute_step_def)
  qed
qed (simp add: execute_step_def assms(1))

lemma ts_step_ok:
  assumes "ts_wf cnt s" and "0 < cnt"
  shows "\<exists>s'. ts_step cnt op s = Inr s' \<and> ts_wf cnt s' \<and> ts_tasks s' = ts_tasks s + executed [op]"
proof (cases op)
  case (Execute P f)
  have "priority_index P < 3" by (cases P) simp_all
  with assms(1) Execute show ?thesis by (simp add: execute_call_def ts_wf_def ts_tasks_def)
next
  case (Call_Step j b)
  with execute_step_ok [OF assms, of j b] show ?thesis by simp
next
  case (Thread_Step i b)
  with run_step_ok [OF assms(1), of i b] assms(1) show ?thesis by (simp add: ts_wf_cnt [OF assms(1)])
next
  case Set_Done
  with assms(1) show ?thesis by (simp add: ts_wf_def ts_tasks_def)
qed (use notify_ok [OF assms(1)] in simp_all)

interpretation ts: refining_machine "\<lambda>s. ts_wf cnt s \<and> 0 < cnt" "ts_step cnt" ts_tasks "\<lambda>op a. True"
    "\<lambda>op a. a + executed [op]" for cnt
  by unfold_locales (use ts_step_ok in blast)

lemma executed_Cons: "executed (op # ops) = executed [op] + executed ops"
  by (cases op) simp_all

lemma fold_executed: "fold (\<lambda>op a. a + executed [op]) ops a = a + executed ops"
proof (induction ops arbitrary: a)
  case (Cons op ops)
  then show ?case by (subst executed_Cons) (simp add: ac_simps)
qed simp

lemma ts_init: "ts_wf cnt (priority_task_system cnt)" "ts_tasks (priority_task_system cnt) = {#}"
proof -
  have "rounds cnt \<ge> 0" by simp
  then show "ts_wf cnt (priority_task_system cnt)"
    by (simp add: ts_wf_def priority_task_system_def list_all_iff)
  show "ts_tasks (priority_task_system cnt) = {#}"
    by (simp add: ts_tasks_def priority_task_system_def queued_def numeral_3_eq_3)
qed

lemma ts_run:
  assumes "0 < cnt"
  obtains s where "run_ops (ts_step cnt) ops (priority_task_system cnt) = Inr s" "ts_wf cnt s"
    "ts_tasks s = executed ops"
proof -
  have "permitted (\<lambda>op a. True) (\<lambda>op a. a + executed [op]) ops a" for a
    by (induction ops arbitrary: a) simp_all
  then have "\<exists>s. run_ops (ts_step cnt) ops (priority_task_system cnt) = Inr s \<and> ts_wf cnt s \<and> ts_tasks s = executed ops"
    using ts.run_refines [of cnt "priority_task_system cnt" ops] assms by (auto simp: fold_executed ts_init)
  then show thesis using that by blast
qed

text \<open>
  The state of the task system keeps its shape: with at least one thread, no interleaving of callers,
  threads, spurious wake-ups and the destructor indexes outside the three rows of one queue per
  thread, and there are always as many threads as queues in each row.
\<close>
theorem task_system_shape:
  assumes "0 < cnt"
  shows "\<exists>s. run_ops (ts_step cnt) ops (priority_task_system cnt) = Inr s \<and> length (tq s) = 3 \<and>
    list_all (\<lambda>row. length row = cnt) (tq s) \<and> length (t_threads s) = cnt"
proof -
  from ts_run [OF assms, of ops] obtain s where
    "run_ops (ts_step cnt) ops (priority_task_system cnt) = Inr s" "ts_wf cnt s" .
  then show ?thesis by (simp add: ts_wf_def)
qed

theorem task_system_shape_witness:
  "\<exists>s. run_ops (ts_step 4) [Execute Low (1::nat), Call_Step 0 False, Call_Step 0 True, Thread_Step 2 True]
      (priority_task_system 4) = Inr s \<and> length (tq s) = 3 \<and> list_all (\<lambda>row. length row = 4) (tq s) \<and>
      length (t_threads s) = 4"
  using task_system_shape [of 4 "[Execute Low (1::nat), Call_Step 0 False, Call_Step 0 True, Thread_Step 2 True]"]
  by simp

text \<open>
  C12. No task is lost or run twice by the task system: under every interleaving, and whichever \<open>try_lock\<close>
  fails, the tasks run, in execution, queued and held by unfinished calls of \<open>execute\<close> are together
  exactly the tasks passed to \<open>execute\<close>.
\<close>
theorem task_system_conservation:
  assumes "0 < cnt"
  shows "\<exists>s. run_ops (ts_step cnt) ops (priority_task_system cnt) = Inr s \<and>
    mset (t_ran s) + sum_list (map tpc_task (t_threads s)) + queued (tq s) +
      sum_list (map epc_task (t_calls s)) = executed ops"
proof -
  from ts_run [OF assms, of ops] obtain s where
    "run_ops (ts_step cnt) ops (priority_task_system cnt) = Inr s" "ts_tasks s = executed ops" .
  then show ?thesis by (simp add: ts_tasks_def)
qed

theorem task_system_conservation_witness:
  "\<exists>s. run_ops (ts_step 2) [Execute Low (1::nat), Call_Step 0 False, Call_Step 0 True, Execute High 3]
      (priority_task_system 2) = Inr s \<and>
    mset (t_ran s) + sum_list (map tpc_task (t_threads s)) + queued (tq s) +
      sum_list (map epc_task (t_calls s)) = {#1, 3#}"
  using task_system_conservation [of 2 "[Execute Low (1::nat), Call_Step 0 False, Call_Step 0 True, Execute High 3]"]
  by simp

text \<open>A machine that reports no hardware threads makes \<open>execute\<close> divide by zero.\<close>

lemma task_system_no_threads:
  "run_ops (ts_step 0) [Execute P f, Call_Step 0 b] (priority_task_system 0) = Inl Div_By_Zero"
  by (simp add: priority_task_system_def execute_call_def execute_step_def div_c_def)

section \<open>The scan of the queues\<close>

lemma set_thread_twice [simp]: "set_thread i w (set_thread i v s) = set_thread i w s"
  by (simp add: set_thread_def)

lemma tq_set_thread [simp]: "tq (set_thread i w s) = tq s" "t_done (set_thread i w s) = t_done s"
  "length (t_threads (set_thread i w s)) = length (t_threads s)"
  by (simp_all add: set_thread_def)

lemma thread_step_scan:
  assumes "ts_wf cnt s" and "i < cnt" and "p \<le> 3" and "n \<le> rounds cnt"
  shows "ts_step cnt (Thread_Step i b) (set_thread i (Scan p n) s) = Inr
    (if p = 3 then set_thread i Before_Lock s
     else if n = rounds cnt then set_thread i (Scan (Suc p) 0) s
     else scan_queue cnt i b p n (set_thread i (Scan p n) s))"
proof -
  have "ts_wf cnt (set_thread i (Scan p n) s)" using assms by (simp add: ts_wf_set_thread)
  moreover have "t_threads (set_thread i (Scan p n) s) ! i = Scan p n"
    using assms(2) ts_wf_cnt [OF assms(1)] by (simp add: set_thread_def)
  ultimately show ?thesis
    using run_step_scan [of cnt "set_thread i (Scan p n) s" i p n b] assms(2) ts_wf_cnt [OF assms(1)] by simp
qed

text \<open>The queues that come before offset \<open>n\<close> of row \<open>p\<close> in the scan of thread \<open>i\<close> are empty.\<close>

definition empty_before :: "nat \<Rightarrow> nat \<Rightarrow> nat \<Rightarrow> nat \<Rightarrow> 'f tsys \<Rightarrow> bool" where
  "empty_before cnt i p n s \<longleftrightarrow>
     (\<forall>p' < p. \<forall>m < rounds cnt. tq s ! p' ! ((i + m) mod cnt) = []) \<and>
     (\<forall>m < n. tq s ! p ! ((i + m) mod cnt) = [])"

lemma scan_row:
  assumes "ts_wf cnt s" and "i < cnt" and "p < 3" and "n \<le> rounds cnt" and "empty_before cnt i p n s"
  shows "run_ops (ts_step cnt) (replicate n (Thread_Step i True)) (set_thread i (Scan p 0) s) =
    Inr (set_thread i (Scan p n) s)"
  using assms(4,5)
proof (induction n)
  case (Suc n)
  then have IH: "run_ops (ts_step cnt) (replicate n (Thread_Step i True)) (set_thread i (Scan p 0) s) =
    Inr (set_thread i (Scan p n) s)" and "tq s ! p ! ((i + n) mod cnt) = []"
    by (simp_all add: empty_before_def)
  then have "ts_step cnt (Thread_Step i True) (set_thread i (Scan p n) s) = Inr (set_thread i (Scan p (Suc n)) s)"
    using thread_step_scan [OF assms(1,2), of p n True] assms(3) Suc.prems(1)
    by (simp add: scan_queue_def Let_def del: ts_step.simps)
  with IH show ?case by (simp add: run_ops_once del: replicate.simps ts_step.simps)
qed simp

lemma scan_rows:
  assumes "ts_wf cnt s" and "i < cnt" and "p \<le> 3" and "empty_before cnt i p 0 s"
  shows "run_ops (ts_step cnt) (replicate (p * Suc (rounds cnt)) (Thread_Step i True)) (set_thread i (Scan 0 0) s) =
    Inr (set_thread i (Scan p 0) s)"
  using assms(3,4)
proof (induction p)
  case (Suc p)
  then have "empty_before cnt i p 0 s" "empty_before cnt i p (rounds cnt) s" by (simp_all add: empty_before_def)
  with Suc scan_row [OF assms(1,2), of p "rounds cnt"] thread_step_scan [OF assms(1,2), of p "rounds cnt" True]
  have "run_ops (ts_step cnt) (replicate (p * Suc (rounds cnt)) (Thread_Step i True)) (set_thread i (Scan 0 0) s) =
      Inr (set_thread i (Scan p 0) s)"
    "run_ops (ts_step cnt) (replicate (Suc (rounds cnt)) (Thread_Step i True)) (set_thread i (Scan p 0) s) =
      Inr (set_thread i (Scan (Suc p) 0) s)"
    by (simp_all add: run_ops_once del: replicate.simps ts_step.simps)
  moreover have "Suc p * Suc (rounds cnt) = p * Suc (rounds cnt) + Suc (rounds cnt)" by simp
  ultimately show ?case by (simp only: run_ops_times bindR_Inr)
qed simp

text \<open>
  A thread takes the most urgent task it can see: an undisturbed scan from the beginning passes over
  empty queues and takes the first task of the first non-empty queue, in the order high, medium, low
  priority, and within a row from the thread's own queue on.
\<close>
theorem task_system_priority:
  assumes "ts_wf cnt s" and "i < cnt" and "t_threads s ! i = Scan 0 0" and "p < 3" and "n < rounds cnt"
    and "empty_before cnt i p n s" and "tq s ! p ! ((i + n) mod cnt) = f # fs"
  shows "run_ops (ts_step cnt) (replicate (p * Suc (rounds cnt) + Suc n) (Thread_Step i True)) s =
    Inr (set_thread i (Calling f) (put_queue p ((i + n) mod cnt) fs s))"
proof -
  have s: "set_thread i (Scan 0 0) s = s"
    using assms(3) list_update_id [of "t_threads s" i] by (simp add: set_thread_def)
  have "empty_before cnt i p 0 s" using assms(6) by (simp add: empty_before_def)
  with scan_rows [OF assms(1,2), of p] assms(4)
  have "run_ops (ts_step cnt) (replicate (p * Suc (rounds cnt)) (Thread_Step i True)) s = Inr (set_thread i (Scan p 0) s)"
    by (simp add: s)
  moreover have "run_ops (ts_step cnt) (replicate n (Thread_Step i True)) (set_thread i (Scan p 0) s) =
      Inr (set_thread i (Scan p n) s)"
    using scan_row [OF assms(1,2,4) _ assms(6)] assms(5) by simp
  moreover have "ts_step cnt (Thread_Step i True) (set_thread i (Scan p n) s) =
      Inr (set_thread i (Calling f) (put_queue p ((i + n) mod cnt) fs s))"
    using thread_step_scan [OF assms(1,2), of p n True] assms(4,5,7)
    by (simp add: scan_queue_def Let_def del: ts_step.simps) (simp add: set_thread_def put_queue_def)
  ultimately show ?thesis by (simp add: run_ops_times run_ops_once del: replicate.simps ts_step.simps)
qed

theorem task_system_priority_witness:
  "run_ops (ts_step 2) (replicate (1 * Suc (rounds 2) + Suc 1) (Thread_Step 0 True))
     \<lparr>tq = [[[], []], [[], [7]], [[8::nat], []]], t_index = 0, t_done = False,
      t_threads = [Scan 0 0, Waiting], t_calls = [], t_ran = []\<rparr> =
   Inr \<lparr>tq = [[[], []], [[], []], [[8], []]], t_index = 0, t_done = False,
      t_threads = [Calling 7, Waiting], t_calls = [], t_ran = []\<rparr>"
proof -
  let ?s = "\<lparr>tq = [[[], []], [[], [7]], [[8::nat], []]], t_index = 0, t_done = False,
      t_threads = [Scan 0 0, Waiting], t_calls = [], t_ran = []\<rparr>"
  have r: "rounds 2 = 32" by (simp add: rounds_def t_spin_def)
  have "ts_wf 2 ?s" by (simp add: ts_wf_def)
  moreover have "[[], []] ! (m mod 2) = ([] :: nat list)" for m
    by (cases "even m") (simp_all add: odd_iff_mod_2_eq_one even_iff_mod_2_eq_zero)
  then have "empty_before 2 0 1 1 ?s" by (simp add: empty_before_def)
  ultimately show ?thesis
    using task_system_priority [of 2 ?s 0 1 1 7 "[]"] by (simp add: r set_thread_def put_queue_def del: replicate.simps)
qed

text \<open>The queues of a row that the scan of thread \<open>i\<close> visits.\<close>

definition visited :: "nat \<Rightarrow> nat \<Rightarrow> nat set" where
  "visited cnt i = (\<lambda>n. (i + n) mod cnt) ` {..<rounds cnt}"

lemma rounds_ge_iff: "0 < cnt \<Longrightarrow> cnt \<le> rounds cnt \<longleftrightarrow> cnt \<le> 8"
proof -
  assume c: "0 < cnt"
  have "cnt \<le> 64 div cnt \<longleftrightarrow> cnt * cnt \<le> 64" using c by (simp add: less_eq_div_iff_mult_less_eq)
  also have "\<dots> \<longleftrightarrow> cnt \<le> 8"
  proof
    assume le: "cnt * cnt \<le> 64"
    show "cnt \<le> 8"
    proof (rule ccontr)
      assume "\<not> cnt \<le> 8"
      then have "9 \<le> cnt" by simp
      from mult_le_mono [OF this this] le show False by simp
    qed
  next
    assume "cnt \<le> 8"
    from mult_le_mono [OF this this] show "cnt * cnt \<le> 64" by simp
  qed
  finally show ?thesis using c by (simp add: rounds_def t_spin_def)
qed

text \<open>
  On a machine with more than eight hardware threads the threads do not see all queues: the scan of
  every thread visits every queue of a row exactly when there are at most eight; with 64 threads or
  more a thread sees only its own queue.
\<close>
theorem scan_coverage:
  assumes "0 < cnt"
  shows "((\<forall>i < cnt. visited cnt i = {..<cnt}) \<longleftrightarrow> cnt \<le> 8) \<and> (64 \<le> cnt \<longrightarrow> visited cnt i = {i mod cnt})"
proof -
  have sub: "visited cnt i \<subseteq> {..<cnt}" for i using assms by (auto simp: visited_def)
  have all: "visited cnt i = {..<cnt}" if "cnt \<le> 8" "i < cnt" for i
  proof -
    have "k \<in> visited cnt i" if "k < cnt" for k
    proof -
      have "(i + (k + (cnt - i)) mod cnt) mod cnt = k"
        using that \<open>i < cnt\<close> by (simp add: mod_add_right_eq)
      moreover have "(k + (cnt - i)) mod cnt < rounds cnt"
        using rounds_ge_iff [OF assms] \<open>cnt \<le> 8\<close> assms by (meson less_le_trans mod_less_divisor)
      ultimately show ?thesis unfolding visited_def by (metis imageI lessThan_iff)
    qed
    with sub [of i] show ?thesis by auto
  qed
  have "cnt \<le> 8" if "visited cnt 0 = {..<cnt}"
  proof -
    have "card (visited cnt 0) \<le> rounds cnt" unfolding visited_def by (metis card_image_le card_lessThan finite_lessThan)
    with that show ?thesis using rounds_ge_iff [OF assms] by simp
  qed
  moreover have "visited cnt i = {i mod cnt}" if "64 \<le> cnt"
    using that by (auto simp: visited_def rounds_def t_spin_def)
  ultimately show ?thesis using all assms by blast
qed

theorem scan_coverage_witness: "visited 8 3 = {..<8} \<and> visited 9 0 \<noteq> {..<9} \<and> visited 64 5 = {5}"
proof -
  have "visited 9 0 \<noteq> {..<9}"
  proof
    assume *: "visited 9 0 = {..<9}"
    have "visited 9 0 = {..<7}" by (auto simp: visited_def rounds_def t_spin_def image_iff)
    with * have "card {..<9::nat} = card {..<7::nat}" by simp
    then show False by simp
  qed
  then show ?thesis using scan_coverage [of 8 3] scan_coverage [of 64 5] by simp
qed

section \<open>Lost notifications\<close>

text \<open>
  The schedule in which every thread in turn scans the empty queues, locks its mutex and reads
  \<open>_done\<close>, up to the point before its wait.
\<close>

definition thread_idles :: "nat \<Rightarrow> nat \<Rightarrow> 'f ts_op list" where
  "thread_idles cnt i = replicate (3 * Suc (rounds cnt) + 2) (Thread_Step i True)"

definition threads_idle :: "nat \<Rightarrow> nat \<Rightarrow> 'f ts_op list" where
  "threads_idle cnt m = concat (map (thread_idles cnt) [0..<m])"

definition threads_wait :: "nat \<Rightarrow> 'f ts_op list" where
  "threads_wait cnt = map (\<lambda>i. Thread_Step i True) [0..<cnt]"

lemma thread_idles_run:
  assumes "ts_wf cnt s" and "i < cnt" and "t_threads s ! i = Scan 0 0" and "\<not> t_done s"
    and "\<And>p k. p < 3 \<Longrightarrow> k < cnt \<Longrightarrow> tq s ! p ! k = []"
  shows "run_ops (ts_step cnt) (thread_idles cnt i) s = Inr (set_thread i Locked s)"
proof -
  have s: "set_thread i (Scan 0 0) s = s"
    using assms(3) list_update_id [of "t_threads s" i] by (simp add: set_thread_def)
  have "empty_before cnt i 3 0 s" using assms(2,5) by (simp add: empty_before_def)
  with scan_rows [OF assms(1,2), of 3]
  have "run_ops (ts_step cnt) (replicate (3 * Suc (rounds cnt)) (Thread_Step i True)) s = Inr (set_thread i (Scan 3 0) s)"
    by (simp add: s)
  moreover have "ts_step cnt (Thread_Step i True) (set_thread i (Scan 3 0) s) = Inr (set_thread i Before_Lock s)"
    using thread_step_scan [OF assms(1,2), of 3 0 True] by simp
  moreover have "ts_step cnt (Thread_Step i True) (set_thread i Before_Lock s) = Inr (set_thread i Locked s)"
    using assms(2,4) ts_wf_cnt [OF assms(1)] by (simp add: run_step_def) (simp add: set_thread_def)
  moreover have "3 * Suc (rounds cnt) + 2 = Suc (Suc (3 * Suc (rounds cnt)))" by simp
  ultimately show ?thesis unfolding thread_idles_def by (simp only: run_ops_once bindR_Inr)
qed

lemma replicate_advance:
  "m < n \<Longrightarrow> (replicate m x @ replicate (n - m) y)[m := x] = replicate (Suc m) x @ replicate (n - Suc m) y"
  by (simp add: Suc_diff_Suc [symmetric] list_update_append replicate_app_Cons_same)

text \<open>All queues empty, and the threads where the list says.\<close>

definition ts_quiet :: "nat \<Rightarrow> 'f tpc list \<Rightarrow> 'f tsys" where
  "ts_quiet cnt ws = (priority_task_system cnt)\<lparr>t_threads := ws\<rparr>"

lemma threads_idle_run:
  "m \<le> cnt \<Longrightarrow> run_ops (ts_step cnt) (threads_idle cnt m) (priority_task_system cnt :: 'f tsys) =
    Inr (ts_quiet cnt (replicate m Locked @ replicate (cnt - m) (Scan 0 0)))"
proof (induction m)
  case 0
  then show ?case by (simp add: threads_idle_def ts_quiet_def priority_task_system_def)
next
  case (Suc m)
  let ?s = "ts_quiet cnt (replicate m Locked @ replicate (cnt - m) (Scan 0 0)) :: 'f tsys"
  have "ts_wf cnt ?s" using Suc.prems by (simp add: ts_quiet_def ts_wf_def priority_task_system_def list_all_iff)
  moreover have "tq ?s ! p ! k = []" if "p < 3" "k < cnt" for p k
    using that by (simp add: ts_quiet_def priority_task_system_def)
  ultimately have "run_ops (ts_step cnt) (thread_idles cnt m) ?s = Inr (set_thread m Locked ?s)"
    using thread_idles_run [of cnt ?s m] Suc.prems by (simp add: ts_quiet_def priority_task_system_def nth_append)
  moreover have "set_thread m Locked ?s = ts_quiet cnt (replicate (Suc m) Locked @ replicate (cnt - Suc m) (Scan 0 0))"
    using Suc.prems by (simp add: set_thread_def ts_quiet_def replicate_advance del: replicate.simps)
  ultimately show ?case using Suc
    by (simp add: threads_idle_def run_ops_append del: replicate.simps append_Cons)
qed

lemma threads_wait_run:
  assumes "t_threads s = replicate cnt Locked"
  shows "run_ops (ts_step cnt) (threads_wait cnt) s = Inr (s\<lparr>t_threads := replicate cnt Waiting\<rparr>)"
proof -
  have "m \<le> cnt \<Longrightarrow> run_ops (ts_step cnt) (map (\<lambda>i. Thread_Step i True) [0..<m]) s =
    Inr (s\<lparr>t_threads := replicate m Waiting @ replicate (cnt - m) Locked\<rparr>)" for m
  proof (induction m)
    case 0
    then show ?case using assms by simp
  next
    case (Suc m)
    then show ?case
      by (simp add: run_ops_append run_step_def set_thread_def nth_append replicate_advance del: replicate.simps)
  qed
  from this [of cnt] show ?thesis by (simp add: threads_wait_def)
qed

text \<open>No step of a thread or of a call changes the state any more.\<close>

lemma all_waiting_stuck:
  assumes "t_threads s = replicate cnt Waiting" and "t_calls s = []"
    and "list_all (\<lambda>op. case op of Thread_Step i b \<Rightarrow> True | Call_Step j b \<Rightarrow> True | _ \<Rightarrow> False) ops"
  shows "run_ops (ts_step cnt) ops s = Inr s"
  using assms by (induction ops) (auto simp: run_step_def execute_step_def split: ts_op.splits)

fun ordinary :: "'f ts_op \<Rightarrow> bool" where
  "ordinary (Spurious_Wakeup i) = False"
| "ordinary Set_Done = False"
| "ordinary (Dtor_Notify k) = False"
| "ordinary op = True"

lemma ordinary_schedules: "list_all ordinary (threads_idle cnt m)" "list_all ordinary (threads_wait cnt)"
  by (auto simp: threads_idle_def thread_idles_def threads_wait_def list_all_iff)

lemma executed_append: "executed (xs @ ys) = executed xs + executed ys"
  by (induction xs rule: executed.induct) simp_all

lemma executed_schedules:
  "executed (threads_idle cnt m @ ops) = executed (ops :: 'a ts_op list)"
  "executed (threads_wait cnt :: 'a ts_op list) = {#}"
proof -
  have rep: "executed (replicate n (Thread_Step i True :: 'a ts_op)) = {#}" for n i by (induction n) simp_all
  have "executed (threads_idle cnt m :: 'a ts_op list) = {#}"
    by (induction m) (simp_all add: threads_idle_def thread_idles_def executed_append rep del: replicate.simps)
  then show "executed (threads_idle cnt m @ ops) = executed ops" by (simp add: executed_append)
  have "executed (map (\<lambda>i. Thread_Step i True :: 'a ts_op) is) = {#}" for "is" by (induction "is") simp_all
  then show "executed (threads_wait cnt :: 'a ts_op list) = {#}" by (simp add: threads_wait_def)
qed

text \<open>
  C33. The task system can lose a wake-up, on any number of threads: \<open>execute\<close> pushes its task and notifies
  between a thread's scan of the queues and its wait, which tests no predicate. The call of \<open>execute\<close>
  has returned, every thread waits, and the task stays in its queue: no step of any thread changes
  anything until another task is submitted.
\<close>
theorem task_system_lost_wakeup:
  assumes "0 < cnt"
  shows "\<exists>ops s. list_all ordinary ops \<and> executed ops = {#f#} \<and>
    run_ops (ts_step cnt) ops (priority_task_system cnt) = Inr s \<and>
    tq s ! priority_index P ! 0 = [f] \<and> t_ran s = [] \<and> t_calls s = [] \<and> t_threads s = replicate cnt Waiting \<and>
    (\<forall>more. list_all (\<lambda>op. case op of Thread_Step i b \<Rightarrow> True | Call_Step j b \<Rightarrow> True | _ \<Rightarrow> False) more \<longrightarrow>
       run_ops (ts_step cnt) more s = Inr s)"
proof -
  let ?ops = "threads_idle cnt cnt @ [Execute P f, Call_Step 0 True, Call_Step 0 True] @ threads_wait cnt"
  have p: "priority_index P < 3" by (cases P) simp_all
  define q where "q = ts_quiet cnt (replicate cnt Locked :: 'a tpc list)"
  define q1 where "q1 = q\<lparr>t_index := 1, t_calls := [Trying (priority_index P) f 0 0]\<rparr>"
  define u where "u = put_queue (priority_index P) 0 [f] (q\<lparr>t_index := 1\<rparr>)"
  note defs = ts_quiet_def priority_task_system_def
  have wf: "ts_wf cnt q1" using p by (simp add: q1_def q_def defs ts_wf_def list_all_iff)
  have r: "0 \<noteq> rounds cnt" using assms by (auto simp: rounds_def t_spin_def div_eq_0_iff)
  have "ts_step cnt (Execute P f) q = Inr q1" by (simp add: execute_call_def q1_def q_def defs)
  moreover have "ts_step cnt (Call_Step 0 True) q1 = Inr (u\<lparr>t_calls := [Notify 0]\<rparr>)"
  proof -
    have c: "t_calls q1 = [Trying (priority_index P) f 0 0]" "tq q1 ! priority_index P ! 0 = []"
      using p assms by (simp_all add: q1_def q_def defs)
    have "nq_push (priority_index P) 0 f q1 = Inr (put_queue (priority_index P) 0 [f] q1)"
      using q_access [OF wf p assms] c by (simp add: nq_push_def)
    then show ?thesis using assms r c
      by (simp add: execute_step_def) (simp add: u_def q1_def put_queue_def)
  qed
  moreover have "ts_step cnt (Call_Step 0 True) (u\<lparr>t_calls := [Notify 0]\<rparr>) = Inr u"
    using assms by (simp add: execute_step_def notify_def u_def q_def put_queue_def defs)
  moreover have "run_ops (ts_step cnt) (threads_idle cnt cnt) (priority_task_system cnt) = Inr q"
    using threads_idle_run [of cnt cnt] by (simp add: q_def)
  moreover have "run_ops (ts_step cnt) (threads_wait cnt) u = Inr (u\<lparr>t_threads := replicate cnt Waiting\<rparr>)"
    by (rule threads_wait_run) (simp add: u_def q_def put_queue_def ts_quiet_def)
  ultimately have run: "run_ops (ts_step cnt) ?ops (priority_task_system cnt) = Inr (u\<lparr>t_threads := replicate cnt Waiting\<rparr>)"
    by (simp only: run_ops_append run_ops.simps bindR_Inr)
  moreover have "list_all ordinary ?ops" "executed ?ops = {#f#}"
    by (simp_all add: ordinary_schedules executed_schedules)
  moreover have "tq u ! priority_index P ! 0 = [f]" "t_ran u = []" "t_calls u = []"
    using p assms by (simp_all add: u_def q_def put_queue_def defs)
  ultimately show ?thesis
    using all_waiting_stuck [of "u\<lparr>t_threads := replicate cnt Waiting\<rparr>" cnt]
    by (intro exI [of _ ?ops] exI [of _ "u\<lparr>t_threads := replicate cnt Waiting\<rparr>"]) simp
qed

theorem task_system_lost_wakeup_witness:
  "\<exists>ops s. executed ops = {#5::nat#} \<and> run_ops (ts_step 4) ops (priority_task_system 4) = Inr s \<and>
    tq s ! 1 ! 0 = [5] \<and> t_threads s = [Waiting, Waiting, Waiting, Waiting]"
  using task_system_lost_wakeup [of 4 "5::nat" Medium] by (auto simp: numeral_eq_Suc)

text \<open>
  The destructor of the task system can hang, on any number of threads: it sets \<open>_done\<close> and notifies,
  without the mutex, between a thread's test of \<open>_done\<close> and its wait. Every thread then waits although
  \<open>_done\<close> is set, no step of a thread changes anything, and the join does not return.
\<close>
theorem task_system_destructor_hangs:
  assumes "0 < cnt"
  shows "\<exists>before after s. list_all ordinary before \<and> list_all ordinary after \<and>
    run_ops (ts_step cnt) (before @ Set_Done # map Dtor_Notify [0..<cnt] @ after) (priority_task_system cnt :: 'f tsys) = Inr s \<and>
    t_done s \<and> t_threads s = replicate cnt Waiting \<and>
    (\<forall>more. list_all (\<lambda>op. case op of Thread_Step i b \<Rightarrow> True | Call_Step j b \<Rightarrow> True | _ \<Rightarrow> False) more \<longrightarrow>
       run_ops (ts_step cnt) more s = Inr s)"
proof -
  define q where "q = ts_quiet cnt (replicate cnt Locked :: 'f tpc list)"
  let ?d = "q\<lparr>t_done := True\<rparr>"
  have "notify k ?d = ?d" for k by (auto simp: notify_def q_def ts_quiet_def)
  then have "run_ops (ts_step cnt) (map Dtor_Notify ks) ?d = Inr ?d" for ks
    by (induction ks) simp_all
  moreover have "run_ops (ts_step cnt) (threads_idle cnt cnt) (priority_task_system cnt) = Inr q"
    using threads_idle_run [of cnt cnt] by (simp add: q_def)
  moreover have "run_ops (ts_step cnt) (threads_wait cnt) ?d = Inr (?d\<lparr>t_threads := replicate cnt Waiting\<rparr>)"
    by (rule threads_wait_run) (simp add: q_def ts_quiet_def)
  ultimately have run: "run_ops (ts_step cnt) (threads_idle cnt cnt @ Set_Done # map Dtor_Notify [0..<cnt] @ threads_wait cnt)
      (priority_task_system cnt) = Inr (?d\<lparr>t_threads := replicate cnt Waiting\<rparr>)"
    by (simp only: run_ops_append run_ops.simps ts_step.simps bindR_Inr)
  moreover have "t_calls ?d = []" by (simp add: q_def ts_quiet_def priority_task_system_def)
  ultimately show ?thesis
    using all_waiting_stuck [of "?d\<lparr>t_threads := replicate cnt Waiting\<rparr>" cnt]
    by (intro exI [of _ "threads_idle cnt cnt"] exI [of _ "threads_wait cnt"]
        exI [of _ "?d\<lparr>t_threads := replicate cnt Waiting\<rparr>"]) (simp add: ordinary_schedules)
qed

theorem task_system_destructor_hangs_witness:
  "\<exists>before after s. run_ops (ts_step 2) (before @ Set_Done # map Dtor_Notify [0..<2] @ after)
      (priority_task_system 2 :: nat tsys) = Inr s \<and> t_done s \<and> t_threads s = [Waiting, Waiting]"
  using task_system_destructor_hangs [of 2, where 'f = nat] by (auto simp: numeral_eq_Suc)

end
