(* ===== verification/Binary_Heap.thy ===== *)
theory Binary_Heap
  imports Prelude "HOL-Library.Multiset"
begin

text \<open>
  The heap algorithms of the standard library that the timer of stlab uses on its vector of pairs of
  a time point and a task (\<^verbatim>\<open>std::push_heap\<close> and \<^verbatim>\<open>std::pop_heap\<close> with the comparison \<open>greater_first\<close>), as
  sift-up and sift-down on a list, and the contract they meet.
\<close>

text \<open>The comparison of \<^verbatim>\<open>system_timer.hpp\<close>: it makes the earliest time point the front of the heap.\<close>

definition greater_first :: "int \<times> 'f \<Rightarrow> int \<times> 'f \<Rightarrow> bool" where
  "greater_first x y = (fst x > fst y)"

definition swap_at :: "nat \<Rightarrow> nat \<Rightarrow> 'a list \<Rightarrow> 'a list" where
  "swap_at i j xs = xs[i := xs ! j, j := xs ! i]"

definition parent :: "nat \<Rightarrow> nat" where
  "parent i = (i - 1) div 2"

function sift_up :: "nat \<Rightarrow> (int \<times> 'f) list \<Rightarrow> (int \<times> 'f) list" where
  "sift_up i xs =
     (if 0 < i \<and> greater_first (xs ! parent i) (xs ! i) then sift_up (parent i) (swap_at i (parent i) xs) else xs)"
  by pat_completeness auto
termination
  by (relation "measure fst") (auto simp: parent_def)

text \<open>The smaller child of node \<open>i\<close> among the first \<open>n\<close> elements, if it has one.\<close>

definition min_child :: "nat \<Rightarrow> nat \<Rightarrow> (int \<times> 'f) list \<Rightarrow> nat option" where
  "min_child n i xs =
     (let l = 2 * i + 1; r = 2 * i + 2
      in if r < n then Some (if greater_first (xs ! l) (xs ! r) then r else l)
         else if l < n then Some l else None)"

lemma min_child_bounds: "min_child n i xs = Some c \<Longrightarrow> i < c \<and> c < n \<and> parent c = i"
  by (auto simp: min_child_def Let_def parent_def split: if_splits)

function sift_down :: "nat \<Rightarrow> nat \<Rightarrow> (int \<times> 'f) list \<Rightarrow> (int \<times> 'f) list" where
  "sift_down n i xs =
     (case min_child n i xs of
        None \<Rightarrow> xs
      | Some c \<Rightarrow> if greater_first (xs ! i) (xs ! c) then sift_down n c (swap_at i c xs) else xs)"
  by pat_completeness auto
termination
  by (relation "measure (\<lambda>(n, i, xs). n - i)") (auto dest!: min_child_bounds)

declare sift_up.simps [simp del] sift_down.simps [simp del]

text \<open>\<open>push_heap\<close> takes in the last element; \<open>pop_heap\<close> moves the front to the end.\<close>

definition push_heap :: "(int \<times> 'f) list \<Rightarrow> (int \<times> 'f) list" where
  "push_heap xs = sift_up (length xs - 1) xs"

definition pop_heap :: "(int \<times> 'f) list \<Rightarrow> (int \<times> 'f) list" where
  "pop_heap xs = sift_down (length xs - 1) 0 (swap_at 0 (length xs - 1) xs)"

definition heap_upto :: "nat \<Rightarrow> (int \<times> 'f) list \<Rightarrow> bool" where
  "heap_upto n xs \<longleftrightarrow> (\<forall>j. 0 < j \<and> j < n \<longrightarrow> fst (xs ! parent j) \<le> fst (xs ! j))"

definition is_heap :: "(int \<times> 'f) list \<Rightarrow> bool" where
  "is_heap xs = heap_upto (length xs) xs"

section \<open>Permutation\<close>

lemma swap_at_length [simp]: "length (swap_at i j xs) = length xs"
  by (simp add: swap_at_def)

lemma swap_at_mset [simp]: "i < length xs \<Longrightarrow> j < length xs \<Longrightarrow> mset (swap_at i j xs) = mset xs"
  by (simp add: swap_at_def mset_swap)

lemma swap_at_nth: "i < length xs \<Longrightarrow> j < length xs \<Longrightarrow> k < length xs \<Longrightarrow>
    swap_at i j xs ! k = (if k = i then xs ! j else if k = j then xs ! i else xs ! k)"
  by (simp add: swap_at_def nth_list_update)

lemma parent_less: "0 < i \<Longrightarrow> parent i < i"
  by (simp add: parent_def)

lemma sift_up_mset: "i < length xs \<Longrightarrow> mset (sift_up i xs) = mset xs \<and> length (sift_up i xs) = length xs"
proof (induction i xs rule: sift_up.induct)
  case (1 i xs)
  then show ?case
    by (subst (1 2) sift_up.simps) (auto simp: parent_less less_trans [OF parent_less])
qed

lemma sift_down_mset:
  "n \<le> length xs \<Longrightarrow> i < n \<Longrightarrow>
   mset (sift_down n i xs) = mset xs \<and> length (sift_down n i xs) = length xs \<and>
   (\<forall>k. n \<le> k \<and> k < length xs \<longrightarrow> sift_down n i xs ! k = xs ! k)"
proof (induction n i xs rule: sift_down.induct)
  case (1 n i xs)
  show ?case
  proof (cases "\<exists>c. min_child n i xs = Some c \<and> greater_first (xs ! i) (xs ! c)")
    case True
    then obtain c where c: "min_child n i xs = Some c" "greater_first (xs ! i) (xs ! c)" by blast
    note b = min_child_bounds [OF c(1)]
    have "sift_down n i xs = sift_down n c (swap_at i c xs)" by (subst sift_down.simps) (simp add: c)
    with "1.IH" [OF c] "1.prems" b show ?thesis by (auto simp: swap_at_nth)
  next
    case False
    then have "sift_down n i xs = xs" by (subst sift_down.simps) (auto split: option.splits)
    then show ?thesis by simp
  qed
qed

section \<open>Heap order\<close>

text \<open>
  While \<open>sift_up\<close> is at \<open>i\<close>, only the pair of \<open>i\<close> and its parent may be out of order, and the parent of
  \<open>i\<close> is in order with the children of \<open>i\<close>.
\<close>

definition up_inv :: "nat \<Rightarrow> (int \<times> 'f) list \<Rightarrow> bool" where
  "up_inv i xs \<longleftrightarrow>
     (\<forall>j. 0 < j \<and> j < length xs \<and> j \<noteq> i \<longrightarrow> fst (xs ! parent j) \<le> fst (xs ! j)) \<and>
     (\<forall>j. 0 < j \<and> j < length xs \<and> parent j = i \<and> 0 < i \<longrightarrow> fst (xs ! parent i) \<le> fst (xs ! j))"

lemma up_inv_step:
  assumes "up_inv i xs" and "i < length xs" and "0 < i" and "fst (xs ! i) < fst (xs ! parent i)"
  shows "up_inv (parent i) (swap_at i (parent i) xs)"
proof -
  have p: "parent i < length xs" "parent i < i" using assms(2,3) parent_less [of i] by simp_all
  note sw = swap_at_nth [OF assms(2) p(1)]
  have pl: "parent j < length xs" if "j < length xs" for j using that by (simp add: parent_def)
  have "fst (swap_at i (parent i) xs ! parent j) \<le> fst (swap_at i (parent i) xs ! j)"
    if j: "0 < j" "j < length xs" "j \<noteq> parent i" for j
    using assms j p unfolding up_inv_def
    by (cases "j = i"; cases "parent j = i"; cases "parent j = parent i")
      (auto simp: sw pl dest: parent_less intro: less_imp_le order_trans)
  moreover have "fst (swap_at i (parent i) xs ! parent (parent i)) \<le> fst (swap_at i (parent i) xs ! j)"
    if j: "0 < j" "j < length xs" "parent j = parent i" "0 < parent i" for j
  proof -
    have pp: "parent (parent i) < parent i" using j(4) by (rule parent_less)
    have a: "fst (xs ! parent (parent i)) \<le> fst (xs ! parent i)" using assms(1) p j(4) unfolding up_inv_def by auto
    have b: "fst (xs ! parent i) \<le> fst (xs ! j)" if "j \<noteq> i" using assms(1) j that unfolding up_inv_def by auto
    show ?thesis using a b pp p j by (auto simp: sw pl dest: parent_less)
  qed
  ultimately show ?thesis unfolding up_inv_def by auto
qed

lemma sift_up_heap: "up_inv i xs \<Longrightarrow> i < length xs \<Longrightarrow> is_heap (sift_up i xs)"
proof (induction i xs rule: sift_up.induct)
  case (1 i xs)
  show ?case
  proof (cases "0 < i \<and> greater_first (xs ! parent i) (xs ! i)")
    case True
    then have "up_inv (parent i) (swap_at i (parent i) xs)" using up_inv_step [of i xs] 1 by (simp add: greater_first_def)
    with "1.IH" True "1.prems" have "is_heap (sift_up (parent i) (swap_at i (parent i) xs))"
      by (auto intro: less_trans [OF parent_less])
    with True show ?thesis by (subst sift_up.simps) simp
  next
    case False
    then have "sift_up i xs = xs" by (subst sift_up.simps) auto
    with False "1.prems" show ?thesis
      by (auto simp: is_heap_def heap_upto_def up_inv_def greater_first_def not_less)
  qed
qed

text \<open>While \<open>sift_down\<close> is at \<open>i\<close>, only \<open>i\<close> and its children may be out of order.\<close>

definition down_inv :: "nat \<Rightarrow> nat \<Rightarrow> (int \<times> 'f) list \<Rightarrow> bool" where
  "down_inv n i xs \<longleftrightarrow>
     (\<forall>j. 0 < j \<and> j < n \<and> parent j \<noteq> i \<longrightarrow> fst (xs ! parent j) \<le> fst (xs ! j)) \<and>
     (\<forall>j. 0 < j \<and> j < n \<and> parent j = i \<and> 0 < i \<longrightarrow> fst (xs ! parent i) \<le> fst (xs ! j))"

lemma children: "0 < j \<Longrightarrow> parent j = i \<longleftrightarrow> j = 2 * i + 1 \<or> j = 2 * i + 2"
  unfolding parent_def by presburger

lemma min_child_least:
  assumes "0 < j" and "j < n" and "parent j = i"
  shows "\<exists>c. min_child n i xs = Some c \<and> fst (xs ! c) \<le> fst (xs ! j)"
  using assms children [OF assms(1), of i]
  by (auto simp: min_child_def Let_def greater_first_def)

lemma down_inv_step:
  assumes "down_inv n i xs" and "n \<le> length xs" and "min_child n i xs = Some c" and "fst (xs ! c) < fst (xs ! i)"
  shows "down_inv n c (swap_at i c xs)"
proof -
  note b = min_child_bounds [OF assms(3)]
  have l: "i < length xs" "c < length xs" using b assms(2) by simp_all
  note sw = swap_at_nth [OF l]
  have pl: "parent j < length xs" "j < length xs" if "j < n" for j using that assms(2) by (auto simp: parent_def)
  have least: "fst (xs ! c) \<le> fst (xs ! j)" if "0 < j" "j < n" "parent j = i" for j
    using min_child_least [OF that, of xs] assms(3) by auto
  have "fst (swap_at i c xs ! parent j) \<le> fst (swap_at i c xs ! j)" if j: "0 < j" "j < n" "parent j \<noteq> c" for j
  proof -
    have up: "fst (xs ! parent i) \<le> fst (xs ! c)" if "0 < i" using assms(1) b that unfolding down_inv_def by auto
    show ?thesis using j b assms(1,4) least [of j] up unfolding down_inv_def
      by (cases "j = i"; cases "j = c"; cases "parent j = i") (auto simp: sw pl dest: parent_less)
  qed
  moreover have "fst (swap_at i c xs ! parent c) \<le> fst (swap_at i c xs ! j)"
    if j: "0 < j" "j < n" "parent j = c" "0 < c" for j
    using j b assms(1) parent_less [OF j(1)] unfolding down_inv_def by (auto simp: sw pl)
  ultimately show ?thesis unfolding down_inv_def by blast
qed

lemma sift_down_heap: "down_inv n i xs \<Longrightarrow> n \<le> length xs \<Longrightarrow> heap_upto n (sift_down n i xs)"
proof (induction n i xs rule: sift_down.induct)
  case (1 n i xs)
  show ?case
  proof (cases "\<exists>c. min_child n i xs = Some c \<and> greater_first (xs ! i) (xs ! c)")
    case True
    then obtain c where c: "min_child n i xs = Some c" "greater_first (xs ! i) (xs ! c)" by blast
    have "sift_down n i xs = sift_down n c (swap_at i c xs)" by (subst sift_down.simps) (simp add: c)
    with "1.IH" [OF c] down_inv_step [OF "1.prems" c(1)] c(2) "1.prems"(2) show ?thesis
      by (simp add: greater_first_def)
  next
    case False
    then have "sift_down n i xs = xs" by (subst sift_down.simps) (auto split: option.splits)
    moreover have "fst (xs ! i) \<le> fst (xs ! j)" if "0 < j" "j < n" "parent j = i" for j
      using min_child_least [OF that, of xs] False by (auto simp: greater_first_def)
    ultimately show ?thesis using "1.prems"(1) by (auto simp: heap_upto_def down_inv_def)
  qed
qed

section \<open>The contract\<close>

lemma push_heap_ok:
  assumes "is_heap xs"
  shows "is_heap (push_heap (xs @ [x]))" and "mset (push_heap (xs @ [x])) = add_mset x (mset xs)"
proof -
  have "parent j < length xs \<and> parent j \<noteq> length xs" if "0 < j" "j \<le> length xs" for j
    using parent_less [OF that(1)] that(2) by simp
  then have "up_inv (length xs) (xs @ [x])"
    using assms by (auto simp: up_inv_def is_heap_def heap_upto_def nth_append less_Suc_eq)
  then show "is_heap (push_heap (xs @ [x]))" by (simp add: push_heap_def sift_up_heap)
  show "mset (push_heap (xs @ [x])) = add_mset x (mset xs)"
    using sift_up_mset [of "length xs" "xs @ [x]"] by (simp add: push_heap_def)
qed

lemma pop_heap_ok:
  assumes "is_heap xs" and "xs \<noteq> []"
  shows "is_heap (butlast (pop_heap xs))" and "mset (pop_heap xs) = mset xs" and "last (pop_heap xs) = hd xs"
proof -
  define n where "n = length xs - 1"
  define ys where "ys = swap_at 0 n xs"
  have n: "n < length xs" "length ys = length xs" "Suc n = length xs" using assms(2) by (simp_all add: n_def ys_def)
  have nth: "ys ! k = (if k = 0 then xs ! n else if k = n then xs ! 0 else xs ! k)" if "k < length xs" for k
    using swap_at_nth [of 0 xs n k] n(1) that assms(2) by (simp add: ys_def)
  have par: "parent j < n \<and> parent j < length xs \<and> parent j \<noteq> n" if "0 < j" "j < n" for j
    using parent_less [OF that(1)] that(2) n(1) by simp
  then have inv: "down_inv n 0 ys"
    using assms(1) n by (auto simp: down_inv_def is_heap_def heap_upto_def nth less_Suc_eq)
  have pop: "pop_heap xs = sift_down n 0 ys" by (simp add: pop_heap_def n_def ys_def)
  have m: "mset (pop_heap xs) = mset ys \<and> length (pop_heap xs) = length ys \<and> pop_heap xs ! n = ys ! n"
  proof (cases "n = 0")
    case True
    then show ?thesis unfolding pop by (subst (1 2 3) sift_down.simps) (simp add: min_child_def)
  next
    case False
    then show ?thesis using sift_down_mset [of n ys 0] n by (simp add: pop)
  qed
  show "mset (pop_heap xs) = mset xs" using m n(1) assms(2) by (simp add: ys_def)
  have "pop_heap xs \<noteq> []" using m n assms(2) by auto
  then have "last (pop_heap xs) = pop_heap xs ! n" using m n(2) by (simp add: last_conv_nth n_def)
  then show "last (pop_heap xs) = hd xs" using m n(1) assms(2) by (simp add: nth hd_conv_nth)
  have "heap_upto n (pop_heap xs)" using sift_down_heap [OF inv] n by (simp add: pop)
  moreover have "length (pop_heap xs) = Suc n" using m n by simp
  ultimately show "is_heap (butlast (pop_heap xs))"
    using par by (auto simp: is_heap_def heap_upto_def nth_butlast)
qed

lemma heap_front:
  assumes "is_heap xs" and "x \<in> set xs"
  shows "fst (hd xs) \<le> fst x"
proof -
  have "k < length xs \<Longrightarrow> fst (xs ! 0) \<le> fst (xs ! k)" for k
  proof (induction k rule: less_induct)
    case (less k)
    show ?case
    proof (cases "k = 0")
      case False
      with less have "fst (xs ! 0) \<le> fst (xs ! parent k)" "fst (xs ! parent k) \<le> fst (xs ! k)"
        using parent_less [of k] assms(1) by (auto simp: is_heap_def heap_upto_def)
      then show ?thesis by simp
    qed simp
  qed
  then show ?thesis using assms(2) by (metis hd_conv_nth in_set_conv_nth list.size(3) not_less0)
qed

text \<open>The interface of the timer's queue: what the standard promises of the heap algorithms.\<close>

locale timed_heap =
  fixes push :: "(int \<times> 'f) list \<Rightarrow> (int \<times> 'f) list"
    and pop :: "(int \<times> 'f) list \<Rightarrow> (int \<times> 'f) list"
    and heap :: "(int \<times> 'f) list \<Rightarrow> bool"
  assumes heap_Nil: "heap []"
    and push_heap: "heap xs \<Longrightarrow> heap (push (xs @ [x]))"
    and push_mset: "heap xs \<Longrightarrow> mset (push (xs @ [x])) = add_mset x (mset xs)"
    and pop_heap: "heap xs \<Longrightarrow> xs \<noteq> [] \<Longrightarrow> heap (butlast (pop xs))"
    and pop_mset: "heap xs \<Longrightarrow> xs \<noteq> [] \<Longrightarrow> mset (pop xs) = mset xs"
    and pop_last: "heap xs \<Longrightarrow> xs \<noteq> [] \<Longrightarrow> last (pop xs) = hd xs"
    and front_least: "heap xs \<Longrightarrow> x \<in> set xs \<Longrightarrow> fst (hd xs) \<le> fst x"
begin

lemma push_nonempty: "heap xs \<Longrightarrow> push (xs @ [x]) \<noteq> []"
  using push_mset [of xs x] by auto

lemma pop_rest: "heap xs \<Longrightarrow> xs \<noteq> [] \<Longrightarrow> add_mset (hd xs) (mset (butlast (pop xs))) = mset xs"
proof -
  assume h: "heap xs" "xs \<noteq> []"
  then have "pop xs \<noteq> []" using pop_mset by fastforce
  then have "mset (pop xs) = add_mset (last (pop xs)) (mset (butlast (pop xs)))"
    by (metis append_butlast_last_id mset.simps mset_append add_mset_add_single)
  with h pop_mset pop_last show ?thesis by simp
qed

end

interpretation bh: timed_heap push_heap pop_heap is_heap
  by unfold_locales (simp_all add: push_heap_ok pop_heap_ok heap_front, simp add: is_heap_def heap_upto_def)

end
