(* ===== verification/System_Timer.thy ===== *)
theory System_Timer
  imports Binary_Heap
begin

text \<open>
  The portable timer of stlab (\<^verbatim>\<open>deps/clean_stlab/stlab/concurrency/system_timer.hpp\<close>): tasks with a time
  point are kept in a heap, and one thread sleeps until the earliest is due and calls it. The clock
  advances by steps of its own; the thread moves by critical sections, waits and calls. The heap
  algorithms are arguments of the operations; theory \<open>Binary_Heap\<close> provides them and their contract.
\<close>

section \<open>State and operations\<close>

text \<open>
  Where the thread is: before the lock at the top of the loop, in the wait for a task, in the wait
  for a time point, woken from that, in the call of a task, returned.
\<close>

datatype 'f tm_pc = At_Lock | Wait_Empty | Wait_Until int | After_Wait | Run_Task 'f | Thread_Returned

record 'f timer =
  clock :: int
  timed_queue :: "(int \<times> 'f) list"
  stop_flag :: bool
  tm_pc :: "'f tm_pc"
  started :: "(int \<times> int \<times> 'f) list"

definition system_timer :: "int \<Rightarrow> 'f timer" where
  "system_timer t = \<lparr>clock = t, timed_queue = [], stop_flag = False, tm_pc = At_Lock, started = []\<rparr>"

text \<open>\<open>notify_one\<close>: the thread is the only one that waits.\<close>

definition tm_notify :: "'f timer \<Rightarrow> 'f timer" where
  "tm_notify s = (case tm_pc s of
     Wait_Empty \<Rightarrow> s\<lparr>tm_pc := At_Lock\<rparr>
   | Wait_Until t \<Rightarrow> s\<lparr>tm_pc := After_Wait\<rparr>
   | _ \<Rightarrow> s)"

text \<open>The call operator, with a duration; the time point of the entry is taken under the lock.\<close>

definition timer_call :: "((int \<times> 'f) list \<Rightarrow> (int \<times> 'f) list) \<Rightarrow> int \<Rightarrow> 'f \<Rightarrow> 'f timer \<Rightarrow> 'f timer" where
  "timer_call push duration f s =
     tm_notify (s\<lparr>timed_queue := push (timed_queue s @ [(clock s + duration, f)])\<rparr>)"

text \<open>The deprecated overload with a time point reads the clock on its own first.\<close>

definition timer_call_at :: "((int \<times> 'f) list \<Rightarrow> (int \<times> 'f) list) \<Rightarrow> int \<Rightarrow> int \<Rightarrow> 'f \<Rightarrow> 'f timer \<Rightarrow> 'f timer" where
  "timer_call_at push now when f s = timer_call push (when - now) f s"

text \<open>\<open>pop_heap\<close>, the move of the task out of the last element, \<open>pop_back\<close>.\<close>

definition take_due :: "((int \<times> 'f) list \<Rightarrow> (int \<times> 'f) list) \<Rightarrow> 'f timer \<Rightarrow> 'f timer" where
  "take_due pop s =
     (let q = pop (timed_queue s); e = last q
      in s\<lparr>timed_queue := butlast q, tm_pc := Run_Task (snd e), started := started s @ [(fst e, clock s, snd e)]\<rparr>)"

text \<open>The inner loop; the front of an empty vector is undefined.\<close>

definition timer_inner :: "((int \<times> 'f) list \<Rightarrow> (int \<times> 'f) list) \<Rightarrow> 'f timer \<Rightarrow> 'f timer res" where
  "timer_inner pop s =
     (case timed_queue s of
        [] \<Rightarrow> Inl Out_Of_Bounds
      | e # _ \<Rightarrow> if clock s < fst e then Inr (s\<lparr>tm_pc := Wait_Until (fst e)\<rparr>) else Inr (take_due pop s))"

definition timed_queue_run_step :: "((int \<times> 'f) list \<Rightarrow> (int \<times> 'f) list) \<Rightarrow> 'f timer \<Rightarrow> 'f timer res" where
  "timed_queue_run_step pop s =
     (case tm_pc s of
        At_Lock \<Rightarrow>
          if timed_queue s = [] \<and> \<not> stop_flag s then Inr (s\<lparr>tm_pc := Wait_Empty\<rparr>)
          else if stop_flag s then Inr (s\<lparr>tm_pc := Thread_Returned\<rparr>)
          else timer_inner pop s
      | Wait_Empty \<Rightarrow> Inr s
      | Wait_Until t \<Rightarrow> Inr (if t \<le> clock s then s\<lparr>tm_pc := After_Wait\<rparr> else s)
      | After_Wait \<Rightarrow> if stop_flag s then Inr (s\<lparr>tm_pc := Thread_Returned\<rparr>) else timer_inner pop s
      | Run_Task f \<Rightarrow> Inr (s\<lparr>tm_pc := At_Lock\<rparr>)
      | Thread_Returned \<Rightarrow> Inr s)"

text \<open>The destructor sets the flag under the lock and notifies after it; the join waits for the thread.\<close>

definition timer_set_stop :: "'f timer \<Rightarrow> 'f timer" where
  "timer_set_stop s = s\<lparr>stop_flag := True\<rparr>"

datatype 'f tm_op = Tick nat | Call int 'f | Thread | Spurious_Wake | Stop | Stop_Notify

fun tm_step :: "((int \<times> 'f) list \<Rightarrow> (int \<times> 'f) list) \<Rightarrow> ((int \<times> 'f) list \<Rightarrow> (int \<times> 'f) list) \<Rightarrow>
    'f tm_op \<Rightarrow> 'f timer \<Rightarrow> 'f timer res" where
  "tm_step push pop (Tick d) s = Inr (s\<lparr>clock := clock s + int d\<rparr>)"
| "tm_step push pop (Call d f) s = Inr (timer_call push d f s)"
| "tm_step push pop Thread s = timed_queue_run_step pop s"
| "tm_step push pop Spurious_Wake s = Inr (tm_notify s)"
| "tm_step push pop Stop s = Inr (timer_set_stop s)"
| "tm_step push pop Stop_Notify s = Inr (tm_notify s)"

section \<open>Invariant\<close>

definition tm_tasks :: "'f timer \<Rightarrow> 'f multiset" where
  "tm_tasks s = mset (map (snd \<circ> snd) (started s)) + image_mset snd (mset (timed_queue s))"

fun tm_called :: "'f tm_op list \<Rightarrow> 'f multiset" where
  "tm_called [] = {#}"
| "tm_called (Call d f # ops) = add_mset f (tm_called ops)"
| "tm_called (op # ops) = tm_called ops"

text \<open>
  A thread that waits for a task has none; one that waits for a time point waits for that of the
  front; no task was started before its time.
\<close>

definition tm_inv :: "((int \<times> 'f) list \<Rightarrow> bool) \<Rightarrow> 'f timer \<Rightarrow> bool" where
  "tm_inv heap s \<longleftrightarrow> heap (timed_queue s) \<and>
     (case tm_pc s of
        Wait_Empty \<Rightarrow> timed_queue s = []
      | Wait_Until t \<Rightarrow> timed_queue s \<noteq> [] \<and> t = fst (hd (timed_queue s))
      | After_Wait \<Rightarrow> timed_queue s \<noteq> []
      | _ \<Rightarrow> True) \<and>
     (\<forall>(d, t, f) \<in> set (started s). d \<le> t)"

context timed_heap
begin

lemma timer_inner_ok:
  assumes "tm_inv heap s" and "timed_queue s \<noteq> []"
  shows "\<exists>s'. timer_inner pop s = Inr s' \<and> tm_inv heap s' \<and> tm_tasks s' = tm_tasks s \<and>
    (if clock s < fst (hd (timed_queue s)) then started s' = started s
     else started s' = started s @ [(fst (hd (timed_queue s)), clock s, snd (hd (timed_queue s)))])"
proof -
  have h: "heap (timed_queue s)" using assms(1) by (simp add: tm_inv_def)
  obtain e q where q: "timed_queue s = e # q" using assms(2) by (auto simp: neq_Nil_conv)
  have "image_mset snd (mset (timed_queue s)) = add_mset (snd e) (image_mset snd (mset (butlast (pop (timed_queue s)))))"
    using pop_rest [OF h assms(2)] q by (metis image_mset_add_mset list.sel(1))
  then show ?thesis
    using assms h q pop_heap [OF h assms(2)] pop_last [OF h assms(2)]
    by (auto simp: timer_inner_def take_due_def Let_def tm_inv_def tm_tasks_def)
qed

lemma timer_thread_ok:
  assumes "tm_inv heap s"
  shows "\<exists>s'. timed_queue_run_step pop s = Inr s' \<and> tm_inv heap s' \<and> tm_tasks s' = tm_tasks s"
proof (cases "tm_pc s")
  case At_Lock
  then show ?thesis using assms timer_inner_ok [OF assms]
    by (auto simp: timed_queue_run_step_def tm_inv_def tm_tasks_def)
next
  case After_Wait
  moreover from this have "timed_queue s \<noteq> []" using assms by (simp add: tm_inv_def)
  ultimately show ?thesis using assms timer_inner_ok [OF assms]
    by (auto simp: timed_queue_run_step_def tm_inv_def tm_tasks_def)
qed (use assms in \<open>auto simp: timed_queue_run_step_def tm_inv_def tm_tasks_def\<close>)

lemma timer_notify_ok: "tm_inv heap s \<Longrightarrow> tm_inv heap (tm_notify s) \<and> tm_tasks (tm_notify s) = tm_tasks s"
  by (auto simp: tm_notify_def tm_inv_def tm_tasks_def split: tm_pc.splits)

lemma timer_call_ok:
  assumes "tm_inv heap s"
  shows "tm_inv heap (timer_call push d f s) \<and> tm_tasks (timer_call push d f s) = add_mset f (tm_tasks s)"
proof -
  have h: "heap (timed_queue s)" using assms by (simp add: tm_inv_def)
  note p = push_heap [OF h, of "(clock s + d, f)"] push_mset [OF h, of "(clock s + d, f)"]
    push_nonempty [OF h, of "(clock s + d, f)"]
  show ?thesis using assms p
    by (auto simp: timer_call_def tm_notify_def tm_inv_def tm_tasks_def split: tm_pc.splits)
qed

lemma timer_step_ok:
  assumes "tm_inv heap s"
  shows "\<exists>s'. tm_step push pop op s = Inr s' \<and> tm_inv heap s' \<and> tm_tasks s' = tm_tasks s + tm_called [op]"
proof (cases op)
  case Thread
  then show ?thesis using timer_thread_ok [OF assms] by simp
next
  case (Call d f)
  then show ?thesis using timer_call_ok [OF assms, of d f] by simp
next
  case (Tick d)
  then show ?thesis using assms by (auto simp: tm_inv_def tm_tasks_def split: tm_pc.splits)
next
  case Stop
  then show ?thesis using assms by (auto simp: timer_set_stop_def tm_inv_def tm_tasks_def split: tm_pc.splits)
qed (use timer_notify_ok [OF assms] in simp_all)

text \<open>Two moves of the thread start the earliest task once it is due.\<close>

lemma timer_due_starts:
  assumes "tm_inv heap s" and "\<not> stop_flag s" and "x \<in> set (timed_queue s)" and "fst x \<le> clock s"
    and "tm_pc s \<noteq> Thread_Returned"
  shows "\<exists>s' e. run_ops (tm_step push pop) [Thread, Thread] s = Inr s' \<and>
    started s' = started s @ [(fst e, clock s, snd e)] \<and> e \<in> set (timed_queue s) \<and>
    (\<forall>y \<in> set (timed_queue s). fst e \<le> fst y)"
proof -
  have h: "heap (timed_queue s)" using assms(1) by (simp add: tm_inv_def)
  have ne: "timed_queue s \<noteq> []" using assms(3) by auto
  have least: "\<forall>y \<in> set (timed_queue s). fst (hd (timed_queue s)) \<le> fst y" using front_least [OF h] by blast
  with assms(3,4) have due: "\<not> clock s < fst (hd (timed_queue s))" by fastforce
  let ?e = "hd (timed_queue s)"
  have take: "timer_inner pop t = Inr (take_due pop t)" "started (take_due pop t) = started s @ [(fst ?e, clock s, snd ?e)]"
    "tm_pc (take_due pop t) = Run_Task (snd ?e)"
    if "timed_queue t = timed_queue s" "clock t = clock s" "started t = started s" for t
    using that due ne pop_last [OF h ne]
    by (auto simp: timer_inner_def take_due_def Let_def neq_Nil_conv split: list.splits)
  have "\<exists>s'. run_ops (tm_step push pop) [Thread, Thread] s = Inr s' \<and> started s' = started s @ [(fst ?e, clock s, snd ?e)]"
  proof (cases "tm_pc s")
    case At_Lock
    then show ?thesis using take [of s] assms(2) ne by (simp add: timed_queue_run_step_def)
  next
    case After_Wait
    then show ?thesis using take [of s] assms(2) by (simp add: timed_queue_run_step_def)
  next
    case (Wait_Until t)
    then have "t \<le> clock s" using assms(1) due by (simp add: tm_inv_def)
    then show ?thesis using Wait_Until take [of "s\<lparr>tm_pc := After_Wait\<rparr>"] assms(2)
      by (simp add: timed_queue_run_step_def)
  next
    case (Run_Task f)
    then show ?thesis using take [of "s\<lparr>tm_pc := At_Lock\<rparr>"] assms(2) ne by (simp add: timed_queue_run_step_def)
  qed (use assms(1,5) ne in \<open>simp_all add: tm_inv_def\<close>)
  then show ?thesis using least hd_in_set [OF ne] by blast
qed

end

section \<open>Properties\<close>

interpretation tm: refining_machine "tm_inv is_heap" "tm_step push_heap pop_heap" tm_tasks "\<lambda>op a. True"
    "\<lambda>op a. a + tm_called [op]"
  by unfold_locales (rule bh.timer_step_ok)

lemma tm_called_Cons: "tm_called (op # ops) = tm_called [op] + tm_called ops"
  by (cases op) simp_all

lemma fold_tm_called: "fold (\<lambda>op a. a + tm_called [op]) ops a = a + tm_called ops"
proof (induction ops arbitrary: a)
  case (Cons op ops)
  then show ?case by (subst tm_called_Cons) (simp add: ac_simps)
qed simp

lemma tm_run:
  obtains s where "run_ops (tm_step push_heap pop_heap) ops (system_timer t0) = Inr s" "tm_inv is_heap s"
    "tm_tasks s = tm_called ops"
proof -
  have "permitted (\<lambda>op a. True) (\<lambda>op a. a + tm_called [op]) ops a" for a
    by (induction ops arbitrary: a) simp_all
  moreover have "tm_inv is_heap (system_timer t0 :: 'a timer)" "tm_tasks (system_timer t0 :: 'a timer) = {#}"
    by (simp_all add: tm_inv_def system_timer_def tm_tasks_def bh.heap_Nil)
  ultimately have "\<exists>s. run_ops (tm_step push_heap pop_heap) ops (system_timer t0) = Inr s \<and> tm_inv is_heap s \<and>
      tm_tasks s = tm_called ops"
    using tm.run_refines [of "system_timer t0" ops] by (auto simp: fold_tm_called)
  then show thesis using that by blast
qed

text \<open>
  C32. The timer neither loses a task nor starts one early: under every interleaving of callers, clock,
  thread, spurious wake-ups and destructor the front of the empty vector is never read, the tasks
  started and those waiting are together the tasks passed in, and every task was started at or
  after the time point of its entry.
\<close>
theorem timer_never_early:
  "\<exists>s. run_ops (tm_step push_heap pop_heap) ops (system_timer t0) = Inr s \<and>
    mset (map (snd \<circ> snd) (started s)) + image_mset snd (mset (timed_queue s)) = tm_called ops \<and>
    list_all (\<lambda>(d, t, f). d \<le> t) (started s)"
proof -
  from tm_run [of ops t0] obtain s where "run_ops (tm_step push_heap pop_heap) ops (system_timer t0) = Inr s"
    "tm_inv is_heap s" "tm_tasks s = tm_called ops" .
  then show ?thesis by (auto simp: tm_tasks_def tm_inv_def list_all_iff)
qed

text \<open>
  C16. A due task is started without delay: whatever has happened before, if the timer is not being
  destroyed and some entry is due, two moves of the thread start a task, at the present time, whose time
  point is the earliest of all entries. In particular no notification is lost.
\<close>
theorem timer_starts_due:
  assumes "run_ops (tm_step push_heap pop_heap) ops (system_timer t0) = Inr s"
    and "\<not> stop_flag s" and "x \<in> set (timed_queue s)" and "fst x \<le> clock s" and "tm_pc s \<noteq> Thread_Returned"
  shows "\<exists>s' e. run_ops (tm_step push_heap pop_heap) [Thread, Thread] s = Inr s' \<and>
    started s' = started s @ [(fst e, clock s, snd e)] \<and> e \<in> set (timed_queue s) \<and>
    (\<forall>y \<in> set (timed_queue s). fst e \<le> fst y)"
proof -
  have "tm_inv is_heap s" using tm_run [of ops t0] assms(1) by (metis sum.inject(2))
  from bh.timer_due_starts [OF this assms(2-5)] show ?thesis .
qed

theorem timer_starts_due_witness:
  "\<exists>s' e. run_ops (tm_step push_heap pop_heap) [Thread, Thread]
      \<lparr>clock = 9, timed_queue = [(8, 2), (10, 1)], stop_flag = False, tm_pc = Wait_Until 8, started = []\<rparr> = Inr s' \<and>
    started s' = [(fst e, 9, snd (e :: int \<times> nat))] \<and> e \<in> {(8, 2), (10, 1)} \<and> fst e \<le> 8"
proof -
  let ?s = "\<lparr>clock = 9, timed_queue = [(8, 2), (10, 1::nat)], stop_flag = False, tm_pc = Wait_Until 8, started = []\<rparr>"
  have "run_ops (tm_step push_heap pop_heap) [Call 10 1, Call 8 2, Thread, Tick 9] (system_timer 0) = Inr ?s"
    by (simp add: system_timer_def timer_call_def tm_notify_def push_heap_def sift_up.simps parent_def
        greater_first_def swap_at_def timed_queue_run_step_def timer_inner_def)
  from timer_starts_due [OF this, of "(8, 2)"] show ?thesis by auto
qed

text \<open>What is left of the thread's way out once it has been notified of the stop.\<close>

fun stop_fuel :: "'f tm_pc \<Rightarrow> nat" where
  "stop_fuel (Run_Task f) = 2"
| "stop_fuel Thread_Returned = 0"
| "stop_fuel _ = 1"

definition stopping :: "'f timer \<Rightarrow> bool" where
  "stopping s \<longleftrightarrow> stop_flag s \<and> (case tm_pc s of Wait_Empty \<Rightarrow> False | Wait_Until t \<Rightarrow> False | _ \<Rightarrow> True)"

lemma stopped_step:
  assumes "stop_flag s"
  shows "\<exists>s'. tm_step push pop op s = Inr s' \<and> stop_flag s' \<and> started s' = started s \<and>
    (stopping s \<longrightarrow> stopping s' \<and> stop_fuel (tm_pc s') = stop_fuel (tm_pc s) - (if op = Thread then 1 else 0))"
  using assms
  by (cases op; cases "tm_pc s") (auto simp: timer_call_def tm_notify_def timer_set_stop_def
      timed_queue_run_step_def stopping_def)

lemma stopped_run:
  assumes "stop_flag s"
  shows "\<exists>s'. run_ops (tm_step push pop) ops s = Inr s' \<and> stop_flag s' \<and> started s' = started s \<and>
    (stopping s \<longrightarrow> stopping s' \<and> stop_fuel (tm_pc s') = stop_fuel (tm_pc s) - count_list ops Thread)"
  using assms
proof (induction ops arbitrary: s)
  case (Cons op ops)
  from stopped_step [OF Cons.prems, of push pop op] obtain t where
    t: "tm_step push pop op s = Inr t" "stop_flag t" "started t = started s"
      "stopping s \<longrightarrow> stopping t \<and> stop_fuel (tm_pc t) = stop_fuel (tm_pc s) - (if op = Thread then 1 else 0)" by blast
  from Cons.IH [OF t(2)] t show ?case by (auto simp del: tm_step.simps)
qed simp

lemma notified_stopping: "stop_flag s \<Longrightarrow> stopping (tm_notify s)"
  by (auto simp: stopping_def tm_notify_def split: tm_pc.splits)

text \<open>
  The destructor of the timer ends the thread: after it has set the flag no further task is started,
  whatever happens between the flag and the notification, and after the notification every schedule
  in which the thread moves twice brings it to its end, so that the join returns; tasks that still
  wait are dropped.
\<close>
theorem timer_destructor:
  assumes "run_ops (tm_step push_heap pop_heap) ops (system_timer t0) = Inr s" and "2 \<le> count_list rest Thread"
  shows "\<exists>s'. run_ops (tm_step push_heap pop_heap) (Stop # mid @ Stop_Notify # rest) s = Inr s' \<and>
    tm_pc s' = Thread_Returned \<and> started s' = started s"
proof -
  have "stop_flag (timer_set_stop s)" by (simp add: timer_set_stop_def)
  from stopped_run [OF this, of push_heap pop_heap mid] obtain s1 where
    s1: "run_ops (tm_step push_heap pop_heap) mid (timer_set_stop s) = Inr s1" "stop_flag s1" "started s1 = started s"
    by (auto simp: timer_set_stop_def)
  have n: "stop_flag (tm_notify s1)" "started (tm_notify s1) = started s"
    using s1 by (simp_all add: tm_notify_def split: tm_pc.splits)
  from stopped_run [OF n(1), of push_heap pop_heap rest] notified_stopping [OF s1(2)] obtain s2 where
    s2: "run_ops (tm_step push_heap pop_heap) rest (tm_notify s1) = Inr s2" "started s2 = started s"
      "stop_fuel (tm_pc s2) = stop_fuel (tm_pc (tm_notify s1)) - count_list rest Thread"
    using n(2) by auto
  have "stop_fuel (tm_pc (tm_notify s1)) \<le> 2" by (cases "tm_pc (tm_notify s1)") simp_all
  with s2(3) assms(2) have "stop_fuel (tm_pc s2) = 0" by simp
  then have "tm_pc s2 = Thread_Returned" by (cases "tm_pc s2") simp_all
  with s1(1) s2(1,2) show ?thesis by (simp add: run_ops_append)
qed

theorem timer_destructor_witness:
  "\<exists>s'. run_ops (tm_step push_heap pop_heap) (Stop # [Thread, Call 1 (5::nat)] @ Stop_Notify # [Thread, Tick 3, Thread])
      (system_timer 0) = Inr s' \<and> tm_pc s' = Thread_Returned \<and> started s' = []"
  using timer_destructor [of "[]" 0 "system_timer 0 :: nat timer" "[Thread, Tick 3, Thread]" "[Thread, Call 1 5]"]
  by (simp add: system_timer_def)

end
