(* ===== verification/Cow.thy ===== *)
theory Cow
  imports Prelude
begin

text \<open>
  The copy-on-write wrapper \<open>copy_on_write\<close> (\<^verbatim>\<open>deps/clean_stlab_trash/copy_on_write.hpp\<close>): reference counted
  models on a heap, shared by the objects that were copied from each other, and copied before a
  write through an object that shares its model. The state is explicit: the heap of models, the
  live objects with their pointer \<open>_self\<close> (null once moved from), the next address of \<open>new\<close>.
  The assignments are composed of constructions, a swap and destructions of temporaries, as the
  code composes them. The main theorem is that all this is invisible: the objects behave as values.
\<close>

section \<open>State\<close>

text \<open>
  The count is a \<open>std::size_t\<close>; it counts objects that each occupy a pointer of memory, so it cannot
  reach its bound and is modelled by a natural number. Address 0 is that of the static model of the
  default constructor, which exists from the first default construction on.
\<close>

record 'v model =
  count :: nat
  model_value :: 'v

datatype obj = Var nat | Tmp1 | Tmp2

record 'v cow =
  models :: "nat \<Rightarrow> 'v model option"
  vars :: "obj \<Rightarrow> nat option option"
  fresh :: nat

definition cow_init :: "'v cow" where
  "cow_init = \<lparr>models = (\<lambda>_. None), vars = (\<lambda>_. None), fresh = 1\<rparr>"

text \<open>
  The use of an object that is not alive (or the construction of one that is), of a moved-from
  object where the code asserts that it is not, and of a model that has been deleted.
\<close>

datatype cow_fault = Not_Alive | Moved_From | Use_After_Free

definition self_of :: "obj \<Rightarrow> 'v cow \<Rightarrow> cow_fault + nat option" where
  "self_of x s = (case vars s x of None \<Rightarrow> Inl Not_Alive | Some p \<Rightarrow> Inr p)"

definition nonnull :: "nat option \<Rightarrow> cow_fault + nat" where
  "nonnull p = (case p of None \<Rightarrow> Inl Moved_From | Some a \<Rightarrow> Inr a)"

definition deref :: "nat \<Rightarrow> 'v cow \<Rightarrow> cow_fault + 'v model" where
  "deref a s = (case models s a of None \<Rightarrow> Inl Use_After_Free | Some m \<Rightarrow> Inr m)"

definition construct :: "obj \<Rightarrow> nat option \<Rightarrow> 'v cow \<Rightarrow> cow_fault + 'v cow" where
  "construct x p s = (if vars s x = None then Inr (s\<lparr>vars := (vars s)(x \<mapsto> p)\<rparr>) else Inl Not_Alive)"

section \<open>Operations\<close>

definition retain :: "nat \<Rightarrow> 'v cow \<Rightarrow> cow_fault + 'v cow" where
  "retain a s = bindR (deref a s) (\<lambda>m. Inr (s\<lparr>models := (models s)(a \<mapsto> m\<lparr>count := count m + 1\<rparr>)\<rparr>))"

definition cow_default :: "'v \<Rightarrow> obj \<Rightarrow> 'v cow \<Rightarrow> cow_fault + 'v cow" where
  "cow_default d x s =
     (let s = (case models s 0 of
                 None \<Rightarrow> s\<lparr>models := (models s)(0 \<mapsto> \<lparr>count = 1, model_value = d\<rparr>)\<rparr>
               | Some _ \<Rightarrow> s)
      in bindR (construct x (Some 0) s) (retain 0))"

definition cow_value :: "'v \<Rightarrow> obj \<Rightarrow> 'v cow \<Rightarrow> cow_fault + 'v cow" where
  "cow_value v x s =
     construct x (Some (fresh s))
       (s\<lparr>models := (models s)(fresh s \<mapsto> \<lparr>count = 1, model_value = v\<rparr>), fresh := fresh s + 1\<rparr>)"

definition cow_copy :: "obj \<Rightarrow> obj \<Rightarrow> 'v cow \<Rightarrow> cow_fault + 'v cow" where
  "cow_copy y x s =
     bindR (self_of y s) (\<lambda>p. bindR (nonnull p) (\<lambda>a. bindR (construct x (Some a) s) (retain a)))"

definition cow_move :: "obj \<Rightarrow> obj \<Rightarrow> 'v cow \<Rightarrow> cow_fault + 'v cow" where
  "cow_move y x s =
     bindR (self_of y s) (\<lambda>p. bindR (nonnull p) (\<lambda>a.
       bindR (construct x (Some a) s) (\<lambda>s. Inr (s\<lparr>vars := (vars s)(y \<mapsto> None)\<rparr>))))"

definition cow_destroy :: "obj \<Rightarrow> 'v cow \<Rightarrow> cow_fault + 'v cow" where
  "cow_destroy x s =
     bindR (self_of x s) (\<lambda>p. bindR
       (case p of
          None \<Rightarrow> Inr s
        | Some a \<Rightarrow> bindR (deref a s) (\<lambda>m.
            let m = m\<lparr>count := count m - 1\<rparr>
            in Inr (s\<lparr>models := (models s)(a := (if count m = 0 then None else Some m))\<rparr>)))
       (\<lambda>s. Inr (s\<lparr>vars := (vars s)(x := None)\<rparr>)))"

definition cow_swap :: "obj \<Rightarrow> obj \<Rightarrow> 'v cow \<Rightarrow> cow_fault + 'v cow" where
  "cow_swap x y s =
     bindR (self_of x s) (\<lambda>p. bindR (self_of y s) (\<lambda>q.
       Inr (s\<lparr>vars := (vars s)(x \<mapsto> q, y \<mapsto> p)\<rparr>)))"

text \<open>\<open>tmp = std::move(x); swap(*this, tmp)\<close>, and the destruction of \<open>tmp\<close>.\<close>

definition cow_move_assign :: "obj \<Rightarrow> obj \<Rightarrow> 'v cow \<Rightarrow> cow_fault + 'v cow" where
  "cow_move_assign this x s =
     bindR (cow_move x Tmp2 s) (\<lambda>s. bindR (cow_swap this Tmp2 s) (cow_destroy Tmp2))"

text \<open>\<open>*this = copy_on_write(x)\<close>: a temporary, moved from, destroyed at the end of the expression.\<close>

definition assign_temporary :: "obj \<Rightarrow> 'v cow \<Rightarrow> cow_fault + 'v cow" where
  "assign_temporary this s = bindR (cow_move_assign this Tmp1 s) (cow_destroy Tmp1)"

definition cow_copy_assign :: "obj \<Rightarrow> obj \<Rightarrow> 'v cow \<Rightarrow> cow_fault + 'v cow" where
  "cow_copy_assign this x s = bindR (cow_copy x Tmp1 s) (assign_temporary this)"

definition cow_unique :: "obj \<Rightarrow> 'v cow \<Rightarrow> cow_fault + bool" where
  "cow_unique x s = bindR (self_of x s) (\<lambda>p. bindR (nonnull p) (\<lambda>a. bindR (deref a s) (\<lambda>m. Inr (count m = 1))))"

definition cow_read :: "obj \<Rightarrow> 'v cow \<Rightarrow> cow_fault + 'v" where
  "cow_read x s = bindR (self_of x s) (\<lambda>p. bindR (nonnull p) (\<lambda>a. bindR (deref a s) (\<lambda>m. Inr (model_value m))))"

text \<open>A store through the reference \<open>_self->_value\<close>.\<close>

definition store_value :: "('v \<Rightarrow> 'v) \<Rightarrow> obj \<Rightarrow> 'v cow \<Rightarrow> cow_fault + 'v cow" where
  "store_value f x s =
     bindR (self_of x s) (\<lambda>p. bindR (nonnull p) (\<lambda>a. bindR (deref a s) (\<lambda>m.
       Inr (s\<lparr>models := (models s)(a \<mapsto> m\<lparr>model_value := f (model_value m)\<rparr>)\<rparr>))))"

definition cow_assign_value :: "obj \<Rightarrow> 'v \<Rightarrow> 'v cow \<Rightarrow> cow_fault + 'v cow" where
  "cow_assign_value this v s =
     bindR (self_of this s) (\<lambda>p.
     bindR (if p = None then Inr False else cow_unique this s) (\<lambda>u.
       if u then store_value (\<lambda>_. v) this s
       else bindR (cow_value v Tmp1 s) (assign_temporary this)))"

text \<open>\<open>write()\<close>, and the modification \<open>f\<close> the caller makes through the reference it returns.\<close>

definition cow_write :: "('v \<Rightarrow> 'v) \<Rightarrow> obj \<Rightarrow> 'v cow \<Rightarrow> cow_fault + 'v cow" where
  "cow_write f x s =
     bindR (cow_unique x s) (\<lambda>u.
     bindR (if u then Inr s
            else bindR (cow_read x s) (\<lambda>v. bindR (cow_value v Tmp1 s) (assign_temporary x)))
       (store_value f x))"

definition cow_identity :: "obj \<Rightarrow> obj \<Rightarrow> 'v cow \<Rightarrow> cow_fault + bool" where
  "cow_identity x y s =
     bindR (self_of x s) (\<lambda>p. bindR (nonnull p) (\<lambda>a.
     bindR (self_of y s) (\<lambda>q. bindR (nonnull q) (\<lambda>b. Inr (a = b)))))"

section \<open>Invariant\<close>

text \<open>
  Every count is the number of objects that point to the model (and one more for the static model,
  which keeps the default value); no object points to a deleted model and no model is unreferenced.
\<close>

definition nrefs :: "(obj \<Rightarrow> nat option option) \<Rightarrow> nat \<Rightarrow> nat" where
  "nrefs V a = card {y. V y = Some (Some a)}"

fun model_ok :: "'v \<Rightarrow> nat \<Rightarrow> nat \<Rightarrow> 'v model option \<Rightarrow> bool" where
  "model_ok d a n None = (n = 0)"
| "model_ok d a n (Some m) =
     (0 < count m \<and> count m = n + (if a = 0 then 1 else 0) \<and> (a = 0 \<longrightarrow> model_value m = d))"

definition cow_inv :: "'v \<Rightarrow> 'v cow \<Rightarrow> bool" where
  "cow_inv d s \<longleftrightarrow> finite (dom (vars s)) \<and> 0 < fresh s \<and> (\<forall>a. models s a \<noteq> None \<longrightarrow> a < fresh s) \<and>
     (\<forall>a. model_ok d a (nrefs (vars s) a) (models s a))"

text \<open>The value of each object: not alive, moved from, or a value.\<close>

definition cow_abs :: "'v cow \<Rightarrow> obj \<Rightarrow> 'v option option" where
  "cow_abs s x = map_option (map_option (\<lambda>a. model_value (the (models s a)))) (vars s x)"

lemma nrefs_update:
  assumes "finite (dom V)"
  shows "nrefs (V(x := w)) a + (if V x = Some (Some a) then 1 else 0) =
    nrefs V a + (if w = Some (Some a) then 1 else 0)"
proof -
  let ?R = "\<lambda>V. {y. V y = Some (Some a)}"
  have fin: "finite (?R V)" by (rule finite_subset [OF _ assms]) auto
  have "?R (V(x := w)) = (if w = Some (Some a) then insert x (?R V) else ?R V - {x})" by auto
  then show ?thesis using fin by (auto simp: nrefs_def card_insert_if card_Diff_singleton_if card_gt_0_iff)
      (metis (mono_tags, lifting) Suc_pred card_gt_0_iff empty_iff mem_Collect_eq)+
qed

lemma nrefs_pos: "finite (dom V) \<Longrightarrow> V x = Some (Some a) \<Longrightarrow> 0 < nrefs V a"
  using nrefs_update [of V x None a] by simp

lemma cow_inv_self:
  assumes "cow_inv d s" and "vars s x = Some (Some a)"
  obtains m where "models s a = Some m" "count m = nrefs (vars s) a + (if a = 0 then 1 else 0)"
    "0 < nrefs (vars s) a" "a < fresh s" "a = 0 \<longrightarrow> model_value m = d"
proof -
  have n: "0 < nrefs (vars s) a" using assms nrefs_pos by (auto simp: cow_inv_def)
  moreover have ok: "model_ok d a (nrefs (vars s) a) (models s a)" using assms(1) by (simp add: cow_inv_def)
  ultimately obtain m where m: "models s a = Some m" by (cases "models s a") auto
  then show ?thesis using that n ok assms(1) by (simp add: cow_inv_def)
qed

lemma cow_inv_upd:
  assumes "cow_inv d s" and "models s' = (models s)(a := M)" and "finite (dom (vars s'))"
    and "fresh s \<le> fresh s'" and "M \<noteq> None \<longrightarrow> a < fresh s'"
    and "model_ok d a (nrefs (vars s') a) M"
    and "\<And>b. b \<noteq> a \<Longrightarrow> nrefs (vars s') b = nrefs (vars s) b"
  shows "cow_inv d s'"
  using assms unfolding cow_inv_def
  by (metis dual_order.strict_trans1 fun_upd_apply)

lemma cow_abs_upd:
  assumes "models s' = (models s)(a := M)" and "vars s' = (vars s)(x := w)"
    and "\<And>y. y \<noteq> x \<Longrightarrow> vars s y = Some (Some a) \<Longrightarrow> model_value (the M) = model_value (the (models s a))"
  shows "cow_abs s' = (cow_abs s)(x := map_option (map_option (\<lambda>b. model_value (the (models s' b)))) w)"
proof
  fix y
  show "cow_abs s' y = ((cow_abs s)(x := map_option (map_option (\<lambda>b. model_value (the (models s' b)))) w)) y"
    using assms(3) [of y] by (cases "vars s y"; cases "the (vars s y)") (auto simp: cow_abs_def assms(1,2))
qed

lemma cow_abs_simps [simp]:
  "cow_abs s x = None \<longleftrightarrow> vars s x = None"
  "cow_abs s x = Some None \<longleftrightarrow> vars s x = Some None"
  "cow_abs s x = Some (Some v) \<longleftrightarrow> (\<exists>a. vars s x = Some (Some a) \<and> v = model_value (the (models s a)))"
  by (auto simp: cow_abs_def)

lemma cow_abs_None: "vars s x = None \<Longrightarrow> cow_abs s x = None"
  by simp

lemma cow_inv_finite: "cow_inv d s \<Longrightarrow> finite (dom (vars s))"
  by (simp add: cow_inv_def)

lemma cow_value_ok:
  assumes "cow_inv d s" and "vars s x = None"
  shows "\<exists>s'. cow_value v x s = Inr s' \<and> cow_inv d s' \<and> cow_abs s' = (cow_abs s)(x \<mapsto> Some v)"
proof -
  let ?m = "\<lparr>count = 1, model_value = v\<rparr>"
  let ?s = "s\<lparr>models := (models s)(fresh s \<mapsto> ?m), fresh := fresh s + 1, vars := (vars s)(x \<mapsto> Some (fresh s))\<rparr>"
  note n = nrefs_update [OF cow_inv_finite [OF assms(1)], of x "Some (Some (fresh s))"]
  have none: "models s (fresh s) = None" "fresh s \<noteq> 0" using assms(1) by (auto simp: cow_inv_def)
  then have z: "nrefs (vars s) (fresh s) = 0" using assms(1) unfolding cow_inv_def by (metis model_ok.simps(1))
  have "vars s y \<noteq> Some (Some (fresh s))" for y
    using nrefs_pos [OF cow_inv_finite [OF assms(1)], of y "fresh s"] z by auto
  then have "cow_abs ?s = (cow_abs s)(x \<mapsto> Some v)"
    using cow_abs_upd [of ?s s "fresh s" "Some ?m" x "Some (Some (fresh s))"] by simp
  moreover have "cow_inv d ?s"
    by (rule cow_inv_upd [OF assms(1), of _ "fresh s" "Some ?m"])
      (use n [of "fresh s"] n z none assms cow_inv_finite [OF assms(1)] in auto)
  ultimately show ?thesis using assms(2) by (simp add: cow_value_def construct_def)
qed

text \<open>An object constructed to point to a live model, whose count goes up.\<close>

lemma share_ok:
  assumes "cow_inv d s" and "vars s x = None" and "models s a = Some m"
    and "s' = s\<lparr>vars := (vars s)(x \<mapsto> Some a), models := (models s)(a \<mapsto> m\<lparr>count := count m + 1\<rparr>)\<rparr>"
  shows "cow_inv d s'" and "cow_abs s' = (cow_abs s)(x \<mapsto> Some (model_value m))"
proof -
  let ?m = "m\<lparr>count := count m + 1\<rparr>"
  note n = nrefs_update [OF cow_inv_finite [OF assms(1)], of x "Some (Some a)"]
  have ok: "model_ok d a (nrefs (vars s) a) (Some m)" "a < fresh s"
    using assms(1,3) unfolding cow_inv_def by (metis option.distinct(1))+
  show "cow_inv d s'"
    by (rule cow_inv_upd [OF assms(1), of _ a "Some ?m"])
      (use n [of a] n ok assms cow_inv_finite [OF assms(1)] in auto)
  show "cow_abs s' = (cow_abs s)(x \<mapsto> Some (model_value m))"
    using cow_abs_upd [of s' s a "Some ?m" x "Some (Some a)"] assms(3,4) by simp
qed

lemma cow_copy_ok:
  assumes "cow_inv d s" and "vars s x = None" and "cow_abs s y = Some (Some v)"
  shows "\<exists>s'. cow_copy y x s = Inr s' \<and> cow_inv d s' \<and> cow_abs s' = (cow_abs s)(x \<mapsto> Some v)"
proof -
  from assms(3) obtain a where a: "vars s y = Some (Some a)" "v = model_value (the (models s a))" by auto
  from cow_inv_self [OF assms(1) a(1)] obtain m where m: "models s a = Some m" .
  from share_ok [OF assms(1,2) m refl] show ?thesis using a m assms(2)
    by (simp add: cow_copy_def self_of_def nonnull_def construct_def retain_def deref_def)
qed

lemma cow_default_ok:
  assumes "cow_inv d s" and "vars s x = None"
  shows "\<exists>s'. cow_default d x s = Inr s' \<and> cow_inv d s' \<and> cow_abs s' = (cow_abs s)(x \<mapsto> Some d)"
proof -
  obtain m t where t: "(case models s 0 of None \<Rightarrow> s\<lparr>models := (models s)(0 \<mapsto> \<lparr>count = 1, model_value = d\<rparr>)\<rparr> | Some _ \<Rightarrow> s) = t"
    and m: "models t 0 = Some m" and tv: "vars t = vars s" "cow_abs t = cow_abs s" "cow_inv d t"
  proof (cases "models s 0")
    case None
    let ?m = "\<lparr>count = 1, model_value = d\<rparr>"
    let ?t = "s\<lparr>models := (models s)(0 \<mapsto> ?m)\<rparr>"
    have z: "nrefs (vars s) 0 = 0" using assms(1) None unfolding cow_inv_def by (metis model_ok.simps(1))
    have "vars s y \<noteq> Some (Some 0)" for y
      using nrefs_pos [OF cow_inv_finite [OF assms(1)], of y 0] z by auto
    then have "cow_abs ?t = cow_abs s"
      using cow_abs_upd [of ?t s 0 "Some ?m" x None] assms(2) by (auto simp: cow_abs_def fun_eq_iff)
    moreover have "cow_inv d ?t"
      by (rule cow_inv_upd [OF assms(1), of _ 0 "Some ?m"])
        (use z assms(1) in \<open>auto simp: cow_inv_def\<close>)
    ultimately show ?thesis using that [of ?t ?m] None by simp
  next
    case (Some m)
    then show ?thesis using that [of s m] assms(1) by simp
  qed
  have "model_value m = d" using tv(3) m unfolding cow_inv_def by (metis model_ok.simps(2))
  with share_ok [OF tv(3) _ m refl, of x] show ?thesis using assms(2) m tv(1,2)
    by (simp add: cow_default_def t Let_def construct_def retain_def deref_def)
qed

lemma cow_move_ok:
  assumes "cow_inv d s" and "vars s x = None" and "cow_abs s y = Some (Some v)"
  shows "\<exists>s'. cow_move y x s = Inr s' \<and> cow_inv d s' \<and>
    cow_abs s' = (cow_abs s)(x \<mapsto> Some v, y \<mapsto> None)"
proof -
  from assms(3) obtain a where a: "vars s y = Some (Some a)" "v = model_value (the (models s a))" by auto
  have neq: "x \<noteq> y" using a assms(2) by auto
  let ?V = "(vars s)(x \<mapsto> Some a)"
  let ?s = "s\<lparr>vars := ?V(y \<mapsto> None)\<rparr>"
  have fin: "finite (dom (vars s))" "finite (dom ?V)" using cow_inv_finite [OF assms(1)] by simp_all
  have n: "nrefs (vars ?s) b = nrefs (vars s) b" for b
    using nrefs_update [OF fin(1), of x "Some (Some a)" b] nrefs_update [OF fin(2), of y "Some None" b]
      assms(2) a neq by (auto split: if_splits)
  have "cow_inv d ?s"
    by (rule cow_inv_upd [OF assms(1), of _ a "models s a"])
      (use n fin assms(1) in \<open>auto simp: cow_inv_def\<close>)
  moreover have "cow_abs ?s = (cow_abs s)(x \<mapsto> Some v, y \<mapsto> None)"
    using a neq by (auto simp: cow_abs_def fun_eq_iff)
  ultimately show ?thesis using a assms(2) neq
    by (simp add: cow_move_def self_of_def nonnull_def construct_def)
qed

lemma cow_swap_ok:
  assumes "cow_inv d s" and "vars s x \<noteq> None" and "vars s y \<noteq> None"
  shows "\<exists>s'. cow_swap x y s = Inr s' \<and> cow_inv d s' \<and>
    cow_abs s' = (cow_abs s)(x := cow_abs s y, y := cow_abs s x)"
proof -
  from assms obtain p q where pq: "vars s x = Some p" "vars s y = Some q" by auto
  let ?V = "(vars s)(x \<mapsto> q)"
  let ?s = "s\<lparr>vars := ?V(y \<mapsto> p)\<rparr>"
  have fin: "finite (dom (vars s))" "finite (dom ?V)" using cow_inv_finite [OF assms(1)] by simp_all
  have n: "nrefs (vars ?s) b = nrefs (vars s) b" for b
    using nrefs_update [OF fin(1), of x "Some q" b] nrefs_update [OF fin(2), of y "Some p" b]
      pq by (auto split: if_splits)
  have "cow_inv d ?s"
    by (rule cow_inv_upd [OF assms(1), of _ 0 "models s 0"])
      (use n fin assms(1) in \<open>auto simp: cow_inv_def\<close>)
  moreover have "cow_abs ?s = (cow_abs s)(x := cow_abs s y, y := cow_abs s x)"
    using pq by (auto simp: cow_abs_def fun_eq_iff)
  ultimately show ?thesis using pq by (simp add: cow_swap_def self_of_def)
qed

lemma cow_destroy_ok:
  assumes "cow_inv d s" and "vars s x \<noteq> None"
  shows "\<exists>s'. cow_destroy x s = Inr s' \<and> cow_inv d s' \<and> cow_abs s' = (cow_abs s)(x := None)"
proof -
  note fin = cow_inv_finite [OF assms(1)]
  note n = nrefs_update [OF fin, of x None]
  from assms(2) obtain p where p: "vars s x = Some p" by auto
  show ?thesis
  proof (cases p)
    case None
    let ?s = "s\<lparr>vars := (vars s)(x := None)\<rparr>"
    have "cow_inv d ?s"
      by (rule cow_inv_upd [OF assms(1), of _ 0 "models s 0"])
        (use n fin p None assms(1) in \<open>auto simp: cow_inv_def\<close>)
    moreover have "cow_abs ?s = (cow_abs s)(x := None)" by (auto simp: cow_abs_def fun_eq_iff)
    ultimately show ?thesis using p None by (simp add: cow_destroy_def self_of_def)
  next
    case (Some a)
    with p assms(1) obtain m where m: "models s a = Some m"
      "count m = nrefs (vars s) a + (if a = 0 then 1 else 0)" "0 < nrefs (vars s) a"
      "a < fresh s" "a = 0 \<longrightarrow> model_value m = d"
      by (auto elim: cow_inv_self)
    let ?M = "if count m - 1 = 0 then None else Some (m\<lparr>count := count m - 1\<rparr>)"
    let ?s = "s\<lparr>models := (models s)(a := ?M), vars := (vars s)(x := None)\<rparr>"
    have "nrefs ((vars s)(x := None)) b = nrefs (vars s) b" if "b \<noteq> a" for b
      using n [of b] p Some that by simp
    then have "cow_inv d ?s"
      by (intro cow_inv_upd [OF assms(1), of _ a ?M]) (use n [of a] fin p Some m in auto)
    moreover have "vars s y \<noteq> Some (Some a)" if "count m - 1 = 0" "y \<noteq> x" for y
    proof
      assume "vars s y = Some (Some a)"
      with nrefs_pos [of "(vars s)(x := None)" y a] fin that have "0 < nrefs ((vars s)(x := None)) a" by simp
      with n [of a] p Some m that(1) show False by (auto split: if_splits)
    qed
    then have "cow_abs ?s = (cow_abs s)(x := None)"
      using cow_abs_upd [of ?s s a ?M x None] m(1) by (auto split: if_splits)
    moreover have "cow_destroy x s = Inr ?s"
      using p Some m(1) by (simp add: cow_destroy_def self_of_def deref_def Let_def)
    ultimately show ?thesis by blast
  qed
qed

lemma cow_read_ok:
  assumes "cow_inv d s" and "cow_abs s x = Some (Some v)"
  shows "cow_read x s = Inr v"
proof -
  from assms(2) obtain a where a: "vars s x = Some (Some a)" "v = model_value (the (models s a))" by auto
  from cow_inv_self [OF assms(1) a(1)] obtain m where "models s a = Some m" .
  with a show ?thesis by (simp add: cow_read_def self_of_def nonnull_def deref_def)
qed

text \<open>An object is unique when it alone has its pointer and the model is not the static one.\<close>

lemma cow_unique_ok:
  assumes "cow_inv d s" and "vars s x = Some (Some a)"
  shows "cow_unique x s = Inr (a \<noteq> 0 \<and> (\<forall>y. vars s y = Some (Some a) \<longrightarrow> y = x))"
proof -
  from cow_inv_self [OF assms] obtain m where m: "models s a = Some m"
    "count m = nrefs (vars s) a + (if a = 0 then 1 else 0)" "0 < nrefs (vars s) a" .
  have "nrefs (vars s) a = 1 \<longleftrightarrow> (\<exists>z. {y. vars s y = Some (Some a)} = {z})"
    by (simp add: nrefs_def card_1_singleton_iff)
  also have "\<dots> \<longleftrightarrow> (\<forall>y. vars s y = Some (Some a) \<longrightarrow> y = x)" using assms(2) by (auto simp: set_eq_iff)
  finally have "nrefs (vars s) a = 1 \<longleftrightarrow> (\<forall>y. vars s y = Some (Some a) \<longrightarrow> y = x)" .
  with m assms(2) show ?thesis
    by (auto simp: cow_unique_def self_of_def nonnull_def deref_def)
qed

lemma store_value_ok:
  assumes "cow_inv d s" and "cow_abs s x = Some (Some v)" and "cow_unique x s = Inr True"
  shows "\<exists>s'. store_value f x s = Inr s' \<and> cow_inv d s' \<and> cow_abs s' = (cow_abs s)(x \<mapsto> Some (f v))"
proof -
  from assms(2) obtain a where a: "vars s x = Some (Some a)" "v = model_value (the (models s a))" by auto
  from cow_inv_self [OF assms(1) a(1)] obtain m where m: "models s a = Some m"
    "count m = nrefs (vars s) a + (if a = 0 then 1 else 0)" "0 < nrefs (vars s) a" "a < fresh s" .
  from cow_unique_ok [OF assms(1) a(1)] assms(3)
  have u: "a \<noteq> 0" "\<And>y. vars s y = Some (Some a) \<Longrightarrow> y = x" by auto
  let ?m = "m\<lparr>model_value := f (model_value m)\<rparr>"
  let ?s = "s\<lparr>models := (models s)(a \<mapsto> ?m)\<rparr>"
  have "cow_inv d ?s"
    by (rule cow_inv_upd [OF assms(1), of _ a "Some ?m"])
      (use m u(1) cow_inv_finite [OF assms(1)] in simp_all)
  moreover have "cow_abs ?s = (cow_abs s)(x := map_option (map_option (\<lambda>b. model_value (the (models ?s b)))) (vars s x))"
    by (rule cow_abs_upd [of ?s s a "Some ?m" x "vars s x"]) (use u(2) in \<open>simp, simp, blast\<close>)
  then have "cow_abs ?s = (cow_abs s)(x \<mapsto> Some (f v))" using a m(1) by simp
  ultimately show ?thesis using a m(1)
    by (simp add: store_value_def self_of_def nonnull_def deref_def)
qed

section \<open>Assignments and write\<close>

lemma self_of_vars: "self_of x s = Inr p \<longleftrightarrow> vars s x = Some p"
  by (simp add: self_of_def split: option.splits)

text \<open>The pointers after the primitive operations, whenever they succeed.\<close>

lemma pointers:
  "cow_value v x s = Inr s' \<Longrightarrow> vars s' = (vars s)(x \<mapsto> Some (fresh s))"
  "cow_move y x s = Inr s' \<Longrightarrow> vars s' = (vars s)(x := vars s y, y \<mapsto> None)"
  "cow_swap x y s = Inr s' \<Longrightarrow> vars s' = (vars s)(x := vars s y, y := vars s x)"
  "cow_destroy x s = Inr s' \<Longrightarrow> vars s' = (vars s)(x := None)"
  by (auto simp: cow_value_def cow_move_def cow_swap_def cow_destroy_def construct_def nonnull_def Let_def
      self_of_vars deref_def elim!: bindR_eq_InrE split: if_splits option.splits)

lemma cow_move_assign_ok:
  assumes "cow_inv d s" and "vars s this \<noteq> None" and "cow_abs s x = Some (Some v)"
    and "vars s Tmp2 = None" and "this \<noteq> Tmp2" and "x \<noteq> Tmp2"
  shows "\<exists>s'. cow_move_assign this x s = Inr s' \<and> cow_inv d s' \<and>
    cow_abs s' = (cow_abs s)(x \<mapsto> None, this \<mapsto> Some v) \<and>
    vars s' = (vars s)(x \<mapsto> None, this := vars s x)"
proof -
  from cow_move_ok [OF assms(1,4,3)] obtain s1 where
    s1: "cow_move x Tmp2 s = Inr s1" "cow_inv d s1" "cow_abs s1 = (cow_abs s)(Tmp2 \<mapsto> Some v, x \<mapsto> None)" by blast
  note v1 = pointers(2) [OF s1(1)]
  have "vars s1 this \<noteq> None" "vars s1 Tmp2 \<noteq> None" using assms v1 by auto
  from cow_swap_ok [OF s1(2) this] obtain s2 where
    s2: "cow_swap this Tmp2 s1 = Inr s2" "cow_inv d s2"
      "cow_abs s2 = (cow_abs s1)(this := cow_abs s1 Tmp2, Tmp2 := cow_abs s1 this)" by blast
  note v2 = pointers(3) [OF s2(1)]
  have "vars s2 Tmp2 \<noteq> None" using v1 v2 assms by auto
  from cow_destroy_ok [OF s2(2) this] obtain s3 where
    s3: "cow_destroy Tmp2 s2 = Inr s3" "cow_inv d s3" "cow_abs s3 = (cow_abs s2)(Tmp2 := None)" by blast
  have "cow_abs s3 = (cow_abs s)(x \<mapsto> None, this \<mapsto> Some v)"
    using assms(5,6) cow_abs_None [OF assms(4)] by (auto simp: s3(3) s2(3) s1(3) fun_eq_iff simp del: cow_abs_simps)
  moreover have "vars s3 = (vars s)(x \<mapsto> None, this := vars s x)"
    using assms(4-6) by (auto simp: pointers(4) [OF s3(1)] v1 v2 fun_eq_iff)
  ultimately show ?thesis using s1(1) s2(1) s3(1,2) by (simp add: cow_move_assign_def)
qed

lemma assign_temporary_ok:
  assumes "cow_inv d s" and "vars s (Var n) \<noteq> None" and "cow_abs s Tmp1 = Some (Some v)" and "vars s Tmp2 = None"
  shows "\<exists>s'. assign_temporary (Var n) s = Inr s' \<and> cow_inv d s' \<and>
    cow_abs s' = (cow_abs s)(Tmp1 := None, Var n \<mapsto> Some v) \<and>
    vars s' = (vars s)(Tmp1 := None, Var n := vars s Tmp1)"
proof -
  from cow_move_assign_ok [OF assms(1-4)] obtain s1 where
    s1: "cow_move_assign (Var n) Tmp1 s = Inr s1" "cow_inv d s1"
      "cow_abs s1 = (cow_abs s)(Tmp1 \<mapsto> None, Var n \<mapsto> Some v)"
      "vars s1 = (vars s)(Tmp1 \<mapsto> None, Var n := vars s Tmp1)" by auto
  from cow_destroy_ok [OF s1(2), of Tmp1] s1(4) obtain s2 where
    s2: "cow_destroy Tmp1 s1 = Inr s2" "cow_inv d s2" "cow_abs s2 = (cow_abs s1)(Tmp1 := None)" by auto
  show ?thesis using s1(1) s2 pointers(4) [OF s2(1)] s1(3,4)
    by (auto simp: assign_temporary_def fun_eq_iff)
qed

lemma cow_copy_assign_ok:
  assumes "cow_inv d s" and "vars s Tmp1 = None" and "vars s Tmp2 = None"
    and "vars s (Var n) \<noteq> None" and "cow_abs s (Var k) = Some (Some v)"
  shows "\<exists>s'. cow_copy_assign (Var n) (Var k) s = Inr s' \<and> cow_inv d s' \<and>
    cow_abs s' = (cow_abs s)(Var n \<mapsto> Some v)"
proof -
  from cow_copy_ok [OF assms(1,2,5)] obtain s1 where
    s1: "cow_copy (Var k) Tmp1 s = Inr s1" "cow_inv d s1" "cow_abs s1 = (cow_abs s)(Tmp1 \<mapsto> Some v)" by blast
  have "vars s1 (Var n) \<noteq> None" "cow_abs s1 Tmp1 = Some (Some v)" "vars s1 Tmp2 = None"
    using assms(3,4) s1(3) cow_abs_simps(1) [of s1] cow_abs_simps(1) [of s]
    by (metis fun_upd_other obj.distinct(1), simp, metis fun_upd_other obj.distinct(5))
  from assign_temporary_ok [OF s1(2) this] obtain s2 where
    s2: "assign_temporary (Var n) s1 = Inr s2" "cow_inv d s2"
      "cow_abs s2 = (cow_abs s1)(Tmp1 := None, Var n \<mapsto> Some v)" by blast
  have "cow_abs s2 = (cow_abs s)(Var n \<mapsto> Some v)"
    using cow_abs_None [OF assms(2)] by (auto simp: s2(3) s1(3) fun_eq_iff simp del: cow_abs_simps)
  with s1(1) s2(1,2) show ?thesis by (simp add: cow_copy_assign_def)
qed

text \<open>The step shared by the value assignment and by \<open>write\<close>: the object gets a model of its own.\<close>

lemma fresh_model_ok:
  assumes "cow_inv d s" and "vars s Tmp1 = None" and "vars s Tmp2 = None" and "vars s (Var n) \<noteq> None"
  shows "\<exists>s'. bindR (cow_value v Tmp1 s) (assign_temporary (Var n)) = Inr s' \<and> cow_inv d s' \<and>
    cow_abs s' = (cow_abs s)(Var n \<mapsto> Some v) \<and> cow_unique (Var n) s' = Inr True"
proof -
  from cow_value_ok [OF assms(1,2)] obtain s1 where
    s1: "cow_value v Tmp1 s = Inr s1" "cow_inv d s1" "cow_abs s1 = (cow_abs s)(Tmp1 \<mapsto> Some v)" by blast
  note v1 = pointers(1) [OF s1(1)]
  have pre: "vars s1 (Var n) \<noteq> None" "cow_abs s1 Tmp1 = Some (Some v)" "vars s1 Tmp2 = None"
    using assms(3,4) v1 s1(3) by simp_all
  from assign_temporary_ok [OF s1(2) pre] obtain s2 where
    s2: "assign_temporary (Var n) s1 = Inr s2" "cow_inv d s2"
      "cow_abs s2 = (cow_abs s1)(Tmp1 := None, Var n \<mapsto> Some v)"
      "vars s2 = (vars s1)(Tmp1 := None, Var n := vars s1 Tmp1)" by blast
  have "vars s y \<noteq> Some (Some (fresh s))" for y
    using cow_inv_self [OF assms(1), of y "fresh s"] by blast
  moreover have "fresh s \<noteq> 0" using assms(1) by (simp add: cow_inv_def)
  moreover have "vars s2 (Var n) = Some (Some (fresh s))" using s2(4) v1 by simp
  ultimately have "cow_unique (Var n) s2 = Inr True"
    using s2(4) v1 by (auto simp: cow_unique_ok [OF s2(2)])
  moreover have "cow_abs s2 = (cow_abs s)(Var n \<mapsto> Some v)"
    using cow_abs_None [OF assms(2)] by (auto simp: s2(3) s1(3) fun_eq_iff simp del: cow_abs_simps)
  ultimately show ?thesis using s1(1) s2(1,2) by simp
qed

lemma cow_assign_value_ok:
  assumes "cow_inv d s" and "vars s Tmp1 = None" and "vars s Tmp2 = None" and "vars s (Var n) \<noteq> None"
  shows "\<exists>s'. cow_assign_value (Var n) v s = Inr s' \<and> cow_inv d s' \<and> cow_abs s' = (cow_abs s)(Var n \<mapsto> Some v)"
proof (cases "cow_unique (Var n) s = Inr True")
  case True
  then obtain a where a: "vars s (Var n) = Some (Some a)"
    by (auto simp: cow_unique_def nonnull_def self_of_vars elim!: bindR_eq_InrE split: option.splits)
  then have "cow_abs s (Var n) = Some (Some (model_value (the (models s a))))" by simp
  from store_value_ok [OF assms(1) this True, of "\<lambda>_. v"] a True show ?thesis
    by (simp add: cow_assign_value_def self_of_def)
next
  case False
  from assms(4) obtain p where p: "vars s (Var n) = Some p" by auto
  have "(if p = None then Inr False else cow_unique (Var n) s) = Inr False"
    using False p cow_unique_ok [OF assms(1), of "Var n"] by (cases p) auto
  with fresh_model_ok [OF assms, of v] p show ?thesis
    by (auto simp: cow_assign_value_def self_of_def)
qed

lemma cow_write_ok:
  assumes "cow_inv d s" and "vars s Tmp1 = None" and "vars s Tmp2 = None" and "cow_abs s (Var n) = Some (Some v)"
  shows "\<exists>s'. cow_write f (Var n) s = Inr s' \<and> cow_inv d s' \<and> cow_abs s' = (cow_abs s)(Var n \<mapsto> Some (f v))"
proof (cases "cow_unique (Var n) s = Inr True")
  case True
  from store_value_ok [OF assms(1,4) True, of f] True show ?thesis by (simp add: cow_write_def)
next
  case False
  from assms(4) obtain a where a: "vars s (Var n) = Some (Some a)" by auto
  then have u: "cow_unique (Var n) s = Inr False" using False cow_unique_ok [OF assms(1) a] by auto
  from fresh_model_ok [OF assms(1-3), of n v] a obtain s1 where
    s1: "bindR (cow_value v Tmp1 s) (assign_temporary (Var n)) = Inr s1" "cow_inv d s1"
      "cow_abs s1 = (cow_abs s)(Var n \<mapsto> Some v)" "cow_unique (Var n) s1 = Inr True" by auto
  have "cow_abs s1 (Var n) = Some (Some v)" using s1(3) by simp
  from store_value_ok [OF s1(2) this s1(4), of f] u s1(1,3) cow_read_ok [OF assms(1,4)] show ?thesis
    by (simp add: cow_write_def)
qed

section \<open>Value semantics\<close>

datatype 'v cow_op =
    New_Default nat | New_Value nat 'v | New_Copy nat nat | New_Move nat nat | Delete nat
  | Swap nat nat | Assign_Copy nat nat | Assign_Move nat nat | Assign_Value nat 'v
  | Write nat "'v \<Rightarrow> 'v"

fun cow_step :: "'v \<Rightarrow> 'v cow_op \<Rightarrow> 'v cow \<Rightarrow> cow_fault + 'v cow" where
  "cow_step d (New_Default x) = cow_default d (Var x)"
| "cow_step d (New_Value x v) = cow_value v (Var x)"
| "cow_step d (New_Copy x y) = cow_copy (Var y) (Var x)"
| "cow_step d (New_Move x y) = cow_move (Var y) (Var x)"
| "cow_step d (Delete x) = cow_destroy (Var x)"
| "cow_step d (Swap x y) = cow_swap (Var x) (Var y)"
| "cow_step d (Assign_Copy x y) = cow_copy_assign (Var x) (Var y)"
| "cow_step d (Assign_Move x y) = cow_move_assign (Var x) (Var y)"
| "cow_step d (Assign_Value x v) = cow_assign_value (Var x) v"
| "cow_step d (Write x f) = cow_write f (Var x)"

text \<open>
  The abstract machine: objects that each hold a value of their own; no heap, counts or sharing.
  Null is the value of an object that was moved from.
\<close>

type_synonym 'v vals = "obj \<Rightarrow> 'v option option"

fun cow_ok :: "'v cow_op \<Rightarrow> 'v vals \<Rightarrow> bool" where
  "cow_ok (New_Default x) A = (A (Var x) = None)"
| "cow_ok (New_Value x v) A = (A (Var x) = None)"
| "cow_ok (New_Copy x y) A = (A (Var x) = None \<and> A (Var y) \<notin> {None, Some None})"
| "cow_ok (New_Move x y) A = (A (Var x) = None \<and> A (Var y) \<notin> {None, Some None})"
| "cow_ok (Delete x) A = (A (Var x) \<noteq> None)"
| "cow_ok (Swap x y) A = (A (Var x) \<noteq> None \<and> A (Var y) \<noteq> None)"
| "cow_ok (Assign_Copy x y) A = (A (Var x) \<noteq> None \<and> A (Var y) \<notin> {None, Some None})"
| "cow_ok (Assign_Move x y) A = (A (Var x) \<noteq> None \<and> A (Var y) \<notin> {None, Some None})"
| "cow_ok (Assign_Value x v) A = (A (Var x) \<noteq> None)"
| "cow_ok (Write x f) A = (A (Var x) \<notin> {None, Some None})"

fun cow_spec :: "'v \<Rightarrow> 'v cow_op \<Rightarrow> 'v vals \<Rightarrow> 'v vals" where
  "cow_spec d (New_Default x) A = A(Var x \<mapsto> Some d)"
| "cow_spec d (New_Value x v) A = A(Var x \<mapsto> Some v)"
| "cow_spec d (New_Copy x y) A = A(Var x := A (Var y))"
| "cow_spec d (New_Move x y) A = A(Var x := A (Var y), Var y \<mapsto> None)"
| "cow_spec d (Delete x) A = A(Var x := None)"
| "cow_spec d (Swap x y) A = A(Var x := A (Var y), Var y := A (Var x))"
| "cow_spec d (Assign_Copy x y) A = A(Var x := A (Var y))"
| "cow_spec d (Assign_Move x y) A = A(Var y \<mapsto> None, Var x := A (Var y))"
| "cow_spec d (Assign_Value x v) A = A(Var x \<mapsto> Some v)"
| "cow_spec d (Write x f) A = A(Var x := map_option (map_option f) (A (Var x)))"

text \<open>Between the operations there are no temporaries.\<close>

definition cow_quiet :: "'v \<Rightarrow> 'v cow \<Rightarrow> bool" where
  "cow_quiet d s \<longleftrightarrow> cow_inv d s \<and> vars s Tmp1 = None \<and> vars s Tmp2 = None"

lemma cow_spec_temporaries: "cow_spec d op A Tmp1 = A Tmp1" "cow_spec d op A Tmp2 = A Tmp2"
  by (cases op; simp)+

lemma cow_step_refines_inv:
  assumes "cow_quiet d s" and "cow_ok op (cow_abs s)"
  shows "\<exists>s'. cow_step d op s = Inr s' \<and> cow_inv d s' \<and> cow_abs s' = cow_spec d op (cow_abs s)"
proof -
  have q: "cow_inv d s" "vars s Tmp1 = None" "vars s Tmp2 = None" using assms(1) by (simp_all add: cow_quiet_def)
  have val: "\<exists>v. cow_abs s (Var y) = Some (Some v)" if "cow_abs s (Var y) \<notin> {None, Some None}" for y
    using that by (metis insert_iff option.exhaust)
  show ?thesis
  proof (cases op)
    case (New_Copy x y)
    with assms(2) val [of y] obtain v where "cow_abs s (Var y) = Some (Some v)" by auto
    with cow_copy_ok [OF q(1), of "Var x" "Var y" v] New_Copy assms(2) show ?thesis by (simp del: cow_abs_simps(3))
  next
    case (New_Move x y)
    with assms(2) val [of y] obtain v where "cow_abs s (Var y) = Some (Some v)" by auto
    with cow_move_ok [OF q(1), of "Var x" "Var y" v] New_Move assms(2) show ?thesis by (simp del: cow_abs_simps(3))
  next
    case (Assign_Copy x y)
    with assms(2) val [of y] obtain v where "cow_abs s (Var y) = Some (Some v)" by auto
    with cow_copy_assign_ok [OF q, of x y v] Assign_Copy assms(2) show ?thesis by (simp del: cow_abs_simps(3))
  next
    case (Assign_Move x y)
    with assms(2) val [of y] obtain v where "cow_abs s (Var y) = Some (Some v)" by auto
    with cow_move_assign_ok [OF q(1), of "Var x" "Var y" v] Assign_Move assms(2) q(3) show ?thesis by (auto simp del: cow_abs_simps(3))
  next
    case (Write x f)
    with assms(2) val [of x] obtain v where "cow_abs s (Var x) = Some (Some v)" by auto
    with cow_write_ok [OF q, of x v f] Write show ?thesis by (simp del: cow_abs_simps(3))
  next
    case (Swap x y)
    with cow_swap_ok [OF q(1), of "Var x" "Var y"] assms(2) show ?thesis by simp
  qed (use assms(2) q cow_default_ok cow_value_ok cow_destroy_ok cow_assign_value_ok in simp_all)
qed

lemma cow_step_refines:
  assumes "cow_quiet d s" and "cow_ok op (cow_abs s)"
  shows "\<exists>s'. cow_step d op s = Inr s' \<and> cow_quiet d s' \<and> cow_abs s' = cow_spec d op (cow_abs s)"
proof -
  from cow_step_refines_inv [OF assms] obtain s' where
    s': "cow_step d op s = Inr s'" "cow_inv d s'" "cow_abs s' = cow_spec d op (cow_abs s)" by blast
  have "vars s' x = None \<longleftrightarrow> vars s x = None" if "x = Tmp1 \<or> x = Tmp2" for x
    using that s'(3) cow_spec_temporaries [of d op "cow_abs s"] by (metis cow_abs_simps(1))
  with s' assms(1) show ?thesis by (auto simp: cow_quiet_def)
qed

interpretation cow: refining_machine "cow_quiet d" "cow_step d" cow_abs cow_ok "cow_spec d" for d
  by unfold_locales (rule cow_step_refines)

lemma cow_quiet_init: "cow_quiet d cow_init" "cow_abs cow_init = (\<lambda>_. None)"
  by (simp_all add: cow_quiet_def cow_inv_def cow_init_def nrefs_def cow_abs_def fun_eq_iff)

text \<open>
  C14. \<open>copy_on_write\<close> has value semantics: on every sequence of constructions, copies, moves, swaps,
  assignments, writes and destructions of live objects that are not moved from where the code
  forbids it, no deleted model is used, and every object reads as the value that a program without
  sharing would hold in it; in particular a write through one object never changes another.
\<close>
theorem cow_value_semantics:
  assumes "permitted cow_ok (cow_spec d) ops (\<lambda>_. None)"
  shows "\<exists>s. run_ops (cow_step d) ops cow_init = Inr s \<and>
    (\<forall>x v. fold (cow_spec d) ops (\<lambda>_. None) x = Some (Some v) \<longrightarrow> cow_read x s = Inr v)"
proof -
  from cow.run_refines [of d cow_init ops] assms obtain s where
    "run_ops (cow_step d) ops cow_init = Inr s" "cow_quiet d s"
    "cow_abs s = fold (cow_spec d) ops (\<lambda>_. None)"
    by (auto simp: cow_quiet_init)
  then show ?thesis using cow_read_ok [of d s] by (metis cow_quiet_def)
qed

theorem cow_value_semantics_witness:
  "\<exists>s. run_ops (cow_step 0) [New_Value 1 (5::nat), New_Copy 2 1, New_Default 3, Write 2 Suc, Assign_Copy 3 1]
      cow_init = Inr s \<and> cow_read (Var 1) s = Inr 5 \<and> cow_read (Var 2) s = Inr 6 \<and> cow_read (Var 3) s = Inr 5"
proof -
  let ?ops = "[New_Value 1 (5::nat), New_Copy 2 1, New_Default 3, Write 2 Suc, Assign_Copy 3 1]"
  have "permitted cow_ok (cow_spec 0) ?ops (\<lambda>_. None)" by simp
  from cow_value_semantics [OF this] show ?thesis by auto
qed

text \<open>
  Reference counting neither leaks nor frees early: after every such sequence a model other than
  the static one is on the heap exactly when a live object points to it, and its count is the number
  of these objects; once every object has been destroyed the heap is empty, up to the static model.
\<close>
theorem cow_no_leak:
  assumes "permitted cow_ok (cow_spec d) ops (\<lambda>_. None)"
  shows "\<exists>s. run_ops (cow_step d) ops cow_init = Inr s \<and>
    (\<forall>a. a \<noteq> 0 \<longrightarrow> map_option count (models s a) =
       (if \<exists>x. vars s x = Some (Some a) then Some (card {x. vars s x = Some (Some a)}) else None)) \<and>
    (fold (cow_spec d) ops (\<lambda>_. None) = (\<lambda>_. None) \<longrightarrow> (\<forall>a. a \<noteq> 0 \<longrightarrow> models s a = None))"
proof -
  from cow.run_refines [of d cow_init ops] assms obtain s where
    s: "run_ops (cow_step d) ops cow_init = Inr s" "cow_quiet d s"
      "cow_abs s = fold (cow_spec d) ops (\<lambda>_. None)"
    by (auto simp: cow_quiet_init)
  have ok: "model_ok d a (nrefs (vars s) a) (models s a)" for a
    using s(2) by (simp add: cow_quiet_def cow_inv_def)
  have pos: "(\<exists>x. vars s x = Some (Some a)) \<longleftrightarrow> 0 < nrefs (vars s) a" for a
    using nrefs_pos [OF cow_inv_finite, of d s _ a] s(2) by (auto simp: nrefs_def cow_quiet_def card_gt_0_iff)
  have c: "map_option count (models s a) = (if 0 < nrefs (vars s) a then Some (nrefs (vars s) a) else None)"
    if "a \<noteq> 0" for a
    using ok [of a] that by (cases "models s a") auto
  have "models s a = None" if "a \<noteq> 0" "fold (cow_spec d) ops (\<lambda>_. None) = (\<lambda>_. None)" for a
  proof -
    have "cow_abs s x = None" for x by (simp only: s(3) that(2))
    then have "nrefs (vars s) a = 0" by (simp add: nrefs_def)
    with c [OF that(1)] show ?thesis by simp
  qed
  with s(1) c show ?thesis by (simp add: pos flip: nrefs_def)
qed

theorem cow_no_leak_witness:
  "\<exists>s. run_ops (cow_step 0) [New_Value 1 (5::nat), New_Copy 2 1, Write 2 Suc, Assign_Move 1 2, Delete 1, Delete 2]
      cow_init = Inr s \<and> (\<forall>a. a \<noteq> 0 \<longrightarrow> models s a = None)"
proof -
  let ?ops = "[New_Value 1 (5::nat), New_Copy 2 1, Write 2 Suc, Assign_Move 1 2, Delete 1, Delete 2]"
  have "permitted cow_ok (cow_spec 0) ?ops (\<lambda>_. None)" by simp
  moreover have "fold (cow_spec 0) ?ops (\<lambda>_. None) = (\<lambda>_. None)" by (simp add: fun_eq_iff)
  ultimately show ?thesis using cow_no_leak [of 0 ?ops] by blast
qed

section \<open>Comparisons\<close>

text \<open>
  The six comparisons of two objects, given \<open>==\<close> and \<open><\<close> of the element type. The first two test for a
  shared model before they compare the elements; the others are derived from them.
\<close>

definition cow_less :: "('v \<Rightarrow> 'v \<Rightarrow> bool) \<Rightarrow> obj \<Rightarrow> obj \<Rightarrow> 'v cow \<Rightarrow> cow_fault + bool" where
  "cow_less lt x y s =
     bindR (cow_identity x y s) (\<lambda>same.
       if same then Inr False
       else bindR (cow_read x s) (\<lambda>v. bindR (cow_read y s) (\<lambda>w. Inr (lt v w))))"

definition cow_equal :: "('v \<Rightarrow> 'v \<Rightarrow> bool) \<Rightarrow> obj \<Rightarrow> obj \<Rightarrow> 'v cow \<Rightarrow> cow_fault + bool" where
  "cow_equal eq x y s =
     bindR (cow_identity x y s) (\<lambda>same.
       if same then Inr True
       else bindR (cow_read x s) (\<lambda>v. bindR (cow_read y s) (\<lambda>w. Inr (eq v w))))"

definition cow_greater where "cow_greater lt x y = cow_less lt y x"

definition cow_less_equal where "cow_less_equal lt x y s = bindR (cow_less lt y x s) (\<lambda>b. Inr (\<not> b))"

definition cow_greater_equal where "cow_greater_equal lt x y s = bindR (cow_less lt x y s) (\<lambda>b. Inr (\<not> b))"

definition cow_not_equal where "cow_not_equal eq x y s = bindR (cow_equal eq x y s) (\<lambda>b. Inr (\<not> b))"

lemma cow_identity_ok:
  assumes "cow_abs s x = Some (Some v)" and "cow_abs s y = Some (Some w)"
  shows "\<exists>b. cow_identity x y s = Inr b \<and> (b \<longrightarrow> v = w)"
  using assms by (auto simp: cow_identity_def self_of_def nonnull_def)

text \<open>
  The shortcut of the comparisons is sound: for an irreflexive \<open><\<close> and a reflexive \<open>==\<close> of the
  elements, the six operators compare the values of the objects, whether or not they share a model.
\<close>
theorem cow_comparisons:
  assumes "cow_inv d s" and "cow_abs s x = Some (Some v)" and "cow_abs s y = Some (Some w)"
    and "\<And>a. \<not> lt a a" and "\<And>a. eq a a"
  shows "cow_less lt x y s = Inr (lt v w) \<and> cow_equal eq x y s = Inr (eq v w) \<and>
    cow_greater lt x y s = Inr (lt w v) \<and> cow_less_equal lt x y s = Inr (\<not> lt w v) \<and>
    cow_greater_equal lt x y s = Inr (\<not> lt v w) \<and> cow_not_equal eq x y s = Inr (\<not> eq v w)"
proof -
  note r = cow_read_ok [OF assms(1,2)] cow_read_ok [OF assms(1,3)]
  have "cow_less lt x y s = Inr (lt v w)" "cow_equal eq x y s = Inr (eq v w)"
    using cow_identity_ok [OF assms(2,3)] assms(4,5) r by (auto simp: cow_less_def cow_equal_def)
  moreover have "cow_less lt y x s = Inr (lt w v)"
    using cow_identity_ok [OF assms(3,2)] assms(4) r by (auto simp: cow_less_def)
  ultimately show ?thesis
    by (simp add: cow_greater_def cow_less_equal_def cow_greater_equal_def cow_not_equal_def)
qed

theorem cow_comparisons_witness:
  "\<exists>s. run_ops (cow_step 0) [New_Value 1 (5::nat), New_Copy 2 1, New_Value 3 7] cow_init = Inr s \<and>
     cow_less (<) (Var 1) (Var 3) s = Inr True \<and> cow_equal (=) (Var 1) (Var 2) s = Inr True"
proof -
  let ?ops = "[New_Value 1 (5::nat), New_Copy 2 1, New_Value 3 7]"
  have "permitted cow_ok (cow_spec 0) ?ops (cow_abs cow_init)" by (simp add: cow_quiet_init)
  from cow.run_refines [OF cow_quiet_init(1) this] obtain s where
    s: "run_ops (cow_step 0) ?ops cow_init = Inr s" "cow_inv 0 s"
      "cow_abs s = fold (cow_spec 0) ?ops (\<lambda>_. None)"
    by (auto simp: cow_quiet_init cow_quiet_def)
  have v: "cow_abs s (Var 1) = Some (Some 5)" "cow_abs s (Var 2) = Some (Some 5)" "cow_abs s (Var 3) = Some (Some 7)"
    unfolding s(3) by simp_all
  show ?thesis
    using s(1) cow_comparisons [OF s(2) v(1,3), of "(<)" "(=)"] cow_comparisons [OF s(2) v(1,2), of "(<)" "(=)"]
    by simp
qed

end
