(* ===== verification/Future_Shared.thy ===== *)
theory Future_Shared
  imports Prelude "HOL-Library.Multiset"
begin

text \<open>
  The shared state of a future of stlab (\<^verbatim>\<open>deps/clean_stlab/stlab/concurrency/future.hpp\<close>): the result or
  exception, the flag \<open>_ready\<close>, the continuations attached so far, the function of the packaged task and
  the number of its copies. A step of the model is a critical section, the return of the function, a
  write of the result or exception (which the code makes before it takes the lock), or the hand-over
  of one continuation to its executor; any number of threads interleave.
  Continuations are names (of a pair of executor and task).
\<close>

section \<open>State\<close>

text \<open>
  A thread inside \<open>operator()\<close> or \<open>set_error\<close>: in the call of the function; with the outcome written,
  before the critical section; handing continuations over. The flag says that \<open>operator()\<close> will clear
  \<open>_f\<close> at its end.
\<close>

datatype 'k cpc = In_Function | Outcome_Written bool | Handing "'k list" bool

record ('v, 'e, 'k) sb =
  sb_result :: "'v option"
  sb_exception :: "'e option"
  sb_ready :: bool
  sb_then :: "'k list"
  sb_f :: bool
  promise_count :: "64 word"
  sb_calls :: "'k cpc list"
  sb_scheduled :: "'k list"
  sb_destroyed :: "'k list"

text \<open>\<open>package\<close>: a state with a function and one promise.\<close>

definition package :: "('v, 'e, 'k) sb" where
  "package = \<lparr>sb_result = None, sb_exception = None, sb_ready = False, sb_then = [], sb_f = True,
     promise_count = 1, sb_calls = [], sb_scheduled = [], sb_destroyed = []\<rparr>"

definition package_with_broken_promise :: "'e \<Rightarrow> ('v, 'e, 'k) sb" where
  "package_with_broken_promise broken = package\<lparr>sb_exception := Some broken, sb_ready := True\<rparr>"

section \<open>Operations\<close>

text \<open>
  \<open>recover\<close>: under the lock the continuation is stored, or found to be due; then it is handed over
  after the lock is released.
\<close>

definition sb_recover :: "'k \<Rightarrow> ('v, 'e, 'k) sb \<Rightarrow> ('v, 'e, 'k) sb" where
  "sb_recover k s =
     (if sb_ready s then s\<lparr>sb_calls := sb_calls s @ [Handing [k] False]\<rparr>
      else s\<lparr>sb_then := sb_then s @ [k]\<rparr>)"

text \<open>\<open>operator()\<close> up to the call of the function; nothing happens when the function is gone.\<close>

definition sb_invoke :: "('v, 'e, 'k) sb \<Rightarrow> ('v, 'e, 'k) sb" where
  "sb_invoke s = (if sb_f s then s\<lparr>sb_calls := sb_calls s @ [In_Function]\<rparr> else s)"

text \<open>The function returns (\<open>value_::set\<close>) or throws (the \<open>catch\<close> of \<open>operator()\<close>).\<close>

definition sb_return :: "nat \<Rightarrow> 'v \<Rightarrow> ('v, 'e, 'k) sb \<Rightarrow> ('v, 'e, 'k) sb" where
  "sb_return i v s =
     (if i < length (sb_calls s) \<and> sb_calls s ! i = In_Function
      then s\<lparr>sb_result := Some v, sb_calls := (sb_calls s)[i := Outcome_Written True]\<rparr> else s)"

definition sb_throw :: "nat \<Rightarrow> 'e \<Rightarrow> ('v, 'e, 'k) sb \<Rightarrow> ('v, 'e, 'k) sb" where
  "sb_throw i e s =
     (if i < length (sb_calls s) \<and> sb_calls s ! i = In_Function
      then s\<lparr>sb_exception := Some e, sb_calls := (sb_calls s)[i := Outcome_Written True]\<rparr> else s)"

definition sb_set_error :: "'e \<Rightarrow> ('v, 'e, 'k) sb \<Rightarrow> ('v, 'e, 'k) sb" where
  "sb_set_error e s = s\<lparr>sb_exception := Some e, sb_calls := sb_calls s @ [Outcome_Written False]\<rparr>"

text \<open>The critical section of \<open>proceed\<close> and of \<open>set_exception\<close>.\<close>

definition sb_proceed :: "nat \<Rightarrow> ('v, 'e, 'k) sb \<Rightarrow> ('v, 'e, 'k) sb" where
  "sb_proceed i s =
     (if i < length (sb_calls s) then
        (case sb_calls s ! i of
           Outcome_Written b \<Rightarrow>
             s\<lparr>sb_ready := True, sb_then := [], sb_calls := (sb_calls s)[i := Handing (sb_then s) b]\<rparr>
         | _ \<Rightarrow> s)
      else s)"

text \<open>One round of the loop over the continuations, and the end of the call.\<close>

definition sb_hand :: "nat \<Rightarrow> ('v, 'e, 'k) sb \<Rightarrow> ('v, 'e, 'k) sb" where
  "sb_hand i s =
     (if i < length (sb_calls s) then
        (case sb_calls s ! i of
           Handing [] b \<Rightarrow> s\<lparr>sb_calls := drop_nth i (sb_calls s), sb_f := (if b then False else sb_f s)\<rparr>
         | Handing (k # ks) b \<Rightarrow>
             s\<lparr>sb_calls := (sb_calls s)[i := Handing ks b], sb_scheduled := sb_scheduled s @ [k]\<rparr>
         | _ \<Rightarrow> s)
      else s)"

definition add_promise :: "('v, 'e, 'k) sb \<Rightarrow> ('v, 'e, 'k) sb" where
  "add_promise s = s\<lparr>promise_count := promise_count s + 1\<rparr>"

text \<open>
  The last promise that goes while the state is not ready leaves the exception \<open>broken_promise\<close>;
  \<open>reset\<close> destroys the continuations.
\<close>

definition remove_promise :: "'e \<Rightarrow> ('v, 'e, 'k) sb \<Rightarrow> ('v, 'e, 'k) sb" where
  "remove_promise broken s =
     (let s = s\<lparr>promise_count := promise_count s - 1\<rparr>
      in if promise_count s = 0 \<and> \<not> sb_ready s
         then s\<lparr>sb_destroyed := sb_destroyed s @ sb_then s, sb_then := [], sb_f := False,
                sb_exception := Some broken, sb_ready := True\<rparr>
         else s)"

text \<open>\<open>get_try\<close>: the exception is rethrown, a result that is not there yet is \<open>nullopt\<close>.\<close>

definition get_try :: "('v, 'e, 'k) sb \<Rightarrow> 'e + 'v option" where
  "get_try s =
     (if sb_ready s then (case sb_exception s of Some e \<Rightarrow> Inl e | None \<Rightarrow> Inr (sb_result s)) else Inr None)"

definition void_get_try :: "(unit, 'e, 'k) sb \<Rightarrow> 'e + bool" where
  "void_get_try s =
     (if sb_ready s then (case sb_exception s of Some e \<Rightarrow> Inl e | None \<Rightarrow> Inr True) else Inr False)"

text \<open>
  The functions that \<open>recover\<close> and \<open>then\<close> package for the next future: \<open>recover\<close> passes the future on;
  \<open>then\<close> takes its value with \<open>get_ready\<close>, which rethrows.
\<close>

definition get_ready :: "('v, 'e, 'k) sb \<Rightarrow> 'e + 'v option" where
  "get_ready s = (case sb_exception s of Some e \<Rightarrow> Inl e | None \<Rightarrow> Inr (sb_result s))"

definition then_function :: "('v \<Rightarrow> 'e + 'w) \<Rightarrow> ('v, 'e, 'k) sb \<Rightarrow> ('e + 'w) option" where
  "then_function f s =
     (case get_ready s of
        Inl e \<Rightarrow> Some (Inl e)
      | Inr None \<Rightarrow> None
      | Inr (Some v) \<Rightarrow> Some (f v))"

datatype ('v, 'e, 'k) sb_op = Recover 'k | Invoke | Return nat 'v | Throws nat 'e | Set_Error 'e
  | Proceed nat | Hand nat | Add_Promise | Remove_Promise

fun sb_step :: "'e \<Rightarrow> ('v, 'e, 'k) sb_op \<Rightarrow> ('v, 'e, 'k) sb \<Rightarrow> ('v, 'e, 'k) sb" where
  "sb_step broken (Recover k) = sb_recover k"
| "sb_step broken Invoke = sb_invoke"
| "sb_step broken (Return i v) = sb_return i v"
| "sb_step broken (Throws i e) = sb_throw i e"
| "sb_step broken (Set_Error e) = sb_set_error e"
| "sb_step broken (Proceed i) = sb_proceed i"
| "sb_step broken (Hand i) = sb_hand i"
| "sb_step broken Add_Promise = add_promise"
| "sb_step broken Remove_Promise = remove_promise broken"

section \<open>Continuations\<close>

fun handing :: "'k cpc \<Rightarrow> 'k multiset" where
  "handing (Handing ks b) = mset ks"
| "handing _ = {#}"

definition sb_conts :: "('v, 'e, 'k) sb \<Rightarrow> 'k multiset" where
  "sb_conts s = mset (sb_then s) + sum_list (map handing (sb_calls s)) + mset (sb_scheduled s) + mset (sb_destroyed s)"

fun attached :: "('v, 'e, 'k) sb_op list \<Rightarrow> 'k multiset" where
  "attached [] = {#}"
| "attached (Recover k # ops) = add_mset k (attached ops)"
| "attached (_ # ops) = attached ops"

fun is_handing :: "'k cpc \<Rightarrow> bool" where
  "is_handing (Handing ks b) = True"
| "is_handing _ = False"

definition sb_inv :: "('v, 'e, 'k) sb \<Rightarrow> bool" where
  "sb_inv s \<longleftrightarrow> (sb_ready s \<longrightarrow> sb_then s = []) \<and>
     (\<not> sb_ready s \<longrightarrow> sb_scheduled s = [] \<and> sb_destroyed s = [] \<and> list_all (\<lambda>w. \<not> is_handing w) (sb_calls s))"

lemma calls_update:
  "i < length (sb_calls s) \<Longrightarrow>
   sum_list (map handing ((sb_calls s)[i := w])) + handing (sb_calls s ! i) = sum_list (map handing (sb_calls s)) + handing w"
  by (rule sum_list_update)

lemma sb_conts_step: "sb_conts (sb_step broken op s) = sb_conts s + attached [op]"
proof (cases op)
  case (Return i v)
  then show ?thesis using calls_update [of i s "Outcome_Written True"]
    by (auto simp: sb_conts_def sb_return_def)
next
  case (Throws i e)
  then show ?thesis using calls_update [of i s "Outcome_Written True"]
    by (auto simp: sb_conts_def sb_throw_def)
next
  case (Proceed i)
  then show ?thesis using calls_update [of i s "Handing (sb_then s) _"]
    by (auto simp: sb_conts_def sb_proceed_def split: cpc.splits)
next
  case (Hand i)
  show ?thesis
  proof (cases "i < length (sb_calls s) \<and> is_handing (sb_calls s ! i)")
    case True
    then obtain ks b where h: "i < length (sb_calls s)" "sb_calls s ! i = Handing ks b"
      by (cases "sb_calls s ! i") auto
    show ?thesis
    proof (cases ks)
      case Nil
      then show ?thesis using Hand h sum_list_drop_nth [OF h(1), of handing]
        by (simp add: sb_conts_def sb_hand_def)
    next
      case (Cons k ks')
      have "add_mset k (sum_list (map handing ((sb_calls s)[i := Handing ks' b]))) = sum_list (map handing (sb_calls s))"
        using calls_update [OF h(1), of "Handing ks' b"] h(2) Cons by simp
      then show ?thesis using Hand h Cons by (simp add: sb_conts_def sb_hand_def flip: add_mset_add_single)
    qed
  next
    case False
    then show ?thesis using Hand by (cases "sb_calls s ! i") (auto simp: sb_hand_def)
  qed
qed (auto simp: sb_conts_def sb_recover_def sb_invoke_def sb_set_error_def add_promise_def remove_promise_def Let_def)

lemma attached_Cons: "attached (op # ops) = attached [op] + attached ops"
  by (cases op) simp_all

lemma sb_conts_run: "sb_conts (fold (sb_step broken) ops s) = sb_conts s + attached ops"
proof (induction ops arbitrary: s)
  case (Cons op ops)
  then show ?case by (subst attached_Cons) (simp add: sb_conts_step ac_simps del: sb_step.simps)
qed simp

lemma sb_inv_step:
  assumes "sb_inv s"
  shows "sb_inv (sb_step broken op s)"
proof (cases op)
  case (Hand i)
  have "is_handing (sb_calls s ! i) \<longrightarrow> sb_ready s" if "i < length (sb_calls s)"
    using assms that by (auto simp: sb_inv_def list_all_length)
  then show ?thesis using Hand assms
    by (cases "i < length (sb_calls s)"; cases "sb_calls s ! i") (auto simp: sb_inv_def sb_hand_def split: list.splits)
qed (use assms in \<open>auto simp: sb_inv_def sb_recover_def sb_invoke_def sb_return_def sb_throw_def sb_set_error_def
    sb_proceed_def add_promise_def remove_promise_def Let_def list_all_update split: cpc.splits\<close>)

lemma sb_inv_run: "sb_inv s \<Longrightarrow> sb_inv (fold (sb_step broken) ops s)"
  by (induction ops arbitrary: s) (simp_all add: sb_inv_step del: sb_step.simps)

lemma sb_inv_package: "sb_inv package" "sb_conts package = {#}"
  by (simp_all add: sb_inv_def sb_conts_def package_def)

text \<open>
  C20. No continuation is lost to the race between \<open>recover\<close> and the fulfilment of the promise, and none
  is scheduled twice: under every interleaving the continuations stored, being handed over, handed
  over and destroyed are together exactly those attached, and once the state is ready none is stored
  any more, so that when no thread is inside a call every continuation attached has been handed to
  its executor or destroyed.
\<close>
theorem future_continuations_once:
  fixes s :: "('v, 'e, 'k) sb"
  assumes "s = fold (sb_step broken) ops package"
  shows "mset (sb_then s) + sum_list (map handing (sb_calls s)) + mset (sb_scheduled s) + mset (sb_destroyed s) = attached ops \<and>
    (sb_ready s \<and> sb_calls s = [] \<longrightarrow> mset (sb_scheduled s) + mset (sb_destroyed s) = attached ops)"
proof -
  have "sb_conts s = attached ops" and "sb_inv s"
    by (simp_all add: assms sb_conts_run sb_inv_run sb_inv_package)
  then show ?thesis by (auto simp: sb_conts_def sb_inv_def)
qed

theorem future_continuations_once_witness:
  "let s = fold (sb_step ''broken'') [Recover 1, Invoke, Recover (2::nat), Return 0 (7::int), Proceed 0, Recover 3,
      Hand 0, Hand 0, Hand 1, Hand 0, Hand 0] package
   in mset (sb_scheduled s) + mset (sb_destroyed s) = {#1, 2, 3#}"
proof -
  let ?ops = "[Recover 1, Invoke, Recover (2::nat), Return 0 (7::int), Proceed 0, Recover 3,
      Hand 0, Hand 0, Hand 1, Hand 0, Hand 0]"
  have "sb_ready (fold (sb_step ''broken'') ?ops package) \<and> sb_calls (fold (sb_step ''broken'') ?ops package) = []"
    by (simp add: package_def sb_recover_def sb_invoke_def sb_return_def sb_proceed_def sb_hand_def drop_nth_def)
  with future_continuations_once [OF refl, of "''broken''" ?ops] show ?thesis by (simp only: Let_def) simp
qed

section \<open>Outcomes\<close>

text \<open>
  A settled state: ready, the function is gone, and no thread is about to write an outcome.
\<close>

definition settled :: "('v, 'e, 'k) sb \<Rightarrow> bool" where
  "settled s \<longleftrightarrow> sb_ready s \<and> \<not> sb_f s \<and> list_all is_handing (sb_calls s)"

fun no_set_error :: "('v, 'e, 'k) sb_op \<Rightarrow> bool" where
  "no_set_error (Set_Error e) = False"
| "no_set_error _ = True"

lemma list_all_drop_nth: "list_all P xs \<Longrightarrow> list_all P (drop_nth i xs)"
  by (auto simp: list_all_iff drop_nth_def dest: in_set_takeD in_set_dropD)

lemma sb_hand_outcome:
  "sb_result (sb_hand i s) = sb_result s" "sb_exception (sb_hand i s) = sb_exception s"
  "sb_ready (sb_hand i s) = sb_ready s" "\<not> sb_f s \<Longrightarrow> \<not> sb_f (sb_hand i s)"
  "list_all is_handing (sb_calls s) \<Longrightarrow> list_all is_handing (sb_calls (sb_hand i s))"
  by (auto simp: sb_hand_def list_all_update list_all_drop_nth split: cpc.splits list.splits)

lemma settled_step:
  assumes "settled s" and "no_set_error op"
  shows "settled (sb_step broken op s) \<and> get_try (sb_step broken op s) = get_try s"
proof -
  have h: "is_handing (sb_calls s ! i)" if "i < length (sb_calls s)" for i
    using assms(1) that by (simp add: settled_def list_all_length)
  show ?thesis
  proof (cases op)
    case (Return i v)
    then show ?thesis using assms(1) h [of i] by (auto simp: sb_return_def)
  next
    case (Throws i e)
    then show ?thesis using assms(1) h [of i] by (auto simp: sb_throw_def)
  next
    case (Proceed i)
    then show ?thesis using assms(1) h [of i] by (cases "sb_calls s ! i") (auto simp: sb_proceed_def)
  next
    case (Hand i)
    then show ?thesis using assms(1) by (simp add: settled_def get_try_def sb_hand_outcome split: option.splits)
  qed (use assms in \<open>auto simp: settled_def get_try_def sb_recover_def sb_invoke_def add_promise_def
      remove_promise_def Let_def split: option.splits\<close>)
qed

lemma settled_run:
  "settled s \<Longrightarrow> list_all no_set_error ops \<Longrightarrow>
   settled (fold (sb_step broken) ops s) \<and> get_try (fold (sb_step broken) ops s) = get_try s"
  by (induction ops arbitrary: s) (simp_all add: settled_step del: sb_step.simps)

text \<open>The steps of one call of the packaged task whose function gives the outcome \<open>r\<close>.\<close>

definition outcome_step :: "'e + 'v \<Rightarrow> ('v, 'e, 'k) sb_op" where
  "outcome_step r = (case r of Inl e \<Rightarrow> Throws 0 e | Inr v \<Rightarrow> Return 0 v)"

definition call_steps :: "'e + 'v \<Rightarrow> nat \<Rightarrow> ('v, 'e, 'k) sb_op list" where
  "call_steps r n = [Invoke, outcome_step r, Proceed 0] @ replicate (Suc n) (Hand 0)"

lemma recover_all:
  "\<not> sb_ready s \<Longrightarrow> fold (sb_step broken) (map Recover ks) s = s\<lparr>sb_then := sb_then s @ ks\<rparr>"
  by (induction ks arbitrary: s) (simp_all add: sb_recover_def)

lemma hand_all:
  "sb_calls s = [Handing ks True] \<Longrightarrow>
   fold (sb_step broken) (replicate (Suc (length ks)) (Hand 0)) s =
     s\<lparr>sb_calls := [], sb_scheduled := sb_scheduled s @ ks, sb_f := False\<rparr>"
  by (induction ks arbitrary: s) (simp_all add: sb_hand_def)

lemma call_result:
  "fold (sb_step broken) (map Recover ks @ call_steps r (length ks)) package =
   package\<lparr>sb_result := (case r of Inl e \<Rightarrow> None | Inr v \<Rightarrow> Some v),
     sb_exception := (case r of Inl e \<Rightarrow> Some e | Inr v \<Rightarrow> None),
     sb_ready := True, sb_f := False, sb_scheduled := ks\<rparr>"
proof -
  let ?s = "fold (sb_step broken) (map Recover ks @ [Invoke, outcome_step r, Proceed 0]) package"
  have "?s = package\<lparr>sb_result := (case r of Inl e \<Rightarrow> None | Inr v \<Rightarrow> Some v),
     sb_exception := (case r of Inl e \<Rightarrow> Some e | Inr v \<Rightarrow> None), sb_ready := True,
     sb_calls := [Handing ks True]\<rparr>"
    by (cases r) (simp_all add: recover_all package_def outcome_step_def sb_invoke_def sb_return_def sb_throw_def sb_proceed_def)
  moreover from this have "sb_calls ?s = [Handing ks True]" by simp
  note hand_all [OF this, of broken]
  ultimately show ?thesis
    by (simp add: call_steps_def package_def del: replicate.simps sb_step.simps)
qed

text \<open>
  Calling the packaged task fulfils its future, once and for all: the continuations attached before
  are handed over in the order they were attached; the future then gives the value the function
  returned, or rethrows what it threw; and no later call, promise or continuation changes that.
\<close>
theorem future_fulfilled:
  fixes r :: "'e + 'v" and ks :: "'k list"
  assumes "s = fold (sb_step broken) (map Recover ks @ call_steps r (length ks)) package"
    and "list_all no_set_error later"
  shows "sb_scheduled s = ks \<and> get_try s = map_sum (\<lambda>e. e) Some r \<and>
    get_try (fold (sb_step broken) later s) = map_sum (\<lambda>e. e) Some r"
proof -
  have "settled s" "sb_scheduled s = ks" "get_try s = map_sum (\<lambda>e. e) Some r"
    unfolding assms(1) call_result by (cases r; simp add: settled_def get_try_def package_def)+
  with settled_run [OF _ assms(2), of s broken] show ?thesis by simp
qed

theorem future_fulfilled_witness:
  "let s = fold (sb_step ''broken'') (map Recover [1, 2::nat] @ call_steps (Inr (7::int)) (length [1, 2::nat])) package
   in sb_scheduled s = [1, 2] \<and> get_try s = Inr (Some 7) \<and>
      get_try (fold (sb_step ''broken'') [Invoke, Return 0 8, Proceed 0, Remove_Promise] s) = Inr (Some 7)"
  using future_fulfilled [OF refl, of "[Invoke, Return 0 8, Proceed 0, Remove_Promise]" "''broken''" "[1, 2::nat]" "Inr (7::int)"]
  by (simp only: Let_def) simp

text \<open>
  \<open>packaged_task::set_exception\<close> on a future that already has its value replaces it: the future gave
  the value before, and rethrows the error from then on.
\<close>
theorem future_error_overrides_value:
  fixes v :: 'v and ks :: "'k list"
  assumes "s = fold (sb_step broken) (map Recover ks @ call_steps (Inr v) (length ks)) package"
  shows "get_try s = Inr (Some v) \<and> get_try (sb_step broken (Set_Error e) s) = Inl e"
  unfolding assms call_result by (simp add: get_try_def package_def sb_set_error_def)

theorem future_error_overrides_value_witness:
  "get_try (fold (sb_step ''broken'') (map Recover [] @ call_steps (Inr (7::int)) (length ([] :: nat list)) @ [Set_Error ''late'']) (package :: (int, string, nat) sb))
     = Inl ''late''"
  using future_error_overrides_value [OF refl, of "''broken''" "[] :: nat list" "7 :: int" "''late''"]
  by (simp only: append_assoc [symmetric] fold_append comp_apply) simp

text \<open>
  A broken promise treats continuations by their time of attachment: those attached before the last
  promise went are destroyed without ever being scheduled, one attached after it is scheduled and
  finds the error.
\<close>
theorem future_broken_promise:
  fixes before :: "'k list"
  assumes "s = fold (sb_step broken) (map Recover before @ [Remove_Promise]) (package :: ('v, 'e, 'k) sb)"
  shows "get_try s = Inl broken \<and> sb_destroyed s = before \<and> sb_scheduled s = [] \<and>
    sb_scheduled (fold (sb_step broken) [Recover k, Hand 0, Hand 0] s) = [k] \<and>
    get_try (fold (sb_step broken) [Recover k, Hand 0, Hand 0] s) = Inl broken"
proof -
  have "fold (sb_step broken) (map Recover before) (package :: ('v, 'e, 'k) sb) = package\<lparr>sb_then := before\<rparr>"
    using recover_all [of package broken before] by (simp add: package_def)
  then have "s = package\<lparr>promise_count := 0, sb_destroyed := before, sb_f := False, sb_exception := Some broken, sb_ready := True\<rparr>"
    unfolding assms fold_append comp_apply by (simp add: remove_promise_def Let_def) (simp add: package_def)
  then show ?thesis by (simp add: get_try_def sb_recover_def sb_hand_def package_def)
qed

theorem future_broken_promise_witness:
  "let s = fold (sb_step ''broken'') (map Recover [1, 2::nat] @ [Remove_Promise]) (package :: (int, string, nat) sb)
   in sb_destroyed s = [1, 2] \<and> sb_scheduled (fold (sb_step ''broken'') [Recover 3, Hand 0, Hand 0] s) = [3]"
  using future_broken_promise [where 'v = int and broken = "''broken''" and before = "[1, 2::nat]" and k = 3, OF refl]
  by (simp only: Let_def)

text \<open>
  A chain of \<open>then\<close>: on a fulfilled future the function packaged by \<open>then\<close> passes an exception on without
  calling the function, and applies it to a value; this is the sequencing of theory \<open>Prelude\<close>.
\<close>

lemma then_function_bind:
  "s = fold (sb_step broken) (map Recover ks @ call_steps r (length ks)) package \<Longrightarrow>
   then_function f s = Some (bindR r f)"
  unfolding call_result by (cases r) (simp_all add: then_function_def get_ready_def package_def)

end
