(* ===== verification/When_All_Any.thy ===== *)
theory When_All_Any
  imports Prelude
begin

text \<open>
  \<open>when_all\<close> and \<open>when_any\<close> of stlab (\<^verbatim>\<open>deps/clean_stlab/stlab/concurrency/future.hpp\<close>): a context shared by
  the continuations attached to the argument futures counts results and failures and calls the
  packaged task of the combined future. The two differ in the collectors their context is built
  from: \<open>all_trigger\<close> acts on the last of the arguments, \<open>single_trigger\<close> on the first.
  The outcomes of the arguments are given; a step is an atomic operation of the continuation of one
  argument, and the continuations interleave freely. Each runs once (theory \<open>Future_Shared\<close>).
\<close>

section \<open>The context\<close>

datatype trigger = Single_Trigger | All_Trigger

text \<open>
  The continuation of an argument: not run yet, value stored but not counted, elected to call the
  packaged task, finished.
\<close>

datatype apc = Not_Run | Stored | Elected | Finished

text \<open>
  \<open>c_holds\<close> says which of the futures of the continuations the context still holds: once released, a
  continuation that has not started may be cancelled, and its argument then makes no step.
  \<open>c_fired\<close> lists what \<open>execute\<close> gave at each call of the packaged task. \<open>c_remaining\<close> is a \<open>size_t\<close>; it
  is shown to be positive whenever it is decremented.
\<close>

record ('v, 'e) ctx =
  c_results :: "'v option list"
  c_exception :: "'e option"
  c_index :: nat
  c_remaining :: nat
  c_event :: bool
  c_holds :: "bool list"
  c_pcs :: "apc list"
  c_fired :: "('e + 'v option list \<times> nat) list"

definition common_context :: "nat \<Rightarrow> nat \<Rightarrow> ('v, 'e) ctx" where
  "common_context slots n = \<lparr>c_results = replicate slots None, c_exception = None, c_index = 0,
     c_remaining = n, c_event = False, c_holds = replicate n True, c_pcs = replicate n Not_Run, c_fired = []\<rparr>"

text \<open>
  \<open>apply\<close>: a value goes to its place in the vector of results (\<open>when_all\<close>) or, with the index of its
  argument, to the single result (\<open>when_any\<close>); an error to \<open>_exception\<close>.
\<close>

fun context_apply :: "bool \<Rightarrow> nat \<Rightarrow> 'e + 'v \<Rightarrow> ('v, 'e) ctx \<Rightarrow> ('v, 'e) ctx" where
  "context_apply True i (Inr v) s = s\<lparr>c_results := [Some v], c_index := i\<rparr>"
| "context_apply False i (Inr v) s = s\<lparr>c_results := (c_results s)[i := Some v]\<rparr>"
| "context_apply single i (Inl e) s = s\<lparr>c_exception := Some e\<rparr>"

definition context_execute :: "('v, 'e) ctx \<Rightarrow> 'e + 'v option list \<times> nat" where
  "context_execute s = (case c_exception s of Some e \<Rightarrow> Inl e | None \<Rightarrow> Inr (c_results s, c_index s))"

text \<open>
  The contexts of a fixed number of arguments have a function of their own for this: without an
  exception pointer to rethrow, a missing argument would be an error of the program.
\<close>

definition apply_when_all_args :: "('v, 'e) ctx \<Rightarrow> ('e + 'v option list \<times> nat) option" where
  "apply_when_all_args s =
     (if None \<in> set (c_results s) then map_option Inl (c_exception s) else Some (Inr (c_results s, c_index s)))"

definition apply_when_any_arg :: "('v, 'e) ctx \<Rightarrow> 'e + 'v option list \<times> nat" where
  "apply_when_any_arg s = (case c_exception s of Some e \<Rightarrow> Inl e | None \<Rightarrow> Inr (c_results s, c_index s))"

text \<open>The call of the packaged task, which runs \<open>execute\<close> at once.\<close>

definition fire :: "(('v, 'e) ctx \<Rightarrow> 'e + 'v option list \<times> nat) \<Rightarrow> ('v, 'e) ctx \<Rightarrow> ('v, 'e) ctx" where
  "fire execute s = s\<lparr>c_fired := c_fired s @ [execute s]\<rparr>"

definition set_pc :: "nat \<Rightarrow> apc \<Rightarrow> ('v, 'e) ctx \<Rightarrow> ('v, 'e) ctx" where
  "set_pc i w s = s\<lparr>c_pcs := (c_pcs s)[i := w]\<rparr>"

definition count_down :: "('v, 'e) ctx \<Rightarrow> ('v, 'e) ctx" where
  "count_down s = s\<lparr>c_remaining := c_remaining s - 1\<rparr>"

text \<open>The first atomic operation of each collector; the elected continuation releases the others.\<close>

fun trigger_go :: "trigger \<Rightarrow> bool \<Rightarrow> nat \<Rightarrow> 'e + 'v \<Rightarrow> ('v, 'e) ctx \<Rightarrow> ('v, 'e) ctx" where
  "trigger_go Single_Trigger single i r s =
     (if c_event s then set_pc i Finished s else set_pc i Elected (s\<lparr>c_event := True, c_holds := map (\<lambda>h. False) (c_holds s)\<rparr>))"
| "trigger_go All_Trigger single i (Inr v) s = set_pc i Stored (context_apply single i (Inr v) s)"
| "trigger_go All_Trigger single i (Inl e) s =
     (let s = count_down s in if c_remaining s = 0 then set_pc i Elected s else set_pc i Finished s)"

text \<open>The rest: the count after a stored value, the outcome and the call of the elected continuation.\<close>

definition trigger_rest ::
  "(('v, 'e) ctx \<Rightarrow> 'e + 'v option list \<times> nat) \<Rightarrow> bool \<Rightarrow> nat \<Rightarrow> 'e + 'v \<Rightarrow> ('v, 'e) ctx \<Rightarrow> ('v, 'e) ctx" where
  "trigger_rest execute single i r s =
     (case c_pcs s ! i of
        Stored \<Rightarrow> let s = count_down (set_pc i Finished s) in if c_remaining s = 0 then fire execute s else s
      | Elected \<Rightarrow> fire execute (context_apply single i r (set_pc i Finished s))
      | _ \<Rightarrow> s)"

definition attach_step ::
  "(('v, 'e) ctx \<Rightarrow> 'e + 'v option list \<times> nat) \<Rightarrow> trigger \<Rightarrow> trigger \<Rightarrow> bool \<Rightarrow> ('e + 'v) list \<Rightarrow> nat \<Rightarrow> ('v, 'e) ctx \<Rightarrow> ('v, 'e) ctx" where
  "attach_step execute on_result on_failure single outs i s =
     (if i < length (c_pcs s) then
        (if c_pcs s ! i = Not_Run
         then trigger_go (case outs ! i of Inr v \<Rightarrow> on_result | Inl e \<Rightarrow> on_failure) single i (outs ! i) s
         else trigger_rest execute single i (outs ! i) s)
      else s)"

text \<open>The contexts of the two functions.\<close>

definition when_all_step :: "('e + 'v) list \<Rightarrow> nat \<Rightarrow> ('v, 'e) ctx \<Rightarrow> ('v, 'e) ctx" where
  "when_all_step = attach_step context_execute All_Trigger Single_Trigger False"

definition when_any_step :: "('e + 'v) list \<Rightarrow> nat \<Rightarrow> ('v, 'e) ctx \<Rightarrow> ('v, 'e) ctx" where
  "when_any_step = attach_step context_execute Single_Trigger All_Trigger True"

definition when_all_run :: "('e + 'v) list \<Rightarrow> nat list \<Rightarrow> ('v, 'e) ctx" where
  "when_all_run outs is = fold (when_all_step outs) is (common_context (length outs) (length outs))"

definition when_any_run :: "('e + 'v) list \<Rightarrow> nat list \<Rightarrow> ('v, 'e) ctx" where
  "when_any_run outs is = fold (when_any_step outs) is (common_context 1 (length outs))"

text \<open>An empty range: \<open>when_all\<close> calls the function with no results, \<open>when_any\<close> breaks its promise.\<close>

definition when_all_empty :: "'e + 'v option list \<times> nat" where
  "when_all_empty = context_execute (common_context 0 0)"

definition when_any_empty :: "'e \<Rightarrow> 'e + 'v option list \<times> nat" where
  "when_any_empty broken = Inl broken"

section \<open>Progress\<close>

text \<open>Two moves finish a continuation, whatever the collectors.\<close>

fun apc_fuel :: "apc \<Rightarrow> nat" where
  "apc_fuel Not_Run = 2"
| "apc_fuel Stored = 1"
| "apc_fuel Elected = 1"
| "apc_fuel Finished = 0"

lemmas pc_defs = set_pc_def count_down_def fire_def

lemma context_apply_pcs [simp]: "c_pcs (context_apply single i r s) = c_pcs s"
  by (cases r; cases single) simp_all

lemma attach_step_fuel:
  assumes "k < length (c_pcs s)"
  shows "apc_fuel (c_pcs (attach_step X A B single outs i s) ! k) \<le> apc_fuel (c_pcs s ! k) - (if k = i then 1 else 0)"
proof -
  have go: "apc_fuel (c_pcs (trigger_go T single i r s) ! k) \<le> (if k = i then 1 else apc_fuel (c_pcs s ! k))" for T r
    using assms by (cases T; cases r) (auto simp: pc_defs Let_def nth_list_update)
  have rest: "apc_fuel (c_pcs (trigger_rest X single i r s) ! k) \<le> (if k = i then apc_fuel (c_pcs s ! k) - 1 else apc_fuel (c_pcs s ! k))"
    if "c_pcs s ! i \<noteq> Not_Run" for r
    using assms that by (cases "c_pcs s ! i") (auto simp: trigger_rest_def pc_defs Let_def nth_list_update)
  show ?thesis
  proof (cases "i < length (c_pcs s)")
    case True
    then show ?thesis
      using go [of "case outs ! i of Inr v \<Rightarrow> A | Inl e \<Rightarrow> B" "outs ! i"] rest [of "outs ! i"]
      by (cases "c_pcs s ! i = Not_Run"; cases "k = i") (auto simp: attach_step_def)
  qed (use assms in \<open>auto simp: attach_step_def\<close>)
qed

lemma attach_step_length [simp]: "length (c_pcs (attach_step X A B single outs i s)) = length (c_pcs s)"
proof -
  have "length (c_pcs (trigger_go T single i r s)) = length (c_pcs s)" for T r
    by (cases T; cases r) (simp_all add: pc_defs Let_def)
  then show ?thesis by (simp add: attach_step_def trigger_rest_def pc_defs Let_def split: apc.splits)
qed

lemma attach_run_fuel:
  "k < length (c_pcs s) \<Longrightarrow>
   apc_fuel (c_pcs (fold (attach_step X A B single outs) is s) ! k) \<le> apc_fuel (c_pcs s ! k) - count_list is k"
proof (induction "is" arbitrary: s)
  case (Cons i js)
  from Cons.IH [of "attach_step X A B single outs i s"] attach_step_fuel [OF Cons.prems, of X A B single outs i] Cons.prems
  show ?case by (auto simp: algebra_simps)
qed simp

lemma attach_run_finished:
  assumes "k < n" and "2 \<le> count_list is k"
  shows "c_pcs (fold (attach_step X A B single outs) is (common_context slots n)) ! k = Finished"
proof -
  let ?w = "c_pcs (fold (attach_step X A B single outs) is (common_context slots n)) ! k"
  have "apc_fuel ?w = 0"
    using attach_run_fuel [of k "common_context slots n" X A B single outs "is"] assms by (simp add: common_context_def)
  then show ?thesis by (cases ?w) simp_all
qed

text \<open>A cancelled continuation: not started, and released by the elected one.\<close>

definition cancelled :: "('v, 'e) ctx \<Rightarrow> nat \<Rightarrow> bool" where
  "cancelled s i \<longleftrightarrow> c_pcs s ! i = Not_Run \<and> \<not> c_holds s ! i"

definition holds_inv :: "nat \<Rightarrow> ('v, 'e) ctx \<Rightarrow> bool" where
  "holds_inv n s \<longleftrightarrow> length (c_holds s) = n \<and> (list_all id (c_holds s) \<or> c_event s)"

lemma context_apply_event [simp]:
  "c_event (context_apply single i r s) = c_event s" "c_holds (context_apply single i r s) = c_holds s"
  by (cases r; cases single; simp)+

lemma holds_inv_step: "holds_inv n s \<Longrightarrow> holds_inv n (attach_step X A B single outs i s)"
proof -
  have "holds_inv n s \<Longrightarrow> holds_inv n (trigger_go T single i r s)" for T r
    by (cases T; cases r) (auto simp: holds_inv_def pc_defs Let_def)
  then show "holds_inv n s \<Longrightarrow> holds_inv n (attach_step X A B single outs i s)"
    by (auto simp: attach_step_def trigger_rest_def holds_inv_def pc_defs Let_def split: apc.splits)
qed

lemma holds_inv_run: "holds_inv n (fold (attach_step X A B single outs) is (common_context slots n))"
proof -
  have "holds_inv n s \<Longrightarrow> holds_inv n (fold (attach_step X A B single outs) is s)" for s
    by (induction "is" arbitrary: s) (simp_all add: holds_inv_step)
  moreover have "holds_inv n (common_context slots n)" by (simp add: holds_inv_def common_context_def list_all_length)
  ultimately show ?thesis by blast
qed

lemma cancelled_event: "holds_inv n s \<Longrightarrow> i < n \<Longrightarrow> cancelled s i \<Longrightarrow> c_event s"
  by (auto simp: holds_inv_def cancelled_def list_all_length)

lemma attach_run_over:
  assumes "s = fold (attach_step X A B single outs) is (common_context slots n)"
    and "\<forall>i < n. 2 \<le> count_list is i \<or> cancelled s i" and "i < n"
  shows "c_pcs s ! i \<noteq> Elected" and "\<not> c_event s \<Longrightarrow> c_pcs s ! i = Finished"
  using assms attach_run_finished [of i n "is" X A B single outs slots]
    cancelled_event [OF holds_inv_run, of i n X A B single outs "is" slots]
  by (auto simp: cancelled_def)

section \<open>when_all\<close>

definition is_value :: "'e + 'v \<Rightarrow> bool" where
  "is_value r = (case r of Inl e \<Rightarrow> False | Inr v \<Rightarrow> True)"

lemma is_value_simps [simp]: "is_value (Inr v)" "\<not> is_value (Inl e)"
  by (simp_all add: is_value_def)

text \<open>The arguments not counted yet, and those whose continuation is elected.\<close>

definition uncounted :: "('e + 'v) list \<Rightarrow> apc list \<Rightarrow> nat set" where
  "uncounted outs P = {i. i < length outs \<and> \<not> (is_value (outs ! i) \<and> P ! i = Finished)}"

definition elected :: "apc list \<Rightarrow> nat set" where
  "elected P = {i. i < length P \<and> P ! i = Elected}"

lemma uncounted_update:
  assumes "i < length outs" and "length P = length outs" and "P ! i \<noteq> Finished"
  shows "uncounted outs (P[i := w]) =
    (if is_value (outs ! i) \<and> w = Finished then uncounted outs P - {i} else uncounted outs P)"
  using assms by (auto simp: uncounted_def nth_list_update)

lemma uncounted_card:
  assumes "i \<in> uncounted outs P"
  shows "0 < card (uncounted outs P)" and "card (uncounted outs P - {i}) = card (uncounted outs P) - 1"
proof -
  have "finite (uncounted outs P)" by (simp add: uncounted_def)
  with assms show "0 < card (uncounted outs P)" "card (uncounted outs P - {i}) = card (uncounted outs P) - 1"
    by (auto simp: card_gt_0_iff)
qed

lemma elected_update:
  assumes "i < length P"
  shows "elected (P[i := w]) = (if w = Elected then insert i (elected P) else elected P - {i})"
  using assms by (auto simp: elected_def nth_list_update)

text \<open>Each argument: a value is in its place once its continuation has run; a failure raises the event.\<close>

definition arg_ok :: "('e + 'v) list \<Rightarrow> ('v, 'e) ctx \<Rightarrow> nat \<Rightarrow> bool" where
  "arg_ok outs s i \<longleftrightarrow> (case outs ! i of
     Inr v \<Rightarrow> c_pcs s ! i \<noteq> Elected \<and> (c_pcs s ! i \<noteq> Not_Run \<longrightarrow> c_results s ! i = Some v)
   | Inl e \<Rightarrow> c_pcs s ! i \<noteq> Stored \<and> (c_pcs s ! i \<noteq> Not_Run \<longrightarrow> c_event s))"

text \<open>Before the event the count alone decides; after it one failed argument is or was elected.\<close>

definition event_ok :: "(nat \<Rightarrow> 'r option) \<Rightarrow> nat \<Rightarrow> apc list \<Rightarrow> 'r list \<Rightarrow> bool" where
  "event_ok R n P F \<longleftrightarrow>
     (\<exists>i r. i < n \<and> R i = Some r \<and>
       (elected P = {i} \<and> F = [] \<or> elected P = {} \<and> P ! i = Finished \<and> F = [r]))"

lemma elected_same:
  "i < length P \<Longrightarrow> P ! i \<noteq> Elected \<Longrightarrow> w \<noteq> Elected \<Longrightarrow> elected (P[i := w]) = elected P"
  by (auto simp: elected_update) (simp add: elected_def)

lemma event_ok_update:
  assumes "event_ok R n P F" and "k < length P" and "P ! k \<notin> {Elected, Finished}" and "w \<noteq> Elected"
  shows "event_ok R n (P[k := w]) F"
proof -
  have "elected (P[k := w]) = elected P" using assms(2-4) by (simp add: elected_same)
  moreover have "P[k := w] ! i = Finished" if "P ! i = Finished" for i
    using that assms(2,3) by (cases "i = k") auto
  ultimately show ?thesis using assms(1) unfolding event_ok_def by metis
qed

lemma event_ok_elect:
  "elected P = {} \<Longrightarrow> k < length P \<Longrightarrow> k < n \<Longrightarrow> R k = Some r \<Longrightarrow> event_ok R n (P[k := Elected]) []"
  by (auto simp: event_ok_def elected_update intro!: exI [of _ k])

lemma event_ok_elected:
  assumes "event_ok R n P F" and "k < length P" and "k < n" and "P ! k = Elected" and "R k = Some r"
  shows "F = []" and "event_ok R n (P[k := Finished]) [r]"
proof -
  have "k \<in> elected P" using assms(2,4) by (simp add: elected_def)
  with assms(1) have "elected P = {k}" "F = []" by (auto simp: event_ok_def)
  then show "F = []" "event_ok R n (P[k := Finished]) [r]"
    using assms by (auto simp: event_ok_def elected_update intro!: exI [of _ k])
qed

lemma event_ok_finished:
  assumes "event_ok R n P F" and "elected P = {}"
  obtains i r where "i < n" "R i = Some r" "F = [r]"
  using assms by (auto simp: event_ok_def)

text \<open>The outcome a failed argument, or one with a value, gives to the combined future.\<close>

definition failure_of :: "('e + 'v) list \<Rightarrow> nat \<Rightarrow> ('e + 'v option list \<times> nat) option" where
  "failure_of outs i = (case outs ! i of Inl e \<Rightarrow> Some (Inl e) | Inr v \<Rightarrow> None)"

definition value_of :: "('e + 'v) list \<Rightarrow> nat \<Rightarrow> ('e + 'v option list \<times> nat) option" where
  "value_of outs i = (case outs ! i of Inl e \<Rightarrow> None | Inr v \<Rightarrow> Some (Inr ([Some v], i)))"

lemma failure_of_Some: "failure_of outs i = Some r \<longleftrightarrow> (\<exists>e. outs ! i = Inl e \<and> r = Inl e)"
  by (auto simp: failure_of_def split: sum.splits)

lemma value_of_Some: "value_of outs i = Some r \<longleftrightarrow> (\<exists>v. outs ! i = Inr v \<and> r = Inr ([Some v], i))"
  by (auto simp: value_of_def split: sum.splits)

lemma not_value: "\<not> is_value r \<longleftrightarrow> (\<exists>e. r = Inl e)"
  by (simp add: is_value_def split: sum.splits)

definition all_fired :: "('e + 'v) list \<Rightarrow> ('v, 'e) ctx \<Rightarrow> bool" where
  "all_fired outs s \<longleftrightarrow>
     (if c_event s then event_ok (failure_of outs) (length outs) (c_pcs s) (c_fired s)
      else c_exception s = None \<and> elected (c_pcs s) = {} \<and>
        c_fired s = (if c_remaining s = 0 then [Inr (c_results s, 0)] else []))"

definition all_inv :: "('e + 'v) list \<Rightarrow> ('v, 'e) ctx \<Rightarrow> bool" where
  "all_inv outs s \<longleftrightarrow>
     length (c_pcs s) = length outs \<and> length (c_results s) = length outs \<and> c_index s = 0 \<and>
     c_remaining s = card (uncounted outs (c_pcs s)) \<and>
     (\<forall>i < length outs. arg_ok outs s i) \<and> all_fired outs s"

lemma all_inv_holds [simp]: "all_inv outs (set_pc i w (s\<lparr>c_holds := h\<rparr>)) = all_inv outs (set_pc i w s)"
  by (simp add: all_inv_def arg_ok_def all_fired_def set_pc_def cong: sum.case_cong)

lemma all_invD:
  assumes "all_inv outs s"
  shows "length (c_pcs s) = length outs" "length (c_results s) = length outs" "c_index s = 0"
    "c_remaining s = card (uncounted outs (c_pcs s))"
    "i < length outs \<Longrightarrow> arg_ok outs s i" "all_fired outs s"
  using assms by (simp_all add: all_inv_def)

lemma uncounted_pos:
  "i < length outs \<Longrightarrow> P ! i \<noteq> Finished \<Longrightarrow> 0 < card (uncounted outs P)"
  by (rule uncounted_card(1) [of i]) (simp add: uncounted_def)

text \<open>A failed argument is never counted.\<close>

lemma failed_uncounted:
  assumes "event_ok (failure_of outs) (length outs) P F" and "is_value (outs ! i)"
  shows "0 < card (uncounted outs P - {i})"
proof -
  from assms obtain k e where "k < length outs" "outs ! k = Inl e" by (auto simp: event_ok_def failure_of_Some)
  then have "k \<in> uncounted outs P - {i}" "finite (uncounted outs P - {i})"
    using assms(2) by (auto simp: uncounted_def)
  then show ?thesis by (auto simp: card_gt_0_iff)
qed

text \<open>The four kinds of steps of a continuation keep the invariant.\<close>

lemma value_stored:
  assumes "all_inv outs s" and "i < length outs" and "c_pcs s ! i = Not_Run" and "outs ! i = Inr v"
  shows "all_inv outs (set_pc i Stored (context_apply False i (Inr v) s))" (is "all_inv outs ?s")
proof -
  note D = all_invD [OF assms(1)]
  have "arg_ok outs ?s k" if "k < length outs" for k
    using D(5) [OF that] assms(2,4) D(1,2) that by (auto simp: arg_ok_def set_pc_def nth_list_update split: sum.splits)
  moreover have "all_fired outs ?s"
    using D assms(2,3) uncounted_pos [of i outs "c_pcs s"] event_ok_update [of "failure_of outs" "length outs" "c_pcs s" "c_fired s" i Stored]
    by (auto simp: all_fired_def set_pc_def elected_same)
  ultimately show ?thesis using D assms by (simp add: all_inv_def set_pc_def uncounted_update)
qed

lemma failure_elects:
  assumes "all_inv outs s" and "i < length outs" and "c_pcs s ! i = Not_Run" and "outs ! i = Inl e"
  shows "all_inv outs (set_pc i (if c_event s then Finished else Elected) (s\<lparr>c_event := True\<rparr>))" (is "all_inv outs ?s")
proof -
  note D = all_invD [OF assms(1)]
  have "arg_ok outs ?s k" if "k < length outs" for k
    using D(5) [OF that] assms(2,4) D(1) that by (auto simp: arg_ok_def set_pc_def nth_list_update split: sum.splits)
  moreover have "all_fired outs ?s"
  proof (cases "c_event s")
    case True
    then show ?thesis using D assms(2,3) event_ok_update [of "failure_of outs" "length outs" "c_pcs s" "c_fired s" i Finished]
      by (auto simp: all_fired_def set_pc_def)
  next
    case False
    then have "elected (c_pcs s) = {}" "c_fired s = []"
      using D uncounted_pos [OF assms(2), of "c_pcs s"] assms(3) by (auto simp: all_fired_def)
    then show ?thesis using False assms(2,4) D(1) by (simp add: all_fired_def set_pc_def event_ok_elect failure_of_Some)
  qed
  ultimately show ?thesis using D assms by (simp add: all_inv_def set_pc_def uncounted_update)
qed

lemma value_counted:
  assumes "all_inv outs s" and "i < length outs" and "c_pcs s ! i = Stored" and "outs ! i = Inr v"
    and "t = count_down (set_pc i Finished s)"
  shows "all_inv outs (if c_remaining t = 0 then fire context_execute t else t)" (is "all_inv outs ?s")
proof -
  note D = all_invD [OF assms(1)]
  have pos: "0 < c_remaining s" using D uncounted_pos [OF assms(2), of "c_pcs s"] assms(3) by simp
  have un: "uncounted outs (c_pcs t) = uncounted outs (c_pcs s) - {i}" and pcs: "c_pcs t = (c_pcs s)[i := Finished]"
    using assms D(1) by (simp_all add: pc_defs uncounted_update)
  moreover have "i \<in> uncounted outs (c_pcs s)" using assms(2,3) by (simp add: uncounted_def)
  ultimately have rem: "c_remaining t = card (uncounted outs (c_pcs t))"
    using D(4) uncounted_card(2) by (simp add: assms(5) pc_defs)
  have "arg_ok outs t k" if "k < length outs" for k
    using D(5) [OF that] assms(2,3,4) D(1) that
    by (auto simp: assms(5) arg_ok_def pc_defs nth_list_update split: sum.splits)
  then have arg: "arg_ok outs ?s k" if "k < length outs" for k
    using that by (simp add: arg_ok_def fire_def cong: sum.case_cong)
  have "all_fired outs ?s"
  proof (cases "c_event s")
    case True
    then have ev: "event_ok (failure_of outs) (length outs) (c_pcs s) (c_fired s)" using D(6) by (simp add: all_fired_def)
    then have "c_remaining t \<noteq> 0" using failed_uncounted [OF ev, of i] assms(4) rem un by simp
    then show ?thesis using True event_ok_update [OF ev, of i Finished] assms(2,3,5) D(1)
      by (simp add: all_fired_def pc_defs)
  next
    case False
    then show ?thesis using D pos assms(2,3,5)
      by (simp add: all_fired_def context_execute_def pc_defs elected_same)
  qed
  with arg rem D show ?thesis by (simp add: all_inv_def) (simp add: assms(5) pc_defs)
qed

lemma elected_fires:
  assumes "all_inv outs s" and "i < length outs" and "c_pcs s ! i = Elected" and "outs ! i = Inl e"
  shows "all_inv outs (fire context_execute (context_apply False i (Inl e) (set_pc i Finished s)))" (is "all_inv outs ?s")
proof -
  note D = all_invD [OF assms(1)]
  have event: "c_event s" using D(5) [OF assms(2)] assms(3,4) by (simp add: arg_ok_def)
  have "arg_ok outs ?s k" if "k < length outs" for k
    using D(5) [OF that] assms(2,4) D(1) that event
    by (auto simp: arg_ok_def pc_defs nth_list_update split: sum.splits)
  moreover have "all_fired outs ?s"
    using D(1,6) event event_ok_elected [of "failure_of outs" "length outs" "c_pcs s" "c_fired s" i "Inl e"] assms(2-4)
    by (simp add: all_fired_def context_execute_def pc_defs failure_of_Some)
  ultimately show ?thesis using D assms by (simp add: all_inv_def) (simp add: pc_defs uncounted_update)
qed

lemma event_set: "c_event s \<Longrightarrow> s\<lparr>c_event := True\<rparr> = s"
  by (cases s) simp

lemma all_inv_step:
  assumes "all_inv outs s"
  shows "all_inv outs (when_all_step outs i s)"
proof (cases "i < length outs")
  case True
  note D = all_invD [OF assms]
  note step = when_all_step_def attach_step_def trigger_rest_def
  show ?thesis
  proof (cases "c_pcs s ! i")
    case Not_Run
    then show ?thesis using True D(1) value_stored [OF assms True Not_Run] failure_elects [OF assms True Not_Run]
      by (cases "outs ! i"; cases "c_event s") (simp_all add: step event_set)
  next
    case Stored
    then show ?thesis using True D(1) D(5) [OF True] value_counted [OF assms True Stored _ refl]
      by (cases "outs ! i") (simp_all add: step Let_def arg_ok_def)
  next
    case Elected
    then show ?thesis using True D(1) D(5) [OF True] elected_fires [OF assms True Elected]
      by (cases "outs ! i") (simp_all add: step arg_ok_def)
  next
    case Finished
    then show ?thesis using True D(1) assms by (simp add: step)
  qed
qed (use assms in \<open>simp add: when_all_step_def attach_step_def all_inv_def\<close>)

lemma all_inv_run:
  assumes "outs \<noteq> []"
  shows "all_inv outs (when_all_run outs is)"
proof -
  have "uncounted outs (replicate (length outs) Not_Run) = {..<length outs}" by (auto simp: uncounted_def)
  then have "all_inv outs (common_context (length outs) (length outs))"
    using assms by (auto simp: all_inv_def common_context_def arg_ok_def all_fired_def elected_def split: sum.splits)
  moreover have "all_inv outs s \<Longrightarrow> all_inv outs (fold (when_all_step outs) is s)" for s
    by (induction "is" arbitrary: s) (simp_all add: all_inv_step)
  ultimately show ?thesis by (simp add: when_all_run_def)
qed

text \<open>
  C15. \<open>when_all\<close> calls its packaged task exactly once, whatever the order and interleaving in which its
  arguments become ready: never twice, and when the continuation of every argument has made its two
  moves or been cancelled it has been called, with all values in the order of the arguments when every argument has a value, and
  with the exception of one that failed otherwise.
\<close>
theorem when_all_once:
  assumes "outs \<noteq> []"
  shows "length (c_fired (when_all_run outs is)) \<le> 1 \<and>
    ((\<forall>i < length outs. 2 \<le> count_list is i \<or> cancelled (when_all_run outs is) i) \<longrightarrow>
      (if list_all is_value outs
       then c_fired (when_all_run outs is) = [Inr (map (\<lambda>r. case r of Inr v \<Rightarrow> Some v | Inl e \<Rightarrow> None) outs, 0)]
       else \<exists>e. Inl e \<in> set outs \<and> c_fired (when_all_run outs is) = [Inl e]))"
proof -
  define s where "s = when_all_run outs is"
  note D = all_invD [OF all_inv_run [OF assms, of "is"], folded s_def]
  have len: "length (c_fired s) \<le> 1" using D(6) by (auto simp: all_fired_def event_ok_def split: if_splits)
  have "if list_all is_value outs
      then c_fired s = [Inr (map (\<lambda>r. case r of Inr v \<Rightarrow> Some v | Inl e \<Rightarrow> None) outs, 0)]
      else \<exists>e. Inl e \<in> set outs \<and> c_fired s = [Inl e]"
    if over: "\<forall>i < length outs. 2 \<le> count_list is i \<or> cancelled s i"
  proof (cases "c_event s")
    case True
    then have "event_ok (failure_of outs) (length outs) (c_pcs s) (c_fired s)" using D(6) by (simp add: all_fired_def)
    moreover have "elected (c_pcs s) = {}"
      using attach_run_over(1) [OF _ over] D(1) by (auto simp: elected_def s_def when_all_run_def when_all_step_def)
    ultimately obtain k r where k: "k < length outs" "failure_of outs k = Some r" "c_fired s = [r]"
      by (rule event_ok_finished)
    then show ?thesis by (auto simp: failure_of_Some in_set_conv_nth list_all_length)
  next
    case False
    have fin: "c_pcs s ! i = Finished" if "i < length outs" for i
      using attach_run_over(2) [OF _ over that False] by (simp add: s_def when_all_run_def when_all_step_def)
    have v: "is_value (outs ! i) \<and> c_results s ! i = (case outs ! i of Inr v \<Rightarrow> Some v | Inl e \<Rightarrow> None)"
      if "i < length outs" for i
      using D(5) [OF that] fin [OF that] False by (auto simp: arg_ok_def split: sum.splits)
    then have "uncounted outs (c_pcs s) = {}" using fin by (auto simp: uncounted_def)
    moreover have "c_results s = map (\<lambda>r. case r of Inr v \<Rightarrow> Some v | Inl e \<Rightarrow> None) outs"
      by (rule nth_equalityI) (use D(2) v in auto)
    ultimately show ?thesis using False v D(4,6) by (simp add: all_fired_def list_all_length)
  qed
  with len show ?thesis unfolding s_def by blast
qed

theorem when_all_once_witness:
  "c_fired (when_all_run [Inr (4::nat), Inr 5] [1, 0, 0, 1]) = [(Inr ([Some 4, Some 5], 0) :: string + _)] \<and>
   c_fired (when_all_run [Inr (4::nat), Inl ''e''] [1, 1]) = [Inl ''e'']"
proof -
  have "cancelled (when_all_run [Inr (4::nat), Inl ''e''] [1, 1]) 0" by code_simp
  then show ?thesis
    using when_all_once [of "[Inr (4::nat), (Inr 5 :: string + nat)]" "[1, 0, 0, 1]"]
      when_all_once [of "[Inr (4::nat), Inl ''e'']" "[1, 1]"]
    by (auto simp: less_Suc_eq)
qed

text \<open>
  A fixed number of arguments (\<open>when_all_shared\<close>): \<open>done\<close> and \<open>failure\<close> do what \<open>all_trigger\<close> and
  \<open>single_trigger\<close> do, and the function of the packaged task looks for a missing argument instead of
  an exception. The place of a failed argument stays empty, so the two agree.
\<close>

definition failed_empty :: "('e + 'v) list \<Rightarrow> ('v, 'e) ctx \<Rightarrow> bool" where
  "failed_empty outs s \<longleftrightarrow> (\<forall>i < length outs. \<not> is_value (outs ! i) \<longrightarrow> c_results s ! i = None)"

lemma context_apply_results:
  "c_results (context_apply False i r s) = (case r of Inr v \<Rightarrow> (c_results s)[i := Some v] | Inl e \<Rightarrow> c_results s)"
  by (cases r) simp_all

lemma failed_other: "outs ! i = Inr v \<Longrightarrow> \<not> is_value (outs ! k) \<Longrightarrow> xs[i := y] ! k = xs ! k"
  by (cases "k = i") auto

lemma failed_empty_step: "failed_empty outs s \<Longrightarrow> failed_empty outs (when_all_step outs i s)"
  unfolding failed_empty_def when_all_step_def attach_step_def trigger_rest_def
  by (cases "outs ! i")
    (auto simp: pc_defs Let_def failed_other context_apply_results split: apc.splits)

lemma failed_empty_run: "failed_empty outs (when_all_run outs is)"
proof -
  have "failed_empty outs (common_context (length outs) (length outs))"
    by (simp add: failed_empty_def common_context_def)
  moreover have "failed_empty outs s \<Longrightarrow> failed_empty outs (fold (when_all_step outs) is s)" for s
    by (induction "is" arbitrary: s) (simp_all add: failed_empty_step)
  ultimately show ?thesis by (simp add: when_all_run_def)
qed

lemma fired_grows:
  assumes "c_fired (when_all_step outs i s) = c_fired s @ [r]"
  shows "context_execute (when_all_step outs i s) = r"
proof -
  have "context_execute (fire context_execute t) = context_execute t" for t :: "('a, 'b) ctx"
    by (simp add: context_execute_def fire_def cong: option.case_cong)
  moreover have "c_fired (trigger_go T False i q s) = c_fired s" for T q
    by (cases T; cases q) (simp_all add: set_pc_def count_down_def Let_def)
  moreover have "c_fired (context_apply False i q t) = c_fired t" for q t by (cases q) simp_all
  ultimately show ?thesis using assms
    by (auto simp: when_all_step_def attach_step_def trigger_rest_def fire_def count_down_def set_pc_def Let_def
        split: if_splits apc.splits) (auto simp: context_execute_def split: option.splits)
qed

text \<open>
  \<open>when_all\<close> over a fixed number of arguments gives what \<open>when_all\<close> over a range gives: whenever the
  packaged task is called, the test for a missing argument and the test for an exception lead to the
  same outcome, and there is an exception to rethrow when an argument is missing.
\<close>
theorem when_all_args_agree:
  assumes "outs \<noteq> []" and "c_fired (when_all_run outs (is @ [i])) = c_fired (when_all_run outs is) @ [r]"
  shows "apply_when_all_args (when_all_run outs (is @ [i])) = Some r"
proof -
  define s where "s = when_all_run outs (is @ [i])"
  have step: "s = when_all_step outs i (when_all_run outs is)" by (simp add: s_def when_all_run_def)
  have r: "context_execute s = r" using fired_grows [of outs i "when_all_run outs is" r] assms(2) by (simp add: s_def step [unfolded s_def])
  have fired: "r \<in> set (c_fired s)" using assms(2) by (simp add: s_def)
  note D = all_invD [OF all_inv_run [OF assms(1), of "is @ [i]"], folded s_def]
  have empty: "failed_empty outs s" unfolding s_def by (rule failed_empty_run)
  show ?thesis unfolding s_def [symmetric]
  proof (cases "c_event s")
    case True
    then have "event_ok (failure_of outs) (length outs) (c_pcs s) (c_fired s)" using D(6) by (simp add: all_fired_def)
    with fired obtain k e where k: "k < length outs" "outs ! k = Inl e" "r = Inl e"
      by (auto simp: event_ok_def failure_of_Some)
    then have "c_results s ! k = None" using empty by (simp add: failed_empty_def)
    then have "None \<in> set (c_results s)" using k(1) D(2) by (metis nth_mem)
    then show "apply_when_all_args s = Some r" using r k(3)
      by (auto simp: apply_when_all_args_def context_execute_def split: option.splits)
  next
    case False
    then have z: "c_remaining s = 0" "c_exception s = None" using D(6) fired by (auto simp: all_fired_def split: if_splits)
    have fin: "is_value (outs ! k) \<and> c_pcs s ! k = Finished" if "k < length outs" for k
    proof (rule ccontr)
      assume "\<not> (is_value (outs ! k) \<and> c_pcs s ! k = Finished)"
      then have "k \<in> uncounted outs (c_pcs s)" using that by (simp add: uncounted_def)
      from uncounted_card(1) [OF this] z(1) D(4) show False by simp
    qed
    have "c_results s ! k \<noteq> None" if "k < length outs" for k
      using fin [OF that] D(5) [OF that] by (auto simp: arg_ok_def split: sum.splits)
    then have "None \<notin> set (c_results s)" using D(2) by (auto simp: in_set_conv_nth)
    then show "apply_when_all_args s = Some r" using r z(2)
      by (simp add: apply_when_all_args_def context_execute_def)
  qed
qed

theorem when_all_args_agree_witness:
  "apply_when_all_args (when_all_run [Inr (4::nat), Inl ''e''] [0, 1, 1]) = Some (Inl ''e'')"
proof -
  have "c_fired (when_all_run [Inr (4::nat), Inl ''e''] ([0, 1] @ [1])) =
      c_fired (when_all_run [Inr (4::nat), Inl ''e''] [0, 1]) @ [Inl ''e'']"
    by (simp add: when_all_run_def common_context_def when_all_step_def attach_step_def trigger_rest_def
        pc_defs Let_def numeral_2_eq_2 context_execute_def)
  from when_all_args_agree [OF _ this] show ?thesis by simp
qed

section \<open>when_any\<close>

text \<open>The arguments that have not failed; those with a value stay in the set for ever.\<close>

definition unfailed :: "('e + 'v) list \<Rightarrow> apc list \<Rightarrow> nat set" where
  "unfailed outs P = {i. i < length outs \<and> (is_value (outs ! i) \<or> P ! i = Not_Run)}"

lemma unfailed_update:
  assumes "i < length outs" and "length P = length outs" and "w \<noteq> Not_Run"
  shows "unfailed outs (P[i := w]) = (if is_value (outs ! i) then unfailed outs P else unfailed outs P - {i})"
  using assms by (auto simp: unfailed_def nth_list_update)

lemma unfailed_card:
  assumes "i \<in> unfailed outs P"
  shows "0 < card (unfailed outs P)" and "card (unfailed outs P - {i}) = card (unfailed outs P) - 1"
proof -
  have "finite (unfailed outs P)" by (simp add: unfailed_def)
  with assms show "0 < card (unfailed outs P)" "card (unfailed outs P - {i}) = card (unfailed outs P) - 1"
    by (auto simp: card_gt_0_iff)
qed

text \<open>
  With the event an argument with a value is or was elected; without it, when all have failed, the
  last to fail; before that nothing has happened.
\<close>

definition any_fired :: "('e + 'v) list \<Rightarrow> ('v, 'e) ctx \<Rightarrow> bool" where
  "any_fired outs s \<longleftrightarrow>
     (if c_event s then c_exception s = None \<and> event_ok (value_of outs) (length outs) (c_pcs s) (c_fired s)
      else if c_remaining s = 0 then event_ok (failure_of outs) (length outs) (c_pcs s) (c_fired s)
      else c_exception s = None \<and> elected (c_pcs s) = {} \<and> c_fired s = [])"

definition any_inv :: "('e + 'v) list \<Rightarrow> ('v, 'e) ctx \<Rightarrow> bool" where
  "any_inv outs s \<longleftrightarrow>
     length (c_pcs s) = length outs \<and> c_remaining s = card (unfailed outs (c_pcs s)) \<and>
     (\<forall>i < length outs. c_pcs s ! i \<noteq> Stored \<and> (is_value (outs ! i) \<and> c_pcs s ! i \<noteq> Not_Run \<longrightarrow> c_event s)) \<and>
     any_fired outs s"

lemma any_inv_holds [simp]: "any_inv outs (set_pc i w (s\<lparr>c_holds := h\<rparr>)) = any_inv outs (set_pc i w s)"
  by (simp add: any_inv_def any_fired_def set_pc_def)

lemma any_invD:
  assumes "any_inv outs s"
  shows "length (c_pcs s) = length outs" "c_remaining s = card (unfailed outs (c_pcs s))"
    "i < length outs \<Longrightarrow> c_pcs s ! i \<noteq> Stored"
    "i < length outs \<Longrightarrow> is_value (outs ! i) \<Longrightarrow> c_pcs s ! i \<noteq> Not_Run \<Longrightarrow> c_event s" "any_fired outs s"
  using assms by (simp_all add: any_inv_def)

lemma value_remains:
  assumes "any_inv outs s" and "i < length outs" and "is_value (outs ! i)"
  shows "0 < c_remaining s"
  using any_invD(2) [OF assms(1)] unfailed_card(1) [of i outs "c_pcs s"] assms(2,3) by (simp add: unfailed_def)

lemma event_value:
  assumes "any_inv outs s" and "c_event s"
  obtains i where "i < length outs" "is_value (outs ! i)"
  using any_invD(5) [OF assms(1)] assms(2) by (auto simp: any_fired_def event_ok_def value_of_Some)

lemma value_elects:
  assumes "any_inv outs s" and "i < length outs" and "c_pcs s ! i = Not_Run" and "outs ! i = Inr v"
  shows "any_inv outs (set_pc i (if c_event s then Finished else Elected) (s\<lparr>c_event := True\<rparr>))" (is "any_inv outs ?s")
proof -
  note D = any_invD [OF assms(1)]
  have "any_fired outs ?s"
  proof (cases "c_event s")
    case True
    then show ?thesis using D assms(2,3) event_ok_update [of "value_of outs" "length outs" "c_pcs s" "c_fired s" i Finished]
      by (auto simp: any_fired_def set_pc_def)
  next
    case False
    then show ?thesis using D(1,5) value_remains [OF assms(1,2)] assms(2,4)
      by (simp add: any_fired_def set_pc_def event_ok_elect value_of_Some)
  qed
  then show ?thesis using D assms(2-4)
    by (auto simp: any_inv_def set_pc_def unfailed_update nth_list_update)
qed

lemma failure_counted:
  assumes "any_inv outs s" and "i < length outs" and "c_pcs s ! i = Not_Run" and "outs ! i = Inl e"
    and "t = count_down s"
  shows "any_inv outs (set_pc i (if c_remaining t = 0 then Elected else Finished) t)" (is "any_inv outs ?s")
proof -
  note D = any_invD [OF assms(1)]
  have i: "i \<in> unfailed outs (c_pcs s)" using assms(2,3) by (simp add: unfailed_def)
  have un: "unfailed outs (c_pcs ?s) = unfailed outs (c_pcs s) - {i}"
    using assms D(1) by (simp add: set_pc_def count_down_def unfailed_update)
  then have rem: "c_remaining ?s = card (unfailed outs (c_pcs ?s))" "c_remaining ?s = c_remaining t"
    using D(2) unfailed_card(2) [OF i] by (simp_all add: assms(5) pc_defs)
  have pos: "0 < c_remaining s" using D(2) unfailed_card(1) [OF i] by simp
  have "any_fired outs ?s"
  proof (cases "c_event s")
    case True
    with assms(1) obtain k where k: "k < length outs" "is_value (outs ! k)" by (rule event_value)
    then have "k \<in> unfailed outs (c_pcs ?s)" using un assms(4) by (auto simp: unfailed_def)
    then have "c_remaining t \<noteq> 0" using rem unfailed_card(1) [of k outs "c_pcs ?s"] by simp
    then show ?thesis using True D assms(2,3,5) event_ok_update [of "value_of outs" "length outs" "c_pcs s" "c_fired s" i Finished]
      by (simp add: any_fired_def pc_defs)
  next
    case False
    then show ?thesis using D(1,5) pos assms(2,3,4,5)
      by (simp add: any_fired_def pc_defs elected_same event_ok_elect failure_of_Some)
  qed
  moreover have "c_pcs ?s ! k \<noteq> Stored \<and> (is_value (outs ! k) \<and> c_pcs ?s ! k \<noteq> Not_Run \<longrightarrow> c_event ?s)" if "k < length outs" for k
    using D(1) D(3,4) [OF that] assms(2,4,5) by (auto simp: pc_defs nth_list_update)
  moreover have "length (c_pcs ?s) = length outs" using D(1) assms(5) by (simp add: pc_defs)
  ultimately show ?thesis using rem(1) by (simp add: any_inv_def)
qed

lemma any_elected_fires:
  assumes "any_inv outs s" and "i < length outs" and "c_pcs s ! i = Elected"
  shows "any_inv outs (fire context_execute (context_apply True i (outs ! i) (set_pc i Finished s)))" (is "any_inv outs ?s")
proof -
  note D = any_invD [OF assms(1)]
  have i: "i \<in> elected (c_pcs s)" using assms(2,3) D(1) by (simp add: elected_def)
  have "any_fired outs ?s"
  proof (cases "outs ! i")
    case (Inr v)
    then have ev: "c_event s" using D(4) [OF assms(2)] assms(3) by simp
    then show ?thesis
      using D(1,5) event_ok_elected [of "value_of outs" "length outs" "c_pcs s" "c_fired s" i "Inr ([Some v], i)"] assms(2,3) Inr
      by (simp add: any_fired_def context_execute_def pc_defs value_of_Some)
  next
    case (Inl e)
    have "\<not> c_event s"
    proof
      assume "c_event s"
      then have "event_ok (value_of outs) (length outs) (c_pcs s) (c_fired s)" using D(5) by (simp add: any_fired_def)
      with i Inl show False by (auto simp: event_ok_def value_of_Some)
    qed
    moreover from this have "c_remaining s = 0" using D(5) i by (auto simp: any_fired_def split: if_splits)
    ultimately show ?thesis
      using D(1,5) event_ok_elected [of "failure_of outs" "length outs" "c_pcs s" "c_fired s" i "Inl e"] assms(2,3) Inl
      by (simp add: any_fired_def context_execute_def pc_defs failure_of_Some)
  qed
  moreover have "c_pcs ?s = (c_pcs s)[i := Finished]" "c_remaining ?s = c_remaining s" "c_event ?s = c_event s"
    by (cases "outs ! i"; simp add: pc_defs)+
  moreover have "unfailed outs ((c_pcs s)[i := Finished]) = unfailed outs (c_pcs s)"
    using assms(2,3) D(1) by (auto simp: unfailed_def nth_list_update)
  ultimately show ?thesis using D assms(2,3) by (auto simp: any_inv_def nth_list_update)
qed

lemma any_inv_step:
  assumes "any_inv outs s"
  shows "any_inv outs (when_any_step outs i s)"
proof (cases "i < length outs")
  case True
  note D = any_invD [OF assms]
  note step = when_any_step_def attach_step_def trigger_rest_def
  show ?thesis
  proof (cases "c_pcs s ! i")
    case Not_Run
    show ?thesis
    proof (cases "outs ! i")
      case (Inr v)
      then show ?thesis using True Not_Run D(1) value_elects [OF assms True Not_Run Inr]
        by (cases "c_event s") (simp_all add: step event_set)
    next
      case (Inl e)
      then show ?thesis using True Not_Run D(1) failure_counted [OF assms True Not_Run Inl refl]
        by (simp add: step Let_def split: if_splits)
    qed
  next
    case Stored
    then show ?thesis using D(3) [OF True] by simp
  next
    case Elected
    then show ?thesis using True D(1) any_elected_fires [OF assms True Elected] by (simp add: step)
  next
    case Finished
    then show ?thesis using True D(1) assms by (simp add: step)
  qed
qed (use assms in \<open>simp add: when_any_step_def attach_step_def any_inv_def\<close>)

lemma any_inv_run:
  assumes "outs \<noteq> []"
  shows "any_inv outs (when_any_run outs is)"
proof -
  have "unfailed outs (replicate (length outs) Not_Run) = {..<length outs}" by (auto simp: unfailed_def)
  then have "any_inv outs (common_context 1 (length outs))"
    using assms by (simp add: any_inv_def common_context_def any_fired_def elected_def)
  moreover have "any_inv outs s \<Longrightarrow> any_inv outs (fold (when_any_step outs) is s)" for s
    by (induction "is" arbitrary: s) (simp_all add: any_inv_step)
  ultimately show ?thesis by (simp add: when_any_run_def)
qed

text \<open>
  \<open>when_any\<close> calls its packaged task exactly once: never twice, and when the continuation of every
  argument has made its two moves or been cancelled it has been called, with the value and the index of an argument that has a
  value when there is one, and with the exception of one of the arguments when all have failed.
\<close>
theorem when_any_once:
  assumes "outs \<noteq> []"
  shows "length (c_fired (when_any_run outs is)) \<le> 1 \<and>
    ((\<forall>i < length outs. 2 \<le> count_list is i \<or> cancelled (when_any_run outs is) i) \<longrightarrow>
      (if list_ex is_value outs
       then \<exists>i v. i < length outs \<and> outs ! i = Inr v \<and> c_fired (when_any_run outs is) = [Inr ([Some v], i)]
       else \<exists>e. Inl e \<in> set outs \<and> c_fired (when_any_run outs is) = [Inl e]))"
proof -
  define s where "s = when_any_run outs is"
  have inv: "any_inv outs s" unfolding s_def by (rule any_inv_run [OF assms])
  note D = any_invD [OF inv]
  have len: "length (c_fired s) \<le> 1" using D(5) by (auto simp: any_fired_def event_ok_def split: if_splits)
  have "if list_ex is_value outs
      then \<exists>i v. i < length outs \<and> outs ! i = Inr v \<and> c_fired s = [Inr ([Some v], i)]
      else \<exists>e. Inl e \<in> set outs \<and> c_fired s = [Inl e]"
    if over: "\<forall>i < length outs. 2 \<le> count_list is i \<or> cancelled s i"
  proof -
    have el: "elected (c_pcs s) = {}"
      using attach_run_over(1) [OF _ over] D(1) by (auto simp: elected_def s_def when_any_run_def when_any_step_def)
    show ?thesis
    proof (cases "c_event s")
      case True
      then have "event_ok (value_of outs) (length outs) (c_pcs s) (c_fired s)" using D(5) by (simp add: any_fired_def)
      then obtain k r where "k < length outs" "value_of outs k = Some r" "c_fired s = [r]"
        using el by (rule event_ok_finished)
      then show ?thesis by (auto simp: value_of_Some list_ex_length)
    next
      case False
      have fin: "c_pcs s ! i = Finished" if "i < length outs" for i
        using attach_run_over(2) [OF _ over that False] by (simp add: s_def when_any_run_def when_any_step_def)
      then have no: "\<not> list_ex is_value outs" using D(4) False by (force simp: list_ex_length)
      then have "unfailed outs (c_pcs s) = {}" using fin by (auto simp: unfailed_def list_ex_length)
      then have "event_ok (failure_of outs) (length outs) (c_pcs s) (c_fired s)"
        using D(2,5) False by (simp add: any_fired_def)
      then obtain k r where "k < length outs" "failure_of outs k = Some r" "c_fired s = [r]"
        using el by (rule event_ok_finished)
      then show ?thesis using no by (auto simp: failure_of_Some in_set_conv_nth)
    qed
  qed
  with len show ?thesis unfolding s_def by blast
qed

theorem when_any_once_witness:
  "c_fired (when_any_run [Inl ''a'', Inl ''b''] [1, 0, 0, 1]) = [(Inl ''a'' :: string + nat option list \<times> nat)] \<or>
   c_fired (when_any_run [Inl ''a'', Inl ''b''] [1, 0, 0, 1]) = [(Inl ''b'' :: string + nat option list \<times> nat)]"
  using when_any_once [of "[Inl ''a'', Inl ''b'' :: string + nat]" "[1, 0, 0, 1]"] by (auto simp: less_Suc_eq)

end
