(* ===== verification/Channel_Queues.thy ===== *)
theory Channel_Queues
  imports Prelude
begin

text \<open>
  The queues in front of the processes of stlab's channels
  (\<^verbatim>\<open>deps/clean_stlab_trash/concurrency/channel.hpp\<close>): one deque of messages per upstream process, and four
  strategies that decide which messages a process receives next: the only queue, one message of each
  queue (\<open>zip_with\<close>), the queues in turn (\<open>round_robin\<close>), any queue that has one (\<open>unordered\<close>). A
  message is an argument or an exception.
\<close>

section \<open>Tuples indexed at run time\<close>

fun tuple_find_impl :: "('a \<Rightarrow> bool) \<Rightarrow> 'a list \<Rightarrow> nat" where
  "tuple_find_impl P [] = 0"
| "tuple_find_impl P (x # xs) = (if P x then 0 else Suc (tuple_find_impl P xs))"

definition tuple_find :: "('a \<Rightarrow> bool) \<Rightarrow> 'a list \<Rightarrow> nat" where
  "tuple_find P xs = (if xs = [] then 1 else tuple_find_impl P xs)"

definition get_i :: "'a list \<Rightarrow> nat \<Rightarrow> ('a \<Rightarrow> 'b) \<Rightarrow> 'b \<Rightarrow> 'b" where
  "get_i xs i f d = (if i < length xs then f (xs ! i) else d)"

definition void_i :: "'a list \<Rightarrow> nat \<Rightarrow> ('a \<Rightarrow> 'a) \<Rightarrow> 'a list" where
  "void_i xs i f = (if i < length xs then xs[i := f (xs ! i)] else xs)"

section \<open>The strategies\<close>

text \<open>
  The members of a strategy; \<open>qs_index\<close> and \<open>qs_popped\<close> are \<open>_index\<close> and \<open>_popped_index\<close> of the strategies
  that have them. \<open>front\<close> and \<open>pop_front\<close> of an empty deque are undefined behaviour.
\<close>

record ('a, 'e) qs =
  qs_queue :: "('e + 'a) list list"
  qs_index :: nat
  qs_popped :: nat

definition qs_init :: "nat \<Rightarrow> ('a, 'e) qs" where
  "qs_init n = \<lparr>qs_queue = replicate n [], qs_index = 0, qs_popped = 0\<rparr>"

fun deque_front :: "'a list \<Rightarrow> 'a res" where
  "deque_front [] = Inl Out_Of_Bounds"
| "deque_front (x # xs) = Inr x"

fun deque_pop :: "'a list \<Rightarrow> 'a list res" where
  "deque_pop [] = Inl Out_Of_Bounds"
| "deque_pop (x # xs) = Inr xs"

fun map_res :: "('a \<Rightarrow> 'b res) \<Rightarrow> 'a list \<Rightarrow> 'b list res" where
  "map_res f [] = Inr []"
| "map_res f (x # xs) = bindR (f x) (\<lambda>y. bindR (map_res f xs) (\<lambda>ys. Inr (y # ys)))"

definition qs_append :: "nat \<Rightarrow> 'e + 'a \<Rightarrow> ('a, 'e) qs \<Rightarrow> ('a, 'e) qs" where
  "qs_append i m s = s\<lparr>qs_queue := (qs_queue s)[i := qs_queue s ! i @ [m]]\<rparr>"

definition queue_size :: "nat \<Rightarrow> ('a, 'e) qs \<Rightarrow> 64 word" where
  "queue_size i s = of_nat (length (qs_queue s ! i))"

text \<open>Removing the front of queue \<open>i\<close>, at the index found by \<open>void_i\<close>.\<close>

definition qs_pop_at :: "nat \<Rightarrow> ('a, 'e) qs \<Rightarrow> ('a, 'e) qs res" where
  "qs_pop_at i s =
     bindR (arr_get (qs_queue s) i) (\<lambda>q. bindR (deque_pop q) (\<lambda>q'.
       Inr (s\<lparr>qs_queue := void_i (qs_queue s) i (\<lambda>_. q')\<rparr>)))"

text \<open>The sizes of the last two strategies: only that of the queue popped last counts.\<close>

definition popped_size :: "('a, 'e) qs \<Rightarrow> 64 word list" where
  "popped_size s =
     map (\<lambda>i. if i = qs_popped s then queue_size i s else -1) [0..<length (qs_queue s)]"

definition all_sizes :: "('a, 'e) qs \<Rightarrow> 64 word list" where
  "all_sizes s = map (\<lambda>q. of_nat (length q)) (qs_queue s)"

definition default_empty :: "('a, 'e) qs \<Rightarrow> bool" where
  "default_empty s = get_i (qs_queue s) 0 (\<lambda>q. q = []) True"

definition default_front :: "('a, 'e) qs \<Rightarrow> (('e + 'a) list \<times> ('a, 'e) qs) res" where
  "default_front s =
     bindR (arr_get (qs_queue s) 0) (\<lambda>q. bindR (deque_front q) (\<lambda>m. Inr ([m], s)))"

definition default_pop_front :: "('a, 'e) qs \<Rightarrow> ('a, 'e) qs res" where
  "default_pop_front s = qs_pop_at 0 s"

definition zip_empty :: "('a, 'e) qs \<Rightarrow> bool" where
  "zip_empty s = (tuple_find (\<lambda>q. q = []) (qs_queue s) \<noteq> length (qs_queue s))"

definition zip_front :: "('a, 'e) qs \<Rightarrow> (('e + 'a) list \<times> ('a, 'e) qs) res" where
  "zip_front s = bindR (map_res deque_front (qs_queue s)) (\<lambda>ms. Inr (ms, s))"

definition zip_pop_front :: "('a, 'e) qs \<Rightarrow> ('a, 'e) qs res" where
  "zip_pop_front s = bindR (map_res deque_pop (qs_queue s)) (\<lambda>Q. Inr (s\<lparr>qs_queue := Q\<rparr>))"

definition rr_empty :: "('a, 'e) qs \<Rightarrow> bool" where
  "rr_empty s = get_i (qs_queue s) (qs_index s) (\<lambda>q. q = []) True"

definition rr_front :: "('a, 'e) qs \<Rightarrow> (('e + 'a) list \<times> ('a, 'e) qs) res" where
  "rr_front s =
     bindR (arr_get (qs_queue s) (qs_index s)) (\<lambda>q. bindR (deque_front q) (\<lambda>m. Inr ([m], s)))"

definition rr_pop_front :: "('a, 'e) qs \<Rightarrow> ('a, 'e) qs res" where
  "rr_pop_front s =
     bindR (qs_pop_at (qs_index s) s) (\<lambda>s.
       let s = s\<lparr>qs_popped := qs_index s, qs_index := Suc (qs_index s)\<rparr>
       in Inr (if qs_index s = length (qs_queue s) then s\<lparr>qs_index := 0\<rparr> else s))"

definition unordered_empty :: "('a, 'e) qs \<Rightarrow> bool" where
  "unordered_empty s = (tuple_find (\<lambda>q. q \<noteq> []) (qs_queue s) = length (qs_queue s))"

definition unordered_front :: "('a, 'e) qs \<Rightarrow> (('e + 'a) list \<times> ('a, 'e) qs) res" where
  "unordered_front s =
     (let s = s\<lparr>qs_index := tuple_find (\<lambda>q. q \<noteq> []) (qs_queue s)\<rparr>
      in bindR (arr_get (qs_queue s) (qs_index s)) (\<lambda>q. bindR (deque_front q) (\<lambda>m. Inr ([m], s))))"

definition unordered_pop_front :: "('a, 'e) qs \<Rightarrow> ('a, 'e) qs res" where
  "unordered_pop_front s =
     bindR (qs_pop_at (qs_index s) s) (\<lambda>s. Inr (s\<lparr>qs_popped := qs_index s\<rparr>))"

record ('a, 'e) strategy =
  st_empty :: "('a, 'e) qs \<Rightarrow> bool"
  st_front :: "('a, 'e) qs \<Rightarrow> (('e + 'a) list \<times> ('a, 'e) qs) res"
  st_pop_front :: "('a, 'e) qs \<Rightarrow> ('a, 'e) qs res"
  st_size :: "('a, 'e) qs \<Rightarrow> 64 word list"

definition default_queue_strategy :: "('a, 'e) strategy" where
  "default_queue_strategy = \<lparr>st_empty = default_empty, st_front = default_front,
     st_pop_front = default_pop_front, st_size = all_sizes\<rparr>"

definition zip_with_queue_strategy :: "('a, 'e) strategy" where
  "zip_with_queue_strategy = \<lparr>st_empty = zip_empty, st_front = zip_front,
     st_pop_front = zip_pop_front, st_size = all_sizes\<rparr>"

definition round_robin_queue_strategy :: "('a, 'e) strategy" where
  "round_robin_queue_strategy = \<lparr>st_empty = rr_empty, st_front = rr_front,
     st_pop_front = rr_pop_front, st_size = popped_size\<rparr>"

definition unordered_queue_strategy :: "('a, 'e) strategy" where
  "unordered_queue_strategy = \<lparr>st_empty = unordered_empty, st_front = unordered_front,
     st_pop_front = unordered_pop_front, st_size = popped_size\<rparr>"

section \<open>Taking a message\<close>

text \<open>
  The critical section of \<open>pop_from_queue\<close>: the message, if there is one, the upstream processes that are
  clear to send again, and whether the process is to be closed. \<open>close\<close> is \<open>_process_close_queue\<close>; the
  last component of the result is its new value.
\<close>

definition pop_from_queue ::
  "('a, 'e) strategy \<Rightarrow> 64 word \<Rightarrow> bool \<Rightarrow> ('a, 'e) qs \<Rightarrow>
    (('e + 'a) list option \<times> bool list \<times> bool \<times> ('a, 'e) qs \<times> bool) res" where
  "pop_from_queue S buffer close s =
     (if st_empty S s then Inr (None, replicate (length (qs_queue s)) False, close, s, False)
      else
        bindR (st_front S s) (\<lambda>(m, s).
        bindR (st_pop_front S s) (\<lambda>s.
          Inr (Some m, map (\<lambda>k. k \<le> buffer - 1) (st_size S s), False, s, close))))"

text \<open>An exception among the messages of a tuple: the first one.\<close>

definition find_argument_error :: "('e + 'a) list \<Rightarrow> 'e option" where
  "find_argument_error ms =
     (let i = tuple_find (\<lambda>m. case m of Inl e \<Rightarrow> True | Inr v \<Rightarrow> False) ms
      in if i = length ms then None else get_i ms i (\<lambda>m. case m of Inl e \<Rightarrow> Some e | Inr v \<Rightarrow> None) None)"

section \<open>The order of the messages\<close>

text \<open>A use of a strategy: messages arrive, and the process takes a tuple of them whenever it finds one.\<close>

datatype ('a, 'e) strategy_op = Append nat "'e + 'a" | Take

fun strategy_step :: "('a, 'e) strategy \<Rightarrow> ('a, 'e) strategy_op \<Rightarrow>
    ('a, 'e) qs \<times> ('e + 'a) list list \<Rightarrow> (('a, 'e) qs \<times> ('e + 'a) list list) res" where
  "strategy_step S (Append i m) (s, taken) =
     Inr (if i < length (qs_queue s) then qs_append i m s else s, taken)"
| "strategy_step S Take (s, taken) =
     bindR (pop_from_queue S 1 False s) (\<lambda>(r, cts, close, s, c).
       case r of None \<Rightarrow> Inr (s, taken) | Some ms \<Rightarrow> Inr (s, taken @ [ms]))"

fun appended :: "nat \<Rightarrow> ('a, 'e) strategy_op list \<Rightarrow> ('e + 'a) list" where
  "appended i [] = []"
| "appended i (Append j m # ops) = (if i = j then m # appended i ops else appended i ops)"
| "appended i (Take # ops) = appended i ops"

lemma appended_append: "appended i (xs @ ys) = appended i xs @ appended i ys"
  by (induction i xs rule: appended.induct) simp_all

text \<open>The messages of source \<open>i\<close> in a sequence of tuples whose sources are known.\<close>

definition taken_from :: "nat \<Rightarrow> (nat \<times> 'm) list list \<Rightarrow> 'm list" where
  "taken_from i T = map snd (filter (\<lambda>x. fst x = i) (concat T))"

lemma taken_from_simps [simp]:
  "taken_from i [] = []" "taken_from i (T @ [t]) = taken_from i T @ map snd (filter (\<lambda>x. fst x = i) t)"
  by (simp_all add: taken_from_def)

lemma zip_sources_filter:
  "distinct js \<Longrightarrow> map snd (filter (\<lambda>x. fst x = i) (zip js (map f js))) = (if i \<in> set js then [f i] else [])"
  by (induction js) auto

text \<open>
  The contract of a strategy over \<open>n\<close> queues. \<open>sources\<close> says from which queues the next tuple is taken;
  \<open>inv\<close> relates the state to the sources of the tuples taken before.
\<close>

locale queue_strategy =
  fixes S :: "('a, 'e) strategy"
    and n :: nat
    and inv :: "nat list list \<Rightarrow> ('a, 'e) qs \<Rightarrow> bool"
    and sources :: "('a, 'e) qs \<Rightarrow> nat list"
  assumes inv_init: "inv [] (qs_init n)"
    and inv_length: "inv H s \<Longrightarrow> length (qs_queue s) = n"
    and inv_append: "inv H s \<Longrightarrow> i < n \<Longrightarrow> inv H (qs_append i m s)"
    and sources_ok: "inv H s \<Longrightarrow> \<not> st_empty S s \<Longrightarrow>
      distinct (sources s) \<and> (\<forall>i \<in> set (sources s). i < n \<and> qs_queue s ! i \<noteq> [])"
    and take: "inv H s \<Longrightarrow> \<not> st_empty S s \<Longrightarrow>
      \<exists>s1 s2. st_front S s = Inr (map (\<lambda>i. hd (qs_queue s ! i)) (sources s), s1) \<and> st_pop_front S s1 = Inr s2 \<and>
        inv (H @ [sources s]) s2 \<and>
        qs_queue s2 = map (\<lambda>i. if i \<in> set (sources s) then tl (qs_queue s ! i) else qs_queue s ! i) [0..<n]"
begin

lemma run_strategy:
  "\<exists>s T. run_ops (strategy_step S) ops (qs_init n, []) = Inr (s, map (map snd) T) \<and> inv (map (map fst) T) s \<and>
    (\<forall>i < n. taken_from i T @ qs_queue s ! i = appended i ops)"
proof (induction ops rule: rev_induct)
  case Nil
  have "(qs_init n, []) = (qs_init n, map (map snd) ([] :: (nat \<times> ('e + 'a)) list list))" by simp
  then show ?case using inv_init by (fastforce simp: qs_init_def)
next
  case (snoc op ops)
  then obtain s T where IH: "run_ops (strategy_step S) ops (qs_init n, []) = Inr (s, map (map snd) T)"
      "inv (map (map fst) T) s" "\<forall>i < n. taken_from i T @ qs_queue s ! i = appended i ops" by blast
  note len = inv_length [OF IH(2)]
  show ?case
  proof (cases op)
    case (Append j m)
    have "taken_from i T @ qs_queue (qs_append j m s) ! i = appended i (ops @ [op])" if "i < n" "j < n" for i
      using IH(3) that len by (auto simp: Append appended_append qs_append_def nth_list_update)
    then show ?thesis using IH inv_append [OF IH(2), of j m] len Append
      by (cases "j < n") (auto simp: run_ops_append appended_append)
  next
    case Take
    show ?thesis
    proof (cases "st_empty S s")
      case True
      then show ?thesis using IH Take
        by (auto simp: run_ops_append appended_append pop_from_queue_def)
    next
      case False
      let ?ms = "map (\<lambda>i. hd (qs_queue s ! i)) (sources s)"
      from take [OF IH(2) False] obtain s1 s2 where s2: "st_front S s = Inr (?ms, s1)" "st_pop_front S s1 = Inr s2"
        "inv (map (map fst) T @ [sources s]) s2"
        "qs_queue s2 = map (\<lambda>i. if i \<in> set (sources s) then tl (qs_queue s ! i) else qs_queue s ! i) [0..<n]" by blast
      let ?T = "T @ [zip (sources s) ?ms]"
      have "run_ops (strategy_step S) (ops @ [op]) (qs_init n, []) = Inr (s2, map (map snd) ?T)"
        using IH(1) False s2(1,2) by (simp add: Take run_ops_append pop_from_queue_def)
      moreover have "inv (map (map fst) ?T) s2" using s2(3) by simp
      moreover have "taken_from i ?T @ qs_queue s2 ! i = appended i (ops @ [op])" if "i < n" for i
        using IH(3) that sources_ok [OF IH(2) False]
        by (auto simp: Take appended_append s2(4) zip_sources_filter [of "sources s"])
      ultimately show ?thesis by blast
    qed
  qed
qed

end

section \<open>The strategies meet the contract\<close>

lemma tuple_find_impl_le: "tuple_find_impl P xs \<le> length xs"
  by (induction xs) auto

lemma tuple_find_impl_length: "tuple_find_impl P xs = length xs \<longleftrightarrow> (\<forall>x \<in> set xs. \<not> P x)"
  by (induction xs) auto

lemma tuple_find_impl_nth: "tuple_find_impl P xs < length xs \<Longrightarrow> P (xs ! tuple_find_impl P xs)"
  by (induction xs) auto

lemma tuple_find_length: "tuple_find P xs = length xs \<longleftrightarrow> xs \<noteq> [] \<and> (\<forall>x \<in> set xs. \<not> P x)"
  using tuple_find_impl_length [of P xs] by (auto simp: tuple_find_def)

lemma tuple_find_found:
  "xs \<noteq> [] \<Longrightarrow> tuple_find P xs \<noteq> length xs \<Longrightarrow> tuple_find P xs < length xs \<and> P (xs ! tuple_find P xs)"
  using tuple_find_impl_le [of P xs] tuple_find_impl_nth [of P xs] by (auto simp: tuple_find_def)

lemma deque_simps [simp]:
  "q \<noteq> [] \<Longrightarrow> deque_front q = Inr (hd q)" "q \<noteq> [] \<Longrightarrow> deque_pop q = Inr (tl q)"
  by (cases q; simp)+

lemma map_res_total: "(\<And>x. x \<in> set xs \<Longrightarrow> f x = Inr (g x)) \<Longrightarrow> map_res f xs = Inr (map g xs)"
  by (induction xs) simp_all

lemma qs_pop_at:
  assumes "i < length (qs_queue s)" and "qs_queue s ! i \<noteq> []"
  shows "qs_pop_at i s = Inr (s\<lparr>qs_queue := (qs_queue s)[i := tl (qs_queue s ! i)]\<rparr>)"
  using assms by (simp add: qs_pop_at_def void_i_def)

lemma popped_queue:
  "length Q = n \<Longrightarrow> Q[k := tl (Q ! k)] = map (\<lambda>i. if i \<in> set [k] then tl (Q ! i) else Q ! i) [0..<n]"
  by (rule nth_equalityI) (auto simp: nth_list_update)

definition any_source :: "nat \<Rightarrow> nat list list \<Rightarrow> ('a, 'e) qs \<Rightarrow> bool" where
  "any_source n H s \<longleftrightarrow> length (qs_queue s) = n \<and> list_all (\<lambda>h. length h = 1) H"

definition all_sources :: "nat \<Rightarrow> nat list list \<Rightarrow> ('a, 'e) qs \<Rightarrow> bool" where
  "all_sources n H s \<longleftrightarrow> length (qs_queue s) = n \<and> list_all (\<lambda>h. h = [0..<n]) H"

definition in_turn :: "nat \<Rightarrow> nat list list \<Rightarrow> ('a, 'e) qs \<Rightarrow> bool" where
  "in_turn n H s \<longleftrightarrow> length (qs_queue s) = n \<and> 0 < n \<and> qs_index s = length H mod n \<and>
     (\<forall>k < length H. H ! k = [k mod n])"

lemmas strategy_defs = qs_init_def qs_append_def Let_def
  default_queue_strategy_def default_empty_def default_front_def default_pop_front_def
  zip_with_queue_strategy_def zip_empty_def zip_front_def zip_pop_front_def
  round_robin_queue_strategy_def rr_empty_def rr_front_def rr_pop_front_def
  unordered_queue_strategy_def unordered_empty_def unordered_front_def unordered_pop_front_def

interpretation dq: queue_strategy default_queue_strategy 1 "any_source 1" "\<lambda>s. [0]"
proof
  fix H and s :: "('a, 'e) qs"
  assume a: "any_source 1 H s" "\<not> st_empty default_queue_strategy s"
  then have q: "length (qs_queue s) = 1" "qs_queue s ! 0 \<noteq> []"
    by (auto simp: any_source_def strategy_defs get_i_def)
  then show "\<exists>s1 s2. st_front default_queue_strategy s = Inr (map (\<lambda>i. hd (qs_queue s ! i)) [0], s1) \<and>
      st_pop_front default_queue_strategy s1 = Inr s2 \<and> any_source 1 (H @ [[0]]) s2 \<and>
      qs_queue s2 = map (\<lambda>i. if i \<in> set [0] then tl (qs_queue s ! i) else qs_queue s ! i) [0..<1]"
    using a(1) popped_queue [OF q(1), of 0] by (auto simp: strategy_defs qs_pop_at any_source_def)
qed (auto simp: any_source_def strategy_defs get_i_def)

interpretation zq: queue_strategy zip_with_queue_strategy n "all_sources n" "\<lambda>s. [0..<n]" for n
proof
  fix H and s :: "('a, 'e) qs"
  assume a: "all_sources n H s" "\<not> st_empty zip_with_queue_strategy s"
  then have q: "length (qs_queue s) = n" "\<And>q. q \<in> set (qs_queue s) \<Longrightarrow> q \<noteq> []"
    using tuple_find_length [of "\<lambda>q. q = []" "qs_queue s"] by (simp_all add: all_sources_def strategy_defs)
  then show "distinct [0..<n] \<and> (\<forall>i \<in> set [0..<n]. i < n \<and> qs_queue s ! i \<noteq> [])" by auto
  have "map_res deque_front (qs_queue s) = Inr (map hd (qs_queue s))"
    "map_res deque_pop (qs_queue s) = Inr (map tl (qs_queue s))"
    using q(2) by (auto intro: map_res_total)
  moreover have "map hd (qs_queue s) = map (\<lambda>i. hd (qs_queue s ! i)) [0..<n]"
    "map tl (qs_queue s) = map (\<lambda>i. if i \<in> set [0..<n] then tl (qs_queue s ! i) else qs_queue s ! i) [0..<n]"
    using q(1) by (auto intro: nth_equalityI)
  ultimately show "\<exists>s1 s2. st_front zip_with_queue_strategy s = Inr (map (\<lambda>i. hd (qs_queue s ! i)) [0..<n], s1) \<and>
      st_pop_front zip_with_queue_strategy s1 = Inr s2 \<and> all_sources n (H @ [[0..<n]]) s2 \<and>
      qs_queue s2 = map (\<lambda>i. if i \<in> set [0..<n] then tl (qs_queue s ! i) else qs_queue s ! i) [0..<n]"
    using a(1) by (auto simp: strategy_defs all_sources_def)
qed (auto simp: all_sources_def strategy_defs)

interpretation rq: queue_strategy round_robin_queue_strategy "Suc n" "in_turn (Suc n)" "\<lambda>s. [qs_index s]" for n
proof
  fix H and s :: "('a, 'e) qs"
  assume a: "in_turn (Suc n) H s" "\<not> st_empty round_robin_queue_strategy s"
  then have q: "length (qs_queue s) = Suc n" "qs_index s < Suc n" "qs_queue s ! qs_index s \<noteq> []"
    by (auto simp: in_turn_def strategy_defs get_i_def)
  then show "distinct [qs_index s] \<and> (\<forall>i \<in> set [qs_index s]. i < Suc n \<and> qs_queue s ! i \<noteq> [])" by simp
  have "\<forall>k < length (H @ [[qs_index s]]). (H @ [[qs_index s]]) ! k = [k mod Suc n]"
    using a(1) by (auto simp: in_turn_def nth_append less_Suc_eq)
  then show "\<exists>s1 s2. st_front round_robin_queue_strategy s = Inr (map (\<lambda>i. hd (qs_queue s ! i)) [qs_index s], s1) \<and>
      st_pop_front round_robin_queue_strategy s1 = Inr s2 \<and> in_turn (Suc n) (H @ [[qs_index s]]) s2 \<and>
      qs_queue s2 = map (\<lambda>i. if i \<in> set [qs_index s] then tl (qs_queue s ! i) else qs_queue s ! i) [0..<Suc n]"
    using a(1) q popped_queue [OF q(1), of "qs_index s"]
    by (auto simp: strategy_defs qs_pop_at in_turn_def mod_Suc simp del: upt_Suc)
qed (auto simp: in_turn_def strategy_defs)

interpretation uq: queue_strategy unordered_queue_strategy "Suc n" "any_source (Suc n)"
  "\<lambda>s. [tuple_find (\<lambda>q. q \<noteq> []) (qs_queue s)]" for n
proof
  fix H and s :: "('a, 'e) qs"
  let ?i = "tuple_find (\<lambda>q. q \<noteq> []) (qs_queue s)"
  assume a: "any_source (Suc n) H s" "\<not> st_empty unordered_queue_strategy s"
  then have l: "length (qs_queue s) = Suc n" and "?i \<noteq> length (qs_queue s)" by (simp_all add: any_source_def strategy_defs)
  moreover from l have "qs_queue s \<noteq> []" by auto
  ultimately have q: "length (qs_queue s) = Suc n" "?i < Suc n" "qs_queue s ! ?i \<noteq> []"
    using tuple_find_found [of "qs_queue s" "\<lambda>q. q \<noteq> []"] by simp_all
  then show "distinct [?i] \<and> (\<forall>i \<in> set [?i]. i < Suc n \<and> qs_queue s ! i \<noteq> [])" by simp
  show "\<exists>s1 s2. st_front unordered_queue_strategy s = Inr (map (\<lambda>i. hd (qs_queue s ! i)) [?i], s1) \<and>
      st_pop_front unordered_queue_strategy s1 = Inr s2 \<and> any_source (Suc n) (H @ [[?i]]) s2 \<and>
      qs_queue s2 = map (\<lambda>i. if i \<in> set [?i] then tl (qs_queue s ! i) else qs_queue s ! i) [0..<Suc n]"
    using a(1) q popped_queue [OF q(1), of ?i]
    by (auto simp: strategy_defs qs_pop_at any_source_def simp del: upt_Suc)
qed (auto simp: any_source_def strategy_defs)

section \<open>What the processes receive\<close>

lemma taken_from_all:
  assumes "list_all (\<lambda>t. map fst t = [0..<n]) T" and "i < n"
  shows "taken_from i T = map (\<lambda>t. snd (t ! i)) T"
  using assms(1)
proof (induction T rule: rev_induct)
  case (snoc t T)
  then have t: "map fst t = [0..<n]" by simp
  then have l: "length t = n" using length_map [of fst t] by simp
  have "fst (t ! k) = k" if "k < n" for k
    using that l arg_cong [OF t, of "\<lambda>ks. ks ! k"] by simp
  then have z: "t = zip [0..<n] (map (\<lambda>k. snd (t ! k)) [0..<n])"
    using l by (intro nth_equalityI) (auto simp: prod_eq_iff)
  have "map snd (filter (\<lambda>x. fst x = i) (zip [0..<n] (map (\<lambda>k. snd (t ! k)) [0..<n]))) = [snd (t ! i)]"
    using assms(2) by (subst zip_sources_filter) auto
  with arg_cong [OF z, of "\<lambda>t. map snd (filter (\<lambda>x. fst x = i) t)"]
  have "map snd (filter (\<lambda>x. fst x = i) t) = [snd (t ! i)]" by (rule trans)
  with snoc show ?case by simp
qed simp

text \<open>
  \<open>zip_with\<close> zips: under every interleaving of arrivals and takes, the tuples the process receives have
  one message of each upstream process, and for each upstream process its messages in the tuples,
  followed by those still queued, are the messages it has sent, in order: the k-th tuple consists of
  the k-th messages.
\<close>
theorem zip_with_zips:
  "\<exists>s ts. run_ops (strategy_step zip_with_queue_strategy) ops (qs_init n, []) = Inr (s, ts) \<and>
    list_all (\<lambda>t. length t = n) ts \<and>
    (\<forall>i < n. map (\<lambda>t. t ! i) ts @ qs_queue s ! i = appended i ops)"
proof -
  from zq.run_strategy [of ops n] obtain s T where
    r: "run_ops (strategy_step zip_with_queue_strategy) ops (qs_init n, []) = Inr (s, map (map snd) T)"
    and i: "all_sources n (map (map fst) T) s"
    and t: "\<forall>i < n. taken_from i T @ qs_queue s ! i = appended i ops" by blast
  have f: "list_all (\<lambda>t. map fst t = [0..<n]) T" using i by (simp add: all_sources_def list_all_iff)
  then have l: "list_all (\<lambda>t. length t = n) T" by (auto simp: list_all_iff dest!: bspec dest: arg_cong [where f = length])
  have "map (\<lambda>t. t ! i) (map (map snd) T) = taken_from i T" if "i < n" for i
    using taken_from_all [OF f that] l that by (simp add: list_all_iff)
  with r t l show ?thesis by (intro exI [of _ s] exI [of _ "map (map snd) T"]) (auto simp: list_all_iff)
qed

theorem zip_with_zips_witness:
  "\<exists>s ts. run_ops (strategy_step zip_with_queue_strategy)
      [Append 0 (Inr (1::nat)), Take, Append 0 (Inr 2), Append 1 (Inr 7 :: string + nat), Take, Take] (qs_init 2, []) = Inr (s, ts) \<and>
    map (\<lambda>t. t ! 0) ts @ qs_queue s ! 0 = [Inr 1, Inr 2] \<and> map (\<lambda>t. t ! 1) ts @ qs_queue s ! 1 = [Inr 7]"
proof -
  define ops where "ops = [Append 0 (Inr (1::nat)), Take, Append 0 (Inr 2), Append 1 (Inr 7 :: string + nat), Take, Take]"
  from zip_with_zips [of ops 2] obtain s ts where
    r: "run_ops (strategy_step zip_with_queue_strategy) ops (qs_init 2, []) = Inr (s, ts)"
    and t: "\<forall>i < 2. map (\<lambda>t. t ! i) ts @ qs_queue s ! i = appended i ops" by blast
  from t have "map (\<lambda>t. t ! 0) ts @ qs_queue s ! 0 = appended 0 ops" "map (\<lambda>t. t ! 1) ts @ qs_queue s ! 1 = appended 1 ops"
    by simp_all
  with r show ?thesis by (auto simp: ops_def)
qed

text \<open>How often source \<open>i\<close> of \<open>n\<close> has had its turn after \<open>L\<close> takes.\<close>

definition turns :: "nat \<Rightarrow> nat \<Rightarrow> nat \<Rightarrow> nat" where
  "turns n i L = (L + (n - 1 - i)) div n"

lemma turn_dvd:
  assumes "i < n"
  shows "n dvd Suc (L + (n - 1 - i)) \<longleftrightarrow> L mod n = i"
proof -
  have "Suc (L + (n - 1 - i)) = n * (L div n) + (L mod n + n - i)"
    using assms mult_div_mod_eq [of n L] by linarith
  then have "n dvd Suc (L + (n - 1 - i)) \<longleftrightarrow> n dvd L mod n + n - i" by (simp add: dvd_add_right_iff)
  also have "\<dots> \<longleftrightarrow> L mod n = i"
  proof
    assume "n dvd L mod n + n - i"
    then obtain q where q: "L mod n + n - i = n * q" by (auto simp: dvd_def)
    have "0 < L mod n + n - i" "L mod n + n - i < 2 * n" using assms mod_less_divisor [of n L] by linarith+
    then have "q = 1" unfolding q by (cases q; cases "q - 1") auto
    with q assms show "L mod n = i" by simp
  qed (use assms in auto)
  finally show ?thesis .
qed

lemma turns_Suc: "i < n \<Longrightarrow> turns n i (Suc L) = turns n i L + (if L mod n = i then 1 else 0)"
  using turn_dvd [of i n L] by (simp add: turns_def div_Suc mod_eq_0_iff_dvd del: add_diff_assoc add_diff_assoc2)

lemma turns_own: "0 < n \<Longrightarrow> turns n (L mod n) L = L div n"
proof -
  assume n: "0 < n"
  have "L + (n - 1 - L mod n) = (n - 1) + n * (L div n)"
    using n mod_less_divisor [OF n, of L] mult_div_mod_eq [of n L] by linarith
  then show ?thesis using n by (simp add: turns_def del: add_diff_assoc add_diff_assoc2)
qed

lemma taken_in_turn:
  assumes "\<forall>k < length T. map fst (T ! k) = [k mod n]" and "0 < n"
  shows "(\<forall>i < n. length (taken_from i T) = turns n i (length T)) \<and>
    (\<forall>k < length T. k div n < length (taken_from (k mod n) T) \<and>
       map snd (T ! k) = [taken_from (k mod n) T ! (k div n)])"
  using assms(1)
proof (induction T rule: rev_induct)
  case Nil
  then show ?case using assms(2) by (simp add: turns_def)
next
  case (snoc t T)
  let ?L = "length T"
  have "map fst (T ! k) = [k mod n]" if "k < length T" for k
    using snoc.prems [rule_format, of k] that by (simp add: nth_append)
  then have "\<forall>k < length T. map fst (T ! k) = [k mod n]" by blast
  note IH = snoc.IH [OF this]
  have "map fst t = [?L mod n]" using snoc.prems [rule_format, of ?L] by simp
  then obtain m where t: "t = [(?L mod n, m)]" by (cases t) auto
  have l: "length (taken_from i (T @ [t])) = turns n i (length (T @ [t]))" if "i < n" for i
    using IH that by (simp add: t turns_Suc)
  have own: "length (taken_from (?L mod n) T) = ?L div n" using IH assms(2) by (simp add: turns_own)
  have "k div n < length (taken_from (k mod n) (T @ [t])) \<and>
      map snd ((T @ [t]) ! k) = [taken_from (k mod n) (T @ [t]) ! (k div n)]" if "k < length (T @ [t])" for k
  proof (cases "k = ?L")
    case True
    then show ?thesis using own by (simp add: t nth_append)
  next
    case False
    then have "k div n < length (taken_from (k mod n) T)" "map snd (T ! k) = [taken_from (k mod n) T ! (k div n)]"
      using that IH by simp_all
    then show ?thesis using False that by (simp add: nth_append)
  qed
  with l show ?case by blast
qed

text \<open>
  \<open>round_robin\<close> takes turns: under every interleaving of arrivals and takes, the process receives the
  messages of the upstream processes in turn, each message of an upstream process once and in order:
  the k-th message received is message \<open>k div n\<close> of upstream process \<open>k mod n\<close>.
\<close>
theorem round_robin_takes_turns:
  assumes "0 < n"
  shows "\<exists>s ts. run_ops (strategy_step round_robin_queue_strategy) ops (qs_init n, []) = Inr (s, ts) \<and>
    (\<forall>k < length ts. k div n < length (appended (k mod n) ops) \<and> ts ! k = [appended (k mod n) ops ! (k div n)]) \<and>
    (\<forall>i < n. drop (turns n i (length ts)) (appended i ops) = qs_queue s ! i)"
proof -
  from assms obtain k where n: "n = Suc k" by (cases n) auto
  from rq.run_strategy [of ops k] obtain s T where
    r: "run_ops (strategy_step round_robin_queue_strategy) ops (qs_init n, []) = Inr (s, map (map snd) T)"
    and i: "in_turn n (map (map fst) T) s"
    and t: "\<forall>i < n. taken_from i T @ qs_queue s ! i = appended i ops" unfolding n by blast
  have f: "\<forall>k < length T. map fst (T ! k) = [k mod n]" using i by (simp add: in_turn_def)
  note D = taken_in_turn [OF f assms]
  have "drop (turns n i (length T)) (appended i ops) = qs_queue s ! i" if "i < n" for i
    using t [rule_format, OF that] D that by (metis append_eq_conv_conj)
  moreover have "k div n < length (appended (k mod n) ops) \<and> map snd (T ! k) = [appended (k mod n) ops ! (k div n)]"
    if "k < length T" for k
  proof -
    have "appended (k mod n) ops = taken_from (k mod n) T @ qs_queue s ! (k mod n)" using t assms by simp
    moreover have "k div n < length (taken_from (k mod n) T)" "map snd (T ! k) = [taken_from (k mod n) T ! (k div n)]"
      using D that by blast+
    ultimately show ?thesis by (simp add: nth_append)
  qed
  ultimately show ?thesis using r by (intro exI [of _ s] exI [of _ "map (map snd) T"]) simp
qed

theorem round_robin_takes_turns_witness:
  "\<exists>s ts. run_ops (strategy_step round_robin_queue_strategy)
      [Append 1 (Inr (7::nat)), Take, Append 0 (Inr 1 :: string + nat), Take, Take, Take] (qs_init 2, []) = Inr (s, ts) \<and>
    drop (turns 2 1 (length ts)) [Inr 7] = qs_queue s ! 1"
proof -
  define ops where "ops = [Append 1 (Inr (7::nat)), Take, Append 0 (Inr 1 :: string + nat), Take, Take, Take]"
  from round_robin_takes_turns [of 2 ops] obtain s ts where
    "run_ops (strategy_step round_robin_queue_strategy) ops (qs_init 2, []) = Inr (s, ts)"
    "\<forall>i < 2. drop (turns 2 i (length ts)) (appended i ops) = qs_queue s ! i" by auto
  moreover from this(2) have "drop (turns 2 1 (length ts)) (appended 1 ops) = qs_queue s ! 1" by simp
  ultimately show ?thesis by (auto simp: ops_def)
qed

text \<open>
  \<open>unordered\<close> merges: under every interleaving of arrivals and takes, the messages received can be
  attributed to the upstream processes such that for each of them those received, followed by those
  still queued, are the messages it has sent, in order; and a take fails only when every queue is empty.
\<close>
theorem unordered_merges:
  assumes "0 < n"
  shows "\<exists>s T. run_ops (strategy_step unordered_queue_strategy) ops (qs_init n, []) = Inr (s, map (\<lambda>x. [snd x]) T) \<and>
    (\<forall>i < n. map snd (filter (\<lambda>x. fst x = i) T) @ qs_queue s ! i = appended i ops) \<and>
    (unordered_empty s \<longleftrightarrow> (\<forall>i < n. qs_queue s ! i = []))"
proof -
  from assms obtain k where n: "n = Suc k" by (cases n) auto
  from uq.run_strategy [of ops k] obtain s T where
    r: "run_ops (strategy_step unordered_queue_strategy) ops (qs_init n, []) = Inr (s, map (map snd) T)"
    and i: "any_source n (map (map fst) T) s"
    and t: "\<forall>i < n. taken_from i T @ qs_queue s ! i = appended i ops" unfolding n by blast
  have one: "list_all (\<lambda>t. length t = 1) T" using i by (simp add: any_source_def list_all_iff)
  then have "map (map snd) T = map (\<lambda>x. [snd x]) (concat T)"
    by (induction T) (auto simp: length_Suc_conv)
  moreover have "unordered_empty s \<longleftrightarrow> (\<forall>i < n. qs_queue s ! i = [])"
    using i assms tuple_find_length [of "\<lambda>q. q \<noteq> []" "qs_queue s"]
    by (auto simp: unordered_empty_def any_source_def all_set_conv_all_nth)
  ultimately show ?thesis using r t by (auto simp: taken_from_def)
qed

theorem unordered_merges_witness:
  "\<exists>s T. run_ops (strategy_step unordered_queue_strategy)
      [Append 1 (Inr (7::nat)), Take, Append 0 (Inr 1 :: string + nat), Take] (qs_init 2, []) = Inr (s, map (\<lambda>x. [snd x]) T) \<and>
    map snd (filter (\<lambda>x. fst x = (1::nat)) T) @ qs_queue s ! 1 = [Inr 7]"
proof -
  define ops where "ops = [Append 1 (Inr (7::nat)), Take, Append 0 (Inr 1 :: string + nat), Take]"
  from unordered_merges [of 2 ops] obtain s T where
    "run_ops (strategy_step unordered_queue_strategy) ops (qs_init 2, []) = Inr (s, map (\<lambda>x. [snd x]) T)"
    "\<forall>i < 2. map snd (filter (\<lambda>x. fst x = i) T) @ qs_queue s ! i = appended i ops" by auto
  moreover from this(2) have "map snd (filter (\<lambda>x. fst x = 1) T) @ qs_queue s ! 1 = appended 1 ops" by simp
  moreover have "appended 1 ops = [Inr 7]" by (simp add: ops_def)
  ultimately show ?thesis by (intro exI [of _ s] exI [of _ T]) (simp add: ops_def)
qed

end
