(* ===== verification/Channel_Net.thy ===== *)
theory Channel_Net
  imports Channel_Queues
begin

text \<open>
  Channels of stlab (\<^verbatim>\<open>deps/clean_stlab_trash/concurrency/channel.hpp\<close>): processes that call a function on each
  message they receive and broadcast the result to the processes attached downstream. Each is a
  \<open>shared_process\<close> with a queue, a flag \<open>_process_running\<close> and a count \<open>_process_suspend_count\<close> that holds
  it back until the processes downstream are clear to send.
  The model is a network of such processes that grows by \<open>operator|\<close>. A thread is a stack of frames,
  one per function call in progress; a step is a critical section, an atomic operation or a call of
  the executor, and threads interleave freely. Processes have one upstream process and the default
  queue strategy; the other strategies are in theory \<open>Channel_Queues\<close>.
\<close>

section \<open>State\<close>

text \<open>
  \<open>n_alive\<close> says that the object exists, \<open>n_process\<close> that \<open>_process\<close> holds the function. \<open>n_open\<close> and
  \<open>n_ready\<close> are the states of the \<open>sender\<close> of a root and of the \<open>receiver\<close> of a process in the hands of the
  program. \<open>n_sched\<close> counts the calls of \<open>step\<close> the executor holds. \<open>n_in\<close>, \<open>n_popped\<close> and \<open>n_sent\<close> list the
  messages queued, taken and broadcast so far; \<open>n_stalled\<close> says that \<open>step\<close> has dropped an exception.
\<close>

record ('v, 'e) node =
  n_queue :: "('e + 'v) list"
  n_running :: bool
  n_suspend :: nat
  n_close :: bool
  n_final :: bool
  n_senders :: nat
  n_receivers :: nat
  n_buffer :: "64 word"
  n_process :: bool
  n_alive :: bool
  n_down :: "nat list"
  n_up :: "nat option"
  n_open :: bool
  n_ready :: bool
  n_sched :: nat
  n_in :: "('e + 'v) list"
  n_popped :: "('e + 'v) list"
  n_sent :: "('e + 'v) list"
  n_stalled :: bool

text \<open>
  The calls in progress: \<open>run\<close> before the call of the executor; \<open>step\<close> before \<open>pop_from_queue\<close>, with what
  it has taken, and in the call of the function; \<open>broadcast\<close> before each of its two critical sections and
  between the sends; \<open>clear_to_send\<close>, called on the first process by the second, before its two critical
  sections; \<open>task_done\<close> before its two; the atomic decrements and critical sections of \<open>remove_sender\<close> and
  \<open>remove_receiver\<close>.
\<close>

datatype ('v, 'e) frame = Run nat | Step nat | Handle nat "('e + 'v) list option" | In_Fun nat 'v
  | Broadcast nat "'e + 'v" | Suspend nat nat bool "'e + 'v" | Sending nat "nat list" "'e + 'v"
  | Cts nat nat | Cts2 nat nat | Task_Done nat | Finalize nat
  | Remove_Sender nat | Close_Queue nat | Check_Start nat

record ('v, 'e) channels =
  nodes :: "nat \<Rightarrow> ('v, 'e) node"
  n_size :: nat
  threads :: "('v, 'e) frame list list"

section \<open>Critical sections of one process\<close>

text \<open>The constructor; \<open>channel\<close> makes a root, \<open>operator|\<close> a process below \<open>up\<close>.\<close>

definition shared_process :: "nat option \<Rightarrow> 64 word \<Rightarrow> ('v, 'e) node" where
  "shared_process up buffer = \<lparr>n_queue = [], n_running = False, n_suspend = 0, n_close = False, n_final = False,
     n_senders = 1, n_receivers = 1, n_buffer = buffer, n_process = True, n_alive = True, n_down = [], n_up = up,
     n_open = (up = None), n_ready = False, n_sched = 0, n_in = [], n_popped = [], n_sent = [], n_stalled = False\<rparr>"

text \<open>What a critical section decides: whether to call \<open>run\<close>, marking the process as running.\<close>

definition start_if :: "bool \<Rightarrow> ('v, 'e) node \<Rightarrow> bool \<times> ('v, 'e) node" where
  "start_if do_run n = (do_run, n\<lparr>n_running := n_running n \<or> do_run\<rparr>)"

definition sp_enqueue :: "'e + 'v \<Rightarrow> ('v, 'e) node \<Rightarrow> bool \<times> ('v, 'e) node" where
  "sp_enqueue m n =
     start_if (n_receivers n = 0 \<and> \<not> n_running n) (n\<lparr>n_queue := n_queue n @ [m], n_in := n_in n @ [m]\<rparr>)"

definition sp_close_queue :: "('v, 'e) node \<Rightarrow> bool \<times> ('v, 'e) node" where
  "sp_close_queue n = start_if (n_receivers n = 0 \<and> \<not> n_running n) (n\<lparr>n_close := True\<rparr>)"

definition sp_check_start :: "('v, 'e) node \<Rightarrow> bool \<times> ('v, 'e) node" where
  "sp_check_start n = start_if ((n_queue n \<noteq> [] \<or> n_close n) \<and> \<not> n_running n) n"

definition free_buffer :: "('v, 'e) node \<Rightarrow> 64 word" where
  "free_buffer n = (if n_buffer n = 0 then -1 else n_buffer n - of_nat (length (n_queue n)))"

text \<open>The single queue of a process as the strategy of theory \<open>Channel_Queues\<close> sees it.\<close>

definition single :: "('e + 'v) list \<Rightarrow> ('v, 'e) qs" where
  "single q = \<lparr>qs_queue = [q], qs_index = 0, qs_popped = 0\<rparr>"

definition sp_pop :: "('v, 'e) node \<Rightarrow> (('e + 'v) list option \<times> bool \<times> ('v, 'e) node) res" where
  "sp_pop n =
     bindR (pop_from_queue default_queue_strategy (n_buffer n) (n_close n) (single (n_queue n)))
       (\<lambda>(r, cts, do_close, q, close).
         Inr (r, cts ! 0, n\<lparr>n_queue := qs_queue q ! 0, n_close := close,
           n_final := (if r = None then do_close else n_final n),
           n_popped := n_popped n @ (case r of None \<Rightarrow> [] | Some ms \<Rightarrow> ms)\<rparr>))"

definition sp_task_done :: "('v, 'e) node \<Rightarrow> bool \<times> bool \<times> ('v, 'e) node" where
  "sp_task_done n =
     (let do_run = (n_queue n \<noteq> [] \<or> n_close n) in (do_run, n_final n, n\<lparr>n_running := do_run\<rparr>))"

definition sp_clear :: "('v, 'e) node \<Rightarrow> bool \<times> ('v, 'e) node" where
  "sp_clear n =
     (let n = n\<lparr>n_suspend := n_suspend n - 1\<rparr>
      in if n_suspend n \<noteq> 0 then (False, n)
         else if n_queue n \<noteq> [] \<or> n_close n then (True, n) else (False, n\<lparr>n_running := False\<rparr>))"

section \<open>Steps of a thread\<close>

definition upd :: "nat \<Rightarrow> ('v, 'e) node \<Rightarrow> ('v, 'e) channels \<Rightarrow> ('v, 'e) channels" where
  "upd u n s = s\<lparr>nodes := (nodes s)(u := n)\<rparr>"

definition minimum_free_buffer :: "nat list \<Rightarrow> ('v, 'e) channels \<Rightarrow> 64 word" where
  "minimum_free_buffer cs s =
     (if cs = [] then 0
      else fold (\<lambda>c v. if n_alive (nodes s c) then min v (free_buffer (nodes s c)) else v) cs (-1))"

text \<open>The call of \<open>run\<close> after a critical section that decided for it.\<close>

definition run_if :: "nat \<Rightarrow> bool \<Rightarrow> ('v, 'e) frame list" where
  "run_if u do_run = (if do_run then [Run u] else [])"

definition sp_run :: "nat \<Rightarrow> ('v, 'e) channels \<Rightarrow> ('v, 'e) channels" where
  "sp_run u s = upd u ((nodes s u)\<lparr>n_sched := n_sched (nodes s u) + 1\<rparr>) s"

text \<open>
  \<open>step\<close> of a process without \<open>yield\<close>: it takes a message and tells the upstream process, then calls the
  function on an argument, drops an exception, or ends the task.
\<close>

definition sp_step :: "nat \<Rightarrow> ('v, 'e) channels \<Rightarrow> (('v, 'e) frame list \<times> ('v, 'e) channels) res" where
  "sp_step u s =
     bindR (sp_pop (nodes s u)) (\<lambda>(r, cts, n).
       Inr ((case n_up n of Some p \<Rightarrow> if cts then [Cts p u] else [] | None \<Rightarrow> []) @ [Handle u r], upd u n s))"

definition sp_handle ::
  "nat \<Rightarrow> ('e + 'v) list option \<Rightarrow> ('v, 'e) channels \<Rightarrow> (('v, 'e) frame list \<times> ('v, 'e) channels) res" where
  "sp_handle u r s = (case r of
     None \<Rightarrow> Inr ([Task_Done u], s)
   | Some ms \<Rightarrow>
       if find_argument_error ms \<noteq> None then Inr ([], upd u ((nodes s u)\<lparr>n_stalled := True\<rparr>) s)
       else (case ms of
               [Inr v] \<Rightarrow> if n_process (nodes s u) then Inr ([In_Fun u v], s) else Inl Null_Call
             | _ \<Rightarrow> Inl Out_Of_Bounds))"

definition sp_suspend :: "nat \<Rightarrow> nat \<Rightarrow> bool \<Rightarrow> 'e + 'v \<Rightarrow> ('v, 'e) channels \<Rightarrow> ('v, 'e) frame list \<times> ('v, 'e) channels" where
  "sp_suspend u k suspend m s =
     (let n = nodes s u
      in ([Sending u (take k (n_down n)) m],
          upd u (n\<lparr>n_suspend := (if suspend then k + 1 else 1), n_sent := n_sent n @ [m]\<rparr>) s))"

fun sp_send :: "nat \<Rightarrow> nat list \<Rightarrow> 'e + 'v \<Rightarrow> ('v, 'e) channels \<Rightarrow> ('v, 'e) frame list \<times> ('v, 'e) channels" where
  "sp_send u [] m s = ([Cts u u], s)"
| "sp_send u (c # cs) m s =
     (if n_alive (nodes s c) then
        (let (do_run, n) = sp_enqueue m (nodes s c) in (run_if c do_run @ [Sending u cs m], upd c n s))
      else ([Sending u cs m], s))"

definition sp_finalize :: "nat \<Rightarrow> ('v, 'e) channels \<Rightarrow> ('v, 'e) frame list \<times> ('v, 'e) channels" where
  "sp_finalize u s =
     (let n = nodes s u in (map Remove_Sender (n_down n), upd u (n\<lparr>n_down := [], n_process := False\<rparr>) s))"

definition sp_remove_sender :: "nat \<Rightarrow> ('v, 'e) channels \<Rightarrow> ('v, 'e) frame list \<times> ('v, 'e) channels" where
  "sp_remove_sender c s =
     (let n = nodes s c; k = n_senders n - 1
      in if n_alive n then (if k = 0 then [Close_Queue c] else [], upd c (n\<lparr>n_senders := k\<rparr>) s) else ([], s))"

definition with_node :: "nat \<Rightarrow> (('v, 'e) node \<Rightarrow> bool \<times> ('v, 'e) node) \<Rightarrow> ('v, 'e) channels \<Rightarrow>
    ('v, 'e) frame list \<times> ('v, 'e) channels" where
  "with_node u f s = (let (do_run, n) = f (nodes s u) in (run_if u do_run, upd u n s))"

fun frame_step :: "(nat \<Rightarrow> 'v \<Rightarrow> 'e + 'v) \<Rightarrow> ('v, 'e) frame \<Rightarrow> ('v, 'e) channels \<Rightarrow>
    (('v, 'e) frame list \<times> ('v, 'e) channels) res" where
  "frame_step fn (Run u) s = Inr ([], sp_run u s)"
| "frame_step fn (Step u) s = sp_step u s"
| "frame_step fn (Handle u r) s = sp_handle u r s"
| "frame_step fn (In_Fun u v) s = Inr ([Broadcast u (fn u v)], s)"
| "frame_step fn (Broadcast u m) s =
     (let ds = n_down (nodes s u) in Inr ([Suspend u (length ds) (minimum_free_buffer ds s \<le> 1) m], s))"
| "frame_step fn (Suspend u k b m) s = Inr (sp_suspend u k b m s)"
| "frame_step fn (Sending u cs m) s = Inr (sp_send u cs m s)"
| "frame_step fn (Cts u c) s = Inr (if n_final (nodes s u) then [] else [Cts2 u c], s)"
| "frame_step fn (Cts2 u c) s = Inr (with_node u sp_clear s)"
| "frame_step fn (Task_Done u) s =
     (let (do_run, do_final, n) = sp_task_done (nodes s u)
      in Inr (run_if u do_run @ (if do_final then [Finalize u] else []), upd u n s))"
| "frame_step fn (Finalize u) s = Inr (sp_finalize u s)"
| "frame_step fn (Remove_Sender c) s = Inr (sp_remove_sender c s)"
| "frame_step fn (Close_Queue c) s = Inr (with_node c sp_close_queue s)"
| "frame_step fn (Check_Start u) s = Inr (with_node u sp_check_start s)"

section \<open>The network\<close>

text \<open>
  What the program does with its handles: a new channel; \<open>operator|\<close> on a receiver, with a buffer size;
  \<open>set_ready\<close> on a receiver; a call and \<open>close\<close> of the sender of a root; the destruction of an idle
  process nothing is attached to. And the executor starts a \<open>step\<close> it holds, and thread \<open>k\<close> moves.
\<close>

datatype 'v ch_op = Channel | Pipe nat "64 word option" | Set_Ready nat | Send nat 'v | Close nat | Drop nat
  | Start nat | Thread nat

definition spawn :: "('v, 'e) frame list \<Rightarrow> ('v, 'e) channels \<Rightarrow> ('v, 'e) channels" where
  "spawn fs s = s\<lparr>threads := threads s @ [fs]\<rparr>"

definition add_node :: "('v, 'e) node \<Rightarrow> ('v, 'e) channels \<Rightarrow> ('v, 'e) channels" where
  "add_node n s = (upd (n_size s) n s)\<lparr>n_size := Suc (n_size s)\<rparr>"

datatype channel_error_codes = Broken_Channel | Process_Already_Running | No_State

definition receiver_pipe :: "nat \<Rightarrow> 64 word option \<Rightarrow> ('v, 'e) channels \<Rightarrow> channel_error_codes + ('v, 'e) channels" where
  "receiver_pipe u buffer s =
     (if \<not> u < n_size s \<or> \<not> n_alive (nodes s u) then Inl Broken_Channel
      else if n_ready (nodes s u) then Inl Process_Already_Running
      else
        (let n = nodes s u
         in Inr (add_node (shared_process (Some u) (case buffer of None \<Rightarrow> 1 | Some b \<Rightarrow> b))
              (upd u (n\<lparr>n_down := n_down n @ [n_size s]\<rparr>) s))))"

definition receiver_set_ready :: "nat \<Rightarrow> ('v, 'e) channels \<Rightarrow> ('v, 'e) channels" where
  "receiver_set_ready u s =
     (let n = nodes s u
      in if u < n_size s \<and> n_alive n \<and> \<not> n_ready n then
           (let k = n_receivers n - 1
            in spawn (if k = 0 then [Check_Start u] else []) (upd u (n\<lparr>n_receivers := k, n_ready := True\<rparr>) s))
         else s)"

definition sender_call :: "nat \<Rightarrow> 'v \<Rightarrow> ('v, 'e) channels \<Rightarrow> ('v, 'e) channels" where
  "sender_call u v s =
     (if u < n_size s \<and> n_alive (nodes s u) \<and> n_open (nodes s u) then
        (let (fs, s') = with_node u (sp_enqueue (Inr v)) s in spawn fs s')
      else s)"

definition sender_close :: "nat \<Rightarrow> ('v, 'e) channels \<Rightarrow> ('v, 'e) channels" where
  "sender_close u s =
     (if u < n_size s \<and> n_open (nodes s u)
      then spawn [Remove_Sender u] (upd u ((nodes s u)\<lparr>n_open := False\<rparr>) s) else s)"

fun ch_step :: "(nat \<Rightarrow> 'v \<Rightarrow> 'e + 'v) \<Rightarrow> 'v ch_op \<Rightarrow> ('v, 'e) channels \<Rightarrow> ('v, 'e) channels res" where
  "ch_step fn Channel s = Inr (add_node (shared_process None 1) s)"
| "ch_step fn (Pipe u b) s = Inr (case receiver_pipe u b s of Inl e \<Rightarrow> s | Inr s' \<Rightarrow> s')"
| "ch_step fn (Set_Ready u) s = Inr (receiver_set_ready u s)"
| "ch_step fn (Send u v) s = Inr (sender_call u v s)"
| "ch_step fn (Close u) s = Inr (sender_close u s)"
| "ch_step fn (Drop u) s =
     (let n = nodes s u
      in Inr (if u < n_size s \<and> n_down n = [] \<and> \<not> n_running n \<and> n_queue n = [] \<and> \<not> n_close n
              then upd u (n\<lparr>n_alive := False\<rparr>) s else s))"
| "ch_step fn (Start u) s =
     Inr (if u < n_size s \<and> 0 < n_sched (nodes s u)
          then spawn (if n_alive (nodes s u) then [Step u] else [])
            (upd u ((nodes s u)\<lparr>n_sched := n_sched (nodes s u) - 1\<rparr>) s)
          else s)"
| "ch_step fn (Thread k) s =
     (if k < length (threads s) then
        (case threads s ! k of
           [] \<Rightarrow> Inr s
         | f # fs \<Rightarrow> bindR (frame_step fn f s) (\<lambda>(gs, s). Inr (s\<lparr>threads := (threads s)[k := gs @ fs]\<rparr>)))
      else Inr s)"

definition channels_init :: "('v, 'e) channels" where
  "channels_init = \<lparr>nodes = (\<lambda>_. shared_process None 1), n_size = 0, threads = []\<rparr>"

end
