(* ===== verification/Channel_Inv.thy ===== *)
theory Channel_Inv
  imports Channel_Net
begin

text \<open>
  The invariant of a network of processes with the default buffer size, in which no process is
  destroyed: it accounts for every call that may make a process run and for every message and
  acknowledgement between two processes.
\<close>

section \<open>Counting frames\<close>

definition frames :: "('v, 'e) channels \<Rightarrow> ('v, 'e) frame list" where
  "frames s = concat (threads s)"

definition tot :: "('f \<Rightarrow> nat) \<Rightarrow> 'f list \<Rightarrow> nat" where
  "tot g F = sum_list (map g F)"

lemma tot_simps [simp]: "tot g [] = 0" "tot g (f # F) = g f + tot g F" "tot g (F @ G) = tot g F + tot g G"
  by (simp_all add: tot_def)

lemma tot_zero: "tot g F = 0 \<longleftrightarrow> (\<forall>f \<in> set F. g f = 0)"
  by (induction F) auto

lemma tot_mono: "(\<And>f. g f \<le> h f) \<Longrightarrow> tot g F \<le> tot h F"
  by (induction F) (auto intro: add_mono)

abbreviation ind :: "bool \<Rightarrow> nat" where
  "ind b \<equiv> (if b then 1 else 0)"

text \<open>A call on its way to the function of process \<open>u\<close> or in it, up to the second part of \<open>broadcast\<close>.\<close>

fun pre :: "nat \<Rightarrow> ('v, 'e) frame \<Rightarrow> nat" where
  "pre u (Run w) = ind (w = u)"
| "pre u (Step w) = ind (w = u)"
| "pre u (Handle w r) = ind (w = u)"
| "pre u (In_Fun w v) = ind (w = u)"
| "pre u (Broadcast w m) = ind (w = u)"
| "pre u (Suspend w k b m) = ind (w = u)"
| "pre u (Task_Done w) = ind (w = u)"
| "pre u _ = 0"

text \<open>Those that an ended process has no more.\<close>

fun busy :: "nat \<Rightarrow> ('v, 'e) frame \<Rightarrow> nat" where
  "busy u (Handle w r) = ind (w = u \<and> r \<noteq> None)"
| "busy u (Task_Done w) = 0"
| "busy u f = pre u f"

text \<open>The rest of a broadcast of \<open>u\<close>, up to its own \<open>clear_to_send\<close>, and the sends it has still to do.\<close>

fun own :: "nat \<Rightarrow> ('v, 'e) frame \<Rightarrow> nat" where
  "own u (Sending w cs m) = ind (w = u)"
| "own u (Cts w c) = ind (w = u \<and> c = u)"
| "own u (Cts2 w c) = ind (w = u \<and> c = u)"
| "own u _ = 0"

fun unsent :: "nat \<Rightarrow> ('v, 'e) frame \<Rightarrow> nat" where
  "unsent u (Sending w cs m) = (if w = u then length cs else 0)"
| "unsent u _ = 0"

fun unsent_to :: "nat \<Rightarrow> nat \<Rightarrow> ('v, 'e) frame \<Rightarrow> nat" where
  "unsent_to u c (Sending w cs m) = (if w = u then count_list cs c else 0)"
| "unsent_to u c _ = 0"

text \<open>A call of \<open>clear_to_send\<close> of \<open>u\<close> by the process \<open>c\<close> below it.\<close>

fun ack :: "nat \<Rightarrow> nat \<Rightarrow> ('v, 'e) frame \<Rightarrow> nat" where
  "ack u c (Cts w d) = ind (w = u \<and> d = c \<and> c \<noteq> u)"
| "ack u c (Cts2 w d) = ind (w = u \<and> d = c \<and> c \<noteq> u)"
| "ack u c _ = 0"

fun removing :: "nat \<Rightarrow> ('v, 'e) frame \<Rightarrow> nat" where
  "removing u (Remove_Sender w) = ind (w = u)"
| "removing u _ = 0"

fun closing :: "nat \<Rightarrow> ('v, 'e) frame \<Rightarrow> nat" where
  "closing u (Close_Queue w) = ind (w = u)"
| "closing u _ = 0"

fun starting :: "nat \<Rightarrow> ('v, 'e) frame \<Rightarrow> nat" where
  "starting u (Check_Start w) = ind (w = u)"
| "starting u _ = 0"

section \<open>The invariant\<close>

definition kids :: "('v, 'e) channels \<Rightarrow> nat \<Rightarrow> nat set" where
  "kids s u = {c. c < n_size s \<and> n_up (nodes s c) = Some u}"

definition load :: "('v, 'e) channels \<Rightarrow> ('v, 'e) frame list \<Rightarrow> nat \<Rightarrow> nat \<Rightarrow> nat" where
  "load s F u c = length (n_queue (nodes s c)) + tot (ack u c) F"

definition inflight :: "('v, 'e) channels \<Rightarrow> ('v, 'e) frame list \<Rightarrow> nat \<Rightarrow> nat" where
  "inflight s F u = (\<Sum>c \<in> kids s u. load s F u c)"

definition active :: "('v, 'e) channels \<Rightarrow> ('v, 'e) frame list \<Rightarrow> nat \<Rightarrow> nat" where
  "active s F u = n_sched (nodes s u) + tot (pre u) F"

text \<open>At most one call of \<open>step\<close> is on its way, in progress or suspended, and only while the process is running.\<close>

definition once_ok :: "('v, 'e) channels \<Rightarrow> ('v, 'e) frame list \<Rightarrow> nat \<Rightarrow> bool" where
  "once_ok s F u \<longleftrightarrow> active s F u + tot (own u) F \<le> 1 \<and>
     (0 < active s F u \<longrightarrow> n_suspend (nodes s u) = 0) \<and>
     (\<not> n_running (nodes s u) \<longrightarrow> active s F u + tot (own u) F = 0 \<and> n_suspend (nodes s u) = 0)"

text \<open>The suspend count is the number of sends and acknowledgements it waits for; each process has one at most.\<close>

definition flow_ok :: "('v, 'e) channels \<Rightarrow> ('v, 'e) frame list \<Rightarrow> nat \<Rightarrow> bool" where
  "flow_ok s F u \<longleftrightarrow> n_suspend (nodes s u) = tot (own u) F + tot (unsent u) F + inflight s F u \<and>
     (\<forall>c \<in> kids s u. load s F u c + tot (unsent_to u c) F \<le> 1)"

text \<open>The senders of a process: those held by the program or upstream, and those being destroyed. Its end.\<close>

definition held :: "('v, 'e) channels \<Rightarrow> nat \<Rightarrow> nat" where
  "held s u = (case n_up (nodes s u) of None \<Rightarrow> ind (n_open (nodes s u))
     | Some p \<Rightarrow> ind (u \<in> set (n_down (nodes s p))))"

definition end_ok :: "('v, 'e) channels \<Rightarrow> ('v, 'e) frame list \<Rightarrow> nat \<Rightarrow> bool" where
  "end_ok s F u \<longleftrightarrow> n_senders (nodes s u) = held s u + tot (removing u) F \<and>
     (0 < n_senders (nodes s u) \<longrightarrow> tot (closing u) F = 0 \<and> \<not> n_close (nodes s u) \<and> \<not> n_final (nodes s u)) \<and>
     tot (closing u) F \<le> 1 \<and> (n_close (nodes s u) \<longrightarrow> tot (closing u) F = 0 \<and> \<not> n_final (nodes s u)) \<and>
     (n_final (nodes s u) \<longrightarrow> tot (closing u) F = 0 \<and> n_suspend (nodes s u) = 0 \<and> tot (own u) F = 0 \<and>
        n_queue (nodes s u) = [] \<and> n_sched (nodes s u) = 0 \<and> tot (busy u) F = 0) \<and>
     (n_process (nodes s u) \<or> n_final (nodes s u))"

text \<open>A process whose receiver is not ready has not started; one that is ready and has something to do is running.\<close>

definition ready_ok :: "('v, 'e) channels \<Rightarrow> ('v, 'e) frame list \<Rightarrow> nat \<Rightarrow> bool" where
  "ready_ok s F u \<longleftrightarrow> n_receivers (nodes s u) = ind (\<not> n_ready (nodes s u)) \<and>
     (\<not> n_ready (nodes s u) \<longrightarrow> \<not> n_running (nodes s u)) \<and>
     (n_ready (nodes s u) \<and> (n_queue (nodes s u) \<noteq> [] \<or> n_close (nodes s u)) \<longrightarrow>
        n_running (nodes s u) \<or> 0 < tot (starting u) F)"

definition shape_ok :: "('v, 'e) channels \<Rightarrow> nat \<Rightarrow> bool" where
  "shape_ok s u \<longleftrightarrow> n_alive (nodes s u) \<and> n_buffer (nodes s u) = 1 \<and> distinct (n_down (nodes s u)) \<and>
     set (n_down (nodes s u)) \<subseteq> kids s u \<and> (\<forall>p. n_up (nodes s u) = Some p \<longrightarrow> p < u) \<and>
     (n_open (nodes s u) \<longrightarrow> n_up (nodes s u) = None)"

fun frame_ok :: "('v, 'e) channels \<Rightarrow> ('v, 'e) frame \<Rightarrow> bool" where
  "frame_ok s (Run u) = (u < n_size s)"
| "frame_ok s (Step u) = (u < n_size s)"
| "frame_ok s (Handle u r) = (u < n_size s \<and> (case r of None \<Rightarrow> True | Some ms \<Rightarrow> length ms = 1))"
| "frame_ok s (In_Fun u v) = (u < n_size s)"
| "frame_ok s (Broadcast u m) = (u < n_size s)"
| "frame_ok s (Suspend u k b m) = (u < n_size s \<and> k = length (n_down (nodes s u)) \<and> b)"
| "frame_ok s (Sending u cs m) = (u < n_size s \<and> set cs \<subseteq> set (n_down (nodes s u)) \<and> distinct cs)"
| "frame_ok s (Cts u c) = (u < n_size s \<and> c < n_size s \<and> (c = u \<or> c \<in> kids s u))"
| "frame_ok s (Cts2 u c) = (u < n_size s \<and> c < n_size s \<and> (c = u \<or> c \<in> kids s u))"
| "frame_ok s (Task_Done u) = (u < n_size s)"
| "frame_ok s (Finalize u) = (u < n_size s \<and> n_final (nodes s u))"
| "frame_ok s (Remove_Sender u) = (u < n_size s)"
| "frame_ok s (Close_Queue u) = (u < n_size s)"
| "frame_ok s (Check_Start u) = (u < n_size s \<and> n_ready (nodes s u))"

definition net_inv :: "('v, 'e) channels \<Rightarrow> ('v, 'e) frame list \<Rightarrow> bool" where
  "net_inv s F \<longleftrightarrow> list_all (frame_ok s) F \<and>
     (\<forall>u < n_size s. once_ok s F u \<and> flow_ok s F u \<and> end_ok s F u \<and> ready_ok s F u \<and> shape_ok s u)"

section \<open>Steps keep the invariant\<close>

lemma upd_simps [simp]:
  "nodes (upd u n s) = (nodes s)(u := n)" "n_size (upd u n s) = n_size s" "threads (upd u n s) = threads s"
  by (simp_all add: upd_def)

lemma upd_same [simp]: "upd u (nodes s u) s = s"
  by (simp add: upd_def)

lemma kids_upd [simp]: "n_up n = n_up (nodes s u) \<Longrightarrow> kids (upd u n s) w = kids s w"
  by (auto simp: kids_def)

text \<open>What a step at one process leaves alone.\<close>

definition same_place :: "('v, 'e) node \<Rightarrow> ('v, 'e) node \<Rightarrow> bool" where
  "same_place n n' \<longleftrightarrow> n_up n' = n_up n \<and> n_down n' = n_down n \<and> n_alive n' = n_alive n \<and> n_buffer n' = n_buffer n \<and>
     n_ready n' = n_ready n \<and> n_open n' = n_open n \<and> (n_final n \<longrightarrow> n_final n')"

lemma frame_ok_upd: "frame_ok s f \<Longrightarrow> same_place (nodes s u) n \<Longrightarrow> frame_ok (upd u n s) f"
  by (cases f) (auto simp: same_place_def)

lemma held_upd [simp]: "same_place (nodes s u) n \<Longrightarrow> held (upd u n s) w = held s w"
  by (auto simp: held_def same_place_def split: option.split)

lemma frames_ok_upd:
  "list_all (frame_ok s) F \<Longrightarrow> same_place (nodes s u) n \<Longrightarrow> list_all (frame_ok (upd u n s)) F"
  by (simp add: list_all_iff frame_ok_upd)

lemma net_invD:
  assumes "net_inv s F" and "u < n_size s"
  shows "once_ok s F u" "flow_ok s F u" "end_ok s F u" "ready_ok s F u" "shape_ok s u"
  using assms by (simp_all add: net_inv_def)

lemma net_inv_frame: "net_inv s (A @ f # B) \<Longrightarrow> frame_ok s f"
  by (simp add: net_inv_def)

lemma inflight_cong:
  assumes "kids s' u = kids s u" and "\<And>c. c \<in> kids s u \<Longrightarrow> load s' F' u c = load s F u c"
  shows "inflight s' F' u = inflight s F u"
  using assms by (simp add: inflight_def)

text \<open>Two frames, or the same number of them, weigh the same for every process but \<open>u\<close>.\<close>

definition local_to :: "nat \<Rightarrow> ('v, 'e) frame list \<Rightarrow> ('v, 'e) frame list \<Rightarrow> bool" where
  "local_to u fs gs \<longleftrightarrow> (\<forall>w. w \<noteq> u \<longrightarrow>
     tot (pre w) gs = tot (pre w) fs \<and> tot (busy w) gs = tot (busy w) fs \<and> tot (own w) gs = tot (own w) fs \<and>
     tot (removing w) gs = tot (removing w) fs \<and> tot (closing w) gs = tot (closing w) fs \<and>
     tot (starting w) gs = tot (starting w) fs)"

lemma local_change:
  assumes inv: "net_inv s (A @ fs @ B)" and pl: "same_place (nodes s u) n" and loc: "local_to u fs gs"
    and fr: "list_all (frame_ok (upd u n s)) gs"
    and o: "once_ok (upd u n s) (A @ gs @ B) u" and e: "end_ok (upd u n s) (A @ gs @ B) u"
    and r: "ready_ok (upd u n s) (A @ gs @ B) u"
    and fl: "\<And>w. w < n_size s \<Longrightarrow> flow_ok (upd u n s) (A @ gs @ B) w"
  shows "net_inv (upd u n s) (A @ gs @ B)"
proof -
  have "list_all (frame_ok (upd u n s)) (A @ gs @ B)"
    using inv fr frames_ok_upd [OF _ pl] by (simp add: net_inv_def)
  moreover have "once_ok (upd u n s) (A @ gs @ B) w" if "w < n_size s" for w
    using net_invD(1) [OF inv that] o loc by (cases "w = u") (simp_all add: once_ok_def active_def local_to_def)
  moreover have "end_ok (upd u n s) (A @ gs @ B) w" if "w < n_size s" for w
    using net_invD(3) [OF inv that] e loc pl by (cases "w = u") (simp_all add: end_ok_def local_to_def)
  moreover have "ready_ok (upd u n s) (A @ gs @ B) w" if "w < n_size s" for w
    using net_invD(4) [OF inv that] r loc by (cases "w = u") (simp_all add: ready_ok_def local_to_def)
  moreover have "shape_ok (upd u n s) w" if "w < n_size s" for w
    using net_invD(5) [OF inv that] pl by (auto simp: shape_ok_def same_place_def)
  ultimately show ?thesis using fl by (simp add: net_inv_def)
qed

lemmas local_inv = local_change [where fs = "[f]" for f, simplified append.simps]

text \<open>The flow of messages does not change.\<close>

lemma flow_unchanged:
  assumes inv: "net_inv s (A @ fs @ B)" and pl: "same_place (nodes s u) n"
    and "n_suspend n = n_suspend (nodes s u)"
    and q: "length (n_queue n) = length (n_queue (nodes s u)) \<or> n_up n = None"
    and g: "\<And>w. tot (own w) gs = tot (own w) fs \<and> tot (unsent w) gs = tot (unsent w) fs \<and>
      (\<forall>c. tot (unsent_to w c) gs = tot (unsent_to w c) fs \<and> tot (ack w c) gs = tot (ack w c) fs)"
    and w: "w < n_size s"
  shows "flow_ok (upd u n s) (A @ gs @ B) w"
proof -
  have up: "n_up n = n_up (nodes s u)" using pl by (simp add: same_place_def)
  have l: "load (upd u n s) (A @ gs @ B) w c = load s (A @ fs @ B) w c" if "c \<in> kids s w" for c
    using q g up that by (auto simp: load_def kids_def)
  then have "inflight (upd u n s) (A @ gs @ B) w = inflight s (A @ fs @ B) w"
    using up by (intro inflight_cong) simp_all
  then show ?thesis using net_invD(2) [OF inv w] g assms(3) up l by (cases "w = u") (simp_all add: flow_ok_def)
qed

lemmas flow_same = flow_unchanged [where fs = "[f]" for f, simplified append.simps]

lemmas node_defs = once_ok_def active_def end_ok_def ready_ok_def local_to_def run_if_def

lemma busy_pre: "busy u f \<le> pre u f"
  by (cases f) auto

lemma unsent_to_le: "tot (unsent_to u c) F \<le> tot (unsent u) F"
proof (rule tot_mono)
  show "unsent_to u c f \<le> unsent u f" for f :: "('v, 'e) frame" by (cases f) (auto simp: count_le_length)
qed

lemma count_distinct: "distinct xs \<Longrightarrow> count_list xs c \<le> 1"
  by (induction xs) auto

lemma run_inv:
  assumes "net_inv s (A @ Run u # B)"
  shows "net_inv (sp_run u s) (A @ [] @ B)"
  unfolding sp_run_def
proof (rule local_inv [OF assms])
  have u: "u < n_size s" using net_inv_frame [OF assms] by simp
  note D = net_invD [OF assms u]
  let ?n = "(nodes s u)\<lparr>n_sched := n_sched (nodes s u) + 1\<rparr>"
  show "once_ok (upd u ?n s) (A @ [] @ B) u" using D(1) by (simp add: node_defs)
  show "end_ok (upd u ?n s) (A @ [] @ B) u" using D(3) by (auto simp: node_defs same_place_def held_upd)
  show "ready_ok (upd u ?n s) (A @ [] @ B) u" using D(4) by (simp add: node_defs)
  show "flow_ok (upd u ?n s) (A @ [] @ B) w" if "w < n_size s" for w
    by (rule flow_same [OF assms _ _ _ _ that]) (simp_all add: node_defs same_place_def)
qed (simp_all add: node_defs same_place_def)

lemma pop_single:
  "pop_from_queue default_queue_strategy b c (single q) =
     Inr (case q of [] \<Rightarrow> (None, [False], c, single [], False)
        | m # ms \<Rightarrow> (Some [m], [of_nat (length ms) \<le> b - 1], False, single ms, c))"
  by (cases q) (simp_all add: pop_from_queue_def strategy_defs single_def get_i_def qs_pop_at_def void_i_def all_sizes_def)

lemma sp_pop_Nil: "n_queue n = [] \<Longrightarrow> sp_pop n = Inr (None, False, n\<lparr>n_close := False, n_final := n_close n\<rparr>)"
  by (simp add: sp_pop_def pop_single) (simp add: single_def)

lemma sp_pop_Cons:
  "n_queue n = m # ms \<Longrightarrow> sp_pop n =
     Inr (Some [m], of_nat (length ms) \<le> n_buffer n - 1, n\<lparr>n_queue := ms, n_popped := n_popped n @ [m]\<rparr>)"
  by (simp add: sp_pop_def pop_single) (simp add: single_def)

lemma step_empty_inv:
  assumes inv: "net_inv s (A @ Step u # B)" and q: "n_queue (nodes s u) = []"
  shows "\<exists>gs s'. sp_step u s = Inr (gs, s') \<and> net_inv s' (A @ gs @ B)"
proof -
  let ?n = "(nodes s u)\<lparr>n_close := False, n_final := n_close (nodes s u)\<rparr>"
  have u: "u < n_size s" using net_inv_frame [OF inv] by simp
  note D = net_invD [OF inv u]
  have fin: "\<not> n_final (nodes s u)" using D(3) by (auto simp: end_ok_def)
  then have pl: "same_place (nodes s u) ?n" by (simp add: same_place_def)
  have "net_inv (upd u ?n s) (A @ [Handle u None] @ B)"
  proof (rule local_inv [OF inv pl])
    show "once_ok (upd u ?n s) (A @ [Handle u None] @ B) u" using D(1) by (simp add: node_defs)
    have "tot (busy u) A \<le> tot (pre u) A" "tot (busy u) B \<le> tot (pre u) B" by (rule tot_mono, rule busy_pre)+
    then show "end_ok (upd u ?n s) (A @ [Handle u None] @ B) u" using D(1,3) q pl by (auto simp: node_defs)
    show "ready_ok (upd u ?n s) (A @ [Handle u None] @ B) u" using D(4) q by (simp add: node_defs)
    show "flow_ok (upd u ?n s) (A @ [Handle u None] @ B) w" if "w < n_size s" for w
      by (rule flow_same [OF inv pl _ _ _ that]) simp_all
  qed (simp_all add: node_defs u)
  then show ?thesis by (auto simp: sp_step_def sp_pop_Nil q split: option.split)
qed

lemma step_pop_inv:
  assumes inv: "net_inv s (A @ Step u # B)" and q: "n_queue (nodes s u) = m # ms"
  shows "\<exists>gs s'. sp_step u s = Inr (gs, s') \<and> net_inv s' (A @ gs @ B)"
proof -
  let ?n = "(nodes s u)\<lparr>n_queue := ms, n_popped := n_popped (nodes s u) @ [m]\<rparr>"
  let ?c = "case n_up (nodes s u) of Some p \<Rightarrow> [Cts p u] | None \<Rightarrow> []"
  have u: "u < n_size s" using net_inv_frame [OF inv] by simp
  note D = net_invD [OF inv u]
  have pl: "same_place (nodes s u) ?n" by (simp add: same_place_def)
  have p: "p < u" "u \<in> kids s p" "ms = []" if "n_up (nodes s u) = Some p" for p
  proof -
    show pu: "p < u" "u \<in> kids s p" using D(5) that u by (auto simp: shape_ok_def kids_def)
    then have "load s (A @ Step u # B) p u \<le> 1" using net_invD(2) [OF inv, of p] u by (fastforce simp: flow_ok_def)
    then show "ms = []" using q by (simp add: load_def)
  qed
  have "net_inv (upd u ?n s) (A @ (?c @ [Handle u (Some [m])]) @ B)"
  proof (rule local_inv [OF inv pl])
    show "local_to u [Step u] (?c @ [Handle u (Some [m])])"
      using p by (auto simp: node_defs split: option.split)
    show "list_all (frame_ok (upd u ?n s)) (?c @ [Handle u (Some [m])])"
      using p u by (auto split: option.split)
    show "once_ok (upd u ?n s) (A @ (?c @ [Handle u (Some [m])]) @ B) u"
      using D(1) p by (auto simp: node_defs split: option.split)
    show "end_ok (upd u ?n s) (A @ (?c @ [Handle u (Some [m])]) @ B) u"
      using D(3) pl q by (auto simp: node_defs split: option.split)
    show "ready_ok (upd u ?n s) (A @ (?c @ [Handle u (Some [m])]) @ B) u"
      using D(4) q by (auto simp: node_defs split: option.split)
    fix w assume w: "w < n_size s"
    have l: "load (upd u ?n s) (A @ (?c @ [Handle u (Some [m])]) @ B) w c = load s (A @ Step u # B) w c" if "c \<in> kids s w" for c
      using that p q by (auto simp: load_def kids_def split: option.split)
    then have "inflight (upd u ?n s) (A @ (?c @ [Handle u (Some [m])]) @ B) w = inflight s (A @ Step u # B) w"
      by (intro inflight_cong) simp_all
    then show "flow_ok (upd u ?n s) (A @ (?c @ [Handle u (Some [m])]) @ B) w"
      using net_invD(2) [OF inv w] l p by (auto simp: flow_ok_def split: option.split)
  qed
  moreover have "sp_step u s = Inr (?c @ [Handle u (Some [m])], upd u ?n s)"
    using D(5) p by (auto simp: sp_step_def sp_pop_Cons q shape_ok_def split: option.split)
  ultimately show ?thesis by blast
qed

text \<open>A frame that only changes into others at the same process.\<close>

lemma idle_inv:
  assumes inv: "net_inv s (A @ f # B)" and u: "u < n_size s" and loc: "local_to u [f] gs"
    and fr: "list_all (frame_ok s) gs"
    and g: "tot (pre u) gs = pre u f" "tot (own u) gs = own u f" "tot (busy u) gs \<le> busy u f"
      "tot (removing u) gs = removing u f" "tot (closing u) gs = closing u f" "tot (starting u) gs = starting u f"
    and h: "\<And>w. tot (own w) gs = own w f \<and> tot (unsent w) gs = unsent w f \<and>
      (\<forall>c. tot (unsent_to w c) gs = unsent_to w c f \<and> tot (ack w c) gs = ack w c f)"
  shows "net_inv s (A @ gs @ B)"
proof -
  have pl: "same_place (nodes s u) (nodes s u)" by (simp add: same_place_def)
  note D = net_invD [OF inv u]
  have "net_inv (upd u (nodes s u) s) (A @ gs @ B)"
  proof (rule local_inv [OF inv pl loc])
    show "once_ok (upd u (nodes s u) s) (A @ gs @ B) u" using D(1) g by (simp add: node_defs)
    show "end_ok (upd u (nodes s u) s) (A @ gs @ B) u" using D(3) g by (auto simp: node_defs)
    show "ready_ok (upd u (nodes s u) s) (A @ gs @ B) u" using D(4) g by (simp add: node_defs)
    show "flow_ok (upd u (nodes s u) s) (A @ gs @ B) w" if "w < n_size s" for w
      by (rule flow_same [OF inv pl _ _ _ that]) (simp_all add: h)
  qed (use fr in simp)
  then show ?thesis by simp
qed

lemma handle_none_inv: "net_inv s (A @ Handle u None # B) \<Longrightarrow> net_inv s (A @ [Task_Done u] @ B)"
  by (frule net_inv_frame, erule idle_inv [where u = u]) (auto simp: local_to_def)

lemma handle_arg_inv: "net_inv s (A @ Handle u (Some ms) # B) \<Longrightarrow> net_inv s (A @ [In_Fun u v] @ B)"
  by (frule net_inv_frame, erule idle_inv [where u = u]) (auto simp: local_to_def)

lemma in_fun_inv: "net_inv s (A @ In_Fun u v # B) \<Longrightarrow> net_inv s (A @ [Broadcast u m] @ B)"
  by (frule net_inv_frame, erule idle_inv [where u = u]) (auto simp: local_to_def)

lemma handle_error_inv:
  assumes inv: "net_inv s (A @ Handle u (Some ms) # B)"
  shows "net_inv (upd u ((nodes s u)\<lparr>n_stalled := True\<rparr>) s) (A @ [] @ B)"
proof (rule local_inv [OF inv])
  let ?n = "(nodes s u)\<lparr>n_stalled := True\<rparr>"
  have u: "u < n_size s" using net_inv_frame [OF inv] by simp
  note D = net_invD [OF inv u]
  show pl: "same_place (nodes s u) ?n" by (simp add: same_place_def)
  show "once_ok (upd u ?n s) (A @ [] @ B) u" using D(1) by (auto simp: node_defs)
  show "end_ok (upd u ?n s) (A @ [] @ B) u" using D(3) pl by (auto simp: node_defs)
  show "ready_ok (upd u ?n s) (A @ [] @ B) u" using D(4) by (simp add: node_defs)
  show "flow_ok (upd u ?n s) (A @ [] @ B) w" if "w < n_size s" for w
    by (rule flow_same [OF inv pl _ _ _ that]) simp_all
qed (simp_all add: node_defs)

lemma handle_inv:
  assumes inv: "net_inv s (A @ Handle u r # B)"
  shows "\<exists>gs s'. sp_handle u r s = Inr (gs, s') \<and> net_inv s' (A @ gs @ B)"
proof (cases r)
  case None
  then show ?thesis using inv handle_none_inv by (fastforce simp: sp_handle_def)
next
  case (Some ms)
  then obtain m where ms: "ms = [m]" using net_inv_frame [OF inv] by (auto simp: length_Suc_conv)
  have u: "u < n_size s" using net_inv_frame [OF inv] by simp
  have "n_process (nodes s u)" using net_invD(3) [OF inv u] Some by (auto simp: end_ok_def)
  then show ?thesis using inv handle_arg_inv handle_error_inv Some ms
    by (cases m) (fastforce simp: sp_handle_def find_argument_error_def tuple_find_def get_i_def)+
qed

lemma active_idle:
  assumes "net_inv s F" and "u < n_size s" and "0 < active s F u"
  shows "tot (own u) F = 0" "tot (unsent u) F = 0" "inflight s F u = 0"
    "c \<in> kids s u \<Longrightarrow> load s F u c = 0" "c \<in> kids s u \<Longrightarrow> tot (unsent_to u c) F = 0"
proof -
  note D = net_invD [OF assms(1,2)]
  show z: "tot (own u) F = 0" "tot (unsent u) F = 0" "inflight s F u = 0"
    using D(1,2) assms(3) by (auto simp: once_ok_def flow_ok_def)
  have "finite (kids s u)" by (simp add: kids_def)
  with z(3) show "c \<in> kids s u \<Longrightarrow> load s F u c = 0" by (simp add: inflight_def)
  show "c \<in> kids s u \<Longrightarrow> tot (unsent_to u c) F = 0"
    using z(2) unsent_to_le [of u c F] by simp
qed

lemma fold_min_le:
  fixes z :: "'a::linorder"
  shows "fold (\<lambda>c v. if P c then min v (g c) else v) cs z \<le> z \<and>
    (c \<in> set cs \<and> P c \<longrightarrow> fold (\<lambda>c v. if P c then min v (g c) else v) cs z \<le> g c)"
proof (induction cs arbitrary: z)
  case (Cons x xs)
  let ?z = "if P x then min z (g x) else z"
  have "?z \<le> z" and "P x \<longrightarrow> ?z \<le> g x" by simp_all
  with Cons.IH [of ?z] show ?case by (auto intro: order_trans simp del: min.bounded_iff)
qed simp

lemma broadcast_inv:
  assumes inv: "net_inv s (A @ Broadcast u m # B)"
  shows "net_inv s (A @ [Suspend u (length (n_down (nodes s u))) (minimum_free_buffer (n_down (nodes s u)) s \<le> 1) m] @ B)"
proof -
  let ?F = "A @ Broadcast u m # B" and ?ds = "n_down (nodes s u)"
  have u: "u < n_size s" using net_inv_frame [OF inv] by simp
  have "minimum_free_buffer ?ds s \<le> 1"
  proof (cases ?ds)
    case (Cons c cs)
    have c: "c \<in> kids s u" using net_invD(5) [OF inv u] Cons by (auto simp: shape_ok_def)
    then have "load s ?F u c = 0" using active_idle(4) [OF inv u _ c] by (simp add: active_def)
    moreover have "shape_ok s c" using net_invD(5) [OF inv, of c] c by (simp add: kids_def)
    ultimately have "n_alive (nodes s c)" "free_buffer (nodes s c) = 1"
      by (simp_all add: load_def shape_ok_def free_buffer_def)
    then show ?thesis
      using fold_min_le [of "\<lambda>c. n_alive (nodes s c)" "\<lambda>c. free_buffer (nodes s c)" ?ds "-1" c] Cons
      by (simp add: minimum_free_buffer_def del: fold.simps)
  qed (simp add: minimum_free_buffer_def)
  then show ?thesis
    by (intro idle_inv [OF inv u]) (use u in \<open>auto simp: local_to_def\<close>)
qed

lemma suspend_inv:
  assumes inv: "net_inv s (A @ Suspend u k b m # B)"
  shows "net_inv (snd (sp_suspend u k b m s)) (A @ fst (sp_suspend u k b m s) @ B)"
proof -
  let ?F = "A @ Suspend u k b m # B"
  let ?n = "(nodes s u)\<lparr>n_suspend := length (n_down (nodes s u)) + 1, n_sent := n_sent (nodes s u) @ [m]\<rparr>"
  let ?gs = "[Sending u (n_down (nodes s u)) m]"
  have f: "u < n_size s" "k = length (n_down (nodes s u))" "b" using net_inv_frame [OF inv] by simp_all
  note D = net_invD [OF inv f(1)]
  have act: "0 < active s ?F u" by (simp add: active_def)
  note Z = active_idle [OF inv f(1) act]
  have pl: "same_place (nodes s u) ?n" by (simp add: same_place_def)
  have down: "distinct (n_down (nodes s u))" "set (n_down (nodes s u)) \<subseteq> kids s u" using D(5) by (simp_all add: shape_ok_def)
  have "net_inv (upd u ?n s) (A @ ?gs @ B)"
  proof (rule local_inv [OF inv pl])
    show "once_ok (upd u ?n s) (A @ ?gs @ B) u" using D(1) by (auto simp: node_defs)
    show "end_ok (upd u ?n s) (A @ ?gs @ B) u" using D(3) pl by (auto simp: node_defs)
    show "ready_ok (upd u ?n s) (A @ ?gs @ B) u" using D(4) by (simp add: node_defs)
    fix w assume w: "w < n_size s"
    have l: "load (upd u ?n s) (A @ ?gs @ B) w c = load s ?F w c" for c by (simp add: load_def)
    then have i: "inflight (upd u ?n s) (A @ ?gs @ B) w = inflight s ?F w" by (intro inflight_cong) simp_all
    show "flow_ok (upd u ?n s) (A @ ?gs @ B) w"
    proof (cases "w = u")
      case True
      have "count_list (n_down (nodes s u)) c \<le> 1" for c
        using down(1) by (rule count_distinct)
      then show ?thesis using True Z i l by (simp add: flow_ok_def)
    next
      case False
      then show ?thesis using net_invD(2) [OF inv w] i l by (simp add: flow_ok_def)
    qed
  qed (use f down in \<open>simp_all add: node_defs\<close>)
  then show ?thesis using f by (simp add: sp_suspend_def Let_def)
qed

lemma send_done_inv: "net_inv s (A @ Sending u [] m # B) \<Longrightarrow> net_inv s (A @ [Cts u u] @ B)"
  by (frule net_inv_frame, erule idle_inv [where u = u]) (auto simp: local_to_def)

lemma sum_add_one:
  assumes "finite K" and "x \<in> K" and "g x = f x + 1" and "\<And>c. c \<in> K \<Longrightarrow> c \<noteq> x \<Longrightarrow> g c = (f c :: nat)"
  shows "sum g K = sum f K + 1"
proof -
  have "sum g (K - {x}) = sum f (K - {x})" using assms(4) by (intro sum.cong) auto
  then show ?thesis using assms(1-3) sum.remove [of K x g] sum.remove [of K x f] by simp
qed

lemma finite_kids [simp]: "finite (kids s u)"
  by (simp add: kids_def)

lemma start_if_simps [simp]: "fst (start_if b n) = b" "snd (start_if b n) = n\<lparr>n_running := n_running n \<or> b\<rparr>"
  by (simp_all add: start_if_def)

text \<open>The common part of the critical sections that may start a process: it was idle if they do.\<close>

lemma started_once:
  assumes "once_ok s (A @ f # B) u" and "pre u f = 0" and "tot (own u) gs = own u f" and "tot (pre u) gs = ind b"
    and "b \<Longrightarrow> \<not> n_running (nodes s u)"
    and "n_sched n = n_sched (nodes s u)" "n_suspend n = n_suspend (nodes s u)" "n_running n = (n_running (nodes s u) \<or> b)"
  shows "once_ok (upd u n s) (A @ gs @ B) u"
  using assms by (cases b) (auto simp: once_ok_def active_def)

lemma send_inv:
  assumes inv: "net_inv s (A @ Sending u (c # cs) m # B)"
  shows "net_inv (snd (sp_send u (c # cs) m s)) (A @ fst (sp_send u (c # cs) m s) @ B)"
proof -
  let ?f = "Sending u (c # cs) m"
  let ?F = "A @ ?f # B"
  let ?b = "n_receivers (nodes s c) = 0 \<and> \<not> n_running (nodes s c)"
  define n where "n = snd (sp_enqueue m (nodes s c))"
  let ?gs = "run_if c ?b @ [Sending u cs m]"
  have f: "u < n_size s" "set (c # cs) \<subseteq> set (n_down (nodes s u))" "distinct (c # cs)" using net_inv_frame [OF inv] by simp_all
  then have c: "c \<in> kids s u" using net_invD(5) [OF inv f(1)] by (auto simp: shape_ok_def)
  then have cn: "c < n_size s" "n_up (nodes s c) = Some u" by (simp_all add: kids_def)
  note D = net_invD [OF inv cn(1)]
  have uc: "u < c" using D(5) cn by (simp add: shape_ok_def)
  have n: "n_queue n = n_queue (nodes s c) @ [m]" "n_running n = (n_running (nodes s c) \<or> ?b)" "same_place (nodes s c) n"
    "n_sched n = n_sched (nodes s c)" "n_suspend n = n_suspend (nodes s c)" "n_senders n = n_senders (nodes s c)"
    "n_close n = n_close (nodes s c)" "n_final n = n_final (nodes s c)" "n_process n = n_process (nodes s c)"
    "n_receivers n = n_receivers (nodes s c)" "n_ready n = n_ready (nodes s c)"
    by (simp_all add: n_def sp_enqueue_def same_place_def)
  have held: "0 < held s c" using cn f(2) by (simp add: held_def)
  have "net_inv (upd c n s) (A @ ?gs @ B)"
  proof (rule local_inv [OF inv n(3)])
    show "local_to c [?f] ?gs" by (auto simp: node_defs)
    show "list_all (frame_ok (upd c n s)) ?gs" using cn f n(3) uc by (auto simp: run_if_def same_place_def)
    show "once_ok (upd c n s) (A @ ?gs @ B) c"
      by (rule started_once [OF D(1), where b = ?b]) (auto simp: n run_if_def)
    show "end_ok (upd c n s) (A @ ?gs @ B) c" using D(3) n held by (auto simp: node_defs)
    show "ready_ok (upd c n s) (A @ ?gs @ B) c" using D(4) n by (auto simp: node_defs)
    fix w assume w: "w < n_size s"
    have up: "n_up n = n_up (nodes s c)" using n(3) by (simp add: same_place_def)
    have l: "load (upd c n s) (A @ ?gs @ B) w d = load s ?F w d + ind (d = c)" for d
      using n(1) by (simp add: load_def run_if_def)
    show "flow_ok (upd c n s) (A @ ?gs @ B) w"
    proof (cases "w = u")
      case True
      have "inflight (upd c n s) (A @ ?gs @ B) u = inflight s ?F u + 1"
        unfolding inflight_def kids_upd [OF up] using c l True by (intro sum_add_one) auto
      then show ?thesis using True net_invD(2) [OF inv f(1)] l up uc by (auto simp: flow_ok_def run_if_def)
    next
      case False
      then have "c \<notin> kids s w" using cn by (simp add: kids_def)
      then have l': "load (upd c n s) (A @ ?gs @ B) w d = load s ?F w d" if "d \<in> kids s w" for d using l that by auto
      then have "inflight (upd c n s) (A @ ?gs @ B) w = inflight s ?F w" using up by (intro inflight_cong) simp_all
      then show ?thesis using False net_invD(2) [OF inv w] l' up n(5) by (cases "w = c") (auto simp: flow_ok_def run_if_def)
    qed
  qed
  moreover have "n_alive (nodes s c)" using D(5) by (simp add: shape_ok_def)
  moreover have "sp_enqueue m (nodes s c) = (?b, n)" by (simp add: n_def sp_enqueue_def start_if_def)
  ultimately show ?thesis by simp
qed

lemma cts_waits:
  assumes inv: "net_inv s (A @ f # B)" and "f = Cts u c \<or> f = Cts2 u c"
  shows "0 < n_suspend (nodes s u)"
proof -
  let ?F = "A @ f # B"
  have f: "u < n_size s" "c = u \<or> c \<in> kids s u" using net_inv_frame [OF inv] assms(2) by auto
  have "0 < tot (own u) ?F + inflight s ?F u"
  proof (cases "c = u")
    case False
    then have "0 < load s ?F u c" using assms(2) by (auto simp: load_def)
    moreover have "load s ?F u c \<le> inflight s ?F u"
      using f False by (auto simp: inflight_def intro: member_le_sum)
    ultimately show ?thesis by simp
  qed (use assms(2) in auto)
  moreover have "n_suspend (nodes s u) = tot (own u) ?F + tot (unsent u) ?F + inflight s ?F u"
    using net_invD(2) [OF inv f(1)] by (simp add: flow_ok_def)
  ultimately show ?thesis by linarith
qed

lemma cts_inv:
  assumes inv: "net_inv s (A @ Cts u c # B)"
  shows "\<not> n_final (nodes s u)" "net_inv s (A @ [Cts2 u c] @ B)"
proof -
  have f: "u < n_size s" "c < n_size s" "c = u \<or> c \<in> kids s u" using net_inv_frame [OF inv] by auto
  show "\<not> n_final (nodes s u)" using cts_waits [OF inv] net_invD(3) [OF inv f(1)] by (auto simp: end_ok_def)
  show "net_inv s (A @ [Cts2 u c] @ B)"
    by (rule idle_inv [OF inv f(1)]) (use f in \<open>auto simp: local_to_def\<close>)
qed

lemma cts2_inv:
  assumes inv: "net_inv s (A @ Cts2 u c # B)"
  shows "net_inv (snd (with_node u sp_clear s)) (A @ fst (with_node u sp_clear s) @ B)"
proof -
  let ?f = "Cts2 u c" and ?k = "n_suspend (nodes s u) - 1"
  let ?F = "A @ ?f # B"
  let ?b = "?k = 0 \<and> (n_queue (nodes s u) \<noteq> [] \<or> n_close (nodes s u))"
  let ?gs = "run_if u ?b :: ('a, 'b) frame list"
  define n where "n = snd (sp_clear (nodes s u))"
  have f: "u < n_size s" "c < n_size s" "c = u \<or> c \<in> kids s u" using net_inv_frame [OF inv] by auto
  have pos: "0 < n_suspend (nodes s u)" using cts_waits [OF inv] by simp
  note D = net_invD [OF inv f(1)]
  have idle: "active s ?F u = 0" and run: "n_running (nodes s u)" using D(1) pos by (auto simp: once_ok_def)
  have n: "n_suspend n = ?k" "same_place (nodes s u) n" "n_queue n = n_queue (nodes s u)" "n_close n = n_close (nodes s u)"
    "n_running n = (n_running (nodes s u) \<and> (?k \<noteq> 0 \<or> ?b))" "n_senders n = n_senders (nodes s u)"
    "n_sched n = n_sched (nodes s u)" "n_final n = n_final (nodes s u)" "n_process n = n_process (nodes s u)"
    "n_receivers n = n_receivers (nodes s u)" "n_ready n = n_ready (nodes s u)"
    by (auto simp: n_def sp_clear_def same_place_def Let_def)
  have up: "n_up n = n_up (nodes s u)" using n(2) by (simp add: same_place_def)
  have cu: "c \<noteq> u \<Longrightarrow> c \<in> kids s u" using f by simp
  have l: "load s ?F w d = load (upd u n s) (A @ ?gs @ B) w d + ind (w = u \<and> d = c \<and> c \<noteq> u)" for w d
    using n(3) by (auto simp: load_def run_if_def)
  have i: "inflight s ?F w = inflight (upd u n s) (A @ ?gs @ B) w + ind (w = u \<and> c \<noteq> u)" for w
  proof (cases "w = u \<and> c \<noteq> u")
    case True
    then have "inflight s ?F u = inflight (upd u n s) (A @ ?gs @ B) u + 1"
      unfolding inflight_def kids_upd [OF up] using cu l by (intro sum_add_one [of _ c]) auto
    then show ?thesis using True by simp
  next
    case False
    then show ?thesis using l up by (auto intro!: inflight_cong [symmetric])
  qed
  have flow: "flow_ok (upd u n s) (A @ ?gs @ B) w" if w: "w < n_size s" for w
    using net_invD(2) [OF inv w] i [of w] l [of w] up n(1) pos
    by (cases "w = u"; cases "c = u") (fastforce simp: flow_ok_def run_if_def)+
  have "tot (own u) (A @ ?gs @ B) = 0" if "?k = 0"
    using flow [OF f(1)] that n(1) by (simp add: flow_ok_def)
  then have once: "once_ok (upd u n s) (A @ ?gs @ B) u"
    using D(1) n idle run by (cases "?k = 0") (auto simp: once_ok_def active_def run_if_def)
  have "net_inv (upd u n s) (A @ ?gs @ B)"
  proof (rule local_inv [OF inv n(2) _ _ once _ _ flow])
    show "local_to u [?f] ?gs" by (auto simp: node_defs)
    show "list_all (frame_ok (upd u n s)) ?gs" using f by (auto simp: run_if_def)
    show "end_ok (upd u n s) (A @ ?gs @ B) u" using D(3) n pos by (auto simp: node_defs)
    show "ready_ok (upd u n s) (A @ ?gs @ B) u" using D(4) n run by (auto simp: node_defs)
  qed
  moreover have "sp_clear (nodes s u) = (?b, n)" by (auto simp: n_def sp_clear_def Let_def)
  ultimately show ?thesis by (simp add: with_node_def)
qed

lemma task_done_inv:
  assumes inv: "net_inv s (A @ Task_Done u # B)"
  shows "\<exists>gs s'. frame_step fn (Task_Done u) s = Inr (gs, s') \<and> net_inv s' (A @ gs @ B)"
proof -
  let ?f = "Task_Done u" and ?b = "n_queue (nodes s u) \<noteq> [] \<or> n_close (nodes s u)"
  let ?n = "(nodes s u)\<lparr>n_running := ?b\<rparr>"
  let ?gs = "run_if u ?b @ (if n_final (nodes s u) then [Finalize u] else [])"
  have u: "u < n_size s" using net_inv_frame [OF inv] by simp
  note D = net_invD [OF inv u]
  have pl: "same_place (nodes s u) ?n" by (simp add: same_place_def)
  have "net_inv (upd u ?n s) (A @ ?gs @ B)"
  proof (rule local_inv [OF inv pl])
    show "local_to u [?f] ?gs" by (auto simp: node_defs)
    show "list_all (frame_ok (upd u ?n s)) ?gs" using u by (auto simp: run_if_def)
    show "once_ok (upd u ?n s) (A @ ?gs @ B) u" using D(1) by (auto simp: node_defs)
    show "end_ok (upd u ?n s) (A @ ?gs @ B) u" using D(3) pl by (auto simp: node_defs)
    show "ready_ok (upd u ?n s) (A @ ?gs @ B) u" using D(1,4) by (auto simp: node_defs)
    show "flow_ok (upd u ?n s) (A @ ?gs @ B) w" if "w < n_size s" for w
      by (rule flow_same [OF inv pl _ _ _ that]) (auto simp: run_if_def)
  qed
  then show ?thesis by (auto simp: sp_task_done_def Let_def)
qed

lemma tot_map_count [simp]:
  "tot (removing w) (map Remove_Sender ds) = count_list ds w" "tot (pre w) (map Remove_Sender ds) = 0"
  "tot (own w) (map Remove_Sender ds) = 0" "tot (busy w) (map Remove_Sender ds) = 0"
  "tot (unsent w) (map Remove_Sender ds) = 0" "tot (unsent_to w c) (map Remove_Sender ds) = 0"
  "tot (ack w c) (map Remove_Sender ds) = 0" "tot (closing w) (map Remove_Sender ds) = 0"
  "tot (starting w) (map Remove_Sender ds) = 0"
  by (induction ds) auto

lemma finalize_inv:
  assumes inv: "net_inv s (A @ Finalize u # B)"
  shows "net_inv (snd (sp_finalize u s)) (A @ fst (sp_finalize u s) @ B)"
proof -
  let ?f = "Finalize u" and ?ds = "n_down (nodes s u)"
  let ?F = "A @ ?f # B"
  let ?n = "(nodes s u)\<lparr>n_down := [], n_process := False\<rparr>"
  let ?gs = "map Remove_Sender ?ds :: ('a, 'b) frame list"
  let ?s = "upd u ?n s"
  have u: "u < n_size s" "n_final (nodes s u)" using net_inv_frame [OF inv] by simp_all
  note D = net_invD [OF inv u(1)]
  have ended: "tot (own u) ?F = 0" "tot (busy u) ?F = 0" using D(3) u(2) by (auto simp: end_ok_def)
  have ds: "distinct ?ds" "set ?ds \<subseteq> kids s u" using D(5) by (simp_all add: shape_ok_def)
  have "frame_ok ?s g" if g: "g \<in> set (A @ B)" for g
  proof -
    have "frame_ok s g" using inv g by (auto simp: net_inv_def list_all_iff)
    moreover have "own u g = 0" "busy u g = 0" using ended g by (auto simp: tot_zero)
    ultimately show ?thesis by (cases g) (auto split: if_splits)
  qed
  moreover have "frame_ok ?s g" if "g \<in> set ?gs" for g using that ds by (auto simp: kids_def)
  ultimately have "list_all (frame_ok ?s) (A @ ?gs @ B)" by (auto simp: list_all_iff)
  moreover have "once_ok ?s (A @ ?gs @ B) w" if "w < n_size s" for w
    using net_invD(1) [OF inv that] by (cases "w = u") (simp_all add: once_ok_def active_def)
  moreover have "flow_ok ?s (A @ ?gs @ B) w" if "w < n_size s" for w
  proof -
    have l: "load ?s (A @ ?gs @ B) w c = load s ?F w c" for c by (simp add: load_def)
    then have "inflight ?s (A @ ?gs @ B) w = inflight s ?F w" by (intro inflight_cong) simp_all
    then show ?thesis using net_invD(2) [OF inv that] l by (cases "w = u") (simp_all add: flow_ok_def)
  qed
  moreover have "end_ok ?s (A @ ?gs @ B) w" if w: "w < n_size s" for w
  proof -
    have "held ?s w + count_list ?ds w = held s w"
    proof (cases "w \<in> set ?ds")
      case True
      then have "count_list ?ds w = 1" using count_distinct [OF ds(1), of w] count_list_0_iff [of ?ds w] by linarith
      moreover have "n_up (nodes s w) = Some u" "w \<noteq> u" using True ds net_invD(5) [OF inv w] by (auto simp: kids_def shape_ok_def)
      ultimately show ?thesis using True by (simp add: held_def)
    next
      case False
      then show ?thesis by (auto simp: held_def split: option.split)
    qed
    then show ?thesis using net_invD(3) [OF inv w] by (cases "w = u") (auto simp: end_ok_def u(2))
  qed
  moreover have "ready_ok ?s (A @ ?gs @ B) w" if "w < n_size s" for w
    using net_invD(4) [OF inv that] by (cases "w = u") (simp_all add: ready_ok_def)
  moreover have "shape_ok ?s w" if "w < n_size s" for w
    using net_invD(5) [OF inv that] by (cases "w = u") (simp_all add: shape_ok_def)
  ultimately show ?thesis by (simp add: sp_finalize_def Let_def net_inv_def)
qed

lemma remove_sender_inv:
  assumes inv: "net_inv s (A @ Remove_Sender u # B)"
  shows "net_inv (snd (sp_remove_sender u s)) (A @ fst (sp_remove_sender u s) @ B)"
proof -
  let ?f = "Remove_Sender u" and ?k = "n_senders (nodes s u) - 1"
  let ?n = "(nodes s u)\<lparr>n_senders := ?k\<rparr>"
  let ?gs = "if ?k = 0 then [Close_Queue u] else []"
  have u: "u < n_size s" using net_inv_frame [OF inv] by simp
  note D = net_invD [OF inv u]
  have pl: "same_place (nodes s u) ?n" by (simp add: same_place_def)
  have "net_inv (upd u ?n s) (A @ ?gs @ B)"
  proof (rule local_inv [OF inv pl])
    show "local_to u [?f] ?gs" by (auto simp: node_defs)
    show "list_all (frame_ok (upd u ?n s)) ?gs" using u by auto
    show "once_ok (upd u ?n s) (A @ ?gs @ B) u" using D(1) by (auto simp: node_defs)
    show "end_ok (upd u ?n s) (A @ ?gs @ B) u" using D(3) pl by (auto simp: node_defs)
    show "ready_ok (upd u ?n s) (A @ ?gs @ B) u" using D(4) by (auto simp: node_defs)
    show "flow_ok (upd u ?n s) (A @ ?gs @ B) w" if "w < n_size s" for w
      by (rule flow_same [OF inv pl _ _ _ that]) auto
  qed
  moreover have "n_alive (nodes s u)" using D(5) by (simp add: shape_ok_def)
  ultimately show ?thesis by (simp add: sp_remove_sender_def Let_def)
qed

lemma close_queue_inv:
  assumes inv: "net_inv s (A @ Close_Queue u # B)"
  shows "net_inv (snd (with_node u sp_close_queue s)) (A @ fst (with_node u sp_close_queue s) @ B)"
proof -
  let ?f = "Close_Queue u" and ?b = "n_receivers (nodes s u) = 0 \<and> \<not> n_running (nodes s u)"
  let ?n = "(nodes s u)\<lparr>n_close := True, n_running := n_running (nodes s u) \<or> ?b\<rparr>"
  let ?gs = "run_if u ?b :: ('a, 'b) frame list"
  have u: "u < n_size s" using net_inv_frame [OF inv] by simp
  note D = net_invD [OF inv u]
  have pl: "same_place (nodes s u) ?n" by (simp add: same_place_def)
  have "net_inv (upd u ?n s) (A @ ?gs @ B)"
  proof (rule local_inv [OF inv pl])
    show "local_to u [?f] ?gs" by (auto simp: node_defs)
    show "list_all (frame_ok (upd u ?n s)) ?gs" using u by (auto simp: run_if_def)
    show "once_ok (upd u ?n s) (A @ ?gs @ B) u"
      by (rule started_once [OF D(1), where b = ?b]) (auto simp: run_if_def)
    show "end_ok (upd u ?n s) (A @ ?gs @ B) u" using D(3) pl by (auto simp: node_defs)
    show "ready_ok (upd u ?n s) (A @ ?gs @ B) u" using D(4) by (auto simp: node_defs)
    show "flow_ok (upd u ?n s) (A @ ?gs @ B) w" if "w < n_size s" for w
      by (rule flow_same [OF inv pl _ _ _ that]) (auto simp: run_if_def)
  qed
  then show ?thesis by (simp add: with_node_def sp_close_queue_def start_if_def)
qed

lemma check_start_inv:
  assumes inv: "net_inv s (A @ Check_Start u # B)"
  shows "net_inv (snd (with_node u sp_check_start s)) (A @ fst (with_node u sp_check_start s) @ B)"
proof -
  let ?f = "Check_Start u" and ?b = "(n_queue (nodes s u) \<noteq> [] \<or> n_close (nodes s u)) \<and> \<not> n_running (nodes s u)"
  let ?n = "(nodes s u)\<lparr>n_running := n_running (nodes s u) \<or> ?b\<rparr>"
  let ?gs = "run_if u ?b :: ('a, 'b) frame list"
  have u: "u < n_size s" "n_ready (nodes s u)" using net_inv_frame [OF inv] by simp_all
  note D = net_invD [OF inv u(1)]
  have pl: "same_place (nodes s u) ?n" by (simp add: same_place_def)
  have fin: "n_final (nodes s u) \<Longrightarrow> \<not> ?b" using D(3) by (auto simp: end_ok_def)
  have "net_inv (upd u ?n s) (A @ ?gs @ B)"
  proof (rule local_inv [OF inv pl])
    show "local_to u [?f] ?gs" by (auto simp: node_defs)
    show "list_all (frame_ok (upd u ?n s)) ?gs" using u by (auto simp: run_if_def)
    show "once_ok (upd u ?n s) (A @ ?gs @ B) u"
      by (rule started_once [OF D(1), where b = ?b]) (auto simp: run_if_def)
    show "end_ok (upd u ?n s) (A @ ?gs @ B) u" using D(3) pl fin by (auto simp: node_defs)
    show "ready_ok (upd u ?n s) (A @ ?gs @ B) u" using D(4) u(2) by (auto simp: node_defs)
    show "flow_ok (upd u ?n s) (A @ ?gs @ B) w" if "w < n_size s" for w
      by (rule flow_same [OF inv pl _ _ _ that]) (auto simp: run_if_def)
  qed
  then show ?thesis by (simp add: with_node_def sp_check_start_def start_if_def)
qed

lemma frame_step_inv:
  assumes inv: "net_inv s (A @ f # B)"
  shows "\<exists>gs s'. frame_step fn f s = Inr (gs, s') \<and> net_inv s' (A @ gs @ B)"
proof (cases f)
  case (Step u)
  then show ?thesis using inv step_empty_inv step_pop_inv by (cases "n_queue (nodes s u)") auto
next
  case (Sending u cs m)
  show ?thesis
  proof (cases cs)
    case Nil
    then show ?thesis using inv send_done_inv Sending by fastforce
  next
    case (Cons c ds)
    then show ?thesis using send_inv [of s A u c ds m B] inv Sending by (metis frame_step.simps(7) prod.collapse)
  qed
next
  case (Cts u c)
  then show ?thesis using inv cts_inv by fastforce
next
  case (Broadcast u m)
  then show ?thesis using inv broadcast_inv by (fastforce simp: Let_def)
next
  case (Suspend u k b m)
  then show ?thesis using suspend_inv inv by (metis frame_step.simps(6) prod.collapse)
next
  case (Cts2 u c)
  then show ?thesis using cts2_inv inv by (metis frame_step.simps(9) prod.collapse)
next
  case (Finalize u)
  then show ?thesis using finalize_inv inv by (metis frame_step.simps(11) prod.collapse)
next
  case (Remove_Sender u)
  then show ?thesis using remove_sender_inv inv by (metis frame_step.simps(12) prod.collapse)
next
  case (Close_Queue u)
  then show ?thesis using close_queue_inv inv by (metis frame_step.simps(13) prod.collapse)
next
  case (Check_Start u)
  then show ?thesis using check_start_inv inv by (metis frame_step.simps(14) prod.collapse)
qed (use inv run_inv handle_inv in_fun_inv task_done_inv in fastforce)+

end
