(* ===== verification/Channel_Serial.thy ===== *)
theory Channel_Serial
  imports Channel_Inv
begin

text \<open>
  The operations of the program keep the invariant of theory \<open>Channel_Inv\<close>; with its steps this gives the
  contract \<open>safe_machine\<close> of the network, and that processes are serial.
\<close>

section \<open>Operations\<close>

lemma threads_update [simp]:
  "frame_ok (s\<lparr>threads := T\<rparr>) f = frame_ok s f" "net_inv (s\<lparr>threads := T\<rparr>) F = net_inv s F"
proof -
  have k: "kids (s\<lparr>threads := T\<rparr>) = kids s" by (simp add: kids_def fun_eq_iff)
  show f: "frame_ok (s\<lparr>threads := T\<rparr>) f = frame_ok s f" for f by (cases f) (simp_all add: k)
  have l: "load (s\<lparr>threads := T\<rparr>) = load s" "held (s\<lparr>threads := T\<rparr>) = held s"
    by (auto simp: load_def held_def fun_eq_iff split: option.split)
  have "once_ok (s\<lparr>threads := T\<rparr>) F u = once_ok s F u" "flow_ok (s\<lparr>threads := T\<rparr>) F u = flow_ok s F u"
    "end_ok (s\<lparr>threads := T\<rparr>) F u = end_ok s F u" "ready_ok (s\<lparr>threads := T\<rparr>) F u = ready_ok s F u"
    "shape_ok (s\<lparr>threads := T\<rparr>) u = shape_ok s u" for u
    by (simp_all add: once_ok_def active_def flow_ok_def inflight_def end_ok_def ready_ok_def shape_ok_def k l)
  then show "net_inv (s\<lparr>threads := T\<rparr>) F = net_inv s F" by (simp add: net_inv_def f list_all_iff)
qed

lemma frames_spawn [simp]: "frames (spawn fs s) = frames s @ fs" "net_inv (spawn fs s) F = net_inv s F"
  by (simp_all add: frames_def spawn_def)

lemma frames_upd [simp]: "frames (upd u n s) = frames s"
  by (simp add: frames_def)

definition default_op :: "'v ch_op \<Rightarrow> bool" where
  "default_op x = (case x of Pipe u b \<Rightarrow> b = None | Drop u \<Rightarrow> False | _ \<Rightarrow> True)"

text \<open>Nothing refers to a process that does not exist yet.\<close>

lemma unknown_frame:
  assumes "frame_ok s f" and "n_size s \<le> k"
  shows "pre k f = 0" "own k f = 0" "busy k f = 0" "unsent k f = 0" "unsent_to k c f = 0" "removing k f = 0"
    "closing k f = 0" "starting k f = 0" "ack k c f = 0" "ack c k f = 0"
  using assms by (cases f; auto)+

lemma unknown_tot:
  assumes "net_inv s F" and "n_size s \<le> k"
  shows "tot (pre k) F = 0" "tot (own k) F = 0" "tot (busy k) F = 0" "tot (unsent k) F = 0" "tot (unsent_to k c) F = 0"
    "tot (removing k) F = 0" "tot (closing k) F = 0" "tot (starting k) F = 0" "tot (ack k c) F = 0" "tot (ack c k) F = 0"
  using assms unknown_frame [OF _ assms(2)] by (auto simp: net_inv_def list_all_iff tot_zero)

definition with_child :: "nat option \<Rightarrow> ('v, 'e) channels \<Rightarrow> ('v, 'e) channels" where
  "with_child up s = add_node (shared_process up 1) (case up of None \<Rightarrow> s
     | Some p \<Rightarrow> upd p ((nodes s p)\<lparr>n_down := n_down (nodes s p) @ [n_size s]\<rparr>) s)"

lemma with_child_nodes:
  assumes "\<And>p. up = Some p \<Longrightarrow> p < n_size s"
  shows "n_size (with_child up s) = Suc (n_size s)" "nodes (with_child up s) (n_size s) = shared_process up 1"
    "w < n_size s \<Longrightarrow> nodes (with_child up s) w =
       (nodes s w)\<lparr>n_down := n_down (nodes s w) @ (if up = Some w then [n_size s] else [])\<rparr>"
  using assms by (auto simp: with_child_def add_node_def split: option.split)

lemma add_node_inv:
  assumes inv: "net_inv s F" and up: "\<And>p. up = Some p \<Longrightarrow> p < n_size s \<and> \<not> n_ready (nodes s p)"
  shows "net_inv (with_child up s) F"
proof -
  let ?k = "n_size s" and ?s = "with_child up s"
  have N: "n_size ?s = Suc ?k" "nodes ?s ?k = shared_process up 1"
    "\<And>w. w < ?k \<Longrightarrow> nodes ?s w = (nodes s w)\<lparr>n_down := n_down (nodes s w) @ (if up = Some w then [?k] else [])\<rparr>"
    using with_child_nodes [of up s] up by blast+
  note Z = unknown_tot [OF inv le_refl]
  have p: "tot (pre w) F = 0" if "up = Some w" for w
    using up [OF that] net_invD(1,4) [OF inv, of w] by (auto simp: once_ok_def active_def ready_ok_def)
  have kid: "kids ?s w = (if up = Some w then insert ?k (kids s w) else kids s w)" for w
    using N by (auto simp: kids_def less_Suc_eq shared_process_def)
  have kk: "?k \<notin> kids s w" "kids s ?k = {}" for w
    using net_invD(5) [OF inv] by (fastforce simp: kids_def shape_ok_def)+
  have "frame_ok ?s f" if f: "f \<in> set F" for f
  proof -
    have "frame_ok s f" using inv f by (auto simp: net_inv_def list_all_iff)
    moreover have "pre w f = 0" if "up = Some w" for w using p [OF that] f by (simp add: tot_zero)
    ultimately show ?thesis using N kid by (cases f) (fastforce split: option.splits)+
  qed
  then have "list_all (frame_ok ?s) F" by (simp add: list_all_iff)
  moreover have "once_ok ?s F w \<and> flow_ok ?s F w \<and> end_ok ?s F w \<and> ready_ok ?s F w \<and> shape_ok ?s w" if w: "w < ?k" for w
  proof -
    note D = net_invD [OF inv w] and Nw = N(3) [OF w]
    have l: "load ?s F w c = load s F w c" if "c \<in> kids s w" for c
      using that N(3) [of c] by (simp add: load_def kids_def)
    have lk: "load ?s F w ?k = 0" using Z by (simp add: load_def N shared_process_def)
    have i: "inflight ?s F w = inflight s F w"
      unfolding inflight_def kid using l lk kk by (cases "up = Some w") simp_all
    have "tot (unsent_to w ?k) F = 0"
    proof -
      have "?k \<notin> set cs" if "Sending w cs m \<in> set F" for cs m
        using that inv D(5) kk by (fastforce simp: net_inv_def list_all_iff shape_ok_def)
      then have "unsent_to w ?k f = 0" if "f \<in> set F" for f using that by (cases f) auto
      then show ?thesis by (simp add: tot_zero)
    qed
    then have "flow_ok ?s F w" using D(2) Nw i l lk by (auto simp: flow_ok_def kid)
    moreover have held: "held ?s w = held s w"
      using D(5) Nw N(3) w by (fastforce simp: held_def shape_ok_def split: option.split)
    moreover have "once_ok ?s F w" using D(1) by (simp add: once_ok_def active_def Nw)
    moreover have "end_ok ?s F w" using D(3) by (simp add: end_ok_def Nw held)
    moreover have "ready_ok ?s F w" using D(4) by (simp add: ready_ok_def Nw)
    moreover have "?k \<notin> set (n_down (nodes s w))" using D(5) kk by (auto simp: shape_ok_def)
    then have "shape_ok ?s w" using D(5) by (auto simp: shape_ok_def Nw kid)
    ultimately show ?thesis by blast
  qed
  moreover have "once_ok ?s F ?k \<and> flow_ok ?s F ?k \<and> end_ok ?s F ?k \<and> ready_ok ?s F ?k \<and> shape_ok ?s ?k"
  proof -
    have "held ?s ?k = 1" using N up by (auto simp: held_def shared_process_def split: option.split)
    moreover have "kids ?s ?k = {}" using kid kk up by auto
    ultimately show ?thesis using Z N(2) up
      by (cases up) (simp_all add: once_ok_def active_def flow_ok_def inflight_def end_ok_def ready_ok_def shape_ok_def shared_process_def)
  qed
  ultimately show ?thesis using N(1) by (simp add: net_inv_def less_Suc_eq)
qed

lemma set_ready_inv:
  assumes inv: "net_inv s (frames s)"
  shows "net_inv (receiver_set_ready u s) (frames (receiver_set_ready u s))"
proof (cases "u < n_size s \<and> n_alive (nodes s u) \<and> \<not> n_ready (nodes s u)")
  case True
  let ?n = "(nodes s u)\<lparr>n_receivers := 0, n_ready := True\<rparr>"
  let ?F = "frames s @ [Check_Start u]"
  have u: "u < n_size s" "\<not> n_ready (nodes s u)" using True by simp_all
  note D = net_invD [OF inv u(1)]
  have r: "n_receivers (nodes s u) - 1 = 0" using D(4) u(2) by (simp add: ready_ok_def)
  have ok: "frame_ok (upd u ?n s) f" if "frame_ok s f" for f using that by (cases f) auto
  have "list_all (frame_ok (upd u ?n s)) ?F" using inv u by (auto simp: net_inv_def list_all_iff ok)
  moreover have "once_ok (upd u ?n s) ?F w" if "w < n_size s" for w
    using net_invD(1) [OF inv that] by (cases "w = u") (simp_all add: once_ok_def active_def)
  moreover have "flow_ok (upd u ?n s) ?F w" if "w < n_size s" for w
  proof -
    have l: "load (upd u ?n s) ?F w c = load s (frames s) w c" for c by (simp add: load_def)
    then have "inflight (upd u ?n s) ?F w = inflight s (frames s) w" by (intro inflight_cong) simp_all
    then show ?thesis using net_invD(2) [OF inv that] l by (cases "w = u") (simp_all add: flow_ok_def)
  qed
  moreover have "end_ok (upd u ?n s) ?F w" if "w < n_size s" for w
  proof -
    have "held (upd u ?n s) w = held s w" by (auto simp: held_def split: option.split)
    then show ?thesis using net_invD(3) [OF inv that] by (cases "w = u") (simp_all add: end_ok_def)
  qed
  moreover have "ready_ok (upd u ?n s) ?F w" if "w < n_size s" for w
    using net_invD(4) [OF inv that] by (cases "w = u") (auto simp: ready_ok_def)
  moreover have "shape_ok (upd u ?n s) w" if "w < n_size s" for w
    using net_invD(5) [OF inv that] by (cases "w = u") (simp_all add: shape_ok_def)
  ultimately have "net_inv (upd u ?n s) ?F" by (simp add: net_inv_def)
  then show ?thesis using True r by (simp add: receiver_set_ready_def Let_def)
next
  case False
  then have "receiver_set_ready u s = s" by (auto simp: receiver_set_ready_def Let_def)
  then show ?thesis using inv by simp
qed

lemma sender_call_inv:
  assumes inv: "net_inv s (frames s)"
  shows "net_inv (sender_call u v s) (frames (sender_call u v s))"
proof (cases "u < n_size s \<and> n_alive (nodes s u) \<and> n_open (nodes s u)")
  case True
  let ?b = "n_receivers (nodes s u) = 0 \<and> \<not> n_running (nodes s u)"
  let ?n = "snd (sp_enqueue (Inr v) (nodes s u))"
  let ?gs = "run_if u ?b :: ('a, 'b) frame list"
  have u: "u < n_size s" "n_open (nodes s u)" using True by simp_all
  have inv': "net_inv s (frames s @ [] @ [])" using inv by simp
  note D = net_invD [OF inv' u(1)]
  have up: "n_up (nodes s u) = None" using D(5) u by (simp add: shape_ok_def)
  have pl: "same_place (nodes s u) ?n" by (simp add: sp_enqueue_def same_place_def)
  have "0 < held s u" using up u(2) by (simp add: held_def)
  then have fin: "\<not> n_final (nodes s u)" using D(3) by (simp add: end_ok_def)
  have "net_inv (upd u ?n s) (frames s @ ?gs @ [])"
  proof (rule local_change [OF inv' pl])
    show "local_to u [] ?gs" by (auto simp: node_defs)
    show "list_all (frame_ok (upd u ?n s)) ?gs" using u by (auto simp: run_if_def)
    show "once_ok (upd u ?n s) (frames s @ ?gs @ []) u"
      using D(1) by (auto simp: node_defs sp_enqueue_def)
    show "end_ok (upd u ?n s) (frames s @ ?gs @ []) u" using D(3) pl fin by (auto simp: node_defs sp_enqueue_def)
    show "ready_ok (upd u ?n s) (frames s @ ?gs @ []) u" using D(4) by (auto simp: node_defs sp_enqueue_def)
    show "flow_ok (upd u ?n s) (frames s @ ?gs @ []) w" if "w < n_size s" for w
      by (rule flow_unchanged [OF inv' pl _ _ _ that]) (use up in \<open>auto simp: run_if_def sp_enqueue_def\<close>)
  qed
  moreover have "with_node u (sp_enqueue (Inr v)) s = (?gs, upd u ?n s)"
    by (simp add: with_node_def sp_enqueue_def start_if_def)
  ultimately show ?thesis using True by (simp add: sender_call_def)
next
  case False
  then have "sender_call u v s = s" by (auto simp: sender_call_def)
  then show ?thesis using inv by simp
qed

lemma sender_close_inv:
  assumes inv: "net_inv s (frames s)"
  shows "net_inv (sender_close u s) (frames (sender_close u s))"
proof (cases "u < n_size s \<and> n_open (nodes s u)")
  case True
  let ?n = "(nodes s u)\<lparr>n_open := False\<rparr>" and ?F = "frames s @ [Remove_Sender u]"
  note D = net_invD [OF inv, of u]
  have up: "n_up (nodes s u) = None" using D(5) True by (simp add: shape_ok_def)
  have ok: "frame_ok (upd u ?n s) f" if "frame_ok s f" for f using that by (cases f) auto
  have "list_all (frame_ok (upd u ?n s)) ?F" using inv True by (auto simp: net_inv_def list_all_iff ok)
  moreover have "once_ok (upd u ?n s) ?F w" if "w < n_size s" for w
    using net_invD(1) [OF inv that] by (cases "w = u") (simp_all add: once_ok_def active_def)
  moreover have "flow_ok (upd u ?n s) ?F w" if "w < n_size s" for w
  proof -
    have l: "load (upd u ?n s) ?F w c = load s (frames s) w c" for c by (simp add: load_def)
    then have "inflight (upd u ?n s) ?F w = inflight s (frames s) w" by (intro inflight_cong) simp_all
    then show ?thesis using net_invD(2) [OF inv that] l by (cases "w = u") (simp_all add: flow_ok_def)
  qed
  moreover have "end_ok (upd u ?n s) ?F w" if "w < n_size s" for w
  proof -
    have "held (upd u ?n s) w = held s w - ind (w = u)" using up by (auto simp: held_def split: option.split)
    moreover have "0 < held s u" using up True by (simp add: held_def)
    ultimately show ?thesis using net_invD(3) [OF inv that] by (cases "w = u") (auto simp: end_ok_def)
  qed
  moreover have "ready_ok (upd u ?n s) ?F w" if "w < n_size s" for w
    using net_invD(4) [OF inv that] by (cases "w = u") (auto simp: ready_ok_def)
  moreover have "shape_ok (upd u ?n s) w" if "w < n_size s" for w
    using net_invD(5) [OF inv that] by (cases "w = u") (simp_all add: shape_ok_def)
  ultimately have "net_inv (upd u ?n s) ?F" by (simp add: net_inv_def)
  then show ?thesis using True by (simp add: sender_close_def)
qed (use inv in \<open>auto simp: sender_close_def\<close>)

lemma start_inv:
  assumes inv: "net_inv s (frames s)" and u: "u < n_size s" "0 < n_sched (nodes s u)"
  shows "net_inv (upd u ((nodes s u)\<lparr>n_sched := n_sched (nodes s u) - 1\<rparr>) s) (frames s @ [Step u])"
proof -
  let ?n = "(nodes s u)\<lparr>n_sched := n_sched (nodes s u) - 1\<rparr>"
  have inv': "net_inv s (frames s @ [] @ [])" using inv by simp
  note D = net_invD [OF inv' u(1)]
  have pl: "same_place (nodes s u) ?n" by (simp add: same_place_def)
  have "net_inv (upd u ?n s) (frames s @ [Step u] @ [])"
  proof (rule local_change [OF inv' pl])
    show "once_ok (upd u ?n s) (frames s @ [Step u] @ []) u" using D(1) u by (auto simp: node_defs)
    show "end_ok (upd u ?n s) (frames s @ [Step u] @ []) u" using D(3) pl u by (auto simp: node_defs)
    show "ready_ok (upd u ?n s) (frames s @ [Step u] @ []) u" using D(4) by (auto simp: node_defs)
    show "flow_ok (upd u ?n s) (frames s @ [Step u] @ []) w" if "w < n_size s" for w
      by (rule flow_unchanged [OF inv' pl _ _ _ that]) auto
  qed (use u in \<open>auto simp: node_defs\<close>)
  then show ?thesis by simp
qed

lemma thread_frames:
  assumes "k < length T" and "T ! k = f # fs"
  obtains A B where "concat T = A @ f # B" "\<And>gs. concat (T[k := gs @ fs]) = A @ gs @ B"
proof
  show "concat T = concat (take k T) @ f # (fs @ concat (drop (Suc k) T))"
    using assms by (subst id_take_nth_drop [OF assms(1)]) simp
  show "concat (T[k := gs @ fs]) = concat (take k T) @ gs @ (fs @ concat (drop (Suc k) T))" for gs
    using assms(1) by (simp add: upd_conv_take_nth_drop)
qed

lemma frame_step_threads: "frame_step fn f s = Inr (gs, s') \<Longrightarrow> threads s' = threads s"
proof -
  have h: "sp_handle u r s = Inr (gs, s') \<Longrightarrow> threads s' = threads s" for u r
    by (auto simp: sp_handle_def split: option.splits if_splits list.splits sum.splits)
  have t: "sp_step u s = Inr (gs, s') \<Longrightarrow> threads s' = threads s" for u
    by (auto simp: sp_step_def bindR_def split: sum.splits)
  show "frame_step fn f s = Inr (gs, s') \<Longrightarrow> threads s' = threads s"
  proof (cases f)
    case (Sending u cs m)
    then show "frame_step fn f s = Inr (gs, s') \<Longrightarrow> threads s' = threads s"
      by (cases cs) (auto simp: Let_def split: prod.splits if_splits)
  qed (use h t in \<open>auto simp: sp_run_def sp_suspend_def sp_finalize_def sp_remove_sender_def with_node_def
      sp_task_done_def Let_def split: prod.splits if_splits\<close>)
qed

lemma ch_step_inv:
  assumes inv: "net_inv s (frames s)" and ok: "default_op x"
  shows "\<exists>s'. ch_step fn x s = Inr s' \<and> net_inv s' (frames s')"
proof (cases x)
  case Channel
  have "frames (with_child None s) = frames s" by (simp add: with_child_def add_node_def frames_def)
  then show ?thesis using add_node_inv [OF inv, of None] Channel by (simp add: with_child_def)
next
  case (Pipe u b)
  then have b: "b = None" using ok by (simp add: default_op_def)
  show ?thesis
  proof (cases "u < n_size s \<and> n_alive (nodes s u) \<and> \<not> n_ready (nodes s u)")
    case True
    have "frames (with_child (Some u) s) = frames s" by (simp add: with_child_def add_node_def frames_def)
    then show ?thesis using add_node_inv [OF inv, of "Some u"] True Pipe b
      by (simp add: with_child_def receiver_pipe_def Let_def)
  qed (use inv Pipe in \<open>auto simp: receiver_pipe_def\<close>)
next
  case (Start u)
  show ?thesis
  proof (cases "u < n_size s \<and> 0 < n_sched (nodes s u)")
    case True
    moreover from True have "n_alive (nodes s u)" using net_invD(5) [OF inv] by (simp add: shape_ok_def)
    ultimately show ?thesis using start_inv [OF inv] Start by simp
  qed (use inv Start in auto)
next
  case (Thread k)
  show ?thesis
  proof (cases "k < length (threads s) \<and> threads s ! k \<noteq> []")
    case True
    then obtain f fs where t: "k < length (threads s)" "threads s ! k = f # fs" by (cases "threads s ! k") auto
    from thread_frames [OF this] obtain A B where AB: "frames s = A @ f # B"
      "\<And>gs. concat ((threads s)[k := gs @ fs]) = A @ gs @ B" unfolding frames_def by blast
    from frame_step_inv inv AB(1) obtain gs s' where s': "frame_step fn f s = Inr (gs, s')" "net_inv s' (A @ gs @ B)"
      by metis
    have "frames (s'\<lparr>threads := (threads s')[k := gs @ fs]\<rparr>) = A @ gs @ B"
      using AB(2) frame_step_threads [OF s'(1)] by (simp add: frames_def)
    then show ?thesis using t s' Thread by simp
  qed (use inv Thread in auto)
qed (use inv ok set_ready_inv sender_call_inv sender_close_inv in \<open>auto simp: default_op_def\<close>)

interpretation chs: safe_machine "\<lambda>s. net_inv s (frames s)" default_op "ch_step fn" for fn
  by unfold_locales (rule ch_step_inv)

lemma net_inv_init: "net_inv channels_init (frames channels_init)"
  by (simp add: net_inv_def channels_init_def frames_def)

section \<open>Processes are serial\<close>

fun is_call :: "nat \<Rightarrow> ('v, 'e) frame \<Rightarrow> bool" where
  "is_call u (In_Fun w v) = (w = u)"
| "is_call u _ = False"

lemma calls_le_pre: "length (filter (is_call u) F) \<le> tot (pre u) F"
proof (induction F)
  case (Cons f F)
  have "is_call u f \<Longrightarrow> pre u f = 1" by (cases f) auto
  with Cons show ?case by auto
qed simp

text \<open>
  C9. A process is serial, and its upstream process is held back: in a network of processes built by
  \<open>channel\<close> and \<open>operator|\<close> with the default buffer size, under every interleaving of its threads with
  the program, no function is called through an empty \<open>_process\<close>, the function of a process is never
  called twice at the same time, and never more than one message waits in the queue of a process
  that has an upstream process.
\<close>
theorem channel_serial:
  assumes "list_all default_op ops"
  shows "\<exists>s. run_ops (ch_step fn) ops channels_init = Inr s \<and>
    (\<forall>u < n_size s. length (filter (is_call u) (frames s)) \<le> 1 \<and>
       (n_up (nodes s u) \<noteq> None \<longrightarrow> length (n_queue (nodes s u)) \<le> 1))"
proof -
  from chs.run_safe [OF net_inv_init assms] obtain s where
    s: "run_ops (ch_step fn) ops channels_init = Inr s" "net_inv s (frames s)" by blast
  have "length (filter (is_call u) (frames s)) \<le> 1" if "u < n_size s" for u
    using net_invD(1) [OF s(2) that] calls_le_pre [of u "frames s"] by (simp add: once_ok_def active_def)
  moreover have "length (n_queue (nodes s u)) \<le> 1" if "u < n_size s" "n_up (nodes s u) = Some p" for u p
  proof -
    have p: "p < n_size s" "u \<in> kids s p" using net_invD(5) [OF s(2) that(1)] that by (auto simp: shape_ok_def kids_def)
    then show ?thesis using net_invD(2) [OF s(2) p(1)] by (fastforce simp: flow_ok_def load_def)
  qed
  ultimately show ?thesis using s(1) by auto
qed

theorem channel_serial_witness:
  "\<exists>s. run_ops (ch_step (\<lambda>u v. Inr (v + 1))) [Channel, Pipe 0 None, Set_Ready 0, Set_Ready 1, Send 0 (1::nat),
      Send 0 2, Thread 2, Start 0, Thread 4, Thread 4] channels_init = (Inr s :: (nat, string) channels res) \<and>
    length (filter (is_call 0) (frames s)) \<le> 1"
proof -
  let ?ops = "[Channel, Pipe 0 None, Set_Ready 0, Set_Ready 1, Send 0 (1::nat), Send 0 2, Thread 2, Start 0, Thread 4, Thread 4]"
  have "list_all default_op ?ops" by (simp add: default_op_def)
  from channel_serial [OF this, of "\<lambda>u v. Inr (v + 1)"] obtain s :: "(nat, string) channels" where
    s: "run_ops (ch_step (\<lambda>u v. Inr (v + 1))) ?ops channels_init = Inr s"
      "\<forall>u < n_size s. length (filter (is_call u) (frames s)) \<le> 1" by blast
  have "case run_ops (ch_step (\<lambda>u v. Inr (v + 1))) ?ops (channels_init :: (nat, string) channels) of
      Inl e \<Rightarrow> False | Inr s \<Rightarrow> n_size s = 2 \<and> map (is_call 0) (frames s) = [False, False, True]" by code_simp
  with s show ?thesis by auto
qed

end
