(* ===== verification/Channel_Data.thy ===== *)
theory Channel_Data
  imports Channel_Serial
begin

text \<open>
  What flows through a network of processes: on top of the invariant of theory \<open>Channel_Inv\<close>, the messages
  a process has taken are those its upstream process has broadcast, in order, and what it has
  broadcast are the results of its function; and a running process has something that keeps it going.
\<close>

section \<open>Messages\<close>

definition lst :: "('f \<Rightarrow> 'm list) \<Rightarrow> 'f list \<Rightarrow> 'm list" where
  "lst g F = concat (map g F)"

lemma lst_simps [simp]: "lst g [] = []" "lst g (f # F) = g f @ lst g F" "lst g (F @ G) = lst g F @ lst g G"
  by (simp_all add: lst_def)

lemma lst_Nil: "(\<And>f. f \<in> set F \<Longrightarrow> g f = []) \<Longrightarrow> lst g F = []"
  by (simp add: lst_def)

text \<open>What a process broadcasts for a message; an exception it drops.\<close>

fun out :: "(nat \<Rightarrow> 'v \<Rightarrow> 'e + 'v) \<Rightarrow> nat \<Rightarrow> 'e + 'v \<Rightarrow> ('e + 'v) list" where
  "out fn u (Inr v) = [fn u v]"
| "out fn u (Inl e) = []"

text \<open>The broadcast of \<open>u\<close> that a call has before it, and the message a broadcast of \<open>u\<close> has still to send to \<open>c\<close>.\<close>

fun pend :: "(nat \<Rightarrow> 'v \<Rightarrow> 'e + 'v) \<Rightarrow> nat \<Rightarrow> ('v, 'e) frame \<Rightarrow> ('e + 'v) list" where
  "pend fn u (Handle w r) = (if w = u then concat (map (out fn u) (case r of None \<Rightarrow> [] | Some ms \<Rightarrow> ms)) else [])"
| "pend fn u (In_Fun w v) = (if w = u then [fn u v] else [])"
| "pend fn u (Broadcast w m) = (if w = u then [m] else [])"
| "pend fn u (Suspend w k b m) = (if w = u then [m] else [])"
| "pend fn u _ = []"

fun underway :: "nat \<Rightarrow> nat \<Rightarrow> ('v, 'e) frame \<Rightarrow> ('e + 'v) list" where
  "underway u c (Sending w cs m) = (if w = u \<and> c \<in> set cs then [m] else [])"
| "underway u c _ = []"

definition data_ok :: "(nat \<Rightarrow> 'v \<Rightarrow> 'e + 'v) \<Rightarrow> ('v, 'e) channels \<Rightarrow> ('v, 'e) frame list \<Rightarrow> nat \<Rightarrow> bool" where
  "data_ok fn s F u \<longleftrightarrow> n_in (nodes s u) = n_popped (nodes s u) @ n_queue (nodes s u) \<and>
     n_sent (nodes s u) @ lst (pend fn u) F = concat (map (out fn u) (n_popped (nodes s u))) \<and>
     (\<forall>c \<in> kids s u. n_sent (nodes s u) = n_in (nodes s c) @ lst (underway u c) F) \<and>
     (\<not> n_ready (nodes s u) \<longrightarrow> n_popped (nodes s u) = []) \<and>
     (n_process (nodes s u) \<longrightarrow> kids s u \<subseteq> set (n_down (nodes s u)))"

definition data_inv :: "(nat \<Rightarrow> 'v \<Rightarrow> 'e + 'v) \<Rightarrow> ('v, 'e) channels \<Rightarrow> ('v, 'e) frame list \<Rightarrow> bool" where
  "data_inv fn s F \<longleftrightarrow> (\<forall>u < n_size s. data_ok fn s F u)"

lemma pend_pre: "pre u f = 0 \<Longrightarrow> pend fn u f = []"
  by (cases f) (auto split: if_splits)

lemma underway_own: "own u f = 0 \<Longrightarrow> underway u c f = []"
  by (cases f) (auto split: if_splits)

text \<open>The one call at work for a process.\<close>

lemma pend_only:
  assumes "net_inv s (A @ f # B)" and "u < n_size s" and "pre u f = 1"
  shows "lst (pend fn u) A = []" "lst (pend fn u) B = []" "lst (underway u c) A = []" "lst (underway u c) B = []"
proof -
  have "active s (A @ f # B) u + tot (own u) (A @ f # B) \<le> 1"
    using net_invD(1) [OF assms(1,2)] by (simp add: once_ok_def)
  then have "tot (pre u) A = 0" "tot (pre u) B = 0" "tot (own u) A = 0" "tot (own u) B = 0"
    using assms(3) by (simp_all add: active_def)
  then show "lst (pend fn u) A = []" "lst (pend fn u) B = []" "lst (underway u c) A = []" "lst (underway u c) B = []"
    by (auto simp: tot_zero intro!: lst_Nil pend_pre underway_own)
qed

lemma underway_only:
  assumes "net_inv s (A @ f # B)" and "u < n_size s" and "own u f = 1"
  shows "lst (underway u c) A = []" "lst (underway u c) B = []"
proof -
  have "tot (own u) (A @ f # B) \<le> 1" using net_invD(1) [OF assms(1,2)] by (simp add: once_ok_def)
  then have "tot (own u) A = 0" "tot (own u) B = 0" using assms(3) by simp_all
  then show "lst (underway u c) A = []" "lst (underway u c) B = []"
    by (auto simp: tot_zero intro!: lst_Nil underway_own)
qed

definition same_data :: "('v, 'e) node \<Rightarrow> ('v, 'e) node \<Rightarrow> bool" where
  "same_data n n' \<longleftrightarrow> n_up n' = n_up n \<and> n_in n' = n_in n \<and> n_popped n' = n_popped n \<and> n_queue n' = n_queue n \<and>
     n_sent n' = n_sent n \<and> n_ready n' = n_ready n \<and> (n_process n' \<longrightarrow> n_process n \<and> n_down n' = n_down n)"

lemma data_same:
  assumes d: "data_inv fn s (A @ fs @ B)" and n: "same_data (nodes s u) n"
    and g: "\<And>w. lst (pend fn w) gs = lst (pend fn w) fs" "\<And>w c. lst (underway w c) gs = lst (underway w c) fs"
  shows "data_inv fn (upd u n s) (A @ gs @ B)"
  unfolding data_inv_def
proof (intro allI impI)
  fix w assume "w < n_size (upd u n s)"
  then have w: "data_ok fn s (A @ fs @ B) w" using d by (simp add: data_inv_def)
  have k: "kids (upd u n s) w = kids s w" using n by (simp add: same_data_def)
  show "data_ok fn (upd u n s) (A @ gs @ B) w"
    using w n g by (auto simp: data_ok_def same_data_def k)
qed

lemmas data_frame = data_same [where fs = "[f]" for f, simplified append.simps]

section \<open>Steps of a thread\<close>

lemma data_invD: "data_inv fn s F \<Longrightarrow> u < n_size s \<Longrightarrow> data_ok fn s F u"
  by (simp add: data_inv_def)

text \<open>A frame that changes into others without touching a process.\<close>

lemma data_idle:
  assumes "data_inv fn s (A @ f # B)" and "\<And>w. lst (pend fn w) gs = pend fn w f" "\<And>w c. lst (underway w c) gs = underway w c f"
  shows "data_inv fn s (A @ gs @ B)"
  using data_frame [OF assms(1), of 0 "nodes s 0" gs] assms(2,3) by (simp add: same_data_def)

lemma step_data:
  assumes inv: "net_inv s (A @ Step u # B)" and d: "data_inv fn s (A @ Step u # B)" and r: "sp_step u s = Inr (gs, s')"
  shows "data_inv fn s' (A @ gs @ B)"
proof (cases "n_queue (nodes s u)")
  case Nil
  let ?n = "(nodes s u)\<lparr>n_close := False, n_final := n_close (nodes s u)\<rparr>"
  have "data_inv fn (upd u ?n s) (A @ [Handle u None] @ B)"
    by (rule data_frame [OF d]) (simp_all add: same_data_def)
  then show ?thesis using r by (auto simp: sp_step_def sp_pop_Nil Nil split: option.splits)
next
  case (Cons m ms)
  let ?n = "(nodes s u)\<lparr>n_queue := ms, n_popped := n_popped (nodes s u) @ [m]\<rparr>"
  have u: "u < n_size s" using net_inv_frame [OF inv] by simp
  note D = net_invD [OF inv u]
  note O = pend_only [OF inv u, simplified]
  have run: "n_ready (nodes s u)" using D(1,4) by (auto simp: once_ok_def active_def ready_ok_def)
  obtain ks where gs: "gs = ks @ [Handle u (Some [m])]" "s' = upd u ?n s" "\<And>w. lst (pend fn w) ks = []"
      "\<And>w c. lst (underway w c) ks = []"
    using r by (auto simp: sp_step_def sp_pop_Cons Cons split: option.splits if_splits)
  have "data_ok fn s' (A @ gs @ B) w" if w: "w < n_size s" for w
    using data_invD [OF d w] O run Cons
    by (cases "w = u") (auto simp: data_ok_def gs)
  then show ?thesis by (simp add: data_inv_def gs)
qed

lemma suspend_data:
  assumes inv: "net_inv s (A @ Suspend u k b m # B)" and d: "data_inv fn s (A @ Suspend u k b m # B)"
  shows "data_inv fn (snd (sp_suspend u k b m s)) (A @ fst (sp_suspend u k b m s) @ B)"
proof -
  let ?n = "(nodes s u)\<lparr>n_suspend := (if b then k + 1 else 1), n_sent := n_sent (nodes s u) @ [m]\<rparr>"
  have u: "u < n_size s" "k = length (n_down (nodes s u))" using net_inv_frame [OF inv] by simp_all
  note O = pend_only [OF inv u(1), simplified]
  have "n_process (nodes s u)" using net_invD(3) [OF inv u(1)] by (auto simp: end_ok_def)
  then have k: "kids s u \<subseteq> set (n_down (nodes s u))" using data_invD [OF d u(1)] by (simp add: data_ok_def)
  have "data_ok fn (upd u ?n s) (A @ [Sending u (n_down (nodes s u)) m] @ B) w" if w: "w < n_size s" for w
    using data_invD [OF d w] O k by (cases "w = u") (auto simp: data_ok_def)
  then have "data_inv fn (upd u ?n s) (A @ [Sending u (n_down (nodes s u)) m] @ B)" by (simp add: data_inv_def del: append_Cons append_Nil)
  moreover have "sp_suspend u k b m s = ([Sending u (n_down (nodes s u)) m], upd u ?n s)"
    using u(2) by (simp add: sp_suspend_def Let_def)
  ultimately show ?thesis by (metis fst_conv snd_conv)
qed

lemma send_data:
  assumes inv: "net_inv s (A @ Sending u (c # cs) m # B)" and d: "data_inv fn s (A @ Sending u (c # cs) m # B)"
  shows "data_inv fn (snd (sp_send u (c # cs) m s)) (A @ fst (sp_send u (c # cs) m s) @ B)"
proof -
  let ?b = "n_receivers (nodes s c) = 0 \<and> \<not> n_running (nodes s c)"
  let ?gs = "run_if c ?b @ [Sending u cs m]"
  define n where "n = snd (sp_enqueue m (nodes s c))"
  have f: "u < n_size s" "set (c # cs) \<subseteq> set (n_down (nodes s u))" "distinct (c # cs)" using net_inv_frame [OF inv] by simp_all
  then have c: "c \<in> kids s u" using net_invD(5) [OF inv f(1)] by (auto simp: shape_ok_def)
  then have cn: "c < n_size s" "n_up (nodes s c) = Some u" "u < c" using net_invD(5) [OF inv, of c] by (auto simp: kids_def shape_ok_def)
  note O = underway_only [OF inv f(1), simplified]
  have n: "n_up n = n_up (nodes s c)" "n_queue n = n_queue (nodes s c) @ [m]" "n_in n = n_in (nodes s c) @ [m]"
    "n_popped n = n_popped (nodes s c)" "n_sent n = n_sent (nodes s c)" "n_ready n = n_ready (nodes s c)"
    "n_process n = n_process (nodes s c)" "n_down n = n_down (nodes s c)"
    by (simp_all add: n_def sp_enqueue_def)
  have "data_ok fn (upd c n s) (A @ ?gs @ B) w" if w: "w < n_size s" for w
  proof (cases "w = u")
    case True
    then show ?thesis using data_invD [OF d w] O n c cn f(3) by (auto simp: data_ok_def run_if_def)
  next
    case False
    then have "c \<notin> kids s w" using cn by (simp add: kids_def)
    then show ?thesis using False data_invD [OF d w] n by (auto simp: data_ok_def run_if_def)
  qed
  moreover have "n_alive (nodes s c)" using net_invD(5) [OF inv cn(1)] by (simp add: shape_ok_def)
  moreover have "sp_enqueue m (nodes s c) = (?b, n)" by (simp add: n_def sp_enqueue_def start_if_def)
  ultimately show ?thesis by (simp add: data_inv_def)
qed

lemma handle_data:
  assumes inv: "net_inv s (A @ Handle u r # B)" and d: "data_inv fn s (A @ Handle u r # B)"
    and h: "sp_handle u r s = Inr (gs, s')"
  shows "data_inv fn s' (A @ gs @ B)"
proof (cases "\<exists>e. r = Some [Inl e]")
  case True
  then obtain e where r: "r = Some [Inl e]" by blast
  have "data_inv fn (upd u ((nodes s u)\<lparr>n_stalled := True\<rparr>) s) (A @ [] @ B)"
    by (rule data_frame [OF d]) (simp_all add: same_data_def r)
  then show ?thesis using h by (auto simp: sp_handle_def r find_argument_error_def tuple_find_def get_i_def)
next
  case False
  then consider "r = None" | v where "r = Some [Inr v]"
    using net_inv_frame [OF inv] by (cases r) (auto simp: length_Suc_conv, metis sum.exhaust)
  then show ?thesis
  proof cases
    case 1
    then have "data_inv fn s (A @ [Task_Done u] @ B)" using d by (intro data_idle [OF d]) simp_all
    then show ?thesis using h by (auto simp: sp_handle_def 1)
  next
    case 2
    then have "data_inv fn s (A @ [In_Fun u v] @ B)" by (intro data_idle [OF d]) simp_all
    then show ?thesis using h by (auto simp: sp_handle_def 2 find_argument_error_def tuple_find_def split: if_splits)
  qed
qed

lemma with_node_data:
  assumes d: "data_inv fn s (A @ f # B)" and f: "\<And>w. pend fn w f = []" "\<And>w c. underway w c f = []"
    and n: "same_data (nodes s u) (snd (g (nodes s u)))"
  shows "data_inv fn (snd (with_node u g s)) (A @ fst (with_node u g s) @ B)"
proof -
  have "data_inv fn (upd u (snd (g (nodes s u))) s) (A @ run_if u (fst (g (nodes s u))) @ B)"
    by (rule data_frame [OF d n]) (simp_all add: f run_if_def)
  then show ?thesis by (cases "g (nodes s u)") (simp add: with_node_def)
qed

lemma frame_step_data:
  assumes inv: "net_inv s (A @ f # B)" and d: "data_inv fn s (A @ f # B)" and r: "frame_step fn f s = Inr (gs, s')"
  shows "data_inv fn s' (A @ gs @ B)"
proof (cases f)
  case (Run u)
  have "data_inv fn (sp_run u s) (A @ [] @ B)"
    unfolding sp_run_def by (rule data_frame [OF d]) (simp_all add: same_data_def Run)
  then show ?thesis using r by (simp add: Run)
next
  case (Sending u cs m)
  show ?thesis
  proof (cases cs)
    case Nil
    then have "data_inv fn s (A @ [Cts u u] @ B)" by (intro data_idle [OF d]) (simp_all add: Sending)
    then show ?thesis using r by (auto simp: Sending Nil)
  next
    case (Cons c ds)
    then show ?thesis using send_data [of s A u c ds m B fn] inv d r Sending by (metis Inr_inject frame_step.simps(7) fst_conv snd_conv)
  qed
next
  case (Task_Done u)
  let ?b = "n_queue (nodes s u) \<noteq> [] \<or> n_close (nodes s u)"
  have "data_inv fn (upd u ((nodes s u)\<lparr>n_running := ?b\<rparr>) s)
      (A @ (run_if u ?b @ (if n_final (nodes s u) then [Finalize u] else [])) @ B)"
    by (rule data_frame [OF d]) (simp_all add: same_data_def Task_Done run_if_def)
  then show ?thesis using r by (auto simp: Task_Done sp_task_done_def Let_def)
next
  case (Finalize u)
  have m: "lst g (map Remove_Sender ds) = []" if "\<And>c. g (Remove_Sender c) = []" for g :: "('a, 'b) frame \<Rightarrow> 'c list" and ds
    using that by (induction ds) auto
  have "data_inv fn (upd u ((nodes s u)\<lparr>n_down := [], n_process := False\<rparr>) s) (A @ map Remove_Sender (n_down (nodes s u)) @ B)"
    by (rule data_frame [OF d]) (simp_all add: same_data_def Finalize m)
  then show ?thesis using r by (auto simp: Finalize sp_finalize_def Let_def)
next
  case (Remove_Sender u)
  let ?k = "n_senders (nodes s u) - 1"
  have "data_inv fn (upd u ((nodes s u)\<lparr>n_senders := ?k\<rparr>) s) (A @ (if ?k = 0 then [Close_Queue u] else []) @ B)"
    by (rule data_frame [OF d]) (simp_all add: same_data_def Remove_Sender)
  moreover have "n_alive (nodes s u)"
    using net_invD(5) [OF inv, of u] net_inv_frame [OF inv] by (simp add: shape_ok_def Remove_Sender)
  ultimately show ?thesis using r by (auto simp: Remove_Sender sp_remove_sender_def Let_def)
next
  case (Cts2 u c)
  have "same_data (nodes s u) (snd (sp_clear (nodes s u)))" by (simp add: same_data_def sp_clear_def Let_def)
  then show ?thesis using with_node_data [OF d, of u sp_clear] r Cts2 by simp
next
  case (Close_Queue u)
  have "same_data (nodes s u) (snd (sp_close_queue (nodes s u)))" by (simp add: same_data_def sp_close_queue_def)
  then show ?thesis using with_node_data [OF d, of u sp_close_queue] r Close_Queue by simp
next
  case (Check_Start u)
  have "same_data (nodes s u) (snd (sp_check_start (nodes s u)))" by (simp add: same_data_def sp_check_start_def)
  then show ?thesis using with_node_data [OF d, of u sp_check_start] r Check_Start by simp
next
  case (Suspend u k b m)
  then show ?thesis using suspend_data [of s A u k b m B fn] inv d r by simp
next
  case (Cts u c)
  have "data_inv fn s (A @ [Cts2 u c] @ B)" by (rule data_idle [OF d]) (simp_all add: Cts)
  moreover have "\<not> n_final (nodes s u)" using inv Cts cts_inv(1) by blast
  ultimately show ?thesis using r Cts by auto
next
  case (In_Fun u v)
  have "data_inv fn s (A @ [Broadcast u (fn u v)] @ B)" by (rule data_idle [OF d]) (simp_all add: In_Fun)
  then show ?thesis using r In_Fun by auto
next
  case (Broadcast u m)
  have "data_inv fn s (A @ [Suspend u k b m] @ B)" for k b by (rule data_idle [OF d]) (simp_all add: Broadcast)
  then show ?thesis using r Broadcast by (auto simp: Let_def)
qed (use inv d r step_data handle_data in auto)

section \<open>Operations\<close>

lemma data_threads [simp]: "data_inv fn (s\<lparr>threads := T\<rparr>) F = data_inv fn s F"
proof -
  have "kids (s\<lparr>threads := T\<rparr>) = kids s" by (simp add: kids_def fun_eq_iff)
  then show ?thesis by (simp add: data_inv_def data_ok_def)
qed

lemma data_spawn [simp]: "data_inv fn (spawn fs s) F = data_inv fn s F"
  by (simp add: spawn_def)

text \<open>An operation that adds calls with no message.\<close>

lemma data_op:
  assumes "data_inv fn s F" and "same_data (nodes s u) n" and "\<And>w. lst (pend fn w) gs = []" "\<And>w c. lst (underway w c) gs = []"
  shows "data_inv fn (upd u n s) (F @ gs)"
  using data_same [where A = F and fs = "[]" and B = "[]"] assms by simp

lemma unknown_lst:
  assumes inv: "net_inv s F" and "n_size s \<le> k"
  shows "lst (pend fn k) F = []" "lst (underway w k) F = []"
proof -
  note Z = unknown_tot [OF assms]
  show "lst (pend fn k) F = []" using Z(1) by (auto simp: tot_zero intro!: lst_Nil pend_pre)
  have "underway w k f = []" if f: "f \<in> set F" for f
  proof -
    have ok: "frame_ok s f" using inv f by (auto simp: net_inv_def list_all_iff)
    show ?thesis
    proof (cases f)
      case (Sending v cs m)
      then have "set cs \<subseteq> kids s v" using ok net_invD(5) [OF inv, of v] by (auto simp: shape_ok_def)
      then show ?thesis using Sending assms(2) by (auto simp: kids_def)
    qed simp_all
  qed
  then show "lst (underway w k) F = []" by (simp add: lst_Nil)
qed

lemma add_node_data:
  assumes inv: "net_inv s F" and d: "data_inv fn s F" and up: "\<And>p. up = Some p \<Longrightarrow> p < n_size s \<and> \<not> n_ready (nodes s p)"
  shows "data_inv fn (with_child up s) F"
proof -
  let ?k = "n_size s" and ?s = "with_child up s"
  have N: "n_size ?s = Suc ?k" "nodes ?s ?k = shared_process up 1"
    "\<And>w. w < ?k \<Longrightarrow> nodes ?s w = (nodes s w)\<lparr>n_down := n_down (nodes s w) @ (if up = Some w then [?k] else [])\<rparr>"
    using with_child_nodes [of up s] up by blast+
  note Z = unknown_lst [OF inv le_refl]
  have kid: "kids ?s w = (if up = Some w then insert ?k (kids s w) else kids s w)" for w
    using N by (auto simp: kids_def less_Suc_eq shared_process_def)
  have kk: "kids s ?k = {}" using net_invD(5) [OF inv] by (fastforce simp: kids_def shape_ok_def)
  have "data_ok fn ?s F w" if w: "w < ?k" for w
  proof -
    have "n_in (nodes ?s c) = n_in (nodes s c)" if "c \<in> kids s w" for c using that N(3) [of c] by (simp add: kids_def)
    moreover have "n_sent (nodes s w) = []" if "up = Some w"
      using up [OF that] data_invD [OF d w] by (auto simp: data_ok_def)
    ultimately show ?thesis using data_invD [OF d w] Z N(2)
      by (auto simp: data_ok_def N(3) [OF w] kid shared_process_def)
  qed
  moreover have "up \<noteq> Some ?k" using up by blast
  then have "data_ok fn ?s F ?k" using Z kk by (simp add: data_ok_def N(2) kid) (simp add: shared_process_def)
  ultimately show ?thesis using N(1) by (simp add: data_inv_def less_Suc_eq)
qed

lemma set_ready_data:
  assumes "data_inv fn s (frames s)"
  shows "data_inv fn (receiver_set_ready u s) (frames (receiver_set_ready u s))"
proof -
  have "data_inv fn (upd u ((nodes s u)\<lparr>n_receivers := k, n_ready := True\<rparr>) s) (frames s @ gs)" if "gs = [] \<or> gs = [Check_Start u]" for k gs
    using assms that by (fastforce simp: data_inv_def data_ok_def)
  then show ?thesis using assms by (auto simp: receiver_set_ready_def Let_def)
qed

lemma sender_call_data:
  assumes inv: "net_inv s (frames s)" and d: "data_inv fn s (frames s)"
  shows "data_inv fn (sender_call u v s) (frames (sender_call u v s))"
proof (cases "u < n_size s \<and> n_alive (nodes s u) \<and> n_open (nodes s u)")
  case True
  let ?n = "snd (sp_enqueue (Inr v) (nodes s u))"
  have "n_up (nodes s u) = None" using net_invD(5) [OF inv] True by (simp add: shape_ok_def)
  then have k: "u \<notin> kids s w" for w by (simp add: kids_def)
  have "data_ok fn (upd u ?n s) (frames s @ run_if u b) w" if "w < n_size s" for w b
    using data_invD [OF d that] k by (cases "w = u") (auto simp: data_ok_def sp_enqueue_def run_if_def)
  then have "data_inv fn (upd u ?n s) (frames s @ run_if u b)" for b by (simp add: data_inv_def)
  then show ?thesis using True by (auto simp: sender_call_def with_node_def split: prod.split)
qed (use d in \<open>auto simp: sender_call_def\<close>)

lemma sender_close_data:
  assumes "data_inv fn s (frames s)"
  shows "data_inv fn (sender_close u s) (frames (sender_close u s))"
  using assms data_op [OF assms, of u "(nodes s u)\<lparr>n_open := False\<rparr>" "[Remove_Sender u]"]
  by (auto simp: sender_close_def same_data_def)

end
