(* ===== verification/Channel_Live.thy ===== *)
theory Channel_Live
  imports Channel_Data
begin

text \<open>
  What keeps a network of processes going, up to its end: a process that runs has a call of \<open>step\<close>
  before it or waits for the processes downstream, a process without senders has been told to close,
  and a process that has ended has closed those downstream. A process that has dropped an exception is
  the exception: it is running, and nothing is left that would make it run.
\<close>

section \<open>The invariant\<close>

text \<open>The calls between the last \<open>pop_from_queue\<close> of a process and its end.\<close>

fun ending :: "nat \<Rightarrow> ('v, 'e) frame \<Rightarrow> nat" where
  "ending u (Handle w r) = ind (w = u \<and> r = None)"
| "ending u (Task_Done w) = ind (w = u)"
| "ending u (Finalize w) = ind (w = u)"
| "ending u _ = 0"

definition live_ok :: "('v, 'e) channels \<Rightarrow> ('v, 'e) frame list \<Rightarrow> nat \<Rightarrow> bool" where
  "live_ok s F u \<longleftrightarrow>
     (n_running (nodes s u) \<and> \<not> n_stalled (nodes s u) \<longrightarrow> 0 < active s F u \<or> 0 < n_suspend (nodes s u)) \<and>
     (n_senders (nodes s u) = 0 \<longrightarrow> 0 < tot (closing u) F \<or> n_close (nodes s u) \<or> n_final (nodes s u)) \<and>
     (n_final (nodes s u) \<longrightarrow> n_ready (nodes s u) \<and>
        (\<not> n_process (nodes s u) \<and> n_down (nodes s u) = [] \<or> 0 < tot (ending u) F)) \<and>
     (n_stalled (nodes s u) \<longrightarrow> n_running (nodes s u) \<and> active s F u = 0 \<and> n_suspend (nodes s u) = 0)"

definition live_inv :: "('v, 'e) channels \<Rightarrow> ('v, 'e) frame list \<Rightarrow> bool" where
  "live_inv s F \<longleftrightarrow> (\<forall>u < n_size s. live_ok s F u)"

lemma live_invD: "live_inv s F \<Longrightarrow> u < n_size s \<Longrightarrow> live_ok s F u"
  by (simp add: live_inv_def)

text \<open>A step at one process.\<close>

lemma live_local:
  assumes l: "live_inv s (A @ fs @ B)" and u: "live_ok (upd u n s) (A @ gs @ B) u"
    and g: "\<And>w. w \<noteq> u \<Longrightarrow> tot (pre w) gs = tot (pre w) fs \<and> tot (closing w) fs \<le> tot (closing w) gs \<and> tot (ending w) fs = tot (ending w) gs"
  shows "live_inv (upd u n s) (A @ gs @ B)"
  unfolding live_inv_def
proof (intro allI impI)
  fix w assume w: "w < n_size (upd u n s)"
  show "live_ok (upd u n s) (A @ gs @ B) w"
  proof (cases "w = u")
    case False
    have "live_ok s (A @ fs @ B) w" using w live_invD [OF l] by simp
    then show ?thesis using False g [OF False] by (auto simp: live_ok_def active_def)
  qed (use u in simp)
qed

lemmas live_frame = live_local [where fs = "[f]" for f, simplified append.simps]

lemmas live_defs = live_ok_def active_def run_if_def

section \<open>Steps of a thread\<close>

text \<open>A frame that changes into others without touching a process.\<close>

lemma live_idle:
  assumes l: "live_inv s (A @ f # B)" and g: "\<And>w. tot (pre w) gs = pre w f \<and> closing w f \<le> tot (closing w) gs \<and> tot (ending w) gs = ending w f"
  shows "live_inv s (A @ gs @ B)"
  unfolding live_inv_def
proof (intro allI impI)
  fix w assume "w < n_size s"
  then have "live_ok s (A @ f # B) w" using live_invD [OF l] by simp
  then show "live_ok s (A @ gs @ B) w" using g [of w] by (auto simp: live_ok_def active_def)
qed

lemma step_live:
  assumes inv: "net_inv s (A @ Step u # B)" and l: "live_inv s (A @ Step u # B)" and r: "sp_step u s = Inr (gs, s')"
  shows "live_inv s' (A @ gs @ B)"
proof -
  have u: "u < n_size s" using net_inv_frame [OF inv] by simp
  note D = net_invD [OF inv u] and L = live_invD [OF l u]
  have ready: "n_ready (nodes s u)" using D(1,4) by (auto simp: once_ok_def active_def ready_ok_def)
  have fin: "\<not> n_final (nodes s u)" using D(3) by (auto simp: end_ok_def)
  show ?thesis
  proof (cases "n_queue (nodes s u)")
    case Nil
    let ?n = "(nodes s u)\<lparr>n_close := False, n_final := n_close (nodes s u)\<rparr>"
    have "live_inv (upd u ?n s) (A @ [Handle u None] @ B)"
      by (rule live_frame [OF l]) (use L ready fin in \<open>auto simp: live_defs\<close>)
    then show ?thesis using r by (auto simp: sp_step_def sp_pop_Nil Nil split: option.splits)
  next
    case (Cons m ms)
    let ?n = "(nodes s u)\<lparr>n_queue := ms, n_popped := n_popped (nodes s u) @ [m]\<rparr>"
    obtain ks where gs: "gs = ks @ [Handle u (Some [m])]" "s' = upd u ?n s" "ks = [] \<or> (\<exists>p. ks = [Cts p u])"
      using r by (auto simp: sp_step_def sp_pop_Cons Cons split: option.splits if_splits)
    have "live_inv (upd u ?n s) (A @ gs @ B)"
      by (rule live_frame [OF l]) (use L fin gs in \<open>auto simp: live_defs\<close>)
    then show ?thesis using gs by simp
  qed
qed

lemma handle_live:
  assumes inv: "net_inv s (A @ Handle u r # B)" and l: "live_inv s (A @ Handle u r # B)" and h: "sp_handle u r s = Inr (gs, s')"
  shows "live_inv s' (A @ gs @ B)"
proof (cases "\<exists>e. r = Some [Inl e]")
  case True
  then obtain e where r: "r = Some [Inl e]" by blast
  have u: "u < n_size s" using net_inv_frame [OF inv] by simp
  have "live_inv (upd u ((nodes s u)\<lparr>n_stalled := True\<rparr>) s) (A @ [] @ B)"
    by (rule live_frame [OF l]) (use live_invD [OF l u] net_invD(1) [OF inv u] r in \<open>auto simp: live_defs once_ok_def\<close>)
  then show ?thesis using h by (auto simp: sp_handle_def r find_argument_error_def tuple_find_def get_i_def)
next
  case False
  then consider "r = None" | v where "r = Some [Inr v]"
    using net_inv_frame [OF inv] by (cases r) (auto simp: length_Suc_conv, metis sum.exhaust)
  then show ?thesis
  proof cases
    case 1
    have "live_inv s (A @ [Task_Done u] @ B)" by (rule live_idle [OF l]) (simp add: 1)
    then show ?thesis using h by (auto simp: sp_handle_def 1)
  next
    case 2
    have "live_inv s (A @ [In_Fun u v] @ B)" by (rule live_idle [OF l]) (simp add: 2)
    then show ?thesis using h by (auto simp: sp_handle_def 2 find_argument_error_def tuple_find_def split: if_splits)
  qed
qed

lemma with_node_live:
  assumes l: "live_inv s (A @ f # B)" and f: "\<And>w. pre w f = 0" "\<And>w. ending w f = 0" "\<And>w. w \<noteq> u \<Longrightarrow> closing w f = 0"
    and n: "\<And>b n. g (nodes s u) = (b, n) \<Longrightarrow> live_ok (upd u n s) (A @ run_if u b @ B) u"
  shows "live_inv (snd (with_node u g s)) (A @ fst (with_node u g s) @ B)"
proof (cases "g (nodes s u)")
  case (Pair b n)
  have "live_inv (upd u n s) (A @ run_if u b @ B)"
    by (rule live_frame [OF l n [OF Pair]]) (simp add: f run_if_def)
  then show ?thesis by (simp add: with_node_def Pair)
qed

lemma enqueue_live:
  assumes "live_ok s F u" and "sp_enqueue m (nodes s u) = (b, n)" and "tot (pre u) G = tot (pre u) F + ind b"
    and "tot (closing u) G = tot (closing u) F" "tot (ending u) G = tot (ending u) F"
  shows "live_ok (upd u n s) G u"
proof -
  have "n_running n = (n_running (nodes s u) \<or> b)" "n_stalled n = n_stalled (nodes s u)" "n_sched n = n_sched (nodes s u)"
    "n_suspend n = n_suspend (nodes s u)" "n_senders n = n_senders (nodes s u)" "n_close n = n_close (nodes s u)"
    "n_final n = n_final (nodes s u)" "n_ready n = n_ready (nodes s u)" "n_process n = n_process (nodes s u)"
    "n_down n = n_down (nodes s u)" "b \<longrightarrow> \<not> n_running (nodes s u)"
    using assms(2) by (auto simp: sp_enqueue_def start_if_def)
  then show ?thesis using assms by (auto simp: live_ok_def active_def)
qed

lemma send_live:
  assumes inv: "net_inv s (A @ Sending u (c # cs) m # B)" and l: "live_inv s (A @ Sending u (c # cs) m # B)"
  shows "live_inv (snd (sp_send u (c # cs) m s)) (A @ fst (sp_send u (c # cs) m s) @ B)"
proof -
  have "u < n_size s" "c \<in> set (n_down (nodes s u))" using net_inv_frame [OF inv] by simp_all
  then have c: "c < n_size s" using net_invD(5) [OF inv, of u] by (auto simp: shape_ok_def kids_def)
  have "live_inv (upd c n s) (A @ (run_if c b @ [Sending u cs m]) @ B)" if "sp_enqueue m (nodes s c) = (b, n)" for b n
    by (rule live_frame [OF l enqueue_live [OF live_invD [OF l c] that]]) (simp_all add: run_if_def)
  moreover have "n_alive (nodes s c)" using net_invD(5) [OF inv c] by (simp add: shape_ok_def)
  ultimately show ?thesis by (auto split: prod.split)
qed

lemma frame_step_live:
  assumes inv: "net_inv s (A @ f # B)" and l: "live_inv s (A @ f # B)" and r: "frame_step fn f s = Inr (gs, s')"
  shows "live_inv s' (A @ gs @ B)"
proof (cases f)
  case (Run u)
  then have u: "u < n_size s" using net_inv_frame [OF inv] by simp
  have "live_inv (sp_run u s) (A @ [] @ B)"
    unfolding sp_run_def by (rule live_frame [OF l]) (use live_invD [OF l u] Run in \<open>auto simp: live_defs\<close>)
  then show ?thesis using r by (simp add: Run)
next
  case (Sending u cs m)
  show ?thesis
  proof (cases cs)
    case Nil
    have "live_inv s (A @ [Cts u u] @ B)" by (rule live_idle [OF l]) (simp add: Sending)
    then show ?thesis using r by (auto simp: Sending Nil)
  next
    case (Cons c ds)
    then show ?thesis using send_live [of s A u c ds m B] inv l r Sending by (metis Inr_inject frame_step.simps(7) fst_conv snd_conv)
  qed
next
  case (Task_Done u)
  let ?b = "n_queue (nodes s u) \<noteq> [] \<or> n_close (nodes s u)"
  have u: "u < n_size s" using net_inv_frame [OF inv] Task_Done by simp
  have "live_inv (upd u ((nodes s u)\<lparr>n_running := ?b\<rparr>) s)
      (A @ (run_if u ?b @ (if n_final (nodes s u) then [Finalize u] else [])) @ B)"
    by (rule live_frame [OF l]) (use live_invD [OF l u] Task_Done in \<open>auto simp: live_defs\<close>)
  then show ?thesis using r by (auto simp: Task_Done sp_task_done_def Let_def)
next
  case (Finalize u)
  have u: "u < n_size s" using net_inv_frame [OF inv] Finalize by simp
  have m: "tot g (map Remove_Sender ds) = 0" if "\<And>c. g (Remove_Sender c) = 0" for g :: "('a, 'b) frame \<Rightarrow> nat" and ds
    using that by (induction ds) auto
  have "live_inv (upd u ((nodes s u)\<lparr>n_down := [], n_process := False\<rparr>) s) (A @ map Remove_Sender (n_down (nodes s u)) @ B)"
    by (rule live_frame [OF l]) (use live_invD [OF l u] Finalize m in \<open>auto simp: live_defs\<close>)
  then show ?thesis using r by (auto simp: Finalize sp_finalize_def Let_def)
next
  case (Remove_Sender u)
  let ?k = "n_senders (nodes s u) - 1"
  have u: "u < n_size s" using net_inv_frame [OF inv] Remove_Sender by simp
  have "0 < n_senders (nodes s u)" using net_invD(3) [OF inv u] Remove_Sender by (simp add: end_ok_def)
  then have "live_inv (upd u ((nodes s u)\<lparr>n_senders := ?k\<rparr>) s) (A @ (if ?k = 0 then [Close_Queue u] else []) @ B)"
    by (intro live_frame [OF l]) (use live_invD [OF l u] Remove_Sender in \<open>auto simp: live_defs\<close>)
  moreover have "n_alive (nodes s u)" using net_invD(5) [OF inv u] by (simp add: shape_ok_def)
  ultimately show ?thesis using r by (auto simp: Remove_Sender sp_remove_sender_def Let_def)
next
  case (Suspend u k b m)
  have u: "u < n_size s" using net_inv_frame [OF inv] Suspend by simp
  have "live_inv (snd (sp_suspend u k b m s)) (A @ fst (sp_suspend u k b m s) @ B)"
    unfolding sp_suspend_def Let_def fst_conv snd_conv
    by (rule live_frame [OF l]) (use live_invD [OF l u] Suspend in \<open>auto simp: live_defs\<close>)
  then show ?thesis using r by (simp add: Suspend)
next
  case (Cts2 u c)
  have u: "u < n_size s" using net_inv_frame [OF inv] Cts2 by simp
  have "live_inv (snd (with_node u sp_clear s)) (A @ fst (with_node u sp_clear s) @ B)"
    by (rule with_node_live [OF l]) (use live_invD [OF l u] cts_waits [OF inv, of u c] Cts2 in \<open>auto simp: live_defs sp_clear_def Let_def split: if_splits\<close>)
  then show ?thesis using r Cts2 by simp
next
  case (Close_Queue u)
  have u: "u < n_size s" using net_inv_frame [OF inv] Close_Queue by simp
  have "live_inv (snd (with_node u sp_close_queue s)) (A @ fst (with_node u sp_close_queue s) @ B)"
    by (rule with_node_live [OF l]) (use live_invD [OF l u] Close_Queue in \<open>auto simp: live_defs sp_close_queue_def start_if_def\<close>)
  then show ?thesis using r Close_Queue by simp
next
  case (Check_Start u)
  have u: "u < n_size s" using net_inv_frame [OF inv] Check_Start by simp
  have "live_inv (snd (with_node u sp_check_start s)) (A @ fst (with_node u sp_check_start s) @ B)"
    by (rule with_node_live [OF l]) (use live_invD [OF l u] Check_Start in \<open>auto simp: live_defs sp_check_start_def start_if_def\<close>)
  then show ?thesis using r Check_Start by simp
next
  case (Cts u c)
  have "live_inv s (A @ [Cts2 u c] @ B)" by (rule live_idle [OF l]) (simp add: Cts)
  moreover have "\<not> n_final (nodes s u)" using inv Cts cts_inv(1) by blast
  ultimately show ?thesis using r Cts by auto
next
  case (In_Fun u v)
  have "live_inv s (A @ [Broadcast u (fn u v)] @ B)" by (rule live_idle [OF l]) (simp add: In_Fun)
  then show ?thesis using r In_Fun by auto
next
  case (Broadcast u m)
  have "live_inv s (A @ [Suspend u k b m] @ B)" for k b by (rule live_idle [OF l]) (simp add: Broadcast)
  then show ?thesis using r Broadcast by (auto simp: Let_def)
qed (use inv l r step_live handle_live in auto)

section \<open>Operations\<close>

lemma live_threads [simp]: "live_inv (s\<lparr>threads := T\<rparr>) F = live_inv s F"
  by (simp add: live_inv_def live_ok_def active_def)

lemma live_spawn [simp]: "live_inv (spawn fs s) F = live_inv s F"
  by (simp add: spawn_def)

lemma live_op:
  assumes "live_inv s F" and "u < n_size s \<Longrightarrow> live_ok s F u \<Longrightarrow> live_ok (upd u n s) (F @ gs) u"
    and "\<And>w. w \<noteq> u \<Longrightarrow> tot (pre w) gs = 0 \<and> tot (ending w) gs = 0"
  shows "u < n_size s \<Longrightarrow> live_inv (upd u n s) (F @ gs)"
  using live_local [where A = F and fs = "[]" and B = "[]" and gs = gs and u = u and n = n and s = s] assms
  by (simp add: live_inv_def)

lemma add_node_live:
  assumes l: "live_inv s F" and up: "\<And>p. up = Some p \<Longrightarrow> p < n_size s \<and> \<not> n_ready (nodes s p)"
  shows "live_inv (with_child up s) F"
proof -
  let ?k = "n_size s" and ?s = "with_child up s"
  have N: "n_size ?s = Suc ?k" "nodes ?s ?k = shared_process up 1"
    "\<And>w. w < ?k \<Longrightarrow> nodes ?s w = (nodes s w)\<lparr>n_down := n_down (nodes s w) @ (if up = Some w then [?k] else [])\<rparr>"
    using with_child_nodes [of up s] up by blast+
  have "live_ok ?s F w" if "w < ?k" for w
    using live_invD [OF l that] up [of w] by (auto simp: live_ok_def active_def N(3) [OF that])
  moreover have "live_ok ?s F ?k" by (simp add: live_ok_def N(2)) (simp add: shared_process_def)
  ultimately show ?thesis using N(1) by (simp add: live_inv_def less_Suc_eq)
qed

lemma set_ready_live:
  assumes "live_inv s (frames s)"
  shows "live_inv (receiver_set_ready u s) (frames (receiver_set_ready u s))"
proof -
  have "live_inv (upd u ((nodes s u)\<lparr>n_receivers := k, n_ready := True\<rparr>) s) (frames s @ gs)"
    if "u < n_size s" "gs = [] \<or> gs = [Check_Start u]" for k gs
    by (rule live_op [OF assms _ _ that(1)]) (use that in \<open>auto simp: live_defs\<close>)
  then show ?thesis using assms by (auto simp: receiver_set_ready_def Let_def)
qed

lemma sender_call_live:
  assumes "live_inv s (frames s)"
  shows "live_inv (sender_call u v s) (frames (sender_call u v s))"
proof -
  have "live_inv (upd u n s) (frames s @ run_if u b)" if "u < n_size s" "sp_enqueue (Inr v) (nodes s u) = (b, n)" for b n
    by (rule live_op [OF assms enqueue_live [OF _ that(2)] _ that(1)]) (simp_all add: run_if_def)
  then show ?thesis using assms by (auto simp: sender_call_def with_node_def split: prod.split)
qed

lemma sender_close_live:
  assumes "live_inv s (frames s)"
  shows "live_inv (sender_close u s) (frames (sender_close u s))"
proof -
  have "live_inv (upd u ((nodes s u)\<lparr>n_open := False\<rparr>) s) (frames s @ [Remove_Sender u])" if "u < n_size s"
    by (rule live_op [OF assms _ _ that]) (auto simp: live_defs)
  then show ?thesis using assms by (auto simp: sender_close_def)
qed

lemma start_live:
  assumes "live_inv s (frames s)" and "u < n_size s" and "0 < n_sched (nodes s u)"
  shows "live_inv (upd u ((nodes s u)\<lparr>n_sched := n_sched (nodes s u) - 1\<rparr>) s) (frames s @ [Step u])"
  by (rule live_op [OF assms(1) _ _ assms(2)]) (use assms(3) in \<open>auto simp: live_defs\<close>)

section \<open>Every reachable state\<close>

definition full_inv :: "(nat \<Rightarrow> 'v \<Rightarrow> 'e + 'v) \<Rightarrow> ('v, 'e) channels \<Rightarrow> bool" where
  "full_inv fn s \<longleftrightarrow> net_inv s (frames s) \<and> data_inv fn s (frames s) \<and> live_inv s (frames s)"

lemma full_child:
  assumes "full_inv fn s" and "\<And>p. up = Some p \<Longrightarrow> p < n_size s \<and> \<not> n_ready (nodes s p)"
  shows "full_inv fn (with_child up s)"
proof -
  have "frames (with_child up s) = frames s" by (auto simp: with_child_def add_node_def frames_def split: option.split)
  then show ?thesis using assms add_node_inv add_node_data add_node_live by (metis full_inv_def)
qed

lemma full_step:
  assumes inv: "full_inv fn s" and ok: "default_op x"
  shows "\<exists>s'. ch_step fn x s = Inr s' \<and> full_inv fn s'"
proof (cases x)
  case Channel
  then show ?thesis using full_child [OF inv, of None] by (simp add: with_child_def)
next
  case (Pipe u b)
  then have b: "b = None" using ok by (simp add: default_op_def)
  show ?thesis
  proof (cases "u < n_size s \<and> n_alive (nodes s u) \<and> \<not> n_ready (nodes s u)")
    case True
    then show ?thesis using full_child [OF inv, of "Some u"] Pipe b
      by (simp add: with_child_def receiver_pipe_def Let_def)
  qed (use inv Pipe in \<open>auto simp: receiver_pipe_def\<close>)
next
  case (Start u)
  show ?thesis
  proof (cases "u < n_size s \<and> 0 < n_sched (nodes s u)")
    case True
    moreover from True have "n_alive (nodes s u)" using net_invD(5) inv by (auto simp: shape_ok_def full_inv_def)
    moreover have "data_inv fn (upd u ((nodes s u)\<lparr>n_sched := n_sched (nodes s u) - 1\<rparr>) s) (frames s @ [Step u])"
      by (rule data_op) (use inv in \<open>simp_all add: full_inv_def same_data_def\<close>)
    ultimately show ?thesis using start_inv [of s u] start_live [of s u] inv Start by (simp add: full_inv_def)
  qed (use inv Start in auto)
next
  case (Thread k)
  show ?thesis
  proof (cases "k < length (threads s) \<and> threads s ! k \<noteq> []")
    case True
    then obtain f fs where t: "k < length (threads s)" "threads s ! k = f # fs" by (cases "threads s ! k") auto
    from thread_frames [OF this] obtain A B where AB: "frames s = A @ f # B"
      "\<And>gs. concat ((threads s)[k := gs @ fs]) = A @ gs @ B" unfolding frames_def by blast
    have I: "net_inv s (A @ f # B)" "data_inv fn s (A @ f # B)" "live_inv s (A @ f # B)"
      using inv AB(1) by (simp_all add: full_inv_def)
    from frame_step_inv [OF I(1)] obtain gs s' where s': "frame_step fn f s = Inr (gs, s')" "net_inv s' (A @ gs @ B)"
      by metis
    have "frames (s'\<lparr>threads := (threads s')[k := gs @ fs]\<rparr>) = A @ gs @ B"
      using AB(2) frame_step_threads [OF s'(1)] by (simp add: frames_def)
    then show ?thesis using t s' Thread frame_step_data [OF I(1,2) s'(1)] frame_step_live [OF I(1,3) s'(1)]
      by (simp add: full_inv_def)
  qed (use inv Thread in auto)
next
  case (Set_Ready u)
  then show ?thesis using inv set_ready_inv set_ready_data set_ready_live by (auto simp: full_inv_def)
next
  case (Send u v)
  then show ?thesis using inv sender_call_inv sender_call_data sender_call_live by (auto simp: full_inv_def)
next
  case (Close u)
  then show ?thesis using inv sender_close_inv sender_close_data sender_close_live by (auto simp: full_inv_def)
qed (use ok in \<open>auto simp: default_op_def\<close>)

interpretation chf: safe_machine "full_inv fn" default_op "ch_step fn" for fn
  by unfold_locales (rule full_step)

lemma full_inv_init: "full_inv fn channels_init"
  by (simp add: full_inv_def net_inv_init data_inv_def live_inv_def) (simp add: channels_init_def)

end
