(* ===== verification/Channel_Drain.thy ===== *)
theory Channel_Drain
  imports Channel_Live
begin

text \<open>
  Left to itself a network of processes comes to rest: every step of a thread and every start of a
  step by the executor lowers a weight, in which a message counts for all that it can cause downstream.
\<close>

section \<open>The weight of a network\<close>

text \<open>The processes attached to \<open>u\<close>, for a map to the process upstream; they come after it.\<close>

definition below :: "(nat \<Rightarrow> nat option) \<Rightarrow> nat \<Rightarrow> nat \<Rightarrow> nat set" where
  "below up k u = {c. c < k \<and> u < c \<and> up c = Some u}"

lemma finite_below [simp]: "finite (below up k u)"
  by (simp add: below_def)

text \<open>A message in the queue of \<open>u\<close>.\<close>

function message_weight :: "(nat \<Rightarrow> nat option) \<Rightarrow> nat \<Rightarrow> nat \<Rightarrow> nat" where
  "message_weight up k u = 12 + (\<Sum>c \<in> below up k u. message_weight up k c + 7)"
  by auto
termination by (relation "measure (\<lambda>(up, k, u). k - u)") (auto simp: below_def)

declare message_weight.simps [simp del]

definition value_at :: "('v, 'e) channels \<Rightarrow> nat \<Rightarrow> nat" where
  "value_at s = message_weight (\<lambda>c. n_up (nodes s c)) (n_size s)"

definition sending_weight :: "('v, 'e) channels \<Rightarrow> nat \<Rightarrow> nat" where
  "sending_weight s u = (\<Sum>c \<in> below (\<lambda>c. n_up (nodes s c)) (n_size s) u. value_at s c + 7)"

fun frame_weight :: "('v, 'e) channels \<Rightarrow> ('v, 'e) frame \<Rightarrow> nat" where
  "frame_weight s (Run u) = 6"
| "frame_weight s (Step u) = 4"
| "frame_weight s (Handle u r) = (if r = None then 3 else 7 + sending_weight s u)"
| "frame_weight s (In_Fun u v) = 6 + sending_weight s u"
| "frame_weight s (Broadcast u m) = 5 + sending_weight s u"
| "frame_weight s (Suspend u k b m) = 4 + sending_weight s u"
| "frame_weight s (Sending u cs m) = 3 + (\<Sum>c \<leftarrow> cs. value_at s c + 7)"
| "frame_weight s (Cts u c) = 2"
| "frame_weight s (Cts2 u c) = 1"
| "frame_weight s (Task_Done u) = 2"
| "frame_weight s (Finalize u) = 1"
| "frame_weight s (Remove_Sender u) = value_at s u + 9"
| "frame_weight s (Close_Queue u) = value_at s u + 8"
| "frame_weight s (Check_Start u) = 1"

fun runs :: "nat \<Rightarrow> ('v, 'e) frame \<Rightarrow> nat" where
  "runs u (Run w) = ind (w = u)"
| "runs u (Step w) = ind (w = u)"
| "runs u _ = 0"

text \<open>A process \<open>n\<close> with \<open>r\<close> calls that will pop its queue.\<close>

definition node_weight :: "(nat \<Rightarrow> nat) \<Rightarrow> ('v, 'e) node \<Rightarrow> nat \<Rightarrow> nat \<Rightarrow> nat" where
  "node_weight v n u r =
     5 * n_sched n + v u * length (n_queue n) + (if n_close n then v u else 0) + (\<Sum>c \<leftarrow> n_down n. v c + 9) +
       (if (n_queue n \<noteq> [] \<or> n_close n) \<and> n_sched n + r = 0 then 6 else 0)"

definition weight :: "('v, 'e) channels \<Rightarrow> ('v, 'e) frame list \<Rightarrow> nat" where
  "weight s F = tot (frame_weight s) F + (\<Sum>u < n_size s. node_weight (value_at s) (nodes s u) u (tot (runs u) F))"

section \<open>Steps lower the weight\<close>

lemma value_at_sending: "value_at s u = 12 + sending_weight s u"
  unfolding sending_weight_def value_at_def by (subst message_weight.simps) simp

lemma weights_upd [simp]:
  assumes "n_up n = n_up (nodes s u)"
  shows "value_at (upd u n s) = value_at s" "sending_weight (upd u n s) = sending_weight s" "frame_weight (upd u n s) = frame_weight s"
proof -
  have up: "(\<lambda>c. n_up (nodes (upd u n s) c)) = (\<lambda>c. n_up (nodes s c))" using assms by auto
  show v: "value_at (upd u n s) = value_at s" unfolding value_at_def up by simp
  show w: "sending_weight (upd u n s) = sending_weight s"
    unfolding sending_weight_def up v by simp
  have "frame_weight (upd u n s) f = frame_weight s f" for f
    using v w by (cases f) simp_all
  then show "frame_weight (upd u n s) = frame_weight s" by blast
qed

lemma weight_local:
  assumes u: "u < n_size s" and up: "n_up n = n_up (nodes s u)"
    and r: "\<And>w. w \<noteq> u \<Longrightarrow> tot (runs w) gs = tot (runs w) fs"
    and less: "tot (frame_weight s) gs + node_weight (value_at s) n u (tot (runs u) (A @ gs @ B)) <
      tot (frame_weight s) fs + node_weight (value_at s) (nodes s u) u (tot (runs u) (A @ fs @ B))"
  shows "weight (upd u n s) (A @ gs @ B) < weight s (A @ fs @ B)"
proof -
  let ?p = "\<lambda>w. node_weight (value_at s) (nodes s w) w (tot (runs w) (A @ fs @ B))"
    and ?q = "\<lambda>w. node_weight (value_at s) (nodes (upd u n s) w) w (tot (runs w) (A @ gs @ B))"
  have "sum ?q ({..<n_size s} - {u}) = sum ?p ({..<n_size s} - {u})" using r by (intro sum.cong) auto
  moreover have "sum g {..<n_size s} = g u + sum g ({..<n_size s} - {u})" for g :: "nat \<Rightarrow> nat"
    using u by (intro sum.remove) auto
  ultimately show ?thesis using less weights_upd [OF up] unfolding weight_def by simp
qed

lemmas weight_frame = weight_local [where fs = "[f]" for f, simplified append.simps]

lemma weight_idle:
  assumes "\<And>w. tot (runs w) gs = runs w f" and "tot (frame_weight s) gs < frame_weight s f"
  shows "weight s (A @ gs @ B) < weight s (A @ f # B)"
  using assms by (simp add: weight_def)

lemma kids_below: "net_inv s F \<Longrightarrow> kids s u = below (\<lambda>c. n_up (nodes s c)) (n_size s) u"
  using net_invD(5) by (fastforce simp: kids_def below_def shape_ok_def)

lemma sending_list:
  assumes "net_inv s F" and "u < n_size s"
  shows "(\<Sum>c \<leftarrow> n_down (nodes s u). value_at s c + 7) \<le> sending_weight s u"
proof -
  have d: "distinct (n_down (nodes s u))" "set (n_down (nodes s u)) \<subseteq> below (\<lambda>c. n_up (nodes s c)) (n_size s) u"
    using net_invD(5) [OF assms] kids_below [OF assms(1)] by (auto simp: shape_ok_def)
  then show ?thesis unfolding sending_weight_def sum_list_distinct_conv_sum_set [OF d(1)]
    by (intro sum_mono2) auto
qed

lemma step_weight:
  assumes inv: "net_inv s (A @ Step u # B)" and r: "sp_step u s = Inr (gs, s')"
  shows "weight s' (A @ gs @ B) < weight s (A @ Step u # B)"
proof (cases "n_queue (nodes s u)")
  case Nil
  let ?n = "(nodes s u)\<lparr>n_close := False, n_final := n_close (nodes s u)\<rparr>"
  have u: "u < n_size s" using net_inv_frame [OF inv] by simp
  have "weight (upd u ?n s) (A @ [Handle u None] @ B) < weight s (A @ Step u # B)"
    by (rule weight_frame [OF u]) (use Nil in \<open>auto simp: node_weight_def\<close>)
  then show ?thesis using r by (auto simp: sp_step_def sp_pop_Nil Nil split: option.splits)
next
  case (Cons m ms)
  let ?n = "(nodes s u)\<lparr>n_queue := ms, n_popped := n_popped (nodes s u) @ [m]\<rparr>"
  have u: "u < n_size s" using net_inv_frame [OF inv] by simp
  obtain ks where gs: "gs = ks @ [Handle u (Some [m])]" "s' = upd u ?n s" "ks = [] \<or> (\<exists>p. ks = [Cts p u])"
    using r by (auto simp: sp_step_def sp_pop_Cons Cons split: option.splits if_splits)
  have "weight (upd u ?n s) (A @ gs @ B) < weight s (A @ Step u # B)"
    by (rule weight_frame [OF u]) (use Cons gs value_at_sending [of s u] in \<open>auto simp: node_weight_def\<close>)
  then show ?thesis using gs by simp
qed

lemma handle_weight:
  assumes inv: "net_inv s (A @ Handle u r # B)" and h: "sp_handle u r s = Inr (gs, s')"
  shows "weight s' (A @ gs @ B) < weight s (A @ Handle u r # B)"
proof (cases "\<exists>e. r = Some [Inl e]")
  case True
  then obtain e where r: "r = Some [Inl e]" by blast
  have u: "u < n_size s" using net_inv_frame [OF inv] by simp
  have "weight (upd u ((nodes s u)\<lparr>n_stalled := True\<rparr>) s) (A @ [] @ B) < weight s (A @ Handle u r # B)"
    by (rule weight_frame [OF u]) (auto simp: node_weight_def r)
  then show ?thesis using h by (auto simp: sp_handle_def r find_argument_error_def tuple_find_def get_i_def)
next
  case False
  then consider "r = None" | v where "r = Some [Inr v]"
    using net_inv_frame [OF inv] by (cases r) (auto simp: length_Suc_conv, metis sum.exhaust)
  then show ?thesis
  proof cases
    case 1
    have "weight s (A @ [Task_Done u] @ B) < weight s (A @ Handle u r # B)" by (rule weight_idle) (simp_all add: 1)
    then show ?thesis using h by (auto simp: sp_handle_def 1)
  next
    case 2
    have "weight s (A @ [In_Fun u v] @ B) < weight s (A @ Handle u r # B)" by (rule weight_idle) (simp_all add: 2)
    then show ?thesis using h by (auto simp: sp_handle_def 2 find_argument_error_def tuple_find_def split: if_splits)
  qed
qed

lemma with_node_weight:
  assumes u: "u < n_size s" and f: "\<And>w. runs w f = 0" and n: "\<And>b n. g (nodes s u) = (b, n) \<Longrightarrow>
      n_up n = n_up (nodes s u) \<and> node_weight (value_at s) n u (tot (runs u) (A @ B) + ind b) + 6 * ind b <
        frame_weight s f + node_weight (value_at s) (nodes s u) u (tot (runs u) (A @ B))"
  shows "weight (snd (with_node u g s)) (A @ fst (with_node u g s) @ B) < weight s (A @ f # B)"
proof (cases "g (nodes s u)")
  case (Pair b n)
  have "weight (upd u n s) (A @ run_if u b @ B) < weight s (A @ f # B)"
    by (rule weight_frame [OF u]) (use n [OF Pair] f in \<open>auto simp: run_if_def\<close>)
  then show ?thesis by (simp add: with_node_def Pair)
qed

lemma enqueue_weight:
  assumes "sp_enqueue m n = (b, n')"
  shows "n_up n' = n_up n" "node_weight v n' u (r + ind b) + 6 * ind b \<le> node_weight v n u r + v u + 6"
proof -
  have "n_up n' = n_up n" "n_sched n' = n_sched n" "n_queue n' = n_queue n @ [m]" "n_close n' = n_close n" "n_down n' = n_down n"
    using assms by (auto simp: sp_enqueue_def start_if_def)
  then show "n_up n' = n_up n" "node_weight v n' u (r + ind b) + 6 * ind b \<le> node_weight v n u r + v u + 6"
    by (auto simp: node_weight_def)
qed

lemma send_weight:
  assumes inv: "net_inv s (A @ Sending u (c # cs) m # B)"
  shows "weight (snd (sp_send u (c # cs) m s)) (A @ fst (sp_send u (c # cs) m s) @ B) < weight s (A @ Sending u (c # cs) m # B)"
proof -
  have "u < n_size s" "c \<in> set (n_down (nodes s u))" using net_inv_frame [OF inv] by simp_all
  then have c: "c < n_size s" using net_invD(5) [OF inv, of u] by (auto simp: shape_ok_def kids_def)
  have "weight (upd c n s) (A @ (run_if c b @ [Sending u cs m]) @ B) < weight s (A @ Sending u (c # cs) m # B)"
    if "sp_enqueue m (nodes s c) = (b, n)" for b n
    by (rule weight_frame [OF c])
      (use enqueue_weight(1) [OF that] enqueue_weight(2) [OF that, of "value_at s" c "tot (runs c) (A @ B)"] in \<open>auto simp: run_if_def\<close>)
  moreover have "n_alive (nodes s c)" using net_invD(5) [OF inv c] by (simp add: shape_ok_def)
  ultimately show ?thesis by (auto split: prod.split)
qed

lemma tot_runs: "tot (runs u) F \<le> tot (pre u) F"
proof (rule tot_mono)
  show "runs u f \<le> pre u f" for f :: "('a, 'b) frame" by (cases f) auto
qed

lemma frame_step_weight:
  assumes inv: "net_inv s (A @ f # B)" and r: "frame_step fn f s = Inr (gs, s')"
  shows "weight s' (A @ gs @ B) < weight s (A @ f # B)"
proof (cases f)
  case (Run u)
  then have u: "u < n_size s" using net_inv_frame [OF inv] by simp
  have "weight (sp_run u s) (A @ [] @ B) < weight s (A @ f # B)"
    unfolding sp_run_def by (rule weight_frame [OF u]) (auto simp: node_weight_def Run)
  then show ?thesis using r by (simp add: Run)
next
  case (Sending u cs m)
  show ?thesis
  proof (cases cs)
    case Nil
    have "weight s (A @ [Cts u u] @ B) < weight s (A @ f # B)" by (rule weight_idle) (simp_all add: Sending)
    then show ?thesis using r by (auto simp: Sending Nil)
  next
    case (Cons c ds)
    then show ?thesis using send_weight [of s A u c ds m B] inv r Sending by (metis Inr_inject frame_step.simps(7) fst_conv snd_conv)
  qed
next
  case (Task_Done u)
  let ?b = "n_queue (nodes s u) \<noteq> [] \<or> n_close (nodes s u)"
  have u: "u < n_size s" using net_inv_frame [OF inv] Task_Done by simp
  have "active s (A @ f # B) u \<le> 1" using net_invD(1) [OF inv u] by (simp add: once_ok_def)
  then have z: "n_sched (nodes s u) = 0" "tot (runs u) A = 0" "tot (runs u) B = 0"
    using tot_runs [of u A] tot_runs [of u B] by (simp_all add: active_def Task_Done)
  have "weight (upd u ((nodes s u)\<lparr>n_running := ?b\<rparr>) s)
      (A @ (run_if u ?b @ (if n_final (nodes s u) then [Finalize u] else [])) @ B) < weight s (A @ f # B)"
    by (rule weight_frame [OF u]) (use z in \<open>auto simp: node_weight_def run_if_def Task_Done\<close>)
  then show ?thesis using r by (auto simp: Task_Done sp_task_done_def Let_def)
next
  case (Finalize u)
  have u: "u < n_size s" using net_inv_frame [OF inv] Finalize by simp
  have m: "tot (frame_weight s) (map Remove_Sender ds) = (\<Sum>c \<leftarrow> ds. value_at s c + 9)"
    "tot (runs w) (map Remove_Sender ds) = 0" for ds w
    by (induction ds) auto
  have "weight (upd u ((nodes s u)\<lparr>n_down := [], n_process := False\<rparr>) s) (A @ map Remove_Sender (n_down (nodes s u)) @ B)
      < weight s (A @ f # B)"
    by (rule weight_frame [OF u]) (auto simp: node_weight_def Finalize m)
  then show ?thesis using r by (auto simp: Finalize sp_finalize_def Let_def)
next
  case (Remove_Sender u)
  let ?k = "n_senders (nodes s u) - 1"
  have u: "u < n_size s" using net_inv_frame [OF inv] Remove_Sender by simp
  have "weight (upd u ((nodes s u)\<lparr>n_senders := ?k\<rparr>) s) (A @ (if ?k = 0 then [Close_Queue u] else []) @ B) < weight s (A @ f # B)"
    by (rule weight_frame [OF u]) (auto simp: node_weight_def Remove_Sender)
  moreover have "n_alive (nodes s u)" using net_invD(5) [OF inv u] by (simp add: shape_ok_def)
  ultimately show ?thesis using r by (auto simp: Remove_Sender sp_remove_sender_def Let_def)
next
  case (Suspend u k b m)
  have u: "u < n_size s" "k = length (n_down (nodes s u))" using net_inv_frame [OF inv] Suspend by simp_all
  have "weight (snd (sp_suspend u k b m s)) (A @ fst (sp_suspend u k b m s) @ B) < weight s (A @ f # B)"
    unfolding sp_suspend_def Let_def fst_conv snd_conv
    by (rule weight_frame [OF u(1)]) (use sending_list [OF inv u(1)] u(2) Suspend in \<open>auto simp: node_weight_def\<close>)
  then show ?thesis using r by (simp add: Suspend)
next
  case (Cts2 u c)
  have u: "u < n_size s" using net_inv_frame [OF inv] Cts2 by simp
  have "active s (A @ f # B) u = 0" using net_invD(1) [OF inv u] cts_waits [OF inv, of u c] Cts2 by (auto simp: once_ok_def)
  then have z: "n_sched (nodes s u) = 0" "tot (runs u) (A @ B) = 0" using tot_runs [of u A] tot_runs [of u B] by (simp_all add: active_def)
  have "weight (snd (with_node u sp_clear s)) (A @ fst (with_node u sp_clear s) @ B) < weight s (A @ f # B)"
    by (rule with_node_weight [OF u]) (use z Cts2 in \<open>auto simp: node_weight_def sp_clear_def Let_def split: if_splits\<close>)
  then show ?thesis using r Cts2 by simp
next
  case (Close_Queue u)
  have u: "u < n_size s" using net_inv_frame [OF inv] Close_Queue by simp
  have "weight (snd (with_node u sp_close_queue s)) (A @ fst (with_node u sp_close_queue s) @ B) < weight s (A @ f # B)"
    by (rule with_node_weight [OF u]) (use Close_Queue in \<open>auto simp: node_weight_def sp_close_queue_def start_if_def\<close>)
  then show ?thesis using r Close_Queue by simp
next
  case (Check_Start u)
  have u: "u < n_size s" using net_inv_frame [OF inv] Check_Start by simp
  have "\<not> n_running (nodes s u) \<Longrightarrow> active s (A @ f # B) u = 0" using net_invD(1) [OF inv u] by (auto simp: once_ok_def)
  then have z: "\<not> n_running (nodes s u) \<Longrightarrow> n_sched (nodes s u) = 0 \<and> tot (runs u) (A @ B) = 0"
    using tot_runs [of u A] tot_runs [of u B] by (simp add: active_def)
  have "weight (snd (with_node u sp_check_start s)) (A @ fst (with_node u sp_check_start s) @ B) < weight s (A @ f # B)"
    by (rule with_node_weight [OF u]) (use z Check_Start in \<open>auto simp: node_weight_def sp_check_start_def start_if_def\<close>)
  then show ?thesis using r Check_Start by simp
next
  case (Cts u c)
  have "weight s (A @ [Cts2 u c] @ B) < weight s (A @ f # B)" by (rule weight_idle) (simp_all add: Cts)
  moreover have "\<not> n_final (nodes s u)" using inv Cts cts_inv(1) by blast
  ultimately show ?thesis using r Cts by auto
next
  case (In_Fun u v)
  have "weight s (A @ [Broadcast u (fn u v)] @ B) < weight s (A @ f # B)" by (rule weight_idle) (simp_all add: In_Fun)
  then show ?thesis using r In_Fun by auto
next
  case (Broadcast u m)
  have "weight s (A @ [Suspend u k b m] @ B) < weight s (A @ f # B)" for k b by (rule weight_idle) (simp_all add: Broadcast)
  then show ?thesis using r Broadcast by (auto simp: Let_def)
qed (use inv r step_weight handle_weight in auto)

end
