(* ===== verification/Channel_Results.thy ===== *)
theory Channel_Results
  imports Channel_Drain "HOL-Library.Sublist"
begin

text \<open>
  What a network of processes computes: messages arrive in order, the network comes to rest under every
  schedule, then every process has handled every message sent to it, and a network whose senders
  are closed has ended.
\<close>

section \<open>Schedules\<close>

text \<open>A move of the network itself: the executor starts a step it holds, or a thread goes on.\<close>

fun can_move :: "'v ch_op \<Rightarrow> ('v, 'e) channels \<Rightarrow> bool" where
  "can_move (Start u) s = (u < n_size s \<and> 0 < n_sched (nodes s u))"
| "can_move (Thread k) s = (k < length (threads s) \<and> threads s ! k \<noteq> [])"
| "can_move _ s = False"

definition schedule :: "(nat \<Rightarrow> 'v \<Rightarrow> 'e + 'v) \<Rightarrow> 'v ch_op list \<Rightarrow> ('v, 'e) channels \<Rightarrow> bool" where
  "schedule fn = moves can_move (ch_step fn)"

definition at_rest :: "('v, 'e) channels \<Rightarrow> bool" where
  "at_rest s \<longleftrightarrow> list_all (\<lambda>t. t = []) (threads s) \<and> list_all (\<lambda>u. n_sched (nodes s u) = 0) [0..<n_size s]"

lemma at_rest_frames: "at_rest s \<Longrightarrow> frames s = []"
  by (simp add: at_rest_def frames_def list_all_iff)

lemma not_at_rest:
  assumes "\<not> at_rest s"
  obtains x where "can_move x s" "default_op x"
proof (cases "\<exists>u < n_size s. n_sched (nodes s u) \<noteq> 0")
  case True
  then obtain u where "u < n_size s" "0 < n_sched (nodes s u)" by auto
  then show ?thesis using that [of "Start u"] by (simp add: default_op_def)
next
  case False
  then obtain k where "k < length (threads s)" "threads s ! k \<noteq> []"
    using assms by (auto simp: at_rest_def list_all_length)
  then show ?thesis using that [of "Thread k"] by (simp add: default_op_def)
qed

lemma can_move_default: "can_move x s \<Longrightarrow> default_op x"
  by (cases x) (auto simp: default_op_def)

lemma weight_threads [simp]: "weight (s\<lparr>threads := T\<rparr>) F = weight s F"
proof -
  have v: "value_at (s\<lparr>threads := T\<rparr>) = value_at s" "sending_weight (s\<lparr>threads := T\<rparr>) = sending_weight s"
    by (simp_all add: value_at_def sending_weight_def fun_eq_iff)
  then have "frame_weight (s\<lparr>threads := T\<rparr>) f = frame_weight s f" for f by (cases f) simp_all
  then have "frame_weight (s\<lparr>threads := T\<rparr>) = frame_weight s" by blast
  then show ?thesis using v by (simp add: weight_def)
qed

lemma move_weight:
  assumes inv: "net_inv s (frames s)" and m: "can_move x s" and r: "ch_step fn x s = Inr s'"
  shows "weight s' (frames s') < weight s (frames s)"
proof (cases x)
  case (Start u)
  let ?n = "(nodes s u)\<lparr>n_sched := n_sched (nodes s u) - 1\<rparr>"
  have u: "u < n_size s" "0 < n_sched (nodes s u)" using m Start by simp_all
  have "weight (upd u ?n s) (frames s @ [Step u] @ []) < weight s (frames s @ [] @ [])"
    by (rule weight_local [OF u(1)]) (use u in \<open>auto simp: node_weight_def\<close>)
  moreover have "n_alive (nodes s u)" using net_invD(5) [OF inv u(1)] by (simp add: shape_ok_def)
  ultimately show ?thesis using r u Start by (auto simp: spawn_def frames_def)
next
  case (Thread k)
  then obtain f fs where t: "k < length (threads s)" "threads s ! k = f # fs" using m by (cases "threads s ! k") auto
  from thread_frames [OF this] obtain A B where AB: "frames s = A @ f # B"
    "\<And>gs. concat ((threads s)[k := gs @ fs]) = A @ gs @ B" unfolding frames_def by blast
  have I: "net_inv s (A @ f # B)" using inv AB(1) by simp
  from frame_step_inv [OF I] obtain gs s1 where s1: "frame_step fn f s = Inr (gs, s1)" by metis
  have s': "s' = s1\<lparr>threads := (threads s1)[k := gs @ fs]\<rparr>" using r t s1 Thread by simp
  then have "frames s' = A @ gs @ B" using AB(2) frame_step_threads [OF s1] by (simp add: frames_def)
  then show ?thesis using frame_step_weight [OF I s1] AB(1) s' by simp
qed (use m in simp_all)

interpretation chr: resting_machine "\<lambda>s. net_inv s (frames s)" can_move "ch_step fn" at_rest "\<lambda>s. weight s (frames s)"
  for fn :: "nat \<Rightarrow> 'v \<Rightarrow> 'e + 'v"
proof
  fix s :: "('v, 'e) channels" and x
  assume s: "net_inv s (frames s)" "can_move x s"
  from ch_step_inv [OF s(1) can_move_default [OF s(2)]] obtain s' where
    s': "ch_step fn x s = Inr s'" "net_inv s' (frames s')" by blast
  with move_weight [OF s] show "\<exists>s'. ch_step fn x s = Inr s' \<and> net_inv s' (frames s') \<and> weight s' (frames s') < weight s (frames s)"
    by blast
qed (use not_at_rest in blast)

definition pipeline_ops :: "nat ch_op list" where
  "pipeline_ops =
     [Channel, Pipe 0 None, Set_Ready 0, Set_Ready 1, Send 0 1, Close 0,
      Thread 0, Thread 1, Thread 2, Start 0, Thread 3, Thread 3, Thread 4, Thread 4, Thread 4, Thread 4, Thread 4,
      Thread 4, Thread 4, Start 1, Thread 4, Thread 4, Thread 4, Thread 5, Thread 5, Thread 5, Thread 5, Start 0,
      Thread 5, Thread 5, Thread 5, Thread 5, Thread 5, Thread 5, Thread 5, Thread 6, Thread 6, Thread 6, Thread 6,
      Thread 6, Thread 6, Thread 6, Start 1, Thread 7, Thread 7, Thread 7, Thread 7]"

abbreviation add_one :: "nat \<Rightarrow> nat \<Rightarrow> string + nat" where
  "add_one \<equiv> \<lambda>u v. Inr (v + 1)"

lemma pipeline_ops_default: "list_all default_op pipeline_ops"
  by (simp add: pipeline_ops_def default_op_def)

lemma pipeline_run:
  "case run_ops (ch_step add_one) pipeline_ops channels_init of Inl e \<Rightarrow> False | Inr s \<Rightarrow>
     n_size s = 2 \<and> at_rest s \<and> list_all (\<lambda>u. n_ready (nodes s u) \<and> \<not> n_stalled (nodes s u) \<and> \<not> n_open (nodes s u)) [0, 1] \<and>
     n_up (nodes s 1) = Some 0 \<and> n_in (nodes s 0) = [Inr 1]"
  by code_simp

text \<open>The run of a pipeline of two processes, from its making to its end.\<close>

lemma pipeline_end:
  obtains s where "run_ops (ch_step add_one) pipeline_ops channels_init = Inr s" "n_size s = 2" "at_rest s"
    "\<And>u. u < n_size s \<Longrightarrow> n_ready (nodes s u) \<and> \<not> n_stalled (nodes s u) \<and> \<not> n_open (nodes s u)"
    "n_up (nodes s 1) = Some 0" "n_in (nodes s 0) = [Inr 1]"
proof (cases "run_ops (ch_step add_one) pipeline_ops channels_init")
  case (Inr s)
  then have "n_ready (nodes s u) \<and> \<not> n_stalled (nodes s u) \<and> \<not> n_open (nodes s u)" if "u < n_size s" for u
    using pipeline_run that by (auto simp: less_2_cases_iff)
  then show ?thesis using that [OF Inr] pipeline_run Inr by auto
qed (use pipeline_run in simp)

text \<open>
  C11. A network of processes that all have the default buffer size and none of which has been destroyed comes to rest: in
  every state that the program can bring such a network into, there is a bound on the number of moves the executor and the threads
  can still make before the program does something again, whatever their schedule; and there is a schedule that ends with nothing
  to do for either. With larger buffers this need not be so (theory \<open>Channel_Faults\<close>).
\<close>
theorem channel_comes_to_rest:
  assumes "list_all default_op ops" and "run_ops (ch_step fn) ops channels_init = Inr s"
  shows "\<exists>N. (\<forall>xs. schedule fn xs s \<longrightarrow> length xs \<le> N) \<and>
    (\<exists>xs s'. schedule fn xs s \<and> run_ops (ch_step fn) xs s = Inr s' \<and> at_rest s')"
proof -
  have "net_inv s (frames s)" using chs.run_safe [OF net_inv_init assms(1), of fn] assms(2) by auto
  then show ?thesis unfolding schedule_def using chr.moves_bounded chr.moves_to_rest by blast
qed

theorem channel_comes_to_rest_witness:
  "\<exists>s. run_ops (ch_step add_one) (take 6 pipeline_ops) channels_init = Inr s \<and>
     (\<exists>N. (\<forall>xs. schedule add_one xs s \<longrightarrow> length xs \<le> N) \<and>
       (\<exists>xs s'. schedule add_one xs s \<and> run_ops (ch_step add_one) xs s = Inr s' \<and> at_rest s'))"
proof -
  have ok: "list_all default_op (take 6 pipeline_ops)" by (simp add: pipeline_ops_def default_op_def)
  have "case run_ops (ch_step add_one) (take 6 pipeline_ops) channels_init of Inl e \<Rightarrow> False | Inr s \<Rightarrow> True" by code_simp
  then obtain s where "run_ops (ch_step add_one) (take 6 pipeline_ops) channels_init = Inr s" by (auto split: sum.splits)
  with channel_comes_to_rest [OF ok this] show ?thesis by blast
qed

section \<open>Order\<close>

lemma reachable_full:
  assumes "list_all default_op ops" and "run_ops (ch_step fn) ops channels_init = Inr s"
  shows "full_inv fn s"
  using chf.run_safe [OF full_inv_init assms(1), of fn] assms(2) by auto

text \<open>
  Messages arrive in order, none is lost and none is made up: at every moment, what a process has taken from its
  queue is an initial part of what its upstream process has broadcast, and what a process has
  broadcast is an initial part of the results of its function on the messages it has taken.
\<close>
theorem channel_order:
  assumes "list_all default_op ops" and "run_ops (ch_step fn) ops channels_init = Inr s" and "c < n_size s"
  shows "prefix (n_sent (nodes s c)) (concat (map (out fn c) (n_popped (nodes s c)))) \<and>
    (\<forall>u. n_up (nodes s c) = Some u \<longrightarrow> prefix (n_popped (nodes s c)) (n_sent (nodes s u)))"
proof (intro conjI allI impI)
  have inv: "net_inv s (frames s)" "data_inv fn s (frames s)" using reachable_full [OF assms(1,2)] by (simp_all add: full_inv_def)
  show "prefix (n_sent (nodes s c)) (concat (map (out fn c) (n_popped (nodes s c))))"
    using data_invD [OF inv(2) assms(3)] by (metis data_ok_def prefixI)
  show "prefix (n_popped (nodes s c)) (n_sent (nodes s u))" if up: "n_up (nodes s c) = Some u" for u
  proof -
    have "u < n_size s" "c \<in> kids s u" using net_invD(5) [OF inv(1) assms(3)] up assms(3) by (auto simp: shape_ok_def kids_def)
    then show ?thesis using data_invD [OF inv(2)] assms(3) by (fastforce simp: data_ok_def)
  qed
qed

theorem channel_order_witness:
  "\<exists>s. run_ops (ch_step add_one) pipeline_ops channels_init = Inr s \<and>
     prefix (n_sent (nodes s 0)) (concat (map (out add_one 0) (n_popped (nodes s 0)))) \<and>
     prefix (n_popped (nodes s 1)) (n_sent (nodes s 0))"
proof -
  from pipeline_end obtain s where s: "run_ops (ch_step add_one) pipeline_ops channels_init = Inr s" "n_size s = 2"
    "n_up (nodes s 1) = Some 0" .
  show ?thesis using s channel_order [OF pipeline_ops_default s(1), of 0] channel_order [OF pipeline_ops_default s(1), of 1] by simp
qed

section \<open>At rest\<close>

lemma rest_queues:
  assumes inv: "full_inv fn s" and rest: "at_rest s" and ok: "\<And>u. u < n_size s \<Longrightarrow> n_ready (nodes s u) \<and> \<not> n_stalled (nodes s u)"
  shows "u < n_size s \<Longrightarrow> n_queue (nodes s u) = [] \<and> \<not> n_running (nodes s u)"
proof (induction "n_size s - u" arbitrary: u rule: less_induct)
  case less
  note u = less.prems
  have F: "frames s = []" using at_rest_frames [OF rest] .
  have I: "net_inv s []" "live_inv s []" using inv by (simp_all add: full_inv_def F)
  have "n_queue (nodes s c) = []" if c: "c \<in> kids s u" for c
  proof -
    have "u < c" "c < n_size s" using c net_invD(5) [OF I(1), of c] by (auto simp: kids_def shape_ok_def)
    then show ?thesis using less.hyps [of c] by auto
  qed
  then have "n_suspend (nodes s u) = 0" using net_invD(2) [OF I(1) u] by (simp add: flow_ok_def inflight_def load_def)
  moreover have "active s [] u = 0" using rest u by (simp add: active_def at_rest_def list_all_iff)
  ultimately have r: "\<not> n_running (nodes s u)" using live_invD [OF I(2) u] ok [OF u] by (auto simp: live_ok_def)
  then show ?case using net_invD(4) [OF I(1) u] ok [OF u] by (auto simp: ready_ok_def)
qed

text \<open>
  C8. Every message is handled: take a network of processes that all have the default buffer size, none of which has been destroyed and
  none of which has dropped an exception. When it is at rest and every receiver is ready, no process is running, every process has taken
  all messages that were queued for it and broadcast the result of its function for each, in order, and what was queued for a
  process is what its upstream process has broadcast. The conditions are needed: a destroyed receiver that was ready and a larger
  buffer downstream each leave messages untaken or out of order.
\<close>
theorem channel_results:
  assumes "list_all default_op ops" and "run_ops (ch_step fn) ops channels_init = Inr s" and "at_rest s"
    and "\<And>u. u < n_size s \<Longrightarrow> n_ready (nodes s u) \<and> \<not> n_stalled (nodes s u)" and "u < n_size s"
  shows "\<not> n_running (nodes s u) \<and> n_popped (nodes s u) = n_in (nodes s u) \<and>
    n_sent (nodes s u) = concat (map (out fn u) (n_in (nodes s u))) \<and>
    (\<forall>p. n_up (nodes s u) = Some p \<longrightarrow> n_in (nodes s u) = n_sent (nodes s p))"
proof (intro conjI allI impI)
  have inv: "full_inv fn s" by (rule reachable_full [OF assms(1,2)])
  have F: "frames s = []" using at_rest_frames [OF assms(3)] .
  have I: "net_inv s []" "data_inv fn s []" using inv by (simp_all add: full_inv_def F)
  note Q = rest_queues [OF inv assms(3,4,5)] and D = data_invD [OF I(2) assms(5)]
  show "\<not> n_running (nodes s u)" using Q by simp
  show "n_popped (nodes s u) = n_in (nodes s u)" "n_sent (nodes s u) = concat (map (out fn u) (n_in (nodes s u)))"
    using Q D by (simp_all add: data_ok_def)
  show "n_in (nodes s u) = n_sent (nodes s p)" if up: "n_up (nodes s u) = Some p" for p
  proof -
    have "p < n_size s" "u \<in> kids s p" using net_invD(5) [OF I(1) assms(5)] up assms(5) by (auto simp: shape_ok_def kids_def)
    then show ?thesis using data_invD [OF I(2)] by (fastforce simp: data_ok_def)
  qed
qed

theorem channel_results_witness:
  "\<exists>s. run_ops (ch_step add_one) pipeline_ops channels_init = Inr s \<and> n_popped (nodes s 0) = [Inr 1] \<and>
     n_popped (nodes s 1) = [Inr 2] \<and> n_sent (nodes s 1) = [Inr 3]"
proof -
  from pipeline_end obtain s where s: "run_ops (ch_step add_one) pipeline_ops channels_init = Inr s" "n_size s = 2" "at_rest s"
    "\<And>u. u < n_size s \<Longrightarrow> n_ready (nodes s u) \<and> \<not> n_stalled (nodes s u)" "n_up (nodes s 1) = Some 0" "n_in (nodes s 0) = [Inr 1]"
    by (metis (no_types, lifting))
  note R = channel_results [OF pipeline_ops_default s(1,3,4)]
  show ?thesis using R [of 0] R [of 1] s by simp
qed

text \<open>
  C24. Closing reaches the whole network: take a network of processes that all have the default buffer size, none of which has been destroyed
  and none of which has dropped an exception. When it is at rest, its senders are closed and every receiver is ready, every process
  has ended and released its function.
\<close>
theorem channel_closes:
  assumes "list_all default_op ops" and "run_ops (ch_step fn) ops channels_init = Inr s" and "at_rest s"
    and "\<And>u. u < n_size s \<Longrightarrow> n_ready (nodes s u) \<and> \<not> n_stalled (nodes s u) \<and> \<not> n_open (nodes s u)"
  shows "u < n_size s \<Longrightarrow> n_final (nodes s u) \<and> \<not> n_process (nodes s u) \<and> n_down (nodes s u) = []"
proof (induction u rule: less_induct)
  case (less u)
  note u = less.prems
  have inv: "full_inv fn s" by (rule reachable_full [OF assms(1,2)])
  have F: "frames s = []" using at_rest_frames [OF assms(3)] .
  have I: "net_inv s []" "live_inv s []" using inv by (simp_all add: full_inv_def F)
  have Q: "\<not> n_running (nodes s u)" using rest_queues [OF inv assms(3) _ u] assms(4) by blast
  have "held s u = 0"
  proof (cases "n_up (nodes s u)")
    case None
    then show ?thesis using assms(4) [OF u] by (simp add: held_def)
  next
    case (Some p)
    then have "p < u" using net_invD(5) [OF I(1) u] by (simp add: shape_ok_def)
    then have "n_down (nodes s p) = []" using less u by simp
    then show ?thesis using Some by (simp add: held_def)
  qed
  then have "n_senders (nodes s u) = 0" using net_invD(3) [OF I(1) u] by (simp add: end_ok_def)
  moreover have "\<not> n_close (nodes s u)" using Q net_invD(4) [OF I(1) u] assms(4) [OF u] by (auto simp: ready_ok_def)
  ultimately show ?case using live_invD [OF I(2) u] by (auto simp: live_ok_def)
qed

theorem channel_closes_witness:
  "\<exists>s. run_ops (ch_step add_one) pipeline_ops channels_init = Inr s \<and> n_final (nodes s 0) \<and> n_final (nodes s 1) \<and>
     \<not> n_process (nodes s 1)"
proof -
  from pipeline_end obtain s where s: "run_ops (ch_step add_one) pipeline_ops channels_init = Inr s" "n_size s = 2" "at_rest s"
    "\<And>u. u < n_size s \<Longrightarrow> n_ready (nodes s u) \<and> \<not> n_stalled (nodes s u) \<and> \<not> n_open (nodes s u)" by blast
  note R = channel_closes [OF pipeline_ops_default s(1,3,4)]
  show ?thesis using R [of 0] R [of 1] s by simp
qed

end
