(* ===== verification/Channel_Faults.thy ===== *)
theory Channel_Faults
  imports Channel_Results
begin

text \<open>
  What goes wrong in a network of processes: an exception stops the process it is sent to for good; with a
  buffer of another size than one a process may be called twice at the same time; and a destroyed
  receiver may hold back its upstream process for ever.
\<close>

section \<open>Exceptions\<close>

lemma frame_step_other:
  assumes "frame_step fn f s = Inr (gs, s')" and "pre u f = 0"
  shows "n_popped (nodes s' u) = n_popped (nodes s u) \<and> n_stalled (nodes s' u) = n_stalled (nodes s u)"
proof (cases f)
  case (Sending w cs m)
  then show ?thesis using assms by (cases cs) (auto simp: sp_enqueue_def start_if_def split: if_splits)
next
  case (Step w)
  then show ?thesis using assms by (auto simp: sp_step_def bindR_def split: sum.splits if_splits)
next
  case (Handle w r)
  then show ?thesis using assms by (auto simp: sp_handle_def split: option.splits if_splits list.splits sum.splits)
qed (use assms in \<open>auto simp: sp_run_def sp_suspend_def sp_finalize_def sp_remove_sender_def with_node_def sp_clear_def
    sp_close_queue_def sp_check_start_def sp_task_done_def start_if_def Let_def split: if_splits\<close>)

lemma frame_step_size: "frame_step fn f s = Inr (gs, s') \<Longrightarrow> n_size s' = n_size s"
proof (cases f)
  case (Sending w cs m)
  then show "frame_step fn f s = Inr (gs, s') \<Longrightarrow> n_size s' = n_size s"
    by (cases cs) (auto split: prod.splits if_splits)
next
  case (Step w)
  then show "frame_step fn f s = Inr (gs, s') \<Longrightarrow> n_size s' = n_size s" by (auto simp: sp_step_def bindR_def split: sum.splits)
next
  case (Handle w r)
  then show "frame_step fn f s = Inr (gs, s') \<Longrightarrow> n_size s' = n_size s"
    by (auto simp: sp_handle_def split: option.splits if_splits list.splits sum.splits)
qed (auto simp: sp_run_def sp_suspend_def sp_finalize_def sp_remove_sender_def with_node_def sp_task_done_def Let_def
    split: if_splits prod.splits)

lemma stalled_next:
  assumes inv: "full_inv fn s" and ok: "default_op x" and r: "ch_step fn x s = Inr s'" and u: "u < n_size s" "n_stalled (nodes s u)"
  shows "u < n_size s' \<and> n_stalled (nodes s' u) \<and> n_popped (nodes s' u) = n_popped (nodes s u)"
proof (cases x)
  case (Thread k)
  show ?thesis
  proof (cases "k < length (threads s) \<and> threads s ! k \<noteq> []")
    case True
    then obtain f fs where t: "k < length (threads s)" "threads s ! k = f # fs" by (cases "threads s ! k") auto
    from thread_frames [OF this] obtain A B where "frames s = A @ f # B" unfolding frames_def by blast
    then have "f \<in> set (frames s)" by simp
    moreover have "tot (pre u) (frames s) = 0"
      using live_invD [of s "frames s" u] inv u by (simp add: full_inv_def live_ok_def active_def)
    ultimately have p: "pre u f = 0" by (simp add: tot_zero)
    obtain gs s1 where s1: "frame_step fn f s = Inr (gs, s1)" "s' = s1\<lparr>threads := (threads s1)[k := gs @ fs]\<rparr>"
      using r t Thread by (auto simp: bindR_def split: sum.splits)
    then show ?thesis using frame_step_other [OF s1(1) p] u frame_step_size [OF s1(1)] by simp
  qed (use r Thread u in \<open>auto split: if_splits\<close>)
qed (use r ok u in \<open>auto simp: default_op_def add_node_def receiver_pipe_def receiver_set_ready_def sender_call_def with_node_def
    sp_enqueue_def start_if_def sender_close_def spawn_def Let_def split: if_splits\<close>)

lemma stalled_later:
  "full_inv fn s \<Longrightarrow> list_all default_op xs \<Longrightarrow> u < n_size s \<Longrightarrow> n_stalled (nodes s u) \<Longrightarrow> run_ops (ch_step fn) xs s = Inr s' \<Longrightarrow>
    full_inv fn s' \<and> u < n_size s' \<and> n_stalled (nodes s' u) \<and> n_popped (nodes s' u) = n_popped (nodes s u)"
proof (induction xs arbitrary: s)
  case (Cons x xs)
  then obtain s1 where s1: "ch_step fn x s = Inr s1" "full_inv fn s1" using full_step [of fn s x] by auto
  then have "u < n_size s1 \<and> n_stalled (nodes s1 u) \<and> n_popped (nodes s1 u) = n_popped (nodes s u)"
    using stalled_next Cons.prems by fastforce
  then show ?case using Cons.IH [OF s1(2)] Cons.prems s1 by simp
qed simp

text \<open>
  C25. An exception stops a process for good: once \<open>step\<close> of a process has taken an exception from its queue and dropped it, in a
  network of processes that all have the default buffer size and none of which is destroyed, the process is marked as running for ever but
  never takes a message and never calls its function again, whatever the program, the executor and the threads do.
\<close>
theorem channel_exception_stalls:
  assumes "list_all default_op ops" and "run_ops (ch_step fn) ops channels_init = Inr s"
    and "u < n_size s" and "n_stalled (nodes s u)"
    and "list_all default_op later" and "run_ops (ch_step fn) later s = Inr s'"
  shows "n_running (nodes s' u) \<and> n_popped (nodes s' u) = n_popped (nodes s u) \<and> filter (is_call u) (frames s') = []"
proof -
  have e: "full_inv fn s'" "u < n_size s'" "n_stalled (nodes s' u)" "n_popped (nodes s' u) = n_popped (nodes s u)"
    using stalled_later [OF reachable_full [OF assms(1,2)] assms(5,3,4,6)] by simp_all
  have "n_running (nodes s' u)" "tot (pre u) (frames s') = 0"
    using live_invD [of s' "frames s'" u] e by (simp_all add: full_inv_def live_ok_def active_def)
  then show ?thesis using calls_le_pre [of u "frames s'"] e(4) by simp
qed

abbreviation throw_one :: "nat \<Rightarrow> nat \<Rightarrow> string + nat" where
  "throw_one \<equiv> \<lambda>u v. if v = 1 then Inl ''e'' else Inr v"

definition exception_ops :: "nat ch_op list" where
  "exception_ops =
     [Channel, Pipe 0 None, Set_Ready 0, Set_Ready 1, Send 0 1, Send 0 2,
      Thread 2, Start 0, Thread 4, Thread 4, Thread 4, Thread 4, Thread 4, Thread 4, Thread 4, Start 1, Thread 5, Thread 5,
      Thread 5, Thread 5]"

theorem channel_exception_stalls_witness:
  "\<exists>s. run_ops (ch_step throw_one) exception_ops channels_init = Inr s \<and> n_popped (nodes s 1) = [Inl ''e''] \<and>
     n_stalled (nodes s 1) \<and> (\<forall>later s'. list_all default_op later \<and> run_ops (ch_step throw_one) later s = Inr s' \<longrightarrow>
       n_running (nodes s' 1) \<and> n_popped (nodes s' 1) = [Inl ''e''])"
proof -
  have ok: "list_all default_op exception_ops" by (simp add: exception_ops_def default_op_def)
  have "case run_ops (ch_step throw_one) exception_ops channels_init of Inl e \<Rightarrow> False | Inr s \<Rightarrow>
      n_size s = 2 \<and> n_stalled (nodes s 1) \<and> n_popped (nodes s 1) = [Inl ''e'']" by code_simp
  then obtain s where s: "run_ops (ch_step throw_one) exception_ops channels_init = Inr s" "1 < n_size s"
    "n_stalled (nodes s 1)" "n_popped (nodes s 1) = [Inl ''e'']" by (auto split: sum.splits)
  show ?thesis using channel_exception_stalls [OF ok s(1,2,3)] s by (intro exI [of _ s]) auto
qed

section \<open>Other buffer sizes\<close>

definition parallel_ops :: "64 word \<Rightarrow> nat ch_op list" where
  "parallel_ops buffer =
     [Channel, Pipe 0 (Some buffer), Set_Ready 0, Set_Ready 1, Send 0 1, Send 0 2, Send 0 3, Thread 2, Start 0] @
     replicate 11 (Thread 5) @ [Start 1] @ replicate 4 (Thread 6) @ [Start 0, Start 0, Thread 7, Thread 7, Thread 8, Thread 8]"

text \<open>
  A process is not serial when a process below it has a buffer of size two, or an unlimited one: the
  process broadcasts without waiting and goes on, and \<open>clear_to_send\<close> of the process below starts it once more although
  it is running; its function is then called with two messages at the same time.
\<close>
theorem channel_parallel_calls:
  "(\<exists>s. run_ops (ch_step add_one) (parallel_ops 2) channels_init = Inr s \<and> filter (is_call 0) (frames s) = [In_Fun 0 2, In_Fun 0 3]) \<and>
   (\<exists>s. run_ops (ch_step add_one) (parallel_ops 0) channels_init = Inr s \<and> filter (is_call 0) (frames s) = [In_Fun 0 2, In_Fun 0 3])"
proof -
  have "case run_ops (ch_step add_one) (parallel_ops 2) channels_init of Inl e \<Rightarrow> False | Inr s \<Rightarrow>
      filter (is_call 0) (frames s) = [In_Fun 0 2, In_Fun 0 3]" by code_simp
  moreover have "case run_ops (ch_step add_one) (parallel_ops 0) channels_init of Inl e \<Rightarrow> False | Inr s \<Rightarrow>
      filter (is_call 0) (frames s) = [In_Fun 0 2, In_Fun 0 3]" by code_simp
  ultimately show ?thesis by (auto split: sum.splits)
qed

section \<open>Destroyed receivers\<close>

definition dead_ops :: "nat ch_op list" where
  "dead_ops =
     [Channel, Pipe 0 None, Pipe 0 None, Set_Ready 0, Set_Ready 1, Drop 2, Send 0 1, Send 0 2,
      Thread 0, Thread 1, Thread 2, Start 0, Thread 4, Thread 4, Thread 4, Thread 4, Thread 4, Thread 4, Thread 4, Start 1,
      Thread 4, Thread 4, Thread 4, Thread 4, Thread 5, Thread 5, Thread 5, Thread 5, Thread 5, Thread 5, Thread 5, Thread 5,
      Thread 5, Thread 5]"

text \<open>
  A destroyed receiver holds back the process upstream: \<open>broadcast\<close> counts it among those it waits for, and it never
  calls \<open>clear_to_send\<close>. With two processes attached and one of them destroyed, the network comes to rest
  after the first message, with the second one still in the queue of the first process.
\<close>
theorem channel_dead_receiver:
  "\<exists>s :: (nat, string) channels. run_ops (ch_step add_one) dead_ops channels_init = Inr s \<and> at_rest s \<and>
     n_running (nodes s 0) \<and> n_suspend (nodes s 0) = 1 \<and> n_queue (nodes s 0) = [Inr 2]"
proof -
  have "case run_ops (ch_step add_one) dead_ops channels_init of Inl e \<Rightarrow> False | Inr s \<Rightarrow>
      at_rest s \<and> n_running (nodes s 0) \<and> n_suspend (nodes s 0) = 1 \<and> n_queue (nodes s 0) = [Inr 2]" by code_simp
  then show ?thesis by (auto split: sum.splits)
qed

end
