(* ===== verification/Channel_Yield.thy ===== *)
theory Channel_Yield
  imports Channel_Inv
begin

text \<open>
  Processes with \<open>await\<close> and \<open>yield\<close> (\<^verbatim>\<open>channel.hpp\<close>): \<open>step\<close> feeds the messages of the queue to the process
  until it wants to yield or the queue is empty, then broadcasts what it yields, now, after a delay
  or when a timeout expires. The process is the program's; its methods are a parameter. The
  critical sections are those of theory \<open>Channel_Net\<close>; a call of \<open>broadcast\<close>, which is modelled there
  step by step, of \<open>clear_to_send\<close> upstream, of \<open>run\<close> and of \<open>execute_at\<close> is an action.
\<close>

section \<open>Processes\<close>

datatype process_state = Await | Yield

type_synonym process_state_scheduled = "process_state \<times> int"

definition nanoseconds_max :: int where
  "nanoseconds_max = 2 ^ 63 - 1"

definition nanoseconds_min :: int where
  "nanoseconds_min = - (2 ^ 63)"

definition await_forever :: process_state_scheduled where
  "await_forever = (Await, nanoseconds_max)"

definition yield_immediate :: process_state_scheduled where
  "yield_immediate = (Yield, nanoseconds_min)"

text \<open>
  The methods of a process of type \<open>'p\<close>. A call gives the exception it throws, if it throws one, and the
  new value of the process; \<open>close\<close>, \<open>set_error\<close> and \<open>await\<close> may be missing.
\<close>

record ('p, 'v, 'e) process =
  p_state :: "'p \<Rightarrow> process_state_scheduled"
  p_yield :: "'p \<Rightarrow> ('e + 'v) \<times> 'p"
  p_await :: "('v \<Rightarrow> 'p \<Rightarrow> 'e option \<times> 'p) option"
  p_close :: "('p \<Rightarrow> 'e option \<times> 'p) option"
  p_set_error :: "('e \<Rightarrow> 'p \<Rightarrow> 'e option \<times> 'p) option"

datatype ('v, 'e) yact = Clear_To_Send | Runs | Broadcasts "'e + 'v" | Execute_At int | Timeout_At int

record ('p, 'v, 'e) yprocess =
  y_node :: "('v, 'e) node"
  y_process :: "'p option"
  y_timeout :: bool
  y_acts :: "('v, 'e) yact list"

abbreviation act :: "('v, 'e) yact list \<Rightarrow> ('p, 'v, 'e) yprocess \<Rightarrow> ('p, 'v, 'e) yprocess" where
  "act as s \<equiv> s\<lparr>y_acts := y_acts s @ as\<rparr>"

text \<open>The test of an empty \<open>_process\<close> that the code leaves out.\<close>

definition the_process :: "('p, 'v, 'e) yprocess \<Rightarrow> 'p res" where
  "the_process s = (case y_process s of None \<Rightarrow> Inl Null_Call | Some p \<Rightarrow> Inr p)"

definition get_process_state :: "('p, 'v, 'e) process \<Rightarrow> ('p, 'v, 'e) yprocess \<Rightarrow> process_state_scheduled res" where
  "get_process_state P s = bindR (the_process s) (\<lambda>p. Inr (p_state P p))"

definition process_close :: "('p, 'v, 'e) process \<Rightarrow> ('p, 'v, 'e) yprocess \<Rightarrow> 'e option \<times> ('p, 'v, 'e) yprocess" where
  "process_close P s = (case (p_close P, y_process s) of
     (Some f, Some p) \<Rightarrow> (let (e, p') = f p in (e, s\<lparr>y_process := Some p'\<rparr>))
   | _ \<Rightarrow> (None, s))"

section \<open>Steps\<close>

text \<open>The exception thrown, if one was, and whether there was a message.\<close>

definition dequeue :: "('p, 'v, 'e) process \<Rightarrow> ('p, 'v, 'e) yprocess \<Rightarrow> ('e option \<times> bool \<times> ('p, 'v, 'e) yprocess) res" where
  "dequeue P s =
     bindR (sp_pop (y_node s)) (\<lambda>(r, cts, n).
       let s = act (if cts \<and> n_up n \<noteq> None then [Clear_To_Send] else []) (s\<lparr>y_node := n\<rparr>)
       in case r of
            None \<Rightarrow> (let (e, s) = process_close P s in Inr (e, False, s))
          | Some ms \<Rightarrow>
              (case find_argument_error ms of
                 Some err \<Rightarrow>
                   (case p_set_error P of
                      Some f \<Rightarrow> bindR (the_process s) (\<lambda>p. let (e, p') = f err p in Inr (e, True, s\<lparr>y_process := Some p'\<rparr>))
                    | None \<Rightarrow> (let (e, s) = process_close P s in Inr (e, True, s)))
               | None \<Rightarrow>
                   (case (ms, p_await P) of
                      ([Inr v], Some f) \<Rightarrow> bindR (the_process s) (\<lambda>p. let (e, p') = f v p in Inr (e, True, s\<lparr>y_process := Some p'\<rparr>))
                    | _ \<Rightarrow> Inl Out_Of_Bounds)))"

text \<open>A message leaves the queue, so the loop ends.\<close>

lemma dequeue_shorter:
  assumes "dequeue P s = Inr (e, True, s')"
  shows "length (n_queue (y_node s')) < length (n_queue (y_node s))"
proof (cases "n_queue (y_node s)")
  case Nil
  then show ?thesis using assms by (auto simp: dequeue_def sp_pop_Nil split: prod.splits)
next
  case (Cons m ms)
  then show ?thesis using assms
    by (auto simp: dequeue_def sp_pop_Cons process_close_def bindR_def Let_def split: option.splits sum.splits prod.splits list.splits)
qed

function await_loop :: "('p, 'v, 'e) process \<Rightarrow> ('p, 'v, 'e) yprocess \<Rightarrow> ('e option \<times> ('p, 'v, 'e) yprocess) res" where
  "await_loop P s =
     bindR (get_process_state P s) (\<lambda>(state, _).
       if state = Await then
         (case dequeue P s of
            Inl f \<Rightarrow> Inl f
          | Inr (Some e, b, s') \<Rightarrow> Inr (Some e, s')
          | Inr (None, False, s') \<Rightarrow> Inr (None, s')
          | Inr (None, True, s') \<Rightarrow> await_loop P s')
       else Inr (None, s))"
  by pat_completeness auto
termination
  by (relation "measure (\<lambda>(P, s). length (n_queue (y_node s)))") (auto dest: dequeue_shorter)

declare await_loop.simps [simp del]

text \<open>\<open>broadcast (unwrap (*_process).yield ())\<close>; an exception of \<open>yield\<close> is broadcast by the handler.\<close>

definition yield_broadcast :: "('p, 'v, 'e) process \<Rightarrow> ('p, 'v, 'e) yprocess \<Rightarrow> ('p, 'v, 'e) yprocess res" where
  "yield_broadcast P s =
     bindR (the_process s) (\<lambda>p. let (m, p') = p_yield P p in Inr (act [Broadcasts m] (s\<lparr>y_process := Some p'\<rparr>)))"

definition try_broadcast :: "('p, 'v, 'e) process \<Rightarrow> ('p, 'v, 'e) yprocess \<Rightarrow> ('p, 'v, 'e) yprocess res" where
  "try_broadcast P s = (if y_process s = None then Inr s else yield_broadcast P s)"

definition task_done :: "('p, 'v, 'e) yprocess \<Rightarrow> ('p, 'v, 'e) yprocess" where
  "task_done s =
     (let (do_run, do_final, n) = sp_task_done (y_node s)
      in act (if do_run then [Runs] else []) (s\<lparr>y_node := n, y_process := (if do_final then None else y_process s)\<rparr>))"

definition after_await :: "('p, 'v, 'e) process \<Rightarrow> ('p, 'v, 'e) yprocess \<Rightarrow> ('p, 'v, 'e) yprocess res" where
  "after_await P s =
     bindR (get_process_state P s) (\<lambda>(state, duration).
       if state = Yield then
         (if duration \<le> nanoseconds_min then yield_broadcast P s else Inr (act [Execute_At duration] s))
       else if duration = nanoseconds_max then Inr (task_done s)
       else if duration \<le> nanoseconds_min then yield_broadcast P s
       else Inr (act [Timeout_At duration] (s\<lparr>y_timeout := True\<rparr>)))"

text \<open>\<open>locked\<close> says that the timeout function holds its mutex.\<close>

definition yield_step :: "('p, 'v, 'e) process \<Rightarrow> bool \<Rightarrow> ('p, 'v, 'e) yprocess \<Rightarrow> ('p, 'v, 'e) yprocess res" where
  "yield_step P locked s =
     (if locked then Inr (act [Runs] s)
      else
        (let s = s\<lparr>y_timeout := False\<rparr>
         in if p_await P \<noteq> None then
              bindR (await_loop P s) (\<lambda>(e, s). case e of Some e \<Rightarrow> Inr (act [Broadcasts (Inl e)] s) | None \<Rightarrow> after_await P s)
            else
              bindR (get_process_state P s) (\<lambda>(state, _). if state = Await then Inr s else after_await P s)))"

text \<open>The function that a timeout calls once it has the mutex.\<close>

definition timeout_function :: "('p, 'v, 'e) process \<Rightarrow> ('p, 'v, 'e) yprocess \<Rightarrow> ('p, 'v, 'e) yprocess res" where
  "timeout_function P s =
     bindR (get_process_state P s) (\<lambda>(state, _).
       if state \<noteq> Yield then bindR (try_broadcast P s) (\<lambda>s. Inr (s\<lparr>y_timeout := False\<rparr>)) else Inr s)"

text \<open>The end of a broadcast: \<open>clear_to_send\<close> when the suspend count drops to zero.\<close>

definition yield_clear :: "('p, 'v, 'e) process \<Rightarrow> ('p, 'v, 'e) yprocess \<Rightarrow> ('p, 'v, 'e) yprocess res" where
  "yield_clear P s =
     (if n_final (y_node s) then Inr s
      else
        bindR (get_process_state P s) (\<lambda>(state, _).
          if state = Yield \<or> n_queue (y_node s) \<noteq> [] \<or> n_close (y_node s) then Inr (act [Runs] s)
          else Inr (s\<lparr>y_node := (y_node s)\<lparr>n_running := False\<rparr>\<rparr>)))"

definition yield_enqueue :: "'e + 'v \<Rightarrow> ('p, 'v, 'e) yprocess \<Rightarrow> ('p, 'v, 'e) yprocess" where
  "yield_enqueue m s =
     (let n = y_node s; do_run = (n_receivers n = 0 \<and> (\<not> n_running n \<or> y_timeout s))
      in act (if do_run then [Runs] else [])
           (s\<lparr>y_node := n\<lparr>n_queue := n_queue n @ [m], n_in := n_in n @ [m], n_running := n_running n \<or> do_run\<rparr>\<rparr>))"

definition yield_close :: "('p, 'v, 'e) yprocess \<Rightarrow> ('p, 'v, 'e) yprocess" where
  "yield_close s = (let (do_run, n) = sp_close_queue (y_node s) in act (if do_run then [Runs] else []) (s\<lparr>y_node := n\<rparr>))"

text \<open>What happens to a process: messages, the end of its senders, and the calls that the executor and the timer make.\<close>

datatype ('v, 'e) yop = Y_Enqueue "'e + 'v" | Y_Close | Y_Step bool | Y_Timeout | Y_Delayed | Y_Clear

fun y_step :: "('p, 'v, 'e) process \<Rightarrow> ('v, 'e) yop \<Rightarrow> ('p, 'v, 'e) yprocess \<Rightarrow> ('p, 'v, 'e) yprocess res" where
  "y_step P (Y_Enqueue m) s = Inr (yield_enqueue m s)"
| "y_step P Y_Close s = Inr (yield_close s)"
| "y_step P (Y_Step locked) s = yield_step P locked s"
| "y_step P Y_Timeout s = timeout_function P s"
| "y_step P Y_Delayed s = try_broadcast P s"
| "y_step P Y_Clear s = yield_clear P s"

definition y_init :: "'p \<Rightarrow> ('p, 'v, 'e) yprocess" where
  "y_init p = \<lparr>y_node = (shared_process None 1)\<lparr>n_receivers := 0, n_ready := True\<rparr>, y_process = Some p, y_timeout = False, y_acts = []\<rparr>"

section \<open>Every step returns\<close>

definition keeps :: "('p, 'v, 'e) yprocess \<Rightarrow> ('p, 'v, 'e) yprocess \<Rightarrow> bool" where
  "keeps s s' \<longleftrightarrow> y_process s' \<noteq> None \<and> (\<exists>k. n_queue (y_node s') = drop k (n_queue (y_node s)))"

lemma keeps_trans: "keeps s s' \<Longrightarrow> keeps s' s'' \<Longrightarrow> keeps s s''"
  by (auto simp: keeps_def)

lemma process_close_keeps [simp]:
  "y_node (snd (process_close P s)) = y_node s" "y_process (snd (process_close P s)) = None \<longleftrightarrow> y_process s = None"
  by (auto simp: process_close_def split: option.splits prod.splits)

lemma dequeue_total:
  assumes "y_process s \<noteq> None" and "p_await P \<noteq> None"
  obtains e b s' where "dequeue P s = Inr (e, b, s')" "keeps s s'"
proof (cases "n_queue (y_node s)")
  case Nil
  let ?s = "s\<lparr>y_node := (y_node s)\<lparr>n_close := False, n_final := n_close (y_node s)\<rparr>\<rparr>"
  have "dequeue P s = Inr (fst (process_close P ?s), False, snd (process_close P ?s))"
    using Nil by (simp add: dequeue_def sp_pop_Nil split: prod.split)
  moreover have "keeps s (snd (process_close P ?s))" using assms(1) Nil by (simp add: keeps_def del: not_None_eq)
  ultimately show ?thesis using that by blast
next
  case (Cons m ms)
  obtain p f where pf: "y_process s = Some p" "p_await P = Some f" using assms by blast
  let ?c = "if of_nat (length ms) \<le> n_buffer (y_node s) - 1 \<and> n_up (y_node s) \<noteq> None then [Clear_To_Send] else []"
  let ?s = "act ?c (s\<lparr>y_node := (y_node s)\<lparr>n_queue := ms, n_popped := n_popped (y_node s) @ [m]\<rparr>\<rparr>)"
  have k: "\<exists>k. ms = drop k (n_queue (y_node s))" using Cons by (intro exI [of _ 1]) simp
  consider (v) v where "m = Inr v" | (set) e g where "m = Inl e" "p_set_error P = Some g" | (close) e where "m = Inl e" "p_set_error P = None"
    by (cases m; cases "p_set_error P") auto
  then show ?thesis
  proof cases
    case v
    have "dequeue P s = Inr (fst (f v p), True, ?s\<lparr>y_process := Some (snd (f v p))\<rparr>)"
      using pf v Cons by (simp add: dequeue_def sp_pop_Cons find_argument_error_def tuple_find_def the_process_def split: prod.split)
    then show ?thesis using that k by (simp add: keeps_def)
  next
    case set
    have "dequeue P s = Inr (fst (g e p), True, ?s\<lparr>y_process := Some (snd (g e p))\<rparr>)"
      using pf set Cons by (simp add: dequeue_def sp_pop_Cons find_argument_error_def tuple_find_def get_i_def the_process_def split: prod.split)
    then show ?thesis using that k by (simp add: keeps_def)
  next
    case close
    have "dequeue P s = Inr (fst (process_close P ?s), True, snd (process_close P ?s))"
      using pf close Cons by (simp add: dequeue_def sp_pop_Cons find_argument_error_def tuple_find_def get_i_def split: prod.split)
    moreover have "keeps s (snd (process_close P ?s))" using assms(1) k by (simp add: keeps_def del: not_None_eq)
    ultimately show ?thesis using that by blast
  qed
qed

lemma get_process_state_total: "y_process s = Some p \<Longrightarrow> get_process_state P s = Inr (p_state P p)"
  by (simp add: get_process_state_def the_process_def)

lemma await_loop_total:
  "y_process s \<noteq> None \<Longrightarrow> p_await P \<noteq> None \<Longrightarrow> \<exists>e s'. await_loop P s = Inr (e, s') \<and> keeps s s'"
proof (induction P s rule: await_loop.induct)
  case (1 P s)
  obtain p where p: "y_process s = Some p" using 1 by blast
  note G = get_process_state_total [OF p, of P]
  obtain state d where st: "p_state P p = (state, d)" by fastforce
  show ?case
  proof (cases "state = Await")
    case True
    from dequeue_total [OF "1.prems"] obtain e b s' where d: "dequeue P s = Inr (e, b, s')" "keeps s s'" .
    show ?thesis
    proof (cases "e = None \<and> b")
      case True
      from True have "\<exists>e t. await_loop P s' = Inr (e, t) \<and> keeps s' t"
        using "1.IH" [OF refl d(1) refl _ refl] d(2) "1.prems"(2) by (simp add: keeps_def)
      then show ?thesis using d True \<open>state = Await\<close> G st by (subst await_loop.simps) (auto dest: keeps_trans)
    next
      case False
      then show ?thesis using d \<open>state = Await\<close> G st by (subst await_loop.simps) (auto split: option.splits bool.splits)
    qed
  next
    case False
    then show ?thesis using G st p by (subst await_loop.simps) (auto simp: keeps_def intro: exI [of _ 0])
  qed
qed

lemma after_await_total:
  assumes "y_process s \<noteq> None"
  shows "\<exists>s'. after_await P s = Inr s' \<and> n_queue (y_node s') = n_queue (y_node s)"
proof -
  obtain p where p: "y_process s = Some p" using assms by blast
  obtain state d where st: "p_state P p = (state, d)" by fastforce
  show ?thesis
    using p st by (auto simp: after_await_def get_process_state_total yield_broadcast_def the_process_def task_done_def sp_task_done_def
        Let_def split: prod.split)
qed

text \<open>
  A step of a process with \<open>yield\<close> returns: whatever the methods of the process do, as long as
  the process has not ended, \<open>step\<close> comes to its end without calling through an empty \<open>_process\<close>, and
  the messages it leaves in the queue are the last ones, in order.
\<close>
theorem yield_step_returns:
  assumes "y_process s \<noteq> None"
  shows "\<exists>s' k. yield_step P locked s = Inr s' \<and> n_queue (y_node s') = drop k (n_queue (y_node s))"
proof -
  let ?s = "s\<lparr>y_timeout := False\<rparr>"
  obtain p where p: "y_process s = Some p" using assms by blast
  have z: "\<exists>k. n_queue (y_node s) = drop k (n_queue (y_node s))" by (rule exI [of _ 0]) simp
  show ?thesis
  proof (cases "locked \<or> p_await P = None")
    case True
    then consider "locked" | "\<not> locked" "p_await P = None" by (cases locked) simp_all
    then show ?thesis
    proof cases
      case 2
      then show ?thesis using after_await_total [of ?s P] p
        by (auto simp: yield_step_def Let_def get_process_state_total split: prod.split intro: z)
    qed (auto simp: yield_step_def intro: z)
  next
    case False
    from await_loop_total [of ?s P] False p obtain e s' where s': "await_loop P ?s = Inr (e, s')" "keeps ?s s'" by auto
    then obtain k where k: "n_queue (y_node s') = drop k (n_queue (y_node s))" "y_process s' \<noteq> None" by (auto simp: keeps_def)
    show ?thesis
    proof (cases e)
      case None
      then show ?thesis using after_await_total [OF k(2), of P] False s' k(1) by (auto simp: yield_step_def)
    next
      case (Some x)
      then show ?thesis using False s' k(1) by (auto simp: yield_step_def)
    qed
  qed
qed

theorem yield_step_returns_witness:
  "\<exists>s' k. yield_step \<lparr>p_state = (\<lambda>p :: nat. if p < 2 then await_forever else yield_immediate), p_yield = (\<lambda>p. (Inr p, 0)),
        p_await = Some (\<lambda>v p. (None, p + v)), p_close = None, p_set_error = None\<rparr> False
      (y_init 0 \<lparr>y_node := (shared_process None 1)\<lparr>n_queue := [Inr 1, Inr 5, Inr 7]\<rparr>\<rparr>) = Inr (s' :: (nat, nat, string) yprocess) \<and>
    n_queue (y_node s') = drop k [Inr 1, Inr 5, Inr 7]"
proof -
  let ?s = "y_init 0 \<lparr>y_node := (shared_process None 1)\<lparr>n_queue := [Inr 1, Inr 5, Inr 7]\<rparr>\<rparr> :: (nat, nat, string) yprocess"
  have "y_process ?s \<noteq> None" "n_queue (y_node ?s) = [Inr 1, Inr 5, Inr 7]" by (simp_all add: y_init_def)
  with yield_step_returns [of ?s] show ?thesis by metis
qed

section \<open>Functions as processes\<close>

text \<open>
  \<open>function_process\<close> makes a process of a function \<open>f\<close>. \<open>bad\<close> is the exception that a call of an empty
  \<open>std::function\<close> throws.
\<close>

record 'v fprocess =
  fp_bound :: "'v option"
  fp_done :: bool

definition fp_init :: "'v fprocess" where
  "fp_init = \<lparr>fp_bound = None, fp_done = True\<rparr>"

definition function_process :: "('v \<Rightarrow> 'e + 'v) \<Rightarrow> 'e \<Rightarrow> ('v fprocess, 'v, 'e) process" where
  "function_process f bad =
     \<lparr>p_state = (\<lambda>p. if fp_done p then await_forever else yield_immediate),
      p_yield = (\<lambda>p. (case fp_bound p of None \<Rightarrow> Inl bad | Some v \<Rightarrow> f v, p\<lparr>fp_done := True\<rparr>)),
      p_await = Some (\<lambda>v p. (None, p\<lparr>fp_bound := Some v, fp_done := False\<rparr>)),
      p_close = None, p_set_error = None\<rparr>"

abbreviation popped :: "('e + 'v) list \<Rightarrow> ('p, 'v, 'e) yprocess \<Rightarrow> ('p, 'v, 'e) yprocess" where
  "popped ms s \<equiv> s\<lparr>y_node := (y_node s)\<lparr>n_queue := drop (length ms) (n_queue (y_node s)), n_popped := n_popped (y_node s) @ ms\<rparr>\<rparr>"

text \<open>The exceptions at the front of the queue are dropped.\<close>

lemma await_loop_errors:
  assumes "y_process s = Some p" and "fp_done p" and "n_queue (y_node s) = map Inl es @ q"
  shows "\<exists>k \<le> length es. await_loop (function_process f bad) s =
    await_loop (function_process f bad) (act (replicate k Clear_To_Send) (popped (map Inl es) s))"
  using assms
proof (induction es arbitrary: s)
  case Nil
  show ?case by simp
next
  case (Cons e es)
  let ?P = "function_process f bad"
  define b where "b \<longleftrightarrow> of_nat (length es + length q) \<le> n_buffer (y_node s) - 1 \<and> n_up (y_node s) \<noteq> None"
  let ?s = "act (if b then [Clear_To_Send] else []) (popped [Inl e] s)"
  have "dequeue ?P s = Inr (None, True, ?s)"
    using Cons.prems by (simp add: dequeue_def sp_pop_Cons find_argument_error_def tuple_find_def get_i_def process_close_def
        function_process_def b_def)
  then have "await_loop ?P s = await_loop ?P ?s"
    using Cons.prems by (subst await_loop.simps) (simp add: get_process_state_total function_process_def await_forever_def)
  moreover from Cons.IH [of ?s] Cons.prems obtain k where "k \<le> length es"
    "await_loop ?P ?s = await_loop ?P (act (replicate k Clear_To_Send) (popped (map Inl es) ?s))" by auto
  ultimately show ?case
    by (intro exI [of _ "(if b then 1 else 0) + k"]) (simp add: replicate_add)
qed

text \<open>
  A \<open>function_process\<close> calls its function once per message: a step drops the exceptions at the front of the
  queue, takes the first argument \<open>v\<close>, broadcasts \<open>f v\<close> and leaves the rest of the queue alone, ready for the next
  message.
\<close>
theorem function_process_step:
  assumes "y_process s = Some p" and "fp_done p" and q: "n_queue (y_node s) = map Inl es @ Inr v # q"
  shows "\<exists>s' k. yield_step (function_process f bad) False s = Inr s' \<and> n_queue (y_node s') = q \<and>
    y_acts s' = y_acts s @ replicate k Clear_To_Send @ [Broadcasts (f v)] \<and>
    y_process s' = Some \<lparr>fp_bound = Some v, fp_done = True\<rparr>"
proof -
  let ?P = "function_process f bad" and ?s = "s\<lparr>y_timeout := False\<rparr>"
  have aw: "p_await ?P \<noteq> None" by (simp add: function_process_def)
  from await_loop_errors [of ?s p es "Inr v # q" f bad] assms q obtain k where k:
    "await_loop ?P ?s = await_loop ?P (act (replicate k Clear_To_Send) (popped (map Inl es) ?s))" by auto
  let ?t = "act (replicate k Clear_To_Send) (popped (map Inl es) ?s)"
  define b where "b \<longleftrightarrow> of_nat (length q) \<le> n_buffer (y_node s) - 1 \<and> n_up (y_node s) \<noteq> None"
  let ?u = "(act (if b then [Clear_To_Send] else []) (popped [Inr v] ?t))\<lparr>y_process := Some (p\<lparr>fp_bound := Some v, fp_done := False\<rparr>)\<rparr>"
  have "dequeue ?P ?t = Inr (None, True, ?u)"
    using q assms by (simp add: dequeue_def sp_pop_Cons find_argument_error_def tuple_find_def the_process_def function_process_def b_def)
  then have "await_loop ?P ?t = await_loop ?P ?u"
    using assms by (subst await_loop.simps) (simp add: get_process_state_total function_process_def await_forever_def)
  moreover have "await_loop ?P ?u = Inr (None, ?u)"
    by (subst await_loop.simps) (simp add: get_process_state_total function_process_def yield_immediate_def)
  ultimately have "yield_step ?P False s = after_await ?P ?u" using k aw by (simp add: yield_step_def)
  moreover have "after_await ?P ?u = Inr (act [Broadcasts (f v)] (?u\<lparr>y_process := Some (p\<lparr>fp_bound := Some v, fp_done := True\<rparr>)\<rparr>))"
    by (simp add: after_await_def get_process_state_total yield_broadcast_def the_process_def function_process_def yield_immediate_def)
  moreover have "p\<lparr>fp_bound := Some v, fp_done := True\<rparr> = \<lparr>fp_bound = Some v, fp_done = True\<rparr>" by (cases p) simp
  ultimately show ?thesis using q
    by (intro exI [of _ "act [Broadcasts (f v)] (?u\<lparr>y_process := Some (p\<lparr>fp_bound := Some v, fp_done := True\<rparr>)\<rparr>)"]
        exI [of _ "k + (if b then 1 else 0)"]) (simp add: replicate_add)
qed

theorem function_process_step_witness:
  "\<exists>s' k. yield_step (function_process (\<lambda>v. Inr (v * v)) ''bad'') False
      (y_init fp_init \<lparr>y_node := (shared_process None 1)\<lparr>n_queue := [Inl ''e'', Inr 5, Inr 7]\<rparr>\<rparr>) =
      Inr (s' :: (nat fprocess, nat, string) yprocess) \<and>
    n_queue (y_node s') = [Inr 7] \<and> y_acts s' = replicate k Clear_To_Send @ [Broadcasts (Inr 25)]"
proof -
  let ?s = "y_init fp_init \<lparr>y_node := (shared_process None 1)\<lparr>n_queue := [Inl ''e'', Inr 5, Inr 7]\<rparr>\<rparr> :: (nat fprocess, nat, string) yprocess"
  have "y_process ?s = Some fp_init" "fp_done (fp_init :: nat fprocess)" "n_queue (y_node ?s) = map Inl [''e''] @ Inr 5 # [Inr 7]" "y_acts ?s = []"
    by (simp_all add: y_init_def fp_init_def)
  with function_process_step [OF this(1-3), of "\<lambda>v. Inr (v * v)" "''bad''"] show ?thesis by auto
qed

text \<open>
  A \<open>function_process\<close> with no argument in its queue drops the exceptions there, calls nothing, is done
  and not running, and has ended when its senders are closed.
\<close>
theorem function_process_idle:
  assumes "y_process s = Some p" and "fp_done p" and q: "n_queue (y_node s) = map Inl es"
  shows "\<exists>s' k. yield_step (function_process f bad) False s = Inr s' \<and> n_queue (y_node s') = [] \<and>
    y_acts s' = y_acts s @ replicate k Clear_To_Send \<and> \<not> n_running (y_node s') \<and>
    y_process s' = (if n_close (y_node s) then None else Some p)"
proof -
  let ?P = "function_process f bad" and ?s = "s\<lparr>y_timeout := False\<rparr>"
  have aw: "p_await ?P \<noteq> None" by (simp add: function_process_def)
  from await_loop_errors [of ?s p es "[]" f bad] assms q obtain k where k:
    "await_loop ?P ?s = await_loop ?P (act (replicate k Clear_To_Send) (popped (map Inl es) ?s))" by auto
  let ?t = "act (replicate k Clear_To_Send) (popped (map Inl es) ?s)"
  let ?u = "?t\<lparr>y_node := (y_node ?t)\<lparr>n_close := False, n_final := n_close (y_node s)\<rparr>\<rparr>"
  have "dequeue ?P ?t = Inr (None, False, ?u)"
    using q by (simp add: dequeue_def sp_pop_Nil process_close_def function_process_def)
  then have "await_loop ?P ?t = Inr (None, ?u)"
    using assms by (subst await_loop.simps) (simp add: get_process_state_total function_process_def await_forever_def)
  then have "yield_step ?P False s = Inr (task_done ?u)"
    using k aw assms by (simp add: yield_step_def after_await_def get_process_state_total function_process_def await_forever_def)
  then show ?thesis using q assms by (auto simp: task_done_def sp_task_done_def)
qed

theorem function_process_idle_witness:
  "\<exists>s' k. yield_step (function_process (\<lambda>v. Inr (v * v)) ''bad'') False
      (y_init fp_init \<lparr>y_node := (shared_process None 1)\<lparr>n_queue := [Inl ''e''], n_close := True\<rparr>\<rparr>) =
      Inr (s' :: (nat fprocess, nat, string) yprocess) \<and>
    n_queue (y_node s') = [] \<and> y_acts s' = replicate k Clear_To_Send \<and> y_process s' = None"
proof -
  let ?s = "y_init fp_init \<lparr>y_node := (shared_process None 1)\<lparr>n_queue := [Inl ''e''], n_close := True\<rparr>\<rparr> :: (nat fprocess, nat, string) yprocess"
  have "y_process ?s = Some fp_init" "fp_done (fp_init :: nat fprocess)" "n_queue (y_node ?s) = map Inl [''e'']" "y_acts ?s = []" "n_close (y_node ?s)"
    by (simp_all add: y_init_def fp_init_def)
  with function_process_idle [OF this(1-3), of "\<lambda>v. Inr (v * v)" "''bad''"] show ?thesis by auto
qed

section \<open>What the comments promise\<close>

text \<open>
  A process is told to close whenever its queue runs empty: the step of a process in an await state calls its
  \<open>close\<close> although nobody has closed its senders, and it has not ended.
\<close>
theorem close_without_close:
  assumes "y_process s = Some p" and "p_await P \<noteq> None" and "p_close P = Some g" and "g p = (None, p')"
    and "fst (p_state P p) = Await" and "p_state P p' = await_forever"
    and "n_queue (y_node s) = []" and "\<not> n_close (y_node s)"
  shows "\<exists>s'. yield_step P False s = Inr s' \<and> y_process s' = Some p' \<and> \<not> n_final (y_node s') \<and> \<not> n_running (y_node s')"
proof -
  let ?u = "s\<lparr>y_timeout := False, y_node := (y_node s)\<lparr>n_close := False, n_final := False\<rparr>, y_process := Some p'\<rparr>"
  have "dequeue P (s\<lparr>y_timeout := False\<rparr>) = Inr (None, False, ?u)"
    using assms by (simp add: dequeue_def sp_pop_Nil process_close_def)
  then have "await_loop P (s\<lparr>y_timeout := False\<rparr>) = Inr (None, ?u)"
    using assms(1,5) by (subst await_loop.simps) (cases "p_state P p", simp add: get_process_state_total)
  then have "yield_step P False s = Inr (task_done ?u)"
    using assms by (simp add: yield_step_def after_await_def get_process_state_total await_forever_def)
  then show ?thesis using assms(7) by (simp add: task_done_def sp_task_done_def)
qed

theorem close_without_close_witness:
  "\<exists>s'. yield_step \<lparr>p_state = (\<lambda>p. await_forever), p_yield = (\<lambda>p. (Inr 0, p)), p_await = Some (\<lambda>v p. (None, p)),
        p_close = Some (\<lambda>p. (None, True)), p_set_error = None\<rparr> False (y_init False) = Inr (s' :: (bool, nat, string) yprocess) \<and>
    y_process s' = Some True \<and> \<not> n_final (y_node s')"
proof -
  let ?P = "\<lparr>p_state = (\<lambda>p. await_forever), p_yield = (\<lambda>p. (Inr 0, p)), p_await = Some (\<lambda>v p. (None, p)),
    p_close = Some (\<lambda>p. (None, True)), p_set_error = None\<rparr> :: (bool, nat, string) process"
  have "y_process (y_init False :: (bool, nat, string) yprocess) = Some False" "p_await ?P \<noteq> None" "p_close ?P = Some (\<lambda>p. (None, True))"
    "(\<lambda>p :: bool. (None :: string option, True)) False = (None, True)" "fst (p_state ?P False) = Await" "p_state ?P True = await_forever"
    "n_queue (y_node (y_init False :: (bool, nat, string) yprocess)) = []" "\<not> n_close (y_node (y_init False :: (bool, nat, string) yprocess))"
    by (simp_all add: y_init_def shared_process_def await_forever_def)
  from close_without_close [OF this] show ?thesis by blast
qed

text \<open>
  An expired timeout does not yield now: a process that awaits with a duration of zero or less, but not
  the smallest of all, is scheduled with the timer.
\<close>
theorem expired_timeout_scheduled:
  assumes "y_process s = Some p" and "p_state P p = (Await, d)" and "nanoseconds_min < d" and "d \<le> 0"
  shows "after_await P s = Inr (act [Timeout_At d] (s\<lparr>y_timeout := True\<rparr>))"
  using assms by (simp add: after_await_def get_process_state_total nanoseconds_max_def nanoseconds_min_def)

theorem expired_timeout_scheduled_witness:
  "after_await \<lparr>p_state = (\<lambda>p. (Await, -5)), p_yield = (\<lambda>p. (Inr 0, p)), p_await = None, p_close = None, p_set_error = None\<rparr> (y_init ()) =
    Inr (act [Timeout_At (-5)] ((y_init () :: (unit, nat, string) yprocess)\<lparr>y_timeout := True\<rparr>))"
  by (rule expired_timeout_scheduled [where p = "()"]) (simp_all add: y_init_def nanoseconds_min_def)

text \<open>A process that waits ten nanoseconds for its only message.\<close>

definition impatient :: "(bool, nat, string) process" where
  "impatient =
     \<lparr>p_state = (\<lambda>p. if p then await_forever else (Await, 10)), p_yield = (\<lambda>p. (Inr 0, p)), p_await = Some (\<lambda>v p. (None, True)),
      p_close = None, p_set_error = None\<rparr>"

text \<open>
  A timeout may outlive its process: the process starts, waits with a timeout, receives a message in time, and
  ends when its sender is closed; the timer still holds the timeout function, which then asks an empty
  \<open>_process\<close> for its state.
\<close>
theorem timeout_after_end:
  "(\<exists>s. run_ops (y_step impatient) [Y_Enqueue (Inl ''e''), Y_Step False, Y_Enqueue (Inr 1), Y_Step False, Y_Close, Y_Step False] (y_init False) =
      Inr s \<and> y_acts s = [Runs, Timeout_At 10, Runs, Runs] \<and> timeout_function impatient s = Inl Null_Call)"
proof -
  have "case run_ops (y_step impatient) [Y_Enqueue (Inl ''e''), Y_Step False, Y_Enqueue (Inr 1), Y_Step False, Y_Close, Y_Step False] (y_init False) of
      Inl e \<Rightarrow> False | Inr s \<Rightarrow> y_acts s = [Runs, Timeout_At 10, Runs, Runs] \<and>
        (case timeout_function impatient s of Inl e \<Rightarrow> e = Null_Call | Inr s \<Rightarrow> False)" by code_simp
  then show ?thesis by (auto split: sum.splits)
qed

end
