(* ===== verification/Channel_Handles.thy ===== *)
theory Channel_Handles
  imports Channel_Net
begin

text \<open>
  The handles of a process (\<^verbatim>\<open>channel.hpp\<close>): objects of class \<open>receiver\<close>, of which those not ready keep
  the process from starting, and objects of class \<open>sender\<close>, which keep it from closing. Both count:
  \<open>_receiver_count\<close> the receivers that are not ready, \<open>_sender_count\<close> the senders. And the annotations that
  \<open>operator&\<close> puts on a process.
\<close>

section \<open>Handles\<close>

text \<open>\<open>h_p\<close> says that the handle has its pointer \<open>_p\<close>, \<open>h_ready\<close> that \<open>set_ready\<close> was called on it; a sender has no such flag.\<close>

record handle =
  h_p :: bool
  h_ready :: bool

record handles =
  hs :: "handle list"
  h_count :: nat

text \<open>The handle that \<open>channel\<close> or \<open>operator|\<close> returns.\<close>

definition handles_init :: handles where
  "handles_init = \<lparr>hs = [\<lparr>h_p = True, h_ready = False\<rparr>], h_count = 1\<rparr>"

definition add_handle :: "handles \<Rightarrow> handles" where
  "add_handle s = s\<lparr>h_count := h_count s + 1\<rparr>"

text \<open>The decrement, with the assertion before it.\<close>

definition remove_handle :: "handles \<Rightarrow> handles res" where
  "remove_handle s = (if h_count s = 0 then Inl Bad_Handle else Inr (s\<lparr>h_count := h_count s - 1\<rparr>))"

definition when_live :: "handle \<Rightarrow> handles \<Rightarrow> handles res" where
  "when_live h s = (if h_p h \<and> \<not> h_ready h then remove_handle s else Inr s)"

definition set_handle :: "nat \<Rightarrow> handle \<Rightarrow> handles \<Rightarrow> handles" where
  "set_handle i h s = s\<lparr>hs := (hs s)[i := h]\<rparr>"

text \<open>An object that has been destroyed stays in the list, without its pointer.\<close>

definition destroy_handle :: "nat \<Rightarrow> handles \<Rightarrow> handles res" where
  "destroy_handle i s =
     bindR (when_live (hs s ! i) s) (\<lambda>s. Inr (set_handle i ((hs s ! i)\<lparr>h_p := False\<rparr>) s))"

definition copy_handle :: "nat \<Rightarrow> handles \<Rightarrow> handles" where
  "copy_handle i s = (let h = hs s ! i; s = s\<lparr>hs := hs s @ [h]\<rparr> in if h_p h then add_handle s else s)"

definition move_handle :: "nat \<Rightarrow> handles \<Rightarrow> handles" where
  "move_handle i s = (let h = hs s ! i in set_handle i (h\<lparr>h_p := False\<rparr>) (s\<lparr>hs := hs s @ [h]\<rparr>))"

text \<open>The defaulted move assignment overwrites the pointer without giving up the handle it stood for.\<close>

definition move_assign :: "nat \<Rightarrow> nat \<Rightarrow> handles \<Rightarrow> handles" where
  "move_assign i j s = (if i = j then s else (let h = hs s ! j in set_handle j (h\<lparr>h_p := False\<rparr>) (set_handle i h s)))"

text \<open>The copy assignment makes a copy, moves it in, and destroys what is left of it.\<close>

definition copy_assign :: "nat \<Rightarrow> nat \<Rightarrow> handles \<Rightarrow> handles res" where
  "copy_assign i j s = (let t = length (hs s) in destroy_handle t (move_assign i t (copy_handle j s)))"

text \<open>\<open>std::swap\<close>: a move construction and two move assignments, and the destruction of the temporary.\<close>

definition swap_handles :: "nat \<Rightarrow> nat \<Rightarrow> handles \<Rightarrow> handles res" where
  "swap_handles i j s =
     (let t = length (hs s) in destroy_handle t (move_assign j t (move_assign i j (move_handle i s))))"

definition set_ready_handle :: "nat \<Rightarrow> handles \<Rightarrow> handles res" where
  "set_ready_handle i s =
     bindR (when_live (hs s ! i) s) (\<lambda>s. Inr (set_handle i ((hs s ! i)\<lparr>h_ready := True\<rparr>) s))"

definition close_handle :: "nat \<Rightarrow> handles \<Rightarrow> handles res" where
  "close_handle i s = destroy_handle i s"

datatype hop = H_Copy nat | H_Move nat | H_Copy_Assign nat nat | H_Move_Assign nat nat | H_Swap nat nat | H_Set_Ready nat | H_Destroy nat
  | H_Close nat

fun hop_known :: "hop \<Rightarrow> handles \<Rightarrow> bool" where
  "hop_known (H_Copy i) s = (i < length (hs s))"
| "hop_known (H_Move i) s = (i < length (hs s))"
| "hop_known (H_Copy_Assign i j) s = (i < length (hs s) \<and> j < length (hs s))"
| "hop_known (H_Move_Assign i j) s = (i < length (hs s) \<and> j < length (hs s))"
| "hop_known (H_Swap i j) s = (i < length (hs s) \<and> j < length (hs s) \<and> i \<noteq> j)"
| "hop_known (H_Set_Ready i) s = (i < length (hs s))"
| "hop_known (H_Destroy i) s = (i < length (hs s))"
| "hop_known (H_Close i) s = (i < length (hs s))"

fun handle_step :: "hop \<Rightarrow> handles \<Rightarrow> handles res" where
  "handle_step (H_Copy i) s = Inr (copy_handle i s)"
| "handle_step (H_Move i) s = Inr (move_handle i s)"
| "handle_step (H_Copy_Assign i j) s = copy_assign i j s"
| "handle_step (H_Move_Assign i j) s = Inr (move_assign i j s)"
| "handle_step (H_Swap i j) s = swap_handles i j s"
| "handle_step (H_Set_Ready i) s = set_ready_handle i s"
| "handle_step (H_Destroy i) s = destroy_handle i s"
| "handle_step (H_Close i) s = close_handle i s"

definition handle_op :: "hop \<Rightarrow> handles \<Rightarrow> handles res" where
  "handle_op x s = (if hop_known x s then handle_step x s else Inr s)"

section \<open>Counts\<close>

definition live :: "handle \<Rightarrow> nat" where
  "live h = (if h_p h \<and> \<not> h_ready h then 1 else 0)"

definition live_handles :: "handles \<Rightarrow> nat" where
  "live_handles s = sum_list (map live (hs s))"

lemma live_simps [simp]: "live (h\<lparr>h_p := False\<rparr>) = 0" "live (h\<lparr>h_ready := True\<rparr>) = 0"
  by (simp_all add: live_def)

lemma set_handle_live:
  assumes "i < length (hs s)"
  shows "live_handles (set_handle i h s) + live (hs s ! i) = live_handles s + live h"
proof -
  have "hs s = take i (hs s) @ hs s ! i # drop (Suc i) (hs s)" by (rule id_take_nth_drop [OF assms])
  then have "live_handles s = sum_list (map live (take i (hs s))) + live (hs s ! i) + sum_list (map live (drop (Suc i) (hs s)))"
    unfolding live_handles_def by (metis add.assoc list.simps(9) map_append sum_list.Cons sum_list_append)
  then show ?thesis using assms by (simp add: live_handles_def set_handle_def upd_conv_take_nth_drop)
qed

lemma set_handle_simps [simp]:
  "h_count (set_handle i h s) = h_count s" "length (hs (set_handle i h s)) = length (hs s)"
  "i < length (hs s) \<Longrightarrow> hs (set_handle i h s) ! i = h" "i \<noteq> j \<Longrightarrow> hs (set_handle i h s) ! j = hs s ! j"
  by (simp_all add: set_handle_def)

text \<open>Each operation changes the count as much as the handles, or leaves it too large.\<close>

lemma give_up:
  assumes "i < length (hs s)" and "live_handles s \<le> h_count s" and g: "live (g (hs s ! i)) = 0"
  shows "\<exists>s'. bindR (when_live (hs s ! i) s) (\<lambda>s. Inr (set_handle i (g (hs s ! i)) s)) = Inr s' \<and>
    hs s' = (hs s)[i := g (hs s ! i)] \<and> h_count s' + live (hs s ! i) = h_count s \<and> live_handles s' + live (hs s ! i) = live_handles s"
proof -
  have l: "live_handles (set_handle i (g (hs s ! i)) s) + live (hs s ! i) = live_handles s"
    using set_handle_live [OF assms(1), of "g (hs s ! i)"] g by simp
  show ?thesis
  proof (cases "h_p (hs s ! i) \<and> \<not> h_ready (hs s ! i)")
    case True
    then have "live (hs s ! i) = 1" by (simp add: live_def)
    moreover from this have "0 < h_count s" using l assms(2) by simp
    ultimately show ?thesis using l True
      by (simp add: when_live_def remove_handle_def) (simp add: set_handle_def live_handles_def)
  next
    case False
    then have "live (hs s ! i) = 0" by (auto simp: live_def)
    then show ?thesis using l False by (auto simp: when_live_def set_handle_def live_handles_def)
  qed
qed

lemmas destroy_count = give_up [where g = "\<lambda>h. h\<lparr>h_p := False\<rparr>", simplified live_simps, folded destroy_handle_def]

lemmas set_ready_count = give_up [where g = "\<lambda>h. h\<lparr>h_ready := True\<rparr>", simplified live_simps, folded set_ready_handle_def]

lemma copy_count:
  "hs (copy_handle i s) = hs s @ [hs s ! i]" "live_handles (copy_handle i s) = live_handles s + live (hs s ! i)"
  "h_count (copy_handle i s) = h_count s + (if h_p (hs s ! i) then 1 else 0)"
  by (simp_all add: copy_handle_def add_handle_def live_handles_def Let_def)

lemma move_count:
  assumes "i < length (hs s)"
  shows "hs (move_handle i s) = (hs s)[i := (hs s ! i)\<lparr>h_p := False\<rparr>] @ [hs s ! i]" "h_count (move_handle i s) = h_count s"
    "live_handles (move_handle i s) = live_handles s"
proof -
  show "hs (move_handle i s) = (hs s)[i := (hs s ! i)\<lparr>h_p := False\<rparr>] @ [hs s ! i]" "h_count (move_handle i s) = h_count s"
    using assms by (simp_all add: move_handle_def set_handle_def Let_def list_update_append)
  let ?s = "s\<lparr>hs := hs s @ [hs s ! i]\<rparr>"
  have "live_handles (set_handle i ((hs s ! i)\<lparr>h_p := False\<rparr>) ?s) + live (hs ?s ! i) = live_handles ?s"
    using set_handle_live [of i ?s "(hs s ! i)\<lparr>h_p := False\<rparr>"] assms by simp
  then show "live_handles (move_handle i s) = live_handles s"
    using assms by (simp add: move_handle_def Let_def live_handles_def nth_append)
qed

lemma move_assign_count:
  assumes "i < length (hs s)" and "j < length (hs s)" and "i \<noteq> j"
  shows "hs (move_assign i j s) = (hs s)[i := hs s ! j, j := (hs s ! j)\<lparr>h_p := False\<rparr>]" "h_count (move_assign i j s) = h_count s"
    "live_handles (move_assign i j s) + live (hs s ! i) = live_handles s"
proof -
  show "hs (move_assign i j s) = (hs s)[i := hs s ! j, j := (hs s ! j)\<lparr>h_p := False\<rparr>]" "h_count (move_assign i j s) = h_count s"
    using assms by (simp_all add: move_assign_def set_handle_def Let_def)
  let ?s = "set_handle i (hs s ! j) s"
  have "live_handles ?s + live (hs s ! i) = live_handles s + live (hs s ! j)" using set_handle_live [OF assms(1)] .
  moreover have "live_handles (set_handle j ((hs s ! j)\<lparr>h_p := False\<rparr>) ?s) + live (hs s ! j) = live_handles ?s"
    using set_handle_live [of j ?s "(hs s ! j)\<lparr>h_p := False\<rparr>"] assms by simp
  ultimately show "live_handles (move_assign i j s) + live (hs s ! i) = live_handles s"
    using assms(3) by (simp add: move_assign_def Let_def)
qed

text \<open>What an assignment adds to the difference between the count and the handles.\<close>

lemma copy_assign_count:
  assumes "i < length (hs s)" and "j < length (hs s)" and "live_handles s \<le> h_count s"
  shows "\<exists>s'. copy_assign i j s = Inr s' \<and> h_count s' = h_count s + (if h_p (hs s ! j) then 1 else 0) \<and>
    live_handles s' + live (hs s ! i) = live_handles s + live (hs s ! j)"
proof -
  let ?t = "length (hs s)" and ?c = "copy_handle j s"
  let ?m = "move_assign i ?t ?c"
  have M: "hs ?m = (hs ?c)[i := hs s ! j, ?t := (hs s ! j)\<lparr>h_p := False\<rparr>]" "h_count ?m = h_count ?c"
    "live_handles ?m + live (hs s ! i) = live_handles ?c"
    using move_assign_count [of i ?c ?t] assms(1) by (simp_all add: copy_count nth_append)
  have "live (hs s ! j) \<le> (if h_p (hs s ! j) then 1 else 0)" by (simp add: live_def)
  then have "live_handles ?m \<le> h_count ?m" using M(2,3) assms(3) copy_count(2,3) [of j s] by linarith
  moreover have "hs ?m ! ?t = (hs s ! j)\<lparr>h_p := False\<rparr>" "?t < length (hs ?m)" using assms(1) by (simp_all add: M(1) copy_count)
  ultimately obtain s' where "destroy_handle ?t ?m = Inr s'" "h_count s' = h_count ?m" "live_handles s' = live_handles ?m"
    using destroy_count [of ?t ?m] by auto
  then show ?thesis using M(2,3) by (simp add: copy_assign_def Let_def copy_count)
qed

lemma swap_count:
  assumes "i < length (hs s)" and "j < length (hs s)" and "i \<noteq> j" and "live_handles s \<le> h_count s"
  shows "\<exists>s' h. swap_handles i j s = Inr s' \<and> hs s' = (hs s)[i := hs s ! j, j := hs s ! i] @ [h] \<and>
    h_count s' = h_count s \<and> live_handles s' = live_handles s"
proof -
  let ?t = "length (hs s)" and ?a = "move_handle i s"
  let ?b = "move_assign i j ?a"
  let ?c = "move_assign j ?t ?b"
  note A = move_count [OF assms(1)]
  have b: "hs ?a ! i = (hs s ! i)\<lparr>h_p := False\<rparr>" "hs ?a ! j = hs s ! j" "length (hs ?a) = Suc ?t" "hs ?a ! ?t = hs s ! i"
    using assms by (simp_all add: A nth_append)
  have B: "hs ?b = (hs ?a)[i := hs s ! j, j := (hs s ! j)\<lparr>h_p := False\<rparr>]" "h_count ?b = h_count s" "live_handles ?b = live_handles s"
    using move_assign_count [of i ?a j] assms b by (simp_all add: A)
  have c: "hs ?b ! j = (hs s ! j)\<lparr>h_p := False\<rparr>" "hs ?b ! ?t = hs s ! i" "length (hs ?b) = Suc ?t"
    using assms b by (simp_all add: B nth_list_update)
  have C: "hs ?c = (hs ?b)[j := hs s ! i, ?t := (hs s ! i)\<lparr>h_p := False\<rparr>]" "h_count ?c = h_count s" "live_handles ?c = live_handles s"
    using move_assign_count [of j ?b ?t] assms c by (simp_all add: B)
  have "hs ?c ! ?t = (hs s ! i)\<lparr>h_p := False\<rparr>" "?t < length (hs ?c)" using c by (simp_all add: C)
  then obtain s' where s': "destroy_handle ?t ?c = Inr s'" "hs s' = (hs ?c)[?t := (hs ?c ! ?t)\<lparr>h_p := False\<rparr>]"
    "h_count s' = h_count s" "live_handles s' = live_handles s"
    using destroy_count [of ?t ?c] assms(4) C(2,3) by auto
  moreover have "hs s' = (hs s)[i := hs s ! j, j := hs s ! i] @ [(hs s ! i)\<lparr>h_p := False\<rparr>]"
    using s'(2) assms by (simp add: C B A list_update_append nth_append)
  ultimately show ?thesis unfolding swap_handles_def Let_def by blast
qed

lemma handle_op_excess:
  assumes "live_handles s + k \<le> h_count s"
  shows "\<exists>s'. handle_op x s = Inr s' \<and> live_handles s' + k \<le> h_count s'"
proof (cases "hop_known x s")
  case True
  have c: "live_handles s \<le> h_count s" and l: "live h \<le> (if h_p h then 1 else 0)" for h using assms by (simp_all add: live_def)
  show ?thesis
  proof (cases x)
    case (H_Copy i)
    then show ?thesis using True assms l [of "hs s ! i"] by (simp add: handle_op_def copy_count)
  next
    case (H_Move i)
    then show ?thesis using True assms by (simp add: handle_op_def move_count)
  next
    case (H_Copy_Assign i j)
    then show ?thesis using True assms copy_assign_count [OF _ _ c, of i j] l [of "hs s ! j"] by (fastforce simp: handle_op_def)
  next
    case (H_Move_Assign i j)
    then show ?thesis using True assms move_assign_count [of i s j] by (cases "i = j") (simp_all add: handle_op_def, simp add: move_assign_def)
  next
    case (H_Swap i j)
    then show ?thesis using True assms swap_count [OF _ _ _ c, of i j] by (auto simp: handle_op_def)
  next
    case (H_Set_Ready i)
    then show ?thesis using True assms set_ready_count [OF _ c, of i] by (auto simp: handle_op_def)
  next
    case (H_Destroy i)
    then show ?thesis using True assms destroy_count [OF _ c, of i] by (auto simp: handle_op_def)
  next
    case (H_Close i)
    then show ?thesis using True assms destroy_count [OF _ c, of i] by (auto simp: handle_op_def close_handle_def)
  qed
qed (use assms in \<open>auto simp: handle_op_def\<close>)

interpretation hk: safe_machine "\<lambda>s. live_handles s + k \<le> h_count s" "\<lambda>_. True" handle_op for k
  by unfold_locales (rule handle_op_excess)

text \<open>
  A process does not start before its receivers are ready, nor close before its senders are gone: whatever
  the program does with its handles, the assertion before a decrement holds, and the count is at least
  the number of handles that hold the process back.
\<close>
theorem handles_counted:
  "\<exists>s. run_ops handle_op ops handles_init = Inr s \<and> live_handles s \<le> h_count s"
proof -
  have "live_handles handles_init + 0 \<le> h_count handles_init" by (simp add: handles_init_def live_handles_def live_def)
  moreover have "list_all (\<lambda>_. True) ops" by (simp add: list_all_iff)
  ultimately show ?thesis using hk.run_safe [of handles_init 0 ops] by auto
qed

text \<open>
  A lost handle is lost for good: once the count is larger than the number of handles that hold the process
  back, as after a copy of a ready receiver or an assignment to a handle in use, it never comes down to zero
  again, whatever the program does with its handles.
\<close>
theorem handle_leak_permanent:
  assumes "live_handles s < h_count s"
  shows "\<exists>s'. run_ops handle_op ops s = Inr s' \<and> 0 < h_count s'"
proof -
  have "live_handles s + 1 \<le> h_count s" "list_all (\<lambda>_. True) ops" using assms by (simp_all add: list_all_iff)
  from hk.run_safe [OF this] show ?thesis by force
qed

theorem handle_leak_permanent_witness:
  "\<exists>s t. run_ops handle_op [H_Set_Ready 0, H_Copy 0] handles_init = Inr s \<and> run_ops handle_op [H_Copy 0, H_Move_Assign 0 1] handles_init = Inr t \<and>
    (\<forall>ops. \<exists>s' t'. run_ops handle_op ops s = Inr s' \<and> 0 < h_count s' \<and> run_ops handle_op ops t = Inr t' \<and> 0 < h_count t')"
proof -
  have "case run_ops handle_op [H_Set_Ready 0, H_Copy 0] handles_init of Inl e \<Rightarrow> False | Inr s \<Rightarrow> live_handles s = 0 \<and> h_count s = 1" by code_simp
  then obtain s where s: "run_ops handle_op [H_Set_Ready 0, H_Copy 0] handles_init = Inr s" "live_handles s < h_count s"
    by (auto split: sum.splits)
  have "case run_ops handle_op [H_Copy 0, H_Move_Assign 0 1] handles_init of Inl e \<Rightarrow> False | Inr s \<Rightarrow> live_handles s = 1 \<and> h_count s = 2" by code_simp
  then obtain t where t: "run_ops handle_op [H_Copy 0, H_Move_Assign 0 1] handles_init = Inr t" "live_handles t < h_count t"
    by (auto split: sum.splits)
  show ?thesis using s(1) t(1) handle_leak_permanent [OF s(2)] handle_leak_permanent [OF t(2)] by blast
qed

section \<open>Careful use\<close>

text \<open>A program that copies no ready receiver and assigns only to handles that are not in use.\<close>

fun careful :: "hop \<Rightarrow> handles \<Rightarrow> bool" where
  "careful (H_Copy i) s = (h_ready (hs s ! i) \<longrightarrow> \<not> h_p (hs s ! i))"
| "careful (H_Copy_Assign i j) s = (live (hs s ! i) = 0 \<and> (h_ready (hs s ! j) \<longrightarrow> \<not> h_p (hs s ! j)))"
| "careful (H_Move_Assign i j) s = (live (hs s ! i) = 0 \<or> i = j)"
| "careful _ s = True"

definition careful_op :: "hop \<Rightarrow> handles \<Rightarrow> handles res" where
  "careful_op x s = (if careful x s then handle_op x s else Inr s)"

lemma careful_op_exact:
  assumes "h_count s = live_handles s"
  shows "\<exists>s'. careful_op x s = Inr s' \<and> h_count s' = live_handles s'"
proof (cases "hop_known x s \<and> careful x s")
  case True
  then have k: "careful_op x s = handle_step x s" "hop_known x s" "careful x s" by (simp_all add: careful_op_def handle_op_def)
  have c: "live_handles s \<le> h_count s" using assms by simp
  have l: "live h = (if h_p h then 1 else 0)" if "h_ready h \<longrightarrow> \<not> h_p h" for h using that by (auto simp: live_def)
  show ?thesis
  proof (cases x)
    case (H_Copy i)
    then show ?thesis using k assms l [of "hs s ! i"] by (simp add: copy_count)
  next
    case (H_Move i)
    then show ?thesis using k assms by (simp add: move_count)
  next
    case (H_Copy_Assign i j)
    then show ?thesis using k assms copy_assign_count [OF _ _ c, of i j] l [of "hs s ! j"] by fastforce
  next
    case (H_Move_Assign i j)
    then show ?thesis using k assms move_assign_count [of i s j] by (cases "i = j") (simp_all, simp add: move_assign_def)
  next
    case (H_Swap i j)
    then show ?thesis using k assms swap_count [OF _ _ _ c, of i j] by fastforce
  next
    case (H_Set_Ready i)
    then show ?thesis using k assms set_ready_count [OF _ c, of i] by fastforce
  next
    case (H_Destroy i)
    then show ?thesis using k assms destroy_count [OF _ c, of i] by fastforce
  next
    case (H_Close i)
    then show ?thesis using k assms destroy_count [OF _ c, of i] by (fastforce simp: close_handle_def)
  qed
next
  case False
  then have "careful_op x s = Inr s" by (auto simp: careful_op_def handle_op_def)
  then show ?thesis using assms by simp
qed

interpretation ho: safe_machine "\<lambda>s. h_count s = live_handles s" "\<lambda>_. True" careful_op
  by unfold_locales (rule careful_op_exact)

text \<open>
  Careful use is exact: in a program that copies no ready receiver and assigns only to handles that are not in use, the count is
  always the number of handles that hold the process back, so it starts as soon as all receivers are ready or gone, and
  closes as soon as all senders are closed or gone.
\<close>
theorem handles_exact:
  "\<exists>s. run_ops careful_op ops handles_init = Inr s \<and> h_count s = live_handles s"
proof -
  have "h_count handles_init = live_handles handles_init" by (simp add: handles_init_def live_handles_def live_def)
  moreover have "list_all (\<lambda>_. True) ops" by (simp add: list_all_iff)
  ultimately show ?thesis using ho.run_safe [of handles_init ops] by auto
qed

section \<open>Annotations\<close>

text \<open>The executor and the buffer size that a program gives a process with \<open>operator&\<close>.\<close>

record 'x annotations =
  an_executor :: "'x option"
  an_buffer_size :: "64 word option"

record ('f, 'x) annotated_process =
  ap_f :: 'f
  ap_annotations :: "'x annotations"

text \<open>\<open>executor & f\<close>\<close>

record ('f, 'x) executor_task_pair =
  et_executor :: 'x
  et_f :: 'f

definition combine_bs_executor :: "64 word \<Rightarrow> 'x \<Rightarrow> 'x annotations" where
  "combine_bs_executor bs e = (let result = \<lparr>an_executor = None, an_buffer_size = Some bs\<rparr> in result\<lparr>an_executor := Some e\<rparr>)"

definition and_buffer_size :: "64 word \<Rightarrow> 'f \<Rightarrow> ('f, 'x) annotated_process" where
  "and_buffer_size bs f = \<lparr>ap_f = f, ap_annotations = \<lparr>an_executor = None, an_buffer_size = Some bs\<rparr>\<rparr>"

definition and_pair :: "('f, 'x) executor_task_pair \<Rightarrow> 64 word \<Rightarrow> ('f, 'x) annotated_process" where
  "and_pair etp bs = \<lparr>ap_f = et_f etp, ap_annotations = \<lparr>an_executor = Some (et_executor etp), an_buffer_size = Some bs\<rparr>\<rparr>"

definition and_annotations :: "'x annotations \<Rightarrow> 'f \<Rightarrow> ('f, 'x) annotated_process" where
  "and_annotations a f = \<lparr>ap_f = f, ap_annotations = a\<rparr>"

definition of_pair :: "('f, 'x) executor_task_pair \<Rightarrow> ('f, 'x) annotated_process" where
  "of_pair etp = \<lparr>ap_f = et_f etp, ap_annotations = \<lparr>an_executor = Some (et_executor etp), an_buffer_size = None\<rparr>\<rparr>"

text \<open>
  An annotation of an annotated process: the result, which is moved out of the argument before the annotation is
  stored, and the argument, in which it is stored.
\<close>

definition process_and_executor :: "('f, 'x) annotated_process \<Rightarrow> 'x \<Rightarrow> ('f, 'x) annotated_process \<times> ('f, 'x) annotated_process" where
  "process_and_executor a e = (let result = a in (result, a\<lparr>ap_annotations := (ap_annotations a)\<lparr>an_executor := Some e\<rparr>\<rparr>))"

definition process_and_buffer_size :: "('f, 'x) annotated_process \<Rightarrow> 64 word \<Rightarrow> ('f, 'x) annotated_process \<times> ('f, 'x) annotated_process" where
  "process_and_buffer_size a bs = (let result = a in (result, a\<lparr>ap_annotations := (ap_annotations a)\<lparr>an_buffer_size := Some bs\<rparr>\<rparr>))"

text \<open>The executor and the buffer size of the process that \<open>operator|\<close> makes, from the executor of the process upstream.\<close>

definition pipe_annotated :: "('f, 'x) annotated_process \<Rightarrow> 'x \<Rightarrow> 'x \<times> 64 word" where
  "pipe_annotated ap upstream =
     (case an_executor (ap_annotations ap) of None \<Rightarrow> upstream | Some e \<Rightarrow> e,
      case an_buffer_size (ap_annotations ap) of None \<Rightarrow> 1 | Some b \<Rightarrow> b)"

text \<open>
  An annotation added to an annotated process is lost: both annotations reach the process when they are combined
  first or added to an executor and a function, in any order, but a process with a buffer size that is then given an
  executor runs on the executor of the process upstream, and one with an executor that is then given a
  buffer size keeps the default of one.
\<close>
theorem annotations_lost:
  "pipe_annotated (and_annotations (combine_bs_executor bs e) f) up = (e, bs) \<and>
   pipe_annotated (and_pair \<lparr>et_executor = e, et_f = f\<rparr> bs) up = (e, bs) \<and>
   pipe_annotated (fst (process_and_executor (and_buffer_size bs f) e)) up = (up, bs) \<and>
   pipe_annotated (fst (process_and_buffer_size (of_pair \<lparr>et_executor = e, et_f = f\<rparr>) bs)) up = (e, 1)"
  by (simp add: pipe_annotated_def and_annotations_def combine_bs_executor_def and_pair_def process_and_executor_def
      process_and_buffer_size_def and_buffer_size_def of_pair_def)

end
