(* ===== verification/Channel_Merge.thy ===== *)
theory Channel_Merge
  imports Channel_Inv
begin

text \<open>
  Processes with several upstream processes (\<^verbatim>\<open>deps/clean_stlab_trash/concurrency/channel.hpp\<close>): \<open>zip_with\<close>, \<open>merge_channel\<close> and the
  functions derived from it build one \<open>shared_process\<close> with a queue and a sender for each of them. The model is one such process
  without \<open>yield\<close>, with any queue strategy, between sources that send and close when they like and attached processes that call
  \<open>clear_to_send\<close> when they like, once for each message they were sent. A thread is a stack of frames as in \<open>Channel_Net\<close>, and
  threads interleave freely.
\<close>

section \<open>Downstream\<close>

text \<open>The two specialisations of \<open>downstream\<close>: any number of senders of copyable results, or at most one of a move-only result.\<close>

datatype downstream = Copyable "nat list" | Unique "nat option"

text \<open>\<open>append_receiver\<close> and \<open>clear\<close>, with the senders they destroy.\<close>

fun append_receiver :: "nat \<Rightarrow> downstream \<Rightarrow> nat list \<times> downstream" where
  "append_receiver c (Copyable cs) = ([], Copyable (cs @ [c]))"
| "append_receiver c (Unique None) = ([], Unique (Some c))"
| "append_receiver c (Unique (Some d)) = ([d], Unique (Some c))"

fun ds_clear :: "downstream \<Rightarrow> nat list \<times> downstream" where
  "ds_clear (Copyable cs) = (cs, Copyable [])"
| "ds_clear (Unique None) = ([], Unique None)"
| "ds_clear (Unique (Some d)) = ([d], Unique None)"

fun ds_size :: "downstream \<Rightarrow> nat" where
  "ds_size (Copyable cs) = length cs"
| "ds_size (Unique x) = 1"

text \<open>The receivers that \<open>send\<close> calls, with the size it is given.\<close>

fun ds_send :: "nat \<Rightarrow> downstream \<Rightarrow> nat list" where
  "ds_send n (Copyable cs) = take n cs"
| "ds_send n (Unique None) = []"
| "ds_send n (Unique (Some d)) = [d]"

text \<open>\<open>minimum_free_buffer\<close>; \<open>free\<close> is what the senders answer, nothing when the process behind them is gone.\<close>

fun ds_free :: "(nat \<Rightarrow> 64 word option) \<Rightarrow> downstream \<Rightarrow> 64 word" where
  "ds_free free (Copyable cs) =
     (if cs = [] then 0 else fold (\<lambda>c v. case free c of None \<Rightarrow> v | Some b \<Rightarrow> min v b) cs (-1))"
| "ds_free free (Unique None) = 0"
| "ds_free free (Unique (Some d)) = (case free d of None \<Rightarrow> 0 | Some b \<Rightarrow> b)"

section \<open>State\<close>

text \<open>
  The calls in progress. \<open>M_Tell\<close> is the loop over \<open>_upstream\<close> that calls \<open>clear_to_send\<close>; the other frames are those of
  \<open>Channel_Net\<close>. \<open>M_Cts\<close> is a call of \<open>clear_to_send\<close> of this process, by itself or by a process attached to it.
\<close>

datatype ('a, 'v, 'e) m_frame = M_Run | M_Step | M_Tell "nat list" | M_Handle "('e + 'a) list option" | M_In_Fun "'a list"
  | M_Broadcast "'e + 'v" | M_Suspend nat bool "'e + 'v" | M_Sending "nat list" "'e + 'v"
  | M_Cts | M_Cts2 | M_Task_Done | M_Finalize | M_Close_Queue | M_Check_Start

text \<open>
  \<open>m_open\<close> are the senders the sources hold; \<open>m_ready\<close> says that the receiver is ready. \<open>m_gone\<close> are the attached processes that no
  longer exist and \<open>m_owed\<close> those that have yet to call \<open>clear_to_send\<close>. \<open>m_in\<close>, \<open>m_taken\<close>, \<open>m_sent\<close> list what has been queued for each
  source, taken and broadcast; \<open>m_told\<close> the calls of \<open>clear_to_send\<close> upstream, \<open>m_given\<close> the messages sent to attached processes,
  \<open>m_closed\<close> the senders destroyed; \<open>m_attached\<close> are the processes a broadcast goes to. \<open>m_stalled\<close> says that \<open>step\<close> has dropped an exception.
\<close>

record ('a, 'v, 'e) merging =
  m_queue :: "('a, 'e) qs"
  m_running :: bool
  m_suspend :: nat
  m_close :: bool
  m_final :: bool
  m_senders :: nat
  m_receivers :: nat
  m_buffer :: "64 word"
  m_process :: bool
  m_down :: downstream
  m_open :: "bool list"
  m_ready :: bool
  m_sched :: nat
  m_threads :: "('a, 'v, 'e) m_frame list list"
  m_gone :: "nat list"
  m_owed :: "nat list"
  m_in :: "('e + 'a) list list"
  m_taken :: "('e + 'a) list list"
  m_told :: "nat list"
  m_sent :: "('e + 'v) list"
  m_given :: "(nat \<times> ('e + 'v)) list"
  m_closed :: "nat list"
  m_attached :: "nat list"
  m_stalled :: bool

text \<open>\<open>merge_helper\<close> with \<open>n\<close> receivers.\<close>

definition merge_helper :: "nat \<Rightarrow> 64 word \<Rightarrow> downstream \<Rightarrow> ('a, 'v, 'e) merging" where
  "merge_helper n buffer d = \<lparr>m_queue = qs_init n, m_running = False, m_suspend = 0, m_close = False, m_final = False,
     m_senders = n, m_receivers = 1, m_buffer = buffer, m_process = True, m_down = d, m_open = replicate n True, m_ready = False,
     m_sched = 0, m_threads = [], m_gone = [], m_owed = [], m_in = replicate n [], m_taken = [], m_told = [], m_sent = [],
     m_given = [], m_closed = [], m_attached = ds_send (ds_size d) d, m_stalled = False\<rparr>"

section \<open>Critical sections\<close>

text \<open>The end of a critical section that decides whether to call \<open>run\<close>.\<close>

definition m_start :: "bool \<Rightarrow> ('a, 'v, 'e) merging \<Rightarrow> ('a, 'v, 'e) m_frame list \<times> ('a, 'v, 'e) merging" where
  "m_start do_run s = (if do_run then [M_Run] else [], s\<lparr>m_running := m_running s \<or> do_run\<rparr>)"

definition m_enqueue :: "nat \<Rightarrow> 'e + 'a \<Rightarrow> ('a, 'v, 'e) merging \<Rightarrow> ('a, 'v, 'e) m_frame list \<times> ('a, 'v, 'e) merging" where
  "m_enqueue i m s = m_start (m_receivers s = 0 \<and> \<not> m_running s)
     (s\<lparr>m_queue := qs_append i m (m_queue s), m_in := (m_in s)[i := m_in s ! i @ [m]]\<rparr>)"

definition m_close_queue :: "('a, 'v, 'e) merging \<Rightarrow> ('a, 'v, 'e) m_frame list \<times> ('a, 'v, 'e) merging" where
  "m_close_queue s = m_start (m_receivers s = 0 \<and> \<not> m_running s) (s\<lparr>m_close := True\<rparr>)"

definition m_check_start :: "('a, 'e) strategy \<Rightarrow> ('a, 'v, 'e) merging \<Rightarrow> ('a, 'v, 'e) m_frame list \<times> ('a, 'v, 'e) merging" where
  "m_check_start S s = m_start ((\<not> st_empty S (m_queue s) \<or> m_close s) \<and> \<not> m_running s) s"

text \<open>\<open>step\<close> up to the call of the function: a message is taken, and the sources that may send again are to be told.\<close>

definition m_pop :: "('a, 'e) strategy \<Rightarrow> ('a, 'v, 'e) merging \<Rightarrow> (('a, 'v, 'e) m_frame list \<times> ('a, 'v, 'e) merging) res" where
  "m_pop S s =
     bindR (pop_from_queue S (m_buffer s) (m_close s) (m_queue s)) (\<lambda>(r, cts, do_close, q, close).
       Inr ([M_Tell (filter (\<lambda>i. cts ! i) [0..<length cts]), M_Handle r],
         s\<lparr>m_queue := q, m_close := close, m_final := (if r = None then do_close else m_final s),
           m_taken := m_taken s @ (case r of None \<Rightarrow> [] | Some ms \<Rightarrow> [ms])\<rparr>))"

definition m_handle ::
  "('e + 'a) list option \<Rightarrow> ('a, 'v, 'e) merging \<Rightarrow> (('a, 'v, 'e) m_frame list \<times> ('a, 'v, 'e) merging) res" where
  "m_handle r s = (case r of
     None \<Rightarrow> Inr ([M_Task_Done], s)
   | Some ms \<Rightarrow>
       if find_argument_error ms \<noteq> None then Inr ([], s\<lparr>m_stalled := True\<rparr>)
       else if m_process s then Inr ([M_In_Fun (map projr ms)], s) else Inl Null_Call)"

definition m_sending :: "nat list \<Rightarrow> 'e + 'v \<Rightarrow> ('a, 'v, 'e) merging \<Rightarrow> ('a, 'v, 'e) m_frame list \<times> ('a, 'v, 'e) merging" where
  "m_sending cs m s = (case cs of
     [] \<Rightarrow> ([M_Cts], s)
   | c # cs \<Rightarrow> ([M_Sending cs m],
       if c \<in> set (m_gone s) then s else s\<lparr>m_owed := m_owed s @ [c], m_given := m_given s @ [(c, m)]\<rparr>))"

definition m_clear :: "('a, 'e) strategy \<Rightarrow> ('a, 'v, 'e) merging \<Rightarrow> ('a, 'v, 'e) m_frame list \<times> ('a, 'v, 'e) merging" where
  "m_clear S s =
     (let s = s\<lparr>m_suspend := m_suspend s - 1\<rparr>
      in if m_suspend s \<noteq> 0 then ([], s)
         else if \<not> st_empty S (m_queue s) \<or> m_close s then ([M_Run], s) else ([], s\<lparr>m_running := False\<rparr>))"

definition m_task_done :: "('a, 'e) strategy \<Rightarrow> ('a, 'v, 'e) merging \<Rightarrow> ('a, 'v, 'e) m_frame list \<times> ('a, 'v, 'e) merging" where
  "m_task_done S s =
     (let do_run = (\<not> st_empty S (m_queue s) \<or> m_close s)
      in ((if do_run then [M_Run] else []) @ (if m_final s then [M_Finalize] else []), s\<lparr>m_running := do_run\<rparr>))"

definition m_finalize :: "('a, 'v, 'e) merging \<Rightarrow> ('a, 'v, 'e) merging" where
  "m_finalize s = (let (cs, d) = ds_clear (m_down s) in s\<lparr>m_down := d, m_closed := m_closed s @ cs, m_process := False\<rparr>)"

section \<open>Steps\<close>

fun m_frame_step :: "('a, 'e) strategy \<Rightarrow> ('a list \<Rightarrow> 'e + 'v) \<Rightarrow> (nat \<Rightarrow> 64 word) \<Rightarrow> ('a, 'v, 'e) m_frame \<Rightarrow> ('a, 'v, 'e) merging \<Rightarrow>
    (('a, 'v, 'e) m_frame list \<times> ('a, 'v, 'e) merging) res" where
  "m_frame_step S fn free M_Run s = Inr ([], s\<lparr>m_sched := m_sched s + 1\<rparr>)"
| "m_frame_step S fn free M_Step s = m_pop S s"
| "m_frame_step S fn free (M_Tell []) s = Inr ([], s)"
| "m_frame_step S fn free (M_Tell (i # is)) s = Inr ([M_Tell is], s\<lparr>m_told := m_told s @ [i]\<rparr>)"
| "m_frame_step S fn free (M_Handle r) s = m_handle r s"
| "m_frame_step S fn free (M_In_Fun vs) s = Inr ([M_Broadcast (fn vs)], s)"
| "m_frame_step S fn free (M_Broadcast m) s =
     Inr ([M_Suspend (ds_size (m_down s)) (ds_free (\<lambda>c. if c \<in> set (m_gone s) then None else Some (free c)) (m_down s) \<le> 1) m], s)"
| "m_frame_step S fn free (M_Suspend k b m) s =
     Inr ([M_Sending (ds_send k (m_down s)) m], s\<lparr>m_suspend := (if b then k + 1 else 1), m_sent := m_sent s @ [m]\<rparr>)"
| "m_frame_step S fn free (M_Sending cs m) s = Inr (m_sending cs m s)"
| "m_frame_step S fn free M_Cts s = Inr (if m_final s then [] else [M_Cts2], s)"
| "m_frame_step S fn free M_Cts2 s = Inr (m_clear S s)"
| "m_frame_step S fn free M_Task_Done s = Inr (m_task_done S s)"
| "m_frame_step S fn free M_Finalize s = Inr ([], m_finalize s)"
| "m_frame_step S fn free M_Close_Queue s = Inr (m_close_queue s)"
| "m_frame_step S fn free M_Check_Start s = Inr (m_check_start S s)"

text \<open>
  What happens around the process: a process is attached to the receiver or ceases to exist; the receiver becomes ready; source \<open>i\<close>
  sends or closes; an attached process calls \<open>clear_to_send\<close>; the executor starts a \<open>step\<close> it holds; thread \<open>k\<close> moves, where \<open>free\<close> is
  what attached processes answer if they are asked.
\<close>

datatype ('a, 'e) m_op = M_Attach nat | M_Gone nat | M_Ready | M_Arrive nat "'e + 'a" | M_Close nat | M_Cleared nat
  | M_Start | M_Thread nat "nat \<Rightarrow> 64 word"

definition m_spawn :: "('a, 'v, 'e) m_frame list \<Rightarrow> ('a, 'v, 'e) merging \<Rightarrow> ('a, 'v, 'e) merging" where
  "m_spawn fs s = s\<lparr>m_threads := m_threads s @ [fs]\<rparr>"

definition m_attach :: "nat \<Rightarrow> ('a, 'v, 'e) merging \<Rightarrow> ('a, 'v, 'e) merging" where
  "m_attach c s = (let (cs, d) = append_receiver c (m_down s) in s\<lparr>m_down := d, m_closed := m_closed s @ cs, m_attached := ds_send (ds_size d) d\<rparr>)"

definition m_set_ready :: "('a, 'v, 'e) merging \<Rightarrow> ('a, 'v, 'e) merging" where
  "m_set_ready s =
     (if m_ready s then s
      else let k = m_receivers s - 1
           in m_spawn (if k = 0 then [M_Check_Start] else []) (s\<lparr>m_receivers := k, m_ready := True\<rparr>))"

definition m_remove_sender :: "nat \<Rightarrow> ('a, 'v, 'e) merging \<Rightarrow> ('a, 'v, 'e) merging" where
  "m_remove_sender i s =
     (let k = m_senders s - 1
      in m_spawn (if k = 0 then [M_Close_Queue] else []) (s\<lparr>m_senders := k, m_open := (m_open s)[i := False]\<rparr>))"

definition source_open :: "nat \<Rightarrow> ('a, 'v, 'e) merging \<Rightarrow> bool" where
  "source_open i s \<longleftrightarrow> i < length (m_open s) \<and> m_open s ! i"

fun m_step :: "('a, 'e) strategy \<Rightarrow> ('a list \<Rightarrow> 'e + 'v) \<Rightarrow> ('a, 'e) m_op \<Rightarrow> ('a, 'v, 'e) merging \<Rightarrow> ('a, 'v, 'e) merging res" where
  "m_step S fn (M_Attach c) s = Inr (if m_ready s then s else m_attach c s)"
| "m_step S fn (M_Gone c) s = Inr (s\<lparr>m_gone := c # m_gone s\<rparr>)"
| "m_step S fn M_Ready s = Inr (m_set_ready s)"
| "m_step S fn (M_Arrive i m) s =
     Inr (if source_open i s then (let (fs, s') = m_enqueue i m s in m_spawn fs s') else s)"
| "m_step S fn (M_Close i) s = Inr (if source_open i s then m_remove_sender i s else s)"
| "m_step S fn (M_Cleared c) s = Inr (if c \<in> set (m_owed s) then m_spawn [M_Cts] (s\<lparr>m_owed := remove1 c (m_owed s)\<rparr>) else s)"
| "m_step S fn M_Start s = Inr (if 0 < m_sched s then m_spawn [M_Step] (s\<lparr>m_sched := m_sched s - 1\<rparr>) else s)"
| "m_step S fn (M_Thread k free) s =
     (if k < length (m_threads s) then
        (case m_threads s ! k of
           [] \<Rightarrow> Inr s
         | f # fs \<Rightarrow> bindR (m_frame_step S fn free f s) (\<lambda>(gs, s). Inr (s\<lparr>m_threads := (m_threads s)[k := gs @ fs]\<rparr>)))
      else Inr s)"

text \<open>The combinators: the strategy each of them chooses.\<close>

definition zip_with_channel :: "('a list \<Rightarrow> 'e + 'v) \<Rightarrow> ('a, 'e) m_op \<Rightarrow> ('a, 'v, 'e) merging \<Rightarrow> ('a, 'v, 'e) merging res" where
  "zip_with_channel = m_step zip_with_queue_strategy"

definition merge_round_robin :: "('a list \<Rightarrow> 'e + 'v) \<Rightarrow> ('a, 'e) m_op \<Rightarrow> ('a, 'v, 'e) merging \<Rightarrow> ('a, 'v, 'e) merging res" where
  "merge_round_robin = m_step round_robin_queue_strategy"

definition merge_unordered :: "('a list \<Rightarrow> 'e + 'v) \<Rightarrow> ('a, 'e) m_op \<Rightarrow> ('a, 'v, 'e) merging \<Rightarrow> ('a, 'v, 'e) merging res" where
  "merge_unordered = m_step unordered_queue_strategy"

end
