(* ===== verification/Channel_Merge_Props.thy ===== *)
theory Channel_Merge_Props
  imports Channel_Merge
begin

text \<open>
  A process with several upstream processes calls its function one call at a time, takes messages as its queue strategy
  promises, loses no wake-up, comes to rest, and has then handled what the strategy lets it handle. The proofs are
  about any strategy that meets the contract of theory \<open>Channel_Queues\<close>.
\<close>

section \<open>Counting frames\<close>

text \<open>A call on its way to the function or in it, up to the second part of \<open>broadcast\<close>; those an ended process has no more.\<close>

fun m_pre :: "('a, 'v, 'e) m_frame \<Rightarrow> nat" where
  "m_pre M_Run = 1"
| "m_pre M_Step = 1"
| "m_pre (M_Handle r) = 1"
| "m_pre (M_In_Fun vs) = 1"
| "m_pre (M_Broadcast m) = 1"
| "m_pre (M_Suspend k b m) = 1"
| "m_pre M_Task_Done = 1"
| "m_pre f = 0"

fun m_busy :: "('a, 'v, 'e) m_frame \<Rightarrow> nat" where
  "m_busy (M_Handle r) = ind (r \<noteq> None)"
| "m_busy M_Task_Done = 0"
| "m_busy f = m_pre f"

text \<open>Calls of \<open>clear_to_send\<close> in progress or still to be caused by a broadcast.\<close>

fun m_acks :: "nat list \<Rightarrow> ('a, 'v, 'e) m_frame \<Rightarrow> nat" where
  "m_acks gone (M_Sending cs m) = Suc (length (filter (\<lambda>c. c \<notin> set gone) cs))"
| "m_acks gone M_Cts = 1"
| "m_acks gone M_Cts2 = 1"
| "m_acks gone f = 0"

fun m_closing :: "('a, 'v, 'e) m_frame \<Rightarrow> nat" where
  "m_closing M_Close_Queue = 1"
| "m_closing f = 0"

fun m_starting :: "('a, 'v, 'e) m_frame \<Rightarrow> nat" where
  "m_starting M_Check_Start = 1"
| "m_starting f = 0"

fun m_ending :: "('a, 'v, 'e) m_frame \<Rightarrow> nat" where
  "m_ending (M_Handle r) = 1"
| "m_ending M_Task_Done = 1"
| "m_ending M_Finalize = 1"
| "m_ending f = 0"

fun m_sends :: "('a, 'v, 'e) m_frame \<Rightarrow> nat" where
  "m_sends (M_Sending cs m) = 1"
| "m_sends f = 0"

text \<open>What a broadcast in progress has still to send.\<close>

fun giving :: "('a, 'v, 'e) m_frame \<Rightarrow> (nat \<times> ('e + 'v)) list" where
  "giving (M_Sending cs m) = map (\<lambda>c. (c, m)) cs"
| "giving f = []"

definition givings :: "('a, 'v, 'e) m_frame list \<Rightarrow> (nat \<times> ('e + 'v)) list" where
  "givings F = concat (map giving F)"

lemma givings_simps [simp]: "givings [] = []" "givings (f # F) = giving f @ givings F" "givings (F @ G) = givings F @ givings G"
  by (simp_all add: givings_def)

lemma givings_idle: "tot m_sends F = 0 \<Longrightarrow> givings F = []"
proof (induction F)
  case (Cons f F)
  then show ?case by (cases f) auto
qed simp

lemma sends_acks: "tot m_sends F \<le> tot (m_acks gone) F"
proof (rule tot_mono)
  show "m_sends f \<le> m_acks gone f" for f :: "('a, 'b, 'c) m_frame" by (cases f) auto
qed

text \<open>The results of messages taken that are still to be broadcast.\<close>

definition call :: "('a list \<Rightarrow> 'e + 'v) \<Rightarrow> ('e + 'a) list \<Rightarrow> ('e + 'v) list" where
  "call fn ms = (if find_argument_error ms = None then [fn (map projr ms)] else [])"

fun todo :: "('a list \<Rightarrow> 'e + 'v) \<Rightarrow> ('a, 'v, 'e) m_frame \<Rightarrow> ('e + 'v) list" where
  "todo fn (M_Handle (Some ms)) = call fn ms"
| "todo fn (M_In_Fun vs) = [fn vs]"
| "todo fn (M_Broadcast m) = [m]"
| "todo fn (M_Suspend k b m) = [m]"
| "todo fn f = []"

definition todos :: "('a list \<Rightarrow> 'e + 'v) \<Rightarrow> ('a, 'v, 'e) m_frame list \<Rightarrow> ('e + 'v) list" where
  "todos fn F = concat (map (todo fn) F)"

lemma todos_simps [simp]:
  "todos fn [] = []" "todos fn (f # F) = todo fn f @ todos fn F" "todos fn (F @ G) = todos fn F @ todos fn G"
  by (simp_all add: todos_def)

lemma todos_idle: "tot m_pre F = 0 \<Longrightarrow> todos fn F = []"
proof (induction F)
  case (Cons f F)
  then show ?case by (cases "(fn, f)" rule: todo.cases) auto
qed simp

lemma busy_le_pre: "tot m_busy F \<le> tot m_pre F"
proof (rule tot_mono)
  show "m_busy f \<le> m_pre f" for f :: "('a, 'b, 'c) m_frame" by (cases f) auto
qed

section \<open>The invariant\<close>

fun m_frame_ok :: "('a, 'v, 'e) merging \<Rightarrow> ('a, 'v, 'e) m_frame \<Rightarrow> bool" where
  "m_frame_ok s (M_Suspend k b m) = (k = ds_size (m_down s) \<and> (b \<or> set (ds_send k (m_down s)) \<subseteq> set (m_gone s)))"
| "m_frame_ok s (M_Handle (Some ms)) = (ms \<in> set (m_taken s))"
| "m_frame_ok s M_Check_Start = m_ready s"
| "m_frame_ok s M_Finalize = m_final s"
| "m_frame_ok s f = True"

text \<open>No attached process has gone, and a move-only result has a receiver.\<close>

definition m_live :: "('a, 'v, 'e) merging \<Rightarrow> bool" where
  "m_live s \<longleftrightarrow> m_gone s = [] \<and> m_down s \<noteq> Unique None"

definition once_m :: "('a, 'v, 'e) merging \<Rightarrow> ('a, 'v, 'e) m_frame list \<Rightarrow> bool" where
  "once_m s F \<longleftrightarrow> m_sched s + tot m_pre F + ind (0 < m_suspend s) + ind (m_stalled s) = ind (m_running s)"

definition flow_m :: "('a, 'v, 'e) merging \<Rightarrow> ('a, 'v, 'e) m_frame list \<Rightarrow> bool" where
  "flow_m s F \<longleftrightarrow> length (m_owed s) + tot (m_acks (m_gone s)) F \<le> m_suspend s \<and>
     (m_live s \<longrightarrow> length (m_owed s) + tot (m_acks (m_gone s)) F = m_suspend s) \<and>
     tot m_sends F \<le> 1"

definition end_m :: "('a, 'e) strategy \<Rightarrow> ('a, 'v, 'e) merging \<Rightarrow> ('a, 'v, 'e) m_frame list \<Rightarrow> bool" where
  "end_m S s F \<longleftrightarrow> m_senders s = length (filter id (m_open s)) \<and>
     tot m_closing F + ind (m_close s) + ind (m_final s) = ind (m_senders s = 0) \<and>
     (m_final s \<longrightarrow> st_empty S (m_queue s) \<and> m_suspend s = 0 \<and> m_sched s = 0 \<and> tot m_busy F = 0 \<and> \<not> m_stalled s \<and> m_ready s) \<and>
     (m_process s \<or> m_final s) \<and> (m_final s \<and> m_process s \<longrightarrow> 0 < tot m_ending F)"

definition ready_m :: "('a, 'e) strategy \<Rightarrow> ('a, 'v, 'e) merging \<Rightarrow> ('a, 'v, 'e) m_frame list \<Rightarrow> bool" where
  "ready_m S s F \<longleftrightarrow> m_receivers s = ind (\<not> m_ready s) \<and> (\<not> m_ready s \<longrightarrow> \<not> m_running s) \<and>
     (m_ready s \<and> (\<not> st_empty S (m_queue s) \<or> m_close s) \<longrightarrow> m_running s \<or> 0 < tot m_starting F)"

definition data_m :: "('a list \<Rightarrow> 'e + 'v) \<Rightarrow> ('a, 'v, 'e) merging \<Rightarrow> ('a, 'v, 'e) m_frame list \<Rightarrow> bool" where
  "data_m fn s F \<longleftrightarrow> concat (map (call fn) (m_taken s)) = m_sent s @ todos fn F \<and>
     (m_stalled s \<longrightarrow> (\<exists>ms \<in> set (m_taken s). find_argument_error ms \<noteq> None)) \<and>
     (m_gone s = [] \<longrightarrow> m_given s @ givings F = concat (map (\<lambda>m. map (\<lambda>c. (c, m)) (m_attached s)) (m_sent s))) \<and>
     (m_process s \<longrightarrow> m_attached s = ds_send (ds_size (m_down s)) (m_down s)) \<and> (\<not> m_ready s \<longrightarrow> m_sent s = [])"

context queue_strategy
begin

definition took :: "('a, 'v, 'e) merging \<Rightarrow> bool" where
  "took s \<longleftrightarrow> length (m_in s) = n \<and> length (m_open s) = n \<and> (\<exists>T. m_taken s = map (map snd) T \<and> inv (map (map fst) T) (m_queue s) \<and>
     list_all (list_all (\<lambda>x. fst x < n)) T \<and> (\<forall>i < n. taken_from i T @ qs_queue (m_queue s) ! i = m_in s ! i))"

definition m_inv :: "('a list \<Rightarrow> 'e + 'v) \<Rightarrow> ('a, 'v, 'e) merging \<Rightarrow> ('a, 'v, 'e) m_frame list \<Rightarrow> bool" where
  "m_inv fn s F \<longleftrightarrow> list_all (m_frame_ok s) F \<and> once_m s F \<and> flow_m s F \<and> end_m S s F \<and> ready_m S s F \<and> data_m fn s F \<and> took s"

lemma pop_empty:
  "st_empty S (m_queue s) \<Longrightarrow> m_pop S s = Inr ([M_Tell [], M_Handle None], s\<lparr>m_close := False, m_final := m_close s\<rparr>)"
  by (simp add: m_pop_def pop_from_queue_def)

lemma pop_some:
  assumes "took s" and "\<not> st_empty S (m_queue s)"
  shows "\<exists>is ms q. m_pop S s = Inr ([M_Tell is, M_Handle (Some ms)], s\<lparr>m_queue := q, m_taken := m_taken s @ [ms]\<rparr>) \<and>
    took (s\<lparr>m_queue := q, m_taken := m_taken s @ [ms]\<rparr>)"
proof -
  from assms(1) obtain T where T: "m_taken s = map (map snd) T" "inv (map (map fst) T) (m_queue s)"
    "\<forall>i < n. taken_from i T @ qs_queue (m_queue s) ! i = m_in s ! i" "length (m_in s) = n" "length (m_open s) = n" "list_all (list_all (\<lambda>x. fst x < n)) T" by (auto simp: took_def)
  let ?ms = "map (\<lambda>i. hd (qs_queue (m_queue s) ! i)) (sources (m_queue s))"
  from take [OF T(2) assms(2)] obtain s1 s2 where q: "st_front S (m_queue s) = Inr (?ms, s1)" "st_pop_front S s1 = Inr s2"
    "inv (map (map fst) T @ [sources (m_queue s)]) s2"
    "qs_queue s2 = map (\<lambda>i. if i \<in> set (sources (m_queue s)) then tl (qs_queue (m_queue s) ! i) else qs_queue (m_queue s) ! i) [0..<n]" by blast
  let ?T = "T @ [zip (sources (m_queue s)) ?ms]"
  have "taken_from i ?T @ qs_queue s2 ! i = m_in s ! i" if "i < n" for i
    using T(3) that sources_ok [OF T(2) assms(2)] by (auto simp: q(4) zip_sources_filter [of "sources (m_queue s)"])
  moreover have "map (map snd) ?T = m_taken s @ [?ms]" "map (map fst) ?T = map (map fst) T @ [sources (m_queue s)]"
    using T(1) by simp_all
  moreover have "list_all (list_all (\<lambda>x. fst x < n)) ?T"
    using T(6) sources_ok [OF T(2) assms(2)] by (auto simp: list_all_iff dest!: set_zip_leftD)
  ultimately have "took (s\<lparr>m_queue := s2, m_taken := m_taken s @ [?ms]\<rparr>)"
    using T(4,5) q(3) unfolding took_def by (intro conjI exI [of _ ?T]) simp_all
  moreover have "\<exists>is. m_pop S s = Inr ([M_Tell is, M_Handle (Some ?ms)], s\<lparr>m_queue := s2, m_taken := m_taken s @ [?ms]\<rparr>)"
    using assms(2) q(1,2) by (simp add: m_pop_def pop_from_queue_def)
  ultimately show ?thesis by blast
qed

end

section \<open>Steps of a thread\<close>

lemma fold_min_gone:
  fixes free :: "nat \<Rightarrow> 64 word"
  assumes "c \<in> set cs" and "c \<notin> G"
  shows "fold (\<lambda>c v. case if c \<in> G then None else Some (free c) of None \<Rightarrow> v | Some b \<Rightarrow> min v b) cs v \<le> free c"
proof -
  have "(\<lambda>c v. case if c \<in> G then None else Some (free c) of None \<Rightarrow> v | Some b \<Rightarrow> min v b) =
      (\<lambda>c v. if c \<notin> G then min v (free c) else v)" by (intro ext) simp
  then show ?thesis using fold_min_le [of "\<lambda>c. c \<notin> G" free cs v c] assms by simp
qed

lemma free_gone:
  assumes "\<And>c. free c \<le> 1"
  shows "ds_free (\<lambda>c. if c \<in> set gone then None else Some (free c)) d \<le> 1 \<or> set (ds_send (ds_size d) d) \<subseteq> set gone"
proof (cases d)
  case (Copyable cs)
  show ?thesis
  proof (cases "set cs \<subseteq> set gone")
    case False
    then obtain c where c: "c \<in> set cs" "c \<notin> set gone" by blast
    from order_trans [OF fold_min_gone [OF c, of free "-1"] assms] c(1) show ?thesis by (auto simp: Copyable)
  qed (simp add: Copyable)
next
  case (Unique x)
  then show ?thesis using assms by (cases x) auto
qed

lemma sends_size: "length (ds_send (ds_size d) d) \<le> ds_size d" "d \<noteq> Unique None \<Longrightarrow> length (ds_send (ds_size d) d) = ds_size d"
  by (cases "(ds_size d, d)" rule: ds_send.cases; simp)+

lemmas m_ctl = once_m_def flow_m_def end_m_def ready_m_def data_m_def m_live_def

context queue_strategy
begin

lemma took_upd [simp]:
  "took (s\<lparr>m_running := a\<rparr>) = took s" "took (s\<lparr>m_suspend := x\<rparr>) = took s" "took (s\<lparr>m_close := a\<rparr>) = took s" "took (s\<lparr>m_final := a\<rparr>) = took s"
  "took (s\<lparr>m_sched := x\<rparr>) = took s" "took (s\<lparr>m_told := l\<rparr>) = took s" "took (s\<lparr>m_sent := rs\<rparr>) = took s" "took (s\<lparr>m_owed := l\<rparr>) = took s"
  "took (s\<lparr>m_given := g\<rparr>) = took s" "took (s\<lparr>m_down := d\<rparr>) = took s" "took (s\<lparr>m_closed := l\<rparr>) = took s" "took (s\<lparr>m_process := a\<rparr>) = took s"
  "took (s\<lparr>m_stalled := a\<rparr>) = took s" "took (s\<lparr>m_threads := t\<rparr>) = took s" "took (s\<lparr>m_receivers := x\<rparr>) = took s" "took (s\<lparr>m_ready := a\<rparr>) = took s"
  "took (s\<lparr>m_gone := l\<rparr>) = took s" "took (s\<lparr>m_attached := l\<rparr>) = took s" "took (s\<lparr>m_senders := x\<rparr>) = took s"
  by (simp_all add: took_def)

lemma frames_ok_mono:
  assumes "list_all (m_frame_ok s) F" and "m_down s' = m_down s" "m_gone s' = m_gone s" "m_ready s \<Longrightarrow> m_ready s'"
    "m_final s \<Longrightarrow> m_final s'" "set (m_taken s) \<subseteq> set (m_taken s')"
  shows "list_all (m_frame_ok s') F"
proof -
  have "m_frame_ok s f \<Longrightarrow> m_frame_ok s' f" for f
    using assms(2-6) by (cases "(s, f)" rule: m_frame_ok.cases) auto
  then show ?thesis using assms(1) by (auto simp: list_all_iff)
qed

lemma m_invD:
  assumes "m_inv fn s F"
  shows "list_all (m_frame_ok s) F" "once_m s F" "flow_m s F" "end_m S s F" "ready_m S s F" "data_m fn s F" "took s"
  using assms by (simp_all add: m_inv_def)

text \<open>A call that is in progress is the only one.\<close>

lemma in_progress:
  assumes "m_inv fn s (A @ f # B)" and "m_pre f = 1"
  shows "tot m_pre A = 0" "tot m_pre B = 0" "m_sched s = 0" "m_suspend s = 0" "\<not> m_stalled s" "m_running s"
    "m_owed s = []" "tot (m_acks (m_gone s)) A = 0" "tot (m_acks (m_gone s)) B = 0" "m_ready s"
    "todos fn A = []" "todos fn B = []" "givings A = []" "givings B = []" "tot m_sends A = 0" "tot m_sends B = 0"
proof -
  have o: "once_m s (A @ f # B)" and fl: "flow_m s (A @ f # B)" and r: "ready_m S s (A @ f # B)" using m_invD [OF assms(1)] by simp_all
  show z: "tot m_pre A = 0" "tot m_pre B = 0" "m_sched s = 0" "m_suspend s = 0" "\<not> m_stalled s" and run: "m_running s"
    using o assms(2) by (auto simp: once_m_def split: if_splits)
  show "m_owed s = []" and a: "tot (m_acks (m_gone s)) A = 0" "tot (m_acks (m_gone s)) B = 0"
    using fl z(4) by (auto simp: flow_m_def)
  show g: "tot m_sends A = 0" "tot m_sends B = 0" using a sends_acks [of _ "m_gone s"] by (metis le_zero_eq)+
  show "givings A = []" "givings B = []" using g by (simp_all add: givings_idle)
  show "m_ready s" using r run by (auto simp: ready_m_def)
  show "todos fn A = []" "todos fn B = []" using z(1,2) by (simp_all add: todos_idle)
qed

lemma m_step_by:
  assumes inv: "m_inv fn s (A @ f # B)" and same: "m_down s' = m_down s" "m_gone s' = m_gone s" "m_ready s \<Longrightarrow> m_ready s'"
      "m_final s \<Longrightarrow> m_final s'" "set (m_taken s) \<subseteq> set (m_taken s')"
    and new: "list_all (m_frame_ok s') gs" "once_m s' (A @ gs @ B)" "flow_m s' (A @ gs @ B)" "end_m S s' (A @ gs @ B)"
      "ready_m S s' (A @ gs @ B)" "data_m fn s' (A @ gs @ B)" "took s'"
  shows "m_inv fn s' (A @ gs @ B)"
proof -
  have "list_all (m_frame_ok s) A" "list_all (m_frame_ok s) B" using m_invD(1) [OF inv] by simp_all
  with new show ?thesis by (simp add: m_inv_def frames_ok_mono [OF _ same])
qed

lemma m_step_own:
  assumes inv: "m_inv fn s (A @ f # B)" and same: "m_down s' = m_down s" "m_gone s' = m_gone s" "m_ready s \<Longrightarrow> m_ready s'"
      "m_final s \<Longrightarrow> m_final s'" "set (m_taken s) \<subseteq> set (m_taken s')"
    and new: "list_all (m_frame_ok s') gs" "once_m s (A @ f # B) \<Longrightarrow> once_m s' (A @ gs @ B)" "flow_m s (A @ f # B) \<Longrightarrow> flow_m s' (A @ gs @ B)"
      "end_m S s (A @ f # B) \<Longrightarrow> end_m S s' (A @ gs @ B)" "ready_m S s (A @ f # B) \<Longrightarrow> ready_m S s' (A @ gs @ B)"
      "data_m fn s (A @ f # B) \<Longrightarrow> data_m fn s' (A @ gs @ B)" "took s \<Longrightarrow> took s'"
  shows "m_inv fn s' (A @ gs @ B)"
  by (rule m_step_by [OF inv same]) (use new m_invD [OF inv] in blast)+

lemma run_m_inv: "m_inv fn s (A @ M_Run # B) \<Longrightarrow> m_inv fn (s\<lparr>m_sched := m_sched s + 1\<rparr>) (A @ [] @ B)"
  by (erule m_step_own) (auto simp: m_ctl split: if_splits)

lemma tell_m_inv:
  "m_inv fn s (A @ M_Tell [] # B) \<Longrightarrow> m_inv fn s (A @ [] @ B)"
  "m_inv fn s (A @ M_Tell (i # is) # B) \<Longrightarrow> m_inv fn (s\<lparr>m_told := m_told s @ [i]\<rparr>) (A @ [M_Tell is] @ B)"
  by (erule m_step_own; auto simp: m_ctl split: if_splits)+

lemma handle_none_m_inv: "m_inv fn s (A @ M_Handle None # B) \<Longrightarrow> m_inv fn s (A @ [M_Task_Done] @ B)"
  by (erule m_step_own) (auto simp: m_ctl split: if_splits)

lemma handle_arg_m_inv:
  "m_inv fn s (A @ M_Handle (Some ms) # B) \<Longrightarrow> find_argument_error ms = None \<Longrightarrow> m_inv fn s (A @ [M_In_Fun (map projr ms)] @ B)"
  by (erule m_step_own) (auto simp: m_ctl call_def split: if_splits)

lemma handle_error_m_inv:
  assumes inv: "m_inv fn s (A @ M_Handle (Some ms) # B)" and e: "find_argument_error ms \<noteq> None"
  shows "m_inv fn (s\<lparr>m_stalled := True\<rparr>) (A @ [] @ B)"
proof -
  have "ms \<in> set (m_taken s)" "\<not> m_final s" using m_invD(1,4) [OF inv] by (auto simp: end_m_def)
  moreover have "call fn ms = []" using e by (simp add: call_def)
  ultimately show ?thesis using e by (intro m_step_own [OF inv]) (auto simp: m_ctl split: if_splits)
qed

lemma in_fun_m_inv: "m_inv fn s (A @ M_In_Fun vs # B) \<Longrightarrow> m_inv fn s (A @ [M_Broadcast (fn vs)] @ B)"
  by (erule m_step_own) (auto simp: m_ctl split: if_splits)

lemma broadcast_m_inv:
  assumes inv: "m_inv fn s (A @ M_Broadcast m # B)" and free: "\<And>c. free c \<le> 1"
  shows "m_inv fn s (A @ [M_Suspend (ds_size (m_down s)) (ds_free (\<lambda>c. if c \<in> set (m_gone s) then None else Some (free c)) (m_down s) \<le> 1) m] @ B)"
  by (rule m_step_own [OF inv]) (use free_gone [of free "m_gone s" "m_down s", OF free] in \<open>auto simp: m_ctl split: if_splits\<close>)

lemma suspend_m_inv:
  assumes inv: "m_inv fn s (A @ M_Suspend k b m # B)"
  shows "m_inv fn (s\<lparr>m_suspend := (if b then k + 1 else 1), m_sent := m_sent s @ [m]\<rparr>) (A @ [M_Sending (ds_send k (m_down s)) m] @ B)"
proof -
  let ?cs = "ds_send k (m_down s)" and ?s = "s\<lparr>m_suspend := (if b then k + 1 else 1), m_sent := m_sent s @ [m]\<rparr>"
  note z = in_progress [OF inv, simplified]
  have k: "k = ds_size (m_down s)" "b \<or> set ?cs \<subseteq> set (m_gone s)" using m_invD(1) [OF inv] by auto
  have alive: "length (filter (\<lambda>c. c \<notin> set (m_gone s)) ?cs) \<le> (if b then k else 0)"
    using k order_trans [OF length_filter_le sends_size(1) [of "m_down s"]] by (auto simp: filter_empty_conv)
  have all: "m_live s \<Longrightarrow> length (filter (\<lambda>c. c \<notin> set (m_gone s)) ?cs) = (if b then k else 0)"
    using k sends_size(2) [of "m_down s"] by (auto simp: m_live_def)
  have nf: "\<not> m_final s" using m_invD(4) [OF inv] by (auto simp: end_m_def)
  then have at: "m_attached s = ?cs" using m_invD(4,6) [OF inv] k(1) by (auto simp: end_m_def data_m_def)
  show ?thesis
  proof (rule m_step_own [OF inv])
    show "flow_m ?s (A @ [M_Sending ?cs m] @ B)" using z alive all by (auto simp: flow_m_def m_live_def)
  qed (use z nf at in \<open>auto simp: m_ctl split: if_splits\<close>)
qed

lemma sending_m_inv:
  assumes inv: "m_inv fn s (A @ M_Sending cs m # B)"
  shows "m_inv fn (snd (m_sending cs m s)) (A @ fst (m_sending cs m s) @ B)"
proof (cases cs)
  case Nil
  show ?thesis using inv unfolding m_sending_def Nil by simp (erule m_step_own [where gs = "[M_Cts]", simplified], auto simp: m_ctl split: if_splits)
next
  case (Cons c ds)
  have g: "givings A = []" "givings B = []" using m_invD(3) [OF inv] by (auto simp: flow_m_def intro: givings_idle)
  show ?thesis
  proof (cases "c \<in> set (m_gone s)")
    case True
    have "m_inv fn s (A @ [M_Sending ds m] @ B)" by (rule m_step_own [OF inv]) (use True Cons g in \<open>auto simp: m_ctl split: if_splits\<close>)
    then show ?thesis using True by (simp add: m_sending_def Cons)
  next
    case False
    have "m_inv fn (s\<lparr>m_owed := m_owed s @ [c], m_given := m_given s @ [(c, m)]\<rparr>) (A @ [M_Sending ds m] @ B)"
      by (rule m_step_own [OF inv]) (use False Cons g in \<open>auto simp: m_ctl split: if_splits\<close>)
    then show ?thesis using False by (simp add: m_sending_def Cons)
  qed
qed

lemma cts_m_inv:
  assumes inv: "m_inv fn s (A @ M_Cts # B)"
  shows "\<not> m_final s" "m_inv fn s (A @ [M_Cts2] @ B)"
proof -
  show "\<not> m_final s" using m_invD(3,4) [OF inv] by (auto simp: flow_m_def end_m_def)
  then show "m_inv fn s (A @ [M_Cts2] @ B)" by (intro m_step_own [OF inv]) (auto simp: m_ctl split: if_splits)
qed

lemma clear_m_inv:
  assumes inv: "m_inv fn s (A @ M_Cts2 # B)"
  shows "m_inv fn (snd (m_clear S s)) (A @ fst (m_clear S s) @ B)"
proof -
  have fl: "flow_m s (A @ M_Cts2 # B)" and o: "once_m s (A @ M_Cts2 # B)" using m_invD [OF inv] by simp_all
  then have pos: "0 < m_suspend s" by (simp add: flow_m_def)
  then have nf: "\<not> m_final s" using m_invD(4) [OF inv] by (auto simp: end_m_def)
  have run: "m_running s" "tot m_pre A = 0" "tot m_pre B = 0" "m_sched s = 0" "\<not> m_stalled s" using o pos by (auto simp: once_m_def split: if_splits)
  have last: "m_suspend s \<le> Suc 0 \<Longrightarrow> m_owed s = [] \<and> tot (m_acks (m_gone s)) A = 0 \<and> tot (m_acks (m_gone s)) B = 0"
  proof -
    have "length (m_owed s) + (tot (m_acks (m_gone s)) A + (1 + tot (m_acks (m_gone s)) B)) \<le> m_suspend s"
      using fl by (simp add: flow_m_def)
    moreover assume "m_suspend s \<le> Suc 0"
    ultimately have "length (m_owed s) = 0 \<and> tot (m_acks (m_gone s)) A = 0 \<and> tot (m_acks (m_gone s)) B = 0" by linarith
    then show "m_owed s = [] \<and> tot (m_acks (m_gone s)) A = 0 \<and> tot (m_acks (m_gone s)) B = 0" by simp
  qed
  let ?go = "m_suspend s - 1 = 0 \<and> (\<not> st_empty S (m_queue s) \<or> m_close s)" and ?stop = "m_suspend s - 1 = 0 \<and> st_empty S (m_queue s) \<and> \<not> m_close s"
  have "m_inv fn (s\<lparr>m_suspend := m_suspend s - 1, m_running := \<not> ?stop\<rparr>) (A @ (if ?go then [M_Run] else []) @ B)"
  proof (rule m_step_own [OF inv])
    show "flow_m (s\<lparr>m_suspend := m_suspend s - 1, m_running := \<not> ?stop\<rparr>) (A @ (if ?go then [M_Run] else []) @ B)"
      using fl last by (auto simp: flow_m_def m_live_def)
  qed (use pos nf run in \<open>auto simp: m_ctl split: if_splits\<close>)
  moreover have "m_clear S s = ((if ?go then [M_Run] else []), s\<lparr>m_suspend := m_suspend s - 1, m_running := \<not> ?stop\<rparr>)"
    using run(1) by (cases s) (auto simp: m_clear_def Let_def)
  ultimately show ?thesis by simp
qed

lemma task_done_m_inv:
  assumes inv: "m_inv fn s (A @ M_Task_Done # B)"
  shows "m_inv fn (snd (m_task_done S s)) (A @ fst (m_task_done S s) @ B)"
proof -
  note z = in_progress [OF inv, simplified]
  show ?thesis unfolding m_task_done_def Let_def fst_conv snd_conv
    by (rule m_step_own [OF inv]) (use z in \<open>auto simp: m_ctl split: if_splits\<close>)
qed

lemma finalize_frames:
  "list_all (m_frame_ok s) F \<Longrightarrow> tot m_busy F = 0 \<Longrightarrow> list_all (m_frame_ok (m_finalize s)) F"
proof (induction F)
  case (Cons f F)
  moreover have "m_frame_ok (m_finalize s) f" if "m_frame_ok s f" "m_busy f = 0"
    using that by (cases "(s, f)" rule: m_frame_ok.cases) (auto simp: m_finalize_def split: prod.split)
  ultimately show ?case by simp
qed simp

lemma finalize_m_inv:
  assumes inv: "m_inv fn s (A @ M_Finalize # B)"
  shows "m_inv fn (m_finalize s) (A @ [] @ B)"
proof -
  have f: "m_final s" using m_invD(1) [OF inv] by simp
  obtain cs d where d: "ds_clear (m_down s) = (cs, d)" by fastforce
  have z: "tot m_busy A = 0" "tot m_busy B = 0" "m_suspend s = 0" using f m_invD(4) [OF inv] by (simp_all add: end_m_def)
  then have fl: "m_owed s = []" "tot (m_acks (m_gone s)) A = 0" "tot (m_acks (m_gone s)) B = 0" "tot m_sends A + tot m_sends B \<le> 1"
    using m_invD(3) [OF inv] by (auto simp: flow_m_def)
  have "list_all (m_frame_ok (m_finalize s)) (A @ [] @ B)" using m_invD(1) [OF inv] z by (simp add: finalize_frames)
  moreover have "once_m (m_finalize s) (A @ [] @ B)" using m_invD(2) [OF inv] by (simp add: once_m_def m_finalize_def d)
  moreover have "flow_m (m_finalize s) (A @ [] @ B)" using fl z(3) by (simp add: flow_m_def m_finalize_def d)
  moreover have "end_m S (m_finalize s) (A @ [] @ B)" using m_invD(4) [OF inv] f by (auto simp: end_m_def m_finalize_def d)
  moreover have "ready_m S (m_finalize s) (A @ [] @ B)" using m_invD(5) [OF inv] by (simp add: ready_m_def m_finalize_def d)
  moreover have "data_m fn (m_finalize s) (A @ [] @ B)" using m_invD(6) [OF inv] by (simp add: data_m_def m_finalize_def d)
  moreover have "took (m_finalize s)" using m_invD(7) [OF inv] by (simp add: m_finalize_def d)
  ultimately show ?thesis by (simp add: m_inv_def)
qed

lemma close_m_inv:
  assumes inv: "m_inv fn s (A @ M_Close_Queue # B)"
  shows "m_inv fn (snd (m_close_queue s)) (A @ fst (m_close_queue s) @ B)"
proof -
  have z: "m_senders s = 0" "\<not> m_final s" "\<not> m_close s" "tot m_closing A = 0" "tot m_closing B = 0"
    using m_invD(4) [OF inv] by (auto simp: end_m_def split: if_splits)
  show ?thesis unfolding m_close_queue_def m_start_def fst_conv snd_conv
    by (rule m_step_own [OF inv]) (use z in \<open>auto simp: m_ctl split: if_splits\<close>)
qed

lemma check_start_m_inv:
  assumes inv: "m_inv fn s (A @ M_Check_Start # B)"
  shows "m_inv fn (snd (m_check_start S s)) (A @ fst (m_check_start S s) @ B)"
proof -
  have r: "m_ready s" using m_invD(1) [OF inv] by simp
  show ?thesis unfolding m_check_start_def m_start_def fst_conv snd_conv
    by (rule m_step_own [OF inv]) (use r in \<open>auto simp: m_ctl split: if_splits\<close>)
qed

lemma step_m_inv:
  assumes inv: "m_inv fn s (A @ M_Step # B)"
  shows "\<exists>gs s'. m_pop S s = Inr (gs, s') \<and> m_inv fn s' (A @ gs @ B)"
proof (cases "st_empty S (m_queue s)")
  case True
  note z = in_progress [OF inv, simplified]
  have nf: "\<not> m_final s" using m_invD(4) [OF inv] by (auto simp: end_m_def)
  have "tot m_busy A = 0" "tot m_busy B = 0" using z(1,2) busy_le_pre [of A] busy_le_pre [of B] by simp_all
  then have "m_inv fn (s\<lparr>m_close := False, m_final := m_close s\<rparr>) (A @ [M_Tell [], M_Handle None] @ B)"
    by (intro m_step_own [OF inv]) (use z nf True in \<open>auto simp: m_ctl split: if_splits\<close>)
  then show ?thesis using pop_empty [OF True] by simp
next
  case False
  note z = in_progress [OF inv, simplified]
  from pop_some [OF m_invD(7) [OF inv] False] obtain "is" ms q where
    p: "m_pop S s = Inr ([M_Tell is, M_Handle (Some ms)], s\<lparr>m_queue := q, m_taken := m_taken s @ [ms]\<rparr>)"
    "took (s\<lparr>m_queue := q, m_taken := m_taken s @ [ms]\<rparr>)" by blast
  have nf: "\<not> m_final s" using m_invD(4) [OF inv] by (auto simp: end_m_def)
  have "m_inv fn (s\<lparr>m_queue := q, m_taken := m_taken s @ [ms]\<rparr>) (A @ [M_Tell is, M_Handle (Some ms)] @ B)"
    by (rule m_step_own [OF inv]) (use z p(2) nf in \<open>auto simp: m_ctl split: if_splits\<close>)
  with p(1) show ?thesis by simp
qed

lemma m_frame_step_inv:
  assumes inv: "m_inv fn s (A @ f # B)" and free: "\<And>c. free c \<le> 1"
  shows "\<exists>gs s'. m_frame_step S fn free f s = Inr (gs, s') \<and> m_inv fn s' (A @ gs @ B)"
proof (cases f)
  case (M_Tell "is")
  then show ?thesis using inv tell_m_inv by (cases "is") fastforce+
next
  case (M_Handle r)
  show ?thesis
  proof (cases r)
    case None
    then show ?thesis using inv handle_none_m_inv M_Handle by (fastforce simp: m_handle_def)
  next
    case (Some ms)
    have "m_process s" using m_invD(4) [OF inv] M_Handle Some by (auto simp: end_m_def)
    then show ?thesis using inv handle_error_m_inv [of fn s A ms B] handle_arg_m_inv [of fn s A ms B] M_Handle Some
      by (cases "find_argument_error ms") (auto simp: m_handle_def)
  qed
next
  case (M_Broadcast m)
  then show ?thesis using broadcast_m_inv [of fn s A m B free] inv free by auto
next
  case (M_Suspend k b m)
  then show ?thesis using suspend_m_inv inv by fastforce
next
  case (M_Sending cs m)
  then show ?thesis using sending_m_inv inv by (metis m_frame_step.simps(9) prod.collapse)
next
  case M_Cts
  then show ?thesis using cts_m_inv inv by fastforce
next
  case M_Cts2
  then show ?thesis using clear_m_inv inv by (metis m_frame_step.simps(11) prod.collapse)
next
  case M_Task_Done
  then show ?thesis using task_done_m_inv inv by (metis m_frame_step.simps(12) prod.collapse)
next
  case M_Close_Queue
  then show ?thesis using close_m_inv inv by (metis m_frame_step.simps(14) prod.collapse)
next
  case M_Check_Start
  then show ?thesis using check_start_m_inv inv by (metis m_frame_step.simps(15) prod.collapse)
qed (use inv run_m_inv step_m_inv in_fun_m_inv finalize_m_inv in fastforce)+

end

section \<open>Every execution\<close>

text \<open>Attached processes have the buffer size of every channel that is not annotated, one.\<close>

fun m_ok :: "('a, 'e) m_op \<Rightarrow> bool" where
  "m_ok (M_Thread k free) \<longleftrightarrow> (\<forall>c. free c \<le> 1)"
| "m_ok x = True"

definition m_frames :: "('a, 'v, 'e) merging \<Rightarrow> ('a, 'v, 'e) m_frame list" where
  "m_frames s = concat (m_threads s)"

lemma m_frames_spawn [simp]: "m_frames (m_spawn fs s) = m_frames s @ fs"
  by (simp add: m_frames_def m_spawn_def)

lemma m_frames_same [simp]:
  "m_frames (s\<lparr>m_gone := l\<rparr>) = m_frames s" "m_frames (s\<lparr>m_owed := l\<rparr>) = m_frames s" "m_frames (s\<lparr>m_sched := x\<rparr>) = m_frames s"
  "m_frames (s\<lparr>m_receivers := x\<rparr>) = m_frames s" "m_frames (s\<lparr>m_ready := a\<rparr>) = m_frames s" "m_frames (s\<lparr>m_senders := x\<rparr>) = m_frames s"
  "m_frames (s\<lparr>m_open := os\<rparr>) = m_frames s" "m_frames (s\<lparr>m_down := d\<rparr>) = m_frames s" "m_frames (s\<lparr>m_closed := l\<rparr>) = m_frames s"
  "m_frames (s\<lparr>m_attached := l\<rparr>) = m_frames s"
  by (simp_all add: m_frames_def)

lemma m_step_threads:
  assumes "m_frame_step S fn free f s = Inr (gs, s')"
  shows "m_threads s' = m_threads s"
proof (cases f)
  case M_Step
  then show ?thesis using assms by (auto simp: m_pop_def bindR_def split: sum.splits)
next
  case (M_Tell "is")
  then show ?thesis using assms by (cases "is") auto
qed (use assms in \<open>auto simp: m_handle_def m_sending_def m_clear_def Let_def m_task_done_def m_finalize_def m_close_queue_def
    m_check_start_def m_start_def split: option.splits list.splits if_splits prod.splits\<close>)

lemma filter_id_close:
  "i < length xs \<Longrightarrow> xs ! i \<Longrightarrow> Suc (length (filter id (xs[i := False]))) = length (filter id xs)"
proof (induction xs arbitrary: i)
  case (Cons x xs)
  then show ?case by (cases i) auto
qed simp

lemma acks_gone: "tot (m_acks (c # gone)) F \<le> tot (m_acks gone) F"
proof (rule tot_mono)
  show "m_acks (c # gone) f \<le> m_acks gone f" for f :: "('a, 'b, 'c) m_frame"
  proof (cases f)
    case (M_Sending cs m)
    have "length (filter (\<lambda>x. x \<noteq> c \<and> x \<notin> set gone) cs) \<le> length (filter (\<lambda>x. x \<notin> set gone) cs)" by (induction cs) auto
    then show ?thesis by (simp add: M_Sending)
  qed auto
qed

context queue_strategy
begin

lemma threads_m_inv: "m_inv fn (s\<lparr>m_threads := t\<rparr>) F = m_inv fn s F"
proof -
  have "m_frame_ok (s\<lparr>m_threads := t\<rparr>) f = m_frame_ok s f" for f
    by (cases "(s, f)" rule: m_frame_ok.cases) auto
  then have "m_frame_ok (s\<lparr>m_threads := t\<rparr>) = m_frame_ok s" by blast
  then show ?thesis by (simp add: m_inv_def m_ctl)
qed

lemma spawn_m_inv: "m_inv fn (m_spawn fs s) F = m_inv fn s F"
  by (simp add: m_spawn_def threads_m_inv)

lemma m_env_by:
  assumes inv: "m_inv fn s F" and same: "m_down s' = m_down s" "m_gone s' = m_gone s" "m_ready s \<Longrightarrow> m_ready s'"
      "m_final s \<Longrightarrow> m_final s'" "set (m_taken s) \<subseteq> set (m_taken s')"
    and new: "list_all (m_frame_ok s') gs" "once_m s F \<Longrightarrow> once_m s' (F @ gs)" "flow_m s F \<Longrightarrow> flow_m s' (F @ gs)"
      "end_m S s F \<Longrightarrow> end_m S s' (F @ gs)" "ready_m S s F \<Longrightarrow> ready_m S s' (F @ gs)"
      "data_m fn s F \<Longrightarrow> data_m fn s' (F @ gs)" "took s \<Longrightarrow> took s'"
  shows "m_inv fn (m_spawn gs s') (F @ gs)"
proof -
  have "m_inv fn s' (F @ gs)" using frames_ok_mono [OF m_invD(1) [OF inv] same] new m_invD [OF inv] by (simp add: m_inv_def)
  then show ?thesis by (simp only: spawn_m_inv)
qed

lemma attach_m_inv:
  assumes inv: "m_inv fn s F" and r: "\<not> m_ready s"
  shows "m_inv fn (m_attach c s) F"
proof -
  obtain cs d where d: "append_receiver c (m_down s) = (cs, d)" by fastforce
  have run: "\<not> m_running s" using r m_invD(5) [OF inv] by (simp add: ready_m_def)
  then have z: "tot m_pre F = 0" "m_suspend s = 0" using m_invD(2) [OF inv] by (simp_all add: once_m_def split: if_splits)
  have fl: "m_owed s = []" "tot (m_acks (m_gone s)) F = 0" "tot m_sends F \<le> 1" using z(2) m_invD(3) [OF inv] by (auto simp: flow_m_def)
  have at: "m_sent s = []" "m_process s" using r m_invD(4,6) [OF inv] by (auto simp: end_m_def data_m_def)
  have "list_all (m_frame_ok s) G \<Longrightarrow> tot m_pre G = 0 \<Longrightarrow> list_all (m_frame_ok (m_attach c s)) G" for G
  proof (induction G)
    case (Cons f G)
    moreover have "m_frame_ok (m_attach c s) f" if "m_frame_ok s f" "m_pre f = 0"
      using that by (cases "(s, f)" rule: m_frame_ok.cases) (auto simp: m_attach_def d)
    ultimately show ?case by simp
  qed simp
  then have "list_all (m_frame_ok (m_attach c s)) F" using m_invD(1) [OF inv] z(1) by blast
  moreover have "once_m (m_attach c s) F" using m_invD(2) [OF inv] by (simp add: once_m_def m_attach_def d)
  moreover have "flow_m (m_attach c s) F" using fl z(2) by (simp add: flow_m_def m_attach_def d)
  moreover have "end_m S (m_attach c s) F" using m_invD(4) [OF inv] by (simp add: end_m_def m_attach_def d)
  moreover have "ready_m S (m_attach c s) F" using m_invD(5) [OF inv] by (simp add: ready_m_def m_attach_def d)
  moreover have "data_m fn (m_attach c s) F" using m_invD(6) [OF inv] at by (simp add: data_m_def m_attach_def d)
  moreover have "took (m_attach c s)" using m_invD(7) [OF inv] by (simp add: m_attach_def d)
  ultimately show ?thesis by (simp add: m_inv_def)
qed

lemma gone_m_inv:
  assumes inv: "m_inv fn s F"
  shows "m_inv fn (s\<lparr>m_gone := c # m_gone s\<rparr>) F"
proof -
  have "m_frame_ok s f \<Longrightarrow> m_frame_ok (s\<lparr>m_gone := c # m_gone s\<rparr>) f" for f
    by (cases "(s, f)" rule: m_frame_ok.cases) auto
  then have "list_all (m_frame_ok (s\<lparr>m_gone := c # m_gone s\<rparr>)) F" using m_invD(1) [OF inv] by (auto simp: list_all_iff)
  moreover have "flow_m (s\<lparr>m_gone := c # m_gone s\<rparr>) F"
    using m_invD(3) [OF inv] acks_gone [of c "m_gone s" F] by (simp add: flow_m_def m_live_def)
  ultimately show ?thesis using m_invD [OF inv]
    by (simp add: m_inv_def once_m_def end_m_def ready_m_def data_m_def)
qed

lemma set_ready_m_inv:
  assumes inv: "m_inv fn s F" and r: "\<not> m_ready s"
  shows "m_inv fn (m_spawn [M_Check_Start] (s\<lparr>m_receivers := 0, m_ready := True\<rparr>)) (F @ [M_Check_Start])"
  by (rule m_env_by [OF inv]) (use r in \<open>auto simp: m_ctl split: if_splits\<close>)

lemma arrive_m_inv:
  assumes inv: "m_inv fn s F" and i: "source_open i s"
  shows "m_inv fn (m_spawn (fst (m_enqueue i m s)) (snd (m_enqueue i m s))) (F @ fst (m_enqueue i m s))"
proof -
  have "m_open s ! i" "i < length (m_open s)" using i by (simp_all add: source_open_def)
  then have "True \<in> set (m_open s)" by (metis nth_mem)
  then have "filter id (m_open s) \<noteq> []" by (auto simp: filter_empty_conv)
  then have nf: "\<not> m_final s" using m_invD(4) [OF inv] by (auto simp: end_m_def)
  from m_invD(7) [OF inv] obtain T where T: "m_taken s = map (map snd) T" "inv (map (map fst) T) (m_queue s)"
    "\<forall>i < n. taken_from i T @ qs_queue (m_queue s) ! i = m_in s ! i" "length (m_in s) = n" "length (m_open s) = n" "list_all (list_all (\<lambda>x. fst x < n)) T" by (auto simp: took_def)
  then have "i < n" using i by (simp add: source_open_def)
  then have t: "took (s\<lparr>m_queue := qs_append i m (m_queue s), m_in := (m_in s)[i := m_in s ! i @ [m]]\<rparr>)"
    using T inv_append [OF T(2), of i m] inv_length [OF T(2)]
    by (auto simp: took_def qs_append_def nth_list_update intro!: exI [of _ T])
  show ?thesis unfolding m_enqueue_def m_start_def fst_conv snd_conv
    by (rule m_env_by [OF inv]) (use nf t in \<open>auto simp: m_ctl split: if_splits\<close>)
qed

lemma remove_sender_m_inv:
  assumes inv: "m_inv fn s F" and i: "source_open i s"
  shows "m_inv fn (m_remove_sender i s) (F @ (if m_senders s - 1 = 0 then [M_Close_Queue] else []))"
proof -
  have s: "Suc (length (filter id ((m_open s)[i := False]))) = m_senders s"
    using m_invD(4) [OF inv] i filter_id_close [of i "m_open s"] by (simp add: end_m_def source_open_def)
  then have pos: "m_senders s = Suc (m_senders s - 1)" by simp
  show ?thesis unfolding m_remove_sender_def Let_def
    by (rule m_env_by [OF inv]) (use s pos in \<open>auto simp: m_ctl took_def split: if_splits\<close>)
qed

lemma cleared_m_inv:
  assumes inv: "m_inv fn s F" and c: "c \<in> set (m_owed s)"
  shows "m_inv fn (m_spawn [M_Cts] (s\<lparr>m_owed := remove1 c (m_owed s)\<rparr>)) (F @ [M_Cts])"
proof -
  have l: "length (m_owed s) = Suc (length (remove1 c (m_owed s)))" using c length_pos_if_in_set [of c "m_owed s"] by (simp add: length_remove1)
  show ?thesis by (rule m_env_by [OF inv]) (use l in \<open>auto simp: m_ctl split: if_splits\<close>)
qed

lemma start_m_inv:
  assumes inv: "m_inv fn s F" and "0 < m_sched s"
  shows "m_inv fn (m_spawn [M_Step] (s\<lparr>m_sched := m_sched s - 1\<rparr>)) (F @ [M_Step])"
  by (rule m_env_by [OF inv]) (use assms(2) in \<open>auto simp: m_ctl split: if_splits\<close>)

lemma m_step_inv:
  assumes inv: "m_inv fn s (m_frames s)" and ok: "m_ok x"
  shows "\<exists>s'. m_step S fn x s = Inr s' \<and> m_inv fn s' (m_frames s')"
proof (cases x)
  case (M_Attach c)
  have "m_frames (m_attach c s) = m_frames s" by (auto simp: m_attach_def split: prod.split)
  then show ?thesis using inv attach_m_inv [of fn s "m_frames s" c] M_Attach by (cases "m_ready s") simp_all
next
  case (M_Gone c)
  then show ?thesis using gone_m_inv [OF inv] by simp
next
  case M_Ready
  then show ?thesis using inv set_ready_m_inv [OF inv] m_invD(5) [OF inv] by (auto simp: m_set_ready_def ready_m_def)
next
  case (M_Arrive i m)
  have "m_frames (snd (m_enqueue i m s)) = m_frames s" by (simp add: m_enqueue_def m_start_def m_frames_def)
  then show ?thesis using inv arrive_m_inv [OF inv, of i m] M_Arrive by (auto split: prod.split)
next
  case (M_Close i)
  have "m_frames (m_remove_sender i s) = m_frames s @ (if m_senders s - 1 = 0 then [M_Close_Queue] else [])"
    by (simp add: m_remove_sender_def Let_def)
  then show ?thesis using inv remove_sender_m_inv [OF inv, of i] M_Close by auto
next
  case (M_Cleared c)
  then show ?thesis using inv cleared_m_inv [OF inv] by auto
next
  case M_Start
  then show ?thesis using inv start_m_inv [OF inv] by auto
next
  case (M_Thread k free)
  show ?thesis
  proof (cases "k < length (m_threads s) \<and> m_threads s ! k \<noteq> []")
    case True
    then obtain f fs where k: "k < length (m_threads s)" "m_threads s ! k = f # fs" by (meson neq_Nil_conv)
    let ?A = "concat (take k (m_threads s))" and ?B = "fs @ concat (drop (Suc k) (m_threads s))"
    have F: "m_frames s = ?A @ f # ?B"
      unfolding m_frames_def by (subst id_take_nth_drop [OF k(1)]) (simp add: k(2))
    from m_frame_step_inv [of fn s ?A f ?B free] inv F ok M_Thread obtain gs s1 where
      s1: "m_frame_step S fn free f s = Inr (gs, s1)" "m_inv fn s1 (?A @ gs @ ?B)" by auto
    let ?s = "s1\<lparr>m_threads := (m_threads s)[k := gs @ fs]\<rparr>"
    have t: "m_threads s1 = m_threads s" by (rule m_step_threads [OF s1(1)])
    have "m_frames ?s = ?A @ gs @ ?B" using k(1) by (simp add: m_frames_def upd_conv_take_nth_drop)
    with s1(2) have "m_inv fn ?s (m_frames ?s)" by (simp add: threads_m_inv)
    then show ?thesis using k s1(1) t M_Thread by simp
  qed (use inv M_Thread in auto)
qed

end

end
