(* ===== verification/Channel_Merge_Results.thy ===== *)
theory Channel_Merge_Results
  imports Channel_Merge_Props
begin

text \<open>
  What a process with several upstream processes has done when it comes to rest, for each of the combinators.
\<close>

section \<open>Coming to rest\<close>

text \<open>The moves of the executor, of the threads and of the attached processes.\<close>

fun m_can_move :: "('a, 'e) m_op \<Rightarrow> ('a, 'v, 'e) merging \<Rightarrow> bool" where
  "m_can_move M_Start s = (0 < m_sched s)"
| "m_can_move (M_Thread k free) s = (k < length (m_threads s) \<and> m_threads s ! k \<noteq> [] \<and> (\<forall>c. free c \<le> 1))"
| "m_can_move (M_Cleared c) s = (c \<in> set (m_owed s))"
| "m_can_move _ s = False"

definition m_at_rest :: "('a, 'v, 'e) merging \<Rightarrow> bool" where
  "m_at_rest s \<longleftrightarrow> m_sched s = 0 \<and> list_all (\<lambda>t. t = []) (m_threads s) \<and> m_owed s = []"

definition messages :: "('a, 'v, 'e) merging \<Rightarrow> nat" where
  "messages s = sum_list (map length (qs_queue (m_queue s)))"

definition m_value :: "('a, 'v, 'e) merging \<Rightarrow> nat" where
  "m_value s = 12 + length (qs_queue (m_queue s)) + 4 * length (m_attached s)"

fun m_frame_weight :: "nat \<Rightarrow> nat \<Rightarrow> ('a, 'v, 'e) m_frame \<Rightarrow> nat" where
  "m_frame_weight w v M_Run = 7"
| "m_frame_weight w v M_Step = 5"
| "m_frame_weight w v (M_Tell is) = Suc (length is)"
| "m_frame_weight w v (M_Handle r) = (if r = None then 3 else 7 + w)"
| "m_frame_weight w v (M_In_Fun vs) = 6 + w"
| "m_frame_weight w v (M_Broadcast m) = 5 + w"
| "m_frame_weight w v (M_Suspend k b m) = 4 + w"
| "m_frame_weight w v (M_Sending cs m) = 3 + 4 * length cs"
| "m_frame_weight w v M_Cts = 2"
| "m_frame_weight w v M_Cts2 = 1"
| "m_frame_weight w v M_Task_Done = 2"
| "m_frame_weight w v M_Finalize = 1"
| "m_frame_weight w v M_Close_Queue = 8 + v"
| "m_frame_weight w v M_Check_Start = 1"

fun m_runs :: "('a, 'v, 'e) m_frame \<Rightarrow> nat" where
  "m_runs M_Run = 1"
| "m_runs M_Step = 1"
| "m_runs f = 0"

definition m_weight :: "('a, 'e) strategy \<Rightarrow> ('a, 'v, 'e) merging \<Rightarrow> ('a, 'v, 'e) m_frame list \<Rightarrow> nat" where
  "m_weight S s F = tot (m_frame_weight (4 * length (m_attached s)) (m_value s)) F + 6 * m_sched s + 3 * length (m_owed s) +
     m_value s * (messages s + ind (m_close s)) +
     (if (\<not> st_empty S (m_queue s) \<or> m_close s) \<and> m_sched s + tot m_runs F = 0 then 7 else 0)"

lemma runs_le_pre: "tot m_runs F \<le> tot m_pre F"
proof (rule tot_mono)
  show "m_runs f \<le> m_pre f" for f :: "('a, 'b, 'c) m_frame" by (cases f) auto
qed

text \<open>A step that leaves the queue and the executor alone.\<close>

lemma m_weight_idle:
  assumes "m_queue s' = m_queue s" "m_close s' = m_close s" "m_sched s' = m_sched s" "m_attached s' = m_attached s"
    and "tot m_runs gs = m_runs f" and "tot (m_frame_weight (4 * length (m_attached s)) v) gs + 3 * length (m_owed s') <
      m_frame_weight (4 * length (m_attached s)) v f + 3 * length (m_owed s)"
    and "v = m_value s"
  shows "m_weight S s' (A @ gs @ B) < m_weight S s (A @ f # B)"
proof -
  have "m_value s' = m_value s" "messages s' = messages s" using assms(1,4) by (simp_all add: m_value_def messages_def)
  then show ?thesis using assms by (simp add: m_weight_def)
qed

text \<open>A list of messages without an exception.\<close>

definition arguments_only :: "('e + 'a) list \<Rightarrow> bool" where
  "arguments_only = list_all (\<lambda>m. \<not> isl m)"

lemma concat_singletons: "(\<And>x. x \<in> set xs \<Longrightarrow> f x = [g x]) \<Longrightarrow> concat (map f xs) = map g xs"
  by (induction xs) simp_all

text \<open>The contract of a strategy that takes at least one message at a time.\<close>

locale draining_strategy = queue_strategy +
  assumes some: "0 < n" "inv H s \<Longrightarrow> \<not> st_empty S s \<Longrightarrow> sources s \<noteq> []"
    and sizes: "inv H s \<Longrightarrow> length (st_size S s) = n"
begin

lemma pop_fewer:
  assumes "took s" and "\<not> st_empty S (m_queue s)"
  shows "\<exists>is ms q. m_pop S s = Inr ([M_Tell is, M_Handle (Some ms)], s\<lparr>m_queue := q, m_taken := m_taken s @ [ms]\<rparr>) \<and>
    length is \<le> length (qs_queue q) \<and> length (qs_queue q) = length (qs_queue (m_queue s)) \<and>
    Suc (sum_list (map length (qs_queue q))) \<le> messages s"
proof -
  obtain T where T: "inv (map (map fst) T) (m_queue s)" "m_taken s = map (map snd) T" using assms(1) unfolding took_def by blast
  note T = T(1)
  let ?Q = "qs_queue (m_queue s)" and ?so = "sources (m_queue s)"
  from take [OF T assms(2)] obtain s1 s2 where q: "st_front S (m_queue s) = Inr (map (\<lambda>i. hd (?Q ! i)) ?so, s1)"
    "st_pop_front S s1 = Inr s2" "inv (map (map fst) T @ [?so]) s2" "qs_queue s2 = map (\<lambda>i. if i \<in> set ?so then tl (?Q ! i) else ?Q ! i) [0..<n]" by blast
  have n: "length ?Q = n" by (rule inv_length [OF T])
  obtain j where j: "j \<in> set ?so" using some(2) [OF T assms(2)] by (cases ?so) auto
  then have j': "j < n" "?Q ! j \<noteq> []" using sources_ok [OF T assms(2)] by auto
  have l2: "length (qs_queue s2) = n" by (simp add: q(4))
  have "(\<Sum>i<n. length (qs_queue s2 ! i)) < (\<Sum>i<n. length (?Q ! i))"
  proof (rule sum_strict_mono_ex1)
    show "\<exists>i\<in>{..<n}. length (qs_queue s2 ! i) < length (?Q ! i)" using j j' by (intro bexI [of _ j]) (auto simp: q(4))
  qed (auto simp: q(4))
  then have "sum_list (map length (qs_queue s2)) < messages s"
    using n l2 by (simp add: messages_def sum_list_sum_nth lessThan_atLeast0)
  moreover have "m_pop S s = Inr ([M_Tell (filter (\<lambda>i. map (\<lambda>k. k \<le> m_buffer s - 1) (st_size S s2) ! i) [0..<n]),
      M_Handle (Some (map (\<lambda>i. hd (?Q ! i)) ?so))],
      s\<lparr>m_queue := s2, m_taken := m_taken s @ [map (\<lambda>i. hd (?Q ! i)) ?so]\<rparr>)"
    using assms(2) q(1,2) sizes [OF q(3)] by (simp add: m_pop_def pop_from_queue_def)
  ultimately show ?thesis using n length_filter_le [of _ "[0..<n]"]
    by (intro exI conjI) (assumption, auto simp: q(4))
qed

lemma m_frame_weight_step:
  assumes inv: "m_inv fn s (A @ f # B)" and r: "m_frame_step S fn free f s = Inr (gs, s')"
  shows "m_weight S s' (A @ gs @ B) < m_weight S s (A @ f # B)"
proof (cases f)
  case M_Run
  then show ?thesis using r by (auto simp: m_weight_def m_value_def messages_def)
next
  case (M_Tell "is")
  show ?thesis by (rule m_weight_idle [OF _ _ _ _ _ _ refl]) (use r M_Tell in \<open>cases "is"; auto\<close>)+
next
  case (M_Handle h)
  show ?thesis
    by (rule m_weight_idle [OF _ _ _ _ _ _ refl]) (use r M_Handle in \<open>auto simp: m_handle_def split: option.splits if_splits\<close>)
next
  case (M_In_Fun vs)
  show ?thesis by (rule m_weight_idle [OF _ _ _ _ _ _ refl]) (use r M_In_Fun in auto)
next
  case (M_Broadcast m)
  show ?thesis by (rule m_weight_idle [OF _ _ _ _ _ _ refl]) (use r M_Broadcast in auto)
next
  case M_Cts
  show ?thesis by (rule m_weight_idle [OF _ _ _ _ _ _ refl]) (use r M_Cts in auto)
next
  case M_Finalize
  show ?thesis
    by (rule m_weight_idle [OF _ _ _ _ _ _ refl]) (use r M_Finalize in \<open>auto simp: m_finalize_def split: prod.splits\<close>)
next
  case (M_Sending cs m)
  show ?thesis
    by (rule m_weight_idle [OF _ _ _ _ _ _ refl]) (use r M_Sending in \<open>auto simp: m_sending_def split: list.splits if_splits\<close>)
next
  case M_Close_Queue
  have "\<not> m_close s" using m_invD(4) [OF inv] M_Close_Queue by (auto simp: end_m_def split: if_splits)
  moreover have "s' = s\<lparr>m_close := True, m_running := m_running s \<or> gs \<noteq> []\<rparr>" "gs = [] \<or> gs = [M_Run]"
    using r M_Close_Queue by (auto simp: m_close_queue_def m_start_def split: if_splits)
  moreover from this have "m_value s' = m_value s" "messages s' = messages s" by (simp_all add: m_value_def messages_def)
  ultimately show ?thesis unfolding m_weight_def by (auto simp: M_Close_Queue)
next
  case M_Check_Start
  have "\<not> m_running s \<Longrightarrow> m_sched s + tot m_pre (A @ f # B) = 0" using m_invD(2) [OF inv] by (auto simp: once_m_def)
  then have "\<not> m_running s \<Longrightarrow> m_sched s = 0 \<and> tot m_runs A = 0 \<and> tot m_runs B = 0" using runs_le_pre [of A] runs_le_pre [of B] by simp
  then show ?thesis using r M_Check_Start
    by (auto simp: m_weight_def m_value_def messages_def m_check_start_def m_start_def split: if_splits)
next
  case (M_Suspend k b m)
  have "m_attached s = ds_send k (m_down s)" using m_invD(1,4,6) [OF inv] M_Suspend by (auto simp: end_m_def data_m_def)
  then show ?thesis by (intro m_weight_idle [OF _ _ _ _ _ _ refl]) (use r M_Suspend in auto)
next
  case M_Task_Done
  note z = in_progress [OF inv [unfolded M_Task_Done], simplified]
  have "tot m_runs A = 0" "tot m_runs B = 0" using z(1,2) runs_le_pre [of A] runs_le_pre [of B] by simp_all
  moreover have "m_final s \<Longrightarrow> st_empty S (m_queue s) \<and> \<not> m_close s"
    using m_invD(4) [OF inv] by (auto simp: end_m_def split: if_splits)
  ultimately show ?thesis using r z M_Task_Done
    by (auto simp: m_weight_def m_value_def messages_def m_task_done_def Let_def split: if_splits)
next
  case M_Cts2
  have "0 < m_suspend s" using m_invD(3) [OF inv] M_Cts2 by (simp add: flow_m_def)
  then have "m_sched s + tot m_pre (A @ f # B) = 0" using m_invD(2) [OF inv] by (auto simp: once_m_def split: if_splits)
  then have "m_sched s = 0 \<and> tot m_runs A = 0 \<and> tot m_runs B = 0" using runs_le_pre [of A] runs_le_pre [of B] by simp
  then show ?thesis using r M_Cts2
    by (auto simp: m_weight_def m_value_def messages_def m_clear_def Let_def split: if_splits)
next
  case M_Step
  note z = in_progress [OF inv [unfolded M_Step], simplified]
  have runs: "tot m_runs A = 0" "tot m_runs B = 0" using z(1,2) runs_le_pre [of A] runs_le_pre [of B] by simp_all
  show ?thesis
  proof (cases "st_empty S (m_queue s)")
    case True
    then show ?thesis using r M_Step runs by (auto simp: pop_empty m_weight_def m_value_def messages_def)
  next
    case False
    from pop_fewer [OF m_invD(7) [OF inv] False] obtain "is" ms q where
      p: "m_pop S s = Inr ([M_Tell is, M_Handle (Some ms)], s\<lparr>m_queue := q, m_taken := m_taken s @ [ms]\<rparr>)"
      "length is \<le> length (qs_queue q)" "length (qs_queue q) = length (qs_queue (m_queue s))"
      "Suc (sum_list (map length (qs_queue q))) \<le> messages s" by blast
    have "m_value s * Suc (sum_list (map length (qs_queue q))) \<le> m_value s * messages s" using p(4) by (rule mult_le_mono2)
    then show ?thesis using r M_Step runs p z by (auto simp: m_weight_def m_value_def messages_def algebra_simps)
  qed
qed

lemma m_move_weight:
  assumes inv: "m_inv fn s (m_frames s)" and m: "m_can_move x s"
  shows "\<exists>s'. m_step S fn x s = Inr s' \<and> m_inv fn s' (m_frames s') \<and> m_weight S s' (m_frames s') < m_weight S s (m_frames s)"
proof -
  have "m_ok x" using m by (cases x) auto
  from m_step_inv [OF inv this] obtain s' where s': "m_step S fn x s = Inr s'" "m_inv fn s' (m_frames s')" by blast
  have "m_weight S s' (m_frames s') < m_weight S s (m_frames s)"
  proof (cases x)
    case M_Start
    then show ?thesis using s'(1) m by (auto simp: m_weight_def m_value_def messages_def m_spawn_def m_frames_def)
  next
    case (M_Cleared c)
    then have "length (m_owed s) = Suc (length (remove1 c (m_owed s)))"
      using m length_pos_if_in_set [of c "m_owed s"] by (simp add: length_remove1)
    then show ?thesis using s'(1) m M_Cleared by (auto simp: m_weight_def m_value_def messages_def m_spawn_def m_frames_def)
  next
    case (M_Thread k free)
    then obtain f fs where k: "k < length (m_threads s)" "m_threads s ! k = f # fs" using m by (cases "m_threads s ! k") auto
    let ?A = "concat (take k (m_threads s))" and ?B = "fs @ concat (drop (Suc k) (m_threads s))"
    have F: "m_frames s = ?A @ f # ?B"
      unfolding m_frames_def by (subst id_take_nth_drop [OF k(1)]) (simp add: k(2))
    from s'(1) k M_Thread obtain gs s1 where s1: "m_frame_step S fn free f s = Inr (gs, s1)" "s' = s1\<lparr>m_threads := (m_threads s1)[k := gs @ fs]\<rparr>"
      by (auto simp: bindR_def split: sum.splits)
    have "m_frames s' = ?A @ gs @ ?B"
      using k(1) m_step_threads [OF s1(1)] by (simp add: s1(2) m_frames_def upd_conv_take_nth_drop)
    moreover have "m_weight S s' F = m_weight S s1 F" for F
      by (simp add: s1(2) m_weight_def m_value_def messages_def)
    ultimately show ?thesis using m_frame_weight_step [of fn s ?A f ?B, OF inv [unfolded F] s1(1)] F by simp
  qed (use m in simp_all)
  with s' show ?thesis by blast
qed

lemma m_not_stuck: "\<not> m_at_rest s \<Longrightarrow> \<exists>x. m_can_move x s"
proof -
  assume "\<not> m_at_rest s"
  then consider "0 < m_sched s" | k where "k < length (m_threads s)" "m_threads s ! k \<noteq> []" | c where "c \<in> set (m_owed s)"
    by (auto simp: m_at_rest_def list_all_length) (metis list.set_sel(1))
  then show ?thesis
  proof cases
    case 2
    then show ?thesis by (intro exI [of _ "M_Thread k (\<lambda>_. 1)"]) simp
  qed (metis m_can_move.simps)+
qed

sublocale mr: resting_machine "\<lambda>s. m_inv fn s (m_frames s)" m_can_move "m_step S fn" m_at_rest "\<lambda>s. m_weight S s (m_frames s)" for fn
  by unfold_locales (rule m_move_weight, assumption+, rule m_not_stuck)

lemma comes_to_rest:
  assumes "m_inv fn s (m_frames s)"
  shows "\<exists>N. (\<forall>xs. moves m_can_move (m_step S fn) xs s \<longrightarrow> length xs \<le> N) \<and>
    (\<exists>xs s'. moves m_can_move (m_step S fn) xs s \<and> run_ops (m_step S fn) xs s = Inr s' \<and> m_at_rest s')"
  using mr.moves_bounded [OF assms] mr.moves_to_rest [OF assms] by blast

lemma m_inv_init: "m_inv fn (merge_helper n b d) (m_frames (merge_helper n b d))"
proof -
  have "inv [] (qs_init n)" by (rule inv_init)
  then have "took (merge_helper n b d)"
    unfolding took_def by (intro conjI exI [of _ "[]"]) (simp_all add: merge_helper_def qs_init_def)
  then show ?thesis using some(1) by (simp add: m_inv_def m_ctl merge_helper_def m_frames_def)
qed

lemma m_run:
  assumes "list_all m_ok ops"
  shows "\<exists>s. run_ops (m_step S fn) ops (merge_helper n b d) = Inr s \<and> m_inv fn s (m_frames s)"
proof -
  have "safe_machine (\<lambda>s. m_inv fn s (m_frames s)) m_ok (m_step S fn)" by (rule safe_machine.intro) (rule m_step_inv)
  from safe_machine.run_safe [OF this m_inv_init assms] show ?thesis by blast
qed

text \<open>Nothing is left to do: what has been taken has been handled, and with no sources left the process has ended.\<close>

lemma all_arguments:
  assumes t: "took s" and a: "\<forall>i < n. arguments_only (m_in s ! i)" and ms: "ms \<in> set (m_taken s)"
  shows "arguments_only ms"
proof -
  obtain T where T: "m_taken s = map (map snd) T" "list_all (list_all (\<lambda>x. fst x < n)) T"
    "\<forall>i < n. taken_from i T @ qs_queue (m_queue s) ! i = m_in s ! i" using t unfolding took_def by blast
  obtain tp where tp: "tp \<in> set T" "ms = map snd tp" using ms T(1) by auto
  have "\<not> isl m" if m: "(i, m) \<in> set tp" for i m
  proof -
    have "i < n" using T(2) tp(1) m by (fastforce simp: list_all_iff)
    moreover have "m \<in> set (taken_from i T)" using m tp(1) by (force simp: taken_from_def)
    ultimately have "m \<in> set (m_in s ! i)" using T(3) by (metis UnI1 set_append)
    then show ?thesis using a \<open>i < n\<close> by (auto simp: arguments_only_def list_all_iff)
  qed
  then show ?thesis using tp(2) by (auto simp: arguments_only_def list_all_iff)
qed

lemma no_argument_error: "arguments_only ms \<Longrightarrow> find_argument_error ms = None"
proof -
  assume "arguments_only ms"
  then have n: "\<And>m. m \<in> set ms \<Longrightarrow> \<not> (case m of Inl e \<Rightarrow> True | Inr v \<Rightarrow> False)" by (auto simp: arguments_only_def list_all_iff split: sum.splits)
  show ?thesis
  proof (cases "ms = []")
    case True
    then show ?thesis by (simp add: find_argument_error_def tuple_find_def get_i_def)
  next
    case False
    then have "tuple_find (\<lambda>m. case m of Inl e \<Rightarrow> True | Inr v \<Rightarrow> False) ms = length ms"
      using n by (simp add: tuple_find_length)
    then show ?thesis by (simp add: find_argument_error_def)
  qed
qed

lemma rest_results:
  assumes inv: "m_inv fn s (m_frames s)" and rest: "m_at_rest s" and r: "m_ready s" and c: "list_all Not (m_open s)"
    and d: "m_gone s = []" "m_down s = Unique None \<Longrightarrow> m_attached s \<noteq> []" and a: "\<forall>i < n. arguments_only (m_in s ! i)"
  shows "m_final s \<and> \<not> m_process s \<and> st_empty S (m_queue s) \<and> m_sent s = map (\<lambda>ms. fn (map projr ms)) (m_taken s) \<and>
    m_given s = concat (map (\<lambda>m. map (\<lambda>c. (c, m)) (m_attached s)) (m_sent s))"
proof -
  have F: "m_frames s = []" "m_sched s = 0" "m_owed s = []" using rest by (auto simp: m_at_rest_def m_frames_def list_all_iff)
  note D = m_invD [OF inv, unfolded F(1)]
  have ok: "find_argument_error ms = None" if "ms \<in> set (m_taken s)" for ms
    by (rule no_argument_error [OF all_arguments [OF D(7) a that]])
  then have ns: "\<not> m_stalled s" using D(6) by (auto simp: data_m_def)
  have "m_suspend s = 0"
  proof (cases "m_final s")
    case False
    then have "m_process s" using D(4) by (simp add: end_m_def)
    then have "m_down s \<noteq> Unique None" using d(2) D(6) by (auto simp: data_m_def)
    then show ?thesis using D(3) d(1) F(3) by (simp add: flow_m_def m_live_def)
  qed (use D(4) in \<open>simp add: end_m_def\<close>)
  then have run: "\<not> m_running s" using D(2) F(2) ns by (auto simp: once_m_def split: if_splits)
  then have e: "st_empty S (m_queue s)" "\<not> m_close s" using D(5) r by (auto simp: ready_m_def)
  have "filter id (m_open s) = []" using c by (auto simp: list_all_iff filter_empty_conv)
  then have "m_senders s = 0" using D(4) by (simp add: end_m_def)
  then have f: "m_final s" "\<not> m_process s" using D(4) e(2) by (auto simp: end_m_def split: if_splits)
  have "concat (map (call fn) (m_taken s)) = map (\<lambda>ms. fn (map projr ms)) (m_taken s)"
    using ok by (intro concat_singletons) (simp add: call_def)
  then have "m_sent s = map (\<lambda>ms. fn (map projr ms)) (m_taken s)" using D(6) by (simp add: data_m_def)
  then show ?thesis using f e(1) D(6) d(1) by (simp add: data_m_def)
qed

end

section \<open>The combinators\<close>

interpretation zd: draining_strategy zip_with_queue_strategy "Suc n" "all_sources (Suc n)" "\<lambda>s. [0..<Suc n]" for n
  by unfold_locales (auto simp: zip_with_queue_strategy_def all_sizes_def all_sources_def)

interpretation rd: draining_strategy round_robin_queue_strategy "Suc n" "in_turn (Suc n)" "\<lambda>s. [qs_index s]" for n
  by unfold_locales (auto simp: round_robin_queue_strategy_def popped_size_def in_turn_def)

interpretation ud: draining_strategy unordered_queue_strategy "Suc n" "any_source (Suc n)"
  "\<lambda>s. [tuple_find (\<lambda>q. q \<noteq> []) (qs_queue s)]" for n
  by unfold_locales (auto simp: unordered_queue_strategy_def popped_size_def any_source_def)

definition combinators :: "('a, 'e) strategy set" where
  "combinators = {zip_with_queue_strategy, round_robin_queue_strategy, unordered_queue_strategy}"

text \<open>What the strategies have in common.\<close>

lemma combinator:
  assumes "S \<in> combinators" and "0 < n"
  obtains inv sources where "draining_strategy S n inv sources"
proof -
  from assms(2) obtain k where n: "n = Suc k" by (cases n) auto
  show ?thesis using assms(1) that zd.draining_strategy_axioms rd.draining_strategy_axioms ud.draining_strategy_axioms
    unfolding combinators_def n by blast
qed

fun in_function :: "('a, 'v, 'e) m_frame \<Rightarrow> nat" where
  "in_function (M_In_Fun vs) = 1"
| "in_function f = 0"

lemma function_le_pre: "tot in_function F \<le> tot m_pre F"
proof (rule tot_mono)
  show "in_function f \<le> m_pre f" for f :: "('a, 'b, 'c) m_frame" by (cases f) auto
qed

text \<open>
  C37. The calls of one process, whose attached processes answer the question for their free buffer with at most one, as processes with
  the default buffer size do: whatever its sources, attached processes and threads do then, a process built by a combinator never
  dereferences a message, a queue or a function that is not there, at most one thread is in its function, it has never work left
  for a task that has been marked as the last one, and when it is not running although its receiver is ready,
  and no thread is about to start it, then its strategy finds nothing to take and no close is pending: no wake-up is lost.
\<close>
theorem merge_serial:
  assumes "S \<in> combinators" and "0 < n" and "list_all m_ok ops"
  shows "\<exists>s. run_ops (m_step S fn) ops (merge_helper n b d) = Inr s \<and> tot in_function (m_frames s) \<le> 1 \<and>
    (m_final s \<longrightarrow> st_empty S (m_queue s) \<and> \<not> m_close s) \<and>
    (m_ready s \<and> \<not> m_running s \<and> M_Check_Start \<notin> set (m_frames s) \<longrightarrow> st_empty S (m_queue s) \<and> \<not> m_close s)"
proof -
  from combinator [OF assms(1,2)] obtain iv so where S: "draining_strategy S n iv so" .
  note Q = draining_strategy.axioms(1) [OF S]
  from draining_strategy.m_run [OF S assms(3), of fn b d] obtain s where
    s: "run_ops (m_step S fn) ops (merge_helper n b d) = Inr s" "queue_strategy.m_inv S n iv fn s (m_frames s)" by blast
  note D = queue_strategy.m_invD [OF Q s(2)]
  have "tot in_function (m_frames s) \<le> 1" using D(2) function_le_pre [of "m_frames s"] by (auto simp: once_m_def split: if_splits)
  moreover have "m_final s \<longrightarrow> st_empty S (m_queue s) \<and> \<not> m_close s" using D(4) by (auto simp: end_m_def split: if_splits)
  moreover have "tot m_starting F = 0" if "M_Check_Start \<notin> set F" for F :: "('a, 'c, 'b) m_frame list"
    using that
  proof (induction F)
    case (Cons f F)
    then show ?case by (cases f) auto
  qed simp
  then have "m_ready s \<and> \<not> m_running s \<and> M_Check_Start \<notin> set (m_frames s) \<longrightarrow> st_empty S (m_queue s) \<and> \<not> m_close s"
    using D(5) by (auto simp: ready_m_def)
  ultimately show ?thesis using s(1) by blast
qed

text \<open>
  A process built by a combinator comes to rest: from every state there is a bound on the number of moves that the executor,
  the threads and the attached processes can still make before the program does something again, and a schedule that ends with
  nothing left to do.
\<close>
theorem merge_comes_to_rest:
  assumes "S \<in> combinators" and "0 < n" and "list_all m_ok ops" and "run_ops (m_step S fn) ops (merge_helper n b d) = Inr s"
  shows "\<exists>N. (\<forall>xs. moves m_can_move (m_step S fn) xs s \<longrightarrow> length xs \<le> N) \<and>
    (\<exists>xs s'. moves m_can_move (m_step S fn) xs s \<and> run_ops (m_step S fn) xs s = Inr s' \<and> m_at_rest s')"
proof -
  from combinator [OF assms(1,2)] obtain iv so where S: "draining_strategy S n iv so" .
  have i: "queue_strategy.m_inv S n iv fn s (m_frames s)" using draining_strategy.m_run [OF S assms(3), of fn b d] assms(4) by auto
  show ?thesis by (rule draining_strategy.comes_to_rest [OF S i])
qed

section \<open>What has been done in the end\<close>

text \<open>
  At rest, with the receiver ready, every source closed, no exception among the messages of the \<open>n\<close> sources, and with every attached
  process still there; a process with a move-only result has one attached.
\<close>

definition m_complete :: "nat \<Rightarrow> ('a, 'v, 'e) merging \<Rightarrow> bool" where
  "m_complete n s \<longleftrightarrow> m_at_rest s \<and> m_ready s \<and> list_all Not (m_open s) \<and> m_gone s = [] \<and>
     (m_down s = Unique None \<longrightarrow> m_attached s \<noteq> []) \<and> list_all (\<lambda>i. arguments_only (m_in s ! i)) [0..<n]"

text \<open>The process has ended and every attached process has been sent every result, in order.\<close>

definition m_delivered :: "('a, 'v, 'e) merging \<Rightarrow> bool" where
  "m_delivered s \<longleftrightarrow> m_final s \<and> \<not> m_process s \<and> m_given s = concat (map (\<lambda>m. map (\<lambda>c. (c, m)) (m_attached s)) (m_sent s))"

context draining_strategy
begin

lemma complete_results:
  assumes ok: "list_all m_ok ops" and run: "run_ops (m_step S fn) ops (merge_helper n b d) = Inr s" and c: "m_complete n s"
  shows "m_delivered s" "st_empty S (m_queue s)" "m_sent s = map (\<lambda>ms. fn (map projr ms)) (m_taken s)" "took s"
proof -
  have inv: "m_inv fn s (m_frames s)" using m_run [OF ok, of fn b d] run by auto
  have "m_at_rest s" "m_ready s" "list_all Not (m_open s)" "m_gone s = []" "m_down s = Unique None \<Longrightarrow> m_attached s \<noteq> []"
    "\<forall>i < n. arguments_only (m_in s ! i)" using c by (auto simp: m_complete_def list_all_iff)
  from rest_results [OF inv this] show "m_delivered s" "st_empty S (m_queue s)" "m_sent s = map (\<lambda>ms. fn (map projr ms)) (m_taken s)"
    by (simp_all add: m_delivered_def)
  show "took s" by (rule m_invD(7) [OF inv])
qed

end

text \<open>
  C27. \<open>zip_with\<close>, with attached processes that have the default buffer size and are still there, a receiver that is ready and no exception among the messages: in
  every such execution, once every source has closed and nothing is left to do, the process has ended, its k-th result is
  that of the function on the k-th messages of the sources, there are as many results as the shortest source has messages,
  and every attached process has been sent all of them, in order.
\<close>
theorem zip_with_results:
  assumes "0 < n" and "list_all m_ok ops" and "run_ops (zip_with_channel fn) ops (merge_helper n b d) = Inr s" and "m_complete n s"
  shows "m_delivered s \<and> m_sent s =
    map (\<lambda>k. fn (map (\<lambda>i. projr (m_in s ! i ! k)) [0..<n])) [0..<Min ((\<lambda>i. length (m_in s ! i)) ` {..<n})]"
proof -
  from assms(1) obtain k where n: "n = Suc k" by (cases n) auto
  note R = zd.complete_results [of ops fn k b d s, folded n, OF assms(2) assms(3) [unfolded zip_with_channel_def] assms(4)]
  obtain T where T: "m_taken s = map (map snd) T" "all_sources n (map (map fst) T) (m_queue s)"
    "\<forall>i < n. taken_from i T @ qs_queue (m_queue s) ! i = m_in s ! i" using R(4) unfolding zq.took_def n by blast
  have f: "list_all (\<lambda>t. map fst t = [0..<n]) T" and l: "length (qs_queue (m_queue s)) = n"
    using T(2) by (simp_all add: all_sources_def list_all_iff)
  have in_eq: "map (\<lambda>t. snd (t ! i)) T @ qs_queue (m_queue s) ! i = m_in s ! i" if "i < n" for i
    using T(3) [rule_format, OF that] taken_from_all [OF f that] by simp
  have len: "length T + length (qs_queue (m_queue s) ! i) = length (m_in s ! i)" if "i < n" for i
    using arg_cong [OF in_eq [OF that], of length] by simp
  obtain j where j: "j < n" "qs_queue (m_queue s) ! j = []"
    using R(2) l tuple_find_length [of "\<lambda>q. q = []" "qs_queue (m_queue s)"] assms(1)
    by (auto simp: zip_with_queue_strategy_def zip_empty_def all_set_conv_all_nth)
  have m: "Min ((\<lambda>i. length (m_in s ! i)) ` {..<n}) = length T"
  proof (rule Min_eqI)
    show "length T \<in> (\<lambda>i. length (m_in s ! i)) ` {..<n}" using len [OF j(1)] j by (auto simp: image_iff)
    show "length T \<le> y" if "y \<in> (\<lambda>i. length (m_in s ! i)) ` {..<n}" for y using len that by fastforce
  qed simp
  have "map projr (map snd (T ! k)) = map (\<lambda>i. projr (m_in s ! i ! k)) [0..<n]" if k: "k < length T" for k
  proof (rule nth_equalityI)
    have "map fst (T ! k) = [0..<n]" using f k by (simp add: list_all_length)
    then have tl: "length (T ! k) = n" by (metis length_map length_upt diff_zero)
    then show "length (map projr (map snd (T ! k))) = length (map (\<lambda>i. projr (m_in s ! i ! k)) [0..<n])" by simp
    fix i assume "i < length (map projr (map snd (T ! k)))"
    then have i: "i < n" using tl by simp
    have "m_in s ! i ! k = snd (T ! k ! i)" using k by (simp add: in_eq [OF i, symmetric] nth_append)
    then show "map projr (map snd (T ! k)) ! i = map (\<lambda>i. projr (m_in s ! i ! k)) [0..<n] ! i" using i tl by simp
  qed
  then have "m_sent s = map (\<lambda>k. fn (map (\<lambda>i. projr (m_in s ! i ! k)) [0..<n])) [0..<length T]"
    unfolding R(3) T(1) by (intro nth_equalityI) (simp_all add: comp_def)
  then show ?thesis using R(1) m by simp
qed

text \<open>
  \<open>merge_channel\<close> with \<open>round_robin\<close>: in every execution, once every source has closed and nothing is left to do, the k-th result is that
  of the function on message \<open>k div n\<close> of source \<open>k mod n\<close>, up to the first message that is missing: messages of other
  sources behind it are dropped, although they have arrived.
\<close>
theorem round_robin_results:
  assumes "0 < n" and "list_all m_ok ops" and "run_ops (merge_round_robin fn) ops (merge_helper n b d) = Inr s" and "m_complete n s"
  shows "m_delivered s \<and>
    (\<forall>k < length (m_sent s). k div n < length (m_in s ! (k mod n)) \<and> m_sent s ! k = fn [projr (m_in s ! (k mod n) ! (k div n))]) \<and>
    length (m_in s ! (length (m_sent s) mod n)) = length (m_sent s) div n"
proof -
  from assms(1) obtain k where n: "n = Suc k" by (cases n) auto
  note R = rd.complete_results [of ops fn k b d s, folded n, OF assms(2) assms(3) [unfolded merge_round_robin_def] assms(4)]
  obtain T where T: "m_taken s = map (map snd) T" "in_turn n (map (map fst) T) (m_queue s)"
    "\<forall>i < n. taken_from i T @ qs_queue (m_queue s) ! i = m_in s ! i" using R(4) unfolding rq.took_def n by blast
  have f: "\<forall>k < length T. map fst (T ! k) = [k mod n]" using T(2) by (simp add: in_turn_def)
  note D = taken_in_turn [OF f assms(1)]
  have len: "length (m_sent s) = length T" by (simp add: R(3) T(1))
  have "k div n < length (m_in s ! (k mod n)) \<and> m_sent s ! k = fn [projr (m_in s ! (k mod n) ! (k div n))]" if "k < length T" for k
  proof -
    have "k mod n < n" using assms(1) by simp
    then have "m_in s ! (k mod n) = taken_from (k mod n) T @ qs_queue (m_queue s) ! (k mod n)" using T(3) by simp
    moreover have "k div n < length (taken_from (k mod n) T)" "map snd (T ! k) = [taken_from (k mod n) T ! (k div n)]" using D that by blast+
    ultimately show ?thesis using that by (simp add: R(3) T(1) nth_append)
  qed
  moreover have "length (m_in s ! (length T mod n)) = length T div n"
  proof -
    have i: "qs_index (m_queue s) = length T mod n" "length T mod n < n" "length (qs_queue (m_queue s)) = n"
      using T(2) assms(1) by (simp_all add: in_turn_def)
    then have "qs_queue (m_queue s) ! (length T mod n) = []" using R(2)
      by (simp add: round_robin_queue_strategy_def rr_empty_def get_i_def)
    then have "m_in s ! (length T mod n) = taken_from (length T mod n) T" using T(3) i(2) by (metis append_Nil2)
    then show ?thesis using D i(2) assms(1) by (simp add: turns_own)
  qed
  ultimately show ?thesis using R(1) len by simp
qed

text \<open>
  \<open>merge_channel\<close> with \<open>unordered\<close>: in every execution, once every source has closed and nothing is left to do, the results are
  those of the function on all messages of all sources, each once, those of one source in order.
\<close>
theorem unordered_results:
  assumes "0 < n" and "list_all m_ok ops" and "run_ops (merge_unordered fn) ops (merge_helper n b d) = Inr s" and "m_complete n s"
  shows "m_delivered s \<and> (\<exists>xs. m_sent s = map (\<lambda>x. fn [projr (snd x)]) xs \<and> (\<forall>i < n. map snd (filter (\<lambda>x. fst x = i) xs) = m_in s ! i) \<and>
    (\<forall>x \<in> set xs. fst x < n))"
proof -
  from assms(1) obtain k where n: "n = Suc k" by (cases n) auto
  note R = ud.complete_results [of ops fn k b d s, folded n, OF assms(2) assms(3) [unfolded merge_unordered_def] assms(4)]
  obtain T where T: "m_taken s = map (map snd) T" "any_source n (map (map fst) T) (m_queue s)" "list_all (list_all (\<lambda>x. fst x < n)) T"
    "\<forall>i < n. taken_from i T @ qs_queue (m_queue s) ! i = m_in s ! i" using R(4) unfolding uq.took_def n by blast
  have one: "list_all (\<lambda>t. length t = 1) T" using T(2) by (simp add: any_source_def list_all_iff)
  then have "map (map snd) T = map (\<lambda>x. [snd x]) (concat T)" by (induction T) (auto simp: length_Suc_conv)
  then have "m_sent s = map (\<lambda>x. fn [projr (snd x)]) (concat T)" by (simp add: R(3) T(1) comp_def)
  moreover have "qs_queue (m_queue s) ! i = []" if "i < n" for i
    using R(2) T(2) that tuple_find_length [of "\<lambda>q. q \<noteq> []" "qs_queue (m_queue s)"]
    by (auto simp: unordered_queue_strategy_def unordered_empty_def any_source_def all_set_conv_all_nth)
  then have "\<forall>i < n. map snd (filter (\<lambda>x. fst x = i) (concat T)) = m_in s ! i" using T(4) by (simp add: taken_from_def)
  moreover have "\<forall>x \<in> set (concat T). fst x < n" using T(3) by (auto simp: list_all_iff)
  ultimately show ?thesis using R(1) by blast
qed

section \<open>Concrete executions\<close>

definition add_all :: "nat list \<Rightarrow> nat + nat" where
  "add_all vs = Inr (sum_list vs)"

definition turn :: "nat \<Rightarrow> nat \<Rightarrow> (nat, nat) m_op list" where
  "turn n k = replicate n (M_Thread k (\<lambda>_. 1))"

text \<open>Two sources; the message 2, to which the other source has no counterpart, is dropped.\<close>

definition zip_ops :: "(nat, nat) m_op list" where
  "zip_ops = [M_Attach 0, M_Ready, M_Arrive 0 (Inr 1), M_Arrive 1 (Inr 10), M_Arrive 0 (Inr 2), M_Close 0, M_Close 1] @
     turn 1 0 @ turn 1 1 @ [M_Start] @ turn 1 5 @ turn 8 6 @ [M_Cleared 0] @ turn 3 6 @ turn 3 7 @ [M_Start] @ turn 5 8"

definition robin_ops :: "(nat, nat) m_op list" where
  "robin_ops = [M_Attach 0, M_Ready, M_Arrive 0 (Inr 1), M_Arrive 1 (Inr 10), M_Arrive 1 (Inr 20), M_Close 0, M_Close 1] @
     turn 1 0 @ turn 1 1 @ [M_Start] @ turn 1 5 @ turn 8 6 @ [M_Cleared 0] @ turn 3 6 @ turn 3 7 @
     [M_Start] @ turn 7 8 @ [M_Cleared 0] @ turn 3 8 @ turn 3 9 @ [M_Start] @ turn 5 10"

definition unordered_ops :: "(nat, nat) m_op list" where
  "unordered_ops = [M_Attach 0, M_Ready, M_Arrive 1 (Inr 10), M_Arrive 0 (Inr 1), M_Close 0, M_Close 1] @
     turn 1 0 @ turn 1 1 @ [M_Start] @ turn 1 4 @ turn 8 5 @ [M_Cleared 0] @ turn 3 5 @ turn 3 6 @
     [M_Start] @ turn 8 7 @ [M_Cleared 0] @ turn 3 7 @ turn 3 8 @ [M_Start] @ turn 5 9"

lemma concrete_ok: "list_all m_ok zip_ops" "list_all m_ok robin_ops" "list_all m_ok unordered_ops"
  by (auto simp: zip_ops_def robin_ops_def unordered_ops_def turn_def list_all_iff)

theorem zip_with_results_witness:
  "\<exists>s :: (nat, nat, nat) merging. run_ops (zip_with_channel add_all) zip_ops (merge_helper 2 1 (Unique None)) = Inr s \<and> m_sent s = [Inr 11]"
proof -
  have "case run_ops (zip_with_channel add_all) zip_ops (merge_helper 2 1 (Unique None)) of Inl e \<Rightarrow> False
    | Inr s \<Rightarrow> m_complete 2 s \<and> m_in s = [[Inr 1, Inr 2], [Inr 10]]" by code_simp
  then obtain s :: "(nat, nat, nat) merging" where
    s: "run_ops (zip_with_channel add_all) zip_ops (merge_helper 2 1 (Unique None)) = Inr s" "m_complete 2 s" "m_in s = [[Inr 1, Inr 2], [Inr 10]]"
    by (auto split: sum.splits)
  have "{..<2 :: nat} = {0, 1}" by auto
  then have "Min ((\<lambda>i. length (m_in s ! i)) ` {..<2}) = 1" by (simp add: s(3))
  then show ?thesis using zip_with_results [OF _ concrete_ok(1) s(1,2)] s(1,3) by (auto simp: add_all_def upt_rec)
qed

theorem round_robin_results_witness:
  "\<exists>s :: (nat, nat, nat) merging. run_ops (merge_round_robin add_all) robin_ops (merge_helper 2 1 (Copyable [])) = Inr s \<and>
     m_in s ! (length (m_sent s) mod 2) = [Inr 1] \<and> length (m_sent s) = 2"
proof -
  have "case run_ops (merge_round_robin add_all) robin_ops (merge_helper 2 1 (Copyable [])) of Inl e \<Rightarrow> False
    | Inr s \<Rightarrow> m_complete 2 s \<and> m_in s = [[Inr 1], [Inr 10, Inr 20]] \<and> length (m_sent s) mod 2 = 0" by code_simp
  then obtain s :: "(nat, nat, nat) merging" where
    s: "run_ops (merge_round_robin add_all) robin_ops (merge_helper 2 1 (Copyable [])) = Inr s" "m_complete 2 s"
    "m_in s = [[Inr 1], [Inr 10, Inr 20]]" "length (m_sent s) mod 2 = 0"
    by (auto split: sum.splits)
  have "length (m_in s ! (length (m_sent s) mod 2)) = length (m_sent s) div 2"
    using round_robin_results [OF _ concrete_ok(2) s(1,2)] by simp
  then have "length (m_sent s) div 2 = 1" using s(3,4) by simp
  then have "length (m_sent s) = 2" using s(4) by presburger
  then show ?thesis using s(1,3) by simp
qed

theorem unordered_results_witness:
  "\<exists>s :: (nat, nat, nat) merging. run_ops (merge_unordered add_all) unordered_ops (merge_helper 2 1 (Copyable [])) = Inr s \<and>
     m_delivered s \<and> (\<exists>xs. m_sent s = map (\<lambda>x. add_all [projr (snd x)]) xs \<and>
       map snd (filter (\<lambda>x. fst x = (0::nat)) xs) = [Inr 1 :: nat + nat] \<and> map snd (filter (\<lambda>x. fst x = 1) xs) = [Inr 10])"
proof -
  have "case run_ops (merge_unordered add_all) unordered_ops (merge_helper 2 1 (Copyable [])) of Inl e \<Rightarrow> False
    | Inr s \<Rightarrow> m_complete 2 s \<and> m_in s = [[Inr 1], [Inr 10]]" by code_simp
  then obtain s :: "(nat, nat, nat) merging" where
    s: "run_ops (merge_unordered add_all) unordered_ops (merge_helper 2 1 (Copyable [])) = Inr s" "m_complete 2 s" "m_in s = [[Inr 1], [Inr 10]]"
    by (auto split: sum.splits)
  from unordered_results [OF _ concrete_ok(3) s(1,2)] obtain xs where
    x: "m_delivered s" "m_sent s = map (\<lambda>x. add_all [projr (snd x)]) xs" "\<forall>i < 2. map snd (filter (\<lambda>x. fst x = i) xs) = m_in s ! i" by auto
  have "map snd (filter (\<lambda>x. fst x = 0) xs) = [Inr 1]" "map snd (filter (\<lambda>x. fst x = 1) xs) = [Inr 10]"
    using x(3) [rule_format, of 0] x(3) [rule_format, of 1] by (simp_all add: s(3))
  then show ?thesis using x(1,2) s(1) by (intro exI [of _ s] conjI exI [of _ xs]) assumption+
qed

theorem merge_serial_witness:
  "\<exists>s :: (nat, nat, nat) merging. run_ops (m_step zip_with_queue_strategy add_all) zip_ops (merge_helper 2 1 (Unique None)) = Inr s \<and>
     tot in_function (m_frames s) \<le> 1"
  using merge_serial [of zip_with_queue_strategy 2 zip_ops add_all 1 "Unique None"] concrete_ok(1) by (auto simp: combinators_def)

theorem merge_comes_to_rest_witness:
  "\<exists>s :: (nat, nat, nat) merging. run_ops (m_step zip_with_queue_strategy add_all) (take 7 zip_ops) (merge_helper 2 1 (Unique None)) = Inr s \<and>
     (\<exists>xs s'. moves m_can_move (m_step zip_with_queue_strategy add_all) xs s \<and>
        run_ops (m_step zip_with_queue_strategy add_all) xs s = Inr s' \<and> m_at_rest s')"
proof -
  have z: "zip_with_queue_strategy \<in> combinators" by (simp add: combinators_def)
  have ok: "list_all m_ok (take 7 zip_ops)" using concrete_ok(1) by (meson in_set_takeD list_all_iff)
  from zd.m_run [OF ok, of add_all 1 1 "Unique None"] obtain s :: "(nat, nat, nat) merging" where
    s: "run_ops (m_step zip_with_queue_strategy add_all) (take 7 zip_ops) (merge_helper 2 1 (Unique None)) = Inr s" by (auto simp: numeral_2_eq_2)
  from merge_comes_to_rest [OF z zero_less_numeral ok s] s show ?thesis by blast
qed

section \<open>Nobody attached\<close>

text \<open>A process with a move-only result and no receiver: after its first broadcast it waits for one call of \<open>clear_to_send\<close> too many.\<close>

definition lonely :: "('a, 'v, 'e) merging \<Rightarrow> ('a, 'v, 'e) m_frame list \<Rightarrow> bool" where
  "lonely s F \<longleftrightarrow> m_down s = Unique None \<and> list_all (\<lambda>f. case f of M_Suspend k b m \<Rightarrow> b | _ \<Rightarrow> True) F \<and>
     (m_sent s = [] \<or> length (m_sent s) = 1 \<and> Suc (length (m_owed s) + tot (m_acks (m_gone s)) F) \<le> m_suspend s)"

context queue_strategy
begin

lemma lonely_frame:
  assumes inv: "m_inv fn s (A @ f # B)" and l: "lonely s (A @ f # B)" and r: "m_frame_step S fn free f s = Inr (gs, s')"
  shows "lonely s' (A @ gs @ B)"
proof (cases f)
  case (M_Suspend k b m)
  note z = in_progress [OF inv [unfolded M_Suspend], simplified]
  have "k = 1" "b" "m_sent s = []" using m_invD(1) [OF inv] l z(4) by (auto simp: M_Suspend lonely_def)
  then show ?thesis using r l z by (auto simp: M_Suspend lonely_def)
next
  case M_Step
  then show ?thesis using r l by (auto simp: lonely_def m_pop_def bindR_def split: sum.splits)
next
  case (M_Tell "is")
  then show ?thesis using r l by (cases "is") (auto simp: lonely_def)
next
  case (M_Handle h)
  then show ?thesis using r l by (auto simp: lonely_def m_handle_def split: option.splits if_splits)
next
  case (M_Sending cs m)
  then show ?thesis using r l by (auto simp: lonely_def m_sending_def split: list.splits if_splits)
next
  case M_Cts
  then show ?thesis using r l by (auto simp: lonely_def)
next
  case M_Cts2
  then show ?thesis using r l by (auto simp: lonely_def m_clear_def Let_def split: if_splits)
next
  case M_Task_Done
  then show ?thesis using r l by (auto simp: lonely_def m_task_done_def Let_def split: if_splits)
next
  case M_Finalize
  then show ?thesis using r l by (auto simp: lonely_def m_finalize_def)
next
  case M_Close_Queue
  then show ?thesis using r l by (auto simp: lonely_def m_close_queue_def m_start_def split: if_splits)
next
  case M_Check_Start
  then show ?thesis using r l by (auto simp: lonely_def m_check_start_def m_start_def split: if_splits)
qed (use r l in \<open>auto simp: lonely_def\<close>)

lemma lonely_spawn: "lonely (m_spawn fs s) F = lonely s F"
  by (simp add: lonely_def m_spawn_def)

lemma lonely_step:
  assumes inv: "m_inv fn s (m_frames s)" and ok: "m_ok x" and l: "lonely s (m_frames s)" and a: "\<And>c. x \<noteq> M_Attach c"
    and r: "m_step S fn x s = Inr s'"
  shows "lonely s' (m_frames s')"
proof (cases x)
  case (M_Thread k free)
  show ?thesis
  proof (cases "k < length (m_threads s) \<and> m_threads s ! k \<noteq> []")
    case True
    then obtain f fs where k: "k < length (m_threads s)" "m_threads s ! k = f # fs" by (meson neq_Nil_conv)
    let ?A = "concat (take k (m_threads s))" and ?B = "fs @ concat (drop (Suc k) (m_threads s))"
    have F: "m_frames s = ?A @ f # ?B"
      unfolding m_frames_def by (subst id_take_nth_drop [OF k(1)]) (simp add: k(2))
    from r k M_Thread obtain gs s1 where s1: "m_frame_step S fn free f s = Inr (gs, s1)" "s' = s1\<lparr>m_threads := (m_threads s1)[k := gs @ fs]\<rparr>"
      by (auto simp: bindR_def split: sum.splits)
    have "m_frames s' = ?A @ gs @ ?B"
      using k(1) m_step_threads [OF s1(1)] by (simp add: s1(2) m_frames_def upd_conv_take_nth_drop)
    moreover have "lonely s' H = lonely s1 H" for H by (simp add: s1(2) lonely_def)
    ultimately show ?thesis using lonely_frame [of fn s ?A f ?B free gs s1] inv l s1(1) F by simp
  qed (use r l M_Thread in \<open>auto split: if_splits\<close>)
next
  case (M_Gone c)
  then show ?thesis using r l acks_gone [of c "m_gone s" "m_frames s"] by (auto simp: lonely_def)
next
  case M_Ready
  then show ?thesis using r l by (auto simp: m_set_ready_def Let_def lonely_def m_spawn_def m_frames_def split: if_splits)
next
  case (M_Arrive i m)
  then show ?thesis using r l by (auto simp: m_enqueue_def m_start_def lonely_def m_spawn_def m_frames_def split: if_splits)
next
  case (M_Close i)
  then show ?thesis using r l by (auto simp: m_remove_sender_def Let_def lonely_def m_spawn_def m_frames_def split: if_splits)
next
  case (M_Cleared c)
  then have "c \<in> set (m_owed s) \<Longrightarrow> length (m_owed s) = Suc (length (remove1 c (m_owed s)))"
    using length_pos_if_in_set [of c "m_owed s"] by (simp add: length_remove1)
  then show ?thesis using r l M_Cleared by (auto simp: lonely_def m_spawn_def m_frames_def split: if_splits)
next
  case M_Start
  then show ?thesis using r l by (auto simp: lonely_def m_spawn_def m_frames_def split: if_splits)
qed (use a in simp)

end

text \<open>
  A process with a move-only result to which nothing is attached broadcasts at most one result, whatever its sources send: its
  \<open>downstream\<close> has size 1 although it is empty, so that the process waits for a call of \<open>clear_to_send\<close> that nobody makes.
\<close>
theorem unattached_stalls:
  assumes "S \<in> combinators" and "0 < n" and "list_all m_ok ops" and "list_all (\<lambda>x. \<forall>c. x \<noteq> M_Attach c) ops"
    and "run_ops (m_step S fn) ops (merge_helper n b (Unique None)) = Inr s"
  shows "length (m_sent s) \<le> 1"
proof -
  from combinator [OF assms(1,2)] obtain iv so where S: "draining_strategy S n iv so" .
  note Q = draining_strategy.axioms(1) [OF S]
  let ?ok = "\<lambda>x :: ('a, 'b) m_op. m_ok x \<and> (\<forall>c. x \<noteq> M_Attach c)"
  let ?inv = "\<lambda>s. queue_strategy.m_inv S n iv fn s (m_frames s) \<and> lonely s (m_frames s)"
  have "safe_machine ?inv ?ok (m_step S fn)"
  proof
    fix s x assume a: "?inv s" "?ok x"
    from queue_strategy.m_step_inv [OF Q, of fn s x] a obtain s' where
      "m_step S fn x s = Inr s'" "queue_strategy.m_inv S n iv fn s' (m_frames s')" by blast
    moreover from this have "lonely s' (m_frames s')" using queue_strategy.lonely_step [OF Q, of fn s x s'] a by blast
    ultimately show "\<exists>s'. m_step S fn x s = Inr s' \<and> ?inv s'" by blast
  qed
  moreover have "lonely (merge_helper n b (Unique None)) (m_frames (merge_helper n b (Unique None)))"
    by (simp add: lonely_def merge_helper_def m_frames_def)
  then have "?inv (merge_helper n b (Unique None))" using draining_strategy.m_inv_init [OF S, of fn b "Unique None"] by blast
  moreover have "list_all ?ok ops" using assms(3,4) by (simp add: list_all_iff)
  ultimately have "\<exists>s'. run_ops (m_step S fn) ops (merge_helper n b (Unique None)) = Inr s' \<and> ?inv s'"
    by (rule safe_machine.run_safe)
  then show ?thesis using assms(5) by (auto simp: lonely_def)
qed

text \<open>The same sources, with a copyable result and with a move-only one: two results and one.\<close>

definition unattached_ops :: "(nat, nat) m_op list" where
  "unattached_ops = [M_Ready, M_Arrive 0 (Inr 1), M_Arrive 1 (Inr 10), M_Close 0, M_Close 1] @
     turn 1 0 @ turn 1 1 @ [M_Start] @ turn 1 4 @ turn 11 5 @ [M_Start] @ turn 11 6 @ [M_Start] @ turn 5 7"

theorem unattached_stalls_witness:
  "\<exists>s s' :: (nat, nat, nat) merging. run_ops (m_step unordered_queue_strategy add_all) unattached_ops (merge_helper 2 1 (Unique None)) = Inr s \<and>
     run_ops (m_step unordered_queue_strategy add_all) unattached_ops (merge_helper 2 1 (Copyable [])) = Inr s' \<and>
     length (m_sent s) \<le> 1 \<and> length (m_sent s') = 2"
proof -
  have c: "case run_ops (m_step unordered_queue_strategy add_all) unattached_ops (merge_helper 2 1 (Copyable [])) of Inl e \<Rightarrow> False
    | Inr s \<Rightarrow> length (m_sent (s :: (nat, nat, nat) merging)) = 2" by code_simp
  have "case run_ops (m_step unordered_queue_strategy add_all) unattached_ops (merge_helper 2 1 (Unique None)) of Inl e \<Rightarrow> False
    | Inr s \<Rightarrow> length (m_sent (s :: (nat, nat, nat) merging)) = 1" by code_simp
  then obtain s :: "(nat, nat, nat) merging" where
    s: "run_ops (m_step unordered_queue_strategy add_all) unattached_ops (merge_helper 2 1 (Unique None)) = Inr s"
    by (auto split: sum.splits)
  have "list_all m_ok unattached_ops" "list_all (\<lambda>x. \<forall>c. x \<noteq> M_Attach c) unattached_ops"
    by (auto simp: unattached_ops_def turn_def list_all_iff)
  from unattached_stalls [OF _ _ this s] have "length (m_sent s) \<le> 1" by (simp add: combinators_def)
  with s c show ?thesis by (auto split: sum.splits)
qed

end
