(* ===== verification/Future_Graph.thy ===== *)
theory Future_Graph
  imports Prelude
begin

text \<open>
  Futures built from futures (\<^verbatim>\<open>deps/clean_stlab/stlab/concurrency/future.hpp\<close>): \<open>package\<close>, \<open>async\<close>, \<open>then\<close>, \<open>recover\<close>,
  \<open>detach\<close>, and the life of the shared states. A continuation holds the future it continues; that future
  holds the packaged task of the continuation only weakly, as does an executor: a future that the program drops is
  cancelled. The steps of one shared state are in theory \<open>Future_Shared\<close>; here a call of a packaged task has two steps: the first calls
  the function, writes the outcome and hands the continuations to their executors, which run the tasks they
  hold in any order; the second ends the call and gives up the function. Other calls may come in between, for
  example from a continuation. A function is taken not to call its own packaged task before it returns.
\<close>

section \<open>State\<close>

text \<open>
  What a shared state was made from: a function given to \<open>async\<close>, which closes over its arguments and has the
  outcome it will have; a function given to \<open>package\<close>, whose outcome depends on the arguments of the call; \<open>then\<close> or
  \<open>recover\<close> on another future.
\<close>

datatype ('v, 'e) origin = Task_Of "'e + 'v" | Packaged | Then_Of nat "'v \<Rightarrow> 'e + 'v" | Recover_Of nat "'e + 'v \<Rightarrow> 'e + 'v"

fun parent :: "('v, 'e) origin \<Rightarrow> nat option" where
  "parent (Task_Of r) = None"
| "parent Packaged = None"
| "parent (Then_Of p f) = Some p"
| "parent (Recover_Of p f) = Some p"

text \<open>
  \<open>fn_result\<close> is the result or exception of a ready state. \<open>fn_f\<close> says that \<open>_f\<close> is still there, \<open>fn_running\<close> counts the calls of
  \<open>operator()\<close> that have handed over the continuations and not yet ended, which hold the state, \<open>fn_promise\<close> says that the
  program holds the packaged task, \<open>fn_handles\<close> counts the future objects of the program, \<open>fn_hold\<close> says that
  \<open>detach\<close> has stored a reference to the state in the state itself.
\<close>

record ('v, 'e) fnode =
  fn_origin :: "('v, 'e) origin"
  fn_result :: "('e + 'v) option"
  fn_then :: "nat list"
  fn_f :: bool
  fn_running :: nat
  fn_promise :: bool
  fn_handles :: nat
  fn_hold :: bool

text \<open>
  The states made so far, the tasks the executors hold, the functions called so far, and the outcomes written so far, by calls and by
  \<open>set_exception\<close>.
\<close>

record ('v, 'e) fgraph =
  fg_nodes :: "('v, 'e) fnode list"
  fg_queue :: "nat list"
  fg_calls :: "nat list"
  fg_settled :: "(nat \<times> ('e + 'v)) list"

abbreviation fg_size :: "('v, 'e) fgraph \<Rightarrow> nat" where
  "fg_size s \<equiv> length (fg_nodes s)"

abbreviation fg :: "('v, 'e) fgraph \<Rightarrow> nat \<Rightarrow> ('v, 'e) fnode" where
  "fg s u \<equiv> fg_nodes s ! u"

definition fg_init :: "('v, 'e) fgraph" where
  "fg_init = \<lparr>fg_nodes = [], fg_queue = [], fg_calls = [], fg_settled = []\<rparr>"

definition new_node :: "('v, 'e) origin \<Rightarrow> bool \<Rightarrow> ('v, 'e) fnode" where
  "new_node k promise = \<lparr>fn_origin = k, fn_result = None, fn_then = [], fn_f = True, fn_running = 0, fn_promise = promise,
     fn_handles = 1, fn_hold = False\<rparr>"

section \<open>Lifetime\<close>

text \<open>
  A state lives while the program holds a future of it, while it holds itself, while a call of its packaged task has not ended, or
  while a continuation that has not ended holds it. Continuations are made after what they continue.
\<close>

definition anchored :: "('v, 'e) fnode \<Rightarrow> bool" where
  "anchored n \<longleftrightarrow> 0 < fn_handles n \<or> fn_hold n \<and> fn_result n = None \<or> 0 < fn_running n"

function alive :: "('v, 'e) fgraph \<Rightarrow> nat \<Rightarrow> bool" where
  "alive s u = (anchored (fg s u) \<or> list_ex (\<lambda>c. parent (fn_origin (fg s c)) = Some u \<and> fn_f (fg s c) \<and> alive s c) [Suc u..<fg_size s])"
  by auto
termination by (relation "measure (\<lambda>(s, u). fg_size s - u)") auto

declare alive.simps [simp del]

section \<open>Operations\<close>

definition fg_set :: "nat \<Rightarrow> ('v, 'e) fnode \<Rightarrow> ('v, 'e) fgraph \<Rightarrow> ('v, 'e) fgraph" where
  "fg_set u n s = s\<lparr>fg_nodes := (fg_nodes s)[u := n]\<rparr>"

definition add_future :: "('v, 'e) origin \<Rightarrow> bool \<Rightarrow> ('v, 'e) fgraph \<Rightarrow> ('v, 'e) fgraph" where
  "add_future k promise s = s\<lparr>fg_nodes := fg_nodes s @ [new_node k promise]\<rparr>"

definition fg_async :: "'e + 'v \<Rightarrow> ('v, 'e) fgraph \<Rightarrow> ('v, 'e) fgraph" where
  "fg_async r s = (let s' = add_future (Task_Of r) False s in s'\<lparr>fg_queue := fg_queue s' @ [fg_size s]\<rparr>)"

text \<open>\<open>recover\<close>, and \<open>then\<close>, which calls it: the continuation is stored, or handed over at once.\<close>

definition attach :: "nat \<Rightarrow> ('v, 'e) origin \<Rightarrow> ('v, 'e) fgraph \<Rightarrow> ('v, 'e) fgraph" where
  "attach u k s =
     (let c = fg_size s; s' = add_future k False s; n = fg s u
      in if fn_result n \<noteq> None then s'\<lparr>fg_queue := fg_queue s' @ [c]\<rparr>
         else fg_set u (n\<lparr>fn_then := fn_then n @ [c]\<rparr>) s')"

text \<open>
  What the function of a state gives, and whether it calls the function of the program: that of \<open>then\<close> first
  takes the value with \<open>get_ready\<close>, which rethrows an exception. The outcome of a call of a packaged function is given.
\<close>

definition outcome :: "('v, 'e) fgraph \<Rightarrow> ('e + 'v) option \<Rightarrow> ('v, 'e) origin \<Rightarrow> (('e + 'v) \<times> bool) res" where
  "outcome s given k = (case k of
     Task_Of r \<Rightarrow> Inr (r, True)
   | Packaged \<Rightarrow> (case given of None \<Rightarrow> Inl Null_Call | Some r \<Rightarrow> Inr (r, True))
   | Then_Of p f \<Rightarrow> (case fn_result (fg s p) of None \<Rightarrow> Inl Null_Call | Some (Inl e) \<Rightarrow> Inr (Inl e, False) | Some (Inr v) \<Rightarrow> Inr (f v, True))
   | Recover_Of p f \<Rightarrow> (case fn_result (fg s p) of None \<Rightarrow> Inl Null_Call | Some r \<Rightarrow> Inr (f r, True)))"

text \<open>
  An outcome is written and the continuations are handed over. An exception that is there already hides a value written later; a
  later exception replaces it.
\<close>

definition written :: "('e + 'v) option \<Rightarrow> 'e + 'v \<Rightarrow> 'e + 'v" where
  "written old r = (case old of
     Some (Inl e) \<Rightarrow> (case r of Inl e' \<Rightarrow> Inl e' | Inr v \<Rightarrow> Inl e)
   | _ \<Rightarrow> r)"

definition settle :: "nat \<Rightarrow> 'e + 'v \<Rightarrow> ('v, 'e) fgraph \<Rightarrow> ('v, 'e) fgraph" where
  "settle c r s =
     (let n = fg s c; r' = written (fn_result n) r
      in (fg_set c (n\<lparr>fn_result := Some r', fn_then := []\<rparr>) s)
           \<lparr>fg_queue := fg_queue s @ fn_then n, fg_settled := fg_settled s @ [(c, r')]\<rparr>)"

text \<open>
  The packaged task is called: nothing happens when the state is gone or has no function any more. The function is still there after
  the hand-over, until the call ends.
\<close>

definition invoke :: "('e + 'v) option \<Rightarrow> nat \<Rightarrow> ('v, 'e) fgraph \<Rightarrow> ('v, 'e) fgraph res" where
  "invoke given c s =
     (let n = fg s c
      in if alive s c \<and> fn_f n then
           bindR (outcome s given (fn_origin n)) (\<lambda>(r, called).
             let s' = settle c r s
             in Inr ((fg_set c ((fg s' c)\<lparr>fn_running := fn_running n + 1\<rparr>) s')
                  \<lparr>fg_calls := fg_calls s @ (if called then [c] else [])\<rparr>))
         else Inr s)"

definition return_call :: "nat \<Rightarrow> ('v, 'e) fgraph \<Rightarrow> ('v, 'e) fgraph" where
  "return_call c s =
     (let n = fg s c
      in if 0 < fn_running n then fg_set c (n\<lparr>fn_f := False, fn_running := fn_running n - 1\<rparr>) s else s)"

definition set_exception :: "nat \<Rightarrow> 'e \<Rightarrow> ('v, 'e) fgraph \<Rightarrow> ('v, 'e) fgraph" where
  "set_exception c e s = (if alive s c then settle c (Inl e) s else s)"

text \<open>
  The last packaged task of a state is destroyed: a state that lives and is not ready gets the exception
  \<open>broken_promise\<close>, and \<open>reset\<close> destroys the packaged tasks of its continuations.
\<close>

definition waiting :: "('v, 'e) fgraph \<Rightarrow> nat" where
  "waiting s = length (filter (\<lambda>n. fn_result n = None) (fg_nodes s))"

lemma waiting_set:
  assumes "c < fg_size s" and "fn_result (fg s c) = None" and "fn_result n \<noteq> None"
  shows "waiting (fg_set c n s) < waiting s"
proof -
  have "fg_nodes s = take c (fg_nodes s) @ fg s c # drop (Suc c) (fg_nodes s)" by (rule id_take_nth_drop [OF assms(1)])
  then have "waiting s = length (filter (\<lambda>n. fn_result n = None) (take c (fg_nodes s) @ fg s c # drop (Suc c) (fg_nodes s)))"
    by (simp add: waiting_def)
  then show ?thesis using assms by (simp add: waiting_def fg_set_def upd_conv_take_nth_drop)
qed

function break_tasks :: "'e \<Rightarrow> nat list \<Rightarrow> ('v, 'e) fgraph \<Rightarrow> ('v, 'e) fgraph" where
  "break_tasks broken [] s = s"
| "break_tasks broken (c # cs) s =
     (if c < fg_size s \<and> alive s c \<and> fn_result (fg s c) = None
      then break_tasks broken (fn_then (fg s c) @ cs)
        (fg_set c ((fg s c)\<lparr>fn_result := Some (Inl broken), fn_then := [], fn_f := False\<rparr>) s)
      else break_tasks broken cs s)"
  by pat_completeness auto
termination
  by (relation "measures [\<lambda>(b, cs, s). waiting s, \<lambda>(b, cs, s). length cs]") (auto intro: waiting_set)

datatype ('v, 'e) fg_op = F_Async "'e + 'v" | F_Package | F_Call nat "'e + 'v" | F_Return nat | F_Fail nat 'e | F_Break nat
  | F_Then nat "'v \<Rightarrow> 'e + 'v" | F_Recover nat "'e + 'v \<Rightarrow> 'e + 'v" | F_Copy nat | F_Drop nat | F_Detach nat | F_Execute nat

definition held_by_program :: "nat \<Rightarrow> ('v, 'e) fgraph \<Rightarrow> bool" where
  "held_by_program u s \<longleftrightarrow> u < fg_size s \<and> 0 < fn_handles (fg s u)"

fun fg_step :: "'e \<Rightarrow> ('v, 'e) fg_op \<Rightarrow> ('v, 'e) fgraph \<Rightarrow> ('v, 'e) fgraph res" where
  "fg_step broken (F_Async r) s = Inr (fg_async r s)"
| "fg_step broken F_Package s = Inr (add_future Packaged True s)"
| "fg_step broken (F_Call u r) s = (if u < fg_size s \<and> fn_promise (fg s u) then invoke (Some r) u s else Inr s)"
| "fg_step broken (F_Return u) s = Inr (if u < fg_size s then return_call u s else s)"
| "fg_step broken (F_Fail u e) s = Inr (if u < fg_size s \<and> fn_promise (fg s u) then set_exception u e s else s)"
| "fg_step broken (F_Break u) s =
     Inr (if u < fg_size s \<and> fn_promise (fg s u) then break_tasks broken [u] (fg_set u ((fg s u)\<lparr>fn_promise := False\<rparr>) s) else s)"
| "fg_step broken (F_Then u f) s = Inr (if held_by_program u s then attach u (Then_Of u f) s else s)"
| "fg_step broken (F_Recover u f) s = Inr (if held_by_program u s then attach u (Recover_Of u f) s else s)"
| "fg_step broken (F_Copy u) s = Inr (if held_by_program u s then fg_set u ((fg s u)\<lparr>fn_handles := fn_handles (fg s u) + 1\<rparr>) s else s)"
| "fg_step broken (F_Drop u) s = Inr (if held_by_program u s then fg_set u ((fg s u)\<lparr>fn_handles := fn_handles (fg s u) - 1\<rparr>) s else s)"
| "fg_step broken (F_Detach u) s = Inr (if held_by_program u s then fg_set u ((fg s u)\<lparr>fn_hold := True\<rparr>) s else s)"
| "fg_step broken (F_Execute i) s =
     (if i < length (fg_queue s) then invoke None (fg_queue s ! i) (s\<lparr>fg_queue := drop_nth i (fg_queue s)\<rparr>) else Inr s)"

section \<open>Lifetimes only end\<close>

lemma alive_iff:
  "alive s u \<longleftrightarrow> anchored (fg s u) \<or> (\<exists>c. u < c \<and> c < fg_size s \<and> parent (fn_origin (fg s c)) = Some u \<and> fn_f (fg s c) \<and> alive s c)"
  by (subst alive.simps) (auto simp: list_ex_iff Suc_le_eq)

lemma alive_anchored: "anchored (fg s u) \<Longrightarrow> alive s u"
  by (subst alive_iff) simp

lemma alive_child:
  "parent (fn_origin (fg s c)) = Some u \<Longrightarrow> u < c \<Longrightarrow> c < fg_size s \<Longrightarrow> fn_f (fg s c) \<Longrightarrow> alive s c \<Longrightarrow> alive s u"
  by (subst alive_iff) blast

lemma alive_cases:
  assumes "alive s u"
  obtains "anchored (fg s u)"
    | c where "u < c" "c < fg_size s" "parent (fn_origin (fg s c)) = Some u" "fn_f (fg s c)" "alive s c"
  using iffD1 [OF alive_iff assms] by blast

lemma alive_mono:
  assumes size: "fg_size s \<le> fg_size s'"
    and old: "\<And>c. c < fg_size s \<Longrightarrow> fn_origin (fg s' c) = fn_origin (fg s c) \<and> (anchored (fg s' c) \<longrightarrow> alive s c) \<and> (fn_f (fg s' c) \<longrightarrow> fn_f (fg s c))"
    and new: "\<And>c p. fg_size s \<le> c \<Longrightarrow> c < fg_size s' \<Longrightarrow> parent (fn_origin (fg s' c)) = Some p \<Longrightarrow> anchored (fg s p)"
  shows "u < fg_size s \<Longrightarrow> alive s' u \<Longrightarrow> alive s u"
proof (induction "fg_size s' - u" arbitrary: u rule: less_induct)
  case less
  from less.prems(2) show ?case
  proof (cases rule: alive_cases)
    case 1
    then show ?thesis using old [OF less.prems(1)] by simp
  next
    case (2 c)
    show ?thesis
    proof (cases "c < fg_size s")
      case True
      have "alive s c" using less.hyps [of c] 2 True by simp
      then show ?thesis using alive_child [of s c u] old [OF True] 2 True by simp
    next
      case False
      then show ?thesis using new [of c u] 2 by (simp add: alive_anchored)
    qed
  qed
qed

lemma fg_set_simps [simp]:
  "fg_size (fg_set u n s) = fg_size s" "fg_queue (fg_set u n s) = fg_queue s" "fg_calls (fg_set u n s) = fg_calls s"
  "fg_settled (fg_set u n s) = fg_settled s"
  "u < fg_size s \<Longrightarrow> fg (fg_set u n s) u = n" "u \<noteq> c \<Longrightarrow> fg (fg_set u n s) c = fg s c"
  by (simp_all add: fg_set_def)

lemma fg_set_nth: "c < fg_size s \<Longrightarrow> fg (fg_set u n s) c = (if c = u then n else fg s c)"
  by (simp add: fg_set_def)

lemma alive_set:
  assumes "u < fg_size s" and "fn_origin n = fn_origin (fg s u)" and "anchored n \<longrightarrow> alive s u" and "fn_f n \<longrightarrow> fn_f (fg s u)"
    and c: "c < fg_size s" and a: "alive (fg_set u n s) c"
  shows "alive s c"
proof (rule alive_mono [OF _ _ _ c a])
  show "fn_origin (fg (fg_set u n s) d) = fn_origin (fg s d) \<and> (anchored (fg (fg_set u n s) d) \<longrightarrow> alive s d) \<and>
      (fn_f (fg (fg_set u n s) d) \<longrightarrow> fn_f (fg s d))" if "d < fg_size s" for d
    using assms(2-4) that by (simp add: fg_set_nth alive_anchored)
qed simp_all

lemma alive_cong:
  assumes "fg_nodes s' = fg_nodes s"
  shows "alive s' u = alive s u"
proof (induction "fg_size s - u" arbitrary: u rule: less_induct)
  case less
  have "alive s' c = alive s c" if "u < c" "c < fg_size s" for c using less.hyps [of c] that by simp
  then show ?case using assms by (subst (1 2) alive_iff) auto
qed

lemma alive_queue [simp]:
  "alive (s\<lparr>fg_queue := q\<rparr>) u = alive s u" "alive (s\<lparr>fg_queue := q, fg_calls := cs, fg_settled := ls\<rparr>) u = alive s u"
  "alive (s\<lparr>fg_queue := q, fg_settled := ls\<rparr>) u = alive s u" "alive (s\<lparr>fg_calls := cs\<rparr>) u = alive s u"
  by (rule alive_cong, simp)+

text \<open>An invocation in one piece.\<close>

lemma invoke_eq:
  "c < fg_size s \<Longrightarrow> invoke given c s =
     (if alive s c \<and> fn_f (fg s c) then
        bindR (outcome s given (fn_origin (fg s c))) (\<lambda>(r, called).
          let r' = written (fn_result (fg s c)) r
          in Inr ((fg_set c ((fg s c)\<lparr>fn_result := Some r', fn_then := [], fn_running := fn_running (fg s c) + 1\<rparr>) s)
               \<lparr>fg_queue := fg_queue s @ fn_then (fg s c), fg_calls := fg_calls s @ (if called then [c] else []),
                 fg_settled := fg_settled s @ [(c, r')]\<rparr>))
      else Inr s)"
  by (auto simp: invoke_def settle_def Let_def fg_set_def intro!: arg_cong [of _ _ "bindR (outcome s given (fn_origin (fg s c)))"])

section \<open>The invariant\<close>

text \<open>How often the outcome of a state has been written, apart from \<open>broken_promise\<close>.\<close>

definition times :: "('v, 'e) fgraph \<Rightarrow> nat \<Rightarrow> nat" where
  "times s c = count_list (map fst (fg_settled s)) c"

text \<open>
  An outcome \<open>x\<close> that a future had when a continuation used it: \<open>broken_promise\<close> or one of those written; and the one it has now, unless its
  outcome has been written a second time.
\<close>

definition source_gave :: "'e \<Rightarrow> ('v, 'e) fgraph \<Rightarrow> nat \<Rightarrow> 'e + 'v \<Rightarrow> bool" where
  "source_gave broken s p x \<longleftrightarrow> (x = Inl broken \<or> (p, x) \<in> set (fg_settled s)) \<and> (times s p \<le> 1 \<longrightarrow> fn_result (fg s p) = Some x)"

text \<open>The result of a future from that of the future it continues.\<close>

fun follows :: "'e \<Rightarrow> ('v, 'e) fgraph \<Rightarrow> nat \<Rightarrow> ('v, 'e) origin \<Rightarrow> 'e + 'v \<Rightarrow> bool" where
  "follows broken s c (Task_Of x) r \<longleftrightarrow> r = x"
| "follows broken s c Packaged r \<longleftrightarrow> (c, r) \<in> set (fg_settled s)"
| "follows broken s c (Then_Of p f) r \<longleftrightarrow>
     (\<exists>x. source_gave broken s p x \<and> r = (case x of Inl e \<Rightarrow> Inl e | Inr v \<Rightarrow> f v))"
| "follows broken s c (Recover_Of p f) r \<longleftrightarrow> (\<exists>x. source_gave broken s p x \<and> r = f x)"

text \<open>Where the task of a state that lives and is not ready is to be found.\<close>

definition placed :: "('v, 'e) fgraph \<Rightarrow> nat \<Rightarrow> bool" where
  "placed s c \<longleftrightarrow> (case parent (fn_origin (fg s c)) of
      None \<Rightarrow> c \<in> set (fg_queue s) \<or> fn_promise (fg s c)
    | Some p \<Rightarrow> if fn_result (fg s p) = None then c \<in> set (fn_then (fg s p)) else c \<in> set (fg_queue s))"

text \<open>Apart from those in a list \<open>W\<close>, which are just being called or destroyed.\<close>

definition fnode_ok :: "'e \<Rightarrow> nat list \<Rightarrow> ('v, 'e) fgraph \<Rightarrow> nat \<Rightarrow> bool" where
  "fnode_ok broken W s c \<longleftrightarrow>
     (\<forall>p. parent (fn_origin (fg s c)) = Some p \<longrightarrow> p < c) \<and>
     (fn_promise (fg s c) \<longrightarrow> fn_origin (fg s c) = Packaged \<and> (fn_result (fg s c) \<noteq> None \<longrightarrow> 0 < times s c)) \<and>
     (fn_result (fg s c) = None \<longrightarrow> fn_f (fg s c) \<and> fn_running (fg s c) = 0 \<and> times s c = 0) \<and>
     distinct (fn_then (fg s c)) \<and>
     (\<forall>d \<in> set (fn_then (fg s c)). d < fg_size s \<and> parent (fn_origin (fg s d)) = Some c \<and> fn_result (fg s c) = None \<and> fn_result (fg s d) = None) \<and>
     (\<forall>r. fn_result (fg s c) = Some r \<longrightarrow>
        (r = Inl broken \<or> follows broken s c (fn_origin (fg s c)) r) \<and> (r = Inl broken \<or> (c, r) \<in> set (fg_settled s))) \<and>
     (alive s c \<and> fn_result (fg s c) = None \<longrightarrow> placed s c \<or> c \<in> set W) \<and>
     (fn_origin (fg s c) \<noteq> Packaged \<longrightarrow> times s c \<le> 1) \<and>
     (c \<in> set (fg_calls s) \<and> fn_f (fg s c) \<longrightarrow> 0 < fn_running (fg s c))"

definition in_hand :: "nat list \<Rightarrow> ('v, 'e) fgraph \<Rightarrow> bool" where
  "in_hand W s \<longleftrightarrow> (\<forall>c \<in> set W. c \<notin> set (fg_queue s) \<and> \<not> fn_promise (fg s c) \<and> (\<forall>p. parent (fn_origin (fg s c)) = Some p \<longrightarrow> fn_result (fg s p) \<noteq> None))"

definition fg_inv :: "'e \<Rightarrow> nat list \<Rightarrow> ('v, 'e) fgraph \<Rightarrow> bool" where
  "fg_inv broken W s \<longleftrightarrow> (\<forall>c < fg_size s. fnode_ok broken W s c) \<and>
     (\<forall>c \<in> set (fg_queue s). c < fg_size s \<and> fn_origin (fg s c) \<noteq> Packaged \<and> fn_result (fg s c) = None \<and>
       (\<forall>p. parent (fn_origin (fg s c)) = Some p \<longrightarrow> fn_result (fg s p) \<noteq> None)) \<and>
     distinct (fg_queue s) \<and> (\<forall>c. count_list (fg_calls s) c \<le> times s c) \<and> (\<forall>(c, r) \<in> set (fg_settled s). c < fg_size s)"

lemma fg_inv_init: "fg_inv broken [] fg_init"
  by (simp add: fg_inv_def fg_init_def times_def)

lemma fg_invD:
  assumes "fg_inv broken W s" and "c < fg_size s"
  shows "parent (fn_origin (fg s c)) = Some p \<Longrightarrow> p < c"
    "fn_promise (fg s c) \<Longrightarrow> fn_origin (fg s c) = Packaged \<and> (fn_result (fg s c) \<noteq> None \<longrightarrow> 0 < times s c)"
    "fn_result (fg s c) = None \<Longrightarrow> fn_f (fg s c) \<and> fn_running (fg s c) = 0 \<and> times s c = 0"
    "distinct (fn_then (fg s c))"
    "d \<in> set (fn_then (fg s c)) \<Longrightarrow> d < fg_size s \<and> parent (fn_origin (fg s d)) = Some c \<and> fn_result (fg s c) = None \<and> fn_result (fg s d) = None"
    "fn_result (fg s c) = Some r \<Longrightarrow> (r = Inl broken \<or> follows broken s c (fn_origin (fg s c)) r) \<and> (r = Inl broken \<or> (c, r) \<in> set (fg_settled s))"
    "alive s c \<Longrightarrow> fn_result (fg s c) = None \<Longrightarrow> placed s c \<or> c \<in> set W"
    "fn_origin (fg s c) \<noteq> Packaged \<Longrightarrow> times s c \<le> 1"
    "c \<in> set (fg_calls s) \<Longrightarrow> fn_f (fg s c) \<Longrightarrow> 0 < fn_running (fg s c)"
  using assms by (auto simp: fg_inv_def fnode_ok_def)

lemma fg_inv_queue:
  assumes "fg_inv broken W s"
  shows "c \<in> set (fg_queue s) \<Longrightarrow> c < fg_size s \<and> fn_origin (fg s c) \<noteq> Packaged \<and> fn_result (fg s c) = None"
    "c \<in> set (fg_queue s) \<Longrightarrow> parent (fn_origin (fg s c)) = Some p \<Longrightarrow> fn_result (fg s p) \<noteq> None"
    "distinct (fg_queue s)" "count_list (fg_calls s) c \<le> times s c" "(c, r) \<in> set (fg_settled s) \<Longrightarrow> c < fg_size s"
  using assms by (auto simp: fg_inv_def)

text \<open>Whoever lives is not forgotten: what is in \<open>W\<close> but ready or gone can be left out.\<close>

lemma fg_inv_less:
  "fg_inv broken (c # W) s \<Longrightarrow> \<not> (alive s c \<and> fn_result (fg s c) = None) \<Longrightarrow> fg_inv broken W s"
  by (auto simp: fg_inv_def fnode_ok_def)

lemma fg_inv_more: "fg_inv broken W s \<Longrightarrow> set W \<subseteq> set W' \<Longrightarrow> fg_inv broken W' s"
  by (fastforce simp: fg_inv_def fnode_ok_def)

lemma outcome_parent: "outcome s given k = Inr x \<Longrightarrow> parent k = Some p \<Longrightarrow> fn_result (fg s p) \<noteq> None"
  by (cases k) (auto simp: outcome_def split: option.splits)

lemma outcome_cong:
  assumes "\<And>p. parent k = Some p \<Longrightarrow> fn_result (fg s' p) = fn_result (fg s p)"
  shows "outcome s' given k = outcome s given k"
  using assms by (cases k) (simp_all add: outcome_def)

text \<open>What has been said about a result stays true while outcomes are only added, and second ones only to states that have one.\<close>

lemma follows_mono:
  assumes "follows broken s c k r" and "set (fg_settled s) \<subseteq> set (fg_settled t)"
    and "\<And>p x. parent k = Some p \<Longrightarrow> fn_result (fg s p) = Some x \<Longrightarrow> times t p \<le> 1 \<Longrightarrow> times s p \<le> 1 \<and> fn_result (fg t p) = Some x"
    and "\<And>p. parent k = Some p \<Longrightarrow> times s p \<le> times t p"
  shows "follows broken t c k r"
proof -
  have "source_gave broken t p x" if "source_gave broken s p x" "parent k = Some p" for p x
    using that assms(2) assms(3,4) [of p] unfolding source_gave_def
    by (metis (no_types, lifting) order.trans subsetD)
  then show ?thesis using assms(1,2) by (cases k) auto
qed

section \<open>Steps keep the invariant\<close>

text \<open>A state becomes ready, or its outcome is written again.\<close>

lemma times_snoc [simp]: "times (s\<lparr>fg_settled := fg_settled s @ lg\<rparr>) d = times s d + count_list (map fst lg) d"
  by (simp add: times_def)

lemma write_inv:
  assumes inv: "fg_inv broken W s" and c: "c < fg_size s"
    and first: "fn_result (fg s c) = None \<or> fn_origin (fg s c) = Packaged \<and> 0 < times s c"
    and hand: "c \<notin> set (fg_queue s)" "\<And>p. parent (fn_origin (fg s c)) = Some p \<Longrightarrow> fn_result (fg s p) \<noteq> None"
    and how: "lg = [(c, r)] \<and> q = fg_queue s @ fn_then (fg s c) \<and> (r = Inl broken \<or> fn_origin (fg s c) = Packaged \<or> follows broken s c (fn_origin (fg s c)) r) \<or>
      lg = [] \<and> r = Inl broken \<and> q = fg_queue s \<and> fn_result (fg s c) = None \<and> \<not> fn_promise (fg s c) \<and> cl = fg_calls s \<and> set (fn_then (fg s c)) \<subseteq> set W'"
    and n: "fn_origin n = fn_origin (fg s c)" "fn_result n = Some r" "fn_then n = []" "fn_f n \<longrightarrow> fn_f (fg s c)"
      "fn_promise n = fn_promise (fg s c)" "anchored n \<longrightarrow> alive s c" "cl = fg_calls s \<and> fn_running (fg s c) \<le> fn_running n \<or> 0 < fn_running n"
    and W: "set W - {c} \<subseteq> set W'" and cl: "cl = fg_calls s \<or> cl = fg_calls s @ [c]"
  shows "fg_inv broken W' ((fg_set c n s)\<lparr>fg_queue := q, fg_calls := cl, fg_settled := fg_settled s @ lg\<rparr>)"
proof -
  define t where "t = (fg_set c n s)\<lparr>fg_queue := q, fg_calls := cl, fg_settled := fg_settled s @ lg\<rparr>"
  have nd: "fg t d = (if d = c then n else fg s d)" if "d < fg_size s" for d using that by (simp add: t_def fg_set_nth)
  have sz: "fg_size t = fg_size s" "fg_queue t = q" "fg_calls t = cl" "fg_settled t = fg_settled s @ lg" by (simp_all add: t_def)
  have tm: "times t d = times s d + (if d = c \<and> lg \<noteq> [] then 1 else 0)" for d
    using how by (auto simp: times_def sz)
  have al: "alive s d" if "alive t d" "d < fg_size s" for d
    using that alive_set [OF c, of n d] n by (simp add: t_def)
  have res: "fn_result (fg t d) \<noteq> None" if "fn_result (fg s d) \<noteq> None" "d < fg_size s" for d
    unfolding nd [OF that(2)] using that(1) n(2) by simp
  have q: "set q \<subseteq> set (fg_queue s) \<union> set (fn_then (fg s c))" "set (fg_queue s) \<subseteq> set q" using how by auto
  have par: "p < fg_size s" if "d < fg_size s" "parent (fn_origin (fg s d)) = Some p" for d p
    using fg_invD(1) [OF inv that] that(1) by simp
  have fol: "follows broken t d (fn_origin (fg s d)) x" if d: "d < fg_size s" "follows broken s d (fn_origin (fg s d)) x" for d x
  proof (rule follows_mono [OF d(2)])
    show "set (fg_settled s) \<subseteq> set (fg_settled t)" by (auto simp: sz)
    fix p assume p: "parent (fn_origin (fg s d)) = Some p"
    show "times s p \<le> times t p" by (simp add: tm)
    fix y assume y: "fn_result (fg s p) = Some y" "times t p \<le> 1"
    show "times s p \<le> 1 \<and> fn_result (fg t p) = Some y"
    proof (cases "p = c")
      case True
      then have "0 < times s c" "lg \<noteq> []" using first how y(1) by auto
      then show ?thesis using y(2) True by (simp add: tm)
    next
      case False
      then show ?thesis using y nd [OF par [OF d(1) p]] by (simp add: tm)
    qed
  qed
  have "fnode_ok broken W' t d" if d: "d < fg_size s" for d
  proof -
    note D = fg_invD [OF inv d]
    have ori: "fn_origin (fg t d) = fn_origin (fg s d)" "fn_promise (fg t d) = fn_promise (fg s d)" using nd [OF d] n by simp_all
    have 1: "e < fg_size t \<and> parent (fn_origin (fg t e)) = Some d \<and> fn_result (fg t d) = None \<and> fn_result (fg t e) = None" if "e \<in> set (fn_then (fg t d))" for e
    proof -
      have e: "d \<noteq> c" "e \<in> set (fn_then (fg s d))" using that nd [OF d] n by (auto split: if_splits)
      then have E: "e < fg_size s" "parent (fn_origin (fg s e)) = Some d" "fn_result (fg s d) = None" "fn_result (fg s e) = None" using D(5) by blast+
      then have "e \<noteq> c" using hand(2) by auto
      then show ?thesis using E nd [OF d] nd [OF E(1)] e(1) sz(1) by simp
    qed
    have 2: "(x = Inl broken \<or> follows broken t d (fn_origin (fg s d)) x) \<and> (x = Inl broken \<or> (d, x) \<in> set (fg_settled t))"
      if x: "fn_result (fg t d) = Some x" for x
    proof (cases "d = c")
      case True
      then have "x = r" using x nd [OF d] n(2) by simp
      then show ?thesis using how True fol [OF d, of r] by (auto simp: sz)
    next
      case False
      then have "fn_result (fg s d) = Some x" using x nd [OF d] by simp
      then show ?thesis using D(6) fol [OF d] by (auto simp: sz)
    qed
    have 3: "placed t d \<or> d \<in> set W'" if a: "alive t d" "fn_result (fg t d) = None"
    proof -
      have dc: "d \<noteq> c" "fn_result (fg s d) = None" using a(2) nd [OF d] n(2) by (auto split: if_splits)
      consider "placed s d" | "d \<in> set W'" using D(7) [OF al [OF a(1) d] dc(2)] W dc(1) by blast
      then show ?thesis
      proof cases
        case 1
        show ?thesis
        proof (cases "parent (fn_origin (fg s d))")
          case None
          then show ?thesis using 1 q ori sz(2) by (auto simp: placed_def)
        next
          case (Some p)
          note p = par [OF d Some]
          show ?thesis
          proof (cases "p = c")
            case True
            then have "d \<in> (if fn_result (fg s c) = None then set (fn_then (fg s c)) else set (fg_queue s))" using 1 Some by (simp add: placed_def)
            then have "d \<in> set q \<or> d \<in> set W'" using how by (auto split: if_splits)
            moreover have "fn_result (fg t p) \<noteq> None" using True nd [OF p] n(2) by simp
            ultimately show ?thesis using Some ori sz(2) by (auto simp: placed_def)
          next
            case False
            then have e: "fg t p = fg s p" using nd [OF p] by simp
            have "placed t d = (if fn_result (fg s p) = None then d \<in> set (fn_then (fg s p)) else d \<in> set q)"
              by (simp only: placed_def ori Some option.case e sz)
            then show ?thesis using 1 Some q by (auto simp: placed_def split: if_splits)
          qed
        qed
      qed simp
    qed
    have 4: "fn_promise (fg s d) \<longrightarrow> fn_origin (fg s d) = Packaged \<and> (fn_result (fg t d) \<noteq> None \<longrightarrow> 0 < times t d)"
      using D(2) nd [OF d] how by (auto simp: tm)
    have 5: "fn_result (fg t d) = None \<longrightarrow> fn_f (fg t d) \<and> fn_running (fg t d) = 0 \<and> times t d = 0"
      using D(3) nd [OF d] n(2) by (auto simp: tm)
    have 6: "fn_origin (fg s d) \<noteq> Packaged \<longrightarrow> times t d \<le> 1" using D(3,8) first by (auto simp: tm)
    have 7: "d \<in> set cl \<and> fn_f (fg t d) \<longrightarrow> 0 < fn_running (fg t d)"
      using D(9) nd [OF d] n(4,7) cl by (auto split: if_splits)
    show ?thesis unfolding fnode_ok_def ori sz(3) using D(1,4) nd [OF d] n(3) 1 2 3 4 5 6 7 by simp
  qed
  moreover have "e < fg_size s \<and> fn_origin (fg t e) \<noteq> Packaged \<and> fn_result (fg t e) = None \<and>
      (\<forall>p. parent (fn_origin (fg t e)) = Some p \<longrightarrow> fn_result (fg t p) \<noteq> None)" if e: "e \<in> set q" for e
  proof (cases "e \<in> set (fg_queue s)")
    case True
    have Q: "e < fg_size s" "fn_origin (fg s e) \<noteq> Packaged" "fn_result (fg s e) = None" using fg_inv_queue(1) [OF inv True] by blast+
    have "e \<noteq> c" using True hand(1) by blast
    then have e: "fg t e = fg s e" using nd [OF Q(1)] by simp
    have "fn_result (fg t p) \<noteq> None" if "parent (fn_origin (fg s e)) = Some p" for p
      by (rule res [OF fg_inv_queue(2) [OF inv True that] par [OF Q(1) that]])
    then show ?thesis using Q e by simp
  next
    case False
    then have "e \<in> set (fn_then (fg s c))" using e q by blast
    then have E: "e < fg_size s" "parent (fn_origin (fg s e)) = Some c" "fn_result (fg s e) = None" using fg_invD(5) [OF inv c] by blast+
    then have "e \<noteq> c" using fg_invD(1) [OF inv E(1,2)] by simp
    then show ?thesis using E nd [of e] nd [OF c] n(2) by auto
  qed
  moreover have "distinct q"
  proof -
    have "set (fg_queue s) \<inter> set (fn_then (fg s c)) = {}"
      using fg_invD(5) [OF inv c] fg_inv_queue(2) [OF inv] by blast
    then show ?thesis using how fg_inv_queue(3) [OF inv] fg_invD(4) [OF inv c] by auto
  qed
  moreover have "count_list cl d \<le> times t d" for d
  proof -
    have "count_list (fg_calls s) d \<le> times s d" using inv by (simp add: fg_inv_def)
    then show ?thesis using cl how by (auto simp: tm)
  qed
  moreover have "\<forall>(d, x) \<in> set (fg_settled t). d < fg_size s" using fg_inv_queue(5) [OF inv] how c by (auto simp: sz)
  ultimately show ?thesis unfolding t_def [symmetric] fg_inv_def sz by blast
qed


lemma outcome_total:
  assumes "\<And>p. parent k = Some p \<Longrightarrow> fn_result (fg s p) \<noteq> None" and "k = Packaged \<Longrightarrow> given \<noteq> None"
  shows "\<exists>r b. outcome s given k = Inr (r, b)"
proof (cases k)
  case (Then_Of p f)
  then obtain y where "fn_result (fg s p) = Some y" using assms(1) by auto
  then show ?thesis using Then_Of by (cases y) (auto simp: outcome_def)
qed (use assms in \<open>auto simp: outcome_def\<close>)

lemma result_gave:
  assumes "fg_inv broken W s" and "p < fg_size s" and "fn_result (fg s p) = Some x"
  shows "source_gave broken s p x"
  using fg_invD(6) [OF assms] assms(3) by (simp add: source_gave_def)

lemma outcome_follows:
  assumes inv: "fg_inv broken W s" and c: "c < fg_size s" and r: "outcome s given (fn_origin (fg s c)) = Inr (r, b)"
  shows "fn_origin (fg s c) = Packaged \<or> follows broken s c (fn_origin (fg s c)) r"
proof -
  have "p < fg_size s" if "parent (fn_origin (fg s c)) = Some p" for p using fg_invD(1) [OF inv c that] c by simp
  then show ?thesis using r result_gave [OF inv]
    by (cases "fn_origin (fg s c)") (fastforce simp: outcome_def split: option.splits sum.splits)+
qed

lemma invoke_inv:
  assumes inv: "fg_inv broken [c] s" and c: "c < fg_size s" "c \<notin> set (fg_queue s)"
    and p: "\<And>p. parent (fn_origin (fg s c)) = Some p \<Longrightarrow> fn_result (fg s p) \<noteq> None"
    and first: "fn_result (fg s c) = None \<or> fn_promise (fg s c)" and g: "fn_origin (fg s c) = Packaged \<Longrightarrow> given \<noteq> None"
  shows "\<exists>s'. invoke given c s = Inr s' \<and> fg_inv broken [] s'"
proof (cases "alive s c \<and> fn_f (fg s c)")
  case True
  note D = fg_invD [OF inv c(1)]
  obtain r b where r: "outcome s given (fn_origin (fg s c)) = Inr (r, b)" using outcome_total [OF p g] by blast
  let ?r = "written (fn_result (fg s c)) r"
  have f: "fn_result (fg s c) = None \<or> fn_origin (fg s c) = Packaged \<and> 0 < times s c" using first D(2) by blast
  then have fol: "fn_origin (fg s c) = Packaged \<or> follows broken s c (fn_origin (fg s c)) ?r"
    using outcome_follows [OF inv c(1) r] by (auto simp: written_def)
  have "fg_inv broken [] ((fg_set c ((fg s c)\<lparr>fn_result := Some ?r, fn_then := [], fn_running := fn_running (fg s c) + 1\<rparr>) s)
      \<lparr>fg_queue := fg_queue s @ fn_then (fg s c), fg_calls := fg_calls s @ (if b then [c] else []), fg_settled := fg_settled s @ [(c, ?r)]\<rparr>)"
    by (rule write_inv [OF inv c(1) f c(2) p]) (use fol True in auto)
  then show ?thesis using True r c(1) by (simp add: invoke_eq Let_def)
next
  case False
  have "fg_inv broken [] s" by (rule fg_inv_less [OF inv]) (use False fg_invD(3) [OF inv c(1)] in blast)
  then show ?thesis using False by (simp only: invoke_eq [OF c(1)] if_False simp_thms) blast
qed

lemma fail_inv:
  assumes inv: "fg_inv broken [] s" and c: "c < fg_size s" "fn_promise (fg s c)"
  shows "fg_inv broken [] (set_exception c e s)"
proof (cases "alive s c")
  case True
  let ?r = "written (fn_result (fg s c)) (Inl e)" and ?q = "fg_queue s @ fn_then (fg s c)"
  have k: "fn_origin (fg s c) = Packaged" using fg_invD(2) [OF inv c(1)] c(2) by blast
  have q: "c \<notin> set (fg_queue s)" using fg_inv_queue(1) [OF inv, of c] k by blast
  have "fg_inv broken [] ((fg_set c ((fg s c)\<lparr>fn_result := Some ?r, fn_then := []\<rparr>) s)
      \<lparr>fg_queue := ?q, fg_calls := fg_calls s, fg_settled := fg_settled s @ [(c, ?r)]\<rparr>)"
    by (rule write_inv [OF inv c(1) _ q]) (use True k fg_invD(2) [OF inv c(1)] c(2) in auto)
  moreover have "set_exception c e s = (fg_set c ((fg s c)\<lparr>fn_result := Some ?r, fn_then := []\<rparr>) s)
      \<lparr>fg_queue := ?q, fg_calls := fg_calls s, fg_settled := fg_settled s @ [(c, ?r)]\<rparr>"
    using True by (simp add: set_exception_def settle_def Let_def fg_set_def)
  ultimately show ?thesis by simp
qed (simp add: set_exception_def inv)

lemma break_inv: "fg_inv broken W s \<Longrightarrow> in_hand W s \<Longrightarrow> fg_inv broken [] (break_tasks broken W s)"
proof (induction broken W s rule: break_tasks.induct)
  case (2 broken c cs s)
  show ?case
  proof (cases "c < fg_size s \<and> alive s c \<and> fn_result (fg s c) = None")
    case True
    let ?n = "(fg s c)\<lparr>fn_result := Some (Inl broken), fn_then := [], fn_f := False\<rparr>"
    let ?s = "fg_set c ?n s"
    note D = fg_invD [OF "2.prems"(1)]
    have c: "c < fg_size s" "fn_result (fg s c) = None" using True by blast+
    have h: "c \<notin> set (fg_queue s)" "\<not> fn_promise (fg s c)" "\<And>p. parent (fn_origin (fg s c)) = Some p \<Longrightarrow> fn_result (fg s p) \<noteq> None"
      using "2.prems"(2) by (simp_all add: in_hand_def)
    have "fg_inv broken (fn_then (fg s c) @ cs) (?s\<lparr>fg_queue := fg_queue s, fg_calls := fg_calls s, fg_settled := fg_settled s @ []\<rparr>)"
      by (rule write_inv [OF "2.prems"(1) c(1) _ h(1,3)]) (use True h(2) in auto)
    moreover have "?s\<lparr>fg_queue := fg_queue s, fg_calls := fg_calls s, fg_settled := fg_settled s @ []\<rparr> = ?s" by (simp add: fg_set_def)
    ultimately have i: "fg_inv broken (fn_then (fg s c) @ cs) ?s" by (simp only:)
    have "d \<notin> set (fg_queue s) \<and> \<not> fn_promise (fg ?s d) \<and> (\<forall>p. parent (fn_origin (fg ?s d)) = Some p \<longrightarrow> fn_result (fg ?s p) \<noteq> None)"
      if d: "d \<in> set (fn_then (fg s c) @ cs)" for d
    proof (cases "d \<in> set (fn_then (fg s c))")
      case True
      have E: "d < fg_size s" "parent (fn_origin (fg s d)) = Some c" using D(5) [OF c(1) True] by blast+
      have "d \<noteq> c" using D(1) [OF E] by simp
      have "d \<notin> set (fg_queue s)" using fg_inv_queue(2) [OF "2.prems"(1) _ E(2)] c(2) by blast
      moreover have "\<not> fn_promise (fg s d)" using D(2) [OF E(1)] E(2) by auto
      ultimately show ?thesis using E c(1) \<open>d \<noteq> c\<close> by (simp add: fg_set_nth)
    next
      case False
      then have "d \<notin> set (fg_queue s) \<and> \<not> fn_promise (fg s d) \<and> (\<forall>p. parent (fn_origin (fg s d)) = Some p \<longrightarrow> fn_result (fg s p) \<noteq> None)"
        using d "2.prems"(2) by (simp add: in_hand_def)
      then show ?thesis using c(1) by (auto simp: fg_set_def nth_list_update)
    qed
    then have "in_hand (fn_then (fg s c) @ cs) ?s" by (simp add: in_hand_def)
    then show ?thesis using "2.IH"(1) [OF True i] True by simp
  next
    case False
    have "fg_inv broken cs s"
    proof (cases "c < fg_size s")
      case True
      then show ?thesis using fg_inv_less [OF "2.prems"(1)] False by blast
    next
      case False
      then show ?thesis using "2.prems"(1) by (auto simp: fg_inv_def fnode_ok_def)
    qed
    moreover have "in_hand cs s" using "2.prems"(2) by (simp add: in_hand_def)
    ultimately have "fg_inv broken [] (break_tasks broken cs s)" by (rule "2.IH"(2) [OF False])
    then show ?thesis by (simp only: break_tasks.simps False if_False)
  qed
qed simp


text \<open>Handles, holds and promises, and the end of a call.\<close>

lemma touch_inv:
  assumes inv: "fg_inv broken W s" and u: "u < fg_size s"
    and n: "fn_origin n = fn_origin (fg s u)" "fn_result n = fn_result (fg s u)" "fn_then n = fn_then (fg s u)"
      "fn_f n = fn_f (fg s u) \<and> fn_running n = fn_running (fg s u) \<or> \<not> fn_f n \<and> fn_result (fg s u) \<noteq> None"
      "fn_promise n \<longrightarrow> fn_promise (fg s u)" "anchored n \<longrightarrow> anchored (fg s u)"
    and W: "set W \<subseteq> set W'" "fn_promise n = fn_promise (fg s u) \<or> u \<in> set W'"
  shows "fg_inv broken W' (fg_set u n s)"
proof -
  let ?s = "fg_set u n s"
  have nd: "fn_origin (fg ?s d) = fn_origin (fg s d)" "fn_result (fg ?s d) = fn_result (fg s d)" "fn_then (fg ?s d) = fn_then (fg s d)"
    "fn_f (fg ?s d) = fn_f (fg s d) \<and> fn_running (fg ?s d) = fn_running (fg s d) \<or> \<not> fn_f (fg ?s d) \<and> fn_result (fg s d) \<noteq> None"
    "fn_promise (fg ?s d) \<longrightarrow> fn_promise (fg s d)" if "d < fg_size s" for d
    using that n by (simp_all add: fg_set_nth)
  have tm: "times ?s d = times s d" for d by (simp add: times_def)
  have par: "p < fg_size s" if "d < fg_size s" "parent (fn_origin (fg s d)) = Some p" for d p
    using fg_invD(1) [OF inv that] that(1) by simp
  have "fnode_ok broken W' ?s d" if d: "d < fg_size s" for d
  proof -
    note D = fg_invD [OF inv d] and N = nd [OF d]
    have res: "fn_result (fg ?s p) = fn_result (fg s p)" "fn_then (fg ?s p) = fn_then (fg s p)"
      if "parent (fn_origin (fg s d)) = Some p" for p using nd(2,3) [OF par [OF d that]] by simp_all
    have a: "alive s d" if "alive ?s d" using alive_set [OF u n(1) _ _ d that] n by (auto intro: alive_anchored)
    have pl: "placed ?s d \<or> d \<in> set W'" if "placed s d"
    proof (cases "parent (fn_origin (fg s d))")
      case None
      have "fn_promise (fg ?s d) = fn_promise (fg s d) \<or> d \<in> set W'" using W(2) d by (cases "d = u") (simp_all add: fg_set_nth)
      then show ?thesis using that None N(1) by (auto simp: placed_def)
    next
      case (Some p)
      then show ?thesis using that res [OF Some] N(1) by (simp add: placed_def)
    qed
    have th: "e < fg_size ?s \<and> parent (fn_origin (fg ?s e)) = Some d \<and> fn_result (fg s d) = None \<and> fn_result (fg ?s e) = None"
      if "e \<in> set (fn_then (fg s d))" for e
      using D(5) [OF that] nd(1,2) by simp
    have fol: "follows broken ?s d (fn_origin (fg s d)) x" if "follows broken s d (fn_origin (fg s d)) x" for x
      by (rule follows_mono [OF that]) (simp_all add: res tm)
    show ?thesis unfolding fnode_ok_def N(1,2,3) tm using D N(4,5) W(1) a pl th fol by (auto simp: subset_iff)
  qed
  moreover have "d < fg_size s \<and> fn_origin (fg ?s d) \<noteq> Packaged \<and> fn_result (fg ?s d) = None \<and>
      (\<forall>p. parent (fn_origin (fg ?s d)) = Some p \<longrightarrow> fn_result (fg ?s p) \<noteq> None)" if "d \<in> set (fg_queue s)" for d
  proof -
    have d: "d < fg_size s" "fn_origin (fg s d) \<noteq> Packaged" "fn_result (fg s d) = None" using fg_inv_queue(1) [OF inv that] by blast+
    show ?thesis using d nd(1,2) [OF d(1)] fg_inv_queue(2) [OF inv that] nd(2) [OF par [OF d(1)]] by simp
  qed
  ultimately show ?thesis using inv by (simp add: fg_inv_def tm)
qed

text \<open>What a new state holds is held by the program already.\<close>

lemma alive_added:
  assumes N: "\<And>d. d < fg_size s \<Longrightarrow> fn_origin (N ! d) = fn_origin (fg s d) \<and> fn_f (N ! d) = fn_f (fg s d) \<and> anchored (N ! d) = anchored (fg s d)"
      "N ! fg_size s = new_node k promise" "length N = Suc (fg_size s)"
    and k: "\<And>p. parent k = Some p \<Longrightarrow> anchored (fg s p)" and d: "d < fg_size s" "alive (s\<lparr>fg_nodes := N, fg_queue := q\<rparr>) d"
  shows "alive s d"
proof (rule alive_mono [OF _ _ _ d])
  let ?s = "s\<lparr>fg_nodes := N, fg_queue := q\<rparr>"
  show "anchored (fg s p)" if e: "fg_size s \<le> e" "e < fg_size ?s" "parent (fn_origin (fg ?s e)) = Some p" for e p
  proof -
    have "e = fg_size s" using e(1,2) N(3) by simp
    then show ?thesis using e(3) k N(2) by (simp add: new_node_def)
  qed
qed (use N in \<open>auto intro: alive_anchored\<close>)

lemma set_drop_nth: "d \<in> set q \<Longrightarrow> i < length q \<Longrightarrow> d \<in> set (drop_nth i q) \<or> d = q ! i"
proof -
  assume d: "d \<in> set q" and i: "i < length q"
  have "set q = set (take i q) \<union> {q ! i} \<union> set (drop (Suc i) q)" by (subst (1) id_take_nth_drop [OF i]) auto
  then show ?thesis using d by (auto simp: drop_nth_def)
qed


lemma dequeue_inv:
  assumes inv: "fg_inv broken [] s" and i: "i < length (fg_queue s)"
  shows "fg_inv broken [fg_queue s ! i] (s\<lparr>fg_queue := drop_nth i (fg_queue s)\<rparr>)" (is "fg_inv _ [?c] ?s")
    and "fg_queue s ! i \<notin> set (drop_nth i (fg_queue s))"
proof -
  have q: "fg_queue s = take i (fg_queue s) @ ?c # drop (Suc i) (fg_queue s)" by (rule id_take_nth_drop [OF i])
  have ds: "distinct (take i (fg_queue s) @ ?c # drop (Suc i) (fg_queue s))" using fg_inv_queue(3) [OF inv] q by simp
  then have dd: "distinct (drop_nth i (fg_queue s))" "?c \<notin> set (drop_nth i (fg_queue s))" by (simp_all add: drop_nth_def)
  show "?c \<notin> set (drop_nth i (fg_queue s))" by (rule dd(2))
  have sub: "set (drop_nth i (fg_queue s)) \<subseteq> set (fg_queue s)"
    unfolding drop_nth_def by (auto dest: in_set_takeD in_set_dropD)
  have tm: "times ?s d = times s d" for d by (simp add: times_def)
  have "placed ?s d \<or> d = ?c" if "placed s d" for d
    using that set_drop_nth [OF _ i, of d] by (auto simp: placed_def split: option.splits if_splits)
  moreover have "follows broken ?s d k x" if "follows broken s d k x" for d k x
    by (rule follows_mono [OF that]) (simp_all add: tm)
  ultimately have "fnode_ok broken [?c] ?s d" if "d < fg_size s" for d
    using fg_invD [OF inv that] by (auto simp: fnode_ok_def tm)
  then show "fg_inv broken [?c] ?s" using inv sub dd(1) by (auto simp: fg_inv_def tm)
qed


text \<open>A new state, and its packaged task where the executors or the state it continues find it.\<close>

lemma add_inv:
  assumes inv: "fg_inv broken [] s" and par: "\<And>p. parent k = Some p \<Longrightarrow> held_by_program p s" and pk: "promise \<longleftrightarrow> k = Packaged"
    and q: "q = (if k = Packaged \<or> (\<exists>p. parent k = Some p \<and> fn_result (fg s p) = None) then fg_queue s else fg_queue s @ [fg_size s])"
    and N: "\<And>d. d < fg_size s \<Longrightarrow> N ! d = (fg s d)\<lparr>fn_then := fn_then (fg s d) @
      (if parent k = Some d \<and> fn_result (fg s d) = None then [fg_size s] else [])\<rparr>" "N ! fg_size s = new_node k promise" "length N = Suc (fg_size s)"
  shows "fg_inv broken [] (s\<lparr>fg_nodes := N, fg_queue := q\<rparr>)"
proof -
  let ?c = "fg_size s"
  define t where "t = s\<lparr>fg_nodes := N, fg_queue := q\<rparr>"
  have nd: "fn_origin (fg t d) = fn_origin (fg s d)" "fn_result (fg t d) = fn_result (fg s d)" "fn_f (fg t d) = fn_f (fg s d)"
    "fn_running (fg t d) = fn_running (fg s d)" "fn_promise (fg t d) = fn_promise (fg s d)" "anchored (fg t d) = anchored (fg s d)"
    "fn_then (fg t d) = fn_then (fg s d) @ (if parent k = Some d \<and> fn_result (fg s d) = None then [?c] else [])" if "d < ?c" for d
    using N(1) [OF that] by (simp_all add: t_def anchored_def)
  have c: "fg t ?c = new_node k promise" "fg_size t = Suc ?c" "fg_queue t = q" "fg_calls t = fg_calls s" "fg_settled t = fg_settled s"
    using N(2,3) by (simp_all add: t_def)
  have tm: "times t d = times s d" for d by (simp add: times_def c)
  have "?c \<notin> fst ` set (fg_settled s)" using fg_inv_queue(5) [OF inv] by force
  then have new: "times s ?c = 0" by (auto simp: times_def count_list_0_iff)
  then have nc: "?c \<notin> set (fg_calls s)" using fg_inv_queue(4) [OF inv, of ?c] by (auto simp: count_list_0_iff)
  have pc: "p < ?c" "anchored (fg s p)" if "parent k = Some p" for p using par [OF that] by (simp_all add: held_by_program_def anchored_def)
  have al: "alive s d" if d: "d < ?c" "alive t d" for d
    by (rule alive_added [OF _ N(2,3) pc(2) d(1) d(2) [unfolded t_def]]) (use nd in \<open>simp_all add: t_def\<close>)
  have qs: "set (fg_queue s) \<subseteq> set q" using q by auto
  have pp: "p < ?c" if "d < ?c" "parent (fn_origin (fg s d)) = Some p" for d p using fg_invD(1) [OF inv that] that(1) by simp
  have "fnode_ok broken [] t d" if d: "d < ?c" for d
  proof -
    note D = fg_invD [OF inv d] and M = nd [OF d]
    have res: "fn_result (fg t p) = fn_result (fg s p)" "set (fn_then (fg s p)) \<subseteq> set (fn_then (fg t p))"
      if "parent (fn_origin (fg s d)) = Some p" for p using nd(2,7) [OF pp [OF d that]] by simp_all
    have fol: "follows broken t d (fn_origin (fg s d)) x" if "follows broken s d (fn_origin (fg s d)) x" for x
      by (rule follows_mono [OF that]) (simp_all add: res tm c)
    have pl: "placed t d" if "placed s d"
    proof (cases "parent (fn_origin (fg s d))")
      case None
      then show ?thesis using that qs M(1,5) c(3) by (auto simp: placed_def)
    next
      case (Some p)
      then show ?thesis using that qs res [OF Some] M(1) c(3) by (auto simp: placed_def split: if_splits)
    qed
    have th: "e < fg_size t \<and> parent (fn_origin (fg t e)) = Some d \<and> fn_result (fg s d) = None \<and> fn_result (fg t e) = None"
      if "e \<in> set (fn_then (fg t d))" for e
    proof -
      from that consider "e \<in> set (fn_then (fg s d))" | "e = ?c" "parent k = Some d" "fn_result (fg s d) = None"
        unfolding M(7) by (auto split: if_splits)
      then show ?thesis
      proof cases
        case 1
        then have "e < ?c" using D(5) by blast
        then show ?thesis using D(5) [OF 1] nd(1,2) [of e] c(2) by simp
      next
        case 2
        then show ?thesis using c(1,2) by (simp add: new_node_def)
      qed
    qed
    have "?c \<notin> set (fn_then (fg s d))" using D(5) by blast
    then have "distinct (fn_then (fg t d))" using D(4) M(7) by auto
    then show ?thesis unfolding fnode_ok_def M(1-5) tm c(4,5) using D al [OF d] pl th fol by auto
  qed
  moreover have "fnode_ok broken [] t ?c"
  proof -
    have "placed t ?c"
    proof (cases "parent k")
      case None
      then show ?thesis using q pk by (cases k) (auto simp: placed_def c new_node_def)
    next
      case (Some p)
      then show ?thesis using q nd(2,7) [OF pc(1) [OF Some]] by (auto simp: placed_def c new_node_def)
    qed
    then show ?thesis using pk pc new nc unfolding fnode_ok_def c(1,4) tm by (auto simp: new_node_def)
  qed
  moreover have "d < fg_size t \<and> fn_origin (fg t d) \<noteq> Packaged \<and> fn_result (fg t d) = None \<and>
      (\<forall>p. parent (fn_origin (fg t d)) = Some p \<longrightarrow> fn_result (fg t p) \<noteq> None)" if "d \<in> set q" for d
  proof (cases "d \<in> set (fg_queue s)")
    case True
    then have d: "d < ?c" "fn_origin (fg s d) \<noteq> Packaged" "fn_result (fg s d) = None" using fg_inv_queue(1) [OF inv] by blast+
    then show ?thesis using nd(1,2) [OF d(1)] nd(2) [OF pp [OF d(1)]] fg_inv_queue(2) [OF inv True] c(2) by simp
  next
    case False
    then have "d = ?c" "k \<noteq> Packaged" "\<And>p. parent k = Some p \<Longrightarrow> fn_result (fg s p) \<noteq> None" using that q by (auto split: if_splits)
    then show ?thesis using nd(2) [OF pc(1)] c(1,2) by (simp add: new_node_def)
  qed
  moreover have "distinct q" using q fg_inv_queue(1) [OF inv, of ?c] fg_inv_queue(3) [OF inv] by auto
  ultimately show ?thesis using inv unfolding t_def [symmetric] fg_inv_def c(2-5) tm by (auto simp: less_Suc_eq)
qed

lemma async_inv:
  assumes "fg_inv broken [] s"
  shows "fg_inv broken [] (fg_async r s)" "fg_inv broken [] (add_future Packaged True s)"
proof -
  have "fg_inv broken [] (s\<lparr>fg_nodes := fg_nodes s @ [new_node (Task_Of r) False], fg_queue := fg_queue s @ [fg_size s]\<rparr>)"
    by (rule add_inv [OF assms]) (simp_all add: nth_append)
  then show "fg_inv broken [] (fg_async r s)" by (simp add: fg_async_def add_future_def Let_def)
  have "fg_inv broken [] (s\<lparr>fg_nodes := fg_nodes s @ [new_node Packaged True], fg_queue := fg_queue s\<rparr>)"
    by (rule add_inv [OF assms]) (simp_all add: nth_append)
  then show "fg_inv broken [] (add_future Packaged True s)" by (simp add: add_future_def)
qed

lemma attach_inv:
  assumes inv: "fg_inv broken [] s" and u: "held_by_program u s" and k: "parent k = Some u"
  shows "fg_inv broken [] (attach u k s)"
proof -
  let ?n = "new_node k False" and ?c = "fg_size s"
  have uc: "u < ?c" using u by (simp add: held_by_program_def)
  show ?thesis
  proof (cases "fn_result (fg s u) = None")
    case True
    let ?N = "(fg_nodes s)[u := (fg s u)\<lparr>fn_then := fn_then (fg s u) @ [?c]\<rparr>] @ [?n]"
    have "fg_inv broken [] (s\<lparr>fg_nodes := ?N, fg_queue := fg_queue s\<rparr>)"
      by (rule add_inv [OF inv]) (use u k True uc in \<open>auto simp: nth_append nth_list_update\<close>)
    moreover have "attach u k s = s\<lparr>fg_nodes := ?N, fg_queue := fg_queue s\<rparr>"
      using True uc by (simp add: attach_def add_future_def fg_set_def Let_def list_update_append)
    ultimately show ?thesis by simp
  next
    case False
    have "fg_inv broken [] (s\<lparr>fg_nodes := fg_nodes s @ [?n], fg_queue := fg_queue s @ [?c]\<rparr>)"
      by (rule add_inv [OF inv]) (use u k False uc in \<open>auto simp: nth_append\<close>)
    then show ?thesis using False by (simp add: attach_def add_future_def Let_def)
  qed
qed


lemma fg_step_inv:
  assumes inv: "fg_inv broken [] s"
  shows "\<exists>s'. fg_step broken x s = Inr s' \<and> fg_inv broken [] s'"
proof (cases x)
  case (F_Call u r)
  show ?thesis
  proof (cases "u < fg_size s \<and> fn_promise (fg s u)")
    case True
    then have k: "fn_origin (fg s u) = Packaged" using fg_invD(2) [OF inv] by blast
    then have "u \<notin> set (fg_queue s)" using fg_inv_queue(1) [OF inv, of u] by blast
    then have "\<exists>s'. invoke (Some r) u s = Inr s' \<and> fg_inv broken [] s'"
      by (intro invoke_inv) (use True k fg_inv_more [OF inv] in auto)
    then show ?thesis using True F_Call by simp
  qed (use inv F_Call in auto)
next
  case (F_Return u)
  have "fg_inv broken [] (return_call u s)" if u: "u < fg_size s"
  proof (cases "0 < fn_running (fg s u)")
    case True
    then have "fn_result (fg s u) \<noteq> None" using fg_invD(3) [OF inv u] by auto
    then have "fg_inv broken [] (fg_set u ((fg s u)\<lparr>fn_f := False, fn_running := fn_running (fg s u) - 1\<rparr>) s)"
      by (intro touch_inv [OF inv u]) (use True in \<open>auto simp: anchored_def\<close>)
    then show ?thesis using True by (simp add: return_call_def Let_def)
  qed (simp add: return_call_def inv)
  then show ?thesis using inv F_Return by simp
next
  case (F_Fail u e)
  then show ?thesis using inv fail_inv [OF inv] by simp
next
  case (F_Break u)
  show ?thesis
  proof (cases "u < fg_size s \<and> fn_promise (fg s u)")
    case True
    let ?s = "fg_set u ((fg s u)\<lparr>fn_promise := False\<rparr>) s"
    have i: "fg_inv broken [u] ?s"
      by (rule touch_inv [OF inv]) (use True in \<open>auto simp: anchored_def\<close>)
    have k: "fn_origin (fg s u) = Packaged" using True fg_invD(2) [OF inv] by blast
    then have "in_hand [u] ?s" using True fg_inv_queue(1) [OF inv, of u] by (auto simp: in_hand_def)
    from break_inv [OF i this] show ?thesis using True F_Break by simp
  qed (use inv F_Break in auto)
next
  case (F_Copy u)
  have "fg_inv broken [] (fg_set u ((fg s u)\<lparr>fn_handles := fn_handles (fg s u) + 1\<rparr>) s)" if "held_by_program u s"
    by (rule touch_inv [OF inv]) (use that in \<open>auto simp: anchored_def held_by_program_def\<close>)
  then show ?thesis using inv F_Copy by auto
next
  case (F_Drop u)
  have "fg_inv broken [] (fg_set u ((fg s u)\<lparr>fn_handles := fn_handles (fg s u) - 1\<rparr>) s)" if "held_by_program u s"
    by (rule touch_inv [OF inv]) (use that in \<open>auto simp: anchored_def held_by_program_def\<close>)
  then show ?thesis using inv F_Drop by auto
next
  case (F_Detach u)
  have "fg_inv broken [] (fg_set u ((fg s u)\<lparr>fn_hold := True\<rparr>) s)" if "held_by_program u s"
    by (rule touch_inv [OF inv]) (use that in \<open>auto simp: anchored_def held_by_program_def\<close>)
  then show ?thesis using inv F_Detach by auto
next
  case (F_Execute i)
  show ?thesis
  proof (cases "i < length (fg_queue s)")
    case True
    then have c: "fg_queue s ! i \<in> set (fg_queue s)" by simp
    have "\<exists>s'. invoke None (fg_queue s ! i) (s\<lparr>fg_queue := drop_nth i (fg_queue s)\<rparr>) = Inr s' \<and> fg_inv broken [] s'"
      by (rule invoke_inv [OF dequeue_inv(1) [OF inv True]])
        (use dequeue_inv(2) [OF inv True] fg_inv_queue(1,2) [OF inv c] in auto)
    then show ?thesis using True F_Execute by simp
  qed (use inv F_Execute in auto)
qed (use inv async_inv in \<open>auto intro!: attach_inv\<close>)

interpretation fgm: safe_machine "fg_inv broken []" "\<lambda>_. True" "fg_step broken" for broken
  by unfold_locales (rule fg_step_inv)


section \<open>Results\<close>

lemma reachable_graph:
  assumes "run_ops (fg_step broken) ops fg_init = Inr s"
  shows "fg_inv broken [] s"
  using fgm.run_safe [OF fg_inv_init, of ops broken] assms by (auto simp: list_all_iff)

text \<open>The outcomes that the program gave to a packaged task: those of its calls, and exceptions.\<close>

definition gives :: "nat \<Rightarrow> 'e + 'v \<Rightarrow> ('v, 'e) fg_op \<Rightarrow> bool" where
  "gives c r x \<longleftrightarrow> (case x of F_Call u r' \<Rightarrow> u = c \<and> r = r' | F_Fail u e \<Rightarrow> u = c \<and> r = Inl e | _ \<Rightarrow> False)"

text \<open>No packaged task is called while another call of it is under way.\<close>

fun calls_apart :: "'e \<Rightarrow> ('v, 'e) fg_op list \<Rightarrow> ('v, 'e) fgraph \<Rightarrow> bool" where
  "calls_apart broken [] s \<longleftrightarrow> True"
| "calls_apart broken (x # ops) s \<longleftrightarrow>
     (case x of F_Call u r \<Rightarrow> u < fg_size s \<longrightarrow> fn_running (fg s u) = 0 | _ \<Rightarrow> True) \<and>
     (case fg_step broken x s of Inl e \<Rightarrow> True | Inr s' \<Rightarrow> calls_apart broken ops s')"

lemma break_keeps:
  "let s' = break_tasks broken W s in fg_size s' = fg_size s \<and> fg_queue s' = fg_queue s \<and> fg_calls s' = fg_calls s \<and> fg_settled s' = fg_settled s \<and>
    (\<forall>d < fg_size s. fn_origin (fg s' d) = fn_origin (fg s d) \<and> fn_handles (fg s' d) = fn_handles (fg s d) \<and>
      (fn_f (fg s' d) \<longrightarrow> fn_f (fg s d)) \<and>
      (fn_result (fg s' d) = fn_result (fg s d) \<or>
        fn_result (fg s d) = None \<and> fn_result (fg s' d) = Some (Inl broken) \<and> \<not> fn_f (fg s' d)))"
proof (induction broken W s rule: break_tasks.induct)
  case (2 broken c cs s)
  show ?case
  proof (cases "c < fg_size s \<and> alive s c \<and> fn_result (fg s c) = None")
    case True
    let ?s = "fg_set c ((fg s c)\<lparr>fn_result := Some (Inl broken), fn_then := [], fn_f := False\<rparr>) s"
    have e: "break_tasks broken (c # cs) s = break_tasks broken (fn_then (fg s c) @ cs) ?s" using True by simp
    show ?thesis unfolding e using "2.IH"(1) [OF True] True by (auto simp: Let_def fg_set_nth split: if_splits)
  next
    case False
    then have "break_tasks broken (c # cs) s = break_tasks broken cs s" by (simp only: break_tasks.simps False if_False)
    then show ?thesis using "2.IH"(2) [OF False] by argo
  qed
qed (simp add: Let_def)

text \<open>What a call of a packaged task does, in one piece.\<close>

lemma invoke_cases:
  assumes "invoke given c s = Inr s'" and "c < fg_size s"
  obtains "s' = s" "\<not> (alive s c \<and> fn_f (fg s c))"
    | r b r' where "alive s c" "fn_f (fg s c)" "outcome s given (fn_origin (fg s c)) = Inr (r, b)" "r' = written (fn_result (fg s c)) r"
      "s' = (fg_set c ((fg s c)\<lparr>fn_result := Some r', fn_then := [], fn_running := fn_running (fg s c) + 1\<rparr>) s)
        \<lparr>fg_queue := fg_queue s @ fn_then (fg s c), fg_calls := fg_calls s @ (if b then [c] else []), fg_settled := fg_settled s @ [(c, r')]\<rparr>"
proof (cases "alive s c \<and> fn_f (fg s c)")
  case True
  then obtain r b where o: "outcome s given (fn_origin (fg s c)) = Inr (r, b)"
    using assms(1) by (cases "outcome s given (fn_origin (fg s c))") (auto simp: invoke_def Let_def)
  have "s' = (fg_set c ((fg s c)\<lparr>fn_result := Some (written (fn_result (fg s c)) r), fn_then := [], fn_running := fn_running (fg s c) + 1\<rparr>) s)
      \<lparr>fg_queue := fg_queue s @ fn_then (fg s c), fg_calls := fg_calls s @ (if b then [c] else []),
        fg_settled := fg_settled s @ [(c, written (fn_result (fg s c)) r)]\<rparr>"
    using assms(1) True o by (simp add: invoke_eq [OF assms(2)] Let_def)
  then show ?thesis by (rule that(2) [OF conjunct1 [OF True] conjunct2 [OF True] o refl])
next
  case False
  then show ?thesis using that(1) assms(1) by (simp only: invoke_eq [OF assms(2)] if_False) simp
qed

lemma set_exception_eq:
  "set_exception c e s = (if alive s c then
     (fg_set c ((fg s c)\<lparr>fn_result := Some (written (fn_result (fg s c)) (Inl e)), fn_then := []\<rparr>) s)
       \<lparr>fg_queue := fg_queue s @ fn_then (fg s c), fg_settled := fg_settled s @ [(c, written (fn_result (fg s c)) (Inl e))]\<rparr> else s)"
  by (simp add: set_exception_def settle_def Let_def)

lemma written_new: "written old r = r \<or> old = Some (written old r)"
  by (auto simp: written_def split: option.splits sum.splits)

text \<open>How a step changes the two logs.\<close>

lemma step_logs:
  assumes inv: "fg_inv broken [] s" and st: "fg_step broken x s = Inr s'"
  obtains "fg_settled s' = fg_settled s" "fg_calls s' = fg_calls s"
    | u r where "x = F_Call u r" "u < fg_size s" "fn_f (fg s u)" "fg_settled s' = fg_settled s @ [(u, written (fn_result (fg s u)) r)]"
      "fg_calls s' = fg_calls s @ [u]"
    | u e where "x = F_Fail u e" "u < fg_size s" "fg_settled s' = fg_settled s @ [(u, written (fn_result (fg s u)) (Inl e))]" "fg_calls s' = fg_calls s"
    | u r b where "u < fg_size s" "fn_origin (fg s u) \<noteq> Packaged" "fn_result (fg s u) = None" "fg_settled s' = fg_settled s @ [(u, r)]"
      "fg_calls s' = fg_calls s @ (if b then [u] else [])"
proof (cases x)
  case (F_Call u r)
  show ?thesis
  proof (cases "u < fg_size s \<and> fn_promise (fg s u)")
    case True
    then have i: "invoke (Some r) u s = Inr s'" and k: "fn_origin (fg s u) = Packaged" using st F_Call fg_invD(2) [OF inv, of u] by simp_all
    from i True show ?thesis
      by (elim invoke_cases) (use that(1,2) F_Call True k in \<open>auto simp: outcome_def\<close>)
  qed (use st that(1) F_Call in auto)
next
  case (F_Execute i)
  show ?thesis
  proof (cases "i < length (fg_queue s)")
    case True
    then have "fg_queue s ! i \<in> set (fg_queue s)" by simp
    note Q = fg_inv_queue(1) [OF inv this]
    have iv: "invoke None (fg_queue s ! i) (s\<lparr>fg_queue := drop_nth i (fg_queue s)\<rparr>) = Inr s'" using st True F_Execute by simp
    from iv show ?thesis
    proof (rule invoke_cases)
      show "fg_queue s ! i < fg_size (s\<lparr>fg_queue := drop_nth i (fg_queue s)\<rparr>)" using Q by simp
    qed (use that(1,4) Q in auto)
  qed (use st that(1) F_Execute in auto)
next
  case (F_Fail u e)
  then show ?thesis using st that(1,3) by (auto simp: set_exception_eq split: if_splits)
next
  case (F_Return u)
  then show ?thesis using st that(1) by (auto simp: return_call_def Let_def split: if_splits)
next
  case (F_Break u)
  let ?s = "fg_set u ((fg s u)\<lparr>fn_promise := False\<rparr>) s"
  show ?thesis using st that(1) F_Break break_keeps [of broken "[u]" ?s] by (auto simp: Let_def simp del: break_tasks.simps split: if_splits)
qed (use st that(1) in \<open>auto simp: fg_async_def add_future_def attach_def Let_def split: if_splits\<close>)


lemma set_origin:
  "c < length ns \<Longrightarrow> fn_origin n = fn_origin (ns ! u) \<Longrightarrow> fn_origin (ns[u := n] ! c) = fn_origin (ns ! c)"
  by (cases "c = u") simp_all

lemma attach_origin:
  assumes "held_by_program u s"
  shows "fg_size (attach u k s) = Suc (fg_size s)" "c < fg_size s \<Longrightarrow> fn_origin (fg (attach u k s) c) = fn_origin (fg s c)"
  using assms by (auto simp: attach_def add_future_def fg_set_def held_by_program_def Let_def nth_append set_origin)

lemma step_origin:
  assumes inv: "fg_inv broken [] s" and st: "fg_step broken x s = Inr s'"
  shows "fg_size s \<le> fg_size s' \<and> (\<forall>c < fg_size s. fn_origin (fg s' c) = fn_origin (fg s c))"
proof (cases x)
  case (F_Call u r)
  show ?thesis
  proof (cases "u < fg_size s \<and> fn_promise (fg s u)")
    case True
    then have "invoke (Some r) u s = Inr s'" using st F_Call by simp
    then show ?thesis by (rule invoke_cases) (use True in \<open>auto simp: fg_set_nth\<close>)
  qed (use st F_Call in auto)
next
  case (F_Execute i)
  show ?thesis
  proof (cases "i < length (fg_queue s)")
    case True
    then have "fg_queue s ! i \<in> set (fg_queue s)" by simp
    note Q = fg_inv_queue(1) [OF inv this]
    have "invoke None (fg_queue s ! i) (s\<lparr>fg_queue := drop_nth i (fg_queue s)\<rparr>) = Inr s'" using st True F_Execute by simp
    then show ?thesis
    proof (rule invoke_cases)
      show "fg_queue s ! i < fg_size (s\<lparr>fg_queue := drop_nth i (fg_queue s)\<rparr>)" using Q by simp
    qed (use Q in \<open>auto simp: fg_set_def nth_list_update\<close>)
  qed (use st F_Execute in auto)
next
  case (F_Break u)
  let ?s = "fg_set u ((fg s u)\<lparr>fn_promise := False\<rparr>) s"
  show ?thesis using st F_Break break_keeps [of broken "[u]" ?s]
    by (auto simp: Let_def fg_set_nth simp del: break_tasks.simps split: if_splits)
qed (use st in \<open>auto simp: fg_async_def add_future_def attach_origin return_call_def set_exception_eq fg_set_def nth_append set_origin Let_def split: if_splits\<close>)

lemma step_given:
  assumes inv: "fg_inv broken [] s" and st: "fg_step broken x s = Inr s'" and m: "(c, r) \<in> set (fg_settled s')" and k: "fn_origin (fg s' c) = Packaged"
  shows "r = Inl broken \<or> (c, r) \<in> set (fg_settled s) \<or> gives c r x"
  using inv st
proof (rule step_logs)
  fix u y assume y: "x = F_Call u y" "u < fg_size s" "fg_settled s' = fg_settled s @ [(u, written (fn_result (fg s u)) y)]"
  then show ?thesis using m written_new [of "fn_result (fg s u)" y] fg_invD(6) [OF inv y(2)] by (auto simp: gives_def)
next
  fix u e assume y: "x = F_Fail u e" "u < fg_size s" "fg_settled s' = fg_settled s @ [(u, written (fn_result (fg s u)) (Inl e))]"
  then show ?thesis using m written_new [of "fn_result (fg s u)" "Inl e"] fg_invD(6) [OF inv y(2)] by (auto simp: gives_def)
next
  fix u y assume y: "u < fg_size s" "fn_origin (fg s u) \<noteq> Packaged" "fg_settled s' = fg_settled s @ [(u, y)]"
  then show ?thesis using m k step_origin [OF inv st] by auto
qed (use m in auto)

lemma run_given:
  "run_ops (fg_step broken) ops s = Inr s' \<Longrightarrow> fg_inv broken [] s \<Longrightarrow> fg_size s \<le> fg_size s' \<and>
    (\<forall>c < fg_size s. fn_origin (fg s' c) = fn_origin (fg s c)) \<and>
    (\<forall>(c, r) \<in> set (fg_settled s'). fn_origin (fg s' c) = Packaged \<longrightarrow> r = Inl broken \<or> (c, r) \<in> set (fg_settled s) \<or> list_ex (gives c r) ops)"
proof (induction ops arbitrary: s)
  case (Cons x ops)
  from fg_step_inv [OF Cons.prems(2), of x] Cons.prems(1) obtain s1 where
    s1: "fg_step broken x s = Inr s1" "fg_inv broken [] s1" "run_ops (fg_step broken) ops s1 = Inr s'" by auto
  note IH = Cons.IH [OF s1(3,2)] and O = step_origin [OF Cons.prems(2) s1(1)]
  have "r = Inl broken \<or> (c, r) \<in> set (fg_settled s) \<or> list_ex (gives c r) (x # ops)"
    if m: "(c, r) \<in> set (fg_settled s')" "fn_origin (fg s' c) = Packaged" for c r
  proof (cases "(c, r) \<in> set (fg_settled s1)")
    case True
    then have "c < fg_size s1" by (rule fg_inv_queue(5) [OF s1(2)])
    then show ?thesis using step_given [OF Cons.prems(2) s1(1) True] IH m(2) by auto
  qed (use IH m in auto)
  then show ?case using IH O by auto
qed auto

text \<open>A function that is gone or being called is called once.\<close>

lemma apart_step:
  assumes inv: "fg_inv broken [] s" and st: "fg_step broken x s = Inr s'" and d: "distinct (fg_calls s)"
    and apart: "\<And>u r. x = F_Call u r \<Longrightarrow> u < fg_size s \<Longrightarrow> fn_running (fg s u) = 0"
  shows "distinct (fg_calls s')"
  using inv st
proof (rule step_logs)
  fix u y assume y: "x = F_Call u y" "u < fg_size s" "fn_f (fg s u)" "fg_calls s' = fg_calls s @ [u]"
  have "u \<notin> set (fg_calls s)" using fg_invD(9) [OF inv y(2) _ y(3)] apart [OF y(1,2)] by auto
  then show ?thesis using d y(4) by simp
next
  fix u b assume y: "u < fg_size s" "fn_result (fg s u) = None" "fg_calls s' = fg_calls s @ (if b then [u] else [])"
  have "times s u = 0" using fg_invD(3) [OF inv y(1,2)] by blast
  then have "u \<notin> set (fg_calls s)" using fg_inv_queue(4) [OF inv, of u] by (auto simp: count_list_0_iff)
  then show ?thesis using d y(3) by simp
qed (use d in auto)

lemma apart_run:
  "run_ops (fg_step broken) ops s = Inr s' \<Longrightarrow> fg_inv broken [] s \<Longrightarrow> distinct (fg_calls s) \<Longrightarrow> calls_apart broken ops s \<Longrightarrow> distinct (fg_calls s')"
proof (induction ops arbitrary: s)
  case (Cons x ops)
  from fg_step_inv [OF Cons.prems(2), of x] Cons.prems(1) obtain s1 where
    s1: "fg_step broken x s = Inr s1" "fg_inv broken [] s1" "run_ops (fg_step broken) ops s1 = Inr s'" by auto
  have "distinct (fg_calls s1)" by (rule apart_step [OF Cons.prems(2) s1(1) Cons.prems(3)]) (use Cons.prems(4) in auto)
  then show ?case using Cons.IH [OF s1(3,2)] Cons.prems(4) s1(1) by simp
qed simp

text \<open>
  C10. Futures compose: whatever a program does with futures and in whatever order the executors run the tasks, the
  result of a future made by \<open>then\<close> is the exception of the future it continues, or its function applied to the
  value; that of one made by \<open>recover\<close> is its function applied to the outcome, value or exception; that of \<open>async\<close> is
  what its function gives; that of a packaged task is the outcome of one of its calls or an exception set through it; unless a promise
  was broken. A source that is written again (a second call that overlaps the first, or \<open>set_exception\<close>) may have had another outcome when
  the continuation ran. A function given to \<open>async\<close>, \<open>then\<close> or \<open>recover\<close> is called at most once; one given to \<open>package\<close> as well, unless
  it is called again before a call of it has ended.
\<close>
theorem future_composition:
  assumes "run_ops (fg_step broken) ops fg_init = Inr s" and "c < fg_size s"
  shows "(\<forall>r. fn_result (fg s c) = Some r \<longrightarrow> r = Inl broken \<or>
      follows broken s c (fn_origin (fg s c)) r \<and> (fn_origin (fg s c) = Packaged \<longrightarrow> list_ex (gives c r) ops)) \<and>
    (fn_origin (fg s c) \<noteq> Packaged \<longrightarrow> count_list (fg_calls s) c \<le> 1) \<and>
    (calls_apart broken ops fg_init \<longrightarrow> distinct (fg_calls s))"
proof -
  note inv = reachable_graph [OF assms(1)]
  note D = fg_invD [OF inv assms(2)]
  have "r = Inl broken \<or> follows broken s c (fn_origin (fg s c)) r \<and> (fn_origin (fg s c) = Packaged \<longrightarrow> list_ex (gives c r) ops)"
    if "fn_result (fg s c) = Some r" for r
    using D(6) [OF that] run_given [OF assms(1) fg_inv_init] by (auto simp: fg_init_def)
  moreover have "count_list (fg_calls s) c \<le> 1" if "fn_origin (fg s c) \<noteq> Packaged"
    using D(8) [OF that] fg_inv_queue(4) [OF inv, of c] by simp
  moreover have "distinct (fg_calls s)" if "calls_apart broken ops fg_init"
    by (rule apart_run [OF assms(1) fg_inv_init _ that]) (simp add: fg_init_def)
  ultimately show ?thesis by blast
qed


section \<open>Delivery\<close>

definition fg_load :: "('v, 'e) fgraph \<Rightarrow> nat" where
  "fg_load s = length (fg_queue s) + sum_list (map (\<lambda>n. length (fn_then n)) (fg_nodes s))"

lemma set_load:
  assumes "c < fg_size s"
  shows "sum_list (map (\<lambda>n. length (fn_then n)) (fg_nodes (fg_set c n s))) + length (fn_then (fg s c)) =
    sum_list (map (\<lambda>n. length (fn_then n)) (fg_nodes s)) + length (fn_then n)"
  unfolding fg_set_def using sum_list_update [OF assms, of "\<lambda>n. length (fn_then n)" n] by simp

text \<open>An executor runs its first task.\<close>

lemma execute_one:
  assumes inv: "fg_inv broken [] s" and q: "fg_queue s = c # q"
  shows "\<exists>s'. fg_step broken (F_Execute 0) s = Inr s' \<and> fg_inv broken [] s' \<and> fg_load s' = fg_load s - 1 \<and> fg_size s' = fg_size s \<and>
    (\<forall>d < fg_size s. fn_handles (fg s' d) = fn_handles (fg s d) \<and> fn_promise (fg s' d) = fn_promise (fg s d) \<and>
      (fn_result (fg s d) \<noteq> None \<longrightarrow> fn_result (fg s' d) \<noteq> None))"
proof -
  let ?s = "s\<lparr>fg_queue := q\<rparr>"
  have Q: "c < fg_size s" "fn_origin (fg s c) \<noteq> Packaged" "fn_result (fg s c) = None" using fg_inv_queue(1) [OF inv, of c] q by auto
  from fg_step_inv [OF inv, of "F_Execute 0"] obtain s' where s': "fg_step broken (F_Execute 0) s = Inr s'" "fg_inv broken [] s'" by blast
  have "invoke None c ?s = Inr s'" using s'(1) q by (simp add: drop_nth_def)
  then have "fg_load s' = fg_load s - 1 \<and> fg_size s' = fg_size s \<and>
    (\<forall>d < fg_size s. fn_handles (fg s' d) = fn_handles (fg s d) \<and> fn_promise (fg s' d) = fn_promise (fg s d) \<and>
      (fn_result (fg s d) \<noteq> None \<longrightarrow> fn_result (fg s' d) \<noteq> None))"
  proof (rule invoke_cases)
    show "c < fg_size ?s" using Q by simp
    assume "s' = ?s"
    then show ?thesis using q by (simp add: fg_load_def)
  next
    fix r b r'
    let ?n = "(fg ?s c)\<lparr>fn_result := Some r', fn_then := [], fn_running := fn_running (fg ?s c) + 1\<rparr>"
    assume e: "s' = (fg_set c ?n ?s)\<lparr>fg_queue := fg_queue ?s @ fn_then (fg ?s c), fg_calls := fg_calls ?s @ (if b then [c] else []),
      fg_settled := fg_settled ?s @ [(c, r')]\<rparr>"
    have "fg_load s' = fg_load s - 1" using set_load [of c ?s ?n] Q(1) q by (simp add: fg_load_def e)
    then show ?thesis using Q(1) by (auto simp: e fg_set_nth)
  qed
  then show ?thesis using s' by blast
qed

lemma execute_all:
  "fg_inv broken [] s \<Longrightarrow> fg_load s = n \<Longrightarrow> \<exists>s'. run_ops (fg_step broken) (replicate n (F_Execute 0)) s = Inr s' \<and> fg_inv broken [] s' \<and>
    fg_queue s' = [] \<and> fg_size s' = fg_size s \<and>
    (\<forall>d < fg_size s. fn_handles (fg s' d) = fn_handles (fg s d) \<and> fn_promise (fg s' d) = fn_promise (fg s d) \<and>
      (fn_result (fg s d) \<noteq> None \<longrightarrow> fn_result (fg s' d) \<noteq> None))"
proof (induction n arbitrary: s)
  case 0
  then show ?case by (auto simp: fg_load_def)
next
  case (Suc n)
  show ?case
  proof (cases "fg_queue s")
    case Nil
    have "fg_step broken (F_Execute 0) s = Inr s" using Nil by simp
    then have "run_ops (fg_step broken) (replicate k (F_Execute 0)) s = Inr s" for k by (induction k) simp_all
    then show ?thesis using Suc.prems Nil by blast
  next
    case (Cons c q)
    from execute_one [OF Suc.prems(1) Cons] obtain s1 where s1: "fg_step broken (F_Execute 0) s = Inr s1" "fg_inv broken [] s1"
      "fg_load s1 = n" "fg_size s1 = fg_size s"
      "\<forall>d < fg_size s. fn_handles (fg s1 d) = fn_handles (fg s d) \<and> fn_promise (fg s1 d) = fn_promise (fg s d) \<and>
        (fn_result (fg s d) \<noteq> None \<longrightarrow> fn_result (fg s1 d) \<noteq> None)" using Suc.prems(2) by auto
    from Suc.IH [OF s1(2,3)] s1 show ?thesis by auto
  qed
qed

lemma rest_ready:
  assumes inv: "fg_inv broken [] s" and q: "fg_queue s = []" and p: "\<And>c. c < fg_size s \<Longrightarrow> fn_promise (fg s c) \<Longrightarrow> fn_result (fg s c) \<noteq> None"
  shows "c < fg_size s \<Longrightarrow> alive s c \<Longrightarrow> fn_result (fg s c) \<noteq> None"
proof (induction c rule: less_induct)
  case (less c)
  show ?case
  proof
    assume r: "fn_result (fg s c) = None"
    then have pl: "placed s c" using fg_invD(7) [OF inv less.prems(1,2)] by simp
    show False
    proof (cases "parent (fn_origin (fg s c))")
      case None
      then show False using pl q p [OF less.prems(1)] r by (simp add: placed_def)
    next
      case (Some u)
      have u: "u < c" using fg_invD(1) [OF inv less.prems(1) Some] .
      have "alive s u" using alive_child [OF Some u less.prems(1)] fg_invD(3) [OF inv less.prems(1)] r less.prems(2) by simp
      then have "fn_result (fg s u) \<noteq> None" using less.IH [OF u] u less.prems(1) by simp
      then show False using pl q Some by (auto simp: placed_def)
    qed
  qed
qed

text \<open>
  C30. Futures are delivered: once the state of every packaged task that the program holds is ready, the executors come to rest
  after running as many tasks as are queued and waiting, and then every future that the program holds is ready.
\<close>
theorem future_delivery:
  assumes "run_ops (fg_step broken) ops fg_init = Inr s"
    and "\<And>c. c < fg_size s \<Longrightarrow> fn_promise (fg s c) \<Longrightarrow> fn_result (fg s c) \<noteq> None"
  shows "\<exists>s'. run_ops (fg_step broken) (replicate (fg_load s) (F_Execute 0)) s = Inr s' \<and> fg_queue s' = [] \<and>
    (\<forall>c. held_by_program c s \<longrightarrow> fn_result (fg s' c) \<noteq> None)"
proof -
  from execute_all [OF reachable_graph [OF assms(1)] refl] obtain s' where s':
    "run_ops (fg_step broken) (replicate (fg_load s) (F_Execute 0)) s = Inr s'" "fg_inv broken [] s'" "fg_queue s' = []" "fg_size s' = fg_size s"
    "\<forall>d < fg_size s. fn_handles (fg s' d) = fn_handles (fg s d) \<and> fn_promise (fg s' d) = fn_promise (fg s d) \<and>
      (fn_result (fg s d) \<noteq> None \<longrightarrow> fn_result (fg s' d) \<noteq> None)" by blast
  have "fn_result (fg s' c) \<noteq> None" if "held_by_program c s" for c
  proof (rule rest_ready [OF s'(2,3)])
    show "c < fg_size s'" "alive s' c" using that s'(4,5) by (auto simp: held_by_program_def anchored_def intro: alive_anchored)
  qed (use s'(4,5) assms(2) in auto)
  then show ?thesis using s'(1,3) by blast
qed

section \<open>Cancellation\<close>

lemma invoke_alive:
  assumes "invoke given c s = Inr s'"
  shows "fg_size s' = fg_size s \<and> (d < fg_size s \<longrightarrow> alive s' d \<longrightarrow> alive s d) \<and>
    (d < fg_size s \<longrightarrow> \<not> alive s d \<longrightarrow> d \<in> set (fg_calls s') \<longleftrightarrow> d \<in> set (fg_calls s))"
proof (cases "c < fg_size s")
  case True
  show ?thesis using assms True
  proof (rule invoke_cases)
    fix r b r'
    let ?n = "(fg s c)\<lparr>fn_result := Some r', fn_then := [], fn_running := fn_running (fg s c) + 1\<rparr>"
    assume c: "alive s c" and e: "s' = (fg_set c ?n s)\<lparr>fg_queue := fg_queue s @ fn_then (fg s c), fg_calls := fg_calls s @ (if b then [c] else []),
      fg_settled := fg_settled s @ [(c, r')]\<rparr>"
    have "alive s d" if "d < fg_size s" "alive s' d" using that c alive_set [OF True, of ?n d] by (simp add: e)
    then show ?thesis using c by (auto simp: e)
  qed simp
next
  case False
  then have "fg_nodes s' = fg_nodes s \<and> (d < fg_size s \<longrightarrow> d \<in> set (fg_calls s') \<longleftrightarrow> d \<in> set (fg_calls s))"
    using assms by (auto simp: invoke_def settle_def fg_set_def list_update_beyond Let_def bindR_def split: if_splits sum.splits)
  then show ?thesis using alive_cong [of s' s d] by simp
qed

lemma break_alive:
  "fg_size (break_tasks broken W s) = fg_size s \<and> fg_calls (break_tasks broken W s) = fg_calls s \<and>
    (d < fg_size s \<longrightarrow> alive (break_tasks broken W s) d \<longrightarrow> alive s d)"
proof (induction broken W s rule: break_tasks.induct)
  case (2 broken c cs s)
  show ?case
  proof (cases "c < fg_size s \<and> alive s c \<and> fn_result (fg s c) = None")
    case True
    let ?n = "(fg s c)\<lparr>fn_result := Some (Inl broken), fn_then := [], fn_f := False\<rparr>"
    have "alive s d" if "d < fg_size s" "alive (fg_set c ?n s) d" using True that alive_set [of c s ?n d] by (simp add: anchored_def)
    then show ?thesis using "2.IH"(1) [OF True] by (simp only: break_tasks.simps True if_True) auto
  next
    case False
    then have "break_tasks broken (c # cs) s = break_tasks broken cs s" by (simp only: break_tasks.simps False if_False)
    then show ?thesis using "2.IH"(2) [OF False] by argo
  qed
qed simp

lemma touch_alive:
  assumes "held_by_program u s" and "fn_origin n = fn_origin (fg s u)" and "fn_f n = fn_f (fg s u)"
  shows "d < fg_size s \<Longrightarrow> alive (fg_set u n s) d \<Longrightarrow> alive s d"
  using alive_set [of u s n d] alive_anchored [of s u] assms by (auto simp: held_by_program_def anchored_def)

lemma attach_alive:
  assumes "held_by_program u s" and "parent k = Some u" and "d < fg_size s" and "alive (attach u k s) d"
  shows "alive s d"
proof -
  let ?N = "if fn_result (fg s u) \<noteq> None then fg_nodes s @ [new_node k False]
    else (fg_nodes s)[u := (fg s u)\<lparr>fn_then := fn_then (fg s u) @ [fg_size s]\<rparr>] @ [new_node k False]"
  let ?q = "if fn_result (fg s u) \<noteq> None then fg_queue s @ [fg_size s] else fg_queue s"
  have u: "u < fg_size s" "anchored (fg s u)" using assms(1) by (simp_all add: held_by_program_def anchored_def)
  have e: "attach u k s = s\<lparr>fg_nodes := ?N, fg_queue := ?q\<rparr>"
    using u(1) by (simp add: attach_def add_future_def fg_set_def Let_def list_update_append)
  show ?thesis
    by (rule alive_added [of s ?N k False d ?q])
      (use u assms(2,3) assms(4) [unfolded e] in \<open>auto simp: nth_append nth_list_update anchored_def\<close>)
qed

lemma attach_dead:
  assumes "held_by_program u s" and "parent k = Some u" and "d < fg_size s" and "\<not> alive s d"
  shows "d < fg_size (attach u k s)" "\<not> alive (attach u k s) d" "fg_calls (attach u k s) = fg_calls s"
  using assms attach_alive [OF assms(1-3)] by (auto simp: attach_def add_future_def Let_def)

lemma new_dead:
  assumes d: "d < fg_size s" "\<not> alive s d" and k: "parent k = None"
  shows "\<not> alive (s\<lparr>fg_nodes := fg_nodes s @ [new_node k promise], fg_queue := q\<rparr>) d"
proof
  assume a: "alive (s\<lparr>fg_nodes := fg_nodes s @ [new_node k promise], fg_queue := q\<rparr>) d"
  have "alive s d"
    by (rule alive_added [of s "fg_nodes s @ [new_node k promise]" k promise, OF _ _ _ _ d(1) a]) (simp_all add: nth_append k)
  then show False using d(2) by simp
qed

lemma dead_step:
  assumes r: "fg_step broken x s = Inr s'" and d: "d < fg_size s" "\<not> alive s d"
  shows "d < fg_size s' \<and> \<not> alive s' d \<and> (d \<in> set (fg_calls s') \<longleftrightarrow> d \<in> set (fg_calls s))"
proof (cases x)
  case (F_Async y)
  have "\<not> alive (s\<lparr>fg_nodes := fg_nodes s @ [new_node (Task_Of y) False], fg_queue := fg_queue s @ [fg_size s]\<rparr>) d"
    by (rule new_dead [OF d]) simp
  then show ?thesis using r d F_Async by (auto simp: fg_async_def add_future_def Let_def)
next
  case F_Package
  have "\<not> alive (s\<lparr>fg_nodes := fg_nodes s @ [new_node Packaged True], fg_queue := fg_queue s\<rparr>) d"
    by (rule new_dead [OF d]) simp
  then show ?thesis using r d F_Package by (auto simp: add_future_def)
next
  case (F_Call u y)
  then show ?thesis using r d invoke_alive [of "Some y" u s s' d] by (auto split: if_splits)
next
  case (F_Return u)
  have "alive s d" if "u < fg_size s" "alive (fg_set u ((fg s u)\<lparr>fn_f := False, fn_running := fn_running (fg s u) - 1\<rparr>) s) d" "0 < fn_running (fg s u)"
    by (rule alive_set [OF that(1) _ _ _ d(1) that(2)]) (use that(3) in \<open>auto simp: anchored_def intro: alive_anchored\<close>)
  then show ?thesis using r d F_Return by (auto simp: return_call_def Let_def split: if_splits)
next
  case (F_Fail u e)
  have "alive s d" if "u < fg_size s" "alive (fg_set u ((fg s u)\<lparr>fn_result := Some y, fn_then := []\<rparr>) s) d" "alive s u" for y
    by (rule alive_set [OF that(1) _ _ _ d(1) that(2)]) (use that(3) in auto)
  then show ?thesis using r d F_Fail by (auto simp: set_exception_eq split: if_splits)
next
  case (F_Execute i)
  show ?thesis
  proof (cases "i < length (fg_queue s)")
    case True
    let ?s = "s\<lparr>fg_queue := drop_nth i (fg_queue s)\<rparr>"
    have "invoke None (fg_queue s ! i) ?s = Inr s'" using r True F_Execute by simp
    from invoke_alive [OF this, of d] show ?thesis using d by auto
  qed (use r d F_Execute in auto)
next
  case (F_Break u)
  show ?thesis
  proof (cases "u < fg_size s \<and> fn_promise (fg s u)")
    case True
    let ?n = "(fg s u)\<lparr>fn_promise := False\<rparr>"
    have s': "s' = break_tasks broken [u] (fg_set u ?n s)" using r True F_Break by (simp del: break_tasks.simps)
    have "alive s d" if "alive (fg_set u ?n s) d"
      by (rule alive_set [OF _ _ _ _ d(1) that]) (use True in \<open>auto simp: anchored_def intro: alive_anchored\<close>)
    then show ?thesis using break_alive [of broken "[u]" "fg_set u ?n s" d] d unfolding s' by (auto simp del: break_tasks.simps)
  qed (use r d F_Break in auto)
next
  case (F_Then u f)
  then show ?thesis using r d attach_dead [of u s "Then_Of u f" d] by (auto split: if_splits)
next
  case (F_Recover u f)
  then show ?thesis using r d attach_dead [of u s "Recover_Of u f" d] by (auto split: if_splits)
next
  case (F_Copy u)
  then show ?thesis using r d touch_alive [of u s "(fg s u)\<lparr>fn_handles := fn_handles (fg s u) + 1\<rparr>" d] by (auto split: if_splits)
next
  case (F_Drop u)
  then show ?thesis using r d touch_alive [of u s "(fg s u)\<lparr>fn_handles := fn_handles (fg s u) - 1\<rparr>" d] by (auto split: if_splits)
next
  case (F_Detach u)
  then show ?thesis using r d touch_alive [of u s "(fg s u)\<lparr>fn_hold := True\<rparr>" d] by (auto split: if_splits)
qed

lemma dead_run:
  "run_ops (fg_step broken) ops s = Inr s' \<Longrightarrow> d < fg_size s \<Longrightarrow> \<not> alive s d \<Longrightarrow> d \<in> set (fg_calls s') \<longleftrightarrow> d \<in> set (fg_calls s)"
proof (induction ops arbitrary: s)
  case (Cons x ops)
  from Cons.prems(1) obtain s1 where s1: "fg_step broken x s = Inr s1" "run_ops (fg_step broken) ops s1 = Inr s'"
    by (auto simp: bindR_def split: sum.splits)
  show ?case using Cons.IH [OF s1(2)] dead_step [OF s1(1) Cons.prems(2,3)] by blast
qed simp

text \<open>
  C31. Cancellation: when the program drops its last future of a state that is not detached, of which no call is under way and that no
  living continuation holds, the function of that state is never called afterwards, though its task may be in the queue of an executor.
\<close>
theorem future_cancelled:
  assumes "held_by_program u s" and "fn_handles (fg s u) = 1" and "\<not> fn_hold (fg s u)" and "fn_running (fg s u) = 0"
    and "\<And>c. c < fg_size s \<Longrightarrow> parent (fn_origin (fg s c)) = Some u \<Longrightarrow> fn_f (fg s c) \<Longrightarrow> \<not> alive s c"
    and "run_ops (fg_step broken) (F_Drop u # ops) s = Inr s'"
  shows "u \<in> set (fg_calls s') \<longleftrightarrow> u \<in> set (fg_calls s)"
proof -
  let ?n = "(fg s u)\<lparr>fn_handles := 0\<rparr>"
  have u: "u < fg_size s" using assms(1) by (simp add: held_by_program_def)
  have run: "run_ops (fg_step broken) ops (fg_set u ?n s) = Inr s'" using assms(1,2,6) by simp
  have "\<not> alive (fg_set u ?n s) u"
  proof
    assume "alive (fg_set u ?n s) u"
    then show False
    proof (cases rule: alive_cases)
      case 1
      then show False using u assms(3,4) by (simp add: anchored_def fg_set_nth)
    next
      case (2 c)
      have "alive s c" using alive_set [OF u, of ?n c] 2 assms(1) alive_anchored [of s u] by (auto simp: anchored_def held_by_program_def)
      then show False using 2 assms(5) [of c] u by (simp add: fg_set_nth)
    qed
  qed
  from dead_run [OF run _ this] u show ?thesis by (simp add: fg_set_def)
qed


section \<open>Broken promises\<close>

text \<open>The futures that wait for a packaged task: the one it was packaged with, and what was built on that.\<close>

inductive awaits :: "('v, 'e) fgraph \<Rightarrow> nat \<Rightarrow> nat \<Rightarrow> bool" for s u where
  itself: "u < fg_size s \<Longrightarrow> fn_result (fg s u) = None \<Longrightarrow> awaits s u u"
| built: "awaits s u p \<Longrightarrow> d < fg_size s \<Longrightarrow> parent (fn_origin (fg s d)) = Some p \<Longrightarrow> fn_result (fg s d) = None \<Longrightarrow> awaits s u d"

lemma awaits_waiting: "awaits s u d \<Longrightarrow> d < fg_size s \<and> fn_result (fg s d) = None"
  by (induction rule: awaits.induct) auto

lemma break_head:
  assumes "u < fg_size s" and "alive s u" and "fn_result (fg s u) = None"
  shows "fn_result (fg (break_tasks broken (u # W) s) u) \<noteq> None"
proof -
  let ?s = "fg_set u ((fg s u)\<lparr>fn_result := Some (Inl broken), fn_then := [], fn_f := False\<rparr>) s"
  have e: "break_tasks broken (u # W) s = break_tasks broken (fn_then (fg s u) @ W) ?s" using assms by simp
  show ?thesis unfolding e using break_keeps [of broken "fn_then (fg s u) @ W" ?s] assms(1) by (auto simp: Let_def fg_set_nth)
qed

text \<open>
  A broken promise reaches everyone: when the program destroys a packaged task that was never called, every future that
  it holds and that waits for the task, through any chain of \<open>then\<close> and \<open>recover\<close>, becomes ready with the
  exception \<open>broken_promise\<close>; none of the functions on the way is called, not even those given to \<open>recover\<close>.
\<close>
theorem future_broken:
  assumes "run_ops (fg_step broken) ops fg_init = Inr s" and "fn_promise (fg s u)" and "awaits s u d" and "held_by_program d s"
    and "fg_step broken (F_Break u) s = Inr s'"
  shows "fn_result (fg s' d) = Some (Inl broken) \<and> \<not> fn_f (fg s' d) \<and> fg_calls s' = fg_calls s"
proof -
  let ?t = "fg_set u ((fg s u)\<lparr>fn_promise := False\<rparr>) s"
  note inv = reachable_graph [OF assms(1)]
  have u: "u < fg_size s \<and> fn_result (fg s u) = None" using assms(3) by (induction rule: awaits.induct) auto
  have inv': "fg_inv broken [] s'" using fg_step_inv [OF inv, of "F_Break u"] assms(5) by auto
  have s': "s' = break_tasks broken [u] ?t" using assms(2,5) u by (simp del: break_tasks.simps)
  note K = break_keeps [of broken "[u]" ?t, folded s', unfolded Let_def]
  have sz: "fg_size s' = fg_size s" "fg_queue s' = fg_queue s" "fg_calls s' = fg_calls s" using K by simp_all
  have nd: "fn_origin (fg s' e) = fn_origin (fg s e)" "fn_handles (fg s' e) = fn_handles (fg s e)"
    "fn_result (fg s' e) = fn_result (fg s e) \<or> fn_result (fg s' e) = Some (Inl broken) \<and> \<not> fn_f (fg s' e)" if "e < fg_size s" for e
    using K that by (auto simp: fg_set_nth split: if_splits)
  have ready: "fn_result (fg s' e) \<noteq> None" if "awaits s u e" "alive s' e" for e
    using that
  proof (induction rule: awaits.induct)
    case itself
    have "alive ?t u" using break_alive [of broken "[u]" ?t u] itself(3) u unfolding s' by simp
    then show ?case unfolding s' by (intro break_head) (use u in \<open>simp_all add: fg_set_nth\<close>)
  next
    case (built p e)
    show ?case
    proof
      assume r: "fn_result (fg s' e) = None"
      have e: "e < fg_size s'" "parent (fn_origin (fg s' e)) = Some p" using built(2,3) sz nd(1) by simp_all
      have "p < e" using fg_invD(1) [OF inv' e] .
      then have "alive s' p" using alive_child [OF e(2) _ e(1)] fg_invD(3) [OF inv' e(1)] r built.prems by simp
      then have "fn_result (fg s' p) \<noteq> None" by (rule built.IH)
      then have "e \<in> set (fg_queue s)" using fg_invD(7) [OF inv' e(1) built.prems r] e(2) sz(2) by (auto simp: placed_def)
      then have "fn_result (fg s p) \<noteq> None" by (rule fg_inv_queue(2) [OF inv _ built(3)])
      then show False using awaits_waiting [OF built(1)] by simp
    qed
  qed
  have d: "d < fg_size s" "alive s' d"
    using assms(4) nd(2) [of d] by (auto simp: held_by_program_def anchored_def intro: alive_anchored)
  show ?thesis using ready [OF assms(3) d(2)] nd(3) [OF d(1)] awaits_waiting [OF assms(3)] sz(3) by auto
qed

section \<open>Overlapping calls and exceptions\<close>

text \<open>
  The function is given up only after the continuations have been handed over: when a packaged task is called again before the first call has
  ended, for example by a continuation that an executor runs at once, the function is called a second time, while the continuations are
  handed over once.
\<close>
lemma called_twice:
  assumes "u < fg_size s" and "fn_origin (fg s u) = Packaged" and "fn_promise (fg s u)" and "alive s u" and "fn_f (fg s u)"
  shows "\<exists>s'. run_ops (fg_step broken) [F_Call u r, F_Call u r'] s = Inr s' \<and> fg_calls s' = fg_calls s @ [u, u] \<and>
    fg_queue s' = fg_queue s @ fn_then (fg s u)"
proof -
  let ?n = "(fg s u)\<lparr>fn_result := Some (written (fn_result (fg s u)) r), fn_then := [], fn_running := fn_running (fg s u) + 1\<rparr>"
  let ?s = "(fg_set u ?n s)\<lparr>fg_queue := fg_queue s @ fn_then (fg s u), fg_calls := fg_calls s @ [u],
    fg_settled := fg_settled s @ [(u, written (fn_result (fg s u)) r)]\<rparr>"
  have 1: "fg_step broken (F_Call u r) s = Inr ?s" using assms by (simp add: invoke_eq outcome_def Let_def)
  have "alive ?s u" by (rule alive_anchored) (simp add: anchored_def assms(1))
  then obtain s' where s': "fg_step broken (F_Call u r') ?s = Inr s'" "fg_calls s' = fg_calls s @ [u, u]" "fg_queue s' = fg_queue s @ fn_then (fg s u)"
    using assms by (simp add: invoke_eq outcome_def Let_def)
  have "run_ops (fg_step broken) [F_Call u r, F_Call u r'] s = Inr s'" by (simp only: run_ops.simps 1 s'(1) bindR_Inr)
  then show ?thesis using s'(2,3) by blast
qed

text \<open>Once the first call has ended, a further call does nothing.\<close>
lemma call_after_return:
  assumes "u < fg_size s" and "0 < fn_running (fg s u)"
  shows "fg_step broken (F_Call u r) (return_call u s) = Inr (return_call u s)"
  using assms by (simp add: return_call_def invoke_def Let_def)

text \<open>\<open>set_exception\<close> replaces the outcome of a state that is ready, also a value that continuations have already used.\<close>
lemma exception_replaces_value:
  assumes "u < fg_size s" and "fn_promise (fg s u)" and "alive s u"
  shows "\<exists>s'. fg_step broken (F_Fail u e) s = Inr s' \<and> fn_result (fg s' u) = Some (Inl e)"
  using assms by (auto simp: set_exception_eq written_def split: option.splits sum.splits)

section \<open>A program with futures\<close>

text \<open>
  A task gives 1, a continuation adds 1 and another recovers from errors; a promise is called with 7 and another
  broken.
\<close>

definition future_ops :: "(nat, nat) fg_op list" where
  "future_ops = [F_Async (Inr 1), F_Then 0 (\<lambda>v. Inr (v + 1)), F_Recover 1 (\<lambda>x. case x of Inl e \<Rightarrow> Inr 0 | Inr v \<Rightarrow> Inr (v * 2)),
     F_Package, F_Then 3 (\<lambda>v. Inl 5), F_Recover 4 (\<lambda>x. case x of Inl e \<Rightarrow> Inr (e + 100) | Inr v \<Rightarrow> Inr v)]"

definition future_graph :: "(nat, nat) fg_op list \<Rightarrow> (nat, nat) fgraph" where
  "future_graph ops = (case run_ops (fg_step 9) ops fg_init of Inl e \<Rightarrow> fg_init | Inr s \<Rightarrow> s)"

lemma future_graph_run:
  "(case run_ops (fg_step 9) ops fg_init of Inl e \<Rightarrow> False | Inr s \<Rightarrow> True) \<Longrightarrow> run_ops (fg_step 9) ops fg_init = Inr (future_graph ops)"
  by (simp add: future_graph_def split: sum.splits)

lemma future_ops_run:
  "run_ops (fg_step 9) (future_ops @ [F_Call 3 (Inr 7), F_Return 3] @ replicate 5 (F_Execute 0)) fg_init =
    Inr (future_graph (future_ops @ [F_Call 3 (Inr 7), F_Return 3] @ replicate 5 (F_Execute 0)))"
  by (rule future_graph_run) code_simp

theorem future_composition_witness:
  "map fn_result (fg_nodes (future_graph (future_ops @ [F_Call 3 (Inr 7), F_Return 3] @ replicate 5 (F_Execute 0)))) =
     [Some (Inr 1), Some (Inr 2), Some (Inr 4), Some (Inr 7), Some (Inl 5), Some (Inr 105)] \<and>
   distinct (fg_calls (future_graph (future_ops @ [F_Call 3 (Inr 7), F_Return 3] @ replicate 5 (F_Execute 0))))"
proof -
  let ?ops = "future_ops @ [F_Call 3 (Inr 7), F_Return 3] @ replicate 5 (F_Execute 0)"
  let ?s = "future_graph ?ops"
  have r: "map fn_result (fg_nodes ?s) = [Some (Inr 1), Some (Inr 2), Some (Inr 4), Some (Inr 7), Some (Inl 5), Some (Inr 105)]"
    by code_simp
  have "calls_apart 9 ?ops fg_init" "2 < fg_size ?s" by code_simp+
  from future_composition [OF future_ops_run this(2)] this(1) r show ?thesis by blast
qed

theorem future_delivery_witness:
  "\<exists>s'. run_ops (fg_step 9) (replicate (fg_load (future_graph (take 3 future_ops))) (F_Execute 0)) (future_graph (take 3 future_ops)) = Inr s' \<and>
     fg_queue s' = [] \<and> fn_result (fg s' 2) \<noteq> None"
proof -
  let ?s = "future_graph (take 3 future_ops)"
  have run: "run_ops (fg_step 9) (take 3 future_ops) fg_init = Inr ?s" by (rule future_graph_run) code_simp
  have "list_all (\<lambda>n. \<not> fn_promise n) (fg_nodes ?s)" by code_simp
  then have p: "fn_promise (fg ?s c) \<Longrightarrow> c < fg_size ?s \<Longrightarrow> False" for c by (auto simp: list_all_length)
  have "held_by_program 2 ?s" by code_simp
  then show ?thesis using future_delivery [OF run] p by blast
qed

theorem future_cancelled_witness:
  "0 \<notin> set (fg_calls (future_graph [F_Async (Inr 3), F_Drop 0, F_Execute 0]))"
proof -
  let ?s = "future_graph [F_Async (Inr 3)]" and ?t = "future_graph [F_Async (Inr 3), F_Drop 0, F_Execute 0]"
  have "run_ops (fg_step 9) [F_Async (Inr 3)] fg_init = Inr ?s" "run_ops (fg_step 9) [F_Async (Inr 3), F_Drop 0, F_Execute 0] fg_init = Inr ?t"
    by (rule future_graph_run, code_simp)+
  then have run: "run_ops (fg_step 9) (F_Drop 0 # [F_Execute 0]) ?s = Inr ?t" by simp
  have n: "?s = \<lparr>fg_nodes = [new_node (Task_Of (Inr 3)) False], fg_queue = [0], fg_calls = [], fg_settled = []\<rparr>"
    by (simp add: future_graph_def fg_init_def fg_async_def add_future_def Let_def)
  show ?thesis using future_cancelled [OF _ _ _ _ _ run] by (simp add: n held_by_program_def new_node_def)
qed

lemma broken_awaits: "awaits (future_graph future_ops) 3 5"
proof -
  let ?s = "future_graph future_ops"
  have "3 < fg_size ?s" "4 < fg_size ?s" "5 < fg_size ?s" "fn_result (fg ?s 3) = None" "fn_result (fg ?s 4) = None" "fn_result (fg ?s 5) = None"
    "parent (fn_origin (fg ?s 4)) = Some 3" "parent (fn_origin (fg ?s 5)) = Some 4" by code_simp+
  then show ?thesis by (blast intro: awaits.intros)
qed

theorem future_broken_witness:
  "\<exists>s'. fg_step 9 (F_Break 3) (future_graph future_ops) = Inr s' \<and> fn_result (fg s' 5) = Some (Inl 9) \<and> \<not> fn_f (fg s' 5) \<and>
     fg_calls s' = fg_calls (future_graph future_ops)"
proof -
  let ?s = "future_graph future_ops"
  have run: "run_ops (fg_step 9) future_ops fg_init = Inr ?s" by (rule future_graph_run) code_simp
  have h: "fn_promise (fg ?s 3)" "held_by_program 5 ?s" by code_simp+
  obtain s' where s': "fg_step 9 (F_Break 3) ?s = Inr s'" by simp
  from future_broken [OF run h(1) broken_awaits h(2) s'] s' show ?thesis by blast
qed

end
