(* ===== verification/Task_Erased.thy ===== *)
theory Task_Erased
  imports Prelude
begin

text \<open>
  The type-erased function \<open>task\<close> that executors, futures and channels pass around
  (\<^verbatim>\<open>deps/clean_stlab/stlab/concurrency/task.hpp\<close>): a pointer to a table of functions and a buffer that holds the function object
  or, when it is larger than the buffer, a unique pointer to it. The state is explicit: the bytes of each
  \<open>task\<close> hold a model or none, and the heap holds the large function objects. A use of a model that is not there is a fault.
\<close>

section \<open>State\<close>

text \<open>
  The function objects are the program's: their type, what a move leaves behind, whether one is a null pointer
  or an empty function, and what a call returns or throws and leaves.
\<close>

record ('f, 'a, 'r) callables =
  typeid :: "'f \<Rightarrow> nat"
  sizeof :: "nat \<Rightarrow> nat"
  possibly_empty :: "nat \<Rightarrow> bool"
  is_null :: "'f \<Rightarrow> bool"
  moved :: "'f \<Rightarrow> 'f"
  apply_to :: "'f \<Rightarrow> 'a \<Rightarrow> 'r \<times> 'f"

definition small_object_size :: nat where
  "small_object_size = 256 - 8"

definition small_model :: "('f, 'a, 'r) callables \<Rightarrow> nat \<Rightarrow> bool" where
  "small_model L t \<longleftrightarrow> sizeof L t \<le> small_object_size"

definition is_empty :: "('f, 'a, 'r) callables \<Rightarrow> 'f \<Rightarrow> bool" where
  "is_empty L f \<longleftrightarrow> possibly_empty L (typeid L f) \<and> is_null L f"

datatype vtable = Vt_Empty | Vt_Small nat | Vt_Large nat

datatype 'f storage = Raw | Small_Model 'f | Large_Model "nat option"

record 'f task_obj =
  vtable_ptr :: vtable
  model_bytes :: "'f storage"

datatype tname = Named nat | Temp

record 'f tasks =
  objects :: "tname \<Rightarrow> 'f task_obj option"
  allocated :: "nat \<Rightarrow> 'f option"
  next_address :: nat

definition tasks_init :: "'f tasks" where
  "tasks_init = \<lparr>objects = (\<lambda>_. None), allocated = (\<lambda>_. None), next_address = 0\<rparr>"

datatype task_fault = Task_Lifetime | Dead_Model | Dangling_Model | Null_Model

definition task_at :: "tname \<Rightarrow> 'f tasks \<Rightarrow> task_fault + 'f task_obj" where
  "task_at x s = (case objects s x of None \<Rightarrow> Inl Task_Lifetime | Some t \<Rightarrow> Inr t)"

definition task_new :: "tname \<Rightarrow> 'f task_obj \<Rightarrow> 'f tasks \<Rightarrow> task_fault + 'f tasks" where
  "task_new x t s = (if objects s x = None then Inr (s\<lparr>objects := (objects s)(x \<mapsto> t)\<rparr>) else Inl Task_Lifetime)"

definition set_bytes :: "tname \<Rightarrow> 'f storage \<Rightarrow> 'f tasks \<Rightarrow> 'f tasks" where
  "set_bytes x b s = s\<lparr>objects := (objects s)(x := map_option (model_bytes_update (\<lambda>_. b)) (objects s x))\<rparr>"

section \<open>The tables of functions\<close>

text \<open>\<open>dtor\<close> on the bytes of a task.\<close>

definition vt_dtor :: "vtable \<Rightarrow> tname \<Rightarrow> 'f tasks \<Rightarrow> task_fault + 'f tasks" where
  "vt_dtor v x s = bindR (task_at x s) (\<lambda>t.
     case v of
       Vt_Empty \<Rightarrow> Inr s
     | Vt_Small _ \<Rightarrow> (case model_bytes t of Small_Model f \<Rightarrow> Inr (set_bytes x Raw s) | _ \<Rightarrow> Inl Dead_Model)
     | Vt_Large _ \<Rightarrow> (case model_bytes t of
           Large_Model None \<Rightarrow> Inr (set_bytes x Raw s)
         | Large_Model (Some a) \<Rightarrow>
             (if allocated s a = None then Inl Dangling_Model
              else Inr ((set_bytes x Raw s)\<lparr>allocated := (allocated s)(a := None)\<rparr>))
         | _ \<Rightarrow> Inl Dead_Model))"

text \<open>\<open>move_ctor\<close>: a new model at \<open>p\<close>, from that of \<open>self\<close>.\<close>

definition vt_move_ctor :: "('f, 'a, 'r) callables \<Rightarrow> vtable \<Rightarrow> tname \<Rightarrow> tname \<Rightarrow> 'f tasks \<Rightarrow> task_fault + 'f tasks" where
  "vt_move_ctor L v self p s = bindR (task_at self s) (\<lambda>t.
     case v of
       Vt_Empty \<Rightarrow> Inr s
     | Vt_Small _ \<Rightarrow> (case model_bytes t of
           Small_Model f \<Rightarrow> Inr (set_bytes p (Small_Model f) (set_bytes self (Small_Model (moved L f)) s))
         | _ \<Rightarrow> Inl Dead_Model)
     | Vt_Large _ \<Rightarrow> (case model_bytes t of
           Large_Model q \<Rightarrow> Inr (set_bytes p (Large_Model q) (set_bytes self (Large_Model None) s))
         | _ \<Rightarrow> Inl Dead_Model))"

text \<open>\<open>pointer\<close> and \<open>const_pointer\<close>: where the function object is.\<close>

datatype place = In_Buffer tname | On_Heap nat

definition vt_pointer :: "vtable \<Rightarrow> tname \<Rightarrow> 'f tasks \<Rightarrow> task_fault + place option" where
  "vt_pointer v x s = bindR (task_at x s) (\<lambda>t.
     case v of
       Vt_Empty \<Rightarrow> Inr None
     | Vt_Small _ \<Rightarrow> Inr (Some (In_Buffer x))
     | Vt_Large _ \<Rightarrow> (case model_bytes t of Large_Model q \<Rightarrow> Inr (map_option On_Heap q) | _ \<Rightarrow> Inl Dead_Model))"

text \<open>\<open>target_type\<close>; \<open>None\<close> is \<open>typeid(void)\<close>.\<close>

fun vt_target_type :: "vtable \<Rightarrow> nat option" where
  "vt_target_type Vt_Empty = None"
| "vt_target_type (Vt_Small t) = Some t"
| "vt_target_type (Vt_Large t) = Some t"

text \<open>\<open>invoke\<close>: the function object is called in place; without one, \<open>bad_function_call\<close> is thrown.\<close>

datatype 'r invoked = Bad_Function_Call | Returned 'r

definition vt_invoke :: "('f, 'a, 'r) callables \<Rightarrow> vtable \<Rightarrow> tname \<Rightarrow> 'a \<Rightarrow> 'f tasks \<Rightarrow> task_fault + ('r invoked \<times> 'f tasks)" where
  "vt_invoke L v x a s = bindR (task_at x s) (\<lambda>t.
     case v of
       Vt_Empty \<Rightarrow> Inr (Bad_Function_Call, s)
     | Vt_Small _ \<Rightarrow> (case model_bytes t of
           Small_Model f \<Rightarrow> (let (r, f') = apply_to L f a in Inr (Returned r, set_bytes x (Small_Model f') s))
         | _ \<Rightarrow> Inl Dead_Model)
     | Vt_Large _ \<Rightarrow> (case model_bytes t of
           Large_Model None \<Rightarrow> Inl Null_Model
         | Large_Model (Some q) \<Rightarrow> (case allocated s q of
               None \<Rightarrow> Inl Dangling_Model
             | Some f \<Rightarrow> (let (r, f') = apply_to L f a in Inr (Returned r, s\<lparr>allocated := (allocated s)(q \<mapsto> f')\<rparr>)))
         | _ \<Rightarrow> Inl Dead_Model))"

section \<open>The class\<close>

definition task_default :: "tname \<Rightarrow> 'f tasks \<Rightarrow> task_fault + 'f tasks" where
  "task_default x s = task_new x \<lparr>vtable_ptr = Vt_Empty, model_bytes = Raw\<rparr> s"

definition task_make :: "('f, 'a, 'r) callables \<Rightarrow> tname \<Rightarrow> 'f \<Rightarrow> 'f tasks \<Rightarrow> task_fault + 'f tasks" where
  "task_make L x f s =
     (let t = typeid L f
      in if is_empty L f then task_default x s
         else if small_model L t then task_new x \<lparr>vtable_ptr = Vt_Small t, model_bytes = Small_Model f\<rparr> s
         else task_new x \<lparr>vtable_ptr = Vt_Large t, model_bytes = Large_Model (Some (next_address s))\<rparr>
                (s\<lparr>allocated := (allocated s)(next_address s \<mapsto> f), next_address := next_address s + 1\<rparr>))"

definition task_move :: "('f, 'a, 'r) callables \<Rightarrow> tname \<Rightarrow> tname \<Rightarrow> 'f tasks \<Rightarrow> task_fault + 'f tasks" where
  "task_move L x this s = bindR (task_at x s) (\<lambda>t.
     bindR (task_new this \<lparr>vtable_ptr = vtable_ptr t, model_bytes = Raw\<rparr> s) (vt_move_ctor L (vtable_ptr t) x this))"

definition task_destroy :: "tname \<Rightarrow> 'f tasks \<Rightarrow> task_fault + 'f tasks" where
  "task_destroy x s = bindR (task_at x s) (\<lambda>t. bindR (vt_dtor (vtable_ptr t) x s) (\<lambda>s. Inr (s\<lparr>objects := (objects s)(x := None)\<rparr>)))"

text \<open>\<open>operator=(task&&)\<close>: the statements in the order of the code, which does not test for \<open>this == &x\<close>.\<close>

definition set_vtable :: "tname \<Rightarrow> vtable \<Rightarrow> 'f tasks \<Rightarrow> 'f tasks" where
  "set_vtable x v s = s\<lparr>objects := (objects s)(x := map_option (vtable_ptr_update (\<lambda>_. v)) (objects s x))\<rparr>"

definition task_assign :: "('f, 'a, 'r) callables \<Rightarrow> tname \<Rightarrow> tname \<Rightarrow> 'f tasks \<Rightarrow> task_fault + 'f tasks" where
  "task_assign L this x s =
     bindR (task_at this s) (\<lambda>t. bindR (vt_dtor (vtable_ptr t) this s) (\<lambda>s.
     bindR (task_at x s) (\<lambda>t'. vt_move_ctor L (vtable_ptr t') x this (set_vtable this (vtable_ptr t') s))))"

definition assign_temp :: "('f, 'a, 'r) callables \<Rightarrow> tname \<Rightarrow> 'f tasks \<Rightarrow> task_fault + 'f tasks" where
  "assign_temp L this s = bindR (task_assign L this Temp s) (task_destroy Temp)"

definition task_set_null :: "('f, 'a, 'r) callables \<Rightarrow> tname \<Rightarrow> 'f tasks \<Rightarrow> task_fault + 'f tasks" where
  "task_set_null L this s = bindR (task_default Temp s) (assign_temp L this)"

definition task_set :: "('f, 'a, 'r) callables \<Rightarrow> tname \<Rightarrow> 'f \<Rightarrow> 'f tasks \<Rightarrow> task_fault + 'f tasks" where
  "task_set L this f s = bindR (task_make L Temp f s) (assign_temp L this)"

text \<open>\<open>swap\<close> is that of the standard library: a temporary, two assignments.\<close>

definition task_swap :: "('f, 'a, 'r) callables \<Rightarrow> tname \<Rightarrow> tname \<Rightarrow> 'f tasks \<Rightarrow> task_fault + 'f tasks" where
  "task_swap L this x s = bindR (task_move L this Temp s) (\<lambda>s. bindR (task_assign L this x s) (assign_temp L x))"

definition task_bool :: "tname \<Rightarrow> 'f tasks \<Rightarrow> task_fault + bool" where
  "task_bool x s = bindR (task_at x s) (\<lambda>t. bindR (vt_pointer (vtable_ptr t) x s) (\<lambda>p. Inr (p \<noteq> None)))"

definition task_target_type :: "tname \<Rightarrow> 'f tasks \<Rightarrow> task_fault + nat option" where
  "task_target_type x s = bindR (task_at x s) (\<lambda>t. Inr (vt_target_type (vtable_ptr t)))"

definition task_target :: "nat \<Rightarrow> tname \<Rightarrow> 'f tasks \<Rightarrow> task_fault + place option" where
  "task_target T x s = bindR (task_target_type x s) (\<lambda>t.
     if t = Some T then bindR (task_at x s) (\<lambda>t. vt_pointer (vtable_ptr t) x s) else Inr None)"

definition task_call :: "('f, 'a, 'r) callables \<Rightarrow> tname \<Rightarrow> 'a \<Rightarrow> 'f tasks \<Rightarrow> task_fault + ('r invoked \<times> 'f tasks)" where
  "task_call L x a s = bindR (task_at x s) (\<lambda>t. vt_invoke L (vtable_ptr t) x a s)"

datatype ('f, 'a) task_op = T_Default nat | T_Make nat 'f | T_Move nat nat | T_Destroy nat | T_Assign nat nat
  | T_Null nat | T_Set nat 'f | T_Swap nat nat | T_Call nat 'a

fun task_step :: "('f, 'a, 'r) callables \<Rightarrow> ('f, 'a) task_op \<Rightarrow> 'f tasks \<Rightarrow> task_fault + 'f tasks" where
  "task_step L (T_Default x) s = task_default (Named x) s"
| "task_step L (T_Make x f) s = task_make L (Named x) f s"
| "task_step L (T_Move y x) s = task_move L (Named y) (Named x) s"
| "task_step L (T_Destroy x) s = task_destroy (Named x) s"
| "task_step L (T_Assign x y) s = task_assign L (Named x) (Named y) s"
| "task_step L (T_Null x) s = task_set_null L (Named x) s"
| "task_step L (T_Set x f) s = task_set L (Named x) f s"
| "task_step L (T_Swap x y) s = task_swap L (Named x) (Named y) s"
| "task_step L (T_Call x a) s = bindR (task_call L (Named x) a s) (\<lambda>(r, s). Inr s)"

section \<open>Contract\<close>

text \<open>What a task is to its user: empty, a function, or a large function that has been moved away.\<close>

datatype 'f holder = Nothing | Holds 'f | Hollow nat

definition holding :: "('f, 'a, 'r) callables \<Rightarrow> 'f \<Rightarrow> 'f holder" where
  "holding L f = (if is_empty L f then Nothing else Holds f)"

fun left_behind :: "('f, 'a, 'r) callables \<Rightarrow> 'f holder \<Rightarrow> 'f holder" where
  "left_behind L Nothing = Nothing"
| "left_behind L (Holds f) = (if small_model L (typeid L f) then Holds (moved L f) else Hollow (typeid L f))"
| "left_behind L (Hollow t) = Hollow t"

fun after_call :: "('f, 'a, 'r) callables \<Rightarrow> 'a \<Rightarrow> 'f holder \<Rightarrow> 'f holder" where
  "after_call L a (Holds f) = Holds (snd (apply_to L f a))"
| "after_call L a h = h"

type_synonym 'f held = "tname \<Rightarrow> 'f holder option"

definition moving :: "('f, 'a, 'r) callables \<Rightarrow> tname \<Rightarrow> tname \<Rightarrow> 'f held \<Rightarrow> 'f held" where
  "moving L y x h = h(x := h y, y := map_option (left_behind L) (h y))"

fun task_spec :: "('f, 'a, 'r) callables \<Rightarrow> ('f, 'a) task_op \<Rightarrow> 'f held \<Rightarrow> 'f held" where
  "task_spec L (T_Default x) h = h(Named x \<mapsto> Nothing)"
| "task_spec L (T_Make x f) h = h(Named x \<mapsto> holding L f)"
| "task_spec L (T_Move y x) h = moving L (Named y) (Named x) h"
| "task_spec L (T_Destroy x) h = h(Named x := None)"
| "task_spec L (T_Assign x y) h = moving L (Named y) (Named x) h"
| "task_spec L (T_Null x) h = h(Named x \<mapsto> Nothing)"
| "task_spec L (T_Set x f) h = h(Named x \<mapsto> holding L f)"
| "task_spec L (T_Swap x y) h = h(Named x := h (Named y), Named y := h (Named x))"
| "task_spec L (T_Call x a) h = h(Named x := map_option (after_call L a) (h (Named x)))"

text \<open>
  What a program may do: use the objects within their lifetime, not assign an object to itself or swap it with
  itself, and not call a large function that has been moved away.
\<close>

fun task_allowed :: "('f, 'a) task_op \<Rightarrow> 'f held \<Rightarrow> bool" where
  "task_allowed (T_Default x) h \<longleftrightarrow> h (Named x) = None"
| "task_allowed (T_Make x f) h \<longleftrightarrow> h (Named x) = None"
| "task_allowed (T_Move y x) h \<longleftrightarrow> h (Named y) \<noteq> None \<and> h (Named x) = None"
| "task_allowed (T_Destroy x) h \<longleftrightarrow> h (Named x) \<noteq> None"
| "task_allowed (T_Assign x y) h \<longleftrightarrow> x \<noteq> y \<and> h (Named x) \<noteq> None \<and> h (Named y) \<noteq> None"
| "task_allowed (T_Null x) h \<longleftrightarrow> h (Named x) \<noteq> None"
| "task_allowed (T_Set x f) h \<longleftrightarrow> h (Named x) \<noteq> None"
| "task_allowed (T_Swap x y) h \<longleftrightarrow> x \<noteq> y \<and> h (Named x) \<noteq> None \<and> h (Named y) \<noteq> None"
| "task_allowed (T_Call x a) h \<longleftrightarrow> (case h (Named x) of None \<Rightarrow> False | Some (Hollow t) \<Rightarrow> False | Some _ \<Rightarrow> True)"

text \<open>A move and a call do not change the type of an object.\<close>

definition typed :: "('f, 'a, 'r) callables \<Rightarrow> bool" where
  "typed L \<longleftrightarrow> (\<forall>f. typeid L (moved L f) = typeid L f) \<and> (\<forall>f a. typeid L (snd (apply_to L f a)) = typeid L f)"

section \<open>Invariant\<close>

text \<open>
  The table and the bytes of a task agree, large functions have one owner, and what is allocated has an owner.
\<close>

fun content :: "(nat \<Rightarrow> 'f option) \<Rightarrow> 'f task_obj \<Rightarrow> 'f holder" where
  "content H \<lparr>vtable_ptr = Vt_Small t, model_bytes = Small_Model f\<rparr> = Holds f"
| "content H \<lparr>vtable_ptr = Vt_Large t, model_bytes = Large_Model None\<rparr> = Hollow t"
| "content H \<lparr>vtable_ptr = Vt_Large t, model_bytes = Large_Model (Some a)\<rparr> = Holds (the (H a))"
| "content H _ = Nothing"

fun task_ok :: "('f, 'a, 'r) callables \<Rightarrow> (nat \<Rightarrow> 'f option) \<Rightarrow> 'f task_obj \<Rightarrow> bool" where
  "task_ok L H \<lparr>vtable_ptr = Vt_Empty, model_bytes = b\<rparr> = (case b of Raw \<Rightarrow> True | _ \<Rightarrow> False)"
| "task_ok L H \<lparr>vtable_ptr = Vt_Small t, model_bytes = b\<rparr> = (case b of Small_Model f \<Rightarrow> typeid L f = t \<and> small_model L t | _ \<Rightarrow> False)"
| "task_ok L H \<lparr>vtable_ptr = Vt_Large t, model_bytes = b\<rparr> =
     (\<not> small_model L t \<and> (case b of
        Large_Model None \<Rightarrow> True
      | Large_Model (Some a) \<Rightarrow> (case H a of None \<Rightarrow> False | Some f \<Rightarrow> typeid L f = t)
      | _ \<Rightarrow> False))"

fun owned :: "'f task_obj option \<Rightarrow> nat option" where
  "owned (Some \<lparr>vtable_ptr = v, model_bytes = Large_Model (Some a)\<rparr>) = Some a"
| "owned _ = None"

definition tasks_inv :: "('f, 'a, 'r) callables \<Rightarrow> 'f tasks \<Rightarrow> bool" where
  "tasks_inv L s \<longleftrightarrow> (\<forall>x t. objects s x = Some t \<longrightarrow> task_ok L (allocated s) t) \<and>
     (\<forall>x y a. owned (objects s x) = Some a \<longrightarrow> owned (objects s y) = Some a \<longrightarrow> x = y) \<and>
     (\<forall>a. allocated s a \<noteq> None \<longrightarrow> a < next_address s \<and> (\<exists>x. owned (objects s x) = Some a))"

definition tasks_abs :: "'f tasks \<Rightarrow> 'f held" where
  "tasks_abs s x = map_option (content (allocated s)) (objects s x)"

definition tasks_quiet :: "('f, 'a, 'r) callables \<Rightarrow> 'f tasks \<Rightarrow> bool" where
  "tasks_quiet L s \<longleftrightarrow> tasks_inv L s \<and> objects s Temp = None"

text \<open>The forms an object can have.\<close>

lemma task_ok_cases:
  assumes "task_ok L H t"
  obtains "t = \<lparr>vtable_ptr = Vt_Empty, model_bytes = Raw\<rparr>"
    | f where "t = \<lparr>vtable_ptr = Vt_Small (typeid L f), model_bytes = Small_Model f\<rparr>" "small_model L (typeid L f)"
    | i where "t = \<lparr>vtable_ptr = Vt_Large i, model_bytes = Large_Model None\<rparr>" "\<not> small_model L i"
    | f a where "t = \<lparr>vtable_ptr = Vt_Large (typeid L f), model_bytes = Large_Model (Some a)\<rparr>" "H a = Some f" "\<not> small_model L (typeid L f)"
  using assms by (cases "(L, H, t)" rule: task_ok.cases) (auto split: storage.splits option.splits)

lemma task_ok_cong: "(\<And>a. owned (Some t) = Some a \<Longrightarrow> H' a = H a) \<Longrightarrow> task_ok L H t \<Longrightarrow> task_ok L H' t"
  by (erule task_ok_cases) auto

lemma content_cong: "(\<And>a. owned (Some t) = Some a \<Longrightarrow> H' a = H a) \<Longrightarrow> task_ok L H t \<Longrightarrow> content H' t = content H t"
  by (erule task_ok_cases) auto

section \<open>The primitive operations\<close>

lemma owned_allocated:
  assumes "tasks_inv L s" and "owned (objects s x) = Some a"
  shows "allocated s a \<noteq> None" "a < next_address s"
proof -
  from assms(2) obtain t where t: "objects s x = Some t" by (cases "objects s x") auto
  then have "task_ok L (allocated s) t" using assms(1) by (simp add: tasks_inv_def)
  then show n: "allocated s a \<noteq> None" using assms(2) t by (auto elim!: task_ok_cases)
  show "a < next_address s" using n assms(1) by (auto simp: tasks_inv_def)
qed

text \<open>At most two objects change, with the allocations they own.\<close>

lemma tasks_update:
  assumes inv: "tasks_inv L s" and o: "\<And>z. z \<noteq> x \<Longrightarrow> z \<noteq> y \<Longrightarrow> objects s' z = objects s z"
    and h: "\<And>z a. z \<noteq> x \<Longrightarrow> z \<noteq> y \<Longrightarrow> owned (objects s z) = Some a \<Longrightarrow>
      allocated s' a = allocated s a \<and> owned (objects s' x) \<noteq> Some a \<and> owned (objects s' y) \<noteq> Some a"
    and xy: "\<And>a. x \<noteq> y \<Longrightarrow> owned (objects s' x) = Some a \<Longrightarrow> owned (objects s' y) \<noteq> Some a"
    and n: "\<And>t. objects s' x = Some t \<Longrightarrow> task_ok L (allocated s') t" "\<And>t. objects s' y = Some t \<Longrightarrow> task_ok L (allocated s') t"
    and a: "\<And>a. allocated s' a \<noteq> None \<Longrightarrow> a < next_address s' \<and>
      (owned (objects s' x) = Some a \<or> owned (objects s' y) = Some a \<or> (\<exists>z. z \<noteq> x \<and> z \<noteq> y \<and> owned (objects s z) = Some a))"
  shows "tasks_inv L s'"
    and "tasks_abs s' = (tasks_abs s)(y := map_option (content (allocated s')) (objects s' y), x := map_option (content (allocated s')) (objects s' x))"
proof -
  have ok: "task_ok L (allocated s) t" if "objects s z = Some t" for z t using inv that by (simp add: tasks_inv_def)
  have same: "allocated s' b = allocated s b" if "z \<noteq> x" "z \<noteq> y" "objects s z = Some t" "owned (Some t) = Some b" for z t b
    using h [OF that(1,2), of b] that(3,4) by simp
  have "task_ok L (allocated s') t" if "objects s' z = Some t" for z t
  proof (cases "z = x \<or> z = y")
    case False
    then have z: "objects s z = Some t" using o [of z] that by simp
    show ?thesis by (rule task_ok_cong [OF same [OF _ _ z] ok [OF z]]) (use False in auto)
  qed (use n that in auto)
  moreover have "z = w" if "owned (objects s' z) = Some b" "owned (objects s' w) = Some b" for z w b
  proof (cases "z = x \<or> z = y"; cases "w = x \<or> w = y")
    assume "\<not> (z = x \<or> z = y)" "\<not> (w = x \<or> w = y)"
    then show "z = w" using that o [of z] o [of w] inv by (simp add: tasks_inv_def)
  next
    assume "z = x \<or> z = y" "w = x \<or> w = y"
    then show "z = w" using that xy by metis
  next
    assume "\<not> (z = x \<or> z = y)" "w = x \<or> w = y"
    then show "z = w" using that h [of z b] o [of z] by metis
  next
    assume "z = x \<or> z = y" "\<not> (w = x \<or> w = y)"
    then show "z = w" using that h [of w b] o [of w] by metis
  qed
  moreover have "b < next_address s' \<and> (\<exists>z. owned (objects s' z) = Some b)" if "allocated s' b \<noteq> None" for b
    using a [OF that] o by metis
  ultimately show "tasks_inv L s'" unfolding tasks_inv_def by blast
  have "map_option (content (allocated s')) (objects s z) = map_option (content (allocated s)) (objects s z)" if "z \<noteq> x" "z \<noteq> y" for z
  proof (cases "objects s z")
    case (Some t)
    have "content (allocated s') t = content (allocated s) t" by (rule content_cong [OF same [OF that Some] ok [OF Some]]) auto
    then show ?thesis using Some by simp
  qed simp
  then show "tasks_abs s' = (tasks_abs s)(y := map_option (content (allocated s')) (objects s' y), x := map_option (content (allocated s')) (objects s' x))"
    using o by (auto simp: tasks_abs_def fun_eq_iff)
qed

lemma tasks_update1:
  assumes "tasks_inv L s" and "\<And>z. z \<noteq> x \<Longrightarrow> objects s' z = objects s z"
    and "\<And>z a. z \<noteq> x \<Longrightarrow> owned (objects s z) = Some a \<Longrightarrow> allocated s' a = allocated s a \<and> owned (objects s' x) \<noteq> Some a"
    and "\<And>t. objects s' x = Some t \<Longrightarrow> task_ok L (allocated s') t" and "c = map_option (content (allocated s')) (objects s' x)"
    and "\<And>a. allocated s' a \<noteq> None \<Longrightarrow> a < next_address s' \<and>
      (owned (objects s' x) = Some a \<or> (\<exists>z. z \<noteq> x \<and> owned (objects s z) = Some a))"
  shows "tasks_inv L s' \<and> tasks_abs s' = (tasks_abs s)(x := c)"
proof
  show "tasks_inv L s'" by (rule tasks_update(1) [OF assms(1), of x x]) (use assms in blast)+
  have "tasks_abs s' = (tasks_abs s)(x := map_option (content (allocated s')) (objects s' x), x := map_option (content (allocated s')) (objects s' x))"
    by (rule tasks_update(2) [OF assms(1), of x x]) (use assms in blast)+
  then show "tasks_abs s' = (tasks_abs s)(x := c)" using assms(5) by simp
qed

lemma other_owner:
  assumes "tasks_inv L s" and "allocated s a \<noteq> None" and "owned (objects s x) \<noteq> Some a"
  shows "a < next_address s \<and> (\<exists>z. z \<noteq> x \<and> owned (objects s z) = Some a)"
  using assms unfolding tasks_inv_def by metis

text \<open>An operation on one object.\<close>

definition changes :: "('f, 'a, 'r) callables \<Rightarrow> tname set \<Rightarrow> (tname \<Rightarrow> 'f holder option) \<Rightarrow> 'f tasks \<Rightarrow> task_fault + 'f tasks \<Rightarrow> bool" where
  "changes L X h s r \<longleftrightarrow> (\<exists>s'. r = Inr s' \<and> tasks_inv L s' \<and> tasks_abs s' = h \<and> (\<forall>z. z \<notin> X \<longrightarrow> objects s' z = objects s z))"

lemma changesE:
  assumes "changes L X h s r"
  obtains s' where "r = Inr s'" "tasks_inv L s'" "tasks_abs s' = h" "\<And>z. z \<notin> X \<Longrightarrow> objects s' z = objects s z"
  using assms by (auto simp: changes_def)

lemma task_default_ok:
  assumes "tasks_inv L s" and "objects s x = None"
  shows "changes L {x} ((tasks_abs s)(x \<mapsto> Nothing)) s (task_default x s)"
  using assms by (force simp: changes_def task_default_def task_new_def tasks_inv_def tasks_abs_def)

lemma task_make_ok:
  assumes inv: "tasks_inv L s" and x: "objects s x = None"
  shows "changes L {x} ((tasks_abs s)(x \<mapsto> holding L f)) s (task_make L x f s)"
proof -
  have others: "a < next_address s \<and> (\<exists>z. z \<noteq> x \<and> owned (objects s z) = Some a)" if "allocated s a \<noteq> None" for a
    using other_owner [OF inv that, of x] x by simp
  consider "is_empty L f" | "\<not> is_empty L f" "small_model L (typeid L f)" | "\<not> is_empty L f" "\<not> small_model L (typeid L f)" by blast
  then show ?thesis
  proof cases
    case 1
    then show ?thesis using task_default_ok [OF assms] by (simp add: task_make_def holding_def)
  next
    case 2
    let ?s = "s\<lparr>objects := (objects s)(x \<mapsto> \<lparr>vtable_ptr = Vt_Small (typeid L f), model_bytes = Small_Model f\<rparr>)\<rparr>"
    have "tasks_inv L ?s \<and> tasks_abs ?s = (tasks_abs s)(x \<mapsto> Holds f)"
      by (rule tasks_update1 [OF inv]) (use others 2 in auto)
    then show ?thesis using 2 x by (simp add: changes_def task_make_def task_new_def holding_def Let_def)
  next
    case 3
    let ?a = "next_address s"
    let ?s = "s\<lparr>allocated := (allocated s)(?a \<mapsto> f), next_address := ?a + 1,
      objects := (objects s)(x \<mapsto> \<lparr>vtable_ptr = Vt_Large (typeid L f), model_bytes = Large_Model (Some ?a)\<rparr>)\<rparr>"
    have ne: "owned (objects s z) \<noteq> Some ?a" for z using owned_allocated(2) [OF inv, of z ?a] by auto
    have "tasks_inv L ?s \<and> tasks_abs ?s = (tasks_abs s)(x \<mapsto> Holds f)"
      by (rule tasks_update1 [OF inv]) (use others ne 3 in \<open>auto simp: less_Suc_eq split: if_splits\<close>)
    then show ?thesis using 3 x by (simp add: changes_def task_make_def task_new_def holding_def Let_def)
  qed
qed

lemma task_destroy_ok:
  assumes inv: "tasks_inv L s" and x: "objects s x = Some t"
  shows "changes L {x} ((tasks_abs s)(x := None)) s (task_destroy x s)"
proof -
  have ok: "task_ok L (allocated s) t" using inv x by (simp add: tasks_inv_def)
  let ?s = "s\<lparr>objects := (objects s)(x := None)\<rparr>"
  have plain: "tasks_inv L ?s \<and> tasks_abs ?s = (tasks_abs s)(x := None)" if "owned (Some t) = None"
    by (rule tasks_update1 [OF inv]) (use other_owner [OF inv, of _ x] that x in auto)
  from ok show ?thesis
  proof (cases rule: task_ok_cases)
    case (4 f a)
    let ?s = "s\<lparr>allocated := (allocated s)(a := None), objects := (objects s)(x := None)\<rparr>"
    have u: "owned (objects s z) \<noteq> Some a" if "z \<noteq> x" for z using inv that x 4(1) unfolding tasks_inv_def by (metis owned.simps(1))
    have "tasks_inv L ?s \<and> tasks_abs ?s = (tasks_abs s)(x := None)"
      by (rule tasks_update1 [OF inv]) (use other_owner [OF inv, of _ x] u x 4 in \<open>auto split: if_splits\<close>)
    then show ?thesis using x 4 by (simp add: changes_def task_destroy_def vt_dtor_def task_at_def set_bytes_def)
  qed (use plain x in \<open>simp_all add: changes_def task_destroy_def vt_dtor_def task_at_def set_bytes_def\<close>)
qed

lemma task_move_ok:
  assumes inv: "tasks_inv L s" and L: "typed L" and y: "objects s y = Some t" and x: "objects s x = None"
  shows "changes L {x, y} (moving L y x (tasks_abs s)) s (task_move L y x s)"
proof -
  have ok: "task_ok L (allocated s) t" and xy: "x \<noteq> y" using inv x y by (auto simp: tasks_inv_def)
  note D = changes_def task_move_def vt_move_ctor_def task_at_def task_new_def set_bytes_def moving_def tasks_abs_def fun_eq_iff
  have one: "a < next_address s \<and> (\<exists>z. owned (objects s z) = Some a \<and> z \<noteq> x)" if "allocated s a \<noteq> None" for a
    using other_owner [OF inv that, of x] x by auto
  have two: "\<exists>z. z \<noteq> x \<and> z \<noteq> y \<and> owned (objects s z) = Some a" if "allocated s a \<noteq> None" "owned (objects s y) \<noteq> Some a" for a
    using one [OF that(1)] that(2) by metis
  from ok show ?thesis
  proof (cases rule: task_ok_cases)
    case 1
    let ?s = "s\<lparr>objects := (objects s)(x \<mapsto> t)\<rparr>"
    have "tasks_inv L ?s \<and> tasks_abs ?s = (tasks_abs s)(x \<mapsto> Nothing)"
      by (rule tasks_update1 [OF inv]) (use 1 one in auto)
    then show ?thesis using x y xy 1 by (auto simp: D)
  next
    case (2 f)
    let ?s = "s\<lparr>objects := (objects s)(y \<mapsto> t\<lparr>model_bytes := Small_Model (moved L f)\<rparr>, x \<mapsto> t)\<rparr>"
    have "tasks_inv L ?s"
      by (rule tasks_update(1) [OF inv, of x y]) (use 2 one two y L xy in \<open>auto simp: typed_def\<close>)
    then show ?thesis using x y xy 2 by (auto simp: D)
  next
    case (3 i)
    let ?s = "s\<lparr>objects := (objects s)(y \<mapsto> t, x \<mapsto> t)\<rparr>"
    have "tasks_inv L ?s"
      by (rule tasks_update(1) [OF inv, of x y]) (use 3 one two y xy in auto)
    then show ?thesis using x y xy 3 by (auto simp: D)
  next
    case (4 f a)
    let ?s = "s\<lparr>objects := (objects s)(y \<mapsto> t\<lparr>model_bytes := Large_Model None\<rparr>, x \<mapsto> t)\<rparr>"
    have u: "owned (objects s z) \<noteq> Some a" if "z \<noteq> y" for z using inv that y 4(1) unfolding tasks_inv_def by (metis owned.simps(1))
    have "tasks_inv L ?s"
      by (rule tasks_update(1) [OF inv, of x y]) (use 4 one two u y xy in auto)
    then show ?thesis using x y xy 4 by (auto simp: D)
  qed
qed

section \<open>The composed operations\<close>

text \<open>\<open>operator=\<close> between different objects is a destruction followed by a move construction.\<close>

lemma task_assign_move:
  assumes inv: "tasks_inv L s" and x: "objects s x = Some t" and y: "objects s y = Some t'" and xy: "x \<noteq> y"
  shows "task_assign L x y s = bindR (task_destroy x s) (task_move L y x)"
proof -
  have ok: "task_ok L (allocated s) t" using inv x by (simp add: tasks_inv_def)
  note D = task_assign_def task_destroy_def task_move_def task_at_def task_new_def set_vtable_def set_bytes_def vt_dtor_def
  show ?thesis using ok
  proof (cases rule: task_ok_cases)
    case (4 f a)
    then show ?thesis using x y xy by (simp add: D fun_upd_twist)
  qed (use x y xy in \<open>simp_all add: D\<close>)
qed

lemma task_assign_ok:
  assumes inv: "tasks_inv L s" and L: "typed L" and x: "objects s x \<noteq> None" and y: "objects s y \<noteq> None" and xy: "x \<noteq> y"
  shows "changes L {x, y} (moving L y x (tasks_abs s)) s (task_assign L x y s)"
proof -
  from x y obtain t t' where t: "objects s x = Some t" "objects s y = Some t'" by auto
  from task_destroy_ok [OF inv t(1)] obtain s1 where s1: "task_destroy x s = Inr s1" "tasks_inv L s1"
    "tasks_abs s1 = (tasks_abs s)(x := None)" "\<And>z. z \<notin> {x} \<Longrightarrow> objects s1 z = objects s z" by (rule changesE) blast
  have n: "objects s1 x = None" "objects s1 y = Some t'" using s1(4) [of y] fun_cong [OF s1(3), of x] t(2) xy by (auto simp: tasks_abs_def)
  have "moving L y x (tasks_abs s1) = moving L y x (tasks_abs s)" using xy by (auto simp: moving_def s1(3))
  then show ?thesis using task_move_ok [OF s1(2) L n(2,1)] s1 task_assign_move [OF inv t xy] by (fastforce simp: changes_def)
qed

lemma assign_temp_ok:
  assumes inv: "tasks_inv L s" and L: "typed L" and x: "objects s x \<noteq> None" and t: "objects s Temp \<noteq> None" "x \<noteq> Temp"
  shows "\<exists>s'. assign_temp L x s = Inr s' \<and> tasks_quiet L s' \<and> tasks_abs s' = (tasks_abs s)(x := tasks_abs s Temp, Temp := None)"
proof -
  from task_assign_ok [OF inv L x t] obtain s1 where s1: "task_assign L x Temp s = Inr s1" "tasks_inv L s1"
    "tasks_abs s1 = moving L Temp x (tasks_abs s)" by (rule changesE)
  have "tasks_abs s1 Temp \<noteq> None" using t by (simp add: s1(3) moving_def tasks_abs_def)
  then obtain u where u: "objects s1 Temp = Some u" by (auto simp: tasks_abs_def)
  from task_destroy_ok [OF s1(2) u] obtain s2 where s2: "task_destroy Temp s1 = Inr s2" "tasks_inv L s2"
    "tasks_abs s2 = (tasks_abs s1)(Temp := None)" by (rule changesE)
  have "objects s2 Temp = None" using fun_cong [OF s2(3), of Temp] by (simp add: tasks_abs_def)
  then show ?thesis using s1 s2 by (simp add: assign_temp_def tasks_quiet_def moving_def)
qed

lemma task_set_ok:
  assumes "tasks_quiet L s" and L: "typed L" and x: "objects s x \<noteq> None"
    and r: "changes L {Temp} ((tasks_abs s)(Temp \<mapsto> h)) s r"
  shows "\<exists>s'. bindR r (assign_temp L x) = Inr s' \<and> tasks_quiet L s' \<and> tasks_abs s' = (tasks_abs s)(x \<mapsto> h)"
proof -
  have q: "objects s Temp = None" "x \<noteq> Temp" using assms(1,3) by (auto simp: tasks_quiet_def)
  from r obtain s1 where s1: "r = Inr s1" "tasks_inv L s1" "tasks_abs s1 = (tasks_abs s)(Temp \<mapsto> h)"
    "\<And>z. z \<notin> {Temp} \<Longrightarrow> objects s1 z = objects s z" by (rule changesE) blast
  have "objects s1 Temp \<noteq> None" using fun_cong [OF s1(3), of Temp] by (auto simp: tasks_abs_def)
  moreover have "objects s1 x \<noteq> None" using s1(4) [of x] x q by simp
  ultimately show ?thesis using assign_temp_ok [OF s1(2) L _ _ q(2)] s1 q
    by (auto simp: fun_upd_twist [of Temp x] tasks_abs_def [of s] intro!: ext)
qed

lemma task_swap_ok:
  assumes "tasks_quiet L s" and L: "typed L" and x: "objects s x \<noteq> None" and y: "objects s y \<noteq> None" and xy: "x \<noteq> y"
  shows "\<exists>s'. task_swap L x y s = Inr s' \<and> tasks_quiet L s' \<and> tasks_abs s' = (tasks_abs s)(x := tasks_abs s y, y := tasks_abs s x)"
proof -
  have q: "tasks_inv L s" "objects s Temp = None" "x \<noteq> Temp" "y \<noteq> Temp" using assms(1) x y by (auto simp: tasks_quiet_def)
  have alive: "objects u z \<noteq> None \<longleftrightarrow> tasks_abs u z \<noteq> None" for u :: "'a tasks" and z by (simp add: tasks_abs_def)
  from x obtain t where t: "objects s x = Some t" by blast
  from task_move_ok [OF q(1) L t q(2)] obtain s1 where s1: "task_move L x Temp s = Inr s1" "tasks_inv L s1"
    "tasks_abs s1 = moving L x Temp (tasks_abs s)" by (rule changesE)
  have a1: "objects s1 x \<noteq> None" "objects s1 y \<noteq> None" using x y xy q(3,4) unfolding alive by (auto simp: s1(3) moving_def)
  from task_assign_ok [OF s1(2) L a1 xy] obtain s2 where s2: "task_assign L x y s1 = Inr s2" "tasks_inv L s2"
    "tasks_abs s2 = moving L y x (tasks_abs s1)" by (rule changesE)
  have a2: "objects s2 y \<noteq> None" "objects s2 Temp \<noteq> None" using x y xy q(3,4) unfolding alive by (auto simp: s1(3) s2(3) moving_def)
  from assign_temp_ok [OF s2(2) L a2 q(4)] obtain s3 where s3: "assign_temp L y s2 = Inr s3" "tasks_quiet L s3"
    "tasks_abs s3 = (tasks_abs s2)(y := tasks_abs s2 Temp, Temp := None)" by blast
  have "tasks_abs s3 = (tasks_abs s)(x := tasks_abs s y, y := tasks_abs s x)"
    using q xy by (auto simp: s3(3) s2(3) s1(3) moving_def fun_eq_iff tasks_abs_def)
  then show ?thesis using s1(1) s2(1) s3(1,2) by (simp add: task_swap_def)
qed

text \<open>A call: what it returns, and what it leaves.\<close>

lemma task_call_ok:
  assumes inv: "tasks_inv L s" and L: "typed L" and x: "tasks_abs s x = Some h" and h: "\<And>t. h \<noteq> Hollow t"
  shows "\<exists>s'. task_call L x a s = Inr (case h of Holds f \<Rightarrow> Returned (fst (apply_to L f a)) | _ \<Rightarrow> Bad_Function_Call, s') \<and> tasks_inv L s' \<and>
    tasks_abs s' = (tasks_abs s)(x \<mapsto> after_call L a h) \<and> (\<forall>z. z \<noteq> x \<longrightarrow> objects s' z = objects s z)"
proof -
  from x obtain t where t: "objects s x = Some t" "h = content (allocated s) t" by (auto simp: tasks_abs_def)
  have ok: "task_ok L (allocated s) t" using inv t(1) by (simp add: tasks_inv_def)
  note D = task_call_def vt_invoke_def task_at_def set_bytes_def case_prod_unfold Let_def
  from ok show ?thesis
  proof (cases rule: task_ok_cases)
    case 1
    then show ?thesis using t inv x by (auto simp: D)
  next
    case (2 f)
    let ?s = "s\<lparr>objects := (objects s)(x \<mapsto> t\<lparr>model_bytes := Small_Model (snd (apply_to L f a))\<rparr>)\<rparr>"
    have "tasks_inv L ?s \<and> tasks_abs ?s = (tasks_abs s)(x \<mapsto> Holds (snd (apply_to L f a)))"
      by (rule tasks_update1 [OF inv]) (use 2 t L other_owner [OF inv, of _ x] in \<open>auto simp: typed_def\<close>)
    then show ?thesis using t 2 by (simp add: D)
  next
    case (3 i)
    then show ?thesis using t h [of i] by simp
  next
    case (4 f q)
    let ?s = "s\<lparr>allocated := (allocated s)(q \<mapsto> snd (apply_to L f a))\<rparr>"
    have u: "owned (objects s z) \<noteq> Some q" if "z \<noteq> x" for z using inv that t(1) 4(1) unfolding tasks_inv_def by (metis owned.simps(1))
    have "q < next_address s" using owned_allocated(2) [OF inv, of x q] t 4 by simp
    then have "tasks_inv L ?s \<and> tasks_abs ?s = (tasks_abs s)(x \<mapsto> Holds (snd (apply_to L f a)))"
      by (intro tasks_update1 [OF inv]) (use 4 t L u other_owner [OF inv, of _ x] in \<open>auto simp: typed_def split: if_splits\<close>)
    then show ?thesis using t 4 by (simp add: D)
  qed
qed

section \<open>Every program\<close>

lemma task_step_refines:
  assumes s: "tasks_quiet L s" and L: "typed L" and ok: "task_allowed x (tasks_abs s)"
  shows "\<exists>s'. task_step L x s = Inr s' \<and> tasks_quiet L s' \<and> tasks_abs s' = task_spec L x (tasks_abs s)"
proof -
  have q: "tasks_inv L s" "objects s Temp = None" using s by (auto simp: tasks_quiet_def)
  have alive: "tasks_abs s z = None \<longleftrightarrow> objects s z = None" for z by (simp add: tasks_abs_def)
  have one: "\<exists>s'. r = Inr s' \<and> tasks_quiet L s' \<and> tasks_abs s' = h" if "changes L X h s r" "Temp \<notin> X" for X h r
    using that q(2) by (auto simp: changes_def tasks_quiet_def)
  show ?thesis
  proof (cases x)
    case (T_Call y a)
    then obtain h where h: "tasks_abs s (Named y) = Some h" "\<And>t. h \<noteq> Hollow t" using ok by (auto split: option.splits holder.splits)
    from task_call_ok [OF q(1) L h, of a] show ?thesis using T_Call h q(2) by (auto simp: tasks_quiet_def)
  next
    case (T_Null y)
    then show ?thesis using task_set_ok [OF s L _ task_default_ok [OF q]] ok by (simp add: task_set_null_def alive)
  next
    case (T_Set y f)
    then show ?thesis using task_set_ok [OF s L _ task_make_ok [OF q]] ok by (simp add: task_set_def alive)
  next
    case (T_Swap y z)
    then show ?thesis using task_swap_ok [OF s L] ok by (simp add: alive)
  next
    case (T_Move y z)
    then show ?thesis using one [OF task_move_ok [OF q(1) L]] ok by (auto simp: alive)
  next
    case (T_Destroy y)
    then show ?thesis using one [OF task_destroy_ok [OF q(1)]] ok by (auto simp: alive)
  next
    case (T_Assign y z)
    then show ?thesis using one [OF task_assign_ok [OF q(1) L]] ok by (auto simp: alive)
  qed (use ok alive one [OF task_default_ok [OF q(1)]] one [OF task_make_ok [OF q(1)]] in auto)
qed

interpretation tk: refining_machine "\<lambda>s. tasks_quiet L s \<and> typed L" "task_step L" tasks_abs task_allowed "task_spec L" for L
  by unfold_locales (use task_step_refines in blast)

lemma tasks_quiet_init: "tasks_quiet L tasks_init"
  by (simp add: tasks_quiet_def tasks_inv_def tasks_init_def)

lemma tasks_abs_init: "tasks_abs tasks_init = (\<lambda>_. None)"
  by (simp add: tasks_abs_def tasks_init_def fun_eq_iff)

lemma tasks_run:
  assumes "typed L" and "permitted task_allowed (task_spec L) ops (\<lambda>_. None)"
  shows "\<exists>s. run_ops (task_step L) ops tasks_init = Inr s \<and> tasks_quiet L s \<and> tasks_abs s = fold (task_spec L) ops (\<lambda>_. None)"
  using tk.run_refines [of L tasks_init ops] assms by (auto simp: tasks_quiet_init tasks_abs_init)

text \<open>
  C29. Tasks move like values: every permitted sequence of constructions, moves, assignments, swaps, calls and
  destructions runs without a fault and leaves in every task what the specification says, wherever the function objects are
  stored. A task that was moved from keeps a small function, in the state its move has left, and nothing of a large one.
\<close>
theorem task_move_semantics:
  assumes "typed L" and "permitted task_allowed (task_spec L) ops (\<lambda>_. None)"
  shows "\<exists>s. run_ops (task_step L) ops tasks_init = Inr s \<and> tasks_abs s = fold (task_spec L) ops (\<lambda>_. None)"
  using tasks_run [OF assms] by blast

text \<open>
  Large function objects are freed exactly once: after every permitted sequence of operations each of them has
  exactly one task that owns it, and when all tasks have been destroyed none is left on the heap.
\<close>
theorem task_no_leak:
  assumes "typed L" and "permitted task_allowed (task_spec L) ops (\<lambda>_. None)" and "run_ops (task_step L) ops tasks_init = Inr s"
  shows "(allocated s a \<noteq> None \<longleftrightarrow> (\<exists>!x. owned (objects s x) = Some a)) \<and>
    ((\<forall>x. tasks_abs s x = None) \<longrightarrow> allocated s a = None)"
proof -
  have inv: "tasks_inv L s" using tasks_run [OF assms(1,2)] assms(3) by (auto simp: tasks_quiet_def)
  have "allocated s a \<noteq> None \<longleftrightarrow> (\<exists>!x. owned (objects s x) = Some a)"
    using inv owned_allocated(1) [OF inv] unfolding tasks_inv_def by metis
  then show ?thesis by (auto simp: tasks_abs_def)
qed

section \<open>Observations\<close>

fun at_place :: "place \<Rightarrow> 'f tasks \<Rightarrow> 'f option" where
  "at_place (In_Buffer x) s = (case objects s x of Some t \<Rightarrow> (case model_bytes t of Small_Model f \<Rightarrow> Some f | _ \<Rightarrow> None) | None \<Rightarrow> None)"
| "at_place (On_Heap a) s = allocated s a"

text \<open>
  What a task answers: one that holds a function is true, \<open>target\<close> of the type of the function points to it and of
  another type is null, and a call calls it; an empty one is false, has type \<open>void\<close> and throws \<open>bad_function_call\<close>; one whose large
  function has been moved away is false and has no target but still the type of the function, and a call goes through a null pointer.
\<close>
theorem task_observers:
  assumes "typed L" and "permitted task_allowed (task_spec L) ops (\<lambda>_. None)" and "run_ops (task_step L) ops tasks_init = Inr s"
    and "tasks_abs s x = Some h"
  shows "case h of
      Nothing \<Rightarrow> task_bool x s = Inr False \<and> task_target_type x s = Inr None \<and> task_target T x s = Inr None \<and>
        task_call L x a s = Inr (Bad_Function_Call, s)
    | Holds f \<Rightarrow> task_bool x s = Inr True \<and> task_target_type x s = Inr (Some (typeid L f)) \<and>
        (\<exists>p. at_place p s = Some f \<and> task_target T x s = Inr (if T = typeid L f then Some p else None)) \<and>
        (\<exists>s'. task_call L x a s = Inr (Returned (fst (apply_to L f a)), s'))
    | Hollow t \<Rightarrow> task_bool x s = Inr False \<and> task_target_type x s = Inr (Some t) \<and> task_target T x s = Inr None \<and>
        task_call L x a s = Inl Null_Model"
proof -
  have inv: "tasks_inv L s" using tasks_run [OF assms(1,2)] assms(3) by (auto simp: tasks_quiet_def)
  from assms(4) obtain t where t: "objects s x = Some t" "h = content (allocated s) t" by (auto simp: tasks_abs_def)
  then have ok: "task_ok L (allocated s) t" using inv by (simp add: tasks_inv_def)
  note D = task_bool_def task_target_def task_target_type_def task_call_def vt_invoke_def vt_pointer_def task_at_def case_prod_unfold Let_def
  from ok show ?thesis
  proof (cases rule: task_ok_cases)
    case (2 f)
    then show ?thesis using t by (auto simp: D intro!: exI [of _ "In_Buffer x"])
  next
    case (4 f q)
    then show ?thesis using t by (auto simp: D intro!: exI [of _ "On_Heap q"])
  qed (use t in \<open>simp_all add: D\<close>)
qed

text \<open>
  The assignment does not survive an object assigned to itself: the function is destroyed before it is moved, so that
  moving it uses a destroyed object; and \<open>swap\<close> of a task with itself does the same.
\<close>
theorem task_self_swap:
  assumes "typed L" and "permitted task_allowed (task_spec L) ops (\<lambda>_. None)" and "run_ops (task_step L) ops tasks_init = Inr s"
    and "tasks_abs s x = Some h" and "h \<noteq> Nothing" and "x \<noteq> Temp"
  shows "task_assign L x x s = Inl Dead_Model \<and> task_swap L x x s = Inl Dead_Model"
proof -
  have q: "tasks_inv L s" "objects s Temp = None" using tasks_run [OF assms(1,2)] assms(3) by (auto simp: tasks_quiet_def)
  from assms(4) obtain t where t: "objects s x = Some t" "h = content (allocated s) t" by (auto simp: tasks_abs_def)
  then have ok: "task_ok L (allocated s) t" using q by (simp add: tasks_inv_def)
  note D = task_assign_def task_swap_def task_move_def vt_move_ctor_def vt_dtor_def task_at_def task_new_def set_bytes_def set_vtable_def
  from ok show ?thesis by (cases rule: task_ok_cases) (use t q(2) assms(5,6) in \<open>simp_all add: D\<close>)
qed

section \<open>An example\<close>

text \<open>
  Functions of type 1 fit into a task, functions of type 2 do not, those of type 0 are function pointers; each adds its number to
  the argument, and a move leaves the number 0.
\<close>

definition adders :: "(nat \<times> nat, nat, nat) callables" where
  "adders = \<lparr>typeid = fst, sizeof = (\<lambda>t. if t = 2 then 512 else 8), possibly_empty = (\<lambda>t. t = 0), is_null = (\<lambda>(t, v). v = 0),
     moved = (\<lambda>(t, v). (t, 0)), apply_to = (\<lambda>(t, v) a. (a + v, (t, v)))\<rparr>"

lemma adders_typed: "typed adders"
  by (auto simp: typed_def adders_def)

definition adder_ops :: "(nat \<times> nat, nat) task_op list" where
  "adder_ops = [T_Make 0 (1, 42), T_Make 1 (2, 99), T_Swap 0 1, T_Move 0 2, T_Move 1 3, T_Set 3 (0, 0)]"

lemma adder_ops_permitted: "permitted task_allowed (task_spec adders) adder_ops (\<lambda>_. None)"
  by code_simp

theorem task_move_semantics_witness:
  "\<exists>s. run_ops (task_step adders) adder_ops tasks_init = Inr s \<and> tasks_abs s (Named 0) = Some (Hollow 2) \<and>
     tasks_abs s (Named 1) = Some (Holds (1, 0)) \<and> tasks_abs s (Named 2) = Some (Holds (2, 99)) \<and> tasks_abs s (Named 3) = Some Nothing"
proof -
  from task_move_semantics [OF adders_typed adder_ops_permitted] obtain s where
    s: "run_ops (task_step adders) adder_ops tasks_init = Inr s" "tasks_abs s = fold (task_spec adders) adder_ops (\<lambda>_. None)" by blast
  have "map (fold (task_spec adders) adder_ops (\<lambda>_. None)) [Named 0, Named 1, Named 2, Named 3] =
    [Some (Hollow 2), Some (Holds (1, 0)), Some (Holds (2, 99)), Some Nothing]" by code_simp
  then show ?thesis using s by auto
qed

definition adder_end :: "(nat \<times> nat, nat) task_op list" where
  "adder_end = adder_ops @ map T_Destroy [0, 1, 2, 3]"

theorem task_no_leak_witness:
  "\<exists>s. run_ops (task_step adders) adder_end tasks_init = Inr s \<and> allocated s 0 = None"
proof -
  have p: "permitted task_allowed (task_spec adders) adder_end (\<lambda>_. None)" by code_simp
  from tasks_run [OF adders_typed p] obtain s where s: "run_ops (task_step adders) adder_end tasks_init = Inr s"
    "tasks_abs s = fold (task_spec adders) adder_end (\<lambda>_. None)" by blast
  have "tasks_abs s x = None" for x
    by (cases x) (simp_all add: s(2) adder_end_def adder_ops_def moving_def holding_def)
  with task_no_leak [OF adders_typed p s(1), of 0] s(1) show ?thesis by blast
qed

theorem task_observers_witness:
  "\<exists>s. run_ops (task_step adders) adder_ops tasks_init = Inr s \<and> task_bool (Named 0) s = Inr False \<and>
     task_target_type (Named 0) s = Inr (Some 2) \<and> task_call adders (Named 0) 7 s = Inl Null_Model"
proof -
  from tasks_run [OF adders_typed adder_ops_permitted] obtain s where s: "run_ops (task_step adders) adder_ops tasks_init = Inr s"
    "tasks_abs s = fold (task_spec adders) adder_ops (\<lambda>_. None)" by blast
  have "fold (task_spec adders) adder_ops (\<lambda>_. None) (Named 0) = Some (Hollow 2)" by code_simp
  then have "tasks_abs s (Named 0) = Some (Hollow 2)" using s(2) by simp
  from task_observers [OF adders_typed adder_ops_permitted s(1) this] s(1) show ?thesis by auto
qed

theorem task_self_swap_witness:
  "\<exists>s. run_ops (task_step adders) adder_ops tasks_init = Inr s \<and> task_swap adders (Named 2) (Named 2) s = Inl Dead_Model"
proof -
  from tasks_run [OF adders_typed adder_ops_permitted] obtain s where s: "run_ops (task_step adders) adder_ops tasks_init = Inr s"
    "tasks_abs s = fold (task_spec adders) adder_ops (\<lambda>_. None)" by blast
  have "fold (task_spec adders) adder_ops (\<lambda>_. None) (Named 2) = Some (Holds (2, 99))" by code_simp
  then have "tasks_abs s (Named 2) = Some (Holds (2, 99))" using s(2) by simp
  from task_self_swap [OF adders_typed adder_ops_permitted s(1) this] s(1) show ?thesis by auto
qed

end
