(* ===== verification/Blocking_Get.thy ===== *)
theory Blocking_Get
  imports Future_Shared
begin

text \<open>
  The functions around futures (\<^verbatim>\<open>deps/clean_stlab/stlab/concurrency/utility.hpp\<close>): futures that are ready from the start, and
  \<open>blocking_get\<close>, which waits for a future on a condition variable, without or with a timeout. The caller attaches a function by
  \<open>recover\<close> on the immediate executor, so that the thread that makes the future ready calls it; caller, that function,
  the clock and spurious wake-ups interleave. The overloads for \<open>void\<close> have the value type \<open>unit\<close>.
\<close>

section \<open>Ready futures\<close>

text \<open>The packaged task is called at once, in the thread that makes the future, and then destroyed.\<close>

definition call_and_drop :: "'e \<Rightarrow> ('v, 'e, 'k) sb_op \<Rightarrow> ('v, 'e, 'k) sb" where
  "call_and_drop broken x = fold (sb_step broken) [Invoke, x, Proceed 0, Hand 0, Remove_Promise] package"

definition make_ready_future :: "'e \<Rightarrow> 'v \<Rightarrow> ('v, 'e, 'k) sb" where
  "make_ready_future broken v = call_and_drop broken (Return 0 v)"

definition make_exceptional_future :: "'e \<Rightarrow> 'e \<Rightarrow> ('v, 'e, 'k) sb" where
  "make_exceptional_future broken e = call_and_drop broken (Throws 0 e)"

section \<open>A blocking call\<close>

datatype ('v, 'e) bg_return = Got 'v | Rethrow 'e | No_Value

text \<open>
  The caller: before \<open>recover\<close>, about to test the flag, in the wait since a time, with a wait that has timed out, returned. The
  function given to \<open>recover\<close>: not given yet, stored with the future, called with an outcome, past the write of the outcome, ended,
  destroyed without a call.
\<close>

datatype ('v, 'e) bg_pc = Attach | Test | Asleep nat | Late | Back "('v, 'e) bg_return"

datatype ('v, 'e) bg_cont = Unattached | Stored | Called "'e + 'v" | Written | Ended | Destroyed

record ('v, 'e) bg =
  bg_source :: "('e + 'v) option"
  bg_pc :: "('v, 'e) bg_pc"
  bg_cont :: "('v, 'e) bg_cont"
  bg_result :: "'v option"
  bg_error :: "'e option"
  bg_flag :: bool
  bg_clock :: nat

definition bg_init :: "('v, 'e) bg" where
  "bg_init = \<lparr>bg_source = None, bg_pc = Attach, bg_cont = Unattached, bg_result = None, bg_error = None, bg_flag = False, bg_clock = 0\<rparr>"

text \<open>The use of a local variable of the caller after its return, and of an empty \<open>optional\<close>.\<close>

datatype bg_fault = Frame_Gone | No_Result

definition write_outcome :: "'e + 'v \<Rightarrow> ('v, 'e) bg \<Rightarrow> ('v, 'e) bg" where
  "write_outcome r s = (case r of Inl e \<Rightarrow> s\<lparr>bg_error := Some e\<rparr> | Inr v \<Rightarrow> s\<lparr>bg_result := Some v\<rparr>)"

text \<open>The caller moves. A future that is ready calls the function inside \<open>recover\<close>.\<close>

definition bg_move :: "nat option \<Rightarrow> ('v, 'e) bg \<Rightarrow> bg_fault + ('v, 'e) bg" where
  "bg_move timeout s =
     (case bg_pc s of
        Attach \<Rightarrow> Inr (case bg_source s of
            Some r \<Rightarrow> (write_outcome r s)\<lparr>bg_flag := True, bg_cont := Ended, bg_pc := Test\<rparr>
          | None \<Rightarrow> s\<lparr>bg_cont := Stored, bg_pc := Test\<rparr>)
      | Test \<Rightarrow>
          (if bg_flag s then
             (case bg_error s of
                Some e \<Rightarrow> Inr (s\<lparr>bg_pc := Back (Rethrow e)\<rparr>)
              | None \<Rightarrow> (case bg_result s of None \<Rightarrow> Inl No_Result | Some v \<Rightarrow> Inr (s\<lparr>bg_pc := Back (Got v)\<rparr>)))
           else Inr (s\<lparr>bg_pc := Asleep (bg_clock s)\<rparr>))
      | Late \<Rightarrow> Inr (s\<lparr>bg_pc := Back No_Value, bg_cont := (if bg_cont s = Stored then Destroyed else bg_cont s)\<rparr>)
      | _ \<Rightarrow> Inr s)"

fun returned :: "('v, 'e) bg_pc \<Rightarrow> bool" where
  "returned (Back x) = True"
| "returned _ = False"

text \<open>
  The function given to \<open>recover\<close>: with a timeout it first locks its weak pointer to the state it shares with the caller, without
  one it writes to local variables of the caller.
\<close>

definition bg_write :: "nat option \<Rightarrow> ('v, 'e) bg \<Rightarrow> bg_fault + ('v, 'e) bg" where
  "bg_write timeout s =
     (case bg_cont s of
        Called r \<Rightarrow>
          (if returned (bg_pc s) then (if timeout = None then Inl Frame_Gone else Inr (s\<lparr>bg_cont := Ended\<rparr>))
           else Inr ((write_outcome r s)\<lparr>bg_cont := Written\<rparr>))
      | _ \<Rightarrow> Inr s)"

definition bg_notify :: "nat option \<Rightarrow> ('v, 'e) bg \<Rightarrow> bg_fault + ('v, 'e) bg" where
  "bg_notify timeout s =
     (case bg_cont s of
        Written \<Rightarrow>
          (if returned (bg_pc s) \<and> timeout = None then Inl Frame_Gone
           else Inr (s\<lparr>bg_flag := True, bg_cont := Ended, bg_pc := (case bg_pc s of Asleep t \<Rightarrow> Test | p \<Rightarrow> p)\<rparr>))
      | _ \<Rightarrow> Inr s)"

text \<open>
  What happens to the future: its task is called and gives an outcome, or its promise is broken, which destroys the
  continuations that are attached.
\<close>

definition bg_fulfil :: "'e + 'v \<Rightarrow> ('v, 'e) bg \<Rightarrow> ('v, 'e) bg" where
  "bg_fulfil r s = (if bg_source s = None then s\<lparr>bg_source := Some r, bg_cont := (if bg_cont s = Stored then Called r else bg_cont s)\<rparr> else s)"

definition bg_break :: "'e \<Rightarrow> ('v, 'e) bg \<Rightarrow> ('v, 'e) bg" where
  "bg_break broken s =
     (if bg_source s = None then s\<lparr>bg_source := Some (Inl broken), bg_cont := (if bg_cont s = Stored then Destroyed else bg_cont s)\<rparr> else s)"

datatype ('v, 'e) bg_op = Move | Write | Notify | Fulfil "'e + 'v" | Break | Tick | Wake | Time_Out

fun bg_step :: "nat option \<Rightarrow> 'e \<Rightarrow> ('v, 'e) bg_op \<Rightarrow> ('v, 'e) bg \<Rightarrow> bg_fault + ('v, 'e) bg" where
  "bg_step timeout broken Move s = bg_move timeout s"
| "bg_step timeout broken Write s = bg_write timeout s"
| "bg_step timeout broken Notify s = bg_notify timeout s"
| "bg_step timeout broken (Fulfil r) s = Inr (bg_fulfil r s)"
| "bg_step timeout broken Break s = Inr (bg_break broken s)"
| "bg_step timeout broken Tick s = Inr (s\<lparr>bg_clock := bg_clock s + 1\<rparr>)"
| "bg_step timeout broken Wake s = Inr (case bg_pc s of Asleep t \<Rightarrow> s\<lparr>bg_pc := Test\<rparr> | _ \<Rightarrow> s)"
| "bg_step timeout broken Time_Out s =
     Inr (case (bg_pc s, timeout) of (Asleep t, Some d) \<Rightarrow> (if t + d \<le> bg_clock s then s\<lparr>bg_pc := Late\<rparr> else s) | _ \<Rightarrow> s)"

section \<open>Invariant\<close>

definition outcome_of :: "'e + 'v \<Rightarrow> ('v, 'e) bg_return" where
  "outcome_of r = (case r of Inl e \<Rightarrow> Rethrow e | Inr v \<Rightarrow> Got v)"

text \<open>The outcome \<open>r\<close> is in the variables of the call.\<close>

definition has_outcome :: "'e + 'v \<Rightarrow> ('v, 'e) bg \<Rightarrow> bool" where
  "has_outcome r s \<longleftrightarrow> (case r of Inl e \<Rightarrow> bg_error s = Some e | Inr v \<Rightarrow> bg_error s = None \<and> bg_result s = Some v)"

definition cont_ok :: "nat option \<Rightarrow> ('v, 'e) bg \<Rightarrow> bool" where
  "cont_ok timeout s \<longleftrightarrow> (case bg_cont s of
      Unattached \<Rightarrow> bg_pc s = Attach
    | Stored \<Rightarrow> bg_source s = None \<and> \<not> returned (bg_pc s)
    | Called r \<Rightarrow> bg_source s = Some r \<and> (returned (bg_pc s) \<longrightarrow> timeout \<noteq> None)
    | Written \<Rightarrow> (\<exists>r. bg_source s = Some r \<and> has_outcome r s) \<and> (returned (bg_pc s) \<longrightarrow> timeout \<noteq> None)
    | Ended \<Rightarrow> \<not> bg_flag s \<longrightarrow> bg_pc s = Back No_Value
    | Destroyed \<Rightarrow> (bg_pc s = Back No_Value \<or> bg_source s \<noteq> None))"

definition pc_ok :: "nat option \<Rightarrow> ('v, 'e) bg \<Rightarrow> bool" where
  "pc_ok timeout s \<longleftrightarrow> (case bg_pc s of
      Attach \<Rightarrow> bg_cont s = Unattached
    | Asleep t \<Rightarrow> \<not> bg_flag s \<and> t \<le> bg_clock s
    | Late \<Rightarrow> timeout \<noteq> None
    | Back x \<Rightarrow> (if x = No_Value then timeout \<noteq> None else \<exists>r. bg_source s = Some r \<and> x = outcome_of r \<and> bg_cont s = Ended)
    | _ \<Rightarrow> True)"

definition bg_inv :: "nat option \<Rightarrow> ('v, 'e) bg \<Rightarrow> bool" where
  "bg_inv timeout s \<longleftrightarrow> cont_ok timeout s \<and> pc_ok timeout s \<and>
     (bg_flag s \<longrightarrow> bg_cont s = Ended \<and> (\<exists>r. bg_source s = Some r \<and> has_outcome r s)) \<and>
     (bg_cont s \<in> {Unattached, Stored} \<or> (\<exists>r. bg_cont s = Called r) \<longrightarrow> bg_error s = None \<and> bg_result s = None)"

lemmas bg_inv_defs = bg_inv_def cont_ok_def pc_ok_def

lemma bg_inv_init: "bg_inv timeout bg_init"
  by (simp add: bg_inv_defs bg_init_def)

lemma has_outcome_write [simp]: "bg_error s = None \<Longrightarrow> has_outcome r (write_outcome r s)"
  by (cases r) (simp_all add: has_outcome_def write_outcome_def)

lemma write_outcome_keeps [simp]:
  "bg_source (write_outcome r s) = bg_source s" "bg_pc (write_outcome r s) = bg_pc s" "bg_cont (write_outcome r s) = bg_cont s"
  "bg_flag (write_outcome r s) = bg_flag s" "bg_clock (write_outcome r s) = bg_clock s"
  by (cases r; simp add: write_outcome_def)+

lemma has_outcome_upd [simp]:
  "has_outcome r (s\<lparr>bg_pc := p\<rparr>) = has_outcome r s" "has_outcome r (s\<lparr>bg_cont := c\<rparr>) = has_outcome r s"
  "has_outcome r (s\<lparr>bg_flag := b\<rparr>) = has_outcome r s" "has_outcome r (s\<lparr>bg_clock := t\<rparr>) = has_outcome r s"
  "has_outcome r (s\<lparr>bg_source := x\<rparr>) = has_outcome r s"
  by (cases r; simp add: has_outcome_def)+

lemma bg_move_inv:
  assumes "bg_inv timeout s"
  shows "\<exists>s'. bg_move timeout s = Inr s' \<and> bg_inv timeout s'"
proof (cases "bg_pc s")
  case Attach
  then show ?thesis using assms by (cases "bg_source s") (auto simp: bg_inv_defs bg_move_def)
next
  case Test
  show ?thesis
  proof (cases "bg_flag s")
    case True
    then obtain r where "bg_source s = Some r" "has_outcome r s" "bg_cont s = Ended" using assms by (auto simp: bg_inv_def)
    then show ?thesis using assms Test True
      by (cases r) (auto simp: bg_inv_defs bg_move_def has_outcome_def outcome_of_def)
  next
    case False
    then show ?thesis using assms Test by (cases "bg_cont s") (auto simp: bg_inv_defs bg_move_def)
  qed
next
  case Late
  then show ?thesis using assms by (cases "bg_cont s") (auto simp: bg_inv_defs bg_move_def)
qed (use assms in \<open>auto simp: bg_move_def\<close>)

lemma bg_step_inv:
  assumes "bg_inv timeout s"
  shows "\<exists>s'. bg_step timeout broken x s = Inr s' \<and> bg_inv timeout s'"
proof (cases x)
  case Move
  then show ?thesis using bg_move_inv [OF assms] by simp
next
  case Write
  then show ?thesis using assms by (cases "bg_cont s") (auto simp: bg_inv_defs bg_write_def split: bg_pc.splits if_splits)
next
  case Notify
  then show ?thesis using assms by (cases "bg_cont s") (auto simp: bg_inv_defs bg_notify_def split: bg_pc.splits)
next
  case (Fulfil r)
  then show ?thesis using assms by (cases "bg_cont s"; cases "bg_pc s") (auto simp: bg_inv_defs bg_fulfil_def split: if_splits)
next
  case Break
  then show ?thesis using assms by (cases "bg_cont s"; cases "bg_pc s") (auto simp: bg_inv_defs bg_break_def split: if_splits)
qed (use assms in \<open>auto simp: bg_inv_defs split: bg_pc.splits bg_cont.splits option.splits\<close>)

interpretation bgm: safe_machine "bg_inv timeout" "\<lambda>_. True" "bg_step timeout broken" for timeout broken
  by unfold_locales (rule bg_step_inv)

lemma reachable_bg: "run_ops (bg_step timeout broken) ops bg_init = Inr s \<Longrightarrow> bg_inv timeout s"
  using bgm.run_safe [OF bg_inv_init, of ops timeout broken] by (auto simp: list_all_iff)

section \<open>What a blocking call returns\<close>

text \<open>
  A future that is ready from the start: its value is there for \<open>get_try\<close> and \<open>get_ready\<close>, or its exception is rethrown, and
  the end of the packaged task does not break its promise.
\<close>
theorem ready_futures:
  "get_try (make_ready_future broken v :: ('v, 'e, 'k) sb) = Inr (Some v) \<and>
   get_ready (make_ready_future broken v :: ('v, 'e, 'k) sb) = Inr (Some v) \<and>
   get_try (make_exceptional_future broken e :: ('v, 'e, 'k) sb) = Inl e \<and>
   settled (make_ready_future broken v :: ('v, 'e, 'k) sb) \<and> settled (make_exceptional_future broken e :: ('v, 'e, 'k) sb)"
  by (simp add: make_ready_future_def make_exceptional_future_def call_and_drop_def package_def sb_invoke_def sb_return_def sb_throw_def
      sb_proceed_def sb_hand_def drop_nth_def remove_promise_def get_try_def get_ready_def settled_def Let_def)

text \<open>
  A blocking call under every interleaving: the function attached to the future never touches a variable of the caller after
  its return, and when the call has returned without a timeout the future is ready and the call has returned its value or rethrown its
  exception.
\<close>
theorem blocking_get_sound:
  "\<exists>s. run_ops (bg_step timeout broken) ops bg_init = Inr s \<and>
     (\<forall>x. bg_pc s = Back x \<longrightarrow> x = No_Value \<and> timeout \<noteq> None \<or> (\<exists>r. bg_source s = Some r \<and> x = outcome_of r))"
proof -
  from bgm.run_safe [OF bg_inv_init, of ops timeout broken] obtain s where
    s: "run_ops (bg_step timeout broken) ops bg_init = Inr s" "bg_inv timeout s" by (auto simp: list_all_iff)
  have "x = No_Value \<and> timeout \<noteq> None \<or> (\<exists>r. bg_source s = Some r \<and> x = outcome_of r)" if "bg_pc s = Back x" for x
    using s(2) that by (auto simp: bg_inv_defs split: if_splits)
  then show ?thesis using s(1) by blast
qed

text \<open>The function still has to write the outcome, or has done so.\<close>

lemma ready_cases:
  assumes "bg_inv timeout s" and "bg_source s = Some r" and "bg_cont s \<noteq> Destroyed"
  obtains "bg_cont s = Unattached" "bg_pc s = Attach" "\<not> bg_flag s" "bg_error s = None"
    | "bg_cont s = Called r" "\<not> bg_flag s" "bg_error s = None"
    | "bg_cont s = Written" "has_outcome r s" "\<not> bg_flag s"
    | "bg_cont s = Ended" "bg_flag s" "has_outcome r s"
    | "bg_pc s = Back No_Value" "timeout \<noteq> None"
  using assms by (cases "bg_cont s") (auto simp: bg_inv_defs split: bg_pc.splits if_splits)

lemma return_outcome:
  assumes "bg_flag s" and "has_outcome r s" and "bg_pc s = Test"
  shows "bg_move timeout s = Inr (s\<lparr>bg_pc := Back (outcome_of r)\<rparr>)"
  using assms by (cases r) (simp_all add: bg_move_def has_outcome_def outcome_of_def)

text \<open>
  C22. A blocking call without a timeout returns: from every reachable state in which the future has become ready
  and the function of the call has not been destroyed, the moves of that function, if it is still to run, and two moves of the
  caller end the call with the outcome of the future. No wake-up is lost.
\<close>
theorem blocking_get_returns:
  assumes "run_ops (bg_step None broken) ops bg_init = Inr s" and "bg_source s = Some r" and "bg_cont s \<noteq> Destroyed"
  shows "\<exists>s'. run_ops (bg_step None broken) [Write, Notify, Move, Move] s = Inr s' \<and> bg_pc s' = Back (outcome_of r)"
proof -
  note inv = reachable_bg [OF assms(1)]
  have fin: "\<exists>s'. run_ops (bg_step None broken) [Move, Move] t = Inr s' \<and> bg_pc s' = Back (outcome_of r)"
    if t: "bg_flag t" "has_outcome r t" "bg_pc t = Test \<or> bg_pc t = Back (outcome_of r)" for t
    using t return_outcome [OF t(1,2)] by (cases "bg_pc t") (auto simp: bg_move_def)
  from inv assms(2,3) show ?thesis
  proof (cases rule: ready_cases)
    case 1
    let ?t = "(write_outcome r s)\<lparr>bg_flag := True, bg_cont := Ended, bg_pc := Test\<rparr>"
    have "bg_move None ?t = Inr (?t\<lparr>bg_pc := Back (outcome_of r)\<rparr>)" by (rule return_outcome) (simp_all add: 1)
    then show ?thesis using 1 assms(2) by (simp add: bg_write_def bg_notify_def bg_move_def [of None s])
  next
    case 2
    have p: "bg_pc s = Test \<or> (\<exists>t. bg_pc s = Asleep t)" using inv 2 by (auto simp: bg_inv_defs split: bg_pc.splits if_splits)
    let ?t = "(write_outcome r s)\<lparr>bg_cont := Ended, bg_flag := True, bg_pc := Test\<rparr>"
    have "bg_step None broken Write s = Inr ((write_outcome r s)\<lparr>bg_cont := Written\<rparr>)" using 2 p by (auto simp: bg_write_def)
    moreover have "bg_step None broken Notify ((write_outcome r s)\<lparr>bg_cont := Written\<rparr>) = Inr ?t" using p by (auto simp: bg_notify_def)
    moreover have "\<exists>s'. run_ops (bg_step None broken) [Move, Move] ?t = Inr s' \<and> bg_pc s' = Back (outcome_of r)"
      by (rule fin) (simp_all add: 2)
    ultimately show ?thesis by (simp del: bg_step.simps)
  next
    case 3
    have p: "bg_pc s = Test \<or> (\<exists>t. bg_pc s = Asleep t)" using inv 3 by (auto simp: bg_inv_defs split: bg_pc.splits if_splits)
    let ?t = "s\<lparr>bg_cont := Ended, bg_flag := True, bg_pc := Test\<rparr>"
    have "bg_step None broken Write s = Inr s" using 3 by (simp add: bg_write_def)
    moreover have "bg_step None broken Notify s = Inr ?t" using p 3 by (auto simp: bg_notify_def)
    moreover have "\<exists>s'. run_ops (bg_step None broken) [Move, Move] ?t = Inr s' \<and> bg_pc s' = Back (outcome_of r)"
      by (rule fin) (simp_all add: 3)
    ultimately show ?thesis by (simp del: bg_step.simps)
  next
    case 4
    have p: "bg_pc s = Test \<or> bg_pc s = Back (outcome_of r)" using inv 4 assms(2) by (auto simp: bg_inv_defs split: bg_pc.splits if_splits)
    from fin [OF 4(2,3) p] show ?thesis using 4 by (simp add: bg_write_def bg_notify_def)
  qed simp
qed

definition stuck :: "('v, 'e) bg \<Rightarrow> bool" where
  "stuck s \<longleftrightarrow> bg_cont s = Destroyed \<and> \<not> bg_flag s \<and> bg_source s \<noteq> None \<and> (bg_pc s = Test \<or> (\<exists>t. bg_pc s = Asleep t))"

lemma stuck_step: "stuck s \<Longrightarrow> bg_step None broken x s = Inr s' \<Longrightarrow> stuck s'"
  by (cases x) (auto simp: stuck_def bg_move_def bg_write_def bg_notify_def bg_fulfil_def bg_break_def split: bg_pc.splits)

lemma stuck_run: "stuck s \<Longrightarrow> run_ops (bg_step None broken) xs s = Inr s' \<Longrightarrow> stuck s'"
  by (induction xs arbitrary: s) (auto simp: bindR_def split: sum.splits dest: stuck_step)

text \<open>
  C26. A blocking call on a future whose promise is broken while the call waits does not return, under any
  continuation of the execution: \<open>recover\<close> is not told of broken promises.
\<close>
theorem blocking_get_broken:
  assumes "run_ops (bg_step None broken) ops bg_init = Inr s" and "bg_cont s = Stored"
    and "run_ops (bg_step None broken) (Break # ops') s = Inr s'"
  shows "bg_pc s' = Test \<or> (\<exists>t. bg_pc s' = Asleep t)"
proof -
  have "stuck (bg_break broken s)"
    using reachable_bg [OF assms(1)] assms(2) by (auto simp: stuck_def bg_inv_defs bg_break_def split: bg_pc.splits if_splits)
  from stuck_run [OF this, of broken ops' s'] show ?thesis using assms(3) by (simp add: stuck_def)
qed

text \<open>
  The timeout starts anew after every spurious wake-up: a call with a timeout can wait, without ever having
  waited for longer than one unit of time at once, until any time and then for the whole timeout again.
\<close>
theorem blocking_get_restarts:
  fixes broken :: 'e
  shows "\<exists>s :: ('v, 'e) bg. run_ops (bg_step (Some d) broken) ([Move, Move] @ concat (replicate n [Tick, Wake, Move])) bg_init = Inr s \<and>
     bg_clock s = n \<and> bg_pc s = Asleep n"
proof -
  have round: "\<exists>s'. run_ops (bg_step (Some d) broken) (concat (replicate n [Tick, Wake, Move])) s = Inr s' \<and>
      bg_clock s' = bg_clock s + n \<and> bg_pc s' = Asleep (bg_clock s + n)"
    if "bg_pc s = Asleep (bg_clock s)" "\<not> bg_flag s" for s :: "('v, 'e) bg"
    using that
  proof (induction n arbitrary: s)
    case (Suc n)
    let ?s = "s\<lparr>bg_clock := bg_clock s + 1, bg_pc := Asleep (bg_clock s + 1)\<rparr>"
    have "\<exists>s'. run_ops (bg_step (Some d) broken) (concat (replicate n [Tick, Wake, Move])) ?s = Inr s' \<and>
      bg_clock s' = bg_clock ?s + n \<and> bg_pc s' = Asleep (bg_clock ?s + n)" by (rule Suc.IH) (use Suc.prems in simp_all)
    then show ?case using Suc.prems by (simp add: bg_move_def)
  qed simp
  let ?s = "bg_init\<lparr>bg_cont := Stored, bg_pc := Asleep 0\<rparr> :: ('v, 'e) bg"
  have "run_ops (bg_step (Some d) broken) [Move, Move] bg_init = Inr ?s" by (simp add: bg_init_def bg_move_def)
  moreover have "\<exists>s'. run_ops (bg_step (Some d) broken) (concat (replicate n [Tick, Wake, Move])) ?s = Inr s' \<and> bg_clock s' = n \<and> bg_pc s' = Asleep n"
    using round [of ?s] by (simp add: bg_init_def)
  ultimately show ?thesis by (simp only: run_ops_append bindR_Inr)
qed

theorem blocking_get_returns_witness:
  "\<exists>s s'. run_ops (bg_step None ''broken'') [Move, Move, Fulfil (Inr (7::int))] bg_init = Inr s \<and>
     run_ops (bg_step None ''broken'') [Write, Notify, Move, Move] s = Inr s' \<and> bg_pc s' = Back (Got 7)"
proof -
  let ?s = "bg_init\<lparr>bg_pc := Asleep 0, bg_source := Some (Inr (7::int)), bg_cont := Called (Inr 7)\<rparr>"
  have "run_ops (bg_step None ''broken'') [Move, Move, Fulfil (Inr 7)] bg_init = Inr ?s"
    by (simp add: bg_init_def bg_move_def bg_fulfil_def)
  from this blocking_get_returns [OF this, of "Inr 7"] show ?thesis by (simp add: outcome_of_def del: run_ops.simps)
qed

theorem blocking_get_broken_witness:
  "\<exists>s'. run_ops (bg_step None ''broken'') [Move, Move, Break, Fulfil (Inr (7::int)), Wake, Move] bg_init = Inr s' \<and>
     (bg_pc s' = Test \<or> (\<exists>t. bg_pc s' = Asleep t))"
proof -
  let ?s = "bg_init\<lparr>bg_pc := Asleep 0, bg_cont := Stored\<rparr> :: (int, string) bg"
  have s: "run_ops (bg_step None ''broken'') [Move, Move] bg_init = Inr ?s" by (simp add: bg_init_def bg_move_def)
  from bgm.run_safe [OF reachable_bg [OF s], of "[Break, Fulfil (Inr 7), Wake, Move]" "''broken''"] obtain s' where
    s': "run_ops (bg_step None ''broken'') [Break, Fulfil (Inr 7), Wake, Move] ?s = Inr s'" by auto
  have "run_ops (bg_step None ''broken'') ([Move, Move] @ [Break, Fulfil (Inr 7), Wake, Move]) bg_init = Inr s'"
    by (simp only: run_ops_append s s' bindR_Inr)
  with blocking_get_broken [OF s _ s'] show ?thesis by simp
qed

end
