(* ===== verification/Blocking_Post.thy ===== *)
theory Blocking_Post
  imports Prelude
begin

text \<open>
  The blocking call \<open>executors::post\<close> (\<^verbatim>\<open>threading.h\<close>): a packaged task is posted to the executor with a given number, and the calling
  thread waits for its future. Executors are single threads with a queue, as \<open>asio_executor\<close> is; the function that is
  posted may itself call \<open>post\<close>. A step is a move of one thread. \<open>post_task\<close> is in theory \<open>Executors\<close>: it throws when there is
  no executor with the number.
\<close>

section \<open>State\<close>

text \<open>A function as its thread runs it: it ends with a value or an exception, or calls \<open>post\<close> and goes on with its outcome.\<close>

datatype ('v, 'e) body = Finish "'e + 'v" | Call_Post nat "('v, 'e) body" "'e + 'v \<Rightarrow> ('v, 'e) body"

text \<open>A thread is idle, runs a task, or waits in \<open>get\<close> for the future of another task.\<close>

datatype ('v, 'e) activity = Idle | Busy nat "('v, 'e) body" | Blocked nat nat "'e + 'v \<Rightarrow> ('v, 'e) body"

record ('v, 'e) executor_thread =
  th_queue :: "nat list"
  th_now :: "('v, 'e) activity"

text \<open>
  The first \<open>n\<close> threads are those of the executors, the others are threads of the program that call \<open>post\<close>. A packaged task is
  its function, the thread it runs on and the result its future shares.
\<close>

record ('v, 'e) ptask =
  pt_func :: "('v, 'e) body"
  pt_home :: nat
  pt_result :: "('e + 'v) option"

record ('v, 'e) posting =
  ps_threads :: "('v, 'e) executor_thread list"
  ps_tasks :: "('v, 'e) ptask list"

abbreviation thr :: "('v, 'e) posting \<Rightarrow> nat \<Rightarrow> ('v, 'e) executor_thread" where
  "thr s i \<equiv> ps_threads s ! i"

abbreviation ptask :: "('v, 'e) posting \<Rightarrow> nat \<Rightarrow> ('v, 'e) ptask" where
  "ptask s k \<equiv> ps_tasks s ! k"

definition set_thread :: "nat \<Rightarrow> ('v, 'e) executor_thread \<Rightarrow> ('v, 'e) posting \<Rightarrow> ('v, 'e) posting" where
  "set_thread i t s = s\<lparr>ps_threads := (ps_threads s)[i := t]\<rparr>"

definition set_now :: "nat \<Rightarrow> ('v, 'e) activity \<Rightarrow> ('v, 'e) posting \<Rightarrow> ('v, 'e) posting" where
  "set_now i a s = set_thread i ((thr s i)\<lparr>th_now := a\<rparr>) s"

text \<open>\<open>n\<close> executors, and a program with one thread for each of the given functions.\<close>

definition posting_init :: "nat \<Rightarrow> ('v, 'e) body list \<Rightarrow> ('v, 'e) posting" where
  "posting_init n bs =
     \<lparr>ps_threads = replicate n \<lparr>th_queue = [], th_now = Idle\<rparr> @ map (\<lambda>k. \<lparr>th_queue = [], th_now = Busy k (bs ! k)\<rparr>) [0..<length bs],
      ps_tasks = map (\<lambda>k. \<lparr>pt_func = bs ! k, pt_home = n + k, pt_result = None\<rparr>) [0..<length bs]\<rparr>"

section \<open>Steps\<close>

text \<open>
  \<open>post\<close>: the packaged task and its future are made, the task is posted, \<open>get\<close> waits. With no such executor
  \<open>post_task\<close> throws.
\<close>

definition post_blocking :: "nat \<Rightarrow> 'e \<Rightarrow> nat \<Rightarrow> nat \<Rightarrow> nat \<Rightarrow> ('v, 'e) body \<Rightarrow> ('e + 'v \<Rightarrow> ('v, 'e) body) \<Rightarrow> ('v, 'e) posting \<Rightarrow> ('v, 'e) posting" where
  "post_blocking n missing i k j b c s =
     (if j < n then
        let t = length (ps_tasks s);
            s = s\<lparr>ps_tasks := ps_tasks s @ [\<lparr>pt_func = b, pt_home = j, pt_result = None\<rparr>]\<rparr>;
            s = set_thread j ((thr s j)\<lparr>th_queue := th_queue (thr s j) @ [t]\<rparr>) s
        in set_now i (Blocked k t c) s
      else set_now i (Busy k (c (Inl missing))) s)"

definition take_task :: "nat \<Rightarrow> ('v, 'e) posting \<Rightarrow> ('v, 'e) posting" where
  "take_task i s = (case th_queue (thr s i) of
      [] \<Rightarrow> s
    | k # q \<Rightarrow> set_thread i \<lparr>th_queue = q, th_now = Busy k (pt_func (ptask s k))\<rparr> s)"

definition finish_task :: "nat \<Rightarrow> nat \<Rightarrow> 'e + 'v \<Rightarrow> ('v, 'e) posting \<Rightarrow> ('v, 'e) posting" where
  "finish_task i k r s = set_now i Idle (s\<lparr>ps_tasks := (ps_tasks s)[k := (ptask s k)\<lparr>pt_result := Some r\<rparr>]\<rparr>)"

definition thread_step :: "nat \<Rightarrow> 'e \<Rightarrow> nat \<Rightarrow> ('v, 'e) posting \<Rightarrow> ('v, 'e) posting" where
  "thread_step n missing i s =
     (if i < length (ps_threads s) then
        (case th_now (thr s i) of
           Idle \<Rightarrow> take_task i s
         | Busy k (Finish r) \<Rightarrow> finish_task i k r s
         | Busy k (Call_Post j b c) \<Rightarrow> post_blocking n missing i k j b c s
         | Blocked k t c \<Rightarrow> (case pt_result (ptask s t) of None \<Rightarrow> s | Some r \<Rightarrow> set_now i (Busy k (c r)) s))
      else s)"

section \<open>Specification\<close>

text \<open>What a function gives when \<open>post\<close> is an ordinary call.\<close>

primrec direct :: "nat \<Rightarrow> 'e \<Rightarrow> ('v, 'e) body \<Rightarrow> 'e + 'v" where
  "direct n missing (Finish r) = r"
| "direct n missing (Call_Post j b c) = (let r = (if j < n then direct n missing b else Inl missing) in direct n missing (c r))"

text \<open>Functions that post to smaller numbers only, and what they post too.\<close>

primrec descending :: "('v, 'e) body \<Rightarrow> nat \<Rightarrow> bool" where
  "descending (Finish r) i = True"
| "descending (Call_Post j b c) i = (j < i \<and> descending b j \<and> (\<forall>r. descending (c r) i))"

section \<open>Invariant\<close>

fun running :: "('v, 'e) activity \<Rightarrow> nat option" where
  "running Idle = None"
| "running (Busy k b) = Some k"
| "running (Blocked k t c) = Some k"

text \<open>A thread runs a task of its own, on the way to what a direct call would give; it waits for a task that exists.\<close>

definition now_ok :: "nat \<Rightarrow> 'e \<Rightarrow> ('v, 'e) ptask list \<Rightarrow> nat \<Rightarrow> ('v, 'e) activity \<Rightarrow> bool" where
  "now_ok n missing T i a \<longleftrightarrow> (case a of
      Idle \<Rightarrow> True
    | Busy k b \<Rightarrow> k < length T \<and> pt_home (T ! k) = i \<and> direct n missing b = direct n missing (pt_func (T ! k))
    | Blocked k t c \<Rightarrow> k < length T \<and> pt_home (T ! k) = i \<and> t < length T \<and> pt_home (T ! t) < n \<and>
        direct n missing (c (direct n missing (pt_func (T ! t)))) = direct n missing (pt_func (T ! k)))"

definition waits_in :: "('v, 'e) executor_thread \<Rightarrow> nat \<Rightarrow> bool" where
  "waits_in t k \<longleftrightarrow> k \<in> set (th_queue t) \<or> running (th_now t) = Some k"

definition task_ok :: "nat \<Rightarrow> 'e \<Rightarrow> ('v, 'e) posting \<Rightarrow> nat \<Rightarrow> bool" where
  "task_ok n missing s k \<longleftrightarrow> pt_home (ptask s k) < length (ps_threads s) \<and>
     (case pt_result (ptask s k) of
        None \<Rightarrow> waits_in (thr s (pt_home (ptask s k))) k
      | Some r \<Rightarrow> r = direct n missing (pt_func (ptask s k)))"

definition thread_ok :: "nat \<Rightarrow> 'e \<Rightarrow> ('v, 'e) ptask list \<Rightarrow> nat \<Rightarrow> ('v, 'e) executor_thread \<Rightarrow> bool" where
  "thread_ok n missing T i t \<longleftrightarrow> now_ok n missing T i (th_now t) \<and> (\<forall>k \<in> set (th_queue t). k < length T \<and> pt_home (T ! k) = i)"

definition posting_inv :: "nat \<Rightarrow> 'e \<Rightarrow> ('v, 'e) posting \<Rightarrow> bool" where
  "posting_inv n missing s \<longleftrightarrow> n \<le> length (ps_threads s) \<and>
     (\<forall>i < length (ps_threads s). thread_ok n missing (ps_tasks s) i (thr s i)) \<and> (\<forall>k < length (ps_tasks s). task_ok n missing s k)"

lemma now_ok_Idle [simp]: "now_ok n missing T i Idle"
  by (simp add: now_ok_def)

lemma posting_inv_init: "posting_inv n missing (posting_init n bs)"
  by (auto simp: posting_inv_def posting_init_def thread_ok_def now_ok_def task_ok_def waits_in_def nth_append)

text \<open>One thread changes what it runs or has queued.\<close>

lemma inv_thread:
  assumes inv: "posting_inv n missing s" and i: "i < length (ps_threads s)" and t: "thread_ok n missing (ps_tasks s) i t"
    and w: "\<And>k. k < length (ps_tasks s) \<Longrightarrow> pt_home (ptask s k) = i \<Longrightarrow> pt_result (ptask s k) = None \<Longrightarrow> waits_in (thr s i) k \<Longrightarrow> waits_in t k"
  shows "posting_inv n missing (set_thread i t s)"
proof -
  have "task_ok n missing (set_thread i t s) k" if k: "k < length (ps_tasks s)" for k
  proof -
    have "task_ok n missing s k" using inv k by (simp add: posting_inv_def)
    then show ?thesis using w [OF k] i
      by (cases "pt_home (ptask s k) = i") (auto simp: task_ok_def set_thread_def split: option.splits)
  qed
  then show ?thesis using inv i t by (auto simp: posting_inv_def set_thread_def nth_list_update)
qed

lemma inv_now:
  assumes "posting_inv n missing s" and "i < length (ps_threads s)" and "now_ok n missing (ps_tasks s) i a"
    and "running a = running (th_now (thr s i))"
  shows "posting_inv n missing (set_now i a s)"
  unfolding set_now_def
  by (rule inv_thread [OF assms(1,2)]) (use assms in \<open>auto simp: posting_inv_def thread_ok_def waits_in_def\<close>)

text \<open>A packaged task is made and queued.\<close>

lemma now_ok_append: "now_ok n missing T i a \<Longrightarrow> now_ok n missing (T @ U) i a"
  by (cases a) (auto simp: now_ok_def nth_append)

lemma inv_queued:
  assumes inv: "posting_inv n missing s" and j: "j < n"
  shows "posting_inv n missing (set_thread j ((thr s j)\<lparr>th_queue := th_queue (thr s j) @ [length (ps_tasks s)]\<rparr>)
    (s\<lparr>ps_tasks := ps_tasks s @ [\<lparr>pt_func = b, pt_home = j, pt_result = None\<rparr>]\<rparr>))" (is "posting_inv n missing ?s")
proof -
  have len: "j < length (ps_threads s)" using inv j by (simp add: posting_inv_def)
  have "thread_ok n missing (ps_tasks ?s) i (thr ?s i)" if "i < length (ps_threads s)" for i
  proof -
    have "thread_ok n missing (ps_tasks s) i (thr s i)" using inv that by (simp add: posting_inv_def)
    then show ?thesis using len that
      by (cases "i = j") (auto simp: thread_ok_def set_thread_def nth_append intro: now_ok_append)
  qed
  moreover have "task_ok n missing ?s k" if "k < length (ps_tasks ?s)" for k
  proof (cases "k < length (ps_tasks s)")
    case True
    then have "task_ok n missing s k" using inv by (simp add: posting_inv_def)
    then show ?thesis using True len
      by (cases "pt_home (ptask s k) = j") (auto simp: task_ok_def set_thread_def nth_append waits_in_def split: option.splits)
  next
    case False
    then have "k = length (ps_tasks s)" using that by (simp add: set_thread_def)
    then show ?thesis using len by (simp add: task_ok_def set_thread_def waits_in_def)
  qed
  ultimately show ?thesis using inv by (simp add: posting_inv_def set_thread_def)
qed

lemma inv_finished:
  assumes inv: "posting_inv n missing s" and i: "i < length (ps_threads s)" and a: "th_now (thr s i) = Busy k (Finish r)"
  shows "posting_inv n missing (finish_task i k r s)" (is "posting_inv n missing ?s")
proof -
  have k: "k < length (ps_tasks s)" "pt_home (ptask s k) = i" "r = direct n missing (pt_func (ptask s k))"
    using inv i a by (auto simp: posting_inv_def thread_ok_def now_ok_def)
  have T: "pt_func (ptask ?s l) = pt_func (ptask s l)" "pt_home (ptask ?s l) = pt_home (ptask s l)" for l
    using k(1) by (cases "l = k"; simp add: finish_task_def set_now_def set_thread_def)+
  have len: "length (ps_tasks ?s) = length (ps_tasks s)" "length (ps_threads ?s) = length (ps_threads s)"
    by (simp_all add: finish_task_def set_now_def set_thread_def)
  have th: "thr ?s j = (if j = i then (thr s i)\<lparr>th_now := Idle\<rparr> else thr s j)" if "j < length (ps_threads s)" for j
    using that by (simp add: finish_task_def set_now_def set_thread_def)
  have keep: "now_ok n missing (ps_tasks ?s) j x = now_ok n missing (ps_tasks s) j x" for j x
    by (cases x) (simp_all add: now_ok_def len T)
  have "thread_ok n missing (ps_tasks ?s) j (thr ?s j)" if "j < length (ps_threads s)" for j
    using inv that by (cases "j = i") (simp_all add: posting_inv_def thread_ok_def keep th len T)
  moreover have "task_ok n missing ?s l" if l: "l < length (ps_tasks s)" for l
  proof (cases "l = k")
    case True
    then show ?thesis using k i by (simp add: task_ok_def finish_task_def set_now_def set_thread_def)
  next
    case False
    have r: "pt_result (ptask ?s l) = pt_result (ptask s l)" using False by (simp add: finish_task_def set_now_def set_thread_def)
    have h: "task_ok n missing s l" using inv l by (simp add: posting_inv_def)
    then have "waits_in (thr ?s (pt_home (ptask s l))) l" if "waits_in (thr s (pt_home (ptask s l))) l"
      using that th [of "pt_home (ptask s l)"] a False by (auto simp: task_ok_def waits_in_def)
    then show ?thesis using h by (simp add: task_ok_def T r len split: option.splits)
  qed
  ultimately show ?thesis using inv by (simp add: posting_inv_def len)
qed

lemma thread_step_inv:
  assumes inv: "posting_inv n missing s"
  shows "posting_inv n missing (thread_step n missing i s)"
proof (cases "i < length (ps_threads s)")
  case i: True
  have ok: "thread_ok n missing (ps_tasks s) i (thr s i)" using inv i by (simp add: posting_inv_def)
  show ?thesis
  proof (cases "th_now (thr s i)")
    case Idle
    show ?thesis
    proof (cases "th_queue (thr s i)")
      case (Cons k q)
      have "posting_inv n missing (set_thread i \<lparr>th_queue = q, th_now = Busy k (pt_func (ptask s k))\<rparr> s)"
        by (rule inv_thread [OF inv i]) (use ok Idle Cons in \<open>auto simp: thread_ok_def now_ok_def waits_in_def\<close>)
      then show ?thesis using i Idle Cons by (simp add: thread_step_def take_task_def)
    qed (use i Idle inv in \<open>simp add: thread_step_def take_task_def\<close>)
  next
    case (Blocked k t c)
    have t: "task_ok n missing s t" using inv ok Blocked by (auto simp: posting_inv_def thread_ok_def now_ok_def)
    show ?thesis
    proof (cases "pt_result (ptask s t)")
      case (Some r)
      have "posting_inv n missing (set_now i (Busy k (c r)) s)"
        by (rule inv_now [OF inv i]) (use ok t Blocked Some in \<open>auto simp: thread_ok_def now_ok_def task_ok_def\<close>)
      then show ?thesis using i Blocked Some by (simp add: thread_step_def)
    qed (use i Blocked inv in \<open>simp add: thread_step_def\<close>)
  next
    case (Busy k b)
    show ?thesis
    proof (cases b)
      case (Finish r)
      then show ?thesis using inv_finished [OF inv i] i Busy by (simp add: thread_step_def)
    next
      case (Call_Post j b' c)
      show ?thesis
      proof (cases "j < n")
        case True
        let ?s = "set_thread j ((thr s j)\<lparr>th_queue := th_queue (thr s j) @ [length (ps_tasks s)]\<rparr>)
          (s\<lparr>ps_tasks := ps_tasks s @ [\<lparr>pt_func = b', pt_home = j, pt_result = None\<rparr>]\<rparr>)"
        have now: "th_now (thr ?s i) = th_now (thr s i)" using i by (cases "i = j") (simp_all add: set_thread_def)
        have "posting_inv n missing (set_now i (Blocked k (length (ps_tasks s)) c) ?s)"
          by (rule inv_now [OF inv_queued [OF inv True]])
            (use ok i Busy Call_Post True now in \<open>auto simp: thread_ok_def now_ok_def set_thread_def nth_append nth_list_update\<close>)
        then show ?thesis using i Busy Call_Post True by (simp add: thread_step_def post_blocking_def Let_def)
      next
        case False
        have "posting_inv n missing (set_now i (Busy k (c (Inl missing))) s)"
          by (rule inv_now [OF inv i]) (use ok Busy Call_Post False in \<open>auto simp: thread_ok_def now_ok_def\<close>)
        then show ?thesis using i Busy Call_Post False by (simp add: thread_step_def post_blocking_def)
      qed
    qed
  qed
qed (use inv in \<open>simp add: thread_step_def\<close>)

lemma posting_run_inv: "posting_inv n missing s \<Longrightarrow> posting_inv n missing (fold (thread_step n missing) is s)"
  by (induction "is" arbitrary: s) (simp_all add: thread_step_inv)

text \<open>
  C35. The blocking call is a call: whatever the interleaving of the executors and the threads of the program, a task
  that has been completed has the value or exception that its function would give if \<open>post\<close> called the
  function it is given directly; and so what \<open>post\<close> returns or rethrows is what that function gave.
\<close>
theorem post_result:
  assumes "s = fold (thread_step n missing) is (posting_init n bs)" and "k < length (ps_tasks s)" and "pt_result (ptask s k) = Some r"
  shows "r = direct n missing (pt_func (ptask s k))"
  using posting_run_inv [OF posting_inv_init, of n missing "is" bs] assms by (auto simp: posting_inv_def task_ok_def)

section \<open>Deadlock\<close>

text \<open>What the functions that are running or queued may still post.\<close>

definition now_descends :: "('v, 'e) ptask list \<Rightarrow> nat \<Rightarrow> ('v, 'e) activity \<Rightarrow> bool" where
  "now_descends T i a \<longleftrightarrow> (case a of
      Idle \<Rightarrow> True
    | Busy k b \<Rightarrow> descending b i
    | Blocked k t c \<Rightarrow> t < length T \<and> pt_home (T ! t) < i \<and> (\<forall>r. descending (c r) i))"

definition descends_inv :: "('v, 'e) posting \<Rightarrow> bool" where
  "descends_inv s \<longleftrightarrow> (\<forall>i < length (ps_threads s). now_descends (ps_tasks s) i (th_now (thr s i)) \<and>
       (\<forall>k \<in> set (th_queue (thr s i)). k < length (ps_tasks s) \<and> pt_home (ptask s k) = i)) \<and>
     (\<forall>k < length (ps_tasks s). descending (pt_func (ptask s k)) (pt_home (ptask s k)))"

lemma now_descends_append: "now_descends T i a \<Longrightarrow> now_descends (T @ U) i a"
  by (cases a) (auto simp: now_descends_def nth_append)

lemma now_descends_result: "now_descends (T[k := (T ! k)\<lparr>pt_result := r\<rparr>]) i a = now_descends T i a"
  by (cases a; cases "k < length T") (auto simp: now_descends_def nth_list_update)

lemma descends_now:
  assumes "descends_inv s" and "i < length (ps_threads s)" and "now_descends (ps_tasks s) i a"
  shows "descends_inv (set_now i a s)"
  using assms by (auto simp: descends_inv_def set_now_def set_thread_def nth_list_update)

lemma descends_queued:
  assumes "descends_inv s" and "j < length (ps_threads s)" and "descending b j"
  shows "descends_inv (set_thread j ((thr s j)\<lparr>th_queue := th_queue (thr s j) @ [length (ps_tasks s)]\<rparr>)
    (s\<lparr>ps_tasks := ps_tasks s @ [\<lparr>pt_func = b, pt_home = j, pt_result = None\<rparr>]\<rparr>))"
  using assms unfolding descends_inv_def set_thread_def
  by (auto simp: nth_append nth_list_update less_Suc_eq intro: now_descends_append split: if_splits)

lemma descends_finished:
  assumes "descends_inv s" and "i < length (ps_threads s)"
  shows "descends_inv (finish_task i k r s)"
proof -
  let ?T = "(ps_tasks s)[k := (ptask s k)\<lparr>pt_result := Some r\<rparr>]"
  have T: "pt_func (?T ! l) = pt_func (ptask s l)" "pt_home (?T ! l) = pt_home (ptask s l)" for l
    by (cases "l = k"; cases "k < length (ps_tasks s)"; simp add: list_update_beyond)+
  have "descends_inv (s\<lparr>ps_tasks := ?T\<rparr>)" using assms(1) by (simp add: descends_inv_def T now_descends_result)
  then show ?thesis unfolding finish_task_def by (rule descends_now) (use assms(2) in \<open>simp_all add: now_descends_def\<close>)
qed

lemma descends_step:
  assumes d: "descends_inv s" and n: "n \<le> length (ps_threads s)"
  shows "descends_inv (thread_step n missing i s)"
proof (cases "i < length (ps_threads s)")
  case i: True
  have ok: "now_descends (ps_tasks s) i (th_now (thr s i))" using d i by (simp add: descends_inv_def)
  show ?thesis
  proof (cases "th_now (thr s i)")
    case Idle
    show ?thesis
    proof (cases "th_queue (thr s i)")
      case (Cons k q)
      have k: "k < length (ps_tasks s)" "pt_home (ptask s k) = i" using d i Cons by (auto simp: descends_inv_def)
      then have "descending (pt_func (ptask s k)) i" using d unfolding descends_inv_def by blast
      then have "descends_inv (set_thread i \<lparr>th_queue = q, th_now = Busy k (pt_func (ptask s k))\<rparr> s)"
        using d i Cons by (auto simp: descends_inv_def set_thread_def nth_list_update now_descends_def [of _ i "Busy _ _"])
      then show ?thesis using i Idle Cons by (simp add: thread_step_def take_task_def)
    qed (use i Idle d in \<open>simp add: thread_step_def take_task_def\<close>)
  next
    case (Blocked k t c)
    have "descends_inv (set_now i (Busy k (c r)) s)" for r by (rule descends_now [OF d i]) (use ok Blocked in \<open>simp add: now_descends_def\<close>)
    then show ?thesis using i d Blocked by (simp add: thread_step_def split: option.splits)
  next
    case (Busy k b)
    show ?thesis
    proof (cases b)
      case (Finish r)
      then show ?thesis using descends_finished [OF d i] i Busy by (simp add: thread_step_def)
    next
      case (Call_Post j b' c)
      have p: "j < i" "descending b' j" "\<And>r. descending (c r) i" using ok Busy Call_Post by (simp_all add: now_descends_def)
      show ?thesis
      proof (cases "j < n")
        case True
        let ?s = "set_thread j ((thr s j)\<lparr>th_queue := th_queue (thr s j) @ [length (ps_tasks s)]\<rparr>)
          (s\<lparr>ps_tasks := ps_tasks s @ [\<lparr>pt_func = b', pt_home = j, pt_result = None\<rparr>]\<rparr>)"
        have "descends_inv (set_now i (Blocked k (length (ps_tasks s)) c) ?s)"
          by (rule descends_now [OF descends_queued [OF d _ p(2)]])
            (use True n i p in \<open>auto simp: set_thread_def now_descends_def\<close>)
        then show ?thesis using i Busy Call_Post True by (simp add: thread_step_def post_blocking_def Let_def)
      next
        case False
        have "descends_inv (set_now i (Busy k (c (Inl missing))) s)" by (rule descends_now [OF d i]) (use p in \<open>simp add: now_descends_def\<close>)
        then show ?thesis using i Busy Call_Post False by (simp add: thread_step_def post_blocking_def)
      qed
    qed
  qed
qed (use d in \<open>simp add: thread_step_def\<close>)

text \<open>Whether the next step of a thread does something.\<close>

definition can_move :: "('v, 'e) posting \<Rightarrow> nat \<Rightarrow> bool" where
  "can_move s i \<longleftrightarrow> (case th_now (thr s i) of
      Idle \<Rightarrow> th_queue (thr s i) \<noteq> []
    | Busy k b \<Rightarrow> True
    | Blocked k t c \<Rightarrow> pt_result (ptask s t) \<noteq> None)"

lemma posting_progress:
  assumes inv: "posting_inv n missing s" and d: "descends_inv s" and i: "i < length (ps_threads s)" "th_now (thr s i) \<noteq> Idle \<or> th_queue (thr s i) \<noteq> []"
  shows "\<exists>j \<le> i. can_move s j"
  using i
proof (induction i rule: less_induct)
  case (less i)
  show ?case
  proof (cases "can_move s i")
    case False
    then obtain k t c where b: "th_now (thr s i) = Blocked k t c" "pt_result (ptask s t) = None"
      using less.prems(2) by (auto simp: can_move_def split: activity.splits)
    let ?j = "pt_home (ptask s t)"
    have t: "t < length (ps_tasks s)" "?j < i" using d less.prems(1) b(1) by (auto simp: descends_inv_def now_descends_def dest: spec [of _ i])
    then have "waits_in (thr s ?j) t" using inv b(2) by (auto simp: posting_inv_def task_ok_def)
    then have "th_now (thr s ?j) \<noteq> Idle \<or> th_queue (thr s ?j) \<noteq> []" by (auto simp: waits_in_def)
    from less.IH [OF t(2) _ this] t(2) less.prems(1) show ?thesis by (meson le_trans less_imp_le less_trans)
  qed blast
qed

lemma descends_init:
  assumes "\<And>k. k < length bs \<Longrightarrow> descending (bs ! k) (n + k)"
  shows "descends_inv (posting_init n bs)"
proof -
  have "descending (bs ! (i - n)) i" if "\<not> i < n" "i < n + length bs" for i using assms [of "i - n"] that by simp
  then show ?thesis using assms by (auto simp: descends_inv_def posting_init_def nth_append now_descends_def)
qed

lemma run_threads: "length (ps_threads (fold (thread_step n missing) is s)) = length (ps_threads s)"
proof (induction "is" arbitrary: s)
  case (Cons i "is")
  have "length (ps_threads (thread_step n missing i s)) = length (ps_threads s)"
    by (auto simp: thread_step_def take_task_def finish_task_def post_blocking_def set_now_def set_thread_def Let_def split: activity.splits body.splits list.splits option.splits)
  then show ?case using Cons by simp
qed simp

lemma descends_run: "descends_inv s \<Longrightarrow> n \<le> length (ps_threads s) \<Longrightarrow> descends_inv (fold (thread_step n missing) is s)"
proof (induction "is" arbitrary: s)
  case (Cons i "is")
  then show ?case using run_threads [of n missing "[i]" s] by (simp add: descends_step)
qed simp

text \<open>
  C28. No deadlock: when the functions post only to executors with smaller numbers than that of the thread they run
  on, then as long as some task is not completed some thread can move.
\<close>
theorem post_no_deadlock:
  assumes "\<And>k. k < length bs \<Longrightarrow> descending (bs ! k) (n + k)" and "s = fold (thread_step n missing) is (posting_init n bs)"
    and "k < length (ps_tasks s)" and "pt_result (ptask s k) = None"
  shows "\<exists>i < length (ps_threads s). can_move s i"
proof -
  have inv: "posting_inv n missing s" using posting_run_inv [OF posting_inv_init, of n missing "is" bs] assms(2) by simp
  have "n \<le> length (ps_threads (posting_init n bs))" by (simp add: posting_init_def)
  then have d: "descends_inv s" using descends_run [OF descends_init [OF assms(1)]] assms(2) by blast
  let ?i = "pt_home (ptask s k)"
  have k: "?i < length (ps_threads s)" "waits_in (thr s ?i) k" using inv assms(3,4) by (auto simp: posting_inv_def task_ok_def)
  then have "th_now (thr s ?i) \<noteq> Idle \<or> th_queue (thr s ?i) \<noteq> []" by (auto simp: waits_in_def)
  from posting_progress [OF inv d k(1) this] k(1) show ?thesis by (meson le_less_trans)
qed

text \<open>A thread that waits for a task of its own queue.\<close>

definition waits_for_itself :: "('v, 'e) posting \<Rightarrow> nat \<Rightarrow> ('v, 'e) activity \<Rightarrow> nat \<Rightarrow> bool" where
  "waits_for_itself s i a t \<longleftrightarrow> i < length (ps_threads s) \<and> th_now (thr s i) = a \<and> t < length (ps_tasks s) \<and> pt_home (ptask s t) = i \<and>
     pt_result (ptask s t) = None"

lemma now_requeued: "th_now (ts[j := (ts ! j)\<lparr>th_queue := q\<rparr>] ! i) = th_now (ts ! i)"
  by (cases "j < length ts") (auto simp: nth_list_update list_update_beyond)

lemma waits_step:
  assumes inv: "posting_inv n missing s" and w: "waits_for_itself s i (Blocked k t c) t"
  shows "waits_for_itself (thread_step n missing j s) i (Blocked k t c) t"
proof (cases "j < length (ps_threads s) \<and> j \<noteq> i")
  case True
  have other: "k' \<noteq> t" if "th_now (thr s j) = Busy k' b" for k' b
    using inv w True that by (auto simp: posting_inv_def thread_ok_def now_ok_def waits_for_itself_def)
  show ?thesis using w True other
    by (auto simp: waits_for_itself_def thread_step_def take_task_def finish_task_def post_blocking_def set_now_def set_thread_def Let_def nth_append now_requeued
        split: activity.splits body.splits list.splits option.splits)
qed (use w in \<open>auto simp: waits_for_itself_def thread_step_def\<close>)

lemma waits_run:
  "posting_inv n missing s \<Longrightarrow> waits_for_itself s i (Blocked k t c) t \<Longrightarrow> waits_for_itself (fold (thread_step n missing) js s) i (Blocked k t c) t"
proof (induction js arbitrary: s)
  case (Cons j js)
  then show ?case using thread_step_inv waits_step by fastforce
qed simp

text \<open>
  A function that runs on an executor and posts to that executor waits for ever: its thread is the one
  that would have to run the task it waits for, and no move of any thread changes that.
\<close>
theorem post_to_itself_hangs:
  assumes "s = fold (thread_step n missing) is (posting_init n bs)" and "i < n" and "th_now (thr s i) = Busy k (Call_Post i b c)"
    and "s' = fold (thread_step n missing) js (thread_step n missing i s)"
  shows "th_now (thr s' i) = Blocked k (length (ps_tasks s)) c \<and> pt_result (ptask s' (length (ps_tasks s))) = None"
proof -
  have inv: "posting_inv n missing s" using posting_run_inv [OF posting_inv_init, of n missing "is" bs] assms(1) by simp
  have i: "i < length (ps_threads s)" using inv assms(2) by (simp add: posting_inv_def)
  have "waits_for_itself (thread_step n missing i s) i (Blocked k (length (ps_tasks s)) c) (length (ps_tasks s))"
    using i assms(2,3) by (simp add: waits_for_itself_def thread_step_def post_blocking_def set_now_def set_thread_def Let_def)
  from waits_run [OF thread_step_inv [OF inv] this] show ?thesis using assms(4) by (simp add: waits_for_itself_def)
qed

section \<open>Examples\<close>

text \<open>A thread of the program posts to executor 1 a function that posts to executor 0, or to executor 1 itself.\<close>

definition ask_through :: "nat \<Rightarrow> (int, string) body" where
  "ask_through j = Call_Post 1 (Call_Post j (Finish (Inr 20)) (\<lambda>r. Finish (case r of Inl e \<Rightarrow> Inl e | Inr v \<Rightarrow> Inr (v + 1))))
     (\<lambda>r. Finish (case r of Inl e \<Rightarrow> Inl e | Inr v \<Rightarrow> Inr (v * 2)))"

theorem post_result_witness:
  "pt_result (ptask (fold (thread_step 2 ''missing'') [2, 1, 1, 0, 0, 1, 1, 2, 2] (posting_init 2 [ask_through 0])) 0) = Some (Inr 42)"
proof -
  let ?s = "fold (thread_step 2 ''missing'') [2, 1, 1, 0, 0, 1, 1, 2, 2] (posting_init 2 [ask_through 0])"
  have "0 < length (ps_tasks ?s)" "pt_result (ptask ?s 0) \<noteq> None" by code_simp+
  then obtain r where r: "pt_result (ptask ?s 0) = Some r" "0 < length (ps_tasks ?s)" by blast
  have "direct 2 ''missing'' (pt_func (ptask ?s 0)) = Inr 42" by code_simp
  then show ?thesis using post_result [OF refl r(2,1)] r(1) by simp
qed

theorem post_no_deadlock_witness:
  "\<exists>i < 3. can_move (fold (thread_step 2 ''missing'') [2, 1, 1] (posting_init 2 [ask_through 0])) i"
proof -
  let ?s = "fold (thread_step 2 ''missing'') [2, 1, 1] (posting_init 2 [ask_through 0])"
  have d: "descending ([ask_through 0] ! k) (2 + k)" if "k < length [ask_through 0]" for k
    using that by (simp add: ask_through_def)
  have t: "2 < length (ps_tasks ?s)" "pt_result (ptask ?s 2) = None" "length (ps_threads ?s) = 3" by code_simp+
  have "\<exists>i < length (ps_threads ?s). can_move ?s i" by (rule post_no_deadlock [OF d refl t(1,2)])
  then show ?thesis unfolding t(3) .
qed

theorem post_to_itself_hangs_witness:
  "let s' = fold (thread_step 2 ''missing'') [2, 1, 1, 0, 1, 2, 0, 1, 2] (posting_init 2 [ask_through 1])
   in pt_result (ptask s' 2) = None"
proof -
  let ?s = "fold (thread_step 2 ''missing'') [2, 1] (posting_init 2 [ask_through 1])"
  have "case th_now (thr ?s 1) of Busy k (Call_Post j b c) \<Rightarrow> j = 1 | _ \<Rightarrow> False" by code_simp
  then obtain k b c where n: "th_now (thr ?s 1) = Busy k (Call_Post 1 b c)" by (auto split: activity.splits body.splits)
  have "length (ps_tasks ?s) = 2" by code_simp
  with post_to_itself_hangs [OF refl _ n refl, of "[0, 1, 2, 0, 1, 2]"] show ?thesis by (simp add: Let_def)
qed

end
