(* ===== verification/Future_Reduce.thy ===== *)
theory Future_Reduce
  imports Prelude
begin

text \<open>
  Reduction of nested futures (\<^verbatim>\<open>deps/clean_stlab/stlab/concurrency/future.hpp\<close>): a task that returns a future has a shared state of type
  \<open>future<future<R>>\<close>, the outer state. When the task has returned the inner future, \<open>value_::set\<close> does not make the outer state ready but
  attaches to the inner future a \<open>recover\<close> and to that a \<open>then\<close>, which call \<open>proceed\<close> on the outer state. The program gets neither:
  \<open>reduce\<close> gives it a future made by \<open>then\<close> on the outer state, of type \<open>future<R>\<close>, the reduced future. A step is the call of a task or
  continuation, or what happens to the inner future and to the promise of the outer state.
\<close>

section \<open>State\<close>

text \<open>
  A continuation is not made yet, stored with the future it continues, with an executor, or has a result.
\<close>

datatype 'x stage = Absent | Waiting | Queued | Done 'x

record ('v, 'e) rd =
  rd_f :: bool
  rd_set :: bool
  rd_exception :: "'e option"
  rd_ready :: bool
  rd_proceeds :: nat
  rd_inner :: "('e + 'v) option"
  rd_recover :: "('e + 'v) stage"
  rd_then :: "('e + unit) stage"
  rd_reduced :: "('e + 'v) stage"

text \<open>The task is packaged, and \<open>reduce\<close> has attached the reduced future.\<close>

definition rd_init :: "('v, 'e) rd" where
  "rd_init = \<lparr>rd_f = True, rd_set = False, rd_exception = None, rd_ready = False, rd_proceeds = 0, rd_inner = None,
     rd_recover = Absent, rd_then = Absent, rd_reduced = Waiting\<rparr>"

definition handed :: "'x stage \<Rightarrow> 'x stage" where
  "handed x = (case x of Waiting \<Rightarrow> Queued | _ \<Rightarrow> x)"

section \<open>Steps\<close>

text \<open>\<open>proceed\<close>, and \<open>set_exception\<close> after its write: the outer state is ready and hands its continuations over.\<close>

definition rd_proceed :: "('v, 'e) rd \<Rightarrow> ('v, 'e) rd" where
  "rd_proceed s = s\<lparr>rd_ready := True, rd_proceeds := rd_proceeds s + 1, rd_reduced := handed (rd_reduced s)\<rparr>"

text \<open>The task of the outer state is called: it throws, or returns the inner future (\<open>value_::set\<close> for \<open>future<R>\<close>).\<close>

definition rd_call :: "'e option \<Rightarrow> ('v, 'e) rd \<Rightarrow> ('v, 'e) rd" where
  "rd_call thrown s =
     (if rd_f s then
        (case thrown of
           Some e \<Rightarrow> rd_proceed (s\<lparr>rd_f := False, rd_exception := Some e\<rparr>)
         | None \<Rightarrow> s\<lparr>rd_f := False, rd_set := True, rd_recover := (if rd_inner s = None then Waiting else Queued), rd_then := Waiting\<rparr>)
      else s)"

text \<open>The last promise of the outer state goes: for a state whose type is reduced, \<open>remove_promise\<close> only counts.\<close>

definition rd_outer_broken :: "('v, 'e) rd \<Rightarrow> ('v, 'e) rd" where
  "rd_outer_broken s = s\<lparr>rd_f := False\<rparr>"

text \<open>The inner future becomes ready, or its promise is broken, which destroys its continuation and that of its continuation.\<close>

definition rd_inner_ready :: "'e + 'v \<Rightarrow> ('v, 'e) rd \<Rightarrow> ('v, 'e) rd" where
  "rd_inner_ready r s = (if rd_inner s = None then s\<lparr>rd_inner := Some r, rd_recover := handed (rd_recover s)\<rparr> else s)"

definition rd_inner_broken :: "'e \<Rightarrow> ('v, 'e) rd \<Rightarrow> ('v, 'e) rd" where
  "rd_inner_broken broken s =
     (if rd_inner s = None then
        (if rd_recover s = Waiting then s\<lparr>rd_inner := Some (Inl broken), rd_recover := Done (Inl broken), rd_then := Done (Inl broken)\<rparr>
         else s\<lparr>rd_inner := Some (Inl broken)\<rparr>)
      else s)"

text \<open>The function given to \<open>recover\<close>: an exception of the inner future becomes that of the outer state.\<close>

definition rd_run_recover :: "'e \<Rightarrow> ('v, 'e) rd \<Rightarrow> ('v, 'e) rd" where
  "rd_run_recover failed s =
     (if rd_recover s = Queued then
        (case rd_inner s of
           Some (Inl e) \<Rightarrow> (rd_proceed (s\<lparr>rd_exception := Some e\<rparr>))\<lparr>rd_recover := Done (Inl failed), rd_then := handed (rd_then s)\<rparr>
         | Some (Inr v) \<Rightarrow> s\<lparr>rd_recover := Done (Inr v), rd_then := handed (rd_then s)\<rparr>
         | None \<Rightarrow> s)
      else s)"

definition rd_run_then :: "('v, 'e) rd \<Rightarrow> ('v, 'e) rd" where
  "rd_run_then s =
     (if rd_then s = Queued then
        (case rd_recover s of
           Done (Inl e) \<Rightarrow> s\<lparr>rd_then := Done (Inl e)\<rparr>
         | Done (Inr v) \<Rightarrow> (rd_proceed s)\<lparr>rd_then := Done (Inr ())\<rparr>
         | _ \<Rightarrow> s)
      else s)"

text \<open>
  The function of \<open>reduce\<close>: \<open>get_ready\<close> on the outer state, then \<open>get_try\<close> on the inner future, whose value is taken without a test.
\<close>

definition rd_run_reduced :: "('v, 'e) rd \<Rightarrow> ('v, 'e) rd res" where
  "rd_run_reduced s =
     (if rd_reduced s = Queued then
        (case rd_exception s of
           Some e \<Rightarrow> Inr (s\<lparr>rd_reduced := Done (Inl e)\<rparr>)
         | None \<Rightarrow> (case rd_inner s of None \<Rightarrow> Inl Null_Call | Some r \<Rightarrow> Inr (s\<lparr>rd_reduced := Done r\<rparr>)))
      else Inr s)"

datatype ('v, 'e) rd_op = Call_Outer "'e option" | Outer_Broken | Inner_Ready "'e + 'v" | Inner_Broken | Run_Recover | Run_Then | Run_Reduced

fun rd_step :: "'e \<Rightarrow> 'e \<Rightarrow> ('v, 'e) rd_op \<Rightarrow> ('v, 'e) rd \<Rightarrow> ('v, 'e) rd res" where
  "rd_step broken failed (Call_Outer r) s = Inr (rd_call r s)"
| "rd_step broken failed Outer_Broken s = Inr (rd_outer_broken s)"
| "rd_step broken failed (Inner_Ready r) s = Inr (rd_inner_ready r s)"
| "rd_step broken failed Inner_Broken s = Inr (rd_inner_broken broken s)"
| "rd_step broken failed Run_Recover s = Inr (rd_run_recover failed s)"
| "rd_step broken failed Run_Then s = Inr (rd_run_then s)"
| "rd_step broken failed Run_Reduced s = rd_run_reduced s"

lemmas rd_step_defs = rd_call_def rd_outer_broken_def rd_inner_ready_def rd_inner_broken_def rd_run_recover_def rd_run_then_def
  rd_run_reduced_def rd_proceed_def handed_def

section \<open>Invariant\<close>

text \<open>How far the reduction is, once the task has returned the inner future.\<close>

definition chain_ok :: "'e \<Rightarrow> 'e \<Rightarrow> ('v, 'e) rd \<Rightarrow> bool" where
  "chain_ok broken failed s \<longleftrightarrow> (case rd_recover s of
      Absent \<Rightarrow> False
    | Waiting \<Rightarrow> rd_inner s = None \<and> rd_then s = Waiting \<and> \<not> rd_ready s \<and> rd_exception s = None
    | Queued \<Rightarrow> rd_inner s \<noteq> None \<and> rd_then s = Waiting \<and> \<not> rd_ready s \<and> rd_exception s = None
    | Done (Inr v) \<Rightarrow> rd_inner s = Some (Inr v) \<and> rd_exception s = None \<and>
        (rd_then s = Queued \<and> \<not> rd_ready s \<or> rd_then s = Done (Inr ()) \<and> rd_ready s)
    | Done (Inl x) \<Rightarrow>
        (case rd_inner s of Some (Inl e) \<Rightarrow> x = failed \<and> rd_exception s = Some e \<and> rd_ready s \<and> rd_then s \<in> {Queued, Done (Inl failed)} | _ \<Rightarrow> False) \<or>
        x = broken \<and> rd_inner s = Some (Inl broken) \<and> rd_then s = Done (Inl broken) \<and> \<not> rd_ready s \<and> rd_exception s = None)"

definition rd_inv :: "'e \<Rightarrow> 'e \<Rightarrow> ('v, 'e) rd \<Rightarrow> bool" where
  "rd_inv broken failed s \<longleftrightarrow>
     (if rd_set s then \<not> rd_f s \<and> chain_ok broken failed s
      else rd_recover s = Absent \<and> rd_then s = Absent \<and> (rd_ready s \<longleftrightarrow> rd_exception s \<noteq> None) \<and> (rd_f s \<longrightarrow> \<not> rd_ready s)) \<and>
     rd_proceeds s = (if rd_ready s then 1 else 0) \<and>
     (case rd_reduced s of
        Absent \<Rightarrow> False
      | Waiting \<Rightarrow> \<not> rd_ready s
      | Queued \<Rightarrow> rd_ready s
      | Done x \<Rightarrow> rd_ready s \<and> (case rd_exception s of Some e \<Rightarrow> x = Inl e | None \<Rightarrow> rd_inner s = Some x))"

lemma rd_inv_init: "rd_inv broken failed rd_init"
  by (simp add: rd_inv_def rd_init_def)

lemma chain_ok_upd [simp]:
  "chain_ok broken failed (s\<lparr>rd_f := f\<rparr>) = chain_ok broken failed s" "chain_ok broken failed (s\<lparr>rd_reduced := d\<rparr>) = chain_ok broken failed s"
  by (auto simp: chain_ok_def split: stage.splits sum.splits option.splits)

lemma rd_step_inv:
  assumes "rd_inv broken failed s"
  shows "\<exists>s'. rd_step broken failed x s = Inr s' \<and> rd_inv broken failed s'"
proof (cases x)
  case (Call_Outer r)
  then show ?thesis using assms by (cases r; cases "rd_f s") (auto simp: rd_inv_def chain_ok_def rd_call_def rd_proceed_def handed_def split: stage.splits if_splits)
next
  case Outer_Broken
  then show ?thesis using assms by (auto simp: rd_inv_def rd_outer_broken_def split: stage.splits option.splits if_splits)
next
  case (Inner_Ready r)
  then show ?thesis using assms
    by (cases "rd_inner s"; cases "rd_recover s")
      (auto simp: rd_inv_def chain_ok_def rd_inner_ready_def handed_def split: stage.splits sum.splits option.splits if_splits)
next
  case Inner_Broken
  then show ?thesis using assms
    by (cases "rd_inner s"; cases "rd_recover s")
      (auto simp: rd_inv_def chain_ok_def rd_inner_broken_def split: stage.splits sum.splits option.splits if_splits)
next
  case Run_Recover
  then show ?thesis using assms
    by (cases "rd_recover s = Queued")
      (auto simp: rd_inv_def chain_ok_def rd_run_recover_def rd_proceed_def handed_def split: stage.splits sum.splits option.splits if_splits)
next
  case Run_Then
  then show ?thesis using assms
    by (cases "rd_then s = Queued")
      (auto simp: rd_inv_def chain_ok_def rd_run_then_def rd_proceed_def handed_def split: stage.splits sum.splits option.splits if_splits)
next
  case Run_Reduced
  show ?thesis
  proof (cases "rd_reduced s = Queued")
    case True
    then have "rd_ready s" using assms by (simp add: rd_inv_def)
    then obtain r where r: "case rd_exception s of Some e \<Rightarrow> r = Inl e | None \<Rightarrow> rd_inner s = Some r"
      using assms by (cases "rd_exception s") (auto simp: rd_inv_def chain_ok_def split: stage.splits sum.splits option.splits if_splits)
    then have "rd_run_reduced s = Inr (s\<lparr>rd_reduced := Done r\<rparr>)" using True by (auto simp: rd_run_reduced_def split: option.splits)
    moreover have "rd_inv broken failed (s\<lparr>rd_reduced := Done r\<rparr>)"
      using assms r True \<open>rd_ready s\<close> by (auto simp: rd_inv_def split: option.splits if_splits)
    ultimately show ?thesis using Run_Reduced by simp
  qed (use assms Run_Reduced in \<open>simp add: rd_run_reduced_def\<close>)
qed

interpretation rdm: safe_machine "rd_inv broken failed" "\<lambda>_. True" "rd_step broken failed" for broken failed
  by unfold_locales (rule rd_step_inv)

lemma reachable_rd: "run_ops (rd_step broken failed) ops rd_init = Inr s \<Longrightarrow> rd_inv broken failed s"
  using rdm.run_safe [OF rd_inv_init, of ops broken failed] by (auto simp: list_all_iff)

section \<open>Results\<close>

text \<open>
  C38. Nested futures are flattened: in every execution nothing is dereferenced that is not there, the outer state is made ready at
  most once, and when the reduced future is ready it has the exception the task has thrown, or else the outcome of the inner future,
  value or exception, and never the exception that the reduction throws internally.
\<close>
theorem reduction_result:
  "\<exists>s. run_ops (rd_step broken failed) ops rd_init = Inr s \<and> rd_proceeds s \<le> 1 \<and>
     (\<forall>x. rd_reduced s = Done x \<longrightarrow> (if rd_set s then rd_inner s = Some x else \<exists>e. rd_exception s = Some e \<and> x = Inl e))"
proof -
  from rdm.run_safe [OF rd_inv_init, of ops broken failed] obtain s where
    s: "run_ops (rd_step broken failed) ops rd_init = Inr s" "rd_inv broken failed s" by (auto simp: list_all_iff)
  have "if rd_set s then rd_inner s = Some x else \<exists>e. rd_exception s = Some e \<and> x = Inl e" if "rd_reduced s = Done x" for x
    using s(2) that by (auto simp: rd_inv_def chain_ok_def split: stage.splits sum.splits option.splits if_splits)
  moreover have "rd_proceeds s \<le> 1" using s(2) by (simp add: rd_inv_def)
  ultimately show ?thesis using s(1) by blast
qed

text \<open>
  The reduction completes: once the task has returned and the inner future is ready, without its promise having been broken, the
  calls of the three continuations that are still outstanding make the reduced future ready with the outcome of the inner one.
\<close>
theorem reduction_completes:
  assumes "run_ops (rd_step broken failed) ops rd_init = Inr s" and "rd_set s" and "rd_inner s = Some r" and "rd_recover s \<noteq> Done (Inl broken)"
  shows "\<exists>s'. run_ops (rd_step broken failed) [Run_Recover, Run_Then, Run_Reduced] s = Inr s' \<and> rd_reduced s' = Done r"
proof -
  have inv: "rd_inv broken failed s" by (rule reachable_rd [OF assms(1)])
  show ?thesis
  proof (cases "rd_ready s")
    case True
    then show ?thesis using inv assms(2-4)
      by (cases r; cases "rd_reduced s")
        (auto simp: rd_inv_def chain_ok_def rd_step_defs split: stage.splits sum.splits option.splits if_splits)
  next
    case False
    then show ?thesis using inv assms(2-4)
      by (cases r; cases "rd_recover s"; cases "rd_reduced s")
        (auto simp: rd_inv_def chain_ok_def rd_step_defs split: stage.splits sum.splits option.splits if_splits)
  qed
qed

definition lost :: "('v, 'e) rd \<Rightarrow> bool" where
  "lost s \<longleftrightarrow> rd_reduced s = Waiting \<and> \<not> rd_ready s \<and> \<not> rd_f s \<and> rd_recover s \<noteq> Waiting \<and> rd_recover s \<noteq> Queued \<and> rd_then s \<noteq> Queued"

lemma lost_run: "lost s \<Longrightarrow> run_ops (rd_step broken failed) ops s = Inr s' \<Longrightarrow> lost s'"
proof (induction ops arbitrary: s)
  case (Cons x ops)
  then obtain s1 where s1: "rd_step broken failed x s = Inr s1" "run_ops (rd_step broken failed) ops s1 = Inr s'"
    by (auto simp: bindR_def split: sum.splits)
  have "lost s1" using s1(1) Cons.prems(1) by (cases x) (auto simp: lost_def rd_step_defs split: stage.splits if_splits)
  from Cons.IH [OF this s1(2)] show ?case .
qed simp

text \<open>
  A broken promise is not reported through a reduction: when the promise of the inner future is broken while the reduction waits for
  it, or the packaged task that would have returned a future is destroyed uncalled, the reduced future never becomes ready, however the
  execution goes on.
\<close>
theorem reduction_broken:
  assumes "run_ops (rd_step broken failed) ops rd_init = Inr s" and "x = Inner_Broken \<and> rd_recover s = Waiting \<or> x = Outer_Broken \<and> rd_f s"
    and "run_ops (rd_step broken failed) (x # ops') s = Inr s'"
  shows "rd_reduced s' = Waiting \<and> \<not> rd_ready s'"
proof -
  have inv: "rd_inv broken failed s" by (rule reachable_rd [OF assms(1)])
  obtain s1 where s1: "rd_step broken failed x s = Inr s1" "run_ops (rd_step broken failed) ops' s1 = Inr s'"
    using assms(3) by (auto simp: bindR_def split: sum.splits)
  have "lost s1" using inv assms(2) s1(1)
    by (auto simp: lost_def rd_inv_def chain_ok_def rd_inner_broken_def rd_outer_broken_def split: stage.splits if_splits)
  from lost_run [OF this s1(2)] show ?thesis by (simp add: lost_def)
qed

definition nested :: "(int, string) rd_op list" where
  "nested = [Call_Outer None, Inner_Ready (Inl ''late'')]"

theorem reduction_result_witness:
  "\<exists>s. run_ops (rd_step ''broken'' ''failed'') [Call_Outer None, Inner_Ready (Inr (7::int)), Run_Recover, Run_Then, Run_Reduced] rd_init = Inr s \<and>
     rd_reduced s = Done (Inr 7) \<and> rd_inner s = Some (Inr 7) \<and> rd_proceeds s \<le> 1"
proof -
  let ?ops = "[Call_Outer None, Inner_Ready (Inr 7), Run_Recover, Run_Then, Run_Reduced] :: (int, string) rd_op list"
  have "\<exists>s. run_ops (rd_step ''broken'' ''failed'') ?ops rd_init = Inr s \<and> rd_reduced s = Done (Inr 7) \<and> rd_set s"
    by (simp add: rd_init_def rd_step_defs rd_run_reduced_def rd_proceed_def handed_def)
  with reduction_result [of "''broken''" "''failed''" ?ops] show ?thesis by auto
qed

theorem reduction_completes_witness:
  "\<exists>s s'. run_ops (rd_step ''broken'' ''failed'') nested rd_init = Inr s \<and>
     run_ops (rd_step ''broken'' ''failed'') [Run_Recover, Run_Then, Run_Reduced] s = Inr s' \<and> rd_reduced s' = Done (Inl ''late'')"
proof -
  have "\<exists>s. run_ops (rd_step ''broken'' ''failed'') nested rd_init = Inr s \<and> rd_set s \<and> rd_inner s = Some (Inl ''late'') \<and> rd_recover s = Queued"
    by (simp add: nested_def rd_init_def rd_step_defs)
  then obtain s where s: "run_ops (rd_step ''broken'' ''failed'') nested rd_init = Inr s" "rd_set s" "rd_inner s = Some (Inl ''late'')" "rd_recover s = Queued"
    by blast
  have "rd_recover s \<noteq> Done (Inl ''broken'')" using s(4) by simp
  from reduction_completes [OF s(1-3) this] s(1) show ?thesis by blast
qed

theorem reduction_broken_witness:
  "\<exists>s'. run_ops (rd_step ''broken'' ''failed'') [Call_Outer None, Inner_Broken, Run_Recover, Run_Then, Run_Reduced] rd_init = Inr s' \<and>
     rd_reduced (s' :: (int, string) rd) = Waiting"
proof -
  let ?s = "rd_init\<lparr>rd_f := False, rd_set := True, rd_recover := Waiting, rd_then := Waiting\<rparr> :: (int, string) rd"
  have s: "run_ops (rd_step ''broken'' ''failed'') [Call_Outer None] rd_init = Inr ?s" by (simp add: rd_init_def rd_step_defs)
  from rdm.run_safe [OF reachable_rd [OF s], of "[Inner_Broken, Run_Recover, Run_Then, Run_Reduced]"] obtain s' where
    s': "run_ops (rd_step ''broken'' ''failed'') [Inner_Broken, Run_Recover, Run_Then, Run_Reduced] ?s = Inr s'" by auto
  have "run_ops (rd_step ''broken'' ''failed'') ([Call_Outer None] @ [Inner_Broken, Run_Recover, Run_Then, Run_Reduced]) rd_init = Inr s'"
    by (simp only: run_ops_append s s' bindR_Inr)
  with reduction_broken [OF s _ s'] show ?thesis by simp
qed

end
