(* ===== verification/Future_Coroutine.thy ===== *)
theory Future_Coroutine
  imports Prelude
begin

text \<open>
  Coroutines over futures (\<^verbatim>\<open>deps/clean_stlab/stlab/concurrency/future.hpp\<close>, where the compiler supports them): a function that returns
  a future may wait for others with \<open>co_await\<close>. The awaiter looks whether the future is ready; if not, it attaches a continuation
  that stores the value in the awaiter and resumes the coroutine. A step is a piece of the coroutine between two suspensions,
  the end of a future, or the call of that continuation by an executor.
\<close>

section \<open>State\<close>

text \<open>A coroutine: it returns, throws, or waits for a future and goes on with what \<open>co_await\<close> gives it.\<close>

datatype ('v, 'e) coro = Co_Return 'v | Co_Throw 'e | Co_Await nat "'v \<Rightarrow> ('v, 'e) coro"

datatype ('v, 'e) co_pc = Running "('v, 'e) coro" | Suspended nat "'v \<Rightarrow> ('v, 'e) coro" | Finished

text \<open>
  The futures of the program that have ended, the position of the coroutine, its promise, and how often it has found a
  future ready.
\<close>

record ('v, 'e) co =
  co_futures :: "nat \<Rightarrow> ('e + 'v) option"
  co_pc :: "('v, 'e) co_pc"
  co_promise :: "('e + 'v) option"
  co_found :: nat

text \<open>\<open>initial_suspend\<close> never suspends.\<close>

definition co_start :: "(nat \<Rightarrow> ('e + 'v) option) \<Rightarrow> ('v, 'e) coro \<Rightarrow> ('v, 'e) co" where
  "co_start fs p = \<lparr>co_futures = fs, co_pc = Running p, co_promise = None, co_found = 0\<rparr>"

section \<open>Steps\<close>

text \<open>
  \<open>return_value\<close> and \<open>unhandled_exception\<close> fulfil the promise; \<open>co_await\<close> asks \<open>await_ready\<close>, and takes its value from
  \<open>await_resume\<close>: the member \<open>_result\<close>, which only the continuation assigns and which else has the value \<open>R{}\<close>.
\<close>

definition co_run :: "'v \<Rightarrow> ('v, 'e) co \<Rightarrow> ('v, 'e) co" where
  "co_run initial s =
     (case co_pc s of
        Running (Co_Return v) \<Rightarrow> s\<lparr>co_pc := Finished, co_promise := Some (Inr v)\<rparr>
      | Running (Co_Throw e) \<Rightarrow> s\<lparr>co_pc := Finished, co_promise := Some (Inl e)\<rparr>
      | Running (Co_Await i c) \<Rightarrow>
          (if co_futures s i \<noteq> None then s\<lparr>co_pc := Running (c initial), co_found := co_found s + 1\<rparr>
           else s\<lparr>co_pc := Suspended i c\<rparr>)
      | _ \<Rightarrow> s)"

definition co_ends :: "nat \<Rightarrow> 'e + 'v \<Rightarrow> ('v, 'e) co \<Rightarrow> ('v, 'e) co" where
  "co_ends i r s = (if co_futures s i = None then s\<lparr>co_futures := (co_futures s)(i \<mapsto> r)\<rparr> else s)"

text \<open>The continuation that \<open>await_suspend\<close> attaches with \<open>then\<close>: it is not called for an exception.\<close>

definition co_resume :: "('v, 'e) co \<Rightarrow> ('v, 'e) co" where
  "co_resume s =
     (case co_pc s of
        Suspended i c \<Rightarrow> (case co_futures s i of Some (Inr v) \<Rightarrow> s\<lparr>co_pc := Running (c v)\<rparr> | _ \<Rightarrow> s)
      | _ \<Rightarrow> s)"

datatype ('v, 'e) co_op = Co_Run | Co_Ends nat "'e + 'v" | Co_Resume

fun co_step :: "'v \<Rightarrow> ('v, 'e) co_op \<Rightarrow> ('v, 'e) co \<Rightarrow> ('v, 'e) co" where
  "co_step initial Co_Run s = co_run initial s"
| "co_step initial (Co_Ends i r) s = co_ends i r s"
| "co_step initial Co_Resume s = co_resume s"

section \<open>Specification\<close>

text \<open>What the coroutine computes when \<open>co_await\<close> gives the value of the future; an exception ends it.\<close>

primrec awaited :: "(nat \<Rightarrow> ('e + 'v) option) \<Rightarrow> ('v, 'e) coro \<Rightarrow> ('e + 'v) option" where
  "awaited fs (Co_Return v) = Some (Inr v)"
| "awaited fs (Co_Throw e) = Some (Inl e)"
| "awaited fs (Co_Await i c) = (case fs i of None \<Rightarrow> None | Some (Inl e) \<Rightarrow> Some (Inl e) | Some (Inr v) \<Rightarrow> awaited fs (c v))"

lemma awaited_mono:
  assumes "\<And>i x. fs i = Some x \<Longrightarrow> gs i = Some x"
  shows "awaited fs p = Some r \<Longrightarrow> awaited gs p = Some r"
  by (induction p) (auto split: option.splits sum.splits dest: assms)

text \<open>The coroutine is on its way from its body \<open>p\<close>.\<close>

definition co_way :: "('v, 'e) coro \<Rightarrow> ('v, 'e) co_pc \<Rightarrow> ('e + 'v) option \<Rightarrow> (nat \<Rightarrow> ('e + 'v) option) \<Rightarrow> bool" where
  "co_way p q r fs \<longleftrightarrow> awaited fs p = (case q of Running q \<Rightarrow> awaited fs q | Suspended i c \<Rightarrow> awaited fs (Co_Await i c) | Finished \<Rightarrow> r)"

definition co_inv :: "('v, 'e) coro \<Rightarrow> ('v, 'e) co \<Rightarrow> bool" where
  "co_inv p s \<longleftrightarrow> (co_promise s \<noteq> None \<longleftrightarrow> co_pc s = Finished) \<and>
     (co_found s = 0 \<longrightarrow> (\<forall>fs. co_futures s \<subseteq>\<^sub>m fs \<longrightarrow> co_way p (co_pc s) (co_promise s) fs))"

lemma co_inv_step:
  assumes "co_inv p s"
  shows "co_inv p (co_step initial x s)"
proof (cases x)
  case Co_Run
  show ?thesis
  proof (cases "co_pc s")
    case (Running q)
    then show ?thesis using assms Co_Run by (cases q) (auto simp: co_inv_def co_run_def co_way_def)
  qed (use assms Co_Run in \<open>simp_all add: co_run_def\<close>)
next
  case (Co_Ends i r)
  have "co_futures s \<subseteq>\<^sub>m fs" if "co_futures s i = None" "(co_futures s)(i \<mapsto> r) \<subseteq>\<^sub>m fs" for fs
  proof (rule map_le_trans [OF _ that(2)])
    show "co_futures s \<subseteq>\<^sub>m (co_futures s)(i \<mapsto> r)" using that(1) by (auto simp: map_le_def)
  qed
  then show ?thesis using assms Co_Ends by (cases "co_futures s i") (simp_all add: co_inv_def co_ends_def)
next
  case Co_Resume
  show ?thesis
  proof (cases "co_pc s")
    case (Suspended i c)
    show ?thesis
    proof (cases "\<exists>v. co_futures s i = Some (Inr v)")
      case True
      then obtain v where v: "co_futures s i = Some (Inr v)" by blast
      have r: "co_step initial x s = s\<lparr>co_pc := Running (c v)\<rparr>" using Co_Resume Suspended v by (simp add: co_resume_def)
      have "awaited fs (Co_Await i c) = awaited fs (c v)" if "co_futures s \<subseteq>\<^sub>m fs" for fs
      proof -
        have "fs i = Some (Inr v)" using that v by (metis domI map_le_def)
        then show ?thesis by simp
      qed
      then show ?thesis unfolding r using assms Suspended by (simp add: co_inv_def co_way_def del: awaited.simps)
    qed (use assms Co_Resume Suspended in \<open>auto simp: co_resume_def split: option.splits sum.splits\<close>)
  qed (use assms Co_Resume in \<open>simp_all add: co_resume_def\<close>)
qed

lemma co_inv_run: "co_inv p s \<Longrightarrow> co_inv p (fold (co_step initial) ops s)"
  by (induction ops arbitrary: s) (simp_all add: co_inv_step del: co_step.simps)

text \<open>
  A coroutine that never finds a future ready when it waits for it computes what its body says: when it
  has finished, its promise has the value or exception that the body gives with the values of the futures.
\<close>
theorem coroutine_result:
  assumes "s = fold (co_step initial) ops (co_start fs p)" and "co_found s = 0" and "co_pc s = Finished"
  shows "co_promise s = awaited (co_futures s) p \<and> co_promise s \<noteq> None"
proof -
  have "co_inv p (co_start fs p)" by (simp add: co_inv_def co_start_def co_way_def)
  from co_inv_run [OF this] have "co_inv p s" using assms(1) by simp
  then show ?thesis using assms(2,3) by (simp add: co_inv_def co_way_def)
qed

text \<open>
  A future that is ready when the coroutine waits for it is not read: the coroutine goes on with the default value of
  the type, whatever value or exception the future has.
\<close>
theorem coroutine_ready_default:
  assumes "co_pc s = Running (Co_Await i c)" and "co_futures s i = Some r"
  shows "co_pc (co_step initial Co_Run s) = Running (c initial)"
  using assms by (simp add: co_run_def)

text \<open>
  A coroutine that waits for a future that ends with an exception is never resumed: its own future does not become
  ready, however the execution goes on.
\<close>
theorem coroutine_exception_hangs:
  assumes "co_pc s = Suspended i c" and "co_futures s i = Some (Inl e)" and "co_promise s = None"
  shows "co_pc (fold (co_step initial) ops s) = Suspended i c \<and> co_promise (fold (co_step initial) ops s) = None"
  using assms
proof (induction ops arbitrary: s)
  case (Cons x ops)
  have "co_pc (co_step initial x s) = Suspended i c \<and> co_futures (co_step initial x s) i = Some (Inl e) \<and> co_promise (co_step initial x s) = None"
  proof (cases x)
    case (Co_Ends j r)
    then show ?thesis using Cons.prems by (cases "j = i") (simp_all add: co_ends_def)
  qed (use Cons.prems in \<open>simp_all add: co_run_def co_resume_def\<close>)
  then show ?case using Cons.IH [of "co_step initial x s"] by simp
qed simp

section \<open>Examples\<close>

definition add_two :: "(int, string) coro" where
  "add_two = Co_Await 0 (\<lambda>x. Co_Await 1 (\<lambda>y. Co_Return (x + y)))"

theorem coroutine_result_witness:
  "co_promise (fold (co_step 0) [Co_Run, Co_Ends 0 (Inr 40), Co_Resume, Co_Run, Co_Ends 1 (Inr 2), Co_Resume, Co_Run] (co_start (\<lambda>_. None) add_two)) = Some (Inr 42)"
proof -
  let ?s = "fold (co_step 0) [Co_Run, Co_Ends 0 (Inr 40), Co_Resume, Co_Run, Co_Ends 1 (Inr 2), Co_Resume, Co_Run] (co_start (\<lambda>_. None) add_two)"
  have s: "co_found ?s = 0" "co_pc ?s = Finished" "co_futures ?s 0 = Some (Inr 40)" "co_futures ?s 1 = Some (Inr 2)"
    by (simp_all add: co_start_def add_two_def co_run_def co_ends_def co_resume_def)
  from coroutine_result [OF refl s(1,2)] have "co_promise ?s = awaited (co_futures ?s) add_two" by blast
  moreover have "awaited fs add_two = Some (Inr 42)" if "fs 0 = Some (Inr 40)" "fs 1 = Some (Inr 2)" for fs
    using that by (simp add: add_two_def)
  ultimately show ?thesis using s(3,4) by simp
qed

theorem coroutine_ready_default_witness:
  "co_pc (co_step 0 Co_Run (co_start [0 \<mapsto> Inr 40] add_two)) = Running (Co_Await 1 (\<lambda>y. Co_Return (0 + y)))"
  using coroutine_ready_default [of "co_start [0 \<mapsto> Inr 40] add_two" 0 "\<lambda>x. Co_Await 1 (\<lambda>y. Co_Return (x + y))" "Inr 40" 0]
  by (simp add: co_start_def add_two_def)

theorem coroutine_exception_hangs_witness:
  "co_promise (fold (co_step 0) [Co_Resume, Co_Run, Co_Resume] (fold (co_step 0) [Co_Run, Co_Ends 0 (Inl ''error'')] (co_start (\<lambda>_. None) add_two))) = None"
proof -
  let ?s = "fold (co_step 0) [Co_Run, Co_Ends 0 (Inl ''error'')] (co_start (\<lambda>_. None) add_two)"
  have "co_pc ?s = Suspended 0 (\<lambda>x. Co_Await 1 (\<lambda>y. Co_Return (x + y)))" "co_futures ?s 0 = Some (Inl ''error'')" "co_promise ?s = None"
    by (simp_all add: co_start_def add_two_def co_run_def co_ends_def)
  from coroutine_exception_hangs [OF this] show ?thesis by blast
qed

end
