(* ===== verification/Future_Unique.thy ===== *)
theory Future_Unique
  imports Future_Shared
begin

text \<open>
  The shared state of a future whose result can only be moved (\<^verbatim>\<open>deps/clean_stlab/stlab/concurrency/future.hpp\<close>, \<open>shared_base\<close> for types that are not
  copyable): it has room for one continuation, a pair of executor and task, and gives its result away. Steps and threads are as
  in theory \<open>Future_Shared\<close>.
\<close>

section \<open>State\<close>

text \<open>
  A thread inside \<open>operator()\<close> or \<open>set_error\<close>: in the call of the function; with a value or an exception written, before the critical section;
  after it, about to give the continuation to its executor or to call it. The flag says that \<open>operator()\<close> will clear \<open>_f\<close>.
\<close>

datatype 'k upc = U_Function | U_Value_Written | U_Exception_Written bool | U_Schedule "'k option" bool | U_Inline "'k option" bool

text \<open>
  \<open>us_first\<close> says whether the executor of \<open>_then\<close> is set, \<open>us_second\<close> is its task. \<open>us_empty\<close> counts the empty tasks that were given to an executor.
\<close>

record ('v, 'e, 'k) us =
  us_result :: "'v option"
  us_exception :: "'e option"
  us_ready :: bool
  us_first :: bool
  us_second :: "'k option"
  us_f :: bool
  us_promises :: "64 word"
  us_calls :: "'k upc list"
  us_scheduled :: "'k list"
  us_inline :: "'k list"
  us_destroyed :: "'k list"
  us_empty :: nat

definition us_package :: "('v, 'e, 'k) us" where
  "us_package = \<lparr>us_result = None, us_exception = None, us_ready = False, us_first = False, us_second = None, us_f = True, us_promises = 1,
     us_calls = [], us_scheduled = [], us_inline = [], us_destroyed = [], us_empty = 0\<rparr>"

section \<open>Operations\<close>

text \<open>\<open>recover_r\<close>: the continuation replaces the one that is there.\<close>

definition us_recover :: "'k \<Rightarrow> ('v, 'e, 'k) us \<Rightarrow> ('v, 'e, 'k) us" where
  "us_recover k s =
     (if us_ready s then s\<lparr>us_calls := us_calls s @ [U_Schedule (Some k) False]\<rparr>
      else s\<lparr>us_first := True, us_second := Some k, us_destroyed := us_destroyed s @ (case us_second s of None \<Rightarrow> [] | Some d \<Rightarrow> [d])\<rparr>)"

definition us_invoke :: "('v, 'e, 'k) us \<Rightarrow> ('v, 'e, 'k) us" where
  "us_invoke s = (if us_f s then s\<lparr>us_calls := us_calls s @ [U_Function]\<rparr> else s)"

definition us_return :: "nat \<Rightarrow> 'v \<Rightarrow> ('v, 'e, 'k) us \<Rightarrow> ('v, 'e, 'k) us" where
  "us_return i v s =
     (if i < length (us_calls s) \<and> us_calls s ! i = U_Function
      then s\<lparr>us_result := Some v, us_calls := (us_calls s)[i := U_Value_Written]\<rparr> else s)"

definition us_throw :: "nat \<Rightarrow> 'e \<Rightarrow> ('v, 'e, 'k) us \<Rightarrow> ('v, 'e, 'k) us" where
  "us_throw i e s =
     (if i < length (us_calls s) \<and> us_calls s ! i = U_Function
      then s\<lparr>us_exception := Some e, us_calls := (us_calls s)[i := U_Exception_Written True]\<rparr> else s)"

definition us_set_error :: "'e \<Rightarrow> ('v, 'e, 'k) us \<Rightarrow> ('v, 'e, 'k) us" where
  "us_set_error e s = s\<lparr>us_exception := Some e, us_calls := us_calls s @ [U_Exception_Written False]\<rparr>"

text \<open>
  The critical sections of \<open>proceed\<close>, which takes the pair as it is, and of \<open>set_exception\<close>, which takes it when it has a task.
\<close>

definition us_proceed :: "nat \<Rightarrow> ('v, 'e, 'k) us \<Rightarrow> ('v, 'e, 'k) us" where
  "us_proceed i s =
     (if i < length (us_calls s) then
        (case us_calls s ! i of
           U_Value_Written \<Rightarrow>
             (let s' = s\<lparr>us_ready := True, us_first := False, us_second := None\<rparr>
              in if us_first s then s'\<lparr>us_calls := (us_calls s)[i := U_Schedule (us_second s) True]\<rparr>
                 else s'\<lparr>us_calls := (us_calls s)[i := U_Inline None True],
                         us_destroyed := us_destroyed s @ (case us_second s of None \<Rightarrow> [] | Some d \<Rightarrow> [d])\<rparr>)
         | U_Exception_Written b \<Rightarrow>
             (let s' = s\<lparr>us_ready := True, us_calls := (us_calls s)[i := U_Inline (us_second s) b]\<rparr>
              in if us_second s = None then s' else s'\<lparr>us_first := False, us_second := None\<rparr>)
         | _ \<Rightarrow> s)
      else s)"

text \<open>The continuation is given to its executor, or called; then the call ends.\<close>

definition us_end :: "nat \<Rightarrow> bool \<Rightarrow> ('v, 'e, 'k) us \<Rightarrow> ('v, 'e, 'k) us" where
  "us_end i b s = s\<lparr>us_calls := drop_nth i (us_calls s), us_f := (if b then False else us_f s)\<rparr>"

definition us_hand :: "nat \<Rightarrow> ('v, 'e, 'k) us \<Rightarrow> ('v, 'e, 'k) us" where
  "us_hand i s =
     (if i < length (us_calls s) then
        (case us_calls s ! i of
           U_Schedule (Some k) b \<Rightarrow> us_end i b (s\<lparr>us_scheduled := us_scheduled s @ [k]\<rparr>)
         | U_Schedule None b \<Rightarrow> us_end i b (s\<lparr>us_empty := us_empty s + 1\<rparr>)
         | U_Inline (Some k) b \<Rightarrow> us_end i b (s\<lparr>us_inline := us_inline s @ [k]\<rparr>)
         | U_Inline None b \<Rightarrow> us_end i b s
         | _ \<Rightarrow> s)
      else s)"

definition us_add_promise :: "('v, 'e, 'k) us \<Rightarrow> ('v, 'e, 'k) us" where
  "us_add_promise s = s\<lparr>us_promises := us_promises s + 1\<rparr>"

text \<open>\<open>reset\<close> empties the task of the pair and leaves its executor.\<close>

definition us_remove_promise :: "'e \<Rightarrow> ('v, 'e, 'k) us \<Rightarrow> ('v, 'e, 'k) us" where
  "us_remove_promise broken s =
     (let s = s\<lparr>us_promises := us_promises s - 1\<rparr>
      in if us_promises s = 0 \<and> \<not> us_ready s
         then s\<lparr>us_destroyed := us_destroyed s @ (case us_second s of None \<Rightarrow> [] | Some d \<Rightarrow> [d]), us_second := None, us_f := False,
                us_exception := Some broken, us_ready := True\<rparr>
         else s)"

text \<open>\<open>get_try\<close> moves the result out of the state; \<open>moved\<close> is what a move leaves.\<close>

definition us_get_try :: "('v \<Rightarrow> 'v) \<Rightarrow> ('v, 'e, 'k) us \<Rightarrow> ('e + 'v option) \<times> ('v, 'e, 'k) us" where
  "us_get_try moved s =
     (if us_ready s then (case us_exception s of Some e \<Rightarrow> (Inl e, s) | None \<Rightarrow> (Inr (us_result s), s\<lparr>us_result := map_option moved (us_result s)\<rparr>))
      else (Inr None, s))"

fun us_step :: "'e \<Rightarrow> ('v, 'e, 'k) sb_op \<Rightarrow> ('v, 'e, 'k) us \<Rightarrow> ('v, 'e, 'k) us" where
  "us_step broken (Recover k) = us_recover k"
| "us_step broken Invoke = us_invoke"
| "us_step broken (Return i v) = us_return i v"
| "us_step broken (Throws i e) = us_throw i e"
| "us_step broken (Set_Error e) = us_set_error e"
| "us_step broken (Proceed i) = us_proceed i"
| "us_step broken (Hand i) = us_hand i"
| "us_step broken Add_Promise = us_add_promise"
| "us_step broken Remove_Promise = us_remove_promise broken"

section \<open>Continuations\<close>

fun transit :: "'k upc \<Rightarrow> 'k multiset" where
  "transit (U_Schedule (Some k) b) = {#k#}"
| "transit (U_Inline (Some k) b) = {#k#}"
| "transit _ = {#}"

abbreviation opt_mset :: "'k option \<Rightarrow> 'k multiset" where
  "opt_mset x \<equiv> (case x of None \<Rightarrow> {#} | Some k \<Rightarrow> {#k#})"

definition us_conts :: "('v, 'e, 'k) us \<Rightarrow> 'k multiset" where
  "us_conts s = opt_mset (us_second s) + sum_list (map transit (us_calls s)) + mset (us_scheduled s) + mset (us_inline s) + mset (us_destroyed s)"

lemma transit_update:
  "i < length (us_calls s) \<Longrightarrow>
   sum_list (map transit ((us_calls s)[i := w])) + transit (us_calls s ! i) = sum_list (map transit (us_calls s)) + transit w"
  by (rule sum_list_update)

lemma us_end_conts:
  assumes "i < length (us_calls s)"
  shows "us_conts (us_end i b s) + transit (us_calls s ! i) = us_conts s"
  using sum_list_drop_nth [OF assms, of transit] by (simp add: us_conts_def us_end_def ac_simps)

lemma us_proceed_conts: "us_conts (us_proceed i s) = us_conts s"
proof (cases "i < length (us_calls s)")
  case True
  note U = transit_update [OF True]
  show ?thesis
  proof (cases "us_calls s ! i")
    case U_Value_Written
    then show ?thesis using True U [of "U_Schedule (us_second s) True"] U [of "U_Inline None True"]
      by (cases "us_second s") (auto simp: us_conts_def us_proceed_def Let_def)
  next
    case (U_Exception_Written b)
    then show ?thesis using True U [of "U_Inline (us_second s) b"]
      by (cases "us_second s") (auto simp: us_conts_def us_proceed_def Let_def)
  qed (use True in \<open>simp_all add: us_proceed_def\<close>)
qed (simp add: us_proceed_def)

lemma us_hand_conts: "us_conts (us_hand i s) = us_conts s"
proof (cases "i < length (us_calls s)")
  case True
  show ?thesis
  proof (cases "us_calls s ! i")
    case (U_Schedule x b)
    then show ?thesis using True us_end_conts [of i "s\<lparr>us_scheduled := us_scheduled s @ [k]\<rparr>" b for k] us_end_conts [of i "s\<lparr>us_empty := us_empty s + 1\<rparr>" b]
      by (cases x) (auto simp: us_hand_def us_conts_def us_end_def)
  next
    case (U_Inline x b)
    then show ?thesis using True us_end_conts [of i "s\<lparr>us_inline := us_inline s @ [k]\<rparr>" b for k] us_end_conts [of i s b]
      by (cases x) (auto simp: us_hand_def us_conts_def us_end_def)
  qed (use True in \<open>simp_all add: us_hand_def\<close>)
qed (simp add: us_hand_def)

lemma us_conts_step: "us_conts (us_step broken x s) = us_conts s + attached [x]"
proof (cases x)
  case (Return i v)
  then show ?thesis using transit_update [of i s U_Value_Written] by (auto simp: us_conts_def us_return_def)
next
  case (Throws i e)
  then show ?thesis using transit_update [of i s "U_Exception_Written True"] by (auto simp: us_conts_def us_throw_def)
next
  case (Recover k)
  then show ?thesis by (cases "us_second s") (auto simp: us_conts_def us_recover_def)
next
  case Remove_Promise
  then show ?thesis by (cases "us_second s") (auto simp: us_conts_def us_remove_promise_def Let_def)
qed (auto simp: us_proceed_conts us_hand_conts, auto simp: us_conts_def us_invoke_def us_set_error_def us_add_promise_def)

lemma us_conts_run: "us_conts (fold (us_step broken) ops s) = us_conts s + attached ops"
proof (induction ops arbitrary: s)
  case (Cons x ops)
  then show ?case by (subst attached_Cons) (simp add: us_conts_step ac_simps del: us_step.simps)
qed simp

lemma us_ready_step: "(us_ready s \<longrightarrow> us_second s = None) \<Longrightarrow> us_ready (us_step broken x s) \<longrightarrow> us_second (us_step broken x s) = None"
  by (cases x) (auto simp: us_recover_def us_invoke_def us_return_def us_throw_def us_set_error_def us_proceed_def us_hand_def us_end_def us_add_promise_def
      us_remove_promise_def Let_def split: upc.splits option.splits)

lemma us_ready_run: "(us_ready s \<longrightarrow> us_second s = None) \<Longrightarrow> us_ready (fold (us_step broken) ops s) \<longrightarrow> us_second (fold (us_step broken) ops s) = None"
  by (induction ops arbitrary: s) (simp_all add: us_ready_step del: us_step.simps)

lemma us_package_conts: "us_conts us_package = {#}"
  by (simp add: us_conts_def us_package_def)

text \<open>
  The continuations of a state with a move-only result, under every interleaving: those stored, in transit, given to their
  executor, called in place and destroyed are exactly those attached; once the state is ready and no call is under way each has
  been given away, called or destroyed.
\<close>
theorem unique_continuations_once:
  fixes s :: "('v, 'e, 'k) us"
  assumes "s = fold (us_step broken) ops us_package"
  shows "us_conts s = attached ops \<and>
    (us_ready s \<and> us_calls s = [] \<longrightarrow> mset (us_scheduled s) + mset (us_inline s) + mset (us_destroyed s) = attached ops)"
proof -
  have c: "us_conts s = attached ops" using assms by (simp add: us_conts_run us_package_conts)
  have "us_ready s \<longrightarrow> us_second s = None" unfolding assms by (rule us_ready_run) (simp add: us_package_def)
  then show ?thesis using c by (auto simp: us_conts_def)
qed

lemma destroyed_step: "k \<in> set (us_destroyed s) \<Longrightarrow> k \<in> set (us_destroyed (us_step broken x s))"
  by (cases x) (auto simp: us_recover_def us_invoke_def us_return_def us_throw_def us_set_error_def us_proceed_def us_hand_def us_end_def us_add_promise_def
      us_remove_promise_def Let_def split: upc.splits option.splits)

lemma destroyed_run: "k \<in> set (us_destroyed s) \<Longrightarrow> k \<in> set (us_destroyed (fold (us_step broken) ops s))"
  by (induction ops arbitrary: s) (simp_all add: destroyed_step del: us_step.simps)

text \<open>
  A second continuation replaces the first: when two are attached to a state that is not ready, the first is destroyed and is
  neither given to its executor nor called, however the execution goes on.
\<close>
theorem unique_replaces:
  assumes "s = fold (us_step broken) (Recover k # Recover k' # ops) us_package" and "count (attached (Recover k # Recover k' # ops)) k = 1"
  shows "k \<in> set (us_destroyed s) \<and> k \<notin> set (us_scheduled s) \<and> k \<notin> set (us_inline s)"
proof -
  have "k \<in> set (us_destroyed (fold (us_step broken) [Recover k, Recover k'] us_package))" by (simp add: us_recover_def us_package_def)
  from destroyed_run [OF this, of broken ops] have d: "k \<in> set (us_destroyed s)" using assms(1) by simp
  have "us_conts s = attached (Recover k # Recover k' # ops)" unfolding assms(1) us_conts_run us_package_conts by simp
  then have "count (us_conts s) k = 1" using assms(2) by simp
  moreover have "0 < count (mset (us_destroyed s)) k" using d by (simp add: count_greater_zero_iff)
  ultimately have "count (mset (us_scheduled s)) k = 0" "count (mset (us_inline s)) k = 0" unfolding us_conts_def count_union by linarith+
  then show ?thesis using d by (metis count_eq_zero_iff set_mset_mset)
qed

text \<open>
  How a continuation is started: after a value it is given to its executor, after an exception it is called by the thread that has
  caught the exception, without its executor. In both cases the state has the outcome and its function is gone.
\<close>
theorem unique_outcome:
  "let s = fold (us_step broken) ([Recover k, Invoke] @ [outcome_step r, Proceed 0, Hand 0]) us_package
   in us_scheduled s = (if isl r then [] else [k]) \<and> us_inline s = (if isl r then [k] else []) \<and> us_ready s \<and> \<not> us_f s \<and> us_calls s = [] \<and>
     fst (us_get_try moved s) = (case r of Inl e \<Rightarrow> Inl e | Inr v \<Rightarrow> Inr (Some v))"
  by (cases r) (simp_all add: outcome_step_def us_package_def us_recover_def us_invoke_def us_return_def us_throw_def us_proceed_def us_hand_def us_end_def
      us_get_try_def drop_nth_def Let_def)

text \<open>
  The result is given away once: a second \<open>get_try\<close> on a ready state gives what the move of the first has left, not an empty
  \<open>optional\<close>.
\<close>
theorem unique_result_once:
  assumes "us_ready s" and "us_exception s = None" and "us_result s = Some v"
  shows "fst (us_get_try moved s) = Inr (Some v) \<and> fst (us_get_try moved (snd (us_get_try moved s))) = Inr (Some (moved v))"
  using assms by (simp add: us_get_try_def)

theorem unique_continuations_once_witness:
  "let s = fold (us_step ''broken'') [Recover (1::nat), Invoke, Recover 2, Return 0 (7::int), Proceed 0, Recover 3, Hand 0, Hand 0] us_package
   in mset (us_scheduled s) + mset (us_inline s) + mset (us_destroyed s) = {#1, 2, 3#}"
proof -
  let ?ops = "[Recover (1::nat), Invoke, Recover 2, Return 0 (7::int), Proceed 0, Recover 3, Hand 0, Hand 0]"
  have "us_ready (fold (us_step ''broken'') ?ops us_package) \<and> us_calls (fold (us_step ''broken'') ?ops us_package) = []"
    by (simp add: us_package_def us_recover_def us_invoke_def us_return_def us_proceed_def us_hand_def us_end_def drop_nth_def)
  with unique_continuations_once [OF refl, of "''broken''" ?ops] show ?thesis by (simp only: Let_def) simp
qed

theorem unique_replaces_witness:
  "1 \<notin> set (us_scheduled (fold (us_step ''broken'') [Recover (1::nat), Recover 2, Invoke, Return 0 (7::int), Proceed 0, Hand 0] us_package))"
  using unique_replaces [OF refl, of "1::nat" 2 "[Invoke, Return 0 (7::int), Proceed 0, Hand 0]" "''broken''"] by simp

theorem unique_result_once_witness:
  "fst (us_get_try (\<lambda>_. 0) (snd (us_get_try (\<lambda>_. 0) (us_package\<lparr>us_ready := True, us_result := Some (7::int)\<rparr> :: (int, string, nat) us)))) = Inr (Some 0)"
  using unique_result_once [of "us_package\<lparr>us_ready := True, us_result := Some (7::int)\<rparr> :: (int, string, nat) us" 7 "\<lambda>_. 0"]
  by (simp add: us_package_def)

end
