(* ===== verification/Progress.thy ===== *)
theory Progress
  imports Prelude
begin

text \<open>
  The progress tracker (\<^verbatim>\<open>deps/clean_stlab_trash/concurrency/progress.hpp\<close>): functions wrapped by \<open>progress_tracker::operator()\<close> are
  clients of a server that counts the wrapped functions that exist (\<open>steps\<close>) and the calls that have ended (\<open>completed\<close>). A client
  holds the server weakly: the tracker and its copies keep it alive.
\<close>

section \<open>State\<close>

text \<open>
  A client is alive or not, and its weak pointer leads to the server or was emptied by a move. The ghost \<open>pg_overwritten\<close> counts the
  assignments to clients whose pointer led to the server.
\<close>

record progress =
  task_number :: "64 word"
  done_tasks :: "64 word"
  pg_trackers :: nat
  pg_clients :: "nat \<Rightarrow> bool option"
  pg_signals :: "(64 word \<times> 64 word) list"
  pg_overwritten :: nat

definition progress_tracker :: progress where
  "progress_tracker = \<lparr>task_number = 0, done_tasks = 0, pg_trackers = 1, pg_clients = (\<lambda>_. None), pg_signals = [], pg_overwritten = 0\<rparr>"

text \<open>\<open>_p.lock()\<close>\<close>

definition pg_lock :: "bool \<Rightarrow> progress \<Rightarrow> bool" where
  "pg_lock p s \<longleftrightarrow> p \<and> 0 < pg_trackers s"

section \<open>The server\<close>

definition add_task :: "progress \<Rightarrow> progress" where
  "add_task s = s\<lparr>task_number := task_number s + 1\<rparr>"

definition drop_task :: "progress \<Rightarrow> progress" where
  "drop_task s = s\<lparr>task_number := task_number s - 1\<rparr>"

text \<open>\<open>task_done\<close>; \<open>signal\<close> says whether the tracker was made with a function to call.\<close>

definition pg_task_done :: "bool \<Rightarrow> progress \<Rightarrow> progress" where
  "pg_task_done signal s =
     (let s = s\<lparr>done_tasks := done_tasks s + 1\<rparr>
      in if signal then s\<lparr>pg_signals := pg_signals s @ [(task_number s, done_tasks s)]\<rparr> else s)"

section \<open>The clients\<close>

definition set_client :: "nat \<Rightarrow> bool \<Rightarrow> progress \<Rightarrow> progress" where
  "set_client c p s = s\<lparr>pg_clients := (pg_clients s)(c \<mapsto> p)\<rparr>"

definition when_locked :: "bool \<Rightarrow> (progress \<Rightarrow> progress) \<Rightarrow> progress \<Rightarrow> progress" where
  "when_locked p f s = (if pg_lock p s then f s else s)"

definition overwrite :: "bool \<Rightarrow> progress \<Rightarrow> progress" where
  "overwrite p s = (if p then s\<lparr>pg_overwritten := pg_overwritten s + 1\<rparr> else s)"

datatype pg_op = P_Default nat | P_Wrap nat | P_Copy nat nat | P_Copy_Assign nat nat | P_Move nat nat | P_Move_Assign nat nat | P_Destroy nat
  | P_Call nat bool | P_Copy_Tracker | P_Drop_Tracker

text \<open>
  What a program does: wrap a function, copy, move, assign and destroy clients, call one (which throws or returns), copy and destroy the
  tracker. A step outside the lifetime of its objects, or the assignment of a client to itself by a move, does nothing.
\<close>

definition pg_step :: "bool \<Rightarrow> pg_op \<Rightarrow> progress \<Rightarrow> progress" where
  "pg_step signal x s = (case x of
      P_Default c \<Rightarrow> if pg_clients s c = None then set_client c False s else s
    | P_Wrap c \<Rightarrow> if pg_clients s c = None \<and> 0 < pg_trackers s then add_task (set_client c True s) else s
    | P_Copy c d \<Rightarrow> (case (pg_clients s c, pg_clients s d) of
          (Some p, None) \<Rightarrow> when_locked p add_task (set_client d p s) | _ \<Rightarrow> s)
    | P_Copy_Assign c d \<Rightarrow> (case (pg_clients s c, pg_clients s d) of
          (Some p, Some q) \<Rightarrow> when_locked p add_task (set_client d p (overwrite q s)) | _ \<Rightarrow> s)
    | P_Move c d \<Rightarrow> (case (pg_clients s c, pg_clients s d) of
          (Some p, None) \<Rightarrow> set_client c False (set_client d p s) | _ \<Rightarrow> s)
    | P_Move_Assign c d \<Rightarrow> (case (pg_clients s c, pg_clients s d) of
          (Some p, Some q) \<Rightarrow> if c = d then s else set_client c False (set_client d p (overwrite q s)) | _ \<Rightarrow> s)
    | P_Destroy c \<Rightarrow> (case pg_clients s c of
          Some p \<Rightarrow> when_locked p drop_task (s\<lparr>pg_clients := (pg_clients s)(c := None)\<rparr>) | None \<Rightarrow> s)
    | P_Call c throws \<Rightarrow> (case pg_clients s c of
          Some p \<Rightarrow> if throws then s else when_locked p (pg_task_done signal) s | None \<Rightarrow> s)
    | P_Copy_Tracker \<Rightarrow> if 0 < pg_trackers s then s\<lparr>pg_trackers := pg_trackers s + 1\<rparr> else s
    | P_Drop_Tracker \<Rightarrow> s\<lparr>pg_trackers := pg_trackers s - 1\<rparr>)"

section \<open>What the counts mean\<close>

definition tracked :: "progress \<Rightarrow> nat set" where
  "tracked s = {c. pg_clients s c = Some True}"

definition pg_inv :: "progress \<Rightarrow> bool" where
  "pg_inv s \<longleftrightarrow> finite (tracked s) \<and> (0 < pg_trackers s \<longrightarrow> task_number s = of_nat (card (tracked s) + pg_overwritten s))"

lemma tracked_set [simp]: "tracked (set_client c p s) = (if p then insert c (tracked s) else tracked s - {c})"
  by (auto simp: tracked_def set_client_def)

lemma tracked_keep [simp]:
  "tracked (add_task s) = tracked s" "tracked (drop_task s) = tracked s" "tracked (overwrite q s) = tracked s"
  "tracked (pg_task_done signal s) = tracked s" "tracked (s\<lparr>pg_trackers := t\<rparr>) = tracked s"
  "tracked (s\<lparr>pg_clients := (pg_clients s)(c := None)\<rparr>) = tracked s - {c}"
  by (auto simp: tracked_def add_task_def drop_task_def overwrite_def pg_task_done_def Let_def)

lemma client_fields [simp]:
  "pg_trackers (set_client c p s) = pg_trackers s" "task_number (set_client c p s) = task_number s" "pg_overwritten (set_client c p s) = pg_overwritten s"
  "pg_trackers (overwrite q s) = pg_trackers s" "task_number (overwrite q s) = task_number s"
  "pg_overwritten (overwrite q s) = pg_overwritten s + (if q then 1 else 0)"
  "pg_trackers (add_task s) = pg_trackers s" "task_number (add_task s) = task_number s + 1" "pg_overwritten (add_task s) = pg_overwritten s"
  "pg_trackers (drop_task s) = pg_trackers s" "task_number (drop_task s) = task_number s - 1" "pg_overwritten (drop_task s) = pg_overwritten s"
  "pg_trackers (pg_task_done b s) = pg_trackers s" "task_number (pg_task_done b s) = task_number s" "pg_overwritten (pg_task_done b s) = pg_overwritten s"
  by (simp_all add: set_client_def overwrite_def add_task_def drop_task_def pg_task_done_def Let_def)

lemma in_tracked: "c \<in> tracked s \<longleftrightarrow> pg_clients s c = Some True"
  by (simp add: tracked_def)

lemma pg_inv_step:
  assumes "pg_inv s"
  shows "pg_inv (pg_step signal x s)"
proof -
  have fin: "finite (tracked s)" using assms by (simp add: pg_inv_def)
  have one: "(of_nat (card (tracked s) - Suc 0) :: 64 word) + 1 = of_nat (card (tracked s))" if "pg_clients s d = Some True" for d
  proof -
    have "0 < card (tracked s)" using that fin by (auto simp: card_gt_0_iff in_tracked)
    then show ?thesis by (simp add: of_nat_diff Suc_leI)
  qed
  show ?thesis
  proof (cases x)
    case (P_Destroy c)
    have "card (tracked s - {c}) = card (tracked s) - 1" "0 < card (tracked s)" if "pg_clients s c = Some True"
      using that fin by (auto simp: in_tracked card_gt_0_iff)
    then show ?thesis using assms P_Destroy fin
      by (cases "pg_clients s c") (auto simp: pg_inv_def pg_step_def when_locked_def pg_lock_def in_tracked of_nat_diff)
  next
    case (P_Move c d)
    have "card (insert d (tracked s) - {c}) = card (tracked s)" if "pg_clients s c = Some True" "pg_clients s d = None"
      using that fin by (auto simp: in_tracked card_insert_if card_Diff_singleton_if)
    then show ?thesis using assms P_Move fin
      by (cases "pg_clients s c"; cases "pg_clients s d") (auto simp: pg_inv_def pg_step_def in_tracked)
  next
    case (P_Move_Assign c d)
    then show ?thesis using assms fin one
      by (cases "pg_clients s c"; cases "pg_clients s d")
        (auto simp: pg_inv_def pg_step_def in_tracked card_insert_if card_Diff_singleton_if)
  qed (use assms fin one in \<open>auto simp: pg_inv_def pg_step_def when_locked_def pg_lock_def in_tracked card_insert_if card_Diff_singleton_if
      split: option.splits\<close>)
qed

lemma pg_inv_run: "pg_inv s \<Longrightarrow> pg_inv (fold (pg_step signal) ops s)"
  by (induction ops arbitrary: s) (simp_all add: pg_inv_step)

lemma pg_inv_init: "pg_inv progress_tracker"
  by (simp add: pg_inv_def progress_tracker_def tracked_def)

fun assigns :: "pg_op \<Rightarrow> bool" where
  "assigns (P_Copy_Assign c d) = True"
| "assigns (P_Move_Assign c d) = True"
| "assigns x = False"

lemma no_overwrite: "list_all (\<lambda>x. \<not> assigns x) ops \<Longrightarrow> pg_overwritten (fold (pg_step signal) ops s) = pg_overwritten s"
proof (induction ops arbitrary: s)
  case (Cons x ops)
  have "pg_overwritten (pg_step signal x s) = pg_overwritten s"
    using Cons.prems by (cases x) (auto simp: pg_step_def when_locked_def split: option.splits)
  then show ?case using Cons by simp
qed simp

text \<open>
  What \<open>steps\<close> counts: as long as the tracker exists, the wrapped functions that exist, plus one for every assignment that
  ever replaced a wrapped function, modulo the width of the counter. Without assignments it is the number of wrapped functions.
\<close>
theorem progress_steps:
  assumes "s = fold (pg_step signal) ops progress_tracker" and "0 < pg_trackers s"
  shows "task_number s = of_nat (card (tracked s) + pg_overwritten s) \<and> (list_all (\<lambda>x. \<not> assigns x) ops \<longrightarrow> pg_overwritten s = 0)"
  using pg_inv_run [OF pg_inv_init, of signal ops] no_overwrite [of ops signal progress_tracker] assms
  by (simp add: pg_inv_def) (simp add: progress_tracker_def)

text \<open>
  The error of the assignments stays: when a wrapped function is assigned to a wrapped function and then all
  are destroyed, the tracker still counts one step that no function will ever complete.
\<close>
theorem progress_assignment_leaks:
  "task_number (fold (pg_step signal) [P_Wrap 0, P_Wrap 1, P_Copy_Assign 0 1, P_Destroy 0, P_Destroy 1] progress_tracker) = 1 \<and>
   tracked (fold (pg_step signal) [P_Wrap 0, P_Wrap 1, P_Copy_Assign 0 1, P_Destroy 0, P_Destroy 1] progress_tracker) = {}"
  by (simp add: progress_tracker_def pg_step_def add_task_def drop_task_def set_client_def overwrite_def when_locked_def pg_lock_def tracked_def)

lemma signals_step:
  assumes "map snd (pg_signals s) = map of_nat [1..<Suc (length (pg_signals s))]" and "done_tasks s = of_nat (length (pg_signals s))"
  shows "map snd (pg_signals (pg_step True x s)) = map of_nat [1..<Suc (length (pg_signals (pg_step True x s)))] \<and>
    done_tasks (pg_step True x s) = of_nat (length (pg_signals (pg_step True x s)))"
  using assms by (cases x) (auto simp: pg_step_def when_locked_def add_task_def drop_task_def set_client_def overwrite_def pg_task_done_def Let_def
      ac_simps split: option.splits)

text \<open>
  A tracker with a signal function calls it once for every call of a wrapped function that returns, with \<open>completed\<close> counting up from
  one.
\<close>
theorem progress_signals:
  assumes "s = fold (pg_step True) ops progress_tracker"
  shows "map snd (pg_signals s) = map of_nat [1..<Suc (length (pg_signals s))] \<and> done_tasks s = of_nat (length (pg_signals s))"
proof -
  have "map snd (pg_signals (fold (pg_step True) ops t)) = map of_nat [1..<Suc (length (pg_signals (fold (pg_step True) ops t)))] \<and>
      done_tasks (fold (pg_step True) ops t) = of_nat (length (pg_signals (fold (pg_step True) ops t)))"
    if "map snd (pg_signals t) = map of_nat [1..<Suc (length (pg_signals t))] \<and> done_tasks t = of_nat (length (pg_signals t))" for t
    using that by (induction ops arbitrary: t) (use signals_step in \<open>auto simp del: upt_Suc\<close>)
  from this [of progress_tracker] show ?thesis using assms by (simp add: progress_tracker_def)
qed

theorem progress_steps_witness:
  "task_number (fold (pg_step True) [P_Wrap 0, P_Copy 0 1, P_Move 1 2, P_Call 2 False, P_Destroy 1] progress_tracker) = 2"
proof -
  let ?s = "fold (pg_step True) [P_Wrap 0, P_Copy 0 1, P_Move 1 2, P_Call 2 False, P_Destroy 1] progress_tracker"
  have "0 < pg_trackers ?s" "pg_clients ?s = [0 \<mapsto> True, 2 \<mapsto> True]"
    by (auto simp: progress_tracker_def pg_step_def add_task_def drop_task_def set_client_def when_locked_def pg_lock_def pg_task_done_def Let_def fun_eq_iff)
  moreover from this(2) have "tracked ?s = {0, 2}" by (auto simp: tracked_def split: if_splits)
  ultimately show ?thesis using progress_steps [OF refl, of True "[P_Wrap 0, P_Copy 0 1, P_Move 1 2, P_Call 2 False, P_Destroy 1]"]
    by (simp add: list_all_iff)
qed

theorem progress_signals_witness:
  "map snd (pg_signals (fold (pg_step True) [P_Wrap 0, P_Call 0 False, P_Call 0 True, P_Call 0 False] progress_tracker)) = [1, 2]"
proof -
  let ?s = "fold (pg_step True) [P_Wrap 0, P_Call 0 False, P_Call 0 True, P_Call 0 False] progress_tracker"
  have n: "length (pg_signals ?s) = 2"
    by (simp add: progress_tracker_def pg_step_def add_task_def set_client_def when_locked_def pg_lock_def pg_task_done_def Let_def)
  have "map snd (pg_signals ?s) = map of_nat [1..<Suc (length (pg_signals ?s))]" using progress_signals [OF refl] by blast
  also have "\<dots> = [1, 2]" unfolding n by (simp add: upt_rec)
  finally show ?thesis .
qed

end
