(* ===== verification/Executor_Delay.thy ===== *)
theory Executor_Delay
  imports System_Timer
begin

text \<open>
  Delayed execution (\<^verbatim>\<open>deps/clean_stlab/stlab/concurrency/executor_base.hpp\<close>): \<open>execute_at\<close> and \<open>execute_delayed\<close> wrap an executor in one that
  hands a task to the timer of theory \<open>System_Timer\<close>, whose thread hands it to the wrapped executor when it is due.
\<close>

section \<open>State\<close>

text \<open>
  The function object that \<open>execute_at\<close> returns has a duration and the wrapped executor, which a call with a duration other than zero
  moves into the task for the timer; a \<open>std::function\<close> that was moved from is empty. The timer's tasks are the tasks of the
  program, each with the executor it carries or an empty one. \<open>dl_posted\<close> is what the wrapped executor has been given.
\<close>

record 'j delayed =
  dl_duration :: int
  dl_executor :: bool
  dl_timer :: "('j \<times> bool) timer"
  dl_posted :: "'j list"

definition execute_at :: "int \<Rightarrow> int \<Rightarrow> 'j delayed" where
  "execute_at duration now = \<lparr>dl_duration = duration, dl_executor = True, dl_timer = system_timer now, dl_posted = []\<rparr>"

datatype delay_fault = Bad_Function_Call | Timer_Fault

section \<open>Steps\<close>

definition give :: "bool \<Rightarrow> 'j \<Rightarrow> 'j delayed \<Rightarrow> delay_fault + 'j delayed" where
  "give present f s = (if present then Inr (s\<lparr>dl_posted := dl_posted s @ [f]\<rparr>) else Inl Bad_Function_Call)"

text \<open>The call of the function object.\<close>

definition delayed_call :: "'j \<Rightarrow> 'j delayed \<Rightarrow> delay_fault + 'j delayed" where
  "delayed_call f s =
     (if dl_duration s \<noteq> 0
      then Inr (s\<lparr>dl_timer := timer_call push_heap (dl_duration s) (f, dl_executor s) (dl_timer s), dl_executor := False\<rparr>)
      else give (dl_executor s) f s)"

text \<open>A step of the timer; when its thread is in the call of a task, that task calls the executor it carries.\<close>

definition delayed_timer :: "('j \<times> bool) tm_op \<Rightarrow> 'j delayed \<Rightarrow> delay_fault + 'j delayed" where
  "delayed_timer x s =
     (case tm_step push_heap pop_heap x (dl_timer s) of
        Inl e \<Rightarrow> Inl Timer_Fault
      | Inr t \<Rightarrow>
          (case (x, tm_pc (dl_timer s)) of
             (Thread, Run_Task (f, present)) \<Rightarrow> give present f (s\<lparr>dl_timer := t\<rparr>)
           | _ \<Rightarrow> Inr (s\<lparr>dl_timer := t\<rparr>)))"

datatype 'j delay_op = D_Call 'j | D_Tick nat | D_Thread | D_Wake

fun delay_step :: "'j delay_op \<Rightarrow> 'j delayed \<Rightarrow> delay_fault + 'j delayed" where
  "delay_step (D_Call f) s = delayed_call f s"
| "delay_step (D_Tick d) s = delayed_timer (Tick d) s"
| "delay_step D_Thread s = delayed_timer Thread s"
| "delay_step D_Wake s = delayed_timer Spurious_Wake s"

section \<open>Tasks\<close>

lemma single_heap [simp]: "push_heap [x] = [x]" "pop_heap [x] = [x]"
  by (simp_all add: push_heap_def pop_heap_def sift_up.simps [of 0] sift_down.simps [of 0] min_child_def swap_at_def)

text \<open>
  With the duration zero the executor is transparent: every task is handed on at once, in order, any number of times.
\<close>
theorem execute_at_zero:
  "\<exists>s. run_ops delay_step (map D_Call fs) (execute_at 0 now) = Inr s \<and> dl_posted s = fs"
proof -
  have "\<exists>s'. run_ops delay_step (map D_Call fs) s = Inr s' \<and> dl_posted s' = dl_posted s @ fs" if "dl_duration s = 0" "dl_executor s" for s :: "'a delayed"
    using that
  proof (induction fs arbitrary: s)
    case (Cons f fs)
    have "\<exists>s'. run_ops delay_step (map D_Call fs) (s\<lparr>dl_posted := dl_posted s @ [f]\<rparr>) = Inr s' \<and> dl_posted s' = dl_posted (s\<lparr>dl_posted := dl_posted s @ [f]\<rparr>) @ fs"
      by (rule Cons.IH) (use Cons.prems in simp_all)
    then show ?case using Cons.prems by (simp add: delayed_call_def give_def)
  qed simp
  from this [of "execute_at 0 now"] show ?thesis by (simp add: execute_at_def)
qed

text \<open>
  With a positive duration the first task is handed on when the duration is over, and not before; the second task that is
  given to the same function object has no executor any more: the thread of the timer calls an empty function.
\<close>
theorem execute_at_once:
  assumes "0 < d"
  shows "\<exists>s. run_ops delay_step [D_Call f, D_Thread, D_Tick d, D_Thread, D_Thread, D_Thread] (execute_at (int d) now) = Inr s \<and>
      dl_posted s = [f] \<and> started (dl_timer s) = [(now + int d, now + int d, (f, True))] \<and>
      run_ops delay_step [D_Thread, D_Call g, D_Thread, D_Tick d, D_Thread, D_Thread, D_Thread] s = Inl Bad_Function_Call"
  using assms
  by (simp add: execute_at_def delayed_call_def delayed_timer_def system_timer_def timer_call_def tm_notify_def timed_queue_run_step_def
      timer_inner_def take_due_def give_def Let_def)

theorem execute_at_once_witness:
  "\<exists>s. run_ops delay_step [D_Call (7::nat), D_Thread, D_Tick 3, D_Thread, D_Thread, D_Thread] (execute_at 3 100) = Inr s \<and> dl_posted s = [7] \<and>
      run_ops delay_step [D_Thread, D_Call 8, D_Thread, D_Tick 3, D_Thread, D_Thread, D_Thread] s = Inl Bad_Function_Call"
  using execute_at_once [of 3 7 100 8] by (auto simp del: run_ops.simps)

end
