(* ===== verification/Asio_Server.thy ===== *)
theory Asio_Server
  imports Prelude
begin

text \<open>
  The TCP server \<^verbatim>\<open>asio/async_tcp_echo_server.cc\<close>. One thread runs the \<open>io_service\<close>, which calls the handlers of completed operations
  one after the other; a completed accept or read is a step. The service is a parameter: a read of at most \<open>max_length\<close> bytes completes
  with that many bytes or with an error, and only when one was started.
\<close>

section \<open>State\<close>

definition max_length :: nat where
  "max_length = 32"

text \<open>
  A session: its buffer, its counter \<open>l\<close> (\<open>se_l\<close>), an \<open>int\<close>, and the number of reads it has started that have not completed. Each of them holds
  the shared pointer \<open>self\<close>, so that the session exists while there is one. The ghost \<open>se_received\<close> lists the chunks it was handed.
\<close>

record session =
  se_data :: "char list"
  se_l :: int
  se_reads :: nat
  se_received :: "string list"

datatype line = Chunk string int | Total int | Usage | What string

text \<open>The server: the accepts it has started, the sessions it has made, the output.\<close>

record server =
  sv_accepts :: nat
  sv_sessions :: "session list"
  sv_out :: "line list"

section \<open>Sessions\<close>

definition do_read :: "session \<Rightarrow> session" where
  "do_read s = s\<lparr>se_reads := se_reads s + 1\<rparr>"

text \<open>The handler of a read: \<open>None\<close> is an error, after which the session lets go of itself.\<close>

definition read_handler :: "string option \<Rightarrow> session \<Rightarrow> line list \<times> session" where
  "read_handler r s = (case r of
     None \<Rightarrow> ([], s)
   | Some c \<Rightarrow>
       (let s = s\<lparr>se_data := c @ drop (length c) (se_data s), se_received := se_received s @ [c]\<rparr>;
            l' = to_int32 (se_l s + int (length c))
        in ([Chunk (take (length c) (se_data s)) (se_l s), Total l'], do_read (s\<lparr>se_l := l'\<rparr>))))"

definition complete_read :: "string option \<Rightarrow> session \<Rightarrow> line list \<times> session" where
  "complete_read r s = read_handler r (s\<lparr>se_reads := se_reads s - 1\<rparr>)"

text \<open>The constructor and \<open>start\<close>; \<open>junk\<close> is what the new buffer holds.\<close>

definition new_session :: "char list \<Rightarrow> session" where
  "new_session junk = do_read \<lparr>se_data = junk, se_l = 0, se_reads = 0, se_received = []\<rparr>"

section \<open>The server\<close>

definition do_accept :: "server \<Rightarrow> server" where
  "do_accept s = s\<lparr>sv_accepts := sv_accepts s + 1\<rparr>"

definition accept_handler :: "char list option \<Rightarrow> server \<Rightarrow> server" where
  "accept_handler r s = do_accept (case r of None \<Rightarrow> s | Some junk \<Rightarrow> s\<lparr>sv_sessions := sv_sessions s @ [new_session junk]\<rparr>)"

definition server_init :: server where
  "server_init = do_accept \<lparr>sv_accepts = 0, sv_sessions = [], sv_out = []\<rparr>"

text \<open>What the service completes: an accept, with the buffer of the new session or with an error; a read of session \<open>i\<close>.\<close>

datatype completion = Accepted "char list option" | Received nat "string option"

definition fits :: "string option \<Rightarrow> session \<Rightarrow> session res" where
  "fits r t = (case r of None \<Rightarrow> Inr t | Some c \<Rightarrow> if length c \<le> length (se_data t) then Inr t else Inl Out_Of_Bounds)"

fun io_step :: "completion \<Rightarrow> server \<Rightarrow> server res" where
  "io_step (Accepted r) s = Inr (if 0 < sv_accepts s then accept_handler r (s\<lparr>sv_accepts := sv_accepts s - 1\<rparr>) else s)"
| "io_step (Received i r) s =
     (if i < length (sv_sessions s) \<and> 0 < se_reads (sv_sessions s ! i)
      then bindR (fits r (sv_sessions s ! i)) (\<lambda>t.
        let (ls, t') = complete_read r t in Inr (s\<lparr>sv_sessions := (sv_sessions s)[i := t'], sv_out := sv_out s @ ls\<rparr>))
      else Inr s)"

text \<open>The port is converted from \<open>int\<close> to \<open>short\<close>, and then to the \<open>unsigned short\<close> of the endpoint.\<close>

definition to_short :: "int \<Rightarrow> int" where
  "to_short x = (x + 2 ^ 15) mod 2 ^ 16 - 2 ^ 15"

definition server_port :: "int \<Rightarrow> int" where
  "server_port port = to_short port mod 2 ^ 16"

text \<open>\<open>main\<close>: the value it returns, what it prints, and the port it listens to; \<open>run\<close> is the exception that ends \<open>io_service::run\<close>, if any.\<close>

definition server_main :: "nat \<Rightarrow> int \<Rightarrow> string option \<Rightarrow> int \<times> line list \<times> int option" where
  "server_main argc port run =
     (if argc \<noteq> 2 then (1, [Usage], None)
      else (0, (case run of None \<Rightarrow> [] | Some e \<Rightarrow> [What e]), Some (server_port port)))"

section \<open>Properties\<close>

definition session_ok :: "session \<Rightarrow> bool" where
  "session_ok t \<longleftrightarrow> length (se_data t) = max_length \<and> se_reads t \<le> 1 \<and> se_l t = to_int32 (int (length (concat (se_received t)))) \<and>
     list_all (\<lambda>c. length c \<le> max_length) (se_received t) \<and>
     (\<exists>rest. se_data t = (if se_received t = [] then [] else last (se_received t)) @ rest)"

definition server_ok :: "server \<Rightarrow> bool" where
  "server_ok s \<longleftrightarrow> sv_accepts s = 1 \<and> list_all session_ok (sv_sessions s)"

fun io_ok :: "completion \<Rightarrow> bool" where
  "io_ok (Accepted r) = (case r of None \<Rightarrow> True | Some junk \<Rightarrow> length junk = max_length)"
| "io_ok (Received i r) = (case r of None \<Rightarrow> True | Some c \<Rightarrow> length c \<le> max_length)"

lemma to_int32_add: "to_int32 (to_int32 a + b) = to_int32 (a + b)"
  unfolding to_int32_def by (simp add: mod_simps algebra_simps)

lemma complete_read_ok:
  assumes "session_ok t" and "0 < se_reads t" and "case r of None \<Rightarrow> True | Some c \<Rightarrow> length c \<le> max_length"
  shows "session_ok (snd (complete_read r t))"
proof (cases r)
  case (Some c)
  have "to_int32 (se_l t + int (length c)) = to_int32 (int (length (concat (se_received t @ [c]))))"
    using assms(1) by (simp add: session_ok_def to_int32_add)
  then show ?thesis using assms Some
    by (auto simp: session_ok_def complete_read_def read_handler_def do_read_def Let_def)
qed (use assms in \<open>auto simp: session_ok_def complete_read_def read_handler_def\<close>)

lemma new_session_ok: "length junk = max_length \<Longrightarrow> session_ok (new_session junk)"
  by (simp add: session_ok_def new_session_def do_read_def)

lemma io_step_safe: "server_ok s \<Longrightarrow> io_ok x \<Longrightarrow> \<exists>s'. io_step x s = Inr s' \<and> server_ok s'"
proof (cases x)
  case (Accepted r)
  assume "server_ok s" "io_ok x"
  then show ?thesis using Accepted new_session_ok
    by (auto simp: server_ok_def accept_handler_def do_accept_def split: option.splits)
next
  case (Received i r)
  assume a: "server_ok s" "io_ok x"
  show ?thesis
  proof (cases "i < length (sv_sessions s) \<and> 0 < se_reads (sv_sessions s ! i)")
    case True
    have t: "session_ok (sv_sessions s ! i)" using a(1) True by (simp add: server_ok_def list_all_length)
    have "fits r (sv_sessions s ! i) = Inr (sv_sessions s ! i)"
      using t a(2) Received by (auto simp: fits_def session_ok_def split: option.splits)
    moreover have "session_ok (snd (complete_read r (sv_sessions s ! i)))"
      using complete_read_ok [OF t] True a(2) Received by simp
    ultimately show ?thesis using a(1) True Received
      by (auto simp: server_ok_def list_all_update split: prod.split)
  qed (use a Received in auto)
qed

interpretation asio: safe_machine server_ok io_ok io_step
  by unfold_locales (rule io_step_safe)

lemma server_init_ok: "server_ok server_init"
  by (simp add: server_ok_def server_init_def do_accept_def)

text \<open>What is printed for a chunk is the chunk, whatever the buffer held, and the number of bytes received before it.\<close>

lemma prints_chunk: "fst (complete_read (Some c) t) = [Chunk c (se_l t), Total (to_int32 (se_l t + int (length c)))]"
  by (simp add: complete_read_def read_handler_def Let_def)

text \<open>
  Whatever arrives, no handler reads or writes outside the buffer of a session, the server always has exactly one accept
  started, also after an error, a session has at most one read started, and its counter is the number of bytes it has received,
  reduced to the range of \<open>int\<close>.
\<close>
theorem server_safe:
  assumes "list_all io_ok xs"
  shows "\<exists>s. run_ops io_step xs server_init = Inr s \<and> sv_accepts s = 1 \<and>
    list_all (\<lambda>t. se_reads t \<le> 1 \<and> se_l t = to_int32 (int (length (concat (se_received t))))) (sv_sessions s)"
proof -
  from asio.run_safe [OF server_init_ok assms] obtain s where s: "run_ops io_step xs server_init = Inr s" "server_ok s" by blast
  then show ?thesis by (auto simp: server_ok_def session_ok_def list_all_iff)
qed

theorem server_safe_witness:
  "\<exists>s. run_ops io_step [Accepted None, Accepted (Some (replicate 32 CHR 0x00)), Received 0 (Some ''abc''), Received 0 (Some ''d''), Received 0 None]
      server_init = Inr s \<and> sv_accepts s = 1 \<and> map se_l (sv_sessions s) = [4]"
proof -
  let ?xs = "[Accepted None, Accepted (Some (replicate 32 CHR 0x00)), Received 0 (Some ''abc''), Received 0 (Some ''d''), Received 0 None]"
  have "list_all io_ok ?xs" by (simp add: max_length_def)
  from server_safe [OF this] obtain s where "run_ops io_step ?xs server_init = Inr s" "sv_accepts s = 1" by blast
  moreover have "case run_ops io_step ?xs server_init of Inl e \<Rightarrow> False | Inr s \<Rightarrow> map se_l (sv_sessions s) = [4]" by code_simp
  ultimately show ?thesis by auto
qed

text \<open>Every port number is listened to as given, although it passes through \<open>short\<close>; \<open>main\<close> fails only without an argument.\<close>

theorem server_port_exact: "0 \<le> port \<Longrightarrow> port < 65536 \<Longrightarrow> server_main 2 port run = (0, (case run of None \<Rightarrow> [] | Some e \<Rightarrow> [What e]), Some port)"
proof -
  assume "0 \<le> port" "port < 65536"
  then have "server_port port = port" unfolding server_port_def to_short_def by (simp add: mod_diff_left_eq)
  then show ?thesis by (simp add: server_main_def)
qed

theorem server_port_exact_witness: "server_main 2 40000 None = (0, [], Some 40000) \<and> to_short 40000 = -25536"
  using server_port_exact [of 40000 None] by (simp add: to_short_def)

end
