(* ===== verification/Prio_Thread.thy ===== *)
theory Prio_Thread
  imports Pthreads
begin

text \<open>
  The thread priority test \<^verbatim>\<open>rtos_rte_cp/main.cc\<close>: it puts the process under \<open>SCHED_FIFO\<close> at the highest priority, starts a
  \<open>std::thread\<close> that prints its own priority, and gives that thread priority 20 while it runs. The results of the calls are a parameter, and
  the two threads interleave.
\<close>

section \<open>set_scheduler and the output of the test\<close>

record pt_env =
  pt_initial :: policy
  pt_initial_prio :: int
  pt_setscheduler_rc :: int
  pt_prio_max :: int
  pt_getaffinity_rc :: int
  pt_mask :: "nat \<Rightarrow> bool"
  pt_cpu :: int
  pt_set_rc :: int
  pt_errno :: string

definition pt_print_scheduler :: "policy \<Rightarrow> aff_out list" where
  "pt_print_scheduler p = [Str (case p of
       SCHED_FIFO \<Rightarrow> ''Pthread policy is SCHED_FIFO''
     | SCHED_OTHER \<Rightarrow> ''Pthread policy is SCHED_OTHER''
     | SCHED_RR \<Rightarrow> ''Pthread policy is SCHED_RR''
     | SCHED_UNKNOWN \<Rightarrow> ''Pthread policy is UNKNOWN'')]"

text \<open>Policy and priority of the process after \<open>sched_setscheduler\<close>, which changes nothing when it fails.\<close>

definition pt_process :: "pt_env \<Rightarrow> policy \<times> int" where
  "pt_process e = (if pt_setscheduler_rc e < 0 then (pt_initial e, pt_initial_prio e) else (SCHED_FIFO, pt_prio_max e))"

text \<open>The attributes \<open>fifo_sched_attr\<close>, with which no thread is created, and the output.\<close>

definition pt_set_scheduler :: "pt_env \<Rightarrow> fifo_attr \<times> aff_out list" where
  "pt_set_scheduler e =
     (\<lparr>fa_explicit = True, fa_policy = SCHED_FIFO, fa_cpus = [3], fa_prio = pt_prio_max e\<rparr>,
      [Str ''INITIAL ''] @ pt_print_scheduler (pt_initial e) @
      (if pt_setscheduler_rc e < 0 then [Err ''sched_setscheduler''] else []) @
      [Str ''ADJUSTED ''] @ pt_print_scheduler (fst (pt_process e)))"

definition pt_show_mask :: "pt_env \<Rightarrow> aff_out list" where
  "pt_show_mask e =
     (if pt_getaffinity_rc e \<noteq> 0 then [Err ''pthread_getaffinity_np'']
      else Num ''main thread running on CPU=%d, CPUs ='' (pt_cpu e) #
           map (\<lambda>j. Num '' %d'' (int j)) (filter (pt_mask e) [0..<1024]) @ [Str [CHR 0x0A]])"

section \<open>The two threads\<close>

text \<open>
  \<open>pt_sched\<close> is the policy and the priority of the new thread; \<open>pt_main\<close> and \<open>pt_thread\<close> count the calls the two threads have made:
  \<open>pthread_getschedparam\<close>, \<open>pthread_setschedparam\<close> and \<open>join\<close>; \<open>pthread_getschedparam\<close> with the line printed, and \<open>sleep\<close>.
\<close>

datatype pt_line = Executing int policy | Failed string

record pt_state =
  pt_sched :: "policy \<times> int"
  pt_main :: nat
  pt_thread :: nat
  pt_lines :: "pt_line list"

definition pt_start :: "pt_env \<Rightarrow> pt_state" where
  "pt_start e = \<lparr>pt_sched = pt_process e, pt_main = 0, pt_thread = 0, pt_lines = []\<rparr>"

definition starterThread_cpp :: "pt_state \<Rightarrow> pt_state" where
  "starterThread_cpp s =
     (if pt_thread s = 0 then s\<lparr>pt_thread := 1, pt_lines := pt_lines s @ [Executing (snd (pt_sched s)) (fst (pt_sched s))]\<rparr>
      else if pt_thread s = 1 then s\<lparr>pt_thread := 2\<rparr> else s)"

definition pt_test :: "pt_env \<Rightarrow> pt_state \<Rightarrow> pt_state" where
  "pt_test e s =
     (if pt_main s = 0 then s\<lparr>pt_main := 1\<rparr>
      else if pt_main s = 1 then
        (if pt_set_rc e = 0 then s\<lparr>pt_main := 2, pt_sched := (SCHED_FIFO, 20)\<rparr>
         else s\<lparr>pt_main := 2, pt_lines := pt_lines s @ [Failed (pt_errno e)]\<rparr>)
      else if pt_main s = 2 \<and> pt_thread s = 2 then s\<lparr>pt_main := 3\<rparr> else s)"

text \<open>An interleaving: \<open>True\<close> lets the main thread move.\<close>

fun pt_run :: "pt_env \<Rightarrow> bool list \<Rightarrow> pt_state \<Rightarrow> pt_state" where
  "pt_run e [] s = s"
| "pt_run e (b # bs) s = pt_run e bs (if b then pt_test e s else starterThread_cpp s)"

section \<open>Properties\<close>

definition pt_inv :: "pt_env \<Rightarrow> pt_state \<Rightarrow> bool" where
  "pt_inv e s \<longleftrightarrow> pt_main s \<le> 3 \<and> pt_thread s \<le> 2 \<and> (pt_main s = 3 \<longrightarrow> pt_thread s = 2) \<and>
     pt_sched s = (if 2 \<le> pt_main s \<and> pt_set_rc e = 0 then (SCHED_FIFO, 20) else pt_process e) \<and>
     (let said = filter (\<lambda>x. case x of Executing p q \<Rightarrow> True | Failed m \<Rightarrow> False) (pt_lines s)
      in if pt_thread s = 0 then said = []
         else said = [Executing (snd (pt_process e)) (fst (pt_process e))] \<or>
           pt_set_rc e = 0 \<and> 2 \<le> pt_main s \<and> said = [Executing 20 SCHED_FIFO])"

lemma pt_step_inv: "pt_inv e s \<Longrightarrow> pt_inv e (pt_test e s)" "pt_inv e s \<Longrightarrow> pt_inv e (starterThread_cpp s)"
  by (auto simp: pt_inv_def pt_test_def starterThread_cpp_def Let_def split: if_splits)

lemma pt_run_inv: "pt_inv e s \<Longrightarrow> pt_inv e (pt_run e bs s)"
  by (induction e bs s rule: pt_run.induct) (simp_all add: pt_step_inv)

text \<open>
  The test does not decide what it prints: at its end the thread has printed exactly one line, with the priority it has inherited or, when
  \<open>pthread_setschedparam\<close> has succeeded, with priority 20; and for each of the two there is an interleaving that prints it.
\<close>
theorem priority_printed:
  assumes "pt_main (pt_run e bs (pt_start e)) = 3"
  shows "filter (\<lambda>x. case x of Executing p q \<Rightarrow> True | Failed m \<Rightarrow> False) (pt_lines (pt_run e bs (pt_start e))) \<in>
    {[Executing (snd (pt_process e)) (fst (pt_process e))]} \<union> (if pt_set_rc e = 0 then {[Executing 20 SCHED_FIFO]} else {})"
proof -
  have "pt_inv e (pt_run e bs (pt_start e))" by (rule pt_run_inv) (simp add: pt_inv_def pt_start_def)
  then show ?thesis using assms by (auto simp: pt_inv_def Let_def split: if_splits)
qed

definition pt_example :: pt_env where
  "pt_example = \<lparr>pt_initial = SCHED_OTHER, pt_initial_prio = 0, pt_setscheduler_rc = 0, pt_prio_max = 99, pt_getaffinity_rc = 0,
     pt_mask = (\<lambda>j. j < 4), pt_cpu = 0, pt_set_rc = 0, pt_errno = ''''\<rparr>"

theorem priority_printed_witness:
  "pt_main (pt_run pt_example [False, True, True, False, True] (pt_start pt_example)) = 3 \<and>
   pt_lines (pt_run pt_example [False, True, True, False, True] (pt_start pt_example)) = [Executing 99 SCHED_FIFO] \<and>
   pt_lines (pt_run pt_example [True, True, False, False, True] (pt_start pt_example)) = [Executing 20 SCHED_FIFO] \<and>
   filter (\<lambda>x. case x of Executing p q \<Rightarrow> True | Failed m \<Rightarrow> False)
     (pt_lines (pt_run pt_example [True, True, False, False, True] (pt_start pt_example))) \<in> {[Executing 99 SCHED_FIFO], [Executing 20 SCHED_FIFO]}"
proof -
  have "pt_main (pt_run pt_example [True, True, False, False, True] (pt_start pt_example)) = 3"
    by (simp add: pt_example_def pt_start_def pt_test_def starterThread_cpp_def)
  from priority_printed [OF this] show ?thesis
    by (simp add: pt_example_def pt_start_def pt_test_def starterThread_cpp_def pt_process_def)
qed

end
