(* ===== verification/Tuple_Arguments.thy ===== *)
theory Tuple_Arguments
  imports Channel_Queues When_All_Any
begin

text \<open>
  How \<open>when_all\<close> hands its results to a function (\<^verbatim>\<open>deps/clean_stlab/stlab/concurrency/tuple_algorithm.hpp\<close>, \<^verbatim>\<open>stlab/utility.hpp\<close>): the results
  of \<open>void\<close> futures are placeholders, which are not passed. The indices of the others are computed by divide and conquer, by the
  compiler; here sequences of indices are lists.
\<close>

section \<open>Sequences of indices\<close>

text \<open>\<open>index_sequence_cat\<close> and \<open>index_sequence_to_array\<close>, whose index is checked by the compiler.\<close>

definition index_sequence_cat :: "nat list \<Rightarrow> nat list \<Rightarrow> nat list" where
  "index_sequence_cat a b = a @ b"

definition index_sequence_to_array :: "nat list \<Rightarrow> nat \<Rightarrow> nat res" where
  "index_sequence_to_array = arr_get"

function index_sequence_transform :: "nat list \<Rightarrow> (nat \<Rightarrow> nat list) \<Rightarrow> nat \<Rightarrow> nat \<Rightarrow> nat list res" where
  "index_sequence_transform s f i count =
     (if count = 0 then Inr []
      else if count = 1 then bindR (index_sequence_to_array s i) (\<lambda>x. Inr (f x))
      else bindR (index_sequence_transform s f i (count div 2)) (\<lambda>a.
           bindR (index_sequence_transform s f (i + count div 2) (count - count div 2)) (\<lambda>b. Inr (index_sequence_cat a b))))"
  by auto
termination by (relation "measure (\<lambda>(s, f, i, count). count)") auto

declare index_sequence_transform.simps [simp del]

text \<open>Dividing and conquering is the same as mapping: every index is transformed once, in order.\<close>

lemma index_sequence_transform_range:
  "i + count \<le> length s \<Longrightarrow> index_sequence_transform s f i count = Inr (concat (map f (take count (drop i s))))"
proof (induction s f i count rule: index_sequence_transform.induct)
  case (1 s f i count)
  consider "count = 0" | "count = 1" | "2 \<le> count" by linarith
  then show ?case
  proof cases
    case 2
    then show ?thesis using "1.prems"
      by (subst index_sequence_transform.simps) (simp add: index_sequence_to_array_def take_Suc_conv_app_nth hd_drop_conv_nth take_Suc)
  next
    case 3
    let ?h = "count div 2"
    have "take count (drop i s) = take ?h (drop i s) @ take (count - ?h) (drop (i + ?h) s)"
      using take_add [of ?h "count - ?h" "drop i s"] by (simp add: add.commute)
    then show ?thesis using 3 "1.IH"(1) "1.IH"(2) "1.prems"
      by (subst index_sequence_transform.simps) (auto simp: index_sequence_cat_def)
  qed (simp add: index_sequence_transform.simps)
qed

theorem index_sequence_transform_maps: "index_sequence_transform s f 0 (length s) = Inr (concat (map f s))"
  by (simp add: index_sequence_transform_range)

section \<open>Placeholders\<close>

text \<open>An element of a tuple of optionals: not yet set, or set to a value or to a placeholder. \<open>vs\<close> says which types are placeholders.\<close>

datatype 'v slot = Placeholder | Value 'v

definition map_placeholder :: "bool \<Rightarrow> nat \<Rightarrow> nat list" where
  "map_placeholder placeholder n = (if placeholder then [] else [n])"

definition remove_placeholder :: "bool list \<Rightarrow> nat \<Rightarrow> nat list" where
  "remove_placeholder vs i = map_placeholder (vs ! i) i"

text \<open>\<open>apply_optional_indexed\<close>: the elements at the indices are dereferenced and moved into the call.\<close>

definition optional_at :: "'v slot option list \<Rightarrow> nat \<Rightarrow> 'v slot res" where
  "optional_at t i = bindR (arr_get t i) (\<lambda>x. case x of None \<Rightarrow> Inl Null_Call | Some v \<Rightarrow> Inr v)"

definition apply_optional_indexed :: "nat list \<Rightarrow> ('v slot list \<Rightarrow> 'r) \<Rightarrow> 'v slot option list \<Rightarrow> 'r res" where
  "apply_optional_indexed is f t = bindR (map_res (optional_at t) is) (\<lambda>xs. Inr (f xs))"

text \<open>
  \<open>apply_when_all_args_\<close>: for every argument, in order, the exception is rethrown if the argument is not set; then the function
  is called. Rethrowing without an exception is a fault.
\<close>

definition rethrow_if_false :: "bool \<Rightarrow> 'e option \<Rightarrow> 'e option res" where
  "rethrow_if_false x p = (if x then Inr None else case p of None \<Rightarrow> Inl Null_Call | Some e \<Rightarrow> Inr (Some e))"

fun rethrow_unset :: "'v slot option list \<Rightarrow> 'e option \<Rightarrow> 'e option res" where
  "rethrow_unset [] p = Inr None"
| "rethrow_unset (x # xs) p =
     bindR (rethrow_if_false (x \<noteq> None) p) (\<lambda>r. case r of Some e \<Rightarrow> Inr (Some e) | None \<Rightarrow> rethrow_unset xs p)"

definition apply_when_all_tuple ::
  "bool list \<Rightarrow> ('v slot list \<Rightarrow> 'r) \<Rightarrow> 'v slot option list \<Rightarrow> 'e option \<Rightarrow> ('e + 'r) res" where
  "apply_when_all_tuple vs f args p =
     bindR (rethrow_unset args p) (\<lambda>thrown. case thrown of
       Some e \<Rightarrow> Inr (Inl e)
     | None \<Rightarrow>
         bindR (index_sequence_transform [0..<length args] (remove_placeholder vs) 0 (length args)) (\<lambda>is.
         bindR (apply_optional_indexed is f args) (\<lambda>r. Inr (Inr r))))"

text \<open>The type of an argument says whether its value is a placeholder.\<close>

definition slots_typed :: "bool list \<Rightarrow> 'v slot option list \<Rightarrow> bool" where
  "slots_typed vs args \<longleftrightarrow> list_all2 (\<lambda>p x. case x of None \<Rightarrow> True | Some v \<Rightarrow> (v = Placeholder) = p) vs args"

text \<open>\<open>assign_ready_future\<close>: the result of a ready argument, or a placeholder if it is \<open>void\<close>; the types are kept.\<close>

fun assign_ready_future :: "bool \<Rightarrow> 'v \<Rightarrow> 'v slot option" where
  "assign_ready_future False v = Some (Value v)"
| "assign_ready_future True v = Some Placeholder"

lemma slots_typed_assign:
  assumes "slots_typed vs args" and "i < length args"
  shows "slots_typed vs (args[i := assign_ready_future (vs ! i) v])"
  using assms by (cases "vs ! i") (auto simp: slots_typed_def list_all2_conv_all_nth nth_list_update)

lemma slots_typed_unset: "slots_typed vs (replicate (length vs) None)"
  by (simp add: slots_typed_def list_all2_conv_all_nth)

lemma rethrow_unset_eq:
  "rethrow_unset args p =
     (if None \<in> set args then (case p of None \<Rightarrow> Inl Null_Call | Some e \<Rightarrow> Inr (Some e)) else Inr None)"
  by (induction args) (auto simp: rethrow_if_false_def split: option.splits)

lemma remove_placeholder_indices: "concat (map (remove_placeholder vs) is) = filter (\<lambda>i. \<not> vs ! i) is"
  by (induction "is") (simp_all add: remove_placeholder_def map_placeholder_def)

lemma typed_indices:
  assumes "slots_typed vs args" and "None \<notin> set args"
  shows "map (\<lambda>i. the (args ! i)) (filter (\<lambda>i. \<not> vs ! i) [0..<length args]) = filter (\<lambda>v. v \<noteq> Placeholder) (map the args)"
proof -
  have "vs ! i = (the (args ! i) = Placeholder)" if "i < length args" for i
  proof -
    from assms(2) that have "args ! i \<noteq> None" by (metis nth_mem)
    with assms(1) that show ?thesis by (auto simp: slots_typed_def list_all2_conv_all_nth)
  qed
  then have "filter (\<lambda>i. \<not> vs ! i) [0..<length args] = filter (\<lambda>i. the (args ! i) \<noteq> Placeholder) [0..<length args]"
    by (intro filter_cong) auto
  moreover have "map the args = map (\<lambda>i. the (args ! i)) [0..<length args]"
    by (rule nth_equalityI) simp_all
  ultimately show ?thesis by (simp add: filter_map comp_def)
qed

lemma apply_optional_indexed_total:
  assumes "None \<notin> set args" and "\<And>i. i \<in> set is \<Longrightarrow> i < length args"
  shows "apply_optional_indexed is f args = Inr (f (map (\<lambda>i. the (args ! i)) is))"
proof -
  have "optional_at args i = Inr (the (args ! i))" if "i \<in> set is" for i
  proof -
    from assms that have "args ! i \<noteq> None" by (metis nth_mem)
    with assms(2) [OF that] show ?thesis by (auto simp: optional_at_def)
  qed
  then have "map_res (optional_at args) is = Inr (map (\<lambda>i. the (args ! i)) is)" by (rule map_res_total)
  then show ?thesis by (simp add: apply_optional_indexed_def)
qed

text \<open>
  Once every argument is set the function is called with the values of the arguments that are not \<open>void\<close>, in their order; before
  that the exception is rethrown, and no empty optional is ever dereferenced.
\<close>

lemma apply_when_all_tuple_eq:
  assumes "slots_typed vs args"
  shows "apply_when_all_tuple vs f args p =
    (if None \<in> set args then (case p of None \<Rightarrow> Inl Null_Call | Some e \<Rightarrow> Inr (Inl e))
     else Inr (Inr (f (filter (\<lambda>v. v \<noteq> Placeholder) (map the args)))))"
proof (cases "None \<in> set args")
  case True
  then show ?thesis by (simp add: apply_when_all_tuple_def rethrow_unset_eq split: option.split)
next
  case False
  have "index_sequence_transform [0..<length args] (remove_placeholder vs) 0 (length args) =
      Inr (filter (\<lambda>i. \<not> vs ! i) [0..<length args])"
    using index_sequence_transform_range [of 0 "length args" "[0..<length args]" "remove_placeholder vs"]
    by (simp add: remove_placeholder_indices)
  moreover have "apply_optional_indexed (filter (\<lambda>i. \<not> vs ! i) [0..<length args]) f args =
      Inr (f (map (\<lambda>i. the (args ! i)) (filter (\<lambda>i. \<not> vs ! i) [0..<length args])))"
    using False by (intro apply_optional_indexed_total) auto
  ultimately show ?thesis
    using False typed_indices [OF assms False] by (simp add: apply_when_all_tuple_def rethrow_unset_eq)
qed

text \<open>
  The context of a \<open>when_all\<close> of a fixed number of arguments calls its function without a fault exactly when its task may run: this
  connects the call to \<open>apply_when_all_args\<close> of theory \<open>When_All_Any\<close>, which leaves out the function.
\<close>

theorem when_all_arguments:
  assumes "slots_typed vs (c_results s)"
  shows "apply_when_all_tuple vs f (c_results s) (c_exception s) =
    (case apply_when_all_args s of
       None \<Rightarrow> Inl Null_Call
     | Some (Inl e) \<Rightarrow> Inr (Inl e)
     | Some (Inr (rs, i)) \<Rightarrow> Inr (Inr (f (filter (\<lambda>v. v \<noteq> Placeholder) (map the rs)))))"
  by (simp add: apply_when_all_tuple_eq [OF assms] apply_when_all_args_def split: option.split)

theorem when_all_arguments_witness:
  "apply_when_all_tuple [False, True, False] id
     (c_results ((common_context 3 3 :: (nat slot, nat) ctx)\<lparr>c_results := [Some (Value 1), Some Placeholder, Some (Value 3)]\<rparr>)) (None :: nat option) =
   Inr (Inr [Value 1, Value 3])"
  using when_all_arguments [of "[False, True, False]"
      "(common_context 3 3 :: (nat slot, nat) ctx)\<lparr>c_results := [Some (Value 1), Some Placeholder, Some (Value 3)]\<rparr>" id]
  by (simp add: slots_typed_def apply_when_all_args_def common_context_def)

end
