(* ===== verification/Test_Model.thy ===== *)
theory Test_Model
  imports Prelude "HOL-Library.Word"
begin

text \<open>
  The values stlab tests with (\<^verbatim>\<open>deps/clean_stlab_trash/test/model.hpp\<close>): \<open>annotate\<close> counts its special member functions in counters that a
  test waits on, \<open>regular\<close> prints them.
\<close>

section \<open>Counters\<close>

record annotate_counters =
  ct_dtor :: "64 word"
  ct_copy_ctor :: "64 word"
  ct_move_ctor :: "64 word"
  ct_copy_assign_lhs :: "64 word"
  ct_copy_assign_rhs :: "64 word"
  ct_move_assign_lhs :: "64 word"
  ct_move_assign_rhs :: "64 word"
  ct_swap :: "64 word"
  ct_equality :: "64 word"

definition annotate_counters :: annotate_counters where
  "annotate_counters = \<lparr>ct_dtor = 0, ct_copy_ctor = 0, ct_move_ctor = 0, ct_copy_assign_lhs = 0, ct_copy_assign_rhs = 0,
     ct_move_assign_lhs = 0, ct_move_assign_rhs = 0, ct_swap = 0, ct_equality = 0\<rparr>"

definition remaining :: "annotate_counters \<Rightarrow> 64 word" where
  "remaining c = ct_copy_ctor c + ct_move_ctor c - ct_dtor c + 1"

text \<open>An object is its pointer to its counters, and \<open>None\<close> once destroyed.\<close>

record annotated =
  an_counters :: "annotate_counters list"
  an_objects :: "nat option list"

definition counters_of :: "nat \<Rightarrow> annotated \<Rightarrow> nat res" where
  "counters_of i s = (if i < length (an_objects s) then (case an_objects s ! i of None \<Rightarrow> Inl Bad_Handle | Some k \<Rightarrow> Inr k) else Inl Bad_Handle)"

definition bump :: "(annotate_counters \<Rightarrow> annotate_counters) \<Rightarrow> nat \<Rightarrow> annotated \<Rightarrow> annotated" where
  "bump f k s = s\<lparr>an_counters := (an_counters s)[k := f (an_counters s ! k)]\<rparr>"

definition new_object :: "nat \<Rightarrow> annotated \<Rightarrow> annotated" where
  "new_object k s = s\<lparr>an_objects := an_objects s @ [Some k]\<rparr>"

text \<open>The special member functions. Assignment does not change which counters an object points to.\<close>

definition annotate_new :: "nat \<Rightarrow> annotated \<Rightarrow> annotated res" where
  "annotate_new k s = (if k < length (an_counters s) then Inr (new_object k s) else Inl Bad_Handle)"

definition annotate_destroy :: "nat \<Rightarrow> annotated \<Rightarrow> annotated res" where
  "annotate_destroy i s = bindR (counters_of i s) (\<lambda>k.
     Inr ((bump (ct_dtor_update (\<lambda>n. n + 1)) k s)\<lparr>an_objects := (an_objects s)[i := None]\<rparr>))"

definition annotate_copy :: "nat \<Rightarrow> annotated \<Rightarrow> annotated res" where
  "annotate_copy j s = bindR (counters_of j s) (\<lambda>k. Inr (bump (ct_copy_ctor_update (\<lambda>n. n + 1)) k (new_object k s)))"

definition annotate_move :: "nat \<Rightarrow> annotated \<Rightarrow> annotated res" where
  "annotate_move j s = bindR (counters_of j s) (\<lambda>k. Inr (bump (ct_move_ctor_update (\<lambda>n. n + 1)) k (new_object k s)))"

definition bump_both ::
  "(annotate_counters \<Rightarrow> annotate_counters) \<Rightarrow> nat \<Rightarrow> (annotate_counters \<Rightarrow> annotate_counters) \<Rightarrow> nat \<Rightarrow> annotated \<Rightarrow> annotated res" where
  "bump_both f i g j s = bindR (counters_of i s) (\<lambda>k. bindR (counters_of j s) (\<lambda>l. Inr (bump g l (bump f k s))))"

definition annotate_copy_assign :: "nat \<Rightarrow> nat \<Rightarrow> annotated \<Rightarrow> annotated res" where
  "annotate_copy_assign i j = bump_both (ct_copy_assign_rhs_update (\<lambda>n. n + 1)) j (ct_copy_assign_lhs_update (\<lambda>n. n + 1)) i"

definition annotate_move_assign :: "nat \<Rightarrow> nat \<Rightarrow> annotated \<Rightarrow> annotated res" where
  "annotate_move_assign i j = bump_both (ct_move_assign_rhs_update (\<lambda>n. n + 1)) j (ct_move_assign_lhs_update (\<lambda>n. n + 1)) i"

definition annotate_swap :: "nat \<Rightarrow> nat \<Rightarrow> annotated \<Rightarrow> annotated res" where
  "annotate_swap i j = bump_both (ct_swap_update (\<lambda>n. n + 1)) i (ct_swap_update (\<lambda>n. n + 1)) j"

text \<open>All objects are equal.\<close>

definition annotate_equal :: "nat \<Rightarrow> nat \<Rightarrow> annotated \<Rightarrow> (bool \<times> annotated) res" where
  "annotate_equal i j s = bindR (bump_both (ct_equality_update (\<lambda>n. n + 1)) i (ct_equality_update (\<lambda>n. n + 1)) j s) (\<lambda>s. Inr (True, s))"

definition annotate_not_equal :: "nat \<Rightarrow> nat \<Rightarrow> annotated \<Rightarrow> (bool \<times> annotated) res" where
  "annotate_not_equal i j s = bindR (annotate_equal i j s) (\<lambda>(b, s). Inr (\<not> b, s))"

datatype an_op = New nat | Destroy nat | Copy nat | Move nat | Copy_Assign nat nat | Move_Assign nat nat | Swap nat nat
  | Equal nat nat | Not_Equal nat nat

fun an_step :: "an_op \<Rightarrow> annotated \<Rightarrow> annotated res" where
  "an_step (New k) s = annotate_new k s"
| "an_step (Destroy i) s = annotate_destroy i s"
| "an_step (Copy j) s = annotate_copy j s"
| "an_step (Move j) s = annotate_move j s"
| "an_step (Copy_Assign i j) s = annotate_copy_assign i j s"
| "an_step (Move_Assign i j) s = annotate_move_assign i j s"
| "an_step (Swap i j) s = annotate_swap i j s"
| "an_step (Equal i j) s = bindR (annotate_equal i j s) (\<lambda>(b, s). Inr s)"
| "an_step (Not_Equal i j) s = bindR (annotate_not_equal i j s) (\<lambda>(b, s). Inr s)"

definition an_init :: "nat \<Rightarrow> annotated" where
  "an_init n = \<lparr>an_counters = replicate n annotate_counters, an_objects = []\<rparr>"

subsection \<open>What the counters count\<close>

definition live :: "nat \<Rightarrow> annotated \<Rightarrow> nat" where
  "live k s = count_list (an_objects s) (Some k)"

text \<open>The difference that each operation makes to \<open>remaining\<close>.\<close>

definition balance :: "nat \<Rightarrow> annotated \<Rightarrow> 64 word" where
  "balance k s = remaining (an_counters s ! k) - of_nat (live k s)"

lemma count_list_destroyed:
  "i < length xs \<Longrightarrow> xs ! i = Some j \<Longrightarrow>
   count_list (xs[i := None]) (Some k) + (if j = k then 1 else 0) = count_list xs (Some k)"
proof (induction xs arbitrary: i)
  case (Cons x xs)
  then show ?case by (cases i) auto
qed simp

lemma counters_of_Inr: "counters_of i s = Inr k \<longleftrightarrow> i < length (an_objects s) \<and> an_objects s ! i = Some k"
  by (auto simp: counters_of_def split: option.splits)

lemma bump_frame [simp]: "length (an_counters (bump f k s)) = length (an_counters s)" "an_objects (bump f k s) = an_objects s"
  by (simp_all add: bump_def)

lemma remaining_bump:
  "l < length (an_counters s) \<Longrightarrow>
   remaining (an_counters (bump f k s) ! l) = (if l = k then remaining (f (an_counters s ! k)) else remaining (an_counters s ! l))"
  by (simp add: bump_def nth_list_update)

lemma bump_both_balance:
  assumes "bump_both f i g j s = Inr s'" and "l < length (an_counters s)"
    and "\<And>c. remaining (f c) = remaining c" and "\<And>c. remaining (g c) = remaining c"
  shows "length (an_counters s') = length (an_counters s) \<and> balance l s' = balance l s"
proof -
  have "balance l (bump h k t) = balance l t" if "\<And>c. remaining (h c) = remaining c" "l < length (an_counters t)" for h k t
    using that by (auto simp: balance_def live_def remaining_bump)
  then show ?thesis using assms by (auto simp: bump_both_def elim!: bindR_eq_InrE)
qed

lemma an_step_balance:
  assumes "an_step x s = Inr s'" and "k < length (an_counters s)"
  shows "length (an_counters s') = length (an_counters s) \<and> balance k s' = balance k s - (if x = New k then 1 else 0)"
proof (cases x)
  case (New l)
  then show ?thesis using assms
    by (auto simp: annotate_new_def new_object_def balance_def live_def split: if_splits)
next
  case (Destroy i)
  then obtain l where l: "i < length (an_objects s)" "an_objects s ! i = Some l"
    "s' = (bump (ct_dtor_update (\<lambda>n. n + 1)) l s)\<lparr>an_objects := (an_objects s)[i := None]\<rparr>"
    using assms by (auto simp: annotate_destroy_def counters_of_Inr elim!: bindR_eq_InrE)
  from count_list_destroyed [OF l(1,2), of k]
  have "live k s = live k s' + (if l = k then 1 else 0)" by (simp add: l(3) live_def)
  then have "of_nat (live k s) = of_nat (live k s') + (if l = k then 1 else (0 :: 64 word))" by simp
  then show ?thesis using Destroy assms(2) remaining_bump [of k s "ct_dtor_update (\<lambda>n. n + 1)" l]
    by (auto simp: l(3) balance_def remaining_def)
next
  case (Copy j)
  then show ?thesis using assms
    by (auto simp: annotate_copy_def new_object_def balance_def live_def bump_def nth_list_update remaining_def elim!: bindR_eq_InrE)
next
  case (Move j)
  then show ?thesis using assms
    by (auto simp: annotate_move_def new_object_def balance_def live_def bump_def nth_list_update remaining_def elim!: bindR_eq_InrE)
qed (use assms bump_both_balance [of _ _ _ _ s _ k] in
    \<open>auto simp: annotate_copy_assign_def annotate_move_assign_def annotate_swap_def annotate_equal_def annotate_not_equal_def
       remaining_def elim!: bindR_eq_InrE\<close>)

lemma an_run_balance:
  "run_ops an_step xs s = Inr s' \<Longrightarrow> k < length (an_counters s) \<Longrightarrow> balance k s' = balance k s - of_nat (count_list xs (New k))"
proof (induction xs arbitrary: s)
  case (Cons x xs)
  then obtain t where t: "an_step x s = Inr t" "run_ops an_step xs t = Inr s'" by (auto elim: bindR_eq_InrE)
  from an_step_balance [OF t(1) Cons.prems(2)] Cons.IH [OF t(2)] Cons.prems(2) show ?case by auto
qed simp

text \<open>
  \<open>remaining\<close> is the number of objects alive when exactly one of them was constructed from the counters, the others being its
  copies, and too small by one for every further construction, which the code does not count.
\<close>

theorem remaining_counts:
  assumes "run_ops an_step xs (an_init n) = Inr s" and "k < n"
  shows "remaining (an_counters s ! k) = of_nat (live k s) + 1 - of_nat (count_list xs (New k))"
  using an_run_balance [OF assms(1), of k] assms(2)
  by (simp add: balance_def an_init_def live_def remaining_def annotate_counters_def algebra_simps)

theorem remaining_counts_witness:
  "\<exists>s. run_ops an_step [New 0, Copy 0, Move 1, Destroy 0, Swap 1 2] (an_init 1) = Inr s \<and> remaining (an_counters s ! 0) = 2"
proof -
  obtain s where s: "run_ops an_step [New 0, Copy 0, Move 1, Destroy 0, Swap 1 2] (an_init 1) = Inr s" "live 0 s = 2"
    by (simp add: an_init_def annotate_new_def annotate_copy_def annotate_move_def annotate_destroy_def annotate_swap_def
        bump_both_def counters_of_def new_object_def bump_def live_def nth_Cons split: nat.splits)
  from remaining_counts [OF s(1), of 0] s show ?thesis by simp
qed

section \<open>Waiting for a number of objects\<close>

text \<open>
  \<open>wait\<close>: the mutex is held from one test of the condition to the next wait. The destructors of objects, on other threads, do not
  take it: they count and then notify. Afterwards the test may destroy the counters.
\<close>

datatype wait_pc = Testing | Unmet | Blocked | Over | Gone

record waiting =
  wt_counters :: annotate_counters
  wt_pc :: wait_pc
  wt_notifying :: nat

datatype wait_op = Test | Block | Spurious | Leave | Count_Dtor | Notify_One | Count_Copy

fun wait_step :: "64 word \<Rightarrow> wait_op \<Rightarrow> waiting \<Rightarrow> waiting res" where
  "wait_step count Test s = Inr (if wt_pc s = Testing
     then (if count \<noteq> remaining (wt_counters s) then s\<lparr>wt_pc := Unmet\<rparr> else s\<lparr>wt_pc := Over\<rparr>) else s)"
| "wait_step count Block s = Inr (if wt_pc s = Unmet then s\<lparr>wt_pc := Blocked\<rparr> else s)"
| "wait_step count Spurious s = Inr (if wt_pc s = Blocked then s\<lparr>wt_pc := Testing\<rparr> else s)"
| "wait_step count Leave s = Inr (if wt_pc s = Over then s\<lparr>wt_pc := Gone\<rparr> else s)"
| "wait_step count Count_Dtor s = (if wt_pc s = Gone then Inl Bad_Handle else
     Inr (s\<lparr>wt_counters := ct_dtor_update (\<lambda>n. n + 1) (wt_counters s), wt_notifying := wt_notifying s + 1\<rparr>))"
| "wait_step count Notify_One s = (if wt_notifying s = 0 then Inr s else if wt_pc s = Gone then Inl Bad_Handle else
     Inr (s\<lparr>wt_notifying := wt_notifying s - 1, wt_pc := (if wt_pc s = Blocked then Testing else wt_pc s)\<rparr>))"
| "wait_step count Count_Copy s = (if wt_pc s = Gone then Inl Bad_Handle else
     Inr (s\<lparr>wt_counters := ct_copy_ctor_update (\<lambda>n. n + 1) (wt_counters s)\<rparr>))"

definition wait_init :: "annotate_counters \<Rightarrow> waiting" where
  "wait_init c = \<lparr>wt_counters = c, wt_pc = Testing, wt_notifying = 0\<rparr>"

text \<open>A destructor that counts and notifies between the test and the wait is missed, for any number of objects.\<close>

theorem wait_missed:
  assumes "remaining c = count + 1"
  shows "\<exists>s. run_ops (wait_step count) [Test, Count_Dtor, Notify_One, Block] (wait_init c) = Inr s \<and>
    wt_pc s = Blocked \<and> remaining (wt_counters s) = count \<and> wt_notifying s = 0 \<and>
    (\<forall>xs t. set xs \<subseteq> {Test, Block, Leave, Notify_One} \<longrightarrow> run_ops (wait_step count) xs s = Inr t \<longrightarrow> t = s)"
proof -
  let ?s = "\<lparr>wt_counters = ct_dtor_update (\<lambda>n. n + 1) c, wt_pc = Blocked, wt_notifying = 0\<rparr>"
  have "wait_step count x ?s = Inr ?s" if "x \<in> {Test, Block, Leave, Notify_One}" for x using that by auto
  then have stuck: "t = ?s" if "set xs \<subseteq> {Test, Block, Leave, Notify_One}" "run_ops (wait_step count) xs ?s = Inr t" for xs t
    using that by (induction xs) auto
  have run: "run_ops (wait_step count) [Test, Count_Dtor, Notify_One, Block] (wait_init c) = Inr ?s" using assms by (simp add: wait_init_def)
  have "remaining (ct_dtor_update (\<lambda>n. n + 1) c) = count" using assms by (simp add: remaining_def algebra_simps)
  with run stuck show ?thesis by (intro exI [of _ ?s] conjI allI impI) simp_all
qed

theorem wait_missed_witness:
  "\<exists>s. run_ops (wait_step 0) [Test, Count_Dtor, Notify_One, Block] (wait_init annotate_counters) = Inr s \<and>
    wt_pc s = Blocked \<and> remaining (wt_counters s) = 0"
proof -
  have "remaining annotate_counters = 0 + 1" by (simp add: remaining_def annotate_counters_def)
  from wait_missed [OF this] show ?thesis by blast
qed

text \<open>
  Were the mutex held over counting and notifying, both would fall before the test or after the wait. In such executions, without
  constructions that change the count unnoticed, a waiting test is woken: when no destructor is under way the condition does not hold.
\<close>

fun locked_ops :: "64 word \<Rightarrow> wait_op list \<Rightarrow> waiting \<Rightarrow> bool" where
  "locked_ops count [] s = True"
| "locked_ops count (x # xs) s = ((x \<in> {Count_Dtor, Notify_One} \<longrightarrow> wt_pc s \<noteq> Unmet) \<and> x \<noteq> Count_Copy \<and>
     (case wait_step count x s of Inl e \<Rightarrow> True | Inr t \<Rightarrow> locked_ops count xs t))"

definition wait_inv :: "64 word \<Rightarrow> waiting \<Rightarrow> bool" where
  "wait_inv count s \<longleftrightarrow> (wt_pc s = Unmet \<or> wt_pc s = Blocked \<and> wt_notifying s = 0 \<longrightarrow> remaining (wt_counters s) \<noteq> count)"

lemma wait_step_inv:
  "wait_step count x s = Inr t \<Longrightarrow> (x \<in> {Count_Dtor, Notify_One} \<longrightarrow> wt_pc s \<noteq> Unmet) \<Longrightarrow> x \<noteq> Count_Copy \<Longrightarrow>
   wait_inv count s \<Longrightarrow> wait_inv count t"
  by (cases x) (auto simp: wait_inv_def split: if_splits)

lemma wait_run_inv:
  "run_ops (wait_step count) xs s = Inr t \<Longrightarrow> locked_ops count xs s \<Longrightarrow> wait_inv count s \<Longrightarrow> wait_inv count t"
proof (induction xs arbitrary: s)
  case (Cons x xs)
  then obtain u where u: "wait_step count x s = Inr u" "run_ops (wait_step count) xs u = Inr t" by (auto elim: bindR_eq_InrE)
  with Cons.IH [OF u(2)] wait_step_inv [OF u(1)] Cons.prems show ?case by simp
qed simp

theorem wait_locked:
  assumes "run_ops (wait_step count) xs (wait_init c) = Inr s" and "locked_ops count xs (wait_init c)"
    and "wt_notifying s = 0" and "remaining (wt_counters s) = count"
  shows "wt_pc s \<in> {Testing, Over, Gone}"
  using wait_run_inv [OF assms(1,2)] assms(3,4) by (cases "wt_pc s") (auto simp: wait_inv_def wait_init_def)

theorem wait_locked_witness:
  "\<exists>s. run_ops (wait_step 0) [Test, Block, Count_Dtor, Notify_One] (wait_init annotate_counters) = Inr s \<and>
    wt_pc s \<in> {Testing, Over, Gone}"
proof -
  obtain s where s: "run_ops (wait_step 0) [Test, Block, Count_Dtor, Notify_One] (wait_init annotate_counters) = Inr s"
    "locked_ops 0 [Test, Block, Count_Dtor, Notify_One] (wait_init annotate_counters)"
    "wt_notifying s = 0" "remaining (wt_counters s) = 0"
    by (simp add: wait_init_def remaining_def annotate_counters_def)
  from wait_locked [OF this] s(1) show ?thesis by blast
qed

text \<open>A test that sees the count of a destructor before its notification may destroy the condition variable that is notified.\<close>

lemma wait_notifies_destroyed:
  "remaining c = count + 1 \<Longrightarrow> run_ops (wait_step count) [Count_Dtor, Test, Leave, Notify_One] (wait_init c) = Inl Bad_Handle"
  by (simp add: wait_init_def remaining_def algebra_simps)

text \<open>Nor is a construction that reaches the count notified.\<close>

lemma wait_misses_copy:
  "count = remaining c + 1 \<Longrightarrow> \<exists>s. run_ops (wait_step count) [Test, Block, Count_Copy] (wait_init c) = Inr s \<and>
    wt_pc s = Blocked \<and> remaining (wt_counters s) = count \<and> wt_notifying s = 0"
  by (simp add: wait_init_def remaining_def algebra_simps)

section \<open>The printing value\<close>

text \<open>The lines that \<open>regular\<close> prints, and the objects as their integers. References are to objects that exist; a destroyed object leaves the list.\<close>

datatype regular_line = Ctor int | Dtor int | Copy_Ctor int | Move_Ctor int | Assign_Line int | Move_Assign_Line int
  | Swap_Line int int | Less_Line int int bool

type_synonym regulars = "int list \<times> regular_line list"

fun regular_ctor :: "int \<Rightarrow> regulars \<Rightarrow> regulars" where
  "regular_ctor x (v, out) = (v @ [x], out @ [Ctor x])"

fun regular_dtor :: "nat \<Rightarrow> regulars \<Rightarrow> regulars" where
  "regular_dtor i (v, out) = (drop_nth i v, out @ [Dtor (v ! i)])"

fun regular_copy_ctor :: "nat \<Rightarrow> regulars \<Rightarrow> regulars" where
  "regular_copy_ctor j (v, out) = (v @ [v ! j], out @ [Copy_Ctor (v ! j)])"

fun regular_move_ctor :: "nat \<Rightarrow> regulars \<Rightarrow> regulars" where
  "regular_move_ctor j (v, out) = (v[j := 0] @ [v ! j], out @ [Move_Ctor (v ! j)])"

fun regular_assign :: "nat \<Rightarrow> nat \<Rightarrow> regulars \<Rightarrow> regulars" where
  "regular_assign i j (v, out) = (v[i := v ! j], out @ [Assign_Line (v ! i)])"

fun regular_move_assign :: "nat \<Rightarrow> nat \<Rightarrow> regulars \<Rightarrow> regulars" where
  "regular_move_assign i j (v, out) = ((v[i := v ! j])[j := 0], out @ [Move_Assign_Line (v ! i)])"

fun regular_swap :: "nat \<Rightarrow> nat \<Rightarrow> regulars \<Rightarrow> regulars" where
  "regular_swap i j (v, out) = (v[i := v ! j, j := v ! i], out @ [Swap_Line (v ! i) (v ! j)])"

fun regular_less :: "nat \<Rightarrow> nat \<Rightarrow> regulars \<Rightarrow> bool \<times> regulars" where
  "regular_less i j (v, out) = (v ! i < v ! j, v, out @ [Less_Line (v ! i) (v ! j) (v ! i < v ! j)])"

text \<open>Comparison for equality prints nothing.\<close>

fun regular_equal :: "nat \<Rightarrow> nat \<Rightarrow> regulars \<Rightarrow> bool \<times> regulars" where
  "regular_equal i j (v, out) = (v ! i = v ! j, v, out)"

definition regular_not_equal :: "nat \<Rightarrow> nat \<Rightarrow> regulars \<Rightarrow> bool \<times> regulars" where
  "regular_not_equal i j s = apfst Not (regular_equal i j s)"

text \<open>After a copy, by construction or assignment, the two objects are equal and no value is less than itself.\<close>

lemma regular_copy_equal:
  "j < length v \<Longrightarrow> fst (regular_equal (length v) j (regular_copy_ctor j (v, out)))"
  "i < length v \<Longrightarrow> fst (regular_equal i j (regular_assign i j (v, out)))"
  "i < length v \<Longrightarrow> \<not> fst (regular_less i j (regular_assign i j (v, out)))"
  by (cases "i = j"; simp add: nth_append)+

text \<open>Moving an object onto itself loses its value; moving it to another and back does not.\<close>

lemma regular_self_move: "i < length v \<Longrightarrow> fst (regular_move_assign i i (v, out)) = v[i := 0]"
  by simp

lemma regular_move_back:
  "i < length v \<Longrightarrow> j < length v \<Longrightarrow> i \<noteq> j \<Longrightarrow>
   fst (regular_move_assign j i (regular_move_assign i j (v, out))) = v[i := 0]"
  by (simp add: list_update_swap nth_list_update) (metis list_update_id list_update_overwrite list_update_swap)

end
