(* ===== verification/Spec2Isabelle.thy ===== *)
theory Spec2Isabelle
  imports Raw_Scheduler_Isr Seq_Fifo Rt_Clock Timers Pthreads Clock_Times Coop
    Actor_Cc98 Blocking_Queue Executors Serial_Queue Task_System System_Timer Cow Future_Shared When_All_Any
    Channel_Faults Channel_Yield Channel_Handles Channel_Merge_Results Future_Graph Task_Erased
    Blocking_Get Blocking_Post Future_Reduce Future_Coroutine Future_Unique Progress Executor_Delay
    Asio_Server Prio_Thread Tuple_Arguments Test_Model
begin

text \<open>
  A verification of the schedulers of this repository, in the theories listed below. Definitions
  are translated from the C and C++ sources under \<^verbatim>\<open>src/\<close>; file names below are
  relative to it.

  \<^bold>\<open>The program and its parts.\<close>
  \<^enum> A time-triggered co-operative scheduler, \<^verbatim>\<open>c89_c99_scheduler/.../scheduler_raw/sch51.c\<close>: a table of
    four tasks, a timer interrupt (\<open>SCH_Update\<close>) that counts delays and marks tasks as due, a
    dispatcher (\<open>SCH_Dispatch_Tasks\<close>) that runs and re-arms or deletes them, and an interface
    (\<open>SCH_Add_Task\<close>, \<open>SCH_Delete_Task\<close>) that tasks may call while they run.
  \<^enum> Four real-time sequencers, \<^verbatim>\<open>rtos_rte_cp/sequencer_generic/seqgen.c\<close>, \<^verbatim>\<open>seqgen2.c\<close>, \<^verbatim>\<open>seqgen3.c\<close> and
    \<^verbatim>\<open>seqgenex0.c\<close>: a \<open>main\<close> that creates the threads, a sequencer that posts the semaphores of
    service threads at sub-rates of its own, services that loop over their semaphore, and a
    shutdown that sets abort flags.
  \<^enum> Clock and timer programs: \<^verbatim>\<open>rtos_rte_cp/RT-Clock/posix_clock.c\<close>, \<^verbatim>\<open>rtos_rte_cp/timer/*.c\<close> and
    \<^verbatim>\<open>sequencer_generic/clock_times.c\<close>.
  \<^enum> Thread demonstrations \<^verbatim>\<open>rtos_rte_cp/simplethread*/pthread.c\<close> and \<^verbatim>\<open>rtos_rte_cp/main.cc\<close>, and a TCP server,
    \<^verbatim>\<open>asio/async_tcp_echo_server.cc\<close>.
  \<^enum> The skeleton of a co-operative scheduler with a virtual machine of device channels,
    \<^verbatim>\<open>c89_c99_scheduler/.../{scheduler,tasks,vm}\<close>.
  \<^enum> Thread-safe queues and active objects, \<^verbatim>\<open>data_structures.h\<close>, \<^verbatim>\<open>executors/safe_queue_cc11.h\<close>,
    \<^verbatim>\<open>executors/actors_cc11.h\<close>, \<^verbatim>\<open>actors_cc98.h\<close>.
  \<^enum> Thread pools over Boost.Asio and registries of executors, \<^verbatim>\<open>thread_pools.cc\<close>, \<^verbatim>\<open>threading.h\<close>,
    \<^verbatim>\<open>threading.cc\<close>, and a registry over Qt, \<^verbatim>\<open>threading/threading.cc\<close>.
  \<^enum> The concurrency library the repository carries and has cut down,
    \<^verbatim>\<open>deps/clean_stlab\<close> and \<^verbatim>\<open>deps/clean_stlab_trash\<close>: a task system with priorities (\<^verbatim>\<open>default_executor.hpp\<close>), a timer
    (\<^verbatim>\<open>system_timer.hpp\<close>), a serial queue (\<^verbatim>\<open>serial_queue.hpp\<close>), type-erased functions (\<^verbatim>\<open>task.hpp\<close>), copy-on-write values
    (\<^verbatim>\<open>copy_on_write.hpp\<close>), futures
    with continuations (\<^verbatim>\<open>future.hpp\<close>), blocking calls on them (\<^verbatim>\<open>utility.hpp\<close>), channels between processes
    (\<^verbatim>\<open>channel.hpp\<close>), delayed execution (\<^verbatim>\<open>executor_base.hpp\<close>) and a progress tracker (\<^verbatim>\<open>progress.hpp\<close>). Futures and
    channels hand their tasks to an executor, which may be the task system, the timer or a serial queue.

  \<^bold>\<open>The theories.\<close>
  \<^item> \<open>Prelude\<close>: faults and the result type \<open>'a res\<close>, bounds-checked arrays, the C \<open>for\<close> loop
    \<open>for_up\<close> with its rule for total correctness, the locale \<open>safe_machine\<close> of a component whose
    operations keep an invariant and never fault, C integer conversions, counting lemmas.
  \<^item> \<open>Posix\<close>: time values, error numbers, scheduling policies, semaphores (locale
    \<open>counting_semaphore\<close>, interpreted on \<open>sem_post\<close> and \<open>sem_wait\<close>).
  \<^item> \<open>Raw_Scheduler\<close>: the records \<open>sTask\<close> and \<open>sched\<close> (\<open>SCH_tasks_G\<close>, \<open>Error_code_G\<close>) and one
    definition per function of \<^verbatim>\<open>sch51.c\<close>. Tasks are an argument of the dispatcher: a function from
    task identities to what a call does to the table and to an outside world. \<open>'w\<close> is the width
    of \<open>tWord\<close>. Its lemmas say what each operation does to each slot. \<open>Raw_Scheduler_Timing\<close>
    refines ticks and dispatches to an abstract schedule and gives the interval and the backlog
    of releases; \<open>Raw_Scheduler_Props\<close> has the invariant, the round trips and the error
    branches; \<open>Raw_Scheduler_Isr\<close> has the interrupt between the stores of \<open>SCH_Add_Task\<close>, and
    a step machine in which it falls at any point of the dispatcher and between any two stores of
    the interface functions. The slot that \<open>SCH_Add_Task\<close> reads behind a full table is an argument: a fault, unless that memory can be read.
  \<^item> \<open>Seq_Programs\<close>: the sequencer functions as the list of actions they perform (sleep, post,
    abort, set timer), given the results of the system calls, and the tables of services.
    \<open>Seq_Spec\<close> is the abstract sequencer over a table of periods (locale \<open>release_table\<close>,
    interpreted for the four programs), \<open>Seq_Runs\<close> the refinement theorems, release counts and
    the error paths of the sleeping code. \<open>Seq_System\<close> is the interleaving of sequencer and
    services (locale \<open>service_table\<close>, interpreted for the four programs) with conservation of
    releases and termination; \<open>Seq_Shutdown\<close> shows how executions end: with all services exited
    under priority scheduling on one core, or possibly in a deadlock on several cores. \<open>Seq_Fifo\<close> is the scheduling by the
    attributes of the threads that \<open>main\<close> created.
    \<open>Seq_Main\<close> has the \<open>main\<close> functions, \<open>Seq_Main_Props\<close> the threads they create and their
    error exits.
  \<^item> \<open>Rt_Clock\<close>, \<open>Timers\<close>, \<open>Pthreads\<close>, \<open>Clock_Times\<close>, \<open>Coop\<close>: the remaining C programs, each with its
    static variables as a record and its functions as definitions; \<open>Prio_Thread\<close> and \<open>Asio_Server\<close>: the thread priority test and
    the TCP server.
  \<^item> \<open>Queues\<close>: the queues (locale \<open>fifo\<close>, interpreted on \<open>bounded_try_queue\<close>) and the active object;
    \<open>Blocking_Queue\<close>: the blocking operations of \<open>bounded_try_queue\<close>; \<open>Actor_Cc98\<close>: the C++98 actor, refined to the
    same abstract actor.
  \<^item> \<open>Executors\<close>: pools, registries and their executors over an abstract \<open>io_service\<close>. \<open>Blocking_Post\<close>: the call
    \<open>executors::post\<close>, which waits for its task, between any number of threads: what it returns, when it cannot
    deadlock, and the call from the thread it waits for, which does.
  \<^item> \<open>Task_System\<close>, \<open>System_Timer\<close>, \<open>Serial_Queue\<close>: the executors of stlab as machines whose steps are critical
    sections, waits, notifications and calls of tasks, for any number of threads. Each is refined (locale
    \<open>refining_machine\<close> of \<open>Prelude\<close>) to the multiset or list of its tasks, from which conservation and order follow; liveness,
    priorities and the lost notifications of the task system are shown beside it. \<open>Binary_Heap\<close> provides the heap
    algorithms of the timer (locale \<open>timed_heap\<close>).
  \<^item> \<open>Cow\<close>: copy-on-write objects over an explicit heap, refined to plain values. \<open>Task_Erased\<close>: the type-erased function
    \<open>task\<close> with its tables of functions, its buffer and its heap, refined to what each task holds.
  \<^item> \<open>Future_Shared\<close>: one shared state of a future, with every interleaving of the threads that call, attach,
    read and break promises. \<open>When_All_Any\<close>: the contexts of \<open>when_all\<close> and \<open>when_any\<close>;
    \<open>Tuple_Arguments\<close>: how the first calls its function without the results of \<open>void\<close> futures. \<open>Future_Graph\<close>: the states a
    program builds by \<open>async\<close>, \<open>package\<close>, \<open>then\<close> and \<open>recover\<close>, their lifetimes, what becomes of results,
    broken promises and dropped futures, and calls of one packaged task that overlap. \<open>Future_Unique\<close>: the states with a move-only result. \<open>Future_Reduce\<close>: a task that returns
    a future, and the two continuations that flatten it. \<open>Future_Coroutine\<close>: \<open>co_await\<close> and the promise type of
    coroutines.
  \<^item> \<open>Blocking_Get\<close>: ready futures and \<open>blocking_get\<close> with its mutex, flag and condition variable, with and without a time limit.
    \<open>Executor_Delay\<close>: the executors that \<open>execute_at\<close> and \<open>execute_delayed\<close> make. \<open>Progress\<close>: the counts of the progress tracker.
    \<open>Test_Model\<close>: the counting and printing values of the tests, and the wait for the counts.
  \<^item> \<open>Channel_Queues\<close>: the four queue strategies (locale \<open>queue_strategy\<close>). \<open>Channel_Net\<close>: networks of processes, whose
    threads are stacks of calls in progress. \<open>Channel_Inv\<close>, \<open>Channel_Serial\<close>: their control invariant, and that a process is
    called by one thread at a time. \<open>Channel_Data\<close>, \<open>Channel_Live\<close>: what flows and what keeps it flowing. \<open>Channel_Drain\<close>,
    \<open>Channel_Results\<close>: a network comes to rest and has then handled every message, in order; closing reaches
    all of it. \<open>Channel_Faults\<close>: exceptions, buffers of other sizes and destroyed receivers. \<open>Channel_Yield\<close>:
    processes with \<open>await\<close> and \<open>yield\<close>. \<open>Channel_Handles\<close>: the counts of senders and receivers, and annotations.
    \<open>Channel_Merge\<close>: one process with several upstream processes and either kind of result, between sources and attached processes
    that act when they like; \<open>Channel_Merge_Props\<close>: its invariant, for any strategy that meets the contract;
    \<open>Channel_Merge_Results\<close>: it comes to rest (locale \<open>resting_machine\<close> of \<open>Prelude\<close>), and what each combinator has done then.
  \<^item> This theory: the property that spans \<open>main\<close>, the sequencer, the services and their scheduling.

  \<^bold>\<open>Conventions.\<close> Results of system calls are arguments of the definitions; what a theorem needs of
  them (for example that \<open>nanosleep\<close> returns 0 or -1) is a named hypothesis that states documented
  behaviour. Loops are structural or have a termination proof. Only two loops carry fuel, the
  delay loops of \<^verbatim>\<open>seqgen.c\<close> and \<^verbatim>\<open>seqgenex0.c\<close>, because they need not end: one unit of fuel is
  enough for the first when \<open>nanosleep\<close> returns 0 or -1, and for the second any number larger
  than that of consecutive interruptions; that they return then is part of the theorems, and so
  is that the first can run for ever. Counters that the code declares unsigned are words of
  their width; \<open>int\<close> values are reduced by \<open>to_int32\<close> where the code can overflow them.
  Floating-point numbers are exact rationals.

  Concurrent components are machines: \<open>run_ops step ops s\<close> runs a list of steps, and a theorem about all such lists is
  a theorem about all interleavings. Steps that the state does not allow leave it unchanged; a fault (a
  null call, an index out of range, a use after the end) is an \<open>Inl\<close>, so that a theorem that a run gives \<open>Inr\<close> excludes
  them. Liveness is stated by the existence of a bound on the steps of a schedule and of the state it leads to.
  A condition variable is a set of waiting threads; waits may wake spuriously where the code has to
  cope with it. Atomic operations are sequentially consistent, as the code's are by default.

  \<^bold>\<open>What is not modelled.\<close> Clock readings in log lines; \<open>ccnt_read\<close> and the kernel module of
  \<^verbatim>\<open>raspbian-ccr\<close> (single register accesses). The decoding of identifiers in the registries. Of stlab: the branches for
  libdispatch, PNaCl, Windows and the event loops of Qt and of the operating systems, which call the system; networks of channels
  in which processes with several upstream processes occur among others (single ones are modelled);
  the other computations on types and the headers that only forward to the standard library. Further: other tests and talk examples, the
  unchanged copy of the library under \<^verbatim>\<open>deps/libraries-1.5.0\<close>, the C\# and Go programs.
\<close>

section \<open>A whole program\<close>

text \<open>
  C7. The program seqgenex0.c as a whole: when its calls succeed, \<open>main\<close> creates exactly four threads, all under \<open>SCHED_FIFO\<close> and bound to
  core 3: the sequencer at the highest priority and the three services one, two and three below it. The sequencer, run for the periods
  that \<open>main\<close> has set, posts 1201, 241 and 161 releases; and in every completed execution in which a thread runs only while no
  thread that outranks it, by the attributes \<open>main\<close> gave it, is ready, the sequencer and all services have exited.
\<close>
theorem seqgenex0_end_to_end:
  assumes "os_ready os" and "\<And>i. create_rc os i = 0" and "seqgenex0_main os = Inr m"
    and "clock_nanosleep_ok fuel ns"
    and "seqgenex0_Sequencer fuel ns tm0 tm rt st (\<lambda>_. False) (periods_param m) = Some (as, x)"
    and "reach (fifo_allowed (created m) seqgenex0_services) seqgenex0_services as s"
    and "fifo_final (created m) seqgenex0_services s"
  shows "created m =
      [fifo_thread (Service_entry 1) (prio_max os - 1) (Some [3]) 1,
       fifo_thread (Service_entry 2) (prio_max os - 2) (Some [3]) 2,
       fifo_thread (Service_entry 3) (prio_max os - 3) (Some [3]) 3,
       fifo_thread Sequencer_entry (prio_max os) (Some [3]) 0] \<and>
    map (\<lambda>i. count_list as (Post i)) [0..<3] = [1201, 241, 161] \<and> x = None \<and> all_exited s"
proof -
  have m: "periods_param m = RTSEQ_PERIODS" "created m = seqgenex0_threads (prio_max os)"
    using seqgenex0_main_threads [OF assms(1,2)] assms(3) by (simp_all add: RTSEQ_PERIODS_def seqgenex0_threads_def)
  have "reach prio_allowed seqgenex0_services as s" "prio_final seqgenex0_services s"
    using reach_mono [OF assms(6)] seqgenex0_fifo_prio seqgenex0_fifo_final assms(7) unfolding m(2) by blast+
  then have "x = None \<and> all_exited s"
    using seqgenex0_exits [OF assms(4) full_seqgenex0] assms(5) m(1) by simp
  moreover have "map (\<lambda>i. count_list as (Post i)) [0..<3] = [1201, 241, 161]"
    using seqgenex0_release_counts [OF assms(4), of tm0 tm rt st] assms(5) m(1) by auto
  ultimately show ?thesis by (simp add: m(2) seqgenex0_threads_def)
qed

theorem seqgenex0_end_to_end_witness:
  "\<exists>m as s. seqgenex0_main os_fine = Inr m \<and>
    seqgenex0_Sequencer 1 (\<lambda>_ _. 0) seqgen_delay_time (\<lambda>_. seqgen_delay_time)
      (\<lambda>_. seqgen_delay_time) 0 (\<lambda>_. False) (periods_param m) = Some (as, None) \<and>
    reach (fifo_allowed (created m) seqgenex0_services) seqgenex0_services as s \<and> all_exited s"
proof -
  have os: "os_ready os_fine" "\<And>i. create_rc os_fine i = 0"
    by (simp_all add: os_ready_def os_fine_def)
  then obtain m where m: "seqgenex0_main os_fine = Inr m" "periods_param m = RTSEQ_PERIODS"
    using seqgenex0_main_threads [OF os] by (auto simp: RTSEQ_PERIODS_def)
  have ok: "clock_nanosleep_ok 1 (\<lambda>_ _. 0)" by (simp add: clock_nanosleep_ok_def EINTR_def)
  obtain as where as: "seqgenex0_Sequencer 1 (\<lambda>_ _. 0) seqgen_delay_time (\<lambda>_. seqgen_delay_time)
      (\<lambda>_. seqgen_delay_time) 0 (\<lambda>_. False) (periods_param m) = Some (as, None)"
    using seqgenex0_release_counts [OF ok] m(2) by fastforce
  obtain s where s: "reach (fifo_allowed (created m) seqgenex0_services) seqgenex0_services as s"
    "fifo_final (created m) seqgenex0_services s"
    using fifo_final_exists by blast
  from seqgenex0_end_to_end [OF os m(1) ok as s] m(1) as s(1) show ?thesis by blast
qed

end
